(* ===== verification/Prelude.thy ===== *)
theory Prelude
  imports Main "HOL-Library.Word" "HOL-Library.Code_Target_Nat"
begin

text \<open>
  Shared vocabulary of the development: the widths of the C++ integer types used by
  libktorrent (\<^verbatim>\<open>src/src/util/constants.h\<close>), byte sequences, a bind operation for results
  that carry a thrown error, and generic facts on lists, sums and words that several
  components use.
\<close>

unbundle bit_operations_syntax

section \<open>Integer types\<close>

type_synonym byte = "8 word"
type_synonym u16 = "16 word"
type_synonym u32 = "32 word"
type_synonym u64 = "64 word"

section \<open>Collections of facts\<close>

named_theorems result_simps
named_theorems len_simps

section \<open>Results that may carry an error\<close>

text \<open>
  A C++ function that may throw is a function into \<^typ>\<open>'e + 'a\<close>: \<^const>\<open>Inl\<close> is the thrown
  error, \<^const>\<open>Inr\<close> the value returned. \<open>rbind\<close> runs a continuation on the value and
  propagates the error, as an exception does.
\<close>

definition rbind :: "'e + 'a \<Rightarrow> ('a \<Rightarrow> 'e + 'b) \<Rightarrow> 'e + 'b" where
  "rbind r f = (case r of Inl e \<Rightarrow> Inl e | Inr x \<Rightarrow> f x)"

lemma rbind_simps [simp, result_simps]:
  "rbind (Inl e) f = Inl e"
  "rbind (Inr x) f = f x"
  by (simp_all add: rbind_def)

lemma rbind_cong [fundef_cong]:
  assumes "r = r'" and "\<And>x. r' = Inr x \<Longrightarrow> f x = f' x"
  shows "rbind r f = rbind r' f'"
  using assms by (auto simp: rbind_def split: sum.splits)

lemma rbind_eq_Inr [result_simps]:
  "rbind r f = Inr y \<longleftrightarrow> (\<exists>x. r = Inr x \<and> f x = Inr y)"
  by (cases r) auto

lemma rbind_eq_Inl [result_simps]:
  "rbind r f = Inl e \<longleftrightarrow> r = Inl e \<or> (\<exists>x. r = Inr x \<and> f x = Inl e)"
  by (cases r) auto

lemma rbindE [elim!]:
  assumes "rbind r f = Inr y"
  obtains x where "r = Inr x" and "f x = Inr y"
  using assms by (auto simp: result_simps)

section \<open>Slices of a byte array\<close>

text \<open>\<open>sliced xs off n\<close> is Qt's \<^verbatim>\<open>QByteArrayView::sliced(off, n)\<close> on arguments in range.\<close>

definition sliced :: "'a list \<Rightarrow> nat \<Rightarrow> nat \<Rightarrow> 'a list" where
  "sliced xs off n = take n (drop off xs)"

lemma length_sliced [len_simps]:
  "off + n \<le> length xs \<Longrightarrow> length (sliced xs off n) = n"
  by (simp add: sliced_def)

lemma sliced_append [simp]:
  "sliced (pre @ xs @ suf) (length pre) (length xs) = xs"
  by (simp add: sliced_def)

lemma sliced_append_nil [simp]:
  "sliced (xs @ suf) 0 (length xs) = xs"
  by (simp add: sliced_def)

section \<open>Bounds of words\<close>

lemma unat_lt2p: "unat (w :: 'a::len word) < 2 ^ LENGTH('a)"
  by (rule unsigned_less)

lemma unat_byte: "unat (b :: byte) < 256"
  using unat_lt2p [of b] by simp

lemma unat_u16: "unat (w :: u16) < 65536"
  using unat_lt2p [of w] by simp

lemma unat_u32: "unat (w :: u32) < 4294967296"
  using unat_lt2p [of w] by simp

lemma unat_u64: "unat (w :: u64) < 18446744073709551616"
  using unat_lt2p [of w] by simp

lemmas unat_bounds = unat_byte unat_u16 unat_u32 unat_u64

lemma unat_ucast_u64: "unat (ucast (w :: u32) :: u64) = unat w"
  using unat_u32 [of w] by (simp add: unsigned_ucast_eq take_bit_nat_eq_self_iff)

end
