(* ===== verification/Bcodec.thy ===== *)
theory Bcodec
  imports Prelude
begin

text \<open>
  Bencoding, \<^verbatim>\<open>src/src/bcodec/\<close>: the values and nodes of a decoded tree
  (\<^verbatim>\<open>value.cpp\<close>, \<^verbatim>\<open>bnode.cpp\<close>), the recursive-descent decoder (\<^verbatim>\<open>bdecoder.cpp\<close>) and the
  encoder (\<^verbatim>\<open>bencoder.cpp\<close>). Byte arrays are \<^typ>\<open>string\<close>. Qt's conversions between
  integers and decimal text are parameters (\<open>number\<close>, \<open>to_int\<close>, \<open>to_long_long\<close>); the locale
  \<open>qt_decimal\<close> states what their documentation promises.

  The theorems: the decoder returns on every input (the fuel of the model is never
  exhausted), it always moves forward and never past the end, every node carries exactly
  the bytes it was decoded from, and decoding what the encoder wrote gives the tree back.
\<close>

section \<open>Values and nodes\<close>

text \<open>\<^verbatim>\<open>bt::Value\<close>: a type tag with an integer or string payload.\<close>

datatype bvalue = V_STRING string | V_INT int | V_INT64 int

text \<open>The constructor \<^verbatim>\<open>Value(Int64)\<close> leaves \<^verbatim>\<open>ival\<close> uninitialised: reading it is \<^const>\<open>None\<close>.\<close>

fun toInt :: "bvalue \<Rightarrow> int option" where
  "toInt (V_STRING _) = Some 0"
| "toInt (V_INT i) = Some i"
| "toInt (V_INT64 _) = None"

fun toInt64 :: "bvalue \<Rightarrow> int" where
  "toInt64 (V_STRING _) = 0"
| "toInt64 (V_INT i) = i"
| "toInt64 (V_INT64 i) = i"

fun toByteArrayView :: "bvalue \<Rightarrow> string" where
  "toByteArrayView (V_STRING s) = s"
| "toByteArrayView (V_INT _) = []"
| "toByteArrayView (V_INT64 _) = []"

text \<open>
  \<^verbatim>\<open>bt::BNode\<close> and its three subclasses. The last component of each is the view
  \<^verbatim>\<open>BNode::data\<close> of the bencoded bytes. A dictionary is the vector of its entries, in the
  order they were inserted.
\<close>

datatype bnode =
    BValueNode bvalue string
  | BDictNode "(string \<times> bnode) list" string
  | BListNode "bnode list" string

fun getBytes :: "bnode \<Rightarrow> string" where
  "getBytes (BValueNode _ b) = b"
| "getBytes (BDictNode _ b) = b"
| "getBytes (BListNode _ b) = b"

fun setBytes :: "string \<Rightarrow> bnode \<Rightarrow> bnode" where
  "setBytes b (BValueNode v _) = BValueNode v b"
| "setBytes b (BDictNode c _) = BDictNode c b"
| "setBytes b (BListNode c _) = BListNode c b"

type_synonym bdict = "(string \<times> bnode) list"

definition dict_keys :: "bdict \<Rightarrow> string list" where
  "dict_keys children = map fst children"

definition dict_insert :: "string \<Rightarrow> bnode \<Rightarrow> bdict \<Rightarrow> bdict" where
  "dict_insert key node children = children @ [(key, node)]"

text \<open>\<^verbatim>\<open>getData\<close> returns the first entry with the key (\<^verbatim>\<open>std::find_if\<close>), or \<^verbatim>\<open>nullptr\<close>.\<close>

fun getData :: "bdict \<Rightarrow> string \<Rightarrow> bnode option" where
  "getData [] key = None"
| "getData ((k, n) # children) key = (if k = key then Some n else getData children key)"

definition as_dict :: "bnode option \<Rightarrow> bdict option" where
  "as_dict n = (case n of Some (BDictNode c _) \<Rightarrow> Some c | _ \<Rightarrow> None)"

definition as_list :: "bnode option \<Rightarrow> bnode list option" where
  "as_list n = (case n of Some (BListNode c _) \<Rightarrow> Some c | _ \<Rightarrow> None)"

definition as_value :: "bnode option \<Rightarrow> bvalue option" where
  "as_value n = (case n of Some (BValueNode v _) \<Rightarrow> Some v | _ \<Rightarrow> None)"

definition getDict :: "bdict \<Rightarrow> string \<Rightarrow> bdict option" where
  "getDict d key = as_dict (getData d key)"

definition getList :: "bdict \<Rightarrow> string \<Rightarrow> bnode list option" where
  "getList d key = as_list (getData d key)"

definition getValue :: "bdict \<Rightarrow> string \<Rightarrow> bvalue option" where
  "getValue d key = as_value (getData d key)"

datatype access_error = Key_not_found | Incompatible_type | Index_out_of_range

text \<open>The typed readers shared by \<^verbatim>\<open>BDictNode\<close> and \<^verbatim>\<open>BListNode\<close>: \<^verbatim>\<open>getInt\<close>, \<^verbatim>\<open>getInt64\<close> and
  \<^verbatim>\<open>getByteArray\<close> throw when the value is missing or of another type.\<close>

definition value_int :: "bvalue option \<Rightarrow> access_error + int" where
  "value_int v = (case v of
      None \<Rightarrow> Inl Key_not_found
    | Some (V_INT i) \<Rightarrow> Inr i
    | Some _ \<Rightarrow> Inl Incompatible_type)"

definition value_int64 :: "bvalue option \<Rightarrow> access_error + int" where
  "value_int64 v = (case v of
      None \<Rightarrow> Inl Key_not_found
    | Some (V_STRING _) \<Rightarrow> Inl Incompatible_type
    | Some w \<Rightarrow> Inr (toInt64 w))"

definition value_bytes :: "bvalue option \<Rightarrow> access_error + string" where
  "value_bytes v = (case v of
      None \<Rightarrow> Inl Key_not_found
    | Some (V_STRING s) \<Rightarrow> Inr s
    | Some _ \<Rightarrow> Inl Incompatible_type)"

definition dict_getInt :: "bdict \<Rightarrow> string \<Rightarrow> access_error + int" where
  "dict_getInt d key = value_int (getValue d key)"

definition dict_getInt64 :: "bdict \<Rightarrow> string \<Rightarrow> access_error + int" where
  "dict_getInt64 d key = value_int64 (getValue d key)"

definition dict_getByteArray :: "bdict \<Rightarrow> string \<Rightarrow> access_error + string" where
  "dict_getByteArray d key = value_bytes (getValue d key)"

text \<open>\<^verbatim>\<open>BListNode::getChild\<close> indexes a vector: out of range is undefined, here an error.\<close>

definition getChild :: "bnode list \<Rightarrow> nat \<Rightarrow> access_error + bnode" where
  "getChild l idx = (if idx < length l then Inr (l ! idx) else Inl Index_out_of_range)"

definition list_append :: "bnode \<Rightarrow> bnode list \<Rightarrow> bnode list" where
  "list_append node children = children @ [node]"

definition list_getList :: "bnode list \<Rightarrow> nat \<Rightarrow> access_error + bnode list option" where
  "list_getList l idx = rbind (getChild l idx) (\<lambda>n. Inr (as_list (Some n)))"

definition list_getDict :: "bnode list \<Rightarrow> nat \<Rightarrow> access_error + bdict option" where
  "list_getDict l idx = rbind (getChild l idx) (\<lambda>n. Inr (as_dict (Some n)))"

definition list_getValue :: "bnode list \<Rightarrow> nat \<Rightarrow> access_error + bvalue option" where
  "list_getValue l idx = rbind (getChild l idx) (\<lambda>n. Inr (as_value (Some n)))"

definition list_getInt :: "bnode list \<Rightarrow> nat \<Rightarrow> access_error + int" where
  "list_getInt l idx = rbind (list_getValue l idx) value_int"

definition list_getInt64 :: "bnode list \<Rightarrow> nat \<Rightarrow> access_error + int" where
  "list_getInt64 l idx = rbind (list_getValue l idx) value_int64"

definition list_getByteArray :: "bnode list \<Rightarrow> nat \<Rightarrow> access_error + string" where
  "list_getByteArray l idx = rbind (list_getValue l idx) value_bytes"

section \<open>The decoder\<close>

datatype decode_error =
    Illegal_token char
  | Decode_error
  | Unexpected_end
  | Cannot_convert string
  | Incomplete
  | Undefined_behaviour
  | Out_of_fuel

type_synonym 'a parsed = "decode_error + ('a \<times> nat)"

text \<open>\<^verbatim>\<open>(Uint32)data.size()\<close>.\<close>

definition usize :: "string \<Rightarrow> nat" where
  "usize data = length data mod 2 ^ 32"

definition is_digit :: "char \<Rightarrow> bool" where
  "is_digit c \<longleftrightarrow> 48 \<le> (of_char c :: nat) \<and> (of_char c :: nat) \<le> 57"

text \<open>The scan \<^verbatim>\<open>while (pos < size && data[pos] != c) pos++\<close>, by the number of bytes left.\<close>

fun scan_to :: "nat \<Rightarrow> char \<Rightarrow> string \<Rightarrow> nat \<Rightarrow> nat" where
  "scan_to 0 c data pos = pos"
| "scan_to (Suc n) c data pos = (if data ! pos = c then pos else scan_to n c data (Suc pos))"

definition find_byte :: "char \<Rightarrow> string \<Rightarrow> nat \<Rightarrow> nat" where
  "find_byte c data pos = scan_to (usize data - pos) c data pos"

text \<open>
  The length prefix of a string, accumulated in a 32-bit \<^verbatim>\<open>int\<close>:
  \<^verbatim>\<open>len = (len << 3) + (len << 1) + n\<close>. A left shift of a signed integer wraps; a signed
  addition that overflows is undefined behaviour.
\<close>

definition add_int32 :: "int \<Rightarrow> int \<Rightarrow> decode_error + int" where
  "add_int32 a b = (if - (2 ^ 31) \<le> a + b \<and> a + b < 2 ^ 31 then Inr (a + b)
                    else Inl Undefined_behaviour)"

definition len_step :: "int \<Rightarrow> int \<Rightarrow> decode_error + int" where
  "len_step len n =
     rbind (add_int32 (signed_take_bit 31 (len * 8)) (signed_take_bit 31 (len * 2)))
       (\<lambda>s. add_int32 s n)"

fun parse_len :: "string \<Rightarrow> int \<Rightarrow> decode_error + int option" where
  "parse_len [] len = Inr (Some len)"
| "parse_len (c # cs) len =
     (if \<not> is_digit c then Inr None
      else rbind (len_step len (int (of_char c) - 48)) (parse_len cs))"

definition parseString :: "string \<Rightarrow> nat \<Rightarrow> bnode option parsed" where
  "parseString data off =
     (let colon = find_byte CHR '':'' data off;
          prefix = sliced data off (colon - off)
      in if usize data \<le> colon then Inl Unexpected_end
         else rbind (parse_len prefix 0) (\<lambda>r. case r of
             None \<Rightarrow> Inl (Cannot_convert prefix)
           | Some len \<Rightarrow>
               if len < 0 then Inl (Cannot_convert prefix)
               else let pos = colon + 1; n = nat len in
                 if usize data < (pos + n) mod 2 ^ 32 then Inl Incomplete
                 else if length data < pos + n then Inl Undefined_behaviour
                 else Inr (Some (BValueNode (V_STRING (sliced data pos n))
                             (sliced data off ((pos + n - off) mod 2 ^ 32))), (pos + n) mod 2 ^ 32)))"

definition parseInt ::
  "(string \<Rightarrow> int option) \<Rightarrow> (string \<Rightarrow> int option) \<Rightarrow> string \<Rightarrow> nat \<Rightarrow> bnode option parsed"
where
  "parseInt to_int to_long_long data off =
     (let e = find_byte CHR ''e'' data (off + 1);
          n = sliced data (off + 1) (e - (off + 1));
          bytes = sliced data off (e + 1 - off)
      in if usize data \<le> e then Inl Unexpected_end
         else case to_int n of
             Some val \<Rightarrow> Inr (Some (BValueNode (V_INT val) bytes), e + 1)
           | None \<Rightarrow> (case to_long_long n of
               Some bi \<Rightarrow> Inr (Some (BValueNode (V_INT64 bi) bytes), e + 1)
             | None \<Rightarrow> Inl (Cannot_convert n)))"

text \<open>
  \<^verbatim>\<open>decode\<close>, \<^verbatim>\<open>parseDict\<close> and \<^verbatim>\<open>parseList\<close> call each other. \<open>parseDict\<close> and \<open>parseList\<close> take
  the decoder they call as the argument \<open>dec\<close>, and \<open>decode_f\<close> ties the knot with one unit
  of fuel per nesting level and per loop iteration. The position is threaded through;
  \<^const>\<open>None\<close> is the null pointer \<^verbatim>\<open>decode\<close> returns at the end of the input.
\<close>

primrec parseDict_loop ::
  "nat \<Rightarrow> (nat \<Rightarrow> bnode option parsed) \<Rightarrow> string \<Rightarrow> bdict \<Rightarrow> nat \<Rightarrow> bdict parsed"
where
  "parseDict_loop 0 dec data cur pos = Inl Out_of_fuel"
| "parseDict_loop (Suc fuel) dec data cur pos =
     (if pos < usize data \<and> data ! pos \<noteq> CHR ''e'' then
        rbind (dec pos) (\<lambda>(kn, p1).
          case as_value kn of
            Some (V_STRING key) \<Rightarrow>
              rbind (dec p1) (\<lambda>(v, p2).
                case v of
                  None \<Rightarrow> Inl Decode_error
                | Some value \<Rightarrow> parseDict_loop fuel dec data (dict_insert key value cur) p2)
          | _ \<Rightarrow> Inl Decode_error)
      else if usize data \<le> pos \<or> data ! pos \<noteq> CHR ''e'' then Inl Unexpected_end
      else Inr (cur, pos + 1))"

definition parseDict ::
  "nat \<Rightarrow> (nat \<Rightarrow> bnode option parsed) \<Rightarrow> string \<Rightarrow> nat \<Rightarrow> bnode option parsed"
where
  "parseDict fuel dec data off =
     rbind (parseDict_loop fuel dec data [] (off + 1))
       (\<lambda>(cur, pos). Inr (Some (BDictNode cur (sliced data off (pos - off))), pos))"

primrec parseList_loop ::
  "nat \<Rightarrow> (nat \<Rightarrow> bnode option parsed) \<Rightarrow> string \<Rightarrow> bnode list \<Rightarrow> nat \<Rightarrow> bnode list parsed"
where
  "parseList_loop 0 dec data cur pos = Inl Out_of_fuel"
| "parseList_loop (Suc fuel) dec data cur pos =
     (if pos < usize data \<and> data ! pos \<noteq> CHR ''e'' then
        rbind (dec pos) (\<lambda>(n, p1).
          case n of
            None \<Rightarrow> parseList_loop fuel dec data cur p1
          | Some node \<Rightarrow> parseList_loop fuel dec data (list_append node cur) p1)
      else if usize data \<le> pos \<or> data ! pos \<noteq> CHR ''e'' then Inl Unexpected_end
      else Inr (cur, pos + 1))"

definition parseList ::
  "nat \<Rightarrow> (nat \<Rightarrow> bnode option parsed) \<Rightarrow> string \<Rightarrow> nat \<Rightarrow> bnode option parsed"
where
  "parseList fuel dec data off =
     rbind (parseList_loop fuel dec data [] (off + 1))
       (\<lambda>(cur, pos). Inr (Some (BListNode cur (sliced data off (pos - off))), pos))"

primrec decode_f ::
  "nat \<Rightarrow> (string \<Rightarrow> int option) \<Rightarrow> (string \<Rightarrow> int option) \<Rightarrow> string \<Rightarrow> nat \<Rightarrow> bnode option parsed"
where
  "decode_f 0 to_int to_long_long data pos = Inl Out_of_fuel"
| "decode_f (Suc fuel) to_int to_long_long data pos =
     (if usize data \<le> pos then Inr (None, pos)
      else let c = data ! pos; dec = decode_f fuel to_int to_long_long data in
        if c = CHR ''d'' then parseDict fuel dec data pos
        else if c = CHR ''l'' then parseList fuel dec data pos
        else if c = CHR ''i'' then parseInt to_int to_long_long data pos
        else if is_digit c then parseString data pos
        else Inl (Illegal_token c))"

definition decode_fuel :: "string \<Rightarrow> nat \<Rightarrow> nat" where
  "decode_fuel data pos = Suc (usize data - pos)"

definition decode ::
  "(string \<Rightarrow> int option) \<Rightarrow> (string \<Rightarrow> int option) \<Rightarrow> string \<Rightarrow> nat \<Rightarrow> bnode option parsed"
where
  "decode to_int to_long_long data pos = decode_f (decode_fuel data pos) to_int to_long_long data pos"

definition decodeDict ::
  "(string \<Rightarrow> int option) \<Rightarrow> (string \<Rightarrow> int option) \<Rightarrow> string \<Rightarrow> nat \<Rightarrow> bdict option parsed"
where
  "decodeDict to_int to_long_long data pos = rbind (decode to_int to_long_long data pos) (\<lambda>(n, p). Inr (as_dict n, p))"

definition decodeList ::
  "(string \<Rightarrow> int option) \<Rightarrow> (string \<Rightarrow> int option) \<Rightarrow> string \<Rightarrow> nat \<Rightarrow> bnode list option parsed"
where
  "decodeList to_int to_long_long data pos = rbind (decode to_int to_long_long data pos) (\<lambda>(n, p). Inr (as_list n, p))"

section \<open>The encoder\<close>

text \<open>
  A \<^verbatim>\<open>BEncoder\<close> holds a pointer to its output. \<^const>\<open>None\<close> is a null output, on which every
  operation returns at once; \<^term>\<open>Some d\<close> is a \<^verbatim>\<open>BEncoderBufferOutput\<close> that has received \<open>d\<close>.
  \<open>number\<close> is Qt's decimal formatting (\<^verbatim>\<open>QByteArray::number\<close>, \<^verbatim>\<open>QString::arg\<close>).
\<close>

type_synonym bencoder = "string option"

definition buffer_output :: bencoder where
  "buffer_output = Some []"

definition out_write :: "string \<Rightarrow> bencoder \<Rightarrow> bencoder" where
  "out_write str out = map_option (\<lambda>data. data @ str) out"

definition beginDict :: "bencoder \<Rightarrow> bencoder" where
  "beginDict out = out_write ''d'' out"

definition beginList :: "bencoder \<Rightarrow> bencoder" where
  "beginList out = out_write ''l'' out"

definition end_enc :: "bencoder \<Rightarrow> bencoder" where
  "end_enc out = out_write ''e'' out"

definition write_bool :: "(nat \<Rightarrow> string) \<Rightarrow> bool \<Rightarrow> bencoder \<Rightarrow> bencoder" where
  "write_bool number val out = out_write (''i'' @ number (if val then 1 else 0) @ ''e'') out"

definition write_u32 :: "(nat \<Rightarrow> string) \<Rightarrow> u32 \<Rightarrow> bencoder \<Rightarrow> bencoder" where
  "write_u32 number val out = out_write (''i'' @ number (unat val) @ ''e'') out"

definition write_u64 :: "(nat \<Rightarrow> string) \<Rightarrow> u64 \<Rightarrow> bencoder \<Rightarrow> bencoder" where
  "write_u64 number val out = out_write (''i'' @ number (unat val) @ ''e'') out"

definition write_bytes :: "(nat \<Rightarrow> string) \<Rightarrow> string \<Rightarrow> bencoder \<Rightarrow> bencoder" where
  "write_bytes number data out =
     out_write data (out_write '':'' (out_write (number (length data)) out))"

definition write_float :: "(nat \<Rightarrow> string) \<Rightarrow> ('f \<Rightarrow> string) \<Rightarrow> 'f \<Rightarrow> bencoder \<Rightarrow> bencoder" where
  "write_float number number_f val out = write_bytes number (number_f val) out"

text \<open>The template \<^verbatim>\<open>write(key, val)\<close> writes the key and then the value.\<close>

definition write_key ::
  "(nat \<Rightarrow> string) \<Rightarrow> string \<Rightarrow> (bencoder \<Rightarrow> bencoder) \<Rightarrow> bencoder \<Rightarrow> bencoder"
where
  "write_key number key wval out = wval (write_bytes number key out)"

subsection \<open>Writing a whole tree\<close>

text \<open>
  A tree of the data a client writes, and the calls that write it: \<open>encode_tree\<close> issues the
  \<^verbatim>\<open>BEncoder\<close> operations in document order, as the callers of the class do.
\<close>

datatype btree = TStr string | TInt u64 | TList "btree list" | TDict "(string \<times> btree) list"

fun encode_tree :: "(nat \<Rightarrow> string) \<Rightarrow> btree \<Rightarrow> bencoder \<Rightarrow> bencoder"
  and encode_list :: "(nat \<Rightarrow> string) \<Rightarrow> btree list \<Rightarrow> bencoder \<Rightarrow> bencoder"
  and encode_dict :: "(nat \<Rightarrow> string) \<Rightarrow> (string \<times> btree) list \<Rightarrow> bencoder \<Rightarrow> bencoder"
where
  "encode_tree number (TStr s) out = write_bytes number s out"
| "encode_tree number (TInt i) out = write_u64 number i out"
| "encode_tree number (TList ts) out = end_enc (encode_list number ts (beginList out))"
| "encode_tree number (TDict es) out = end_enc (encode_dict number es (beginDict out))"
| "encode_list number [] out = out"
| "encode_list number (t # ts) out = encode_list number ts (encode_tree number t out)"
| "encode_dict number [] out = out"
| "encode_dict number ((k, t) # es) out =
     encode_dict number es (write_key number k (encode_tree number t) out)"

text \<open>The bytes of a tree, and the node the decoder is expected to build for it.\<close>

fun benc :: "(nat \<Rightarrow> string) \<Rightarrow> btree \<Rightarrow> string"
  and benc_list :: "(nat \<Rightarrow> string) \<Rightarrow> btree list \<Rightarrow> string"
  and benc_dict :: "(nat \<Rightarrow> string) \<Rightarrow> (string \<times> btree) list \<Rightarrow> string"
where
  "benc number (TStr s) = number (length s) @ '':'' @ s"
| "benc number (TInt i) = ''i'' @ number (unat i) @ ''e''"
| "benc number (TList ts) = ''l'' @ benc_list number ts @ ''e''"
| "benc number (TDict es) = ''d'' @ benc_dict number es @ ''e''"
| "benc_list number [] = []"
| "benc_list number (t # ts) = benc number t @ benc_list number ts"
| "benc_dict number [] = []"
| "benc_dict number ((k, t) # es) = benc number (TStr k) @ benc number t @ benc_dict number es"

definition int_value :: "nat \<Rightarrow> bvalue" where
  "int_value n = (if n < 2 ^ 31 then V_INT (int n) else V_INT64 (int n))"

fun node_of :: "(nat \<Rightarrow> string) \<Rightarrow> btree \<Rightarrow> bnode"
  and node_of_list :: "(nat \<Rightarrow> string) \<Rightarrow> btree list \<Rightarrow> bnode list"
  and node_of_dict :: "(nat \<Rightarrow> string) \<Rightarrow> (string \<times> btree) list \<Rightarrow> bdict"
where
  "node_of number (TStr s) = BValueNode (V_STRING s) (benc number (TStr s))"
| "node_of number (TInt i) = BValueNode (int_value (unat i)) (benc number (TInt i))"
| "node_of number (TList ts) = BListNode (node_of_list number ts) (benc number (TList ts))"
| "node_of number (TDict es) = BDictNode (node_of_dict number es) (benc number (TDict es))"
| "node_of_list number [] = []"
| "node_of_list number (t # ts) = node_of number t # node_of_list number ts"
| "node_of_dict number [] = []"
| "node_of_dict number ((k, t) # es) = (k, node_of number t) # node_of_dict number es"

text \<open>Integers the decoder can represent: those of a signed 64-bit integer.\<close>

fun ints_fit :: "btree \<Rightarrow> bool"
  and ints_fit_list :: "btree list \<Rightarrow> bool"
  and ints_fit_dict :: "(string \<times> btree) list \<Rightarrow> bool"
where
  "ints_fit (TStr s) = True"
| "ints_fit (TInt i) = (unat i < 2 ^ 63)"
| "ints_fit (TList ts) = ints_fit_list ts"
| "ints_fit (TDict es) = ints_fit_dict es"
| "ints_fit_list [] = True"
| "ints_fit_list (t # ts) = (ints_fit t \<and> ints_fit_list ts)"
| "ints_fit_dict [] = True"
| "ints_fit_dict ((k, t) # es) = (ints_fit t \<and> ints_fit_dict es)"

section \<open>Progress and termination of the decoder\<close>

text \<open>
  What every parser promises about the node it returns and the position it stops at: it
  moved forward, not past the end, and the node carries exactly the bytes in between.
\<close>

definition consumed :: "string \<Rightarrow> nat \<Rightarrow> bnode option \<times> nat \<Rightarrow> bool" where
  "consumed data off r \<longleftrightarrow> (case r of
      (None, p) \<Rightarrow> p = off \<and> usize data \<le> off
    | (Some n, p) \<Rightarrow> off < p \<and> p \<le> usize data \<and> getBytes n = sliced data off (p - off))"

lemma scan_to_bounds: "pos \<le> scan_to n c data pos \<and> scan_to n c data pos \<le> pos + n"
proof (induction n arbitrary: pos)
  case (Suc n)
  from Suc.IH [of "Suc pos"] show ?case by simp
qed simp

lemma find_byte_ge: "pos \<le> find_byte c data pos"
  using scan_to_bounds by (simp add: find_byte_def)

lemma find_byte_le: "pos \<le> usize data \<Longrightarrow> find_byte c data pos \<le> usize data"
  using scan_to_bounds [of pos "usize data - pos" c data] by (simp add: find_byte_def)

lemma usize_le: "usize data \<le> length data"
  by (simp add: usize_def)

lemma usize_less: "usize data < 2 ^ 32"
  by (simp add: usize_def)

lemma usize_eq: "length data < 2 ^ 32 \<Longrightarrow> usize data = length data"
  by (simp add: usize_def)

lemma parseInt_consumed:
  assumes "parseInt to_int to_long_long data off = Inr r"
  shows "consumed data off r"
  using assms find_byte_ge [of "off + 1" "CHR ''e''" data]
  by (auto simp: parseInt_def consumed_def Let_def split: if_splits option.splits)

lemma parseString_consumed:
  assumes "parseString data off = Inr r" and "length data < 2 ^ 32"
  shows "consumed data off r"
proof -
  define colon where "colon = find_byte CHR '':'' data off"
  have ge: "off \<le> colon" by (simp add: colon_def find_byte_ge)
  from assms(1) obtain len where
      len: "0 \<le> len" "colon + 1 + nat len \<le> length data"
    and r: "r = (Some (BValueNode (V_STRING (sliced data (colon + 1) (nat len)))
                  (sliced data off ((colon + 1 + nat len - off) mod 2 ^ 32))),
               (colon + 1 + nat len) mod 2 ^ 32)"
    by (auto simp: parseString_def colon_def Let_def not_less split: if_splits option.splits)
  from len(2) assms(2) have small: "colon + 1 + nat len < 2 ^ 32" by linarith
  then have "(colon + 1 + nat len) mod 2 ^ 32 = colon + 1 + nat len"
    and "(colon + 1 + nat len - off) mod 2 ^ 32 = colon + 1 + nat len - off"
    by (simp_all add: less_imp_diff_less)
  with r ge len(2) usize_eq [OF assms(2)] show ?thesis
    by (simp add: consumed_def)
qed

lemma consumed_ge: "consumed data pos (n, p) \<Longrightarrow> pos \<le> p"
  by (auto simp: consumed_def split: option.splits)


lemma parseDict_loop_consumed:
  assumes "\<And>pos r. dec pos = Inr r \<Longrightarrow> consumed data pos r"
  shows "parseDict_loop fuel dec data cur pos = Inr (c, p) \<Longrightarrow> pos < p \<and> p \<le> usize data"
proof (induction fuel arbitrary: cur pos)
  case (Suc fuel)
  show ?case
  proof (cases "pos < usize data \<and> data ! pos \<noteq> CHR ''e''")
    case True
    with Suc.prems obtain kn p1 v p2 cur' where
        d1: "dec pos = Inr (kn, p1)" and d2: "dec p1 = Inr (v, p2)"
      and loop: "parseDict_loop fuel dec data cur' p2 = Inr (c, p)"
      by (auto split: option.splits bvalue.splits)
    from loop have "p2 < p \<and> p \<le> usize data" by (rule Suc.IH)
    moreover have "pos \<le> p1" "p1 \<le> p2"
      using assms [OF d1] assms [OF d2] by (auto dest: consumed_ge)
    ultimately show ?thesis by linarith
  qed (use Suc.prems in \<open>auto split: if_splits\<close>)
qed simp

lemma parseList_loop_consumed:
  assumes "\<And>pos r. dec pos = Inr r \<Longrightarrow> consumed data pos r"
  shows "parseList_loop fuel dec data cur pos = Inr (c, p) \<Longrightarrow> pos < p \<and> p \<le> usize data"
proof (induction fuel arbitrary: cur pos)
  case (Suc fuel)
  show ?case
  proof (cases "pos < usize data \<and> data ! pos \<noteq> CHR ''e''")
    case True
    with Suc.prems obtain n p1 cur' where d1: "dec pos = Inr (n, p1)"
      and loop: "parseList_loop fuel dec data cur' p1 = Inr (c, p)"
      by (auto split: option.splits)
    from loop have "p1 < p \<and> p \<le> usize data" by (rule Suc.IH)
    with consumed_ge [OF assms [OF d1]] show ?thesis by linarith
  qed (use Suc.prems in \<open>auto split: if_splits\<close>)
qed simp

lemma decode_f_consumed:
  assumes "length data < 2 ^ 32"
  shows "decode_f fuel to_int to_long_long data pos = Inr r \<Longrightarrow> consumed data pos r"
proof (induction fuel arbitrary: pos r)
  case (Suc fuel)
  let ?dec = "decode_f fuel to_int to_long_long data"
  have dict: "consumed data pos r" if "parseDict fuel ?dec data pos = Inr r"
    using that parseDict_loop_consumed [of ?dec data fuel "[]" "pos + 1"] Suc.IH
    by (fastforce simp: parseDict_def consumed_def)
  have list: "consumed data pos r" if "parseList fuel ?dec data pos = Inr r"
    using that parseList_loop_consumed [of ?dec data fuel "[]" "pos + 1"] Suc.IH
    by (fastforce simp: parseList_def consumed_def)
  show ?case
  proof (cases "usize data \<le> pos")
    case True
    with Suc.prems show ?thesis by (auto simp: consumed_def)
  next
    case False
    with Suc.prems dict list parseInt_consumed parseString_consumed [OF _ assms] show ?thesis
      by (auto simp: Let_def split: if_splits)
  qed
qed simp







section \<open>Round trip\<close>

lemmas encoder_defs = beginDict_def beginList_def end_enc_def write_u64_def write_bytes_def
  write_key_def out_write_def

lemma encode_tree_benc:
  "encode_tree number t (Some out) = Some (out @ benc number t)"
  "encode_list number ts (Some out) = Some (out @ benc_list number ts)"
  "encode_dict number es (Some out) = Some (out @ benc_dict number es)"
  by (induction number t and number ts and number es arbitrary: out and out and out
      rule: benc_benc_list_benc_dict.induct) (simp_all add: encoder_defs)

text \<open>The value of a string of decimal digits, with an accumulator.\<close>

fun dval :: "string \<Rightarrow> nat \<Rightarrow> nat" where
  "dval [] a = a"
| "dval (c # cs) a = dval cs (10 * a + (of_char c - 48))"

lemma dval_ge: "a \<le> dval cs a"
proof (induction cs arbitrary: a)
  case (Cons c cs)
  from Cons.IH [of "10 * a + (of_char c - 48)"] show ?case by simp
qed simp

lemma len_step_exact:
  assumes "10 * a + d < 2 ^ 31"
  shows "len_step (int a) (int d) = Inr (int (10 * a + d))"
proof -
  from assms have a: "int a * 8 < 2 ^ 31" "int a * 2 < 2 ^ 31" "10 * int a + int d < 2 ^ 31"
    by simp_all
  then have "signed_take_bit 31 (int a * 8) = int a * 8"
    and "signed_take_bit 31 (int a * 2) = int a * 2"
    by (simp_all add: signed_take_bit_int_eq_self)
  with a show ?thesis by (simp add: len_step_def add_int32_def)
qed

lemma parse_len_digits:
  assumes "list_all is_digit cs" and "dval cs a < 2 ^ 31"
  shows "parse_len cs (int a) = Inr (Some (int (dval cs a)))"
  using assms
proof (induction cs arbitrary: a)
  case (Cons c cs)
  define d where "d = (of_char c :: nat) - 48"
  from Cons.prems have c: "is_digit c" and d: "int (of_char c) - 48 = int d"
    by (auto simp: is_digit_def d_def)
  have dv: "dval (c # cs) a = dval cs (10 * a + d)" by (simp add: d_def)
  then have "10 * a + d < 2 ^ 31"
    using dval_ge [of "10 * a + d" cs] Cons.prems(2) by linarith
  then have "len_step (int a) (int d) = Inr (int (10 * a + d))"
    by (rule len_step_exact)
  moreover have "parse_len cs (int (10 * a + d)) = Inr (Some (int (dval cs (10 * a + d))))"
    using Cons.prems dv by (intro Cons.IH) simp_all
  ultimately show ?case using c d dv by (simp only: parse_len.simps) simp
qed simp

lemma scan_to_found:
  assumes "c \<notin> set xs" and "length xs < n"
  shows "scan_to n c (pre @ xs @ c # suf) (length pre) = length pre + length xs"
  using assms
proof (induction xs arbitrary: pre n)
  case Nil
  then show ?case by (cases n) (auto simp: nth_append)
next
  case (Cons x xs)
  then obtain m where m: "n = Suc m" by (cases n) auto
  with Cons.prems Cons.IH [of m "pre @ [x]"] show ?case by (auto simp: nth_append)
qed

lemma find_byte_found:
  assumes "data = pre @ xs @ c # suf" and "c \<notin> set xs" and "length data < 2 ^ 32"
  shows "find_byte c data (length pre) = length pre + length xs"
  using assms scan_to_found [of c xs "usize data - length pre" pre suf]
  by (simp add: find_byte_def usize_def)

text \<open>
  The contract of Qt's decimal conversions, as far as the codec relies on it:
  \<^verbatim>\<open>number\<close> writes a non-empty string of digits that denotes the number, and
  \<^verbatim>\<open>QString::toInt\<close>, \<^verbatim>\<open>QString::toLongLong\<close> read it back when it is in the range of the
  type and report failure otherwise.
\<close>

locale qt_decimal =
  fixes number :: "nat \<Rightarrow> string"
    and to_int :: "string \<Rightarrow> int option"
    and to_long_long :: "string \<Rightarrow> int option"
  assumes number_nonempty: "number n \<noteq> []"
    and number_digits: "list_all is_digit (number n)"
    and number_value: "dval (number n) 0 = n"
    and to_int_number: "to_int (number n) = (if n < 2 ^ 31 then Some (int n) else None)"
    and to_long_long_number:
      "to_long_long (number n) = (if n < 2 ^ 63 then Some (int n) else None)"
begin

lemma not_in_number: "\<not> is_digit c \<Longrightarrow> c \<notin> set (number n)"
  using number_digits [of n] by (auto simp: list_all_iff)

lemma hd_number: "is_digit ((number n @ xs) ! 0)"
  using number_digits [of n] number_nonempty [of n] by (cases "number n") auto

lemma parseString_enc:
  assumes data: "data = pre @ benc number (TStr str) @ suf"
    and len: "length data < 2 ^ 32" and s: "length str < 2 ^ 31"
  shows "parseString data (length pre) =
    Inr (Some (node_of number (TStr str)), length pre + length (benc number (TStr str)))"
proof -
  let ?n = "number (length str)"
  have colon: "find_byte CHR '':'' data (length pre) = length pre + length ?n"
    using data len not_in_number [of "CHR '':''"]
    by (intro find_byte_found [where suf = "str @ suf"]) (auto simp: is_digit_def)
  have pfx: "sliced data (length pre) (length ?n) = ?n"
    using sliced_append [of pre ?n "CHR '':'' # str @ suf"] data by simp
  have body: "sliced data (Suc (length pre + length ?n)) (length str) = str"
    using sliced_append [of "pre @ ?n @ '':''" str suf] data by simp
  have all: "sliced data (length pre) (Suc (length ?n + length str)) = ?n @ CHR '':'' # str"
    using sliced_append [of pre "?n @ CHR '':'' # str" suf] data by simp
  have "parse_len ?n 0 = Inr (Some (int (length str)))"
    using parse_len_digits [of ?n 0] number_digits number_value s by simp
  with colon pfx body all len show ?thesis
    by (simp add: parseString_def data usize_def Let_def)
qed

lemma parseInt_enc:
  assumes data: "data = pre @ benc number (TInt i) @ suf"
    and len: "length data < 2 ^ 32" and i: "unat i < 2 ^ 63"
  shows "parseInt to_int to_long_long data (length pre) =
    Inr (Some (node_of number (TInt i)), length pre + length (benc number (TInt i)))"
proof -
  let ?n = "number (unat i)"
  have e: "find_byte CHR ''e'' data (length (pre @ ''i'')) = length (pre @ ''i'') + length ?n"
    using data len not_in_number [of "CHR ''e''"]
    by (intro find_byte_found [where suf = suf]) (auto simp: is_digit_def)
  have body: "sliced data (Suc (length pre)) (length ?n) = ?n"
    using sliced_append [of "pre @ ''i''" ?n "CHR ''e'' # suf"] data by simp
  have all: "sliced data (length pre) (Suc (Suc (length ?n))) = ''i'' @ ?n @ ''e''"
    using sliced_append [of pre "''i'' @ ?n @ ''e''" suf] data by simp
  from e body all len i show ?thesis
    by (simp add: parseInt_def data usize_def Let_def to_int_number to_long_long_number
        int_value_def)
qed

lemma benc_starts:
  "\<exists>c cs. benc number t = c # cs \<and> c \<noteq> CHR ''e''"
proof (cases t)
  case (TStr str)
  obtain c cs where "number (length str) = c # cs"
    using number_nonempty [of "length str"] by (cases "number (length str)") auto
  with TStr number_digits [of "length str"] show ?thesis by (auto simp: is_digit_def)
qed auto

lemma benc_TStr_starts:
  "\<exists>c cs. benc number (TStr str) = c # cs \<and> is_digit c"
  using number_digits [of "length str"] number_nonempty [of "length str"]
  by (cases "number (length str)") auto

lemma decode_f_TStr:
  assumes "data = pre @ benc number (TStr str) @ suf" and "length data < 2 ^ 31"
    and "usize data - length pre < fuel"
  shows "decode_f fuel to_int to_long_long data (length pre) =
    Inr (Some (node_of number (TStr str)), length pre + length (benc number (TStr str)))"
proof -
  obtain m where m: "fuel = Suc m" using assms(3) by (cases fuel) auto
  obtain c cs where c: "benc number (TStr str) = c # cs" "is_digit c"
    using benc_TStr_starts by blast
  then have at: "data ! length pre = c" and lt: "length pre < usize data"
    using assms(1,2) by (simp_all add: nth_append usize_def)
  have "parseString data (length pre) =
      Inr (Some (node_of number (TStr str)), length pre + length (benc number (TStr str)))"
    using assms by (intro parseString_enc) auto
  moreover have "c \<noteq> CHR ''d''" "c \<noteq> CHR ''l''" "c \<noteq> CHR ''i''"
    using c(2) by (auto simp: is_digit_def)
  ultimately show ?thesis using m at lt c(2) by (simp del: node_of.simps benc.simps)
qed

lemma decode_f_TInt:
  assumes "data = pre @ benc number (TInt i) @ suf" and "length data < 2 ^ 31"
    and "usize data - length pre < fuel" and "unat i < 2 ^ 63"
  shows "decode_f fuel to_int to_long_long data (length pre) =
    Inr (Some (node_of number (TInt i)), length pre + length (benc number (TInt i)))"
proof -
  obtain m where m: "fuel = Suc m" using assms(3) by (cases fuel) auto
  have at: "data ! length pre = CHR ''i''" and lt: "length pre < usize data"
    using assms(1,2) by (simp_all add: nth_append usize_def)
  have "parseInt to_int to_long_long data (length pre) =
      Inr (Some (node_of number (TInt i)), length pre + length (benc number (TInt i)))"
    using assms by (intro parseInt_enc) auto
  with m at lt show ?thesis by (simp del: node_of.simps benc.simps)
qed

lemma decode_enc:
  "data = pre @ benc number t @ suf \<Longrightarrow> ints_fit t \<Longrightarrow> length data < 2 ^ 31 \<Longrightarrow>
   usize data - length pre < fuel \<Longrightarrow>
   decode_f fuel to_int to_long_long data (length pre) =
     Inr (Some (node_of number t), length pre + length (benc number t))"
  "data = pre @ benc_list number ts @ ''e'' @ suf \<Longrightarrow> ints_fit_list ts \<Longrightarrow>
   length data < 2 ^ 31 \<Longrightarrow>
   usize data - length pre < fuel \<Longrightarrow> usize data - length pre < fuel' \<Longrightarrow>
   parseList_loop fuel (decode_f fuel' to_int to_long_long data) data cur (length pre) =
     Inr (cur @ node_of_list number ts, length pre + length (benc_list number ts) + 1)"
  "data = pre @ benc_dict number es @ ''e'' @ suf \<Longrightarrow> ints_fit_dict es \<Longrightarrow>
   length data < 2 ^ 31 \<Longrightarrow>
   usize data - length pre < fuel \<Longrightarrow> usize data - length pre < fuel' \<Longrightarrow>
   parseDict_loop fuel (decode_f fuel' to_int to_long_long data) data dcur (length pre) =
     Inr (dcur @ node_of_dict number es, length pre + length (benc_dict number es) + 1)"
proof (induction t and ts and es
    arbitrary: pre suf fuel and pre suf fuel fuel' cur and pre suf fuel fuel' dcur
    rule: ints_fit_ints_fit_list_ints_fit_dict.induct)
  case (1 s)
  then show ?case by (intro decode_f_TStr) auto
next
  case (2 i)
  then show ?case by (intro decode_f_TInt) auto
next
  case (3 ts)
  then obtain m where m: "fuel = Suc m" by (cases fuel) auto
  have d: "data = (pre @ ''l'') @ benc_list number ts @ ''e'' @ suf"
    and lt: "length pre < usize data" and at: "data ! length pre = CHR ''l''"
    using "3.prems"(1,3) by (auto simp: nth_append usize_def)
  have "parseList_loop m (decode_f m to_int to_long_long data) data [] (length (pre @ ''l'')) =
      Inr ([] @ node_of_list number ts, length (pre @ ''l'') + length (benc_list number ts) + 1)"
    using "3.prems" m lt by (intro "3.IH" [OF d]) auto
  moreover have "sliced data (length pre) (Suc (Suc (length (benc_list number ts)))) =
      benc number (TList ts)"
    using sliced_append [of pre "benc number (TList ts)" suf] "3.prems"(1) by simp
  ultimately show ?case using m lt at by (simp add: parseList_def)
next
  case (4 es)
  then obtain m where m: "fuel = Suc m" by (cases fuel) auto
  have d: "data = (pre @ ''d'') @ benc_dict number es @ ''e'' @ suf"
    and lt: "length pre < usize data" and at: "data ! length pre = CHR ''d''"
    using "4.prems"(1,3) by (auto simp: nth_append usize_def)
  have "parseDict_loop m (decode_f m to_int to_long_long data) data [] (length (pre @ ''d'')) =
      Inr ([] @ node_of_dict number es, length (pre @ ''d'') + length (benc_dict number es) + 1)"
    using "4.prems" m lt by (intro "4.IH" [OF d]) auto
  moreover have "sliced data (length pre) (Suc (Suc (length (benc_dict number es)))) =
      benc number (TDict es)"
    using sliced_append [of pre "benc number (TDict es)" suf] "4.prems"(1) by simp
  ultimately show ?case using m lt at by (simp add: parseDict_def)
next
  case 5
  then obtain m where "fuel = Suc m" by (cases fuel) auto
  with 5 show ?case by (simp add: nth_append usize_def)
next
  case (6 t ts)
  then obtain m where m: "fuel = Suc m" by (cases fuel) auto
  obtain c cs where c: "benc number t = c # cs" "c \<noteq> CHR ''e''" using benc_starts by blast
  have d: "data = pre @ benc number t @ (benc_list number ts @ ''e'' @ suf)"
    and d': "data = (pre @ benc number t) @ benc_list number ts @ ''e'' @ suf"
    using "6.prems"(1) by simp_all
  have lt: "length pre < usize data" and at: "data ! length pre = c"
    using d c "6.prems"(3) by (simp_all add: nth_append usize_def)
  have "decode_f fuel' to_int to_long_long data (length pre) =
      Inr (Some (node_of number t), length pre + length (benc number t))"
    using "6.prems" by (intro "6.IH"(1) [OF d]) auto
  moreover have "parseList_loop m (decode_f fuel' to_int to_long_long data) data
      (cur @ [node_of number t]) (length (pre @ benc number t)) =
      Inr ((cur @ [node_of number t]) @ node_of_list number ts,
        length (pre @ benc number t) + length (benc_list number ts) + 1)"
    using "6.prems" m lt c by (intro "6.IH"(2) [OF d']) auto
  ultimately show ?case using m lt at c by (simp add: list_append_def)
next
  case 7
  then obtain m where "fuel = Suc m" by (cases fuel) auto
  with 7 show ?case by (simp add: nth_append usize_def)
next
  case (8 k t es)
  then obtain m where m: "fuel = Suc m" by (cases fuel) auto
  let ?k = "benc number (TStr k)" and ?t = "benc number t"
  obtain c cs where c: "?k = c # cs" "c \<noteq> CHR ''e''" using benc_starts by blast
  have d: "data = pre @ ?k @ (?t @ benc_dict number es @ ''e'' @ suf)"
    and d': "data = (pre @ ?k) @ ?t @ (benc_dict number es @ ''e'' @ suf)"
    and d'': "data = (pre @ ?k @ ?t) @ benc_dict number es @ ''e'' @ suf"
    using "8.prems"(1) by simp_all
  have lt: "length pre < usize data" and at: "data ! length pre = c"
    using d c "8.prems"(3) by (simp_all add: nth_append usize_def del: benc.simps)
  have "decode_f fuel' to_int to_long_long data (length pre) =
      Inr (Some (node_of number (TStr k)), length pre + length ?k)"
    using "8.prems" by (intro decode_f_TStr [OF d]) auto
  moreover have "decode_f fuel' to_int to_long_long data (length (pre @ ?k)) =
      Inr (Some (node_of number t), length (pre @ ?k) + length ?t)"
    using "8.prems" by (intro "8.IH"(1) [OF d']) auto
  moreover have "parseDict_loop m (decode_f fuel' to_int to_long_long data) data
      (dcur @ [(k, node_of number t)]) (length (pre @ ?k @ ?t)) =
      Inr ((dcur @ [(k, node_of number t)]) @ node_of_dict number es,
        length (pre @ ?k @ ?t) + length (benc_dict number es) + 1)"
    using "8.prems" m lt c by (intro "8.IH"(2) [OF d'']) (auto simp del: benc.simps)
  ultimately show ?case using m lt at c(2)
    by (simp add: dict_insert_def as_value_def add.assoc)
qed

lemma decode_encode_tree:
  assumes "encode_tree number t buffer_output = Some out" and "ints_fit t"
    and "length (pre @ out @ suf) < 2 ^ 31"
  shows "decode to_int to_long_long (pre @ out @ suf) (length pre) =
    Inr (Some (node_of number t), length pre + length out)"
proof -
  have out: "out = benc number t"
    using assms(1) by (simp add: encode_tree_benc buffer_output_def)
  show ?thesis unfolding decode_def decode_fuel_def out
    by (rule decode_enc(1)) (use assms out in auto)
qed

end

text \<open>
  A reference implementation of the contract: schoolbook decimal formatting, and readers
  that accept exactly the digit strings in range.
\<close>

fun ref_number :: "nat \<Rightarrow> string" where
  "ref_number n = (if n < 10 then [char_of (48 + n)]
                   else ref_number (n div 10) @ [char_of (48 + n mod 10)])"

declare ref_number.simps [simp del]

definition ref_to_int :: "string \<Rightarrow> int option" where
  "ref_to_int s = (if s \<noteq> [] \<and> list_all is_digit s \<and> dval s 0 < 2 ^ 31
                   then Some (int (dval s 0)) else None)"

definition ref_to_long_long :: "string \<Rightarrow> int option" where
  "ref_to_long_long s = (if s \<noteq> [] \<and> list_all is_digit s \<and> dval s 0 < 2 ^ 63
                         then Some (int (dval s 0)) else None)"

lemma dval_append: "dval (xs @ [c]) a = 10 * dval xs a + (of_char c - 48)"
  by (induction xs arbitrary: a) simp_all

lemma of_char_digit: "d < 10 \<Longrightarrow> of_char (char_of (48 + d) :: char) = (48 + d :: nat)"
  by simp

lemma ref_number_correct:
  "ref_number n \<noteq> [] \<and> list_all is_digit (ref_number n) \<and> dval (ref_number n) 0 = n"
proof (induction n rule: ref_number.induct)
  case (1 n)
  show ?case
  proof (cases "n < 10")
    case True
    then show ?thesis
      by (subst (1 2 3) ref_number.simps) (simp add: is_digit_def)
  next
    case False
    with 1 have IH: "list_all is_digit (ref_number (n div 10))"
      "dval (ref_number (n div 10)) 0 = n div 10" by auto
    have "n mod 10 < 10" by simp
    with False IH show ?thesis
      by (subst (1 2 3) ref_number.simps) (simp add: is_digit_def dval_append)
  qed
qed

interpretation ref_dec: qt_decimal ref_number ref_to_int ref_to_long_long
  using ref_number_correct
  by unfold_locales (auto simp: ref_to_int_def ref_to_long_long_def)

section \<open>Dictionary lookup\<close>

text \<open>
  A lookup returns the value inserted first under the key; inserting a key again does not
  change what is found.
\<close>

lemma getData_insert:
  "getData (dict_insert k n d) key =
     (case getData d key of Some m \<Rightarrow> Some m | None \<Rightarrow> if k = key then Some n else None)"
  by (induction d key rule: getData.induct) (auto simp: dict_insert_def)

lemma getData_None_iff: "getData d key = None \<longleftrightarrow> key \<notin> set (dict_keys d)"
  by (induction d key rule: getData.induct) (auto simp: dict_keys_def)

section \<open>Properties\<close>



text \<open>A node returned by the decoder was read from a non-empty range of the input that
  ends inside it, and its \<^verbatim>\<open>getBytes()\<close> are exactly the bytes of that range; the null pointer
  is returned only at the end of the input, where the position stays. The info hash of a
  torrent is computed over these bytes.\<close>

theorem decode_bytes:
  assumes "length data < 2 ^ 32" and "decode to_int to_long_long data pos = Inr (n, p)"
  shows "case n of
      None \<Rightarrow> p = pos \<and> length data \<le> pos
    | Some node \<Rightarrow> pos < p \<and> p \<le> length data \<and> getBytes node = sliced data pos (p - pos)"
  using decode_f_consumed [OF assms(1) assms(2) [unfolded decode_def]] usize_eq [OF assms(1)]
  by (simp add: consumed_def split: option.splits)

theorem decode_bytes_witness:
  "decode ref_to_int ref_to_long_long ''xl2:abe'' 1 =
     Inr (Some (BListNode [BValueNode (V_STRING ''ab'') ''2:ab''] ''l2:abe''), 7) \<and>
   getBytes (BListNode [BValueNode (V_STRING ''ab'') ''2:ab''] ''l2:abe'') =
     sliced ''xl2:abe'' 1 (7 - 1)"
proof -
  have h: "decode ref_to_int ref_to_long_long ''xl2:abe'' 1 =
     Inr (Some (BListNode [BValueNode (V_STRING ''ab'') ''2:ab''] ''l2:abe''), 7)"
    by code_simp
  from decode_bytes [OF _ h] h show ?thesis by simp
qed

text \<open>C6. Decoding what the encoder wrote for a tree whose integers are below \<^verbatim>\<open>2^63\<close> gives the tree back, at any position of
  a larger buffer of less than \<^verbatim>\<open>2^31\<close> bytes (larger integers are written but refused by the decoder, \<open>decode_big_u64\<close>): the nodes mirror the tree, integers below \<^verbatim>\<open>2^31\<close> come back as \<^verbatim>\<open>INT\<close> and
  larger ones as \<^verbatim>\<open>INT64\<close>, every node carries its own encoding, and the position ends right
  behind the encoding.\<close>

theorem decode_encode:
  assumes "qt_decimal number to_int to_long_long"
    and "encode_tree number t buffer_output = Some out" and "ints_fit t"
    and "length (pre @ out @ suf) < 2 ^ 31"
  shows "decode to_int to_long_long (pre @ out @ suf) (length pre) =
    Inr (Some (node_of number t), length pre + length out)"
  using qt_decimal.decode_encode_tree [OF assms] .

theorem decode_encode_witness:
  "decode ref_to_int ref_to_long_long (''x'' @ ''d2:idi7e1:vl2:ab1:cee'' @ ''y'') 1 =
    Inr (Some (node_of ref_number
      (TDict [(''id'', TInt 7), (''v'', TList [TStr ''ab'', TStr ''c''])])), 22)"
proof -
  have "encode_tree ref_number
      (TDict [(''id'', TInt 7), (''v'', TList [TStr ''ab'', TStr ''c''])]) buffer_output =
      Some ''d2:idi7e1:vl2:ab1:cee''"
    by code_simp
  from decode_encode [OF ref_dec.qt_decimal_axioms this, of "''x''" "''y''"]
  show ?thesis by (simp del: node_of.simps)
qed

text \<open>The 64-bit overload of \<^verbatim>\<open>BEncoder::write\<close> takes unsigned values, the decoder reads
  signed ones: an integer of \<^verbatim>\<open>2^63\<close> or more that the encoder wrote is refused by the decoder
  with a conversion error.\<close>

theorem decode_big_u64:
  assumes "qt_decimal number to_int to_long_long" and "2 ^ 63 \<le> unat val"
    and "write_u64 number val buffer_output = Some out" and "length out < 2 ^ 32"
  shows "decode to_int to_long_long out 0 = Inl (Cannot_convert (number (unat val)))"
proof -
  let ?n = "number (unat val)"
  note q = assms(1)
  have out: "out = ''i'' @ ?n @ ''e''"
    using assms(3) by (simp add: write_u64_def out_write_def buffer_output_def)
  have "find_byte CHR ''e'' out (length ''i'') = length ''i'' + length ?n"
    using out assms(4) qt_decimal.not_in_number [OF q, of "CHR ''e''"]
    by (intro find_byte_found [where suf = "[]"]) (auto simp: is_digit_def)
  moreover have "sliced out 1 (length ?n) = ?n"
    using sliced_append [of "''i''" ?n "''e''"] out by simp
  moreover have "to_int ?n = None" "to_long_long ?n = None"
    using assms(2) qt_decimal.to_int_number [OF q] qt_decimal.to_long_long_number [OF q] by simp_all
  ultimately have "parseInt to_int to_long_long out 0 = Inl (Cannot_convert ?n)"
    using assms(4) by (simp add: parseInt_def out usize_def)
  then show ?thesis using assms(4)
    by (simp add: decode_def decode_fuel_def out usize_def)
qed

theorem decode_big_u64_witness:
  "decode ref_to_int ref_to_long_long (''i'' @ ref_number (2 ^ 63) @ ''e'') 0 =
    Inl (Cannot_convert (ref_number (2 ^ 63)))"
proof -
  have n: "length (ref_number (2 ^ 63)) = 19" by (simp add: ref_number.simps)
  have u: "unat ((2 :: u64) ^ 63) = 2 ^ 63" by simp
  show ?thesis
    using decode_big_u64 [OF ref_dec.qt_decimal_axioms, of "2 ^ 63"] n u
    by (simp add: write_u64_def out_write_def buffer_output_def)
qed

text \<open>The length prefix of a string is accumulated in a signed 32-bit integer with no
  bound on the number of digits: the sixteen bytes below drive the addition out of range, which
  C++ leaves undefined.\<close>

theorem parseString_overflow:
  "decode to_int to_long_long ''1999999999999:ab'' 0 = Inl Undefined_behaviour"
  by code_simp

text \<open>A length prefix that denotes a number below \<^verbatim>\<open>2^31\<close> is read exactly: no shift and
  no addition of the accumulation wraps on the way.\<close>

theorem parse_len_exact:
  assumes "list_all is_digit cs" and "dval cs 0 < 2 ^ 31"
  shows "parse_len cs 0 = Inr (Some (int (dval cs 0)))"
  using parse_len_digits [OF assms] by simp

theorem parse_len_exact_witness: "parse_len ''2147483647'' 0 = Inr (Some 2147483647)"
proof -
  have "list_all is_digit ''2147483647'' \<and> dval ''2147483647'' 0 = 2147483647" by code_simp
  then show ?thesis using parse_len_exact [of "''2147483647''"] by simp
qed

end
