(* ===== verification/BitSet.thy ===== *)
theory BitSet
  imports Prelude
begin

text \<open>
  \<^verbatim>\<open>bt::BitSet\<close>, \<^verbatim>\<open>src/src/util/bitset.h\<close> and \<^verbatim>\<open>bitset.cpp\<close>: the sets of chunks that a peer
  has, that are excluded, that are still to download. The bits are stored eight to a byte,
  the first in the most significant position, with a cached count of the bits that are on.
  The abstraction \<open>bits\<close> reads the array as a list of booleans, and the operations are
  shown to act on it as the list operations of the same name.
\<close>

section \<open>State\<close>

record bitset =
  num_bits :: nat
  bs_data :: "byte list"
  num_on :: u32

text \<open>\<^verbatim>\<open>std::popcount\<close> on a byte.\<close>

definition popcount :: "byte \<Rightarrow> nat" where
  "popcount w = length (filter (bit w) [0..<8])"

definition NumBytesFromNumBits :: "nat \<Rightarrow> nat" where
  "NumBytesFromNumBits n = n div 8 + (if n mod 8 > 0 then 1 else 0)"

definition set_on_lookup :: "byte list" where
  "set_on_lookup = [0x80, 0x40, 0x20, 0x10, 0x08, 0x04, 0x02, 0x01]"

definition set_off_lookup :: "byte list" where
  "set_off_lookup = [0x7F, 0xBF, 0xDF, 0xEF, 0xF7, 0xFB, 0xFD, 0xFE]"

definition tail_mask_lookup :: "byte list" where
  "tail_mask_lookup = [0xFF, 0x01, 0x03, 0x07, 0x0F, 0x1F, 0x3F, 0x7F]"

section \<open>Operations\<close>

definition bs_new :: "nat \<Rightarrow> bitset" where
  "bs_new n = \<lparr>num_bits = n, bs_data = replicate (NumBytesFromNumBits n) 0, num_on = 0\<rparr>"

text \<open>The loop that adds up \<^verbatim>\<open>std::popcount(data[i])\<close> in a \<^verbatim>\<open>Uint32\<close>.\<close>

fun add_popcounts :: "byte list \<Rightarrow> u32 \<Rightarrow> u32" where
  "add_popcounts [] acc = acc"
| "add_popcounts (w # ws) acc = add_popcounts ws (acc + of_nat (popcount w))"

definition updateNumOnBits :: "bitset \<Rightarrow> bitset" where
  "updateNumOnBits bs = bs\<lparr>num_on := add_popcounts (bs_data bs) 0\<rparr>"

definition bs_from_data :: "byte list \<Rightarrow> nat \<Rightarrow> bitset" where
  "bs_from_data d n =
     updateNumOnBits \<lparr>num_bits = n, bs_data = take (NumBytesFromNumBits n) d, num_on = 0\<rparr>"

definition bs_get :: "bitset \<Rightarrow> nat \<Rightarrow> bool" where
  "bs_get bs i = (if num_bits bs \<le> i then False
     else (bs_data bs ! (i div 8)) AND (set_on_lookup ! (i mod 8)) \<noteq> 0)"

definition bs_set :: "nat \<Rightarrow> bool \<Rightarrow> bitset \<Rightarrow> bitset" where
  "bs_set i on bs = (if num_bits bs \<le> i then bs
     else let d = bs_data bs ! (i div 8);
              d' = (if on then d OR (set_on_lookup ! (i mod 8))
                    else d AND (set_off_lookup ! (i mod 8)))
          in bs\<lparr>bs_data := (bs_data bs)[i div 8 := d'],
                num_on := num_on bs - of_nat (popcount d) + of_nat (popcount d')\<rparr>)"

definition bs_setAll :: "bool \<Rightarrow> bitset \<Rightarrow> bitset" where
  "bs_setAll on bs =
     bs\<lparr>bs_data := map (\<lambda>_. if on then 0xFF else 0) (bs_data bs),
        num_on := (if on then of_nat (num_bits bs) else 0)\<rparr>"

definition bs_clear :: "bitset \<Rightarrow> bitset" where
  "bs_clear bs = bs_setAll False bs"

definition bs_invert :: "bitset \<Rightarrow> bitset" where
  "bs_invert bs = (if bs_data bs = [] then bs
     else let d = map NOT (butlast (bs_data bs)) @
                  [NOT (last (bs_data bs)) AND tail_mask_lookup ! (num_bits bs mod 8)]
          in bs\<lparr>bs_data := d, num_on := add_popcounts d 0\<rparr>)"

text \<open>
  The binary operations index the other operand up to this set's size; a shorter operand is
  an out-of-range read, here \<^const>\<open>None\<close>.
\<close>

definition bs_minus :: "bitset \<Rightarrow> bitset \<Rightarrow> bitset option" where
  "bs_minus bs other = (if length (bs_data other) < length (bs_data bs) then None
     else let d = map2 (\<lambda>a b. a AND NOT (a AND b)) (bs_data bs) (bs_data other)
          in Some (bs\<lparr>bs_data := d, num_on := add_popcounts d 0\<rparr>))"

definition bs_orBitSet :: "bitset \<Rightarrow> bitset \<Rightarrow> bitset option" where
  "bs_orBitSet bs other =
     (let n = length (bs_data bs); m = length (bs_data other) in
      if num_bits bs = num_bits other then
        if m < n then None
        else let d = map2 (OR) (bs_data bs) (bs_data other)
             in Some (bs\<lparr>bs_data := d, num_on := add_popcounts d 0\<rparr>)
      else if n = 0 then None
      else let k = min (n - 1) m;
               front = map2 (OR) (take k (bs_data bs)) (take k (bs_data other));
               mid = drop k (butlast (bs_data bs));
               tl' = (if n \<le> m
                      then (last (bs_data bs) OR bs_data other ! (n - 1)) AND tail_mask_lookup ! (n mod 8)
                      else last (bs_data bs));
               d = front @ mid @ [tl']
           in Some (bs\<lparr>bs_data := d, num_on := add_popcounts d 0\<rparr>))"

definition bs_andBitSet :: "bitset \<Rightarrow> bitset \<Rightarrow> bitset option" where
  "bs_andBitSet bs other =
     (let n = length (bs_data bs); m = length (bs_data other) in
      if num_bits bs = num_bits other then
        if m < n then None
        else let d = map2 (AND) (bs_data bs) (bs_data other)
             in Some (bs\<lparr>bs_data := d, num_on := add_popcounts d 0\<rparr>)
      else let k = min n m;
               front = map2 (AND) (take k (bs_data bs)) (take k (bs_data other))
           in Some (bs\<lparr>bs_data := front @ replicate (n - k) 0, num_on := add_popcounts front 0\<rparr>))"

definition bs_includesBitSet :: "bitset \<Rightarrow> bitset \<Rightarrow> bool option" where
  "bs_includesBitSet bs other =
     (let n = length (bs_data bs); m = length (bs_data other) in
      if num_bits bs = num_bits other then
        if m < n then None
        else Some (list_all2 (\<lambda>a b. a OR b = a) (bs_data bs) (take n (bs_data other)))
      else if n = 0 then (if n \<le> m then None else Some True)
      else let k = min (n - 1) m in
        Some (list_all2 (\<lambda>a b. a OR b = a) (take k (bs_data bs)) (take k (bs_data other)) \<and>
          (m < n \<or>
            (last (bs_data bs) OR bs_data other ! (n - 1)) AND tail_mask_lookup ! (n mod 8)
              = last (bs_data bs))))"

definition bs_allOn :: "bitset \<Rightarrow> bool" where
  "bs_allOn bs \<longleftrightarrow> num_on bs = of_nat (num_bits bs)"

definition bs_eq :: "bitset \<Rightarrow> bitset \<Rightarrow> bool" where
  "bs_eq a b \<longleftrightarrow> num_bits a = num_bits b \<and> bs_data a = bs_data b"

section \<open>The bits of a byte array\<close>

definition byte_bits :: "byte \<Rightarrow> bool list" where
  "byte_bits w = map (\<lambda>k. bit w (7 - k)) [0..<8]"

definition data_bits :: "byte list \<Rightarrow> bool list" where
  "data_bits ws = concat (map byte_bits ws)"

lemma length_byte_bits [simp]: "length (byte_bits w) = 8"
  by (simp add: byte_bits_def)

lemma length_data_bits [simp]: "length (data_bits ws) = 8 * length ws"
  by (induction ws) (simp_all add: data_bits_def)

lemma data_bits_Cons [simp]: "data_bits (w # ws) = byte_bits w @ data_bits ws"
  by (simp add: data_bits_def)

lemma data_bits_Nil [simp]: "data_bits [] = []"
  by (simp add: data_bits_def)

lemma data_bits_append: "data_bits (xs @ ys) = data_bits xs @ data_bits ys"
  by (simp add: data_bits_def)

lemma nth_data_bits:
  "i < 8 * length ws \<Longrightarrow> data_bits ws ! i = bit (ws ! (i div 8)) (7 - i mod 8)"
proof (induction ws arbitrary: i)
  case (Cons w ws)
  show ?case
  proof (cases "i < 8")
    case True
    then show ?thesis by (simp add: nth_append byte_bits_def)
  next
    case False
    then obtain j where j: "i = j + 8" by (metis add.commute le_Suc_ex not_less)
    then have "i div 8 = Suc (j div 8)" by simp
    with j Cons show ?thesis by (simp add: nth_append)
  qed
qed simp

lemma upt8: "[0..<8] = [0, 1, 2, 3, 4, 5, 6, 7]"
  by (simp add: upt_rec)

lemma popcount_byte_bits: "popcount w = count_list (byte_bits w) True"
  by (simp add: popcount_def byte_bits_def upt8)

lemma byte_eqI: "byte_bits a = byte_bits b \<Longrightarrow> a = b"
proof (rule bit_word_eqI)
  fix n assume "byte_bits a = byte_bits b" and "n < LENGTH(8)"
  then have "byte_bits a ! (7 - n) = byte_bits b ! (7 - n)" and "n < 8" by simp_all
  moreover have "[0..<8] ! (7 - n) = 7 - n" by (subst nth_upt) auto
  ultimately show "bit a n = bit b n" by (simp add: byte_bits_def)
qed

lemma bit_set_on_lookup:
  "k < 8 \<Longrightarrow> n < 8 \<Longrightarrow> bit (set_on_lookup ! k) n \<longleftrightarrow> n = 7 - k"
proof -
  assume "k < 8" "n < 8"
  then have "k \<in> set [0..<8]" "n \<in> set [0..<8]" by simp_all
  moreover have "\<forall>k \<in> set [0..<8]. \<forall>n \<in> set [0..<8]. bit (set_on_lookup ! k) n \<longleftrightarrow> n = 7 - k"
    unfolding upt8 by (simp add: set_on_lookup_def)
  ultimately show ?thesis by blast
qed

lemma bit_set_off_lookup:
  "k < 8 \<Longrightarrow> n < 8 \<Longrightarrow> bit (set_off_lookup ! k) n \<longleftrightarrow> n \<noteq> 7 - k"
proof -
  assume "k < 8" "n < 8"
  then have "k \<in> set [0..<8]" "n \<in> set [0..<8]" by simp_all
  moreover have "\<forall>k \<in> set [0..<8]. \<forall>n \<in> set [0..<8]. bit (set_off_lookup ! k) n \<longleftrightarrow> n \<noteq> 7 - k"
    unfolding upt8 by (simp add: set_off_lookup_def)
  ultimately show ?thesis by blast
qed

lemma bit_tail_mask_lookup:
  "k < 8 \<Longrightarrow> n < 8 \<Longrightarrow> bit (tail_mask_lookup ! k) n \<longleftrightarrow> k = 0 \<or> n < k"
proof -
  assume "k < 8" "n < 8"
  then have "k \<in> set [0..<8]" "n \<in> set [0..<8]" by simp_all
  moreover have "\<forall>k \<in> set [0..<8]. \<forall>n \<in> set [0..<8].
      bit (tail_mask_lookup ! k) n \<longleftrightarrow> k = 0 \<or> n < k"
    unfolding upt8 by (simp add: tail_mask_lookup_def)
  ultimately show ?thesis by blast
qed

lemma and_lookup_zero:
  assumes "k < 8"
  shows "w AND (set_on_lookup ! k) \<noteq> 0 \<longleftrightarrow> bit w (7 - k)"
proof
  assume "bit w (7 - k)"
  then have "bit (w AND (set_on_lookup ! k)) (7 - k)"
    using assms by (simp add: bit_and_iff bit_set_on_lookup)
  then show "w AND (set_on_lookup ! k) \<noteq> 0" by auto
next
  assume nz: "w AND (set_on_lookup ! k) \<noteq> 0"
  show "bit w (7 - k)"
  proof (rule ccontr)
    assume no: "\<not> bit w (7 - k)"
    have "w AND (set_on_lookup ! k) = 0"
    proof (rule bit_word_eqI)
      fix n assume "n < LENGTH(8)"
      with no assms show "bit (w AND (set_on_lookup ! k)) n = bit (0 :: byte) n"
        by (auto simp: bit_and_iff bit_set_on_lookup)
    qed
    with nz show False by simp
  qed
qed

section \<open>Abstraction and invariants\<close>

definition bits :: "bitset \<Rightarrow> bool list" where
  "bits bs = take (num_bits bs) (data_bits (bs_data bs))"

text \<open>The array has the size the constructors give it.\<close>

definition shape :: "bitset \<Rightarrow> bool" where
  "shape bs \<longleftrightarrow> num_bits bs < 2 ^ 32 \<and> length (bs_data bs) = NumBytesFromNumBits (num_bits bs)"

text \<open>The unused bits of the last byte are off.\<close>

definition tail_clear :: "bitset \<Rightarrow> bool" where
  "tail_clear bs \<longleftrightarrow> True \<notin> set (drop (num_bits bs) (data_bits (bs_data bs)))"

text \<open>The cached count is the number of bits that are on.\<close>

definition counted :: "bitset \<Rightarrow> bool" where
  "counted bs \<longleftrightarrow> num_on bs = of_nat (count_list (bits bs) True)"

lemma NumBytes_bound: "n \<le> 8 * NumBytesFromNumBits n"
  by (simp add: NumBytesFromNumBits_def) presburger

lemma NumBytes_index: "i < n \<Longrightarrow> i div 8 < NumBytesFromNumBits n"
  using NumBytes_bound [of n] by linarith

lemma length_bits: "shape bs \<Longrightarrow> length (bits bs) = num_bits bs"
  using NumBytes_bound [of "num_bits bs"] by (simp add: bits_def shape_def)

lemma shape_index: "shape bs \<Longrightarrow> i < num_bits bs \<Longrightarrow> i div 8 < length (bs_data bs)"
  by (simp add: shape_def NumBytes_index)

lemma nth_bits:
  assumes "shape bs" and "i < num_bits bs"
  shows "bits bs ! i = bit (bs_data bs ! (i div 8)) (7 - i mod 8)"
proof -
  have "i < 8 * length (bs_data bs)" using shape_index [OF assms] by linarith
  then show ?thesis using assms(2) by (simp add: bits_def nth_data_bits)
qed

lemma bs_get_bits: "shape bs \<Longrightarrow> bs_get bs i \<longleftrightarrow> i < num_bits bs \<and> bits bs ! i"
  by (auto simp: bs_get_def and_lookup_zero nth_bits)

lemma count_list_append': "count_list (xs @ ys) x = count_list xs x + count_list ys x"
  by (induction xs) simp_all

lemma add_popcounts_eq:
  "add_popcounts ws acc = acc + of_nat (count_list (data_bits ws) True)"
  by (induction ws arbitrary: acc) (simp_all add: popcount_byte_bits count_list_append')

text \<open>An operation that recounts from the bytes leaves the count right when no unused bit is on.\<close>

lemma counted_if_tail_clear:
  assumes "tail_clear bs"
  shows "count_list (data_bits (bs_data bs)) True = count_list (bits bs) True"
proof -
  have "count_list (data_bits (bs_data bs)) True =
      count_list (bits bs) True + count_list (drop (num_bits bs) (data_bits (bs_data bs))) True"
    unfolding bits_def by (metis append_take_drop_id count_list_append')
  with assms show ?thesis by (simp add: tail_clear_def count_notin)
qed

lemma counted_recount:
  "tail_clear bs \<Longrightarrow> num_on bs = add_popcounts (bs_data bs) 0 \<Longrightarrow> counted bs"
  by (simp add: counted_def add_popcounts_eq counted_if_tail_clear)

lemma data_bits_map2:
  assumes "\<And>a b. byte_bits (f a b) = map2 g (byte_bits a) (byte_bits b)"
  shows "length xs \<le> length ys \<Longrightarrow>
    data_bits (map2 f xs ys) = map2 g (data_bits xs) (take (8 * length xs) (data_bits ys))"
proof (induction xs arbitrary: ys)
  case (Cons x xs)
  then obtain y ys' where "ys = y # ys'" by (cases ys) auto
  with Cons assms show ?case by simp
qed simp

lemma byte_bits_ops:
  "byte_bits (a OR b) = map2 (\<or>) (byte_bits a) (byte_bits b)"
  "byte_bits (a AND b) = map2 (\<and>) (byte_bits a) (byte_bits b)"
  "byte_bits (a AND NOT (a AND b)) = map2 (\<lambda>x y. x \<and> \<not> y) (byte_bits a) (byte_bits b)"
  by (auto simp: byte_bits_def upt8 bit_simps)

lemma byte_bits_NOT: "byte_bits (NOT a) = map Not (byte_bits a)"
  by (simp add: byte_bits_def upt8 bit_simps)

lemma data_bits_replicate: "data_bits (replicate n w) = concat (replicate n (byte_bits w))"
  by (simp add: data_bits_def)

section \<open>Refinement of the operations\<close>

lemma take_concat_replicate:
  "\<forall>x \<in> set xs. x = y \<Longrightarrow> n \<le> length xs \<Longrightarrow> take n xs = replicate n y"
  by (metis in_set_takeD length_take min.absorb2 replicate_eqI)

lemma bits_constant:
  assumes "shape bs" and "\<forall>w \<in> set (bs_data bs). \<forall>b \<in> set (byte_bits w). b = v"
  shows "bits bs = replicate (num_bits bs) v"
  unfolding bits_def
proof (rule take_concat_replicate)
  show "\<forall>x \<in> set (data_bits (bs_data bs)). x = v" using assms(2) by (auto simp: data_bits_def)
  show "num_bits bs \<le> length (data_bits (bs_data bs))"
    using assms(1) NumBytes_bound by (simp add: shape_def)
qed

lemma byte_bits_const: "set (byte_bits 0) = {False}" "set (byte_bits 0xFF) = {True}"
  by (simp_all add: byte_bits_def upt8)

lemma num_bits_ops [simp]:
  "num_bits (bs_new n) = n" "num_bits (bs_set i on bs) = num_bits bs"
  "num_bits (bs_setAll on bs) = num_bits bs" "num_bits (bs_invert bs) = num_bits bs"
  by (simp_all add: bs_new_def bs_set_def bs_setAll_def bs_invert_def Let_def)

lemma bs_new_bits:
  assumes "n < 2 ^ 32"
  shows "shape (bs_new n)" "bits (bs_new n) = replicate n False" "counted (bs_new n)"
    "tail_clear (bs_new n)"
proof -
  show s: "shape (bs_new n)" using assms by (simp add: shape_def bs_new_def)
  show b: "bits (bs_new n) = replicate n False"
    using bits_constant [OF s, of False] by (simp add: bs_new_def byte_bits_const)
  show "counted (bs_new n)"
    by (simp add: counted_def b) (simp add: bs_new_def count_notin)
  show "tail_clear (bs_new n)"
    by (auto simp: tail_clear_def bs_new_def data_bits_def byte_bits_const dest!: in_set_dropD
      split: if_splits)
qed

lemma bs_setAll_bits:
  assumes "shape bs"
  shows "shape (bs_setAll on bs)" "bits (bs_setAll on bs) = replicate (num_bits bs) on"
    "counted (bs_setAll on bs)"
proof -
  show s: "shape (bs_setAll on bs)" using assms by (simp add: shape_def bs_setAll_def)
  show b: "bits (bs_setAll on bs) = replicate (num_bits bs) on"
    using bits_constant [OF s, of on] by (simp add: bs_setAll_def byte_bits_const)
  have "count_list (replicate k True) True = k" for k by (induction k) simp_all
  then show "counted (bs_setAll on bs)"
    unfolding counted_def b by (simp add: bs_setAll_def count_notin)
qed

lemma byte_bits_set:
  assumes "k < 8"
  shows "byte_bits (if on then d OR (set_on_lookup ! k) else d AND (set_off_lookup ! k)) =
    (byte_bits d)[k := on]"
proof (rule nth_equalityI)
  fix i assume "i < length (byte_bits (if on then d OR (set_on_lookup ! k)
                                      else d AND (set_off_lookup ! k)))"
  then have i: "i < 8" by simp
  have "byte_bits w ! i = bit w (7 - i)" for w
    using i by (simp add: byte_bits_def)
  moreover have "7 - i = 7 - k \<longleftrightarrow> i = k" using i assms by arith
  ultimately show "byte_bits (if on then d OR (set_on_lookup ! k) else d AND (set_off_lookup ! k)) ! i =
      (byte_bits d)[k := on] ! i"
    using i assms by (auto simp: nth_list_update bit_simps bit_set_on_lookup bit_set_off_lookup)
qed simp

lemma data_bits_update:
  assumes "i < 8 * length ws" and "byte_bits d = (byte_bits (ws ! (i div 8)))[i mod 8 := on]"
  shows "data_bits (ws[i div 8 := d]) = (data_bits ws)[i := on]"
  using assms
proof (induction ws arbitrary: i)
  case (Cons w ws)
  show ?case
  proof (cases "i < 8")
    case True
    with Cons.prems show ?thesis by (simp add: list_update_append1)
  next
    case False
    then obtain j where j: "i = j + 8" by (metis add.commute le_Suc_ex not_less)
    then have "i div 8 = Suc (j div 8)" "i mod 8 = j mod 8" by simp_all
    with j Cons show ?thesis by (simp add: list_update_append)
  qed
qed simp

lemma count_list_update:
  "k < length xs \<Longrightarrow>
   int (count_list (xs[k := v]) x) = int (count_list xs x) - (if xs ! k = x then 1 else 0) + (if v = x then 1 else 0)"
proof (induction xs arbitrary: k)
  case (Cons y ys)
  show ?case
  proof (cases k)
    case (Suc j)
    with Cons.prems Cons.IH [of j] show ?thesis by (auto split: if_splits)
  qed auto
qed simp

lemma bs_set_bits:
  assumes "shape bs"
  shows "shape (bs_set i on bs)"
    and "bits (bs_set i on bs) = (bits bs)[i := on]"
    and "counted bs \<Longrightarrow> counted (bs_set i on bs)"
    and "tail_clear bs \<Longrightarrow> tail_clear (bs_set i on bs)"
proof -
  define d where "d = bs_data bs ! (i div 8)"
  define d' where "d' = (if on then d OR (set_on_lookup ! (i mod 8)) else d AND (set_off_lookup ! (i mod 8)))"
  have out: "bs_set i on bs = bs" if "num_bits bs \<le> i" using that by (simp add: bs_set_def)
  have set: "bs_set i on bs = bs\<lparr>bs_data := (bs_data bs)[i div 8 := d'],
      num_on := num_on bs - of_nat (popcount d) + of_nat (popcount d')\<rparr>" if "i < num_bits bs"
    using that by (simp add: bs_set_def Let_def d_def d'_def)
  show "shape (bs_set i on bs)"
    using assms out set by (cases "i < num_bits bs") (simp_all add: shape_def)
  have db: "data_bits ((bs_data bs)[i div 8 := d']) = (data_bits (bs_data bs))[i := on]"
    if "i < num_bits bs"
  proof (rule data_bits_update)
    show "i < 8 * length (bs_data bs)" using shape_index [OF assms that] by linarith
    show "byte_bits d' = (byte_bits (bs_data bs ! (i div 8)))[i mod 8 := on]"
      unfolding d'_def d_def by (rule byte_bits_set) simp
  qed
  show bits: "bits (bs_set i on bs) = (bits bs)[i := on]"
  proof (cases "i < num_bits bs")
    case True
    with set db show ?thesis by (simp add: bits_def take_update_swap)
  next
    case False
    with out length_bits [OF assms] show ?thesis by (simp add: list_update_beyond)
  qed
  show "counted (bs_set i on bs)" if "counted bs"
  proof (cases "i < num_bits bs")
    case True
    have "int (popcount d') - int (popcount d) =
        int (count_list (bits (bs_set i on bs)) True) - int (count_list (bits bs) True)"
    proof -
      have "byte_bits d' = (byte_bits d)[i mod 8 := on]"
        unfolding d'_def by (rule byte_bits_set) simp
      moreover have "byte_bits d ! (i mod 8) = bits bs ! i"
        using True nth_bits [OF assms] by (simp add: d_def byte_bits_def)
      ultimately show ?thesis
        using True length_bits [OF assms] by (simp add: bits popcount_byte_bits count_list_update)
    qed
    then have "(of_int (int (popcount d') - int (popcount d)) :: u32) =
        of_int (int (count_list (bits (bs_set i on bs)) True) - int (count_list (bits bs) True))"
      by simp
    then have "(of_nat (popcount d') - of_nat (popcount d) :: u32) =
        of_nat (count_list (bits (bs_set i on bs)) True) - of_nat (count_list (bits bs) True)"
      by simp
    moreover have "num_on (bs_set i on bs) = num_on bs + (of_nat (popcount d') - of_nat (popcount d))"
      using set [OF True] by simp
    ultimately show ?thesis using that by (simp add: counted_def)
  next
    case False
    with that out show ?thesis by simp
  qed
  show "tail_clear (bs_set i on bs)" if "tail_clear bs"
  proof (cases "i < num_bits bs")
    case True
    with that set db show ?thesis by (simp add: tail_clear_def drop_update_cancel)
  next
    case False
    with that out show ?thesis by simp
  qed
qed

text \<open>The byte-wise operations on sets of the same size.\<close>

lemma map2_bits:
  assumes "shape a" and "shape b" and "num_bits a = num_bits b"
    and f: "\<And>x y. byte_bits (f x y) = map2 g (byte_bits x) (byte_bits y)"
    and d: "d = map2 f (bs_data a) (bs_data b)"
    and r: "r = a\<lparr>bs_data := d, num_on := add_popcounts d 0\<rparr>"
    and ff: "\<not> g False False"
  shows "shape r" and "bits r = map2 g (bits a) (bits b)"
    and "tail_clear a \<Longrightarrow> tail_clear b \<Longrightarrow> tail_clear r \<and> counted r"
proof -
  have len: "length (bs_data a) = length (bs_data b)" using assms by (simp add: shape_def)
  have db: "data_bits d = map2 g (data_bits (bs_data a)) (data_bits (bs_data b))"
    using data_bits_map2 [of f g "bs_data a" "bs_data b", OF f] len d by simp
  show "shape r" using assms(1) len by (simp add: r d shape_def)
  show "bits r = map2 g (bits a) (bits b)"
    using assms(3) by (simp add: bits_def r db take_map take_zip)
  assume "tail_clear a" "tail_clear b"
  then have "\<not> x \<and> \<not> y" if "(x, y) \<in> set (zip (drop (num_bits b) (data_bits (bs_data a)))
      (drop (num_bits b) (data_bits (bs_data b))))" for x y
    using assms(3) set_zip_leftD [OF that] set_zip_rightD [OF that]
    by (auto simp: tail_clear_def)
  then have "tail_clear r"
    using assms(3) ff by (fastforce simp: tail_clear_def r db drop_map drop_zip)
  then show "tail_clear r \<and> counted r" by (auto simp: r intro: counted_recount)
qed

lemma bs_set_get:
  assumes "shape bs"
  shows "bs_get (bs_set i on bs) j = (if j = i \<and> i < num_bits bs then on else bs_get bs j)"
proof -
  have "num_bits (bs_set i on bs) = num_bits bs" by (simp add: bs_set_def Let_def)
  then show ?thesis
    using bs_get_bits [OF assms] bs_get_bits [OF bs_set_bits(1) [OF assms]]
      bs_set_bits(2) [OF assms] length_bits [OF assms]
    by (auto simp: nth_list_update)
qed

section \<open>The interface the clients rely on\<close>

text \<open>
  A set of chunk indices that can be read and updated bit by bit. The chunk manager, the
  chunk counter and the super seeder use a \<^verbatim>\<open>BitSet\<close> only through these operations and the
  size. The client lemmas describe a loop that sets a list of indices.
\<close>

locale chunk_set =
  fixes wf :: "'s \<Rightarrow> bool" and size :: "'s \<Rightarrow> nat"
    and get :: "'s \<Rightarrow> nat \<Rightarrow> bool" and upd :: "nat \<Rightarrow> bool \<Rightarrow> 's \<Rightarrow> 's"
  assumes wf_upd: "wf s \<Longrightarrow> wf (upd i on s)"
    and size_upd: "wf s \<Longrightarrow> size (upd i on s) = size s"
    and get_upd: "wf s \<Longrightarrow> get (upd i on s) j = (if j = i \<and> i < size s then on else get s j)"
    and get_size: "wf s \<Longrightarrow> get s i \<Longrightarrow> i < size s"
begin

lemma fold_upd:
  "wf s \<Longrightarrow> wf (fold (\<lambda>i. upd i on) is s) \<and> size (fold (\<lambda>i. upd i on) is s) = size s \<and>
     get (fold (\<lambda>i. upd i on) is s) j = (if j \<in> set is \<and> j < size s then on else get s j)"
proof (induction "is" arbitrary: s)
  case (Cons i "is")
  have "wf (upd i on s)" using Cons.prems by (rule wf_upd)
  from Cons.IH [OF this] Cons.prems show ?case by (auto simp: get_upd size_upd)
qed simp

lemma fold_upd_fun:
  "wf s \<Longrightarrow> distinct is \<Longrightarrow> wf (fold (\<lambda>i. upd i (f i)) is s) \<and>
     size (fold (\<lambda>i. upd i (f i)) is s) = size s \<and>
     get (fold (\<lambda>i. upd i (f i)) is s) j = (if j \<in> set is \<and> j < size s then f j else get s j)"
proof (induction "is" arbitrary: s)
  case (Cons i "is")
  have "wf (upd i (f i) s)" using Cons.prems(1) by (rule wf_upd)
  from Cons.IH [OF this] Cons.prems show ?case by (auto simp: get_upd size_upd)
qed simp

lemma upd_same: "wf s \<Longrightarrow> get s i = on \<Longrightarrow> get (upd i on s) j = get s j"
  by (auto simp: get_upd)

end

interpretation bs: chunk_set shape num_bits bs_get bs_set
  by unfold_locales (simp_all only: bs_set_bits(1) bs_set_get num_bits_ops, simp add: bs_get_bits)

lemma counted_card:
  assumes "shape bs" and "counted bs"
  shows "unat (num_on bs) = card {k. bs_get bs k}"
proof -
  have "count_list (bits bs) True = length (filter id (bits bs))"
  proof -
    have "(=) True = id" by (auto simp: fun_eq_iff)
    then show ?thesis by (simp add: count_list_eq_length_filter)
  qed
  also have "\<dots> = card {k. bs_get bs k}"
    using assms(1) by (simp add: length_filter_conv_card bs_get_bits length_bits)
  finally have "count_list (bits bs) True = card {k. bs_get bs k}" .
  moreover have "count_list (bits bs) True < 2 ^ 32"
    using count_le_length [of "bits bs" True] length_bits [OF assms(1)] assms(1)
    by (simp add: shape_def)
  ultimately show ?thesis using assms(2) by (simp add: counted_def unat_of_nat)
qed

section \<open>Properties\<close>

text \<open>C27. Setting a bit changes that bit and no other, and only when the index is in
  range; the cached count of the bits that are on stays right, including after
  \<^verbatim>\<open>setAll(true)\<close> has switched on the unused bits of the last byte.\<close>

theorem bs_set_correct:
  assumes "shape bs" and "counted bs"
  shows "bs_get (bs_set i on bs) j = (if j = i \<and> i < num_bits bs then on else bs_get bs j) \<and>
    unat (num_on (bs_set i on bs)) = card {k. bs_get (bs_set i on bs) k}"
  using assms bs_set_get bs_set_bits counted_card by blast

theorem bs_set_correct_witness:
  "unat (num_on (bs_set 9 False (bs_setAll True (bs_new 12)))) =
     card {k. bs_get (bs_set 9 False (bs_setAll True (bs_new 12))) k}"
  by (rule bs_set_correct [of "bs_setAll True (bs_new 12)" 9 False, THEN conjunct2])
     (simp_all add: bs_setAll_bits bs_new_bits)

text \<open>On sets of the same number of chunks, with no unused bit on, \<^verbatim>\<open>operator-=\<close>,
  \<^verbatim>\<open>orBitSet\<close> and \<^verbatim>\<open>andBitSet\<close> compute set difference, union and intersection, and leave a
  right count of the elements.\<close>

theorem bs_boolean_ops:
  assumes "shape a" and "shape b" and "num_bits a = num_bits b"
    and "tail_clear a" and "tail_clear b"
  shows "\<exists>d u c. bs_minus a b = Some d \<and> bs_orBitSet a b = Some u \<and> bs_andBitSet a b = Some c \<and>
    (\<forall>i. bs_get d i = (bs_get a i \<and> \<not> bs_get b i)) \<and> counted d \<and>
    (\<forall>i. bs_get u i = (bs_get a i \<or> bs_get b i)) \<and> counted u \<and>
    (\<forall>i. bs_get c i = (bs_get a i \<and> bs_get b i)) \<and> counted c"
proof -
  have len: "length (bs_data a) = length (bs_data b)" using assms by (simp add: shape_def)
  note ops = map2_bits [OF assms(1-3) _ refl refl]
  have get: "\<forall>i. bs_get r i = g (bs_get a i) (bs_get b i)"
    if "shape r" and "bits r = map2 g (bits a) (bits b)" and "num_bits r = num_bits a"
      and "\<not> g False False" for r g
  proof
    fix i show "bs_get r i = g (bs_get a i) (bs_get b i)"
      using that assms(3) length_bits [OF assms(1)] length_bits [OF assms(2)]
      by (cases "i < num_bits a")
         (simp_all add: bs_get_bits [OF that(1)] bs_get_bits [OF assms(1)] bs_get_bits [OF assms(2)])
  qed
  define d where "d = map2 (\<lambda>x y. x AND NOT (x AND y)) (bs_data a) (bs_data b)"
  define u where "u = map2 (OR) (bs_data a) (bs_data b)"
  define c where "c = map2 (AND) (bs_data a) (bs_data b)"
  let ?r = "\<lambda>d. a\<lparr>bs_data := d, num_on := add_popcounts d 0\<rparr>"
  have "\<forall>i. bs_get (?r d) i = (bs_get a i \<and> \<not> bs_get b i)" "counted (?r d)"
    using get [of "?r d" "\<lambda>x y. x \<and> \<not> y"] ops [OF byte_bits_ops(3)] assms(4,5) by (auto simp: d_def)
  moreover have "\<forall>i. bs_get (?r u) i = (bs_get a i \<or> bs_get b i)" "counted (?r u)"
    using get [of "?r u" "(\<or>)"] ops [OF byte_bits_ops(1)] assms(4,5) by (auto simp: u_def)
  moreover have "\<forall>i. bs_get (?r c) i = (bs_get a i \<and> bs_get b i)" "counted (?r c)"
    using get [of "?r c" "(\<and>)"] ops [OF byte_bits_ops(2)] assms(4,5) by (auto simp: c_def)
  moreover have "bs_minus a b = Some (?r d)" "bs_orBitSet a b = Some (?r u)"
    "bs_andBitSet a b = Some (?r c)"
    using len assms(3)
    by (simp_all add: bs_minus_def bs_orBitSet_def bs_andBitSet_def d_def u_def c_def Let_def)
  ultimately show ?thesis by blast
qed

theorem bs_boolean_ops_witness:
  "\<exists>d u c. bs_minus (bs_set 3 True (bs_new 12)) (bs_set 4 True (bs_new 12)) = Some d \<and>
     bs_orBitSet (bs_set 3 True (bs_new 12)) (bs_set 4 True (bs_new 12)) = Some u \<and>
     bs_andBitSet (bs_set 3 True (bs_new 12)) (bs_set 4 True (bs_new 12)) = Some c \<and> counted u"
  using bs_boolean_ops [of "bs_set 3 True (bs_new 12)" "bs_set 4 True (bs_new 12)"]
    bs_new_bits [of 12] bs_set_bits by auto

text \<open>On sets of the same size with no unused bit on, \<^verbatim>\<open>includesBitSet\<close> decides set
  inclusion.\<close>

theorem bs_includes_correct:
  assumes "shape a" and "shape b" and "num_bits a = num_bits b" and "tail_clear b"
  shows "bs_includesBitSet a b = Some (\<forall>i. bs_get b i \<longrightarrow> bs_get a i)"
proof -
  have len: "length (bs_data a) = length (bs_data b)" using assms by (simp add: shape_def)
  have byte: "x OR y = x \<longleftrightarrow> (\<forall>k < 8. bit y (7 - k) \<longrightarrow> bit x (7 - k))" for x y :: byte
  proof -
    have "x OR y = x \<longleftrightarrow> byte_bits (x OR y) = byte_bits x" using byte_eqI by metis
    also have "\<dots> \<longleftrightarrow> (\<forall>k < 8. bit y (7 - k) \<longrightarrow> bit x (7 - k))"
      by (auto simp: list_eq_iff_nth_eq byte_bits_def bit_or_iff)
    finally show ?thesis .
  qed
  let ?n = "length (bs_data a)"
  have "list_all2 (\<lambda>x y. x OR y = x) (bs_data a) (bs_data b) \<longleftrightarrow>
      (\<forall>j < ?n. \<forall>k < 8. bit (bs_data b ! j) (7 - k) \<longrightarrow> bit (bs_data a ! j) (7 - k))"
    using len by (simp add: list_all2_conv_all_nth byte)
  also have "\<dots> \<longleftrightarrow> (\<forall>i < 8 * ?n. data_bits (bs_data b) ! i \<longrightarrow> data_bits (bs_data a) ! i)"
  proof (intro iffI allI impI)
    fix i assume *: "\<forall>j < ?n. \<forall>k < 8. bit (bs_data b ! j) (7 - k) \<longrightarrow> bit (bs_data a ! j) (7 - k)"
      "i < 8 * ?n" "data_bits (bs_data b) ! i"
    then have "i div 8 < ?n" "i mod 8 < 8" by linarith+
    with * len show "data_bits (bs_data a) ! i" by (simp add: nth_data_bits)
  next
    fix j k assume *: "\<forall>i < 8 * ?n. data_bits (bs_data b) ! i \<longrightarrow> data_bits (bs_data a) ! i"
      "j < ?n" "k < 8" "bit (bs_data b ! j) (7 - k)"
    then have "8 * j + k < 8 * ?n" by linarith
    with * len show "bit (bs_data a ! j) (7 - k)"
      using nth_data_bits [of "8 * j + k" "bs_data a"] nth_data_bits [of "8 * j + k" "bs_data b"]
      by auto
  qed
  also have "\<dots> \<longleftrightarrow> (\<forall>i. bs_get b i \<longrightarrow> bs_get a i)"
  proof -
    have "\<not> data_bits (bs_data b) ! i" if "num_bits b \<le> i" "i < 8 * ?n" for i
    proof
      assume "data_bits (bs_data b) ! i"
      moreover have "drop (num_bits b) (data_bits (bs_data b)) ! (i - num_bits b) =
          data_bits (bs_data b) ! i" using that len by simp
      ultimately have "True \<in> set (drop (num_bits b) (data_bits (bs_data b)))"
        using that len by (metis (full_types) diff_less_mono length_data_bits length_drop nth_mem)
      with assms(4) show False by (simp add: tail_clear_def)
    qed
    moreover have "num_bits b \<le> 8 * ?n" using assms(2) len NumBytes_bound by (simp add: shape_def)
    ultimately have "(\<forall>i < 8 * ?n. data_bits (bs_data b) ! i \<longrightarrow> data_bits (bs_data a) ! i) \<longleftrightarrow>
        (\<forall>i < num_bits b. data_bits (bs_data b) ! i \<longrightarrow> data_bits (bs_data a) ! i)"
      by (meson not_le order_less_le_trans)
    then show ?thesis using assms(3) by (auto simp: bs_get_bits assms(1,2) bits_def)
  qed
  finally show ?thesis using len assms(3) by (simp add: bs_includesBitSet_def Let_def)
qed

theorem bs_includes_correct_witness:
  "bs_includesBitSet (bs_setAll True (bs_new 12)) (bs_set 4 True (bs_new 12)) =
     Some (\<forall>i. bs_get (bs_set 4 True (bs_new 12)) i \<longrightarrow> bs_get (bs_setAll True (bs_new 12)) i)"
  by (rule bs_includes_correct) (simp_all add: bs_setAll_bits bs_new_bits bs_set_bits)

text \<open>With a right count, \<^verbatim>\<open>allOn()\<close> holds exactly when every chunk is present.\<close>

theorem bs_allOn_correct:
  assumes "shape bs" and "counted bs"
  shows "bs_allOn bs \<longleftrightarrow> (\<forall>i < num_bits bs. bs_get bs i)"
proof -
  have sub: "{k. bs_get bs k} \<subseteq> {..<num_bits bs}" using bs.get_size [OF assms(1)] by auto
  have "bs_allOn bs \<longleftrightarrow> unat (num_on bs) = num_bits bs"
    using assms(1) by (auto simp: bs_allOn_def shape_def word_unat_eq_iff unat_of_nat)
  also have "\<dots> \<longleftrightarrow> card {k. bs_get bs k} = card {..<num_bits bs}"
    using counted_card [OF assms] by simp
  also have "\<dots> \<longleftrightarrow> {k. bs_get bs k} = {..<num_bits bs}"
    using sub card_subset_eq [of "{..<num_bits bs}"] by auto
  finally show ?thesis using sub by auto
qed

theorem bs_allOn_correct_witness:
  "bs_allOn (bs_setAll True (bs_new 12)) \<longleftrightarrow> (\<forall>i < 12. bs_get (bs_setAll True (bs_new 12)) i)"
  using bs_allOn_correct [of "bs_setAll True (bs_new 12)"] by (simp add: bs_setAll_bits bs_new_bits)

text \<open>When the number of chunks is a multiple of eight, \<^verbatim>\<open>invert()\<close> complements the set.\<close>

theorem bs_invert_full_bytes:
  assumes "shape bs" and "counted bs" and "num_bits bs mod 8 = 0"
  shows "bits (bs_invert bs) = map Not (bits bs) \<and> counted (bs_invert bs)"
proof (cases "bs_data bs = []")
  case True
  with assms(2) show ?thesis by (simp add: bs_invert_def bits_def)
next
  case False
  have "NOT (last (bs_data bs)) AND tail_mask_lookup ! 0 = NOT (last (bs_data bs))"
    by (rule bit_word_eqI) (simp add: bit_and_iff bit_tail_mask_lookup)
  moreover have "map NOT (butlast (bs_data bs)) @ [NOT (last (bs_data bs))] = map NOT (bs_data bs)"
    using False by (metis append_butlast_last_id list.simps(8,9) map_append)
  ultimately have inv: "bs_invert bs =
      bs\<lparr>bs_data := map NOT (bs_data bs), num_on := add_popcounts (map NOT (bs_data bs)) 0\<rparr>"
    using False assms(3) by (simp add: bs_invert_def Let_def)
  have db: "data_bits (map NOT (bs_data bs)) = map Not (data_bits (bs_data bs))"
    by (simp add: data_bits_def map_concat byte_bits_NOT o_def)
  have "num_bits bs = 8 * length (bs_data bs)"
    using assms(1,3) by (auto simp: shape_def NumBytesFromNumBits_def)
  then have "tail_clear (bs_invert bs)" by (simp add: tail_clear_def inv)
  then show ?thesis by (auto simp: inv bits_def db take_map intro: counted_recount)
qed

theorem bs_invert_full_bytes_witness:
  "bits (bs_invert (bs_set 3 True (bs_new 16))) = map Not (bits (bs_set 3 True (bs_new 16)))"
  using bs_invert_full_bytes [of "bs_set 3 True (bs_new 16)"] by (simp add: bs_set_bits bs_new_bits)

text \<open>When the number of chunks is not a multiple of eight, \<^verbatim>\<open>invert()\<close> masks the last
  byte with the low-order bits although the chunks are stored from the high-order end: the
  first chunk of the last byte is off afterwards, whether it was on or off before.\<close>

theorem bs_invert_partial_byte:
  assumes "shape bs" and "num_bits bs mod 8 \<noteq> 0"
  shows "\<not> bs_get (bs_invert bs) (8 * (num_bits bs div 8))"
proof -
  let ?k = "num_bits bs div 8" and ?d = "bs_data bs"
  from assms have len: "length ?d = Suc ?k" by (simp add: shape_def NumBytesFromNumBits_def)
  then have "bs_data (bs_invert bs) ! ?k = NOT (last ?d) AND tail_mask_lookup ! (num_bits bs mod 8)"
    by (auto simp: bs_invert_def Let_def nth_append)
  moreover have "\<not> bit (tail_mask_lookup ! (num_bits bs mod 8)) 7"
    using assms(2) bit_tail_mask_lookup [of "num_bits bs mod 8" 7] mod_less_divisor [of 8 "num_bits bs"]
    by simp
  ultimately have "\<not> bit (bs_data (bs_invert bs) ! ?k) 7" by (simp add: bit_and_iff)
  then show ?thesis using and_lookup_zero [of 0 "bs_data (bs_invert bs) ! ?k"]
    by (auto simp: bs_get_def)
qed

theorem bs_invert_partial_byte_witness:
  "\<not> bs_get (bs_invert (bs_new 12)) 8 \<and> \<not> bs_get (bs_new 12) 8"
  using bs_invert_partial_byte [of "bs_new 12"] bs_new_bits [of 12]
  by (simp add: bs_get_bits)

text \<open>Two representation leaks of the last byte: after \<^verbatim>\<open>setAll(true)\<close> a set of three
  chunks differs under \<^verbatim>\<open>operator==\<close> from the set in which the same three chunks were set
  one by one, and \<^verbatim>\<open>orBitSet\<close> with a set of another size drops a chunk this set had, because
  its mask is indexed by the number of bytes.\<close>

theorem bs_last_byte:
  "bits (bs_setAll True (bs_new 3)) = bits (fold (\<lambda>i. bs_set i True) [0..<3] (bs_new 3)) \<and>
   \<not> bs_eq (bs_setAll True (bs_new 3)) (fold (\<lambda>i. bs_set i True) [0..<3] (bs_new 3)) \<and>
   bs_get (bs_set 0 True (bs_new 4)) 0 \<and>
   map_option (\<lambda>r. bs_get r 0) (bs_orBitSet (bs_set 0 True (bs_new 4)) (bs_new 8)) = Some False"
  by code_simp

end
