(* ===== verification/Endian.thy ===== *)
theory Endian
  imports Prelude
begin

text \<open>
  Big-endian integers in byte buffers, the \<^verbatim>\<open>ReadUint\<close> and \<^verbatim>\<open>WriteUint\<close> templates of
  \<^verbatim>\<open>src/src/util/functions.h\<close>. A buffer is a list of bytes; writing past its end is not
  modelled (the callers allocate the buffer they write to).
\<close>

section \<open>Overwriting part of a buffer\<close>

text \<open>\<open>splice_at off xs buf\<close> is \<^verbatim>\<open>memcpy(buf + off, xs, size)\<close>.\<close>

definition splice_at :: "nat \<Rightarrow> 'a list \<Rightarrow> 'a list \<Rightarrow> 'a list" where
  "splice_at off xs buf = take off buf @ xs @ drop (off + length xs) buf"

lemma length_splice_at [simp]:
  "off + length xs \<le> length buf \<Longrightarrow> length (splice_at off xs buf) = length buf"
  by (simp add: splice_at_def)

lemma splice_at_nil [simp]: "splice_at off [] buf = buf"
  by (simp add: splice_at_def)

lemma take_splice_at:
  "off \<le> length buf \<Longrightarrow> take (off + length xs) (splice_at off xs buf) = take off buf @ xs"
  by (simp add: splice_at_def)

lemma take_splice_at_before:
  "n \<le> off \<Longrightarrow> off \<le> length buf \<Longrightarrow> take n (splice_at off xs buf) = take n buf"
  by (simp add: splice_at_def)

lemma sliced_splice_at_same:
  "off \<le> length buf \<Longrightarrow> sliced (splice_at off xs buf) off (length xs) = xs"
  by (simp add: sliced_def splice_at_def)

lemma sliced_splice_at_other:
  assumes "a + n \<le> off \<or> off + length xs \<le> a" and "off + length xs \<le> length buf"
  shows "sliced (splice_at off xs buf) a n = sliced buf a n"
  using assms
proof (elim disjE)
  assume "a + n \<le> off" and "off + length xs \<le> length buf"
  then show ?thesis by (simp add: sliced_def splice_at_def take_drop)
next
  assume "off + length xs \<le> a" and "off + length xs \<le> length buf"
  then show ?thesis by (simp add: sliced_def splice_at_def)
qed

lemma nth_splice_at:
  "off + length xs \<le> length buf \<Longrightarrow> i < length buf \<Longrightarrow>
   splice_at off xs buf ! i =
     (if off \<le> i \<and> i < off + length xs then xs ! (i - off) else buf ! i)"
  by (auto simp: splice_at_def nth_append)

section \<open>Big-endian numbers\<close>

fun nat_to_be :: "nat \<Rightarrow> nat \<Rightarrow> byte list" where
  "nat_to_be 0 n = []"
| "nat_to_be (Suc k) n = nat_to_be k (n div 256) @ [of_nat n]"

definition be_to_nat :: "byte list \<Rightarrow> nat" where
  "be_to_nat bs = foldl (\<lambda>a b. 256 * a + unat b) 0 bs"

lemma be_to_nat_snoc [simp]: "be_to_nat (bs @ [b]) = 256 * be_to_nat bs + unat b"
  by (simp add: be_to_nat_def)

lemma be_to_nat_Nil [simp]: "be_to_nat [] = 0"
  by (simp add: be_to_nat_def)

lemma length_nat_to_be [simp]: "length (nat_to_be k n) = k"
  by (induction k arbitrary: n) simp_all

lemma be_to_nat_to_be: "be_to_nat (nat_to_be k n) = n mod 256 ^ k"
proof (induction k arbitrary: n)
  case (Suc k)
  have "n mod 256 ^ Suc k = 256 * (n div 256 mod 256 ^ k) + n mod 256"
    by (simp add: mod_mult2_eq)
  with Suc show ?case by (simp add: unat_of_nat)
qed simp

lemma be_to_nat_bound: "be_to_nat bs < 256 ^ length bs"
proof (induction bs rule: rev_induct)
  case (snoc b bs)
  have "unat b < 256" using unat_lt2p [of b] by simp
  with snoc show ?case by simp
qed simp

lemma nat_to_be_to_nat: "nat_to_be (length bs) (be_to_nat bs) = bs"
proof (induction bs rule: rev_induct)
  case (snoc b bs)
  have "unat b < 256" using unat_lt2p [of b] by simp
  then have "(256 * be_to_nat bs + unat b) div 256 = be_to_nat bs"
    and "(of_nat (256 * be_to_nat bs + unat b) :: byte) = b"
  proof -
    have z: "(256 :: byte) = 0" by simp
    show "(of_nat (256 * be_to_nat bs + unat b) :: byte) = b" by (simp add: z)
  qed simp
  with snoc show ?case by simp
qed simp

section \<open>The templates\<close>

definition WriteUint16 :: "nat \<Rightarrow> u16 \<Rightarrow> byte list \<Rightarrow> byte list" where
  "WriteUint16 off val buf = splice_at off (nat_to_be 2 (unat val)) buf"

definition WriteUint32 :: "nat \<Rightarrow> u32 \<Rightarrow> byte list \<Rightarrow> byte list" where
  "WriteUint32 off val buf = splice_at off (nat_to_be 4 (unat val)) buf"

definition WriteUint64 :: "nat \<Rightarrow> u64 \<Rightarrow> byte list \<Rightarrow> byte list" where
  "WriteUint64 off val buf = splice_at off (nat_to_be 8 (unat val)) buf"

definition ReadUint16 :: "byte list \<Rightarrow> nat \<Rightarrow> u16" where
  "ReadUint16 buf off = of_nat (be_to_nat (sliced buf off 2))"

definition ReadUint32 :: "byte list \<Rightarrow> nat \<Rightarrow> u32" where
  "ReadUint32 buf off = of_nat (be_to_nat (sliced buf off 4))"

definition ReadUint64 :: "byte list \<Rightarrow> nat \<Rightarrow> u64" where
  "ReadUint64 buf off = of_nat (be_to_nat (sliced buf off 8))"

lemma length_WriteUint [simp]:
  "off + 2 \<le> length buf \<Longrightarrow> length (WriteUint16 off a buf) = length buf"
  "off + 4 \<le> length buf \<Longrightarrow> length (WriteUint32 off b buf) = length buf"
  "off + 8 \<le> length buf \<Longrightarrow> length (WriteUint64 off c buf) = length buf"
  by (simp_all add: WriteUint16_def WriteUint32_def WriteUint64_def)

lemma be32_inverse: "(of_nat (be_to_nat (nat_to_be 4 (unat w))) :: u32) = w"
  using unat_lt2p [of w] by (simp add: be_to_nat_to_be)

lemma be16_inverse: "(of_nat (be_to_nat (nat_to_be 2 (unat w))) :: u16) = w"
  using unat_lt2p [of w] by (simp add: be_to_nat_to_be)

lemma be64_inverse: "(of_nat (be_to_nat (nat_to_be 8 (unat w))) :: u64) = w"
  using unat_lt2p [of w] by (simp add: be_to_nat_to_be)

lemma Read_Write_same [simp]:
  "off \<le> length buf \<Longrightarrow> ReadUint16 (WriteUint16 off a buf) off = a"
  "off \<le> length buf \<Longrightarrow> ReadUint32 (WriteUint32 off b buf) off = b"
  "off \<le> length buf \<Longrightarrow> ReadUint64 (WriteUint64 off c buf) off = c"
  using sliced_splice_at_same [of off buf "nat_to_be 2 (unat a)"]
    sliced_splice_at_same [of off buf "nat_to_be 4 (unat b)"]
    sliced_splice_at_same [of off buf "nat_to_be 8 (unat c)"]
  by (simp_all add: ReadUint16_def WriteUint16_def ReadUint32_def WriteUint32_def
      ReadUint64_def WriteUint64_def be16_inverse be32_inverse be64_inverse)

lemma Read32_Write_other:
  assumes "a + 4 \<le> off \<or> off + 4 \<le> a" and "off + 4 \<le> length buf"
  shows "ReadUint32 (WriteUint32 off v buf) a = ReadUint32 buf a"
  using assms sliced_splice_at_other [of a 4 off "nat_to_be 4 (unat v)" buf]
  by (simp add: ReadUint32_def WriteUint32_def)

lemma unat_ReadUint32: "off + 4 \<le> length buf \<Longrightarrow> unat (ReadUint32 buf off) = be_to_nat (sliced buf off 4)"
  using be_to_nat_bound [of "sliced buf off 4"]
  by (simp add: ReadUint32_def unat_of_nat length_sliced)

section \<open>Properties\<close>

text \<open>A 32-bit integer written big-endian at an offset is read back from that offset,
  and the write changes no integer stored elsewhere in the buffer.\<close>

theorem Read_WriteUint32:
  assumes "off + 4 \<le> length buf" and "a + 4 \<le> length buf"
    and "a = off \<or> a + 4 \<le> off \<or> off + 4 \<le> a"
  shows "ReadUint32 (WriteUint32 off v buf) a = (if a = off then v else ReadUint32 buf a)"
  using assms Read32_Write_other by auto

theorem Read_WriteUint32_witness:
  "ReadUint32 (WriteUint32 4 7 (replicate 8 1)) 0 = ReadUint32 (replicate 8 1) 0"
  using Read_WriteUint32 [of 4 "replicate 8 1" 0 7] by simp

end
