(* ===== verification/Packet.thy ===== *)
theory Packet
  imports Endian BitSet
begin

text \<open>
  Messages of the peer protocol: \<^verbatim>\<open>src/src/download/packet.cpp\<close>, \<^verbatim>\<open>request.h\<close> and the message
  types of \<^verbatim>\<open>src/src/util/constants.h\<close>. A packet is a byte buffer with a four-byte
  big-endian length, a type byte and a payload, and a count of the bytes sent so far.
\<close>

section \<open>Message types and requests\<close>

definition CHOKE :: byte where "CHOKE = 0"
definition UNCHOKE :: byte where "UNCHOKE = 1"
definition INTERESTED :: byte where "INTERESTED = 2"
definition NOT_INTERESTED :: byte where "NOT_INTERESTED = 3"
definition HAVE :: byte where "HAVE = 4"
definition BITFIELD :: byte where "BITFIELD = 5"
definition REQUEST :: byte where "REQUEST = 6"
definition PIECE :: byte where "PIECE = 7"
definition CANCEL :: byte where "CANCEL = 8"
definition PORT :: byte where "PORT = 9"
definition SUGGEST_PIECE :: byte where "SUGGEST_PIECE = 13"
definition HAVE_ALL :: byte where "HAVE_ALL = 14"
definition HAVE_NONE :: byte where "HAVE_NONE = 15"
definition REJECT_REQUEST :: byte where "REJECT_REQUEST = 16"
definition ALLOWED_FAST :: byte where "ALLOWED_FAST = 17"
definition EXTENDED :: byte where "EXTENDED = 20"

lemmas message_types = CHOKE_def UNCHOKE_def INTERESTED_def NOT_INTERESTED_def HAVE_def
  BITFIELD_def REQUEST_def PIECE_def CANCEL_def PORT_def SUGGEST_PIECE_def HAVE_ALL_def
  HAVE_NONE_def REJECT_REQUEST_def ALLOWED_FAST_def EXTENDED_def

record request =
  rq_index :: u32
  rq_off :: u32
  rq_len :: u32

section \<open>Packets\<close>

record packet =
  pk_data :: "byte list"
  pk_type :: byte
  pk_written :: nat

text \<open>The private constructor: a zeroed buffer of \<open>sz\<close> bytes with its length and type.\<close>

definition Packet_new :: "nat \<Rightarrow> byte \<Rightarrow> packet" where
  "Packet_new sz type =
     \<lparr>pk_data = (WriteUint32 0 (of_nat sz - 4) (replicate sz 0))[4 := type],
      pk_type = type, pk_written = 0\<rparr>"

definition create_type :: "byte \<Rightarrow> packet" where
  "create_type type = Packet_new 5 type"

definition create_port :: "u16 \<Rightarrow> packet" where
  "create_port port = (let pkt = Packet_new 7 PORT
     in pkt\<lparr>pk_data := WriteUint16 5 port (pk_data pkt)\<rparr>)"

definition create_chunk :: "u32 \<Rightarrow> byte \<Rightarrow> packet" where
  "create_chunk chunk type = (let pkt = Packet_new 9 type
     in pkt\<lparr>pk_data := WriteUint32 5 chunk (pk_data pkt)\<rparr>)"

definition create_bitfield :: "bitset \<Rightarrow> packet" where
  "create_bitfield bs = (let pkt = Packet_new (5 + length (bs_data bs)) BITFIELD
     in pkt\<lparr>pk_data := splice_at 5 (bs_data bs) (pk_data pkt)\<rparr>)"

definition create_request :: "request \<Rightarrow> byte \<Rightarrow> packet" where
  "create_request r type = (let pkt = Packet_new 17 type
     in pkt\<lparr>pk_data := WriteUint32 13 (rq_len r) (WriteUint32 9 (rq_off r)
                         (WriteUint32 5 (rq_index r) (pk_data pkt)))\<rparr>)"

text \<open>\<open>piece\<close> is what \<^verbatim>\<open>Chunk::readPiece(begin, len, ...)\<close> stores; \<^verbatim>\<open>len\<close> is its length.\<close>

definition create_piece :: "u32 \<Rightarrow> u32 \<Rightarrow> byte list \<Rightarrow> packet" where
  "create_piece index bgn piece = (let pkt = Packet_new (13 + length piece) PIECE
     in pkt\<lparr>pk_data := splice_at 13 piece (WriteUint32 9 bgn
                         (WriteUint32 5 index (pk_data pkt)))\<rparr>)"

definition create_extended :: "byte \<Rightarrow> byte list \<Rightarrow> packet" where
  "create_extended ext_id ext_data = (let pkt = Packet_new (6 + length ext_data) EXTENDED
     in pkt\<lparr>pk_data := splice_at 6 ext_data ((pk_data pkt)[5 := ext_id])\<rparr>)"

definition isPiece :: "packet \<Rightarrow> request \<Rightarrow> bool" where
  "isPiece p req \<longleftrightarrow> pk_data p ! 4 = PIECE \<and> ReadUint32 (pk_data p) 5 = rq_index req \<and>
     ReadUint32 (pk_data p) 9 = rq_off req \<and> of_nat (length (pk_data p)) - 13 = rq_len req"

definition makeRejectOfPiece :: "packet \<Rightarrow> packet option" where
  "makeRejectOfPiece p = (if pk_type p \<noteq> PIECE then None
     else Some (create_request
       \<lparr>rq_index = ReadUint32 (pk_data p) 5, rq_off = ReadUint32 (pk_data p) 9,
        rq_len = of_nat (length (pk_data p)) - 13\<rparr> REJECT_REQUEST))"

definition isSent :: "packet \<Rightarrow> bool" where
  "isSent p \<longleftrightarrow> pk_written p = length (pk_data p)"

text \<open>
  \<^verbatim>\<open>send\<close> offers at most \<open>max_to_send\<close> bytes (0 means no limit) to the socket; \<open>sock\<close> is the
  socket's answer: the number of bytes it took, or a negative error. The result is what
  \<^verbatim>\<open>send\<close> returns, the bytes handed to the socket, and the packet afterwards.
\<close>

definition packet_send :: "(byte list \<Rightarrow> int) \<Rightarrow> nat \<Rightarrow> packet \<Rightarrow> int \<times> byte list \<times> packet" where
  "packet_send sock max_to_send p =
     (let bw = length (pk_data p) - pk_written p in
      if bw = 0 then (0, [], p)
      else let bw' = (if max_to_send < bw \<and> 0 < max_to_send then max_to_send else bw);
               buf = sliced (pk_data p) (pk_written p) bw';
               ret = sock buf
           in (ret, buf, if 0 < ret then p\<lparr>pk_written := pk_written p + nat ret\<rparr> else p))"

section \<open>Layout of the packets\<close>

text \<open>A frame on the wire: the length of type and payload, then type and payload.\<close>

definition wire :: "byte \<Rightarrow> byte list \<Rightarrow> byte list" where
  "wire type payload = nat_to_be 4 (Suc (length payload)) @ type # payload"

lemma length_wire [simp]: "length (wire type p) = 5 + length p"
  by (simp add: wire_def)

lemma Packet_new_wire:
  assumes "5 \<le> sz" and "sz < 2 ^ 32"
  shows "pk_data (Packet_new sz type) = wire type (replicate (sz - 5) 0)"
proof -
  obtain n where n: "sz = 5 + n" using assms(1) le_Suc_ex by blast
  have "(of_nat sz - 4 :: u32) = of_nat (Suc n)" by (simp add: n)
  moreover have "unat (of_nat (Suc n) :: u32) = Suc n"
    by (subst unat_of_nat) (use assms n in simp)
  ultimately have "unat (of_nat sz - 4 :: u32) = Suc n" by simp
  then show ?thesis
    by (simp add: Packet_new_def WriteUint32_def splice_at_def n wire_def list_update_append)
qed

lemma splice_wire:
  assumes "d = wire type p" and "length p = k + length xs + m"
  shows "splice_at (5 + k) xs d = wire type (splice_at k xs p)"
  using assms by (simp add: splice_at_def wire_def add.assoc)

text \<open>The bytes each constructor puts on the wire.\<close>

lemma create_wire:
  "pk_data (create_type t) = wire t []"
  "pk_data (create_port port) = wire PORT (nat_to_be 2 (unat port))"
  "pk_data (create_chunk c t) = wire t (nat_to_be 4 (unat c))"
  "length (bs_data bs) < 2 ^ 31 \<Longrightarrow> pk_data (create_bitfield bs) = wire BITFIELD (bs_data bs)"
  "pk_data (create_request r t) =
     wire t (nat_to_be 4 (unat (rq_index r)) @ nat_to_be 4 (unat (rq_off r)) @ nat_to_be 4 (unat (rq_len r)))"
  "length piece < 2 ^ 31 \<Longrightarrow> pk_data (create_piece index bgn piece) =
     wire PIECE (nat_to_be 4 (unat index) @ nat_to_be 4 (unat bgn) @ piece)"
  "length ext < 2 ^ 31 \<Longrightarrow> pk_data (create_extended eid ext) = wire EXTENDED (eid # ext)"
proof -
  show "pk_data (create_type t) = wire t []"
    by (simp add: create_type_def Packet_new_wire)
  show "pk_data (create_port port) = wire PORT (nat_to_be 2 (unat port))"
    using splice_wire [of _ PORT "replicate 2 0" 0 "nat_to_be 2 (unat port)" 0]
    by (simp add: create_port_def Packet_new_wire WriteUint16_def Let_def splice_at_def)
  show "pk_data (create_chunk c t) = wire t (nat_to_be 4 (unat c))"
    using splice_wire [of _ t "replicate 4 0" 0 "nat_to_be 4 (unat c)" 0]
    by (simp add: create_chunk_def Packet_new_wire WriteUint32_def Let_def splice_at_def)
  show "pk_data (create_bitfield bs) = wire BITFIELD (bs_data bs)" if "length (bs_data bs) < 2 ^ 31"
    using that splice_wire [of _ BITFIELD "replicate (length (bs_data bs)) 0" 0 "bs_data bs" 0]
    by (simp add: create_bitfield_def Packet_new_wire Let_def splice_at_def)
  show "pk_data (create_request r t) =
     wire t (nat_to_be 4 (unat (rq_index r)) @ nat_to_be 4 (unat (rq_off r)) @ nat_to_be 4 (unat (rq_len r)))"
    by (simp add: create_request_def Packet_new_wire WriteUint32_def Let_def splice_at_def wire_def)
  show "pk_data (create_piece index bgn piece) =
     wire PIECE (nat_to_be 4 (unat index) @ nat_to_be 4 (unat bgn) @ piece)" if "length piece < 2 ^ 31"
    using that
    by (simp add: create_piece_def Packet_new_wire WriteUint32_def Let_def splice_at_def wire_def)
  show "pk_data (create_extended eid ext) = wire EXTENDED (eid # ext)" if "length ext < 2 ^ 31"
    using that
    by (simp add: create_extended_def Packet_new_wire Let_def splice_at_def wire_def list_update_append)
qed

lemma nth_wire: "wire type p ! 4 = type"
  by (simp add: wire_def nth_append)

lemma ReadUint32_wire:
  "ReadUint32 (wire type (pre @ nat_to_be 4 (unat w) @ suf)) (5 + length pre) = w"
  using sliced_append [of "nat_to_be 4 (Suc (length (pre @ nat_to_be 4 (unat w) @ suf))) @ type # pre"
      "nat_to_be 4 (unat w)" suf]
  by (simp add: ReadUint32_def wire_def be32_inverse)

section \<open>Properties\<close>

lemma create_piece_fields:
  assumes "length piece < 2 ^ 31" and p_def: "p = create_piece index bgn piece"
  shows "pk_data p ! 4 = PIECE" "ReadUint32 (pk_data p) 5 = index" "ReadUint32 (pk_data p) 9 = bgn"
    "(of_nat (length (pk_data p)) - 13 :: u32) = of_nat (length piece)" "pk_type p = PIECE"
proof -
  have d: "pk_data p = wire PIECE (nat_to_be 4 (unat index) @ nat_to_be 4 (unat bgn) @ piece)"
    unfolding p_def by (rule create_wire(6) [OF assms(1)])
  show "pk_data p ! 4 = PIECE" by (simp add: d nth_wire)
  show "ReadUint32 (pk_data p) 5 = index"
    using ReadUint32_wire [of PIECE "[]" index] by (simp add: d)
  show "ReadUint32 (pk_data p) 9 = bgn"
    using ReadUint32_wire [of PIECE "nat_to_be 4 (unat index)" bgn] by (simp add: d)
  show "(of_nat (length (pk_data p)) - 13 :: u32) = of_nat (length piece)" by (simp add: d)
  show "pk_type p = PIECE" by (simp add: p_def create_piece_def Packet_new_def Let_def)
qed

text \<open>A piece packet is recognised as the answer to exactly the requests with its index,
  offset and length, and turning it into a reject message gives the reject of that request.\<close>

theorem piece_matches_request:
  assumes "length piece < 2 ^ 31"
  shows "(isPiece (create_piece index bgn piece) req \<longleftrightarrow>
      rq_index req = index \<and> rq_off req = bgn \<and> unat (rq_len req) = length piece) \<and>
    makeRejectOfPiece (create_piece index bgn piece) =
      Some (create_request \<lparr>rq_index = index, rq_off = bgn, rq_len = of_nat (length piece)\<rparr>
              REJECT_REQUEST)"
proof -
  have "of_nat (length piece) = rq_len req \<longleftrightarrow> unat (rq_len req) = length piece"
    using assms by (auto simp: word_unat_eq_iff unat_of_nat)
  then show ?thesis
    using create_piece_fields [OF assms refl, of index bgn]
    by (auto simp: isPiece_def makeRejectOfPiece_def)
qed

theorem piece_matches_request_witness:
  "isPiece (create_piece 3 16384 [1, 2]) \<lparr>rq_index = 3, rq_off = 16384, rq_len = 2\<rparr>"
  using piece_matches_request [of "[1, 2]" 3 16384 "\<lparr>rq_index = 3, rq_off = 16384, rq_len = 2\<rparr>"]
  by simp

text \<open>Sending a packet in pieces: a call hands the socket the bytes right behind the
  ones already accepted, never more than the limit, and records what the socket took, so the
  accepted bytes are always a prefix of the packet and the rest is still to be sent.\<close>

theorem packet_send_correct:
  assumes "pk_written p \<le> length (pk_data p)" and "packet_send sock m p = (ret, buf, p')"
    and "\<And>b. sock b \<le> int (length b)"
  shows "take (pk_written p') (pk_data p') =
      take (pk_written p) (pk_data p) @ take (nat ret) buf \<and>
    pk_data p' = pk_data p \<and> pk_written p' \<le> length (pk_data p') \<and>
    (0 < m \<longrightarrow> length buf \<le> m) \<and> (isSent p' \<longleftrightarrow> pk_written p + nat ret = length (pk_data p))"
proof -
  define bw where "bw = length (pk_data p) - pk_written p"
  define bw' where "bw' = (if m < bw \<and> 0 < m then m else bw)"
  show ?thesis
  proof (cases "bw = 0")
    case True
    with assms show ?thesis by (auto simp: packet_send_def bw_def isSent_def)
  next
    case False
    have b: "buf = sliced (pk_data p) (pk_written p) bw'" "ret = sock buf"
      "p' = (if 0 < ret then p\<lparr>pk_written := pk_written p + nat ret\<rparr> else p)"
      using assms(2) False by (auto simp: packet_send_def bw_def bw'_def Let_def split: if_splits)
    have le: "bw' \<le> bw" "0 < m \<longrightarrow> bw' \<le> m" using False by (auto simp: bw'_def)
    then have len: "length buf = bw'" using b(1) assms(1) by (auto simp: bw_def length_sliced)
    then have ret: "nat ret \<le> bw'" using assms(3) [of buf] b(2) by simp
    have "take (pk_written p + nat ret) (pk_data p) = take (pk_written p) (pk_data p) @ take (nat ret) buf"
      using ret by (simp add: b(1) sliced_def take_add)
    with b len le ret assms(1) show ?thesis by (auto simp: bw_def isSent_def)
  qed
qed

theorem packet_send_correct_witness:
  "take 2 (pk_data (create_type 1)) = take 0 (pk_data (create_type 1)) @
     take (nat 2) (sliced (pk_data (create_type 1)) 0 3)"
proof -
  have "packet_send (\<lambda>b. min 2 (int (length b))) 3 (create_type 1) =
      (2, sliced (pk_data (create_type 1)) 0 3, (create_type 1)\<lparr>pk_written := 2\<rparr>)"
    by code_simp
  from packet_send_correct [OF _ this]
  show ?thesis by (simp add: create_type_def Packet_new_def)
qed

end
