(* ===== verification/PacketReader.thy ===== *)
theory PacketReader
  imports Packet
begin

text \<open>
  \<^verbatim>\<open>bt::PacketReader\<close>, \<^verbatim>\<open>src/src/peer/packetreader.cpp\<close>: chops the byte stream of a socket
  into packets. The network thread feeds it in pieces of any size (\<^verbatim>\<open>onDataReady\<close>), the main
  thread takes complete packets out (\<^verbatim>\<open>update\<close>). The main result is a refinement: whatever the
  sizes of the pieces, the queue holds the frames of the stream received so far.
\<close>

section \<open>State and operations\<close>

record incoming =
  ip_data :: "byte list"
  ip_read :: nat

record reader =
  pr_error :: bool
  packet_queue :: "incoming list"
  pr_len :: "byte list"
  len_received :: int
  max_packet_size :: nat

definition IncomingPacket :: "nat \<Rightarrow> incoming" where
  "IncomingPacket n = \<lparr>ip_data = replicate n 0, ip_read = 0\<rparr>"

definition PacketReader_new :: "nat \<Rightarrow> reader" where
  "PacketReader_new m = \<lparr>pr_error = False, packet_queue = [], pr_len = replicate 4 0,
     len_received = -1, max_packet_size = m\<rparr>"

text \<open>Appending up to the missing bytes of a packet: what \<^verbatim>\<open>readPacket\<close> does to the last packet.\<close>

definition fill_packet :: "byte list \<Rightarrow> incoming \<Rightarrow> nat \<times> incoming" where
  "fill_packet buf pck =
     (let tr = (if length (ip_data pck) \<le> ip_read pck + length buf
                then length (ip_data pck) - ip_read pck else length buf)
      in (tr, pck\<lparr>ip_data := splice_at (ip_read pck) (take tr buf) (ip_data pck),
                  ip_read := ip_read pck + tr\<rparr>))"

definition readPacket :: "byte list \<Rightarrow> reader \<Rightarrow> nat \<times> reader" where
  "readPacket buf r = (if buf = [] then (0, r)
     else let (tr, pck) = fill_packet buf (last (packet_queue r))
          in (tr, r\<lparr>packet_queue := butlast (packet_queue r) @ [pck]\<rparr>))"

text \<open>
  The second half of \<^verbatim>\<open>newPacket\<close>, once the length is known: \<open>n\<close> is the packet length and
  \<open>k\<close> the number of bytes of \<open>buf\<close> the length took.
\<close>

definition newPacket_body :: "nat \<Rightarrow> nat \<Rightarrow> byte list \<Rightarrow> reader \<Rightarrow> nat \<times> reader" where
  "newPacket_body n k buf r =
     (if n = 0 then (k, r)
      else if max_packet_size r < n then (length buf, r\<lparr>pr_error := True\<rparr>)
      else let (t, r') = readPacket (drop k buf)
                  (r\<lparr>packet_queue := packet_queue r @ [IncomingPacket n]\<rparr>)
           in (k + t, r'))"

definition newPacket :: "byte list \<Rightarrow> reader \<Rightarrow> nat \<times> reader" where
  "newPacket buf r =
     (if 0 < len_received r then
        if int (length buf) < 4 - len_received r then
          (length buf,
           r\<lparr>pr_len := splice_at (nat (len_received r)) buf (pr_len r),
             len_received := len_received r + int (length buf)\<rparr>)
        else
          let k = nat (4 - len_received r);
              len = splice_at (nat (len_received r)) (take k buf) (pr_len r)
          in newPacket_body (unat (ReadUint32 len 0)) k buf (r\<lparr>pr_len := len, len_received := 0\<rparr>)
      else if length buf < 4 then
        (length buf, r\<lparr>pr_len := splice_at 0 buf (pr_len r), len_received := int (length buf)\<rparr>)
      else newPacket_body (unat (ReadUint32 buf 0)) 4 buf r)"

text \<open>The loop of \<^verbatim>\<open>onDataReady\<close>, with fuel for the number of iterations.\<close>

fun read_loop :: "nat \<Rightarrow> byte list \<Rightarrow> reader \<Rightarrow> reader option" where
  "read_loop 0 buf r = (if buf \<noteq> [] \<and> \<not> pr_error r then None else Some r)"
| "read_loop (Suc fuel) buf r =
     (if buf \<noteq> [] \<and> \<not> pr_error r
      then (let (k, r') = newPacket buf r in read_loop fuel (drop k buf) r')
      else Some r)"

definition onDataReady :: "byte list \<Rightarrow> reader \<Rightarrow> reader option" where
  "onDataReady buf r = (if pr_error r then Some r
     else let (k, r') =
            (if packet_queue r \<noteq> [] \<and>
                ip_read (last (packet_queue r)) < length (ip_data (last (packet_queue r)))
             then readPacket buf r else (0, r))
          in read_loop (length buf) (drop k buf) r')"

definition dequeuePacket :: "reader \<Rightarrow> incoming option \<times> reader" where
  "dequeuePacket r = (case packet_queue r of
      [] \<Rightarrow> (None, r)
    | pck # q \<Rightarrow> if ip_read pck \<noteq> length (ip_data pck) then (None, r)
                 else (Some pck, r\<lparr>packet_queue := q\<rparr>))"

text \<open>
  \<^verbatim>\<open>update\<close> hands every complete packet to the peer; the result lists the packets handed over,
  in order. The loop runs at most once per queued packet.
\<close>

fun update_loop :: "nat \<Rightarrow> reader \<Rightarrow> byte list list \<times> reader" where
  "update_loop 0 r = ([], r)"
| "update_loop (Suc n) r = (case dequeuePacket r of
      (None, r') \<Rightarrow> ([], r')
    | (Some pck, r') \<Rightarrow> let (ps, r'') = update_loop n r' in (ip_data pck # ps, r''))"

definition reader_update :: "reader \<Rightarrow> byte list list \<times> reader" where
  "reader_update r = (if pr_error r then ([], r)
     else update_loop (Suc (length (packet_queue r))) r)"

section \<open>The frames of a stream\<close>

text \<open>
  The specification: the complete frames of a byte stream, in order, the bytes that remain,
  and whether a frame announced more than the limit. A frame of length zero is a keep-alive
  and is dropped.
\<close>

function frames :: "nat \<Rightarrow> byte list \<Rightarrow> byte list list \<times> byte list \<times> bool" where
  "frames m s =
     (if length s < 4 then ([], s, False)
      else let n = be_to_nat (take 4 s) in
        if n = 0 then frames m (drop 4 s)
        else if m < n then ([], s, True)
        else if length s < 4 + n then ([], s, False)
        else let (fs, rest, e) = frames m (drop (4 + n) s)
             in (take n (drop 4 s) # fs, rest, e))"
  by pat_completeness auto
termination
  by (relation "measure (\<lambda>(m, s). length s)") auto

declare frames.simps [simp del]

lemma frames_short: "length s < 4 \<Longrightarrow> frames m s = ([], s, False)"
  by (simp add: frames.simps)

lemma frames_keepalive:
  "length h = 4 \<Longrightarrow> be_to_nat h = 0 \<Longrightarrow> frames m (h @ s) = frames m s"
  by (subst frames.simps) simp

lemma frames_too_long:
  "length h = 4 \<Longrightarrow> m < be_to_nat h \<Longrightarrow> frames m (h @ s) = ([], h @ s, True)"
  by (subst frames.simps) simp

lemma frames_partial:
  "length h = 4 \<Longrightarrow> 0 < be_to_nat h \<Longrightarrow> be_to_nat h \<le> m \<Longrightarrow> length s < be_to_nat h \<Longrightarrow>
   frames m (h @ s) = ([], h @ s, False)"
  by (subst frames.simps) simp

lemma frames_complete:
  "length h = 4 \<Longrightarrow> 0 < be_to_nat h \<Longrightarrow> be_to_nat h \<le> m \<Longrightarrow> length p = be_to_nat h \<Longrightarrow>
   frames m (h @ p @ s) = (let (fs, rest, e) = frames m s in (p # fs, rest, e))"
  by (subst frames.simps) simp

text \<open>Parsing more of the stream extends the frames already found.\<close>

lemma frames_append:
  "frames m s = (fs, rest, False) \<Longrightarrow>
   frames m (s @ t) = (let (fs', rest', e) = frames m (rest @ t) in (fs @ fs', rest', e))"
proof (induction m s arbitrary: fs rest rule: frames.induct)
  case (1 m s)
  show ?case
  proof (cases "length s < 4")
    case True
    with "1.prems" show ?thesis by (simp add: frames_short split: prod.splits)
  next
    case False
    define h where "h = take 4 s"
    define s' where "s' = drop 4 s"
    have s: "s = h @ s'" and h: "length h = 4" using False by (simp_all add: h_def s'_def)
    note IH = "1.IH" [OF False, of "be_to_nat h", unfolded h_def [symmetric] s'_def [symmetric]]
    consider "be_to_nat h = 0" | "be_to_nat h \<noteq> 0" "m < be_to_nat h"
      | "be_to_nat h \<noteq> 0" "be_to_nat h \<le> m" "length s' < be_to_nat h"
      | "be_to_nat h \<noteq> 0" "be_to_nat h \<le> m" "be_to_nat h \<le> length s'" by linarith
    then show ?thesis
    proof cases
      case 1
      with IH(1) "1.prems" show ?thesis by (simp add: frames_keepalive [OF h] s)
    next
      case 2
      with "1.prems" show ?thesis by (simp add: s frames_too_long [OF h])
    next
      case 3
      with "1.prems" show ?thesis by (simp add: s frames_partial [OF h] split: prod.splits)
    next
      case 4
      define p where "p = take (be_to_nat h) s'"
      define r where "r = drop (be_to_nat h) s'"
      have s': "s' = p @ r" and p: "length p = be_to_nat h" using 4 by (simp_all add: p_def r_def)
      obtain gs rest' e where g: "frames m r = (gs, rest', e)" by (cases "frames m r") auto
      with "1.prems" 4 have fs: "fs = p # gs" "rest = rest'" "\<not> e"
        by (simp_all add: s s' frames_complete [OF h _ _ p])
      have d: "drop (4 + be_to_nat h) s = r" by (simp add: s s' h p)
      have len: "\<not> length s < 4 + be_to_nat h" using 4 h by (simp add: s)
      from IH(2) [OF refl 4(1) _ len] 4 d g fs
      have "frames m (r @ t) = (let (fs', rest', e) = frames m (rest @ t) in (gs @ fs', rest', e))"
        by simp
      then show ?thesis using 4 fs
        by (simp add: s s' frames_complete [OF h _ _ p] split: prod.splits)
    qed
  qed
qed

section \<open>Abstraction of a reader\<close>

definition is_complete :: "incoming \<Rightarrow> bool" where
  "is_complete pck \<longleftrightarrow> ip_read pck = length (ip_data pck)"

definition completed :: "reader \<Rightarrow> byte list list" where
  "completed r = map ip_data (filter is_complete (packet_queue r))"

text \<open>No packet is being received: the next byte belongs to a length.\<close>

definition idle :: "reader \<Rightarrow> bool" where
  "idle r \<longleftrightarrow> packet_queue r = [] \<or> is_complete (last (packet_queue r))"

text \<open>The bytes of the stream that the reader holds and that are no complete frame yet.\<close>

definition pending :: "reader \<Rightarrow> byte list" where
  "pending r = (if \<not> idle r
     then let p = last (packet_queue r) in nat_to_be 4 (length (ip_data p)) @ take (ip_read p) (ip_data p)
     else if 0 < len_received r then take (nat (len_received r)) (pr_len r) else [])"

definition wf_reader :: "reader \<Rightarrow> bool" where
  "wf_reader r \<longleftrightarrow> length (pr_len r) = 4 \<and> len_received r \<le> 3 \<and> max_packet_size r < 2 ^ 32 \<and>
     list_all is_complete (butlast (packet_queue r)) \<and>
     list_all (\<lambda>p. ip_read p \<le> length (ip_data p) \<and> 0 < length (ip_data p) \<and>
                   length (ip_data p) \<le> max_packet_size r) (packet_queue r) \<and>
     (\<not> idle r \<longrightarrow> len_received r \<le> 0)"

definition prepend :: "byte list list \<Rightarrow> byte list list \<times> byte list \<times> bool \<Rightarrow> byte list list \<times> byte list \<times> bool"
where "prepend fs0 x = (let (fs, rest, e) = x in (fs0 @ fs, rest, e))"

lemma prepend_tuple [simp]: "prepend fs0 (fs, rest, e) = (fs0 @ fs, rest, e)"
  by (simp add: prepend_def)

lemma prepend_Nil [simp]: "prepend [] x = x"
  by (simp add: prepend_def split: prod.splits)

lemma prepend_prepend [simp]: "prepend xs (prepend ys z) = prepend (xs @ ys) z"
  by (simp add: prepend_def split: prod.splits)

lemma be_nat_to_be4: "n < 2 ^ 32 \<Longrightarrow> be_to_nat (nat_to_be 4 n) = n"
  by (simp add: be_to_nat_to_be)

lemma wf_PacketReader_new: "m < 2 ^ 32 \<Longrightarrow> wf_reader (PacketReader_new m)"
  by (simp add: wf_reader_def PacketReader_new_def idle_def)

text \<open>A reader whose last packet is incomplete.\<close>

lemma not_idle_last:
  assumes "wf_reader r" and "\<not> idle r"
  obtains q p where "packet_queue r = q @ [p]" and "list_all is_complete q"
    and "ip_read p < length (ip_data p)" and "length (ip_data p) \<le> max_packet_size r"
    and "pending r = nat_to_be 4 (length (ip_data p)) @ take (ip_read p) (ip_data p)"
proof -
  from assms(2) have ne: "packet_queue r \<noteq> []" by (simp add: idle_def)
  define q where "q = butlast (packet_queue r)"
  define p where "p = last (packet_queue r)"
  have qp: "packet_queue r = q @ [p]" using ne by (simp add: q_def p_def)
  with assms show thesis
    by (intro that [of q p]) (auto simp: wf_reader_def idle_def is_complete_def pending_def)
qed

lemma frames_pending:
  assumes "wf_reader r"
  shows "frames (max_packet_size r) (pending r) = ([], pending r, False)"
proof (cases "idle r")
  case True
  then have "length (pending r) < 4" using assms by (auto simp: pending_def wf_reader_def)
  then show ?thesis by (rule frames_short)
next
  case False
  with assms obtain q p where "packet_queue r = q @ [p]" "list_all is_complete q"
    and p: "ip_read p < length (ip_data p)" "length (ip_data p) \<le> max_packet_size r"
    and pend: "pending r = nat_to_be 4 (length (ip_data p)) @ take (ip_read p) (ip_data p)"
    by (rule not_idle_last)
  have "length (ip_data p) < 2 ^ 32" using p assms by (simp add: wf_reader_def)
  then have "be_to_nat (nat_to_be 4 (length (ip_data p))) = length (ip_data p)" by (rule be_nat_to_be4)
  then show ?thesis unfolding pend
    by (intro frames_partial) (use p in auto)
qed

section \<open>Each operation advances along the frames\<close>

text \<open>
  \<open>advances r buf t r'\<close>: consuming \<open>t\<close> bytes of \<open>buf\<close> took the reader from \<open>r\<close> to \<open>r'\<close>, in
  agreement with the frames of the stream.
\<close>

definition advances :: "reader \<Rightarrow> byte list \<Rightarrow> nat \<Rightarrow> reader \<Rightarrow> bool" where
  "advances r buf t r' \<longleftrightarrow>
     t \<le> length buf \<and> wf_reader r' \<and> max_packet_size r' = max_packet_size r \<and>
     (if pr_error r' then
        (\<exists>fs rest. completed r' = completed r @ fs \<and>
           frames (max_packet_size r) (pending r @ buf) = (fs, rest, True))
      else (idle r' \<or> drop t buf = []) \<and>
        (\<exists>fs. completed r' = completed r @ fs \<and>
           frames (max_packet_size r) (pending r @ buf) =
             prepend fs (frames (max_packet_size r) (pending r' @ drop t buf))))"

lemma readPacket_advances:
  assumes wf: "wf_reader r" and ok: "\<not> pr_error r" and busy: "\<not> idle r"
    and rd: "readPacket buf r = (t, r')"
  shows "advances r buf t r' \<and> \<not> pr_error r'"
proof (cases "buf = []")
  case True
  with rd wf ok show ?thesis
    by (auto simp: readPacket_def advances_def intro!: exI [of _ "[]"])
next
  case False
  from wf busy obtain q p where q: "packet_queue r = q @ [p]" "list_all is_complete q"
    and p: "ip_read p < length (ip_data p)" "length (ip_data p) \<le> max_packet_size r"
    and pend: "pending r = nat_to_be 4 (length (ip_data p)) @ take (ip_read p) (ip_data p)"
    by (rule not_idle_last)
  define n where "n = length (ip_data p)"
  define tr where "tr = (if n \<le> ip_read p + length buf then n - ip_read p else length buf)"
  define p' where "p' = p\<lparr>ip_data := splice_at (ip_read p) (take tr buf) (ip_data p),
    ip_read := ip_read p + tr\<rparr>"
  have tr: "tr \<le> length buf" "ip_read p + tr \<le> n" using p by (auto simp: tr_def n_def)
  have r': "t = tr" "r' = r\<lparr>packet_queue := q @ [p']\<rparr>"
    using rd False q by (auto simp: readPacket_def fill_packet_def Let_def p'_def tr_def n_def)
  have lenp': "length (ip_data p') = n" using tr by (simp add: p'_def n_def)
  have recv: "take (ip_read p') (ip_data p') = take (ip_read p) (ip_data p) @ take tr buf"
    using take_splice_at [of "ip_read p" "ip_data p" "take tr buf"] p tr by (simp add: p'_def n_def min_absorb2)
  have n32: "n < 2 ^ 32" using p wf by (simp add: wf_reader_def n_def)
  have wf': "wf_reader r'"
  proof -
    have "0 < length (ip_data p')" "ip_read p' \<le> length (ip_data p')"
      "length (ip_data p') \<le> max_packet_size r"
      using p tr lenp' by (auto simp: p'_def n_def)
    with wf busy q show ?thesis by (simp add: r' wf_reader_def)
  qed
  have comp: "completed r = map ip_data q"
    using q p by (simp add: completed_def is_complete_def list_all_iff filter_id_conv)
  show ?thesis
  proof (cases "n \<le> ip_read p + length buf")
    case True
    then have full: "ip_read p' = n" using p by (simp add: p'_def tr_def n_def)
    have "ip_data p' = take (ip_read p) (ip_data p) @ take tr buf"
      using recv full lenp' by simp
    moreover have "pending r @ buf =
        nat_to_be 4 n @ (take (ip_read p) (ip_data p) @ take tr buf) @ drop tr buf"
      by (simp add: pend n_def)
    ultimately have "pending r @ buf = nat_to_be 4 n @ ip_data p' @ drop tr buf" by simp
    moreover have "0 < n" using p by (auto simp: n_def)
    ultimately have "frames (max_packet_size r) (pending r @ buf) =
        prepend [ip_data p'] (frames (max_packet_size r) (drop tr buf))"
      using frames_complete [of "nat_to_be 4 n" "max_packet_size r" "ip_data p'" "drop tr buf"]
        p lenp' be_nat_to_be4 [OF n32] by (simp add: prepend_def n_def)
    moreover have "idle r'" using full lenp' by (simp add: r' idle_def is_complete_def)
    moreover have "pending r' = []" using calculation(2) wf busy by (simp add: pending_def r' wf_reader_def)
    moreover have "completed r' = completed r @ [ip_data p']"
      using comp q full lenp' by (simp add: completed_def r' is_complete_def list_all_iff filter_id_conv)
    ultimately show ?thesis using wf' ok tr r' by (auto simp: advances_def)
  next
    case False
    then have tl: "tr = length buf" and part: "ip_read p' < n" using p by (auto simp: tr_def p'_def)
    then have "\<not> idle r'" using lenp' by (simp add: r' idle_def is_complete_def)
    then have "pending r' = nat_to_be 4 n @ take (ip_read p') (ip_data p')"
      using lenp' by (simp add: pending_def r' Let_def)
    then have "pending r' = pending r @ buf" using recv tl by (simp add: pend n_def)
    moreover have "completed r' = completed r"
      using comp q part lenp' by (simp add: completed_def r' is_complete_def list_all_iff filter_id_conv)
    ultimately show ?thesis using wf' ok tl r'
      by (auto simp: advances_def intro!: exI [of _ "[]"])
  qed
qed

lemma newPacket_body_advances:
  assumes wf: "wf_reader r" and ok: "\<not> pr_error r" and id: "idle r" and len: "len_received r \<le> 0"
    and h: "length h = 4" "be_to_nat h = n" and k: "k \<le> length buf"
    and rd: "newPacket_body n k buf r = (t, r')"
    and r0: "pending r0 @ buf = h @ drop k buf" "completed r0 = completed r"
      "max_packet_size r0 = max_packet_size r"
  shows "advances r0 buf t r' \<and> k \<le> t"
proof -
  have pend: "pending r = []" using id len by (simp add: pending_def)
  consider "n = 0" | "0 < n" "max_packet_size r < n" | "0 < n" "n \<le> max_packet_size r" by linarith
  then show ?thesis
  proof cases
    case 1
    with rd have "t = k" "r' = r" by (simp_all add: newPacket_body_def)
    with 1 wf ok id k pend r0 h frames_keepalive [OF h(1), of "max_packet_size r"] show ?thesis
      by (auto simp: advances_def intro!: exI [of _ "[]"])
  next
    case 2
    with rd have "t = length buf" "r' = r\<lparr>pr_error := True\<rparr>" by (simp_all add: newPacket_body_def)
    with 2 wf k r0 h frames_too_long [OF h(1)] show ?thesis
      by (auto simp: advances_def completed_def wf_reader_def idle_def)
  next
    case 3
    define r1 where "r1 = r\<lparr>packet_queue := packet_queue r @ [IncomingPacket n]\<rparr>"
    obtain t1 where t1: "readPacket (drop k buf) r1 = (t1, r')" "t = k + t1"
      using rd 3 by (auto simp: newPacket_body_def r1_def split: prod.splits)
    have busy: "\<not> idle r1" using 3 by (simp add: r1_def idle_def is_complete_def IncomingPacket_def)
    have "list_all is_complete (packet_queue r)"
    proof (cases "packet_queue r = []")
      case False
      then have "packet_queue r = butlast (packet_queue r) @ [last (packet_queue r)]" by simp
      with wf id False show ?thesis
        unfolding wf_reader_def idle_def by (metis list_all_append list.pred_inject)
    qed simp
    then have wf1: "wf_reader r1"
      using wf 3 len by (simp add: wf_reader_def r1_def IncomingPacket_def)
    have "nat_to_be 4 n = h" using nat_to_be_to_nat [of h] h by simp
    then have "pending r1 = h" using busy by (simp add: pending_def r1_def IncomingPacket_def)
    moreover have "completed r1 = completed r"
      using 3 by (simp add: completed_def r1_def is_complete_def IncomingPacket_def)
    moreover have "advances r1 (drop k buf) t1 r' \<and> \<not> pr_error r'"
      by (rule readPacket_advances [OF wf1 _ busy t1(1)]) (simp add: ok r1_def)
    moreover have "max_packet_size r1 = max_packet_size r" by (simp add: r1_def)
    ultimately show ?thesis using t1(2) k r0
      by (auto simp: advances_def add.commute)
  qed
qed

lemma newPacket_advances:
  assumes wf: "wf_reader r" and ok: "\<not> pr_error r" and id: "idle r" and ne: "buf \<noteq> []"
    and rd: "newPacket buf r = (t, r')"
  shows "advances r buf t r' \<and> 0 < t"
proof (cases "0 < len_received r")
  case True
  define l where "l = nat (len_received r)"
  have l: "0 < l" "l \<le> 3" "len_received r = int l" using True wf by (auto simp: l_def wf_reader_def)
  have cond: "int (length buf) < 4 - len_received r \<longleftrightarrow> length buf < 4 - l" using l by auto
  have len4: "length (pr_len r) = 4" using wf by (simp add: wf_reader_def)
  have pend: "pending r = take l (pr_len r)" using id True by (simp add: pending_def l_def)
  show ?thesis
  proof (cases "length buf < 4 - l")
    case short: True
    then have r': "t = length buf" "r' = r\<lparr>pr_len := splice_at l buf (pr_len r),
        len_received := int (l + length buf)\<rparr>"
      using rd True cond short l by (auto simp: newPacket_def)
    have wf': "wf_reader r'" using wf short l id len4 by (auto simp: r' wf_reader_def idle_def)
    have "pending r' = take (l + length buf) (splice_at l buf (pr_len r))"
      using id l by (simp add: r' pending_def idle_def nat_int_add)
    then have "pending r' = pending r @ buf" using take_splice_at [of l "pr_len r" buf] l len4 pend by simp
    then show ?thesis using wf' ne ok id
      by (auto simp: advances_def r' completed_def idle_def intro!: exI [of _ "[]"])
  next
    case long: False
    define k where "k = 4 - l"
    define h where "h = splice_at l (take k buf) (pr_len r)"
    have k: "0 < k" "k \<le> length buf" "nat (4 - int l) = k" using l long by (auto simp: k_def)
    have h: "h = take l (pr_len r) @ take k buf" "length h = 4"
      using k l len4 by (simp_all add: h_def splice_at_def k_def)
    have rd': "newPacket_body (unat (ReadUint32 h 0)) k buf (r\<lparr>pr_len := h, len_received := 0\<rparr>) = (t, r')"
      using rd True long cond k l by (simp add: newPacket_def h_def Let_def)
    have "advances r buf t r' \<and> k \<le> t"
    proof (rule newPacket_body_advances [OF _ _ _ _ h(2) _ k(2) rd'])
      show "wf_reader (r\<lparr>pr_len := h, len_received := 0\<rparr>)"
        using wf h by (simp add: wf_reader_def idle_def)
      show "be_to_nat h = unat (ReadUint32 h 0)" using h(2) by (simp add: unat_ReadUint32 sliced_def)
      show "pending r @ buf = h @ drop k buf" using pend h(1) by simp
    qed (use ok id in \<open>simp_all add: idle_def completed_def\<close>)
    with k show ?thesis by auto
  qed
next
  case False
  then have pend: "pending r = []" using id by (simp add: pending_def)
  show ?thesis
  proof (cases "length buf < 4")
    case True
    then have r': "t = length buf"
      "r' = r\<lparr>pr_len := splice_at 0 buf (pr_len r), len_received := int (length buf)\<rparr>"
      using rd False by (auto simp: newPacket_def)
    have wf': "wf_reader r'" using wf True id by (auto simp: r' wf_reader_def idle_def)
    have "pending r' = buf"
      using id ne wf take_splice_at [of 0 "pr_len r" buf] by (simp add: r' pending_def idle_def)
    then show ?thesis using wf' ne ok id pend
      by (auto simp: advances_def r' completed_def idle_def intro!: exI [of _ "[]"])
  next
    case long: False
    have rd': "newPacket_body (unat (ReadUint32 buf 0)) 4 buf r = (t, r')"
      using rd False long by (simp add: newPacket_def)
    have "advances r buf t r' \<and> 4 \<le> t"
    proof (rule newPacket_body_advances [OF wf ok id _ _ _ _ rd'])
      show "be_to_nat (take 4 buf) = unat (ReadUint32 buf 0)"
        using long by (simp add: unat_ReadUint32 sliced_def)
    qed (use False long pend in auto)
    then show ?thesis by auto
  qed
qed

lemma advances_trans:
  assumes "advances r buf t r'" and "\<not> pr_error r'" and "advances r' (drop t buf) t' r''"
  shows "advances r buf (t + t') r''"
  using assms by (auto simp: advances_def add.commute split: if_splits)

lemma read_loop_advances:
  assumes "wf_reader r" and "pr_error r \<or> idle r \<or> buf = []" and "length buf \<le> fuel"
  shows "\<exists>r'. read_loop fuel buf r = Some r' \<and>
    (if pr_error r then r' = r else \<exists>t. advances r buf t r' \<and> (pr_error r' \<or> t = length buf))"
  using assms
proof (induction fuel arbitrary: buf r)
  case 0
  then show ?case by (auto simp: advances_def intro!: exI [of _ "[]"])
next
  case (Suc fuel)
  show ?case
  proof (cases "buf \<noteq> [] \<and> \<not> pr_error r")
    case True
    obtain t r1 where np: "newPacket buf r = (t, r1)" by (cases "newPacket buf r") auto
    with True Suc.prems have adv: "advances r buf t r1" and t: "0 < t"
      using newPacket_advances [of r buf t r1] by auto
    then have "wf_reader r1" "pr_error r1 \<or> idle r1 \<or> drop t buf = []" "t \<le> length buf"
      by (auto simp: advances_def)
    moreover have "length (drop t buf) \<le> fuel" using t Suc.prems True by (cases buf) auto
    ultimately obtain r2 where r2: "read_loop fuel (drop t buf) r1 = Some r2"
        "if pr_error r1 then r2 = r1
         else \<exists>t'. advances r1 (drop t buf) t' r2 \<and> (pr_error r2 \<or> t' = length (drop t buf))"
      using Suc.IH [of r1 "drop t buf"] by blast
    have "\<exists>t. advances r buf t r2 \<and> (pr_error r2 \<or> t = length buf)"
    proof (cases "pr_error r1")
      case True
      with r2 adv show ?thesis by auto
    next
      case False
      with r2 obtain t' where "advances r1 (drop t buf) t' r2" "pr_error r2 \<or> t' = length (drop t buf)"
        by auto
      with advances_trans [OF adv False] \<open>t \<le> length buf\<close> show ?thesis by (metis length_drop le_add_diff_inverse)
    qed
    with True np r2 show ?thesis by simp
  next
    case False
    with Suc.prems show ?thesis by (auto simp: advances_def intro!: exI [of _ "[]"])
  qed
qed

lemma onDataReady_advances:
  assumes wf: "wf_reader r" and ok: "\<not> pr_error r"
  shows "\<exists>r' t. onDataReady buf r = Some r' \<and> advances r buf t r' \<and> (pr_error r' \<or> t = length buf)"
proof -
  have busy_iff: "packet_queue r \<noteq> [] \<and>
      ip_read (last (packet_queue r)) < length (ip_data (last (packet_queue r))) \<longleftrightarrow> \<not> idle r"
    using wf by (auto simp: idle_def is_complete_def wf_reader_def list_all_iff)
      (metis last_in_set le_neq_implies_less)
  define k r1 where "k = fst (if \<not> idle r then readPacket buf r else (0, r))"
    and "r1 = snd (if \<not> idle r then readPacket buf r else (0, r))"
  have adv: "advances r buf k r1 \<and> \<not> pr_error r1"
  proof (cases "idle r")
    case True
    with wf ok show ?thesis by (auto simp: k_def r1_def advances_def intro!: exI [of _ "[]"])
  next
    case False
    with readPacket_advances [OF wf ok False, of buf k r1] show ?thesis
      by (simp add: k_def r1_def)
  qed
  then have "wf_reader r1" "pr_error r1 \<or> idle r1 \<or> drop k buf = []" "k \<le> length buf"
    by (auto simp: advances_def)
  then obtain r2 t where "read_loop (length buf) (drop k buf) r1 = Some r2"
      "advances r1 (drop k buf) t r2" "pr_error r2 \<or> t = length (drop k buf)"
    using read_loop_advances [of r1 "drop k buf" "length buf"] adv by auto
  moreover have "advances r buf (k + t) r2" using advances_trans adv calculation(2) by blast
  moreover have "onDataReady buf r = read_loop (length buf) (drop k buf) r1"
    using ok busy_iff by (simp add: onDataReady_def k_def r1_def split_beta)
  ultimately show ?thesis using \<open>k \<le> length buf\<close> by (metis le_add_diff_inverse length_drop)
qed

lemma onDataReady_frames:
  assumes wf: "wf_reader r" and ok: "\<not> pr_error r"
    and fr: "frames (max_packet_size r) (pending r @ buf) = (fs, rest, e)"
  shows "\<exists>r'. onDataReady buf r = Some r' \<and> wf_reader r' \<and> max_packet_size r' = max_packet_size r \<and>
    completed r' = completed r @ fs \<and> pr_error r' = e \<and> (\<not> e \<longrightarrow> pending r' = rest)"
proof -
  obtain r' t where r': "onDataReady buf r = Some r'" "advances r buf t r'"
      "pr_error r' \<or> t = length buf"
    using onDataReady_advances [OF wf ok] by blast
  then have "wf_reader r'" by (simp add: advances_def)
  with r' fr frames_pending [of r'] show ?thesis
    by (auto simp: advances_def split: if_splits)
qed

text \<open>Taking packets out leaves the reception state alone.\<close>

lemma update_loop_complete:
  assumes "list_all is_complete q" and "packet_queue r = q @ part" and "length part \<le> 1"
    and "list_all (\<lambda>p. \<not> is_complete p) part" and "length q < n"
  shows "update_loop n r = (map ip_data q, r\<lparr>packet_queue := part\<rparr>)"
  using assms
proof (induction n arbitrary: q r)
  case (Suc n)
  show ?case
  proof (cases q)
    case Nil
    with Suc.prems show ?thesis
      by (cases part) (auto simp: dequeuePacket_def is_complete_def)
  next
    case (Cons p q')
    with Suc.prems have "dequeuePacket r = (Some p, r\<lparr>packet_queue := q' @ part\<rparr>)"
      by (simp add: dequeuePacket_def is_complete_def)
    with Cons Suc.prems Suc.IH [of q' "r\<lparr>packet_queue := q' @ part\<rparr>"] show ?thesis by simp
  qed
qed simp

lemma reader_update_delivers:
  assumes wf: "wf_reader r" and ok: "\<not> pr_error r"
  shows "\<exists>r'. reader_update r = (completed r, r') \<and> wf_reader r' \<and> pending r' = pending r \<and>
    completed r' = [] \<and> \<not> pr_error r' \<and> max_packet_size r' = max_packet_size r"
proof (cases "idle r")
  case True
  have all: "list_all is_complete (packet_queue r)"
  proof (cases "packet_queue r = []")
    case False
    then have "packet_queue r = butlast (packet_queue r) @ [last (packet_queue r)]" by simp
    with wf True False show ?thesis
      unfolding wf_reader_def idle_def by (metis list_all_append list.pred_inject)
  qed simp
  then have "reader_update r = (map ip_data (packet_queue r), r\<lparr>packet_queue := []\<rparr>)"
    using ok update_loop_complete [of "packet_queue r" r "[]" "Suc (length (packet_queue r))"]
    by (simp add: reader_update_def)
  moreover have "filter is_complete (packet_queue r) = packet_queue r"
    using all by (simp add: filter_id_conv list_all_iff)
  ultimately show ?thesis using wf ok True
    by (auto simp: completed_def pending_def idle_def wf_reader_def)
next
  case False
  with wf obtain q p where q: "packet_queue r = q @ [p]" "list_all is_complete q"
    and p: "ip_read p < length (ip_data p)" "length (ip_data p) \<le> max_packet_size r"
    and pend: "pending r = nat_to_be 4 (length (ip_data p)) @ take (ip_read p) (ip_data p)"
    by (rule not_idle_last)
  then have "reader_update r = (map ip_data q, r\<lparr>packet_queue := [p]\<rparr>)"
    using ok update_loop_complete [of q r "[p]" "Suc (length (packet_queue r))"]
    by (simp add: reader_update_def is_complete_def)
  moreover have "completed r = map ip_data q"
    using q p by (simp add: completed_def is_complete_def list_all_iff filter_id_conv)
  ultimately show ?thesis using wf ok q p pend False
    by (auto simp: completed_def pending_def idle_def wf_reader_def is_complete_def)
qed

section \<open>Runs of a reader\<close>

text \<open>
  An interleaving of the two threads (each operation runs under the mutex): data arriving and
  the main thread polling. A run collects the packets handed to the peer.
\<close>

datatype reader_event = Data "byte list" | Poll

fun reader_run :: "reader_event list \<Rightarrow> reader \<Rightarrow> (byte list list \<times> reader) option" where
  "reader_run [] r = Some ([], r)"
| "reader_run (Data buf # es) r = (case onDataReady buf r of None \<Rightarrow> None | Some r' \<Rightarrow> reader_run es r')"
| "reader_run (Poll # es) r = (let (ps, r') = reader_update r in
     map_option (\<lambda>(qs, r''). (ps @ qs, r'')) (reader_run es r'))"

fun received_bytes :: "reader_event list \<Rightarrow> byte list" where
  "received_bytes [] = []"
| "received_bytes (Data buf # es) = buf @ received_bytes es"
| "received_bytes (Poll # es) = received_bytes es"

lemma frames_prefix:
  assumes "frames m (s @ t) = (fs, rest, False)"
  obtains fs1 rest1 fs2 where "frames m s = (fs1, rest1, False)"
    and "frames m (rest1 @ t) = (fs2, rest, False)" and "fs = fs1 @ fs2"
proof -
  obtain fs1 rest1 e where f1: "frames m s = (fs1, rest1, e)" by (cases "frames m s") auto
  have "\<not> e"
  proof
    assume e
    then have "\<exists>gs rest'. frames m (s @ t) = (gs, rest', True)" using f1
    proof (induction m s arbitrary: fs1 rest1 rule: frames.induct)
      case (1 m s)
      show ?case
      proof (cases "length s < 4")
        case True
        with "1.prems" show ?thesis by (simp add: frames_short)
      next
        case False
        then show ?thesis using "1.prems" "1.IH" [OF False]
          by (subst frames.simps) (subst (asm) frames.simps [of m s],
              fastforce simp: Let_def split: if_splits prod.splits)
      qed
    qed
    with assms show False by simp
  qed
  moreover obtain fs2 rest2 e2 where "frames m (rest1 @ t) = (fs2, rest2, e2)"
    by (cases "frames m (rest1 @ t)") auto
  ultimately show thesis
    using f1 assms frames_append [of m s fs1 rest1 t] that by simp
qed

lemma reader_run_frames:
  assumes "wf_reader r" and "\<not> pr_error r"
    and "frames (max_packet_size r) (pending r @ received_bytes es) = (fs, rest, False)"
  shows "\<exists>ps r'. reader_run es r = Some (ps, r') \<and> ps @ completed r' = completed r @ fs \<and>
    pending r' = rest \<and> \<not> pr_error r' \<and> wf_reader r'"
  using assms
proof (induction es arbitrary: r fs)
  case Nil
  then show ?case using frames_pending by auto
next
  case (Cons ev es)
  show ?case
  proof (cases ev)
    case (Data buf)
    let ?m = "max_packet_size r"
    from Cons.prems(3) Data obtain fs1 rest1 fs2 where
        f1: "frames ?m (pending r @ buf) = (fs1, rest1, False)"
      and f2: "frames ?m (rest1 @ received_bytes es) = (fs2, rest, False)" and fs: "fs = fs1 @ fs2"
      using frames_prefix [of ?m "pending r @ buf" "received_bytes es" fs rest] by auto
    obtain r' where r': "onDataReady buf r = Some r'" "wf_reader r'" "max_packet_size r' = ?m"
        "completed r' = completed r @ fs1" "\<not> pr_error r'" "pending r' = rest1"
      using onDataReady_frames [OF Cons.prems(1,2) f1] by auto
    with Cons.IH [of r' fs2] f2 fs Data show ?thesis by simp
  next
    case Poll
    obtain r' where r': "reader_update r = (completed r, r')" "wf_reader r'" "pending r' = pending r"
        "completed r' = []" "\<not> pr_error r'" "max_packet_size r' = max_packet_size r"
      using reader_update_delivers [OF Cons.prems(1,2)] by blast
    with Cons.IH [of r' fs] Cons.prems Poll obtain ps r'' where
      "reader_run es r' = Some (ps, r'')" "ps @ completed r'' = fs" "pending r'' = rest" "\<not> pr_error r''"
      "wf_reader r''" by auto
    with r' Poll show ?thesis by simp
  qed
qed

lemma reader_run_poll:
  assumes "m < 2 ^ 32" and "frames m (received_bytes es) = (fs, rest, False)"
  shows "\<exists>r'. reader_run (es @ [Poll]) (PacketReader_new m) = Some (fs, r')"
proof -
  let ?r = "PacketReader_new m"
  have run: "reader_run (es @ [Poll]) r = (case reader_run es r of None \<Rightarrow> None
      | Some (ps, r') \<Rightarrow> (let (qs, r'') = reader_update r' in Some (ps @ qs, r'')))" for r
    by (induction es r rule: reader_run.induct) (auto split: option.splits prod.splits)
  have "pending ?r = []" "completed ?r = []" "max_packet_size ?r = m" "\<not> pr_error ?r"
    by (simp_all add: PacketReader_new_def pending_def idle_def completed_def)
  then obtain ps r' where "reader_run es ?r = Some (ps, r')" "ps @ completed r' = fs" "\<not> pr_error r'"
      "wf_reader r'"
    using reader_run_frames [of ?r es fs rest] wf_PacketReader_new [OF assms(1)] assms(2) by auto
  moreover obtain r'' where "reader_update r' = (completed r', r'')"
    using reader_update_delivers calculation by blast
  ultimately show ?thesis by (simp add: run)
qed

section \<open>From packets to packets\<close>

text \<open>The messages a peer can create, and the packet \<^verbatim>\<open>Packet::create\<close> makes of each.\<close>

datatype message =
    Simple byte
  | Port_msg u16
  | Chunk_msg u32 byte
  | Bitfield_msg bitset
  | Request_msg request byte
  | Piece_msg u32 u32 "byte list"
  | Extended_msg byte "byte list"

fun message_packet :: "message \<Rightarrow> packet" where
  "message_packet (Simple t) = create_type t"
| "message_packet (Port_msg p) = create_port p"
| "message_packet (Chunk_msg c t) = create_chunk c t"
| "message_packet (Bitfield_msg bs) = create_bitfield bs"
| "message_packet (Request_msg r t) = create_request r t"
| "message_packet (Piece_msg i b p) = create_piece i b p"
| "message_packet (Extended_msg i d) = create_extended i d"

definition fits :: "nat \<Rightarrow> message \<Rightarrow> bool" where
  "fits m msg \<longleftrightarrow> length (pk_data (message_packet msg)) - 4 \<le> m \<and>
     (case msg of Bitfield_msg bs \<Rightarrow> length (bs_data bs) < 2 ^ 31
      | Piece_msg _ _ p \<Rightarrow> length p < 2 ^ 31 | Extended_msg _ d \<Rightarrow> length d < 2 ^ 31 | _ \<Rightarrow> True)"

lemma message_wire:
  "fits m msg \<Longrightarrow> \<exists>t p. pk_data (message_packet msg) = wire t p \<and> Suc (length p) \<le> m"
proof -
  assume f: "fits m msg"
  then obtain t p where w: "pk_data (message_packet msg) = wire t p"
    by (cases msg) (simp_all add: fits_def create_wire)
  moreover have "Suc (length p) \<le> m" using f w by (simp add: fits_def)
  ultimately show ?thesis by blast
qed

lemma frames_wire:
  assumes "Suc (length p) \<le> m" and "m < 2 ^ 32"
  shows "frames m (wire t p @ s) = prepend [t # p] (frames m s)"
  using assms frames_complete [of "nat_to_be 4 (Suc (length p))" m "t # p" s]
    be_nat_to_be4 [of "Suc (length p)"]
  by (simp add: wire_def prepend_def)

lemma frames_messages:
  assumes "list_all (fits m) msgs" and "m < 2 ^ 32"
  shows "frames m (concat (map (\<lambda>msg. pk_data (message_packet msg)) msgs)) =
    (map (\<lambda>msg. drop 4 (pk_data (message_packet msg))) msgs, [], False)"
  using assms(1)
proof (induction msgs)
  case Nil
  then show ?case by (simp add: frames_short)
next
  case (Cons msg msgs)
  then obtain t p where w: "pk_data (message_packet msg) = wire t p" "Suc (length p) \<le> m"
    using message_wire by (metis list.pred_inject(2))
  have "drop 4 (wire t p) = t # p" by (simp add: wire_def)
  with Cons w frames_wire [OF w(2) assms(2)] show ?case by simp
qed

section \<open>Properties\<close>

text \<open>One call of \<^verbatim>\<open>onDataReady\<close> on a working reader returns, appends exactly the frames
  that the held bytes and the new bytes complete, keeps the incomplete rest, and fails
  exactly when a frame announces more than the maximum packet size.\<close>

theorem onDataReady_refines_frames:
  assumes "wf_reader r" and "\<not> pr_error r"
    and "frames (max_packet_size r) (pending r @ buf) = (fs, rest, e)"
  shows "\<exists>r'. onDataReady buf r = Some r' \<and> wf_reader r' \<and>
    completed r' = completed r @ fs \<and> pr_error r' = e \<and> (\<not> e \<longrightarrow> pending r' = rest)"
  using onDataReady_frames [OF assms] by blast

theorem onDataReady_refines_frames_witness:
  "\<exists>r'. onDataReady [0, 0, 0, 9, 1] (PacketReader_new 8) = Some r' \<and> pr_error r' = True"
proof -
  have "frames 8 [0, 0, 0, 9, 1] = ([], [0, 0, 0, 9, 1], True)" by code_simp
  then show ?thesis
    using onDataReady_refines_frames [of "PacketReader_new 8" "[0, 0, 0, 9, 1]" "[]" "[0, 0, 0, 9, 1]" True]
      wf_PacketReader_new [of 8]
    by (auto simp: PacketReader_new_def pending_def idle_def)
qed

text \<open>However the network cuts a byte stream into pieces and whenever the main thread
  polls in between, the packets handed to the peer are the frames of the stream, each once,
  in order and complete.\<close>

theorem reader_delivers_frames:
  assumes "m < 2 ^ 32" and "frames m (received_bytes es) = (fs, rest, False)"
  shows "\<exists>r'. reader_run (es @ [Poll]) (PacketReader_new m) = Some (fs, r')"
  by (rule reader_run_poll [OF assms])

theorem reader_delivers_frames_witness:
  "\<exists>r'. reader_run [Data [0, 0], Data [0, 2, 5], Poll, Data [6, 0, 0, 0], Data [0, 0, 0, 0, 1, 9], Poll]
     (PacketReader_new 100) = Some ([[5, 6], [9]], r')"
proof -
  let ?es = "[Data [0, 0], Data [0, 2, 5], Poll, Data [6, 0, 0, 0], Data [0, 0, 0, 0, 1, 9]]"
  have "frames 100 (received_bytes ?es) = ([[5, 6], [9]], [], False)" by code_simp
  from reader_delivers_frames [OF _ this] show ?thesis by simp
qed

text \<open>C14. From peer to peer: a sequence of messages written with \<^verbatim>\<open>Packet::create\<close> and sent back
  to back is handed to the other side as the same sequence of type bytes and payloads,
  however the transport cuts the bytes up and whenever the other side polls.\<close>

theorem messages_delivered:
  assumes "m < 2 ^ 32" and "list_all (fits m) msgs"
    and "received_bytes es = concat (map (\<lambda>msg. pk_data (message_packet msg)) msgs)"
  shows "\<exists>r'. reader_run (es @ [Poll]) (PacketReader_new m) =
    Some (map (\<lambda>msg. drop 4 (pk_data (message_packet msg))) msgs, r')"
  using reader_run_poll [OF assms(1)] frames_messages [OF assms(2,1)] assms(3) by metis

theorem messages_delivered_witness:
  "\<exists>r'. reader_run [Data (take 7 (pk_data (create_chunk 3 HAVE))),
      Data (drop 7 (pk_data (create_chunk 3 HAVE)) @ pk_data (create_type UNCHOKE)), Poll]
      (PacketReader_new 100) =
    Some ([drop 4 (pk_data (create_chunk 3 HAVE)), drop 4 (pk_data (create_type UNCHOKE))], r')"
proof -
  let ?es = "[Data (take 7 (pk_data (create_chunk 3 HAVE))),
      Data (drop 7 (pk_data (create_chunk 3 HAVE)) @ pk_data (create_type UNCHOKE))]"
  have "received_bytes ?es =
      concat (map (\<lambda>msg. pk_data (message_packet msg)) [Chunk_msg 3 HAVE, Simple UNCHOKE])"
    by simp
  moreover have "list_all (fits 100) [Chunk_msg 3 HAVE, Simple UNCHOKE]"
    by (simp add: fits_def create_wire)
  ultimately show ?thesis
    using messages_delivered [of 100 "[Chunk_msg 3 HAVE, Simple UNCHOKE]" ?es] by simp
qed

end
