(* ===== verification/SuperSeeder.thy ===== *)
theory SuperSeeder
  imports BitSet
begin

text \<open>
  Chunk rarity and super seeding: \<^verbatim>\<open>src/src/peer/chunkcounter.cpp\<close> counts how many peers have
  each chunk; \<^verbatim>\<open>src/src/peer/superseeder.cpp\<close> decides which chunk to offer to which peer
  (BEP 16), keeping for every served peer the one chunk it was offered.
\<close>

section \<open>The chunk counter\<close>

type_synonym chunk_counter = "nat list"

definition cc_new :: "nat \<Rightarrow> chunk_counter" where
  "cc_new num_chunks = replicate num_chunks 0"

definition cc_reset :: "chunk_counter \<Rightarrow> chunk_counter" where
  "cc_reset cnt = map (\<lambda>_. 0) cnt"

definition cc_inc :: "nat \<Rightarrow> chunk_counter \<Rightarrow> chunk_counter" where
  "cc_inc idx cnt = (if idx < length cnt then cnt[idx := cnt ! idx + 1] else cnt)"

definition cc_dec :: "nat \<Rightarrow> chunk_counter \<Rightarrow> chunk_counter" where
  "cc_dec idx cnt = (if idx < length cnt \<and> 0 < cnt ! idx then cnt[idx := cnt ! idx - 1] else cnt)"

definition cc_get :: "chunk_counter \<Rightarrow> nat \<Rightarrow> nat" where
  "cc_get cnt idx = (if idx < length cnt then cnt ! idx else 0)"

definition incBitSet :: "bitset \<Rightarrow> chunk_counter \<Rightarrow> chunk_counter" where
  "incBitSet bs cnt = fold (\<lambda>i c. if bs_get bs i then c[i := c ! i + 1] else c) [0..<length cnt] cnt"

definition decBitSet :: "bitset \<Rightarrow> chunk_counter \<Rightarrow> chunk_counter" where
  "decBitSet bs cnt = fold (\<lambda>i c. if bs_get bs i then cc_dec i c else c) [0..<length cnt] cnt"

lemma fold_update_pointwise:
  assumes "distinct is" and "set is \<subseteq> {..<length c}"
    and "\<And>i c. length (f i c) = length c"
    and "\<And>i c j. j \<noteq> i \<Longrightarrow> f i c ! j = c ! j"
    and "\<And>i c. i < length c \<Longrightarrow> f i c ! i = g i (c ! i)"
  shows "length (fold f is c) = length c \<and>
    (\<forall>j < length c. fold f is c ! j = (if j \<in> set is then g j (c ! j) else c ! j))"
  using assms(1,2)
proof (induction "is" arbitrary: c)
  case (Cons i "is")
  have "length (f i c) = length c" by (rule assms(3))
  then have "length (fold f is (f i c)) = length c \<and>
    (\<forall>j < length c. fold f is (f i c) ! j = (if j \<in> set is then g j (f i c ! j) else f i c ! j))"
    using Cons.IH [of "f i c"] Cons.prems by simp
  moreover have "f i c ! j = (if j = i then g i (c ! i) else c ! j)" for j
    using assms(4) [of j i c] assms(5) [of i c] Cons.prems by simp
  ultimately show ?case using Cons.prems by auto
qed simp

lemma incBitSet_pointwise:
  "length (incBitSet bs cnt) = length cnt \<and>
   (\<forall>i < length cnt. incBitSet bs cnt ! i =
      (if i \<in> set [0..<length cnt] then cnt ! i + (if bs_get bs i then 1 else 0) else cnt ! i))"
  unfolding incBitSet_def by (rule fold_update_pointwise) auto

lemma decBitSet_pointwise:
  "length (decBitSet bs cnt) = length cnt \<and>
   (\<forall>i < length cnt. decBitSet bs cnt ! i =
      (if i \<in> set [0..<length cnt] then cnt ! i - (if bs_get bs i then 1 else 0) else cnt ! i))"
  unfolding decBitSet_def by (rule fold_update_pointwise) (auto simp: cc_dec_def)

lemma incBitSet_get:
  "length (incBitSet bs cnt) = length cnt"
  "i < length cnt \<Longrightarrow> incBitSet bs cnt ! i = cnt ! i + (if bs_get bs i then 1 else 0)"
  using incBitSet_pointwise [of bs cnt] by simp_all

lemma decBitSet_get:
  "length (decBitSet bs cnt) = length cnt"
  "i < length cnt \<Longrightarrow> decBitSet bs cnt ! i = cnt ! i - (if bs_get bs i then 1 else 0)"
  using decBitSet_pointwise [of bs cnt] by simp_all

text \<open>The counter counts: \<open>counts cnt ps\<close> says that entry \<open>i\<close> is the number of the given sets with chunk \<open>i\<close>.\<close>

definition counts :: "chunk_counter \<Rightarrow> bitset list \<Rightarrow> bool" where
  "counts cnt ps \<longleftrightarrow> (\<forall>i < length cnt. cnt ! i = length (filter (\<lambda>bs. bs_get bs i) ps))"

lemma counts_inc: "counts cnt ps \<Longrightarrow> counts (incBitSet bs cnt) (bs # ps)"
  by (simp add: counts_def incBitSet_get)

lemma length_filter_remove1:
  "x \<in> set xs \<Longrightarrow> length (filter P (remove1 x xs)) = length (filter P xs) - (if P x then 1 else 0)"
proof (induction xs)
  case (Cons y ys)
  then have "P x \<Longrightarrow> x \<in> set ys \<Longrightarrow> 0 < length (filter P ys)" by (auto simp: filter_empty_conv)
  with Cons show ?case by auto
qed simp

lemma counts_dec: "counts cnt ps \<Longrightarrow> bs \<in> set ps \<Longrightarrow> counts (decBitSet bs cnt) (remove1 bs ps)"
  by (simp add: counts_def decBitSet_get length_filter_remove1)

section \<open>The super seeder\<close>

type_synonym peer_ptr = nat

text \<open>
  \<open>active_chunks\<close> is the \<^verbatim>\<open>QMultiMap\<close> from chunk to peer as the list of its entries,
  \<open>active_peers\<close> the \<^verbatim>\<open>QMap\<close> from peer to chunk. \<open>ss_sent\<close> logs the calls of
  \<^verbatim>\<open>PeerInterface::chunkAllowed\<close>, and \<open>rng_pos\<close> counts the numbers taken from
  \<^verbatim>\<open>QRandomGenerator\<close>, which is a parameter: \<open>rnd k\<close> reduced to the requested range is its
  \<open>k\<close>-th answer.
\<close>

record superseeder =
  ss_cnt :: chunk_counter
  num_seeders :: nat
  active_chunks :: "(nat \<times> peer_ptr) list"
  active_peers :: "peer_ptr \<rightharpoonup> nat"
  rng_pos :: nat
  ss_sent :: "(peer_ptr \<times> nat) list"

definition SuperSeeder_new :: "nat \<Rightarrow> superseeder" where
  "SuperSeeder_new num_chunks = \<lparr>ss_cnt = cc_new num_chunks, num_seeders = 0, active_chunks = [],
     active_peers = Map.empty, rng_pos = 0, ss_sent = []\<rparr>"

text \<open>The search loop of \<^verbatim>\<open>sendChunk\<close>; the result is the chosen chunk, or \<open>alternative\<close>.\<close>

fun search_chunk :: "nat \<Rightarrow> superseeder \<Rightarrow> bitset \<Rightarrow> nat \<Rightarrow> nat \<Rightarrow> nat \<Rightarrow> nat option" where
  "search_chunk 0 ss bs start chunk alternative = None"
| "search_chunk (Suc fuel) ss bs start chunk alternative =
     (if chunk = start then Some alternative
      else let c = (chunk + 1) mod length (ss_cnt ss) in
        if bs_get bs c then search_chunk fuel ss bs start c alternative
        else if cc_get (ss_cnt ss) c = num_seeders ss \<and> c \<notin> fst ` set (active_chunks ss)
        then Some c
        else search_chunk fuel ss bs start c
               (if cc_get (ss_cnt ss) c < 2 ^ 32 - 1 then c else alternative))"

definition allow_chunk :: "peer_ptr \<Rightarrow> nat \<Rightarrow> superseeder \<Rightarrow> superseeder" where
  "allow_chunk peer chunk ss = ss\<lparr>active_chunks := (chunk, peer) # active_chunks ss,
     active_peers := (active_peers ss)(peer \<mapsto> chunk), ss_sent := ss_sent ss @ [(peer, chunk)]\<rparr>"

definition sendChunk :: "(nat \<Rightarrow> nat) \<Rightarrow> (peer_ptr \<Rightarrow> bitset) \<Rightarrow> peer_ptr \<Rightarrow> superseeder \<Rightarrow> superseeder" where
  "sendChunk rnd pieces peer ss =
     (if active_peers ss peer \<noteq> None then ss
      else if bs_allOn (pieces peer) then ss
      else let n = length (ss_cnt ss); start = rnd (rng_pos ss) mod n;
               ss' = ss\<lparr>rng_pos := Suc (rng_pos ss)\<rparr>
           in case search_chunk n ss' (pieces peer) start ((start + 1) mod n) n of
                None \<Rightarrow> ss'
              | Some c \<Rightarrow> if c < n then allow_chunk peer c ss' else ss')"

definition forget_peer :: "peer_ptr \<Rightarrow> superseeder \<Rightarrow> superseeder" where
  "forget_peer peer ss = (case active_peers ss peer of
      None \<Rightarrow> ss
    | Some chunk \<Rightarrow> ss\<lparr>active_chunks := removeAll (chunk, peer) (active_chunks ss),
                       active_peers := (active_peers ss)(peer := None)\<rparr>)"

text \<open>The loop of \<^verbatim>\<open>have\<close> over the entries of the chunk: the other peers that were offered it, and their removal.\<close>

definition evicted :: "nat \<Rightarrow> peer_ptr \<Rightarrow> superseeder \<Rightarrow> peer_ptr list" where
  "evicted chunk peer ss = map snd (filter (\<lambda>(c, p). c = chunk \<and> p \<noteq> peer) (active_chunks ss))"

definition evict :: "nat \<Rightarrow> peer_ptr \<Rightarrow> superseeder \<Rightarrow> superseeder" where
  "evict chunk peer ss =
     ss\<lparr>active_chunks := filter (\<lambda>(c, p). \<not> (c = chunk \<and> p \<noteq> peer)) (active_chunks ss),
        active_peers := (\<lambda>p. if p \<in> set (evicted chunk peer ss) then None else active_peers ss p)\<rparr>"

definition ss_have :: "(nat \<Rightarrow> nat) \<Rightarrow> (peer_ptr \<Rightarrow> bitset) \<Rightarrow> peer_ptr \<Rightarrow> nat \<Rightarrow> superseeder \<Rightarrow> superseeder" where
  "ss_have rnd pieces peer chunk ss =
     (let ss1 = ss\<lparr>ss_cnt := cc_inc chunk (ss_cnt ss),
                   num_seeders := (if bs_allOn (pieces peer) then num_seeders ss + 1 else num_seeders ss)\<rparr>
      in fold (sendChunk rnd pieces) (evicted chunk peer ss1) (evict chunk peer ss1))"

definition haveAll :: "peer_ptr \<Rightarrow> superseeder \<Rightarrow> superseeder" where
  "haveAll peer ss = (let ss' = forget_peer peer ss in ss'\<lparr>num_seeders := num_seeders ss' + 1\<rparr>)"

definition ss_bitset :: "(nat \<Rightarrow> nat) \<Rightarrow> (peer_ptr \<Rightarrow> bitset) \<Rightarrow> peer_ptr \<Rightarrow> bitset \<Rightarrow> superseeder \<Rightarrow> superseeder" where
  "ss_bitset rnd pieces peer bs ss = (if bs_allOn bs then haveAll peer ss
     else fold (\<lambda>i s. if bs_get bs i then ss_have rnd pieces peer i s else s) [0..<num_bits bs] ss)"

definition peerAdded :: "(nat \<Rightarrow> nat) \<Rightarrow> (peer_ptr \<Rightarrow> bitset) \<Rightarrow> peer_ptr \<Rightarrow> superseeder \<Rightarrow> superseeder" where
  "peerAdded rnd pieces peer ss =
     (if bs_allOn (pieces peer) then ss\<lparr>num_seeders := num_seeders ss + 1\<rparr>
      else sendChunk rnd pieces peer (ss\<lparr>ss_cnt := incBitSet (pieces peer) (ss_cnt ss)\<rparr>))"

definition peerRemoved :: "(peer_ptr \<Rightarrow> bitset) \<Rightarrow> peer_ptr \<Rightarrow> superseeder \<Rightarrow> superseeder" where
  "peerRemoved pieces peer ss =
     (let ss1 = forget_peer peer ss;
          ss2 = (if bs_allOn (pieces peer) \<and> 0 < num_seeders ss1
                 then ss1\<lparr>num_seeders := num_seeders ss1 - 1\<rparr> else ss1)
      in ss2\<lparr>ss_cnt := decBitSet (pieces peer) (ss_cnt ss2)\<rparr>)"

section \<open>The two indexes agree\<close>

definition active_ok :: "superseeder \<Rightarrow> bool" where
  "active_ok ss \<longleftrightarrow> distinct (active_chunks ss) \<and>
     (\<forall>p c. active_peers ss p = Some c \<longleftrightarrow> (c, p) \<in> set (active_chunks ss))"

lemma active_ok_new: "active_ok (SuperSeeder_new n)"
  by (simp add: active_ok_def SuperSeeder_new_def)

lemma active_ok_allow:
  "active_ok ss \<Longrightarrow> active_peers ss peer = None \<Longrightarrow> active_ok (allow_chunk peer c ss)"
  by (auto simp: active_ok_def allow_chunk_def) (metis option.distinct(1))+

lemma active_ok_fields:
  "active_ok (ss\<lparr>ss_cnt := a\<rparr>) = active_ok ss" "active_ok (ss\<lparr>num_seeders := b\<rparr>) = active_ok ss"
  "active_ok (ss\<lparr>rng_pos := d\<rparr>) = active_ok ss"
  by (simp_all add: active_ok_def)

lemma active_ok_send: "active_ok ss \<Longrightarrow> active_ok (sendChunk rnd pieces peer ss)"
  by (auto simp: sendChunk_def Let_def active_ok_fields intro!: active_ok_allow split: option.splits)

lemma active_unique:
  "active_ok ss \<Longrightarrow> (c, p) \<in> set (active_chunks ss) \<Longrightarrow> (d, p) \<in> set (active_chunks ss) \<Longrightarrow> c = d"
  unfolding active_ok_def by (metis option.inject)

lemma active_ok_forget: "active_ok ss \<Longrightarrow> active_ok (forget_peer peer ss)"
proof -
  assume ok: "active_ok ss"
  then show ?thesis
    using active_unique [OF ok]
    by (auto simp: active_ok_def forget_peer_def distinct_removeAll split: option.splits)
qed

lemma active_ok_fold:
  "(\<And>x s. active_ok s \<Longrightarrow> active_ok (f x s)) \<Longrightarrow> active_ok s \<Longrightarrow> active_ok (fold f xs s)"
  by (induction xs arbitrary: s) auto

lemma active_ok_evict: "active_ok ss \<Longrightarrow> active_ok (evict chunk peer ss)"
proof -
  assume ok: "active_ok ss"
  have ev: "p \<in> set (evicted chunk peer ss) \<longleftrightarrow> (chunk, p) \<in> set (active_chunks ss) \<and> p \<noteq> peer" for p
    by (force simp: evicted_def)
  show ?thesis
    using ok unfolding active_ok_def evict_def by (auto simp: ev dest: active_unique [OF ok])
qed

lemma active_ok_have: "active_ok ss \<Longrightarrow> active_ok (ss_have rnd pieces peer chunk ss)"
  unfolding ss_have_def Let_def
  by (intro active_ok_fold active_ok_send active_ok_evict) (simp_all add: active_ok_fields)

lemma active_ok_bitset: "active_ok ss \<Longrightarrow> active_ok (ss_bitset rnd pieces peer bs ss)"
  by (auto simp: ss_bitset_def haveAll_def Let_def active_ok_fields active_ok_forget
      intro!: active_ok_fold active_ok_have)

lemma active_ok_added: "active_ok ss \<Longrightarrow> active_ok (peerAdded rnd pieces peer ss)"
  by (simp add: peerAdded_def active_ok_fields active_ok_send)

lemma active_ok_removed: "active_ok ss \<Longrightarrow> active_ok (peerRemoved pieces peer ss)"
  by (simp add: peerRemoved_def Let_def active_ok_fields active_ok_forget)

section \<open>What \<open>sendChunk\<close> can choose\<close>

text \<open>
  The loop visits the chunks \<open>start + 2, \<dots>, start + n\<close> modulo \<open>n\<close>; at distance \<open>d\<close> from its
  end it stands at \<open>start + n - d\<close>.
\<close>

lemma search_chunk_choice:
  assumes "0 < n" and "n = length (ss_cnt ss)" and "start < n" and "d < n" and "d < fuel"
  shows "\<exists>c. search_chunk fuel ss bs start ((start + n - d) mod n) alt = Some c \<and>
    (c = alt \<or> (\<exists>e < d. c = (start + n - e) mod n \<and> \<not> bs_get bs c))"
  using assms(4,5)
proof (induction d arbitrary: fuel alt)
  case 0
  then obtain f where f: "fuel = Suc f" by (cases fuel) auto
  have "(start + n) mod n = start" using assms(3) by simp
  with f show ?case by simp
next
  case (Suc d)
  then obtain f where f: "fuel = Suc f" by (cases fuel) auto
  define ch where "ch = (start + n - Suc d) mod n"
  define c where "c = (start + n - d) mod n"
  have step: "(ch + 1) mod n = c"
  proof -
    have "(ch + 1) mod n = (start + n - Suc d + 1) mod n" unfolding ch_def by (rule mod_add_left_eq)
    also have "start + n - Suc d + 1 = start + n - d" using Suc.prems by simp
    finally show ?thesis by (simp add: c_def)
  qed
  have ne: "ch \<noteq> start"
  proof
    assume "ch = start"
    then have "(start + n - Suc d) mod n = start mod n" using assms(3) by (simp add: ch_def)
    then have "(start + n - Suc d + Suc d) mod n = (start + Suc d) mod n" by (metis mod_add_left_eq)
    then have "start mod n = (start + Suc d) mod n" using Suc.prems by simp
    then have "n dvd Suc d" by (metis mod_eq_dvd_iff_nat add_diff_cancel_left' le_add1)
    with Suc.prems show False by (auto dest: dvd_imp_le)
  qed
  have IH: "\<exists>c'. search_chunk f ss bs start c a = Some c' \<and>
      (c' = a \<or> (\<exists>e < d. c' = (start + n - e) mod n \<and> \<not> bs_get bs c'))" for a
    unfolding c_def using Suc.prems f by (intro Suc.IH) auto
  have unf: "search_chunk fuel ss bs start ch alt =
      (if bs_get bs c then search_chunk f ss bs start c alt
       else if cc_get (ss_cnt ss) c = num_seeders ss \<and> c \<notin> fst ` set (active_chunks ss) then Some c
       else search_chunk f ss bs start c (if cc_get (ss_cnt ss) c < 2 ^ 32 - 1 then c else alt))"
    using f ne step assms(2) by (simp add: Let_def)
  have here: "\<exists>e < Suc d. c = (start + n - e) mod n" by (auto simp: c_def)
  show ?case
  proof (cases "bs_get bs c")
    case True
    with unf IH [of alt] show ?thesis by (auto simp: ch_def [symmetric] intro: less_SucI)
  next
    case False
    with unf IH [of alt] IH [of c] here show ?thesis
      unfolding ch_def [symmetric] by (auto intro: less_SucI)
  qed
qed

lemma sendChunk_choice:
  assumes "0 < length (ss_cnt ss)" and "n = length (ss_cnt ss)" and "start = rnd (rng_pos ss) mod n"
  obtains "sendChunk rnd pieces peer ss = ss"
  | "sendChunk rnd pieces peer ss = ss\<lparr>rng_pos := Suc (rng_pos ss)\<rparr>"
  | c e where "sendChunk rnd pieces peer ss = allow_chunk peer c (ss\<lparr>rng_pos := Suc (rng_pos ss)\<rparr>)"
      and "active_peers ss peer = None" and "c < n" and "\<not> bs_get (pieces peer) c"
      and "e < n - 1" and "c = (start + n - e) mod n"
proof -
  let ?ss = "ss\<lparr>rng_pos := Suc (rng_pos ss)\<rparr>"
  have n: "0 < n" "n = length (ss_cnt ?ss)" "start < n" "n - 1 < n" using assms by auto
  have "(start + n - (n - 1)) mod n = (start + 1) mod n" using n(1) by simp
  with search_chunk_choice [OF n, of n "pieces peer" n] n obtain c where
      c: "search_chunk n ?ss (pieces peer) start ((start + 1) mod n) n = Some c"
        "c = n \<or> (\<exists>e < n - 1. c = (start + n - e) mod n \<and> \<not> bs_get (pieces peer) c)"
    by auto
  show thesis
  proof (cases "active_peers ss peer \<noteq> None \<or> bs_allOn (pieces peer)")
    case True
    then show ?thesis by (intro that(1)) (auto simp: sendChunk_def)
  next
    case False
    then have s: "sendChunk rnd pieces peer ss = (if c < n then allow_chunk peer c ?ss else ?ss)"
      using c(1) assms(2,3) by (simp add: sendChunk_def Let_def)
    with c(2) False that(2,3) show ?thesis by (cases "c < n") auto
  qed
qed

section \<open>Reachable states\<close>

text \<open>
  The events of a super seeder. The pieces of the peers and the random numbers are whatever
  they are at the time of the event.
\<close>

inductive ss_step :: "superseeder \<Rightarrow> superseeder \<Rightarrow> bool" where
  peer_have: "ss_step ss (ss_have rnd pieces peer chunk ss)"
| have_all: "ss_step ss (haveAll peer ss)"
| bitset: "ss_step ss (ss_bitset rnd pieces peer bs ss)"
| added: "ss_step ss (peerAdded rnd pieces peer ss)"
| removed: "ss_step ss (peerRemoved pieces peer ss)"

inductive ss_reachable :: "nat \<Rightarrow> superseeder \<Rightarrow> bool" for n where
  start: "ss_reachable n (SuperSeeder_new n)"
| step: "ss_reachable n ss \<Longrightarrow> ss_step ss ss' \<Longrightarrow> ss_reachable n ss'"

inductive_cases ss_stepE: "ss_step ss ss'"

lemma ss_step_active_ok: "ss_step ss ss' \<Longrightarrow> active_ok ss \<Longrightarrow> active_ok ss'"
  by (elim ss_stepE) (simp_all add: active_ok_have active_ok_bitset active_ok_added active_ok_removed
      haveAll_def Let_def active_ok_fields active_ok_forget)

lemma ss_reachable_active_ok: "ss_reachable n ss \<Longrightarrow> active_ok ss"
  by (induction rule: ss_reachable.induct) (auto simp: active_ok_new ss_step_active_ok)

section \<open>Properties\<close>

text \<open>C28. In every state a super seeder can reach, its two indexes agree: a peer is recorded
  with a chunk exactly when the chunk is recorded with the peer, so every peer has at most
  one chunk on offer.\<close>

theorem superseeder_indexes_agree:
  assumes "ss_reachable n ss"
  shows "(active_peers ss p = Some c \<longleftrightarrow> (c, p) \<in> set (active_chunks ss)) \<and>
    ((c, p) \<in> set (active_chunks ss) \<longrightarrow> (d, p) \<in> set (active_chunks ss) \<longrightarrow> c = d)"
  using ss_reachable_active_ok [OF assms] active_unique by (auto simp: active_ok_def)

theorem superseeder_indexes_agree_witness:
  "active_peers (peerAdded (\<lambda>_. 0) (\<lambda>_. bs_new 4) 7 (SuperSeeder_new 4)) 7 = Some 2 \<and>
   (2, 7) \<in> set (active_chunks (peerAdded (\<lambda>_. 0) (\<lambda>_. bs_new 4) 7 (SuperSeeder_new 4)))"
proof -
  have "ss_reachable 4 (peerAdded (\<lambda>_. 0) (\<lambda>_. bs_new 4) 7 (SuperSeeder_new 4))"
    by (rule ss_reachable.step [OF ss_reachable.start ss_step.added])
  moreover have "active_peers (peerAdded (\<lambda>_. 0) (\<lambda>_. bs_new 4) 7 (SuperSeeder_new 4)) 7 = Some 2"
    by code_simp
  ultimately show ?thesis using superseeder_indexes_agree by blast
qed

text \<open>C29. A chunk offered by \<^verbatim>\<open>sendChunk\<close> exists, the peer does not have it, and the peer had no
  other chunk on offer; but the chunk right behind the random start is never offered, since
  the loop advances before it looks: in a torrent of a single chunk no peer is ever served.\<close>

theorem sendChunk_offers:
  assumes "0 < length (ss_cnt ss)"
    and "ss_sent (sendChunk rnd pieces peer ss) = ss_sent ss @ [(p, c)]"
  shows "p = peer \<and> c < length (ss_cnt ss) \<and> \<not> bs_get (pieces peer) c \<and>
    active_peers ss peer = None \<and>
    c \<noteq> (rnd (rng_pos ss) mod length (ss_cnt ss) + 1) mod length (ss_cnt ss)"
proof -
  let ?n = "length (ss_cnt ss)"
  let ?start = "rnd (rng_pos ss) mod ?n"
  from assms(1) show ?thesis
  proof (rule sendChunk_choice [OF _ refl refl, where rnd = rnd and pieces = pieces and peer = peer])
    fix c' e
    assume s: "sendChunk rnd pieces peer ss = allow_chunk peer c' (ss\<lparr>rng_pos := Suc (rng_pos ss)\<rparr>)"
      and free: "active_peers ss peer = None" and c': "c' < ?n" "\<not> bs_get (pieces peer) c'"
      and e: "e < ?n - 1" "c' = (?start + ?n - e) mod ?n"
    have pc: "p = peer" "c = c'" using assms(2) by (simp_all add: s allow_chunk_def)
    have "(?start + ?n - e) mod ?n \<noteq> (?start + 1) mod ?n"
    proof
      assume eq: "(?start + ?n - e) mod ?n = (?start + 1) mod ?n"
      have "(?start + 1 + e) mod ?n = (?start + ?n - e + e) mod ?n"
        using eq by (metis mod_add_left_eq)
      then have "(?start + 1 + e) mod ?n = ?start mod ?n" using e by simp
      then have "?n dvd 1 + e" by (metis mod_eq_dvd_iff_nat add.assoc add_diff_cancel_left' le_add1)
      with e show False by (auto dest: dvd_imp_le)
    qed
    with pc free c' e show ?thesis by simp
  qed (use assms(2) in simp_all)
qed

theorem sendChunk_offers_witness:
  "\<not> bs_get (bs_new 4) 2 \<and> (2 :: nat) \<noteq> 1"
proof -
  have "ss_sent (sendChunk (\<lambda>_. 0) (\<lambda>_. bs_new 4) 7 (SuperSeeder_new 4)) =
      ss_sent (SuperSeeder_new 4) @ [(7, 2)]" by code_simp
  from sendChunk_offers [OF _ this] show ?thesis
    by (simp add: SuperSeeder_new_def cc_new_def)
qed

text \<open>The search is said to fall back to the rarest chunk, but the number of owners of the
  alternative is never recorded: with every chunk already on offer, the chunk with five owners
  at the end of the search is offered rather than the one with two.\<close>

theorem sendChunk_not_rarest:
  "ss_sent (sendChunk (\<lambda>_. 0) (\<lambda>_. bs_new 4) 7
     ((SuperSeeder_new 4)\<lparr>ss_cnt := [5, 2, 2, 2], active_chunks := [(0, 1), (1, 2), (2, 3), (3, 4)],
        active_peers := [1 \<mapsto> 0, 2 \<mapsto> 1, 3 \<mapsto> 2, 4 \<mapsto> 3]\<rparr>)) = [(7, 0)]"
  by code_simp

text \<open>Peers that join and leave without being seeders are counted right: while each joins
  and leaves with the same pieces, the counter of a chunk is the number of present peers
  that have it.\<close>

theorem counter_join_leave:
  assumes "counts (ss_cnt ss) ps" and "\<not> bs_allOn (pieces p)" and "\<not> bs_allOn (pieces q)"
    and "pieces q \<in> set ps"
  shows "counts (ss_cnt (peerAdded rnd pieces p ss)) (pieces p # ps) \<and>
    counts (ss_cnt (peerRemoved pieces q ss)) (remove1 (pieces q) ps)"
proof -
  have send: "ss_cnt (sendChunk rnd pieces p s) = ss_cnt s" for s
    by (simp add: sendChunk_def allow_chunk_def Let_def split: option.splits)
  have "ss_cnt (forget_peer q ss) = ss_cnt ss"
    by (simp add: forget_peer_def split: option.splits)
  then show ?thesis
    using assms counts_inc counts_dec by (simp add: peerAdded_def peerRemoved_def Let_def send)
qed

theorem counter_join_leave_witness:
  "counts (ss_cnt (peerAdded (\<lambda>_. 0) (\<lambda>_. bs_set 1 True (bs_new 4)) 7
      ((SuperSeeder_new 4)\<lparr>ss_cnt := [0, 1, 0, 0]\<rparr>)))
     [bs_set 1 True (bs_new 4), bs_set 1 True (bs_new 4)]"
proof -
  let ?bs = "bs_set 1 True (bs_new 4)"
  have "\<forall>i \<in> set [0..<4]. [0, 1, 0, 0] ! i = length (filter (\<lambda>bs. bs_get bs i) [?bs])" by code_simp
  then have "counts [0, 1, 0, 0] [?bs]" by (simp add: counts_def)
  moreover have "\<not> bs_allOn ?bs" by code_simp
  ultimately show ?thesis
    using counter_join_leave [of "(SuperSeeder_new 4)\<lparr>ss_cnt := [0, 1, 0, 0]\<rparr>" "[?bs]" "\<lambda>_. ?bs" 7 7 "\<lambda>_. 0"]
    by simp
qed

text \<open>A seeder that joins is not entered into the chunk counter, but when it leaves all
  its chunks are subtracted: the counts of the other peers are lost.\<close>

theorem counter_seeder_leaves:
  "ss_cnt (SuperSeeder_new 2) = [0, 0] \<and>
   ss_cnt (peerAdded (\<lambda>_. 0) (\<lambda>_. bs_set 1 True (bs_new 2)) 1 (SuperSeeder_new 2)) = [0, 1] \<and>
   (let pieces = (\<lambda>p. if p = (1 :: nat) then bs_set 1 True (bs_new 2) else bs_setAll True (bs_new 2))
    in ss_cnt (peerRemoved pieces 2 (peerAdded (\<lambda>_. 0) pieces 2
         (peerAdded (\<lambda>_. 0) pieces 1 (SuperSeeder_new 2)))) = [0, 0])"
  by code_simp

end
