(* ===== verification/ConnectionLimit.thy ===== *)
theory ConnectionLimit
  imports Prelude "HOL-Library.Multiset"
begin

text \<open>
  The connection limit, \<^verbatim>\<open>src/src/peer/connectionlimit.cpp\<close>: tokens that allow a connection are
  handed out within a global limit and a limit per torrent, and come back when they are
  destroyed. The number of files the system lets a process open is a parameter.
\<close>

section \<open>State and operations\<close>

type_synonym info_hash = "byte list"

record conn_limit =
  global_limit :: nat
  global_total :: nat
  torrent_limit :: nat
  torrent_totals :: "info_hash \<rightharpoonup> nat"

definition SystemConnectionLimit :: "u32 \<Rightarrow> nat" where
  "SystemConnectionLimit max_open = unat (max_open - 50)"

definition ConnectionLimit_new :: "u32 \<Rightarrow> conn_limit" where
  "ConnectionLimit_new max_open =
     \<lparr>global_limit = SystemConnectionLimit max_open, global_total = 0, torrent_limit = 0,
      torrent_totals = Map.empty\<rparr>"

definition setLimits :: "u32 \<Rightarrow> nat \<Rightarrow> nat \<Rightarrow> conn_limit \<Rightarrow> conn_limit" where
  "setLimits max_open g t cl =
     (let cl = cl\<lparr>global_limit := g, torrent_limit := t\<rparr>
      in if global_limit cl > SystemConnectionLimit max_open
         then cl\<lparr>global_limit := SystemConnectionLimit max_open\<rparr> else cl)"

text \<open>\<open>acquire\<close> returns whether a token was made, and the new state.\<close>

definition acquire :: "info_hash \<Rightarrow> conn_limit \<Rightarrow> bool \<times> conn_limit" where
  "acquire hash cl =
     (if global_limit cl \<noteq> 0 \<and> global_total cl \<ge> global_limit cl then (False, cl)
      else case torrent_totals cl hash of
        None \<Rightarrow> (True, cl\<lparr>torrent_totals := (torrent_totals cl)(hash \<mapsto> 1),
                        global_total := global_total cl + 1\<rparr>)
      | Some k \<Rightarrow>
          if torrent_limit cl = 0 \<or> k < torrent_limit cl
          then (True, cl\<lparr>torrent_totals := (torrent_totals cl)(hash \<mapsto> k + 1),
                        global_total := global_total cl + 1\<rparr>)
          else (False, cl))"

definition cl_release :: "info_hash \<Rightarrow> conn_limit \<Rightarrow> conn_limit" where
  "cl_release hash cl =
     (case torrent_totals cl hash of
        None \<Rightarrow> cl
      | Some k \<Rightarrow>
          let k' = (if k > 0 then k - 1 else k)
          in cl\<lparr>torrent_totals :=
                 (if k' = 0 then (torrent_totals cl)(hash := None)
                  else (torrent_totals cl)(hash \<mapsto> k')),
               global_total := (if global_total cl > 0 then global_total cl - 1 else 0)\<rparr>)"

section \<open>The limit together with the tokens that are alive\<close>

text \<open>
  A token lives from a successful \<^verbatim>\<open>acquire\<close> to its destructor, which calls \<^verbatim>\<open>release\<close>; only
  tokens that are alive can be destroyed. The state of a run is the limit and the info hashes
  of the tokens alive.
\<close>

inductive cl_step :: "conn_limit \<times> info_hash multiset \<Rightarrow> conn_limit \<times> info_hash multiset \<Rightarrow> bool" where
  set_limits: "cl_step (cl, ts) (setLimits max_open g t cl, ts)"
| acquired: "acquire h cl = (True, cl') \<Longrightarrow> cl_step (cl, ts) (cl', add_mset h ts)"
| refused: "acquire h cl = (False, cl') \<Longrightarrow> cl_step (cl, ts) (cl', ts)"
| destroyed: "h \<in># ts \<Longrightarrow> cl_step (cl, ts) (cl_release h cl, ts - {#h#})"

inductive cl_reachable :: "conn_limit \<times> info_hash multiset \<Rightarrow> bool" where
  start: "cl_reachable (ConnectionLimit_new max_open, {#})"
| step: "cl_reachable s \<Longrightarrow> cl_step s s' \<Longrightarrow> cl_reachable s'"

inductive_cases cl_stepE: "cl_step (cl, ts) s'"

text \<open>The counters are exact: they say how many tokens are alive, in all and per torrent.\<close>

definition tally :: "info_hash multiset \<Rightarrow> info_hash \<rightharpoonup> nat" where
  "tally ts h = (if count ts h = 0 then None else Some (count ts h))"

definition exact :: "conn_limit \<Rightarrow> info_hash multiset \<Rightarrow> bool" where
  "exact cl ts \<longleftrightarrow> global_total cl = size ts \<and> torrent_totals cl = tally ts"

lemma tally_empty: "tally {#} = Map.empty"
  by (simp add: tally_def fun_eq_iff)

lemma tally_add: "tally (add_mset h ts) = (tally ts)(h \<mapsto> count ts h + 1)"
  by (simp add: tally_def fun_eq_iff count_eq_zero_iff)

lemma tally_remove:
  "tally (ts - {#h#}) =
     (if count ts h \<le> 1 then (tally ts)(h := None) else (tally ts)(h \<mapsto> count ts h - 1))"
  by (auto simp: tally_def fun_eq_iff count_eq_zero_iff)

lemma tally_cases:
  obtains "tally ts h = None" and "count ts h = 0" | "tally ts h = Some (count ts h)" and "0 < count ts h"
  by (cases "count ts h = 0") (auto simp: tally_def)

lemma exact_setLimits: "exact cl ts \<Longrightarrow> exact (setLimits max_open g t cl) ts"
  by (simp add: exact_def setLimits_def Let_def)

lemma exact_acquire:
  assumes "exact cl ts" and "acquire h cl = (b, cl')"
  shows "exact cl' (if b then add_mset h ts else ts)"
  using assms by (cases rule: tally_cases [of ts h]) (auto simp: exact_def acquire_def tally_add split: if_splits)

lemma exact_release:
  assumes "exact cl ts" and "h \<in># ts"
  shows "exact (cl_release h cl) (ts - {#h#})"
proof -
  have "0 < count ts h" using assms(2) by (simp only: count_greater_zero_iff)
  moreover have "0 < size ts" using assms(2) by (cases ts) auto
  ultimately show ?thesis
    using assms
    by (cases rule: tally_cases [of ts h])
      (auto simp: exact_def cl_release_def tally_remove Let_def size_Diff_singleton)
qed

lemma cl_step_exact: "cl_step (cl, ts) (cl', ts') \<Longrightarrow> exact cl ts \<Longrightarrow> exact cl' ts'"
  by (elim cl_stepE) (auto simp: exact_setLimits exact_release dest: exact_acquire)

lemma cl_reachable_exact: "cl_reachable s \<Longrightarrow> exact (fst s) (snd s)"
proof (induction rule: cl_reachable.induct)
  case (start max_open)
  then show ?case by (simp add: exact_def ConnectionLimit_new_def tally_empty)
next
  case (step s s')
  then show ?case using cl_step_exact by (metis prod.collapse)
qed

section \<open>Properties\<close>

text \<open>In every reachable state a connection is allowed exactly when both limits leave room
  for it, where the numbers compared with the limits are the numbers of tokens alive, and a
  limit of zero means no limit.\<close>

theorem acquire_iff_within_limits:
  assumes "cl_reachable (cl, ts)"
  shows "fst (acquire h cl) \<longleftrightarrow>
    (global_limit cl = 0 \<or> size ts < global_limit cl) \<and>
    (torrent_limit cl = 0 \<or> count ts h < torrent_limit cl)"
  using cl_reachable_exact [OF assms] 
    by (cases rule: tally_cases [of ts h]) (auto simp: exact_def acquire_def)

theorem acquire_iff_within_limits_witness:
  "\<not> fst (acquire [7] (setLimits 1024 10 1 (snd (acquire [7] (ConnectionLimit_new 1024)))))"
proof -
  have "cl_reachable (setLimits 1024 10 1 (snd (acquire [7] (ConnectionLimit_new 1024))), {#[7]#})"
    by (rule cl_reachable.step [OF cl_reachable.step [OF cl_reachable.start [of 1024] cl_step.acquired] cl_step.set_limits])
      (simp add: acquire_def ConnectionLimit_new_def SystemConnectionLimit_def)
  from acquire_iff_within_limits [OF this, of "[7]"] show ?thesis
    by (simp add: setLimits_def SystemConnectionLimit_def)
qed

text \<open>The system's own limit only holds for a configured limit other than zero: zero is
  below it, is kept, and then disables the check.\<close>

lemma setLimits_zero_unlimited:
  "cl_reachable (cl, ts) \<Longrightarrow> fst (acquire h (setLimits max_open 0 0 cl))"
  using cl_reachable_exact [of "(cl, ts)"]
  by (auto simp: acquire_def setLimits_def Let_def split: option.splits)

end
