(* ===== verification/CircularBuffer.thy ===== *)
theory CircularBuffer
  imports Endian
begin

text \<open>
  The circular byte buffer, \<^verbatim>\<open>src/src/util/circularbuffer.cpp\<close>, and the contract its clients
  rely on: a bounded first-in first-out byte queue. The indices are \<^verbatim>\<open>Uint32\<close>; the sums of the
  code are taken modulo \<open>2 ^ 32\<close>, and the contract is proved for capacities up to \<open>2 ^ 31\<close>,
  where no sum wraps (libktorrent uses 64 KiB).
\<close>

section \<open>State and operations\<close>

record circbuf =
  cb_data :: "byte list"
  buf_capacity :: nat
  cb_start :: nat
  buf_size :: nat

definition add32 :: "nat \<Rightarrow> nat \<Rightarrow> nat" where
  "add32 a b = (a + b) mod 2 ^ 32"

text \<open>The memory of a new buffer is not initialised: its contents are an argument.\<close>

definition CircularBuffer_new :: "byte list \<Rightarrow> nat \<Rightarrow> circbuf" where
  "CircularBuffer_new mem cap = \<lparr>cb_data = mem, buf_capacity = cap, cb_start = 0, buf_size = 0\<rparr>"

definition cb_empty :: "circbuf \<Rightarrow> bool" where "cb_empty cb \<longleftrightarrow> buf_size cb = 0"

definition cb_full :: "circbuf \<Rightarrow> bool" where "cb_full cb \<longleftrightarrow> buf_size cb = buf_capacity cb"

definition cb_available :: "circbuf \<Rightarrow> nat" where "cb_available cb = buf_capacity cb - buf_size cb"

definition firstRange :: "circbuf \<Rightarrow> byte list" where
  "firstRange cb =
     (if add32 (cb_start cb) (buf_size cb) > buf_capacity cb then drop (cb_start cb) (cb_data cb)
      else sliced (cb_data cb) (cb_start cb) (buf_size cb))"

definition secondRange :: "circbuf \<Rightarrow> byte list" where
  "secondRange cb =
     (if add32 (cb_start cb) (buf_size cb) > buf_capacity cb
      then take (buf_size cb - (buf_capacity cb - cb_start cb)) (cb_data cb)
      else [])"

text \<open>\<open>cb_read\<close> returns the bytes copied out; their number is the result of the C++ function.\<close>

definition cb_read :: "nat \<Rightarrow> circbuf \<Rightarrow> byte list \<times> circbuf" where
  "cb_read max_len cb =
     (if cb_empty cb then ([], cb)
      else
        let to_read = (if buf_size cb < max_len then buf_size cb else max_len);
            r1 = firstRange cb;
            out = (if length r1 \<ge> to_read then take to_read r1
                   else r1 @ take (to_read - length r1) (secondRange cb))
        in (out, cb\<lparr>cb_start := add32 (cb_start cb) to_read mod buf_capacity cb,
                    buf_size := buf_size cb - to_read\<rparr>))"

definition cb_write :: "byte list \<Rightarrow> circbuf \<Rightarrow> nat \<times> circbuf" where
  "cb_write buf cb =
     (if cb_full cb then (0, cb)
      else
        let free_space = buf_capacity cb - buf_size cb;
            to_write = (if free_space < length buf then free_space else length buf);
            write_pos = add32 (cb_start cb) (buf_size cb) mod buf_capacity cb;
            dat = (if add32 write_pos to_write > buf_capacity cb
                   then let w = buf_capacity cb - write_pos
                        in splice_at 0 (sliced buf w (to_write - w)) (splice_at write_pos (take w buf) (cb_data cb))
                   else splice_at write_pos (take to_write buf) (cb_data cb))
        in (to_write, cb\<lparr>cb_data := dat, buf_size := buf_size cb + to_write\<rparr>))"

section \<open>The contract: a bounded byte queue\<close>

text \<open>
  \<open>content\<close> is the queue a state stands for, oldest byte first. Reading takes bytes from its
  front, writing appends as much of the data as fits.
\<close>

datatype queue_op = Rd nat | Wr "byte list"

locale byte_queue =
  fixes inv :: "'s \<Rightarrow> bool"
    and content :: "'s \<Rightarrow> byte list"
    and cap :: "'s \<Rightarrow> nat"
    and rd :: "nat \<Rightarrow> 's \<Rightarrow> byte list \<times> 's"
    and wr :: "byte list \<Rightarrow> 's \<Rightarrow> nat \<times> 's"
  assumes bounded: "inv s \<Longrightarrow> length (content s) \<le> cap s"
    and rd_inv: "inv s \<Longrightarrow> inv (snd (rd n s))"
    and rd_out: "inv s \<Longrightarrow> fst (rd n s) = take n (content s)"
    and rd_content: "inv s \<Longrightarrow> content (snd (rd n s)) = drop n (content s)"
    and rd_cap: "inv s \<Longrightarrow> cap (snd (rd n s)) = cap s"
    and wr_inv: "inv s \<Longrightarrow> inv (snd (wr xs s))"
    and wr_count: "inv s \<Longrightarrow> fst (wr xs s) = min (length xs) (cap s - length (content s))"
    and wr_content: "inv s \<Longrightarrow> content (snd (wr xs s)) = content s @ take (fst (wr xs s)) xs"
    and wr_cap: "inv s \<Longrightarrow> cap (snd (wr xs s)) = cap s"
begin

text \<open>\<open>run ops s\<close> is the bytes read and the bytes accepted by a sequence of operations, and the
  state after it.\<close>

fun run :: "queue_op list \<Rightarrow> 's \<Rightarrow> byte list \<times> byte list \<times> 's" where
  "run [] s = ([], [], s)"
| "run (Rd n # ops) s =
     (let (out, s') = rd n s; (r, a, t) = run ops s' in (out @ r, a, t))"
| "run (Wr xs # ops) s =
     (let (k, s') = wr xs s; (r, a, t) = run ops s' in (r, take k xs @ a, t))"

lemma run_fifo:
  "inv s \<Longrightarrow> run ops s = (r, a, t) \<Longrightarrow> inv t \<and> cap t = cap s \<and> r @ content t = content s @ a"
proof (induction ops arbitrary: s r a t)
  case Nil
  then show ?case by simp
next
  case (Cons op ops)
  show ?case
  proof (cases op)
    case (Rd n)
    obtain r' a' t' where run: "run ops (snd (rd n s)) = (r', a', t')" by (metis prod_cases3)
    then have eqs: "r = take n (content s) @ r'" "a = a'" "t = t'"
      using Cons.prems rd_out [of s n] by (auto simp: case_prod_beta Rd)
    from Cons.IH [OF rd_inv [OF Cons.prems(1)] run]
    have "inv t' \<and> cap t' = cap s \<and> r' @ content t' = drop n (content s) @ a'"
      by (simp add: rd_cap rd_content Cons.prems(1))
    then show ?thesis using eqs by simp
  next
    case (Wr xs)
    obtain r' a' t' where run: "run ops (snd (wr xs s)) = (r', a', t')" by (metis prod_cases3)
    then have eqs: "r = r'" "a = take (fst (wr xs s)) xs @ a'" "t = t'"
      using Cons.prems by (auto simp: case_prod_beta Wr)
    from Cons.IH [OF wr_inv [OF Cons.prems(1)] run] show ?thesis
      using eqs wr_cap [OF Cons.prems(1)] wr_content [OF Cons.prems(1), of xs] by simp
  qed
qed

lemma wr_rd:
  assumes "inv s" and "content s = []" and "length xs \<le> cap s"
  shows "fst (rd (length xs) (snd (wr xs s))) = xs"
  using assms by (simp add: rd_out wr_inv wr_content wr_count)

end

section \<open>The circular buffer keeps the contract\<close>

definition cb_inv :: "circbuf \<Rightarrow> bool" where
  "cb_inv cb \<longleftrightarrow> 0 < buf_capacity cb \<and> buf_capacity cb \<le> 2 ^ 31 \<and> length (cb_data cb) = buf_capacity cb \<and>
     cb_start cb < buf_capacity cb \<and> buf_size cb \<le> buf_capacity cb"

text \<open>The queue of a state: the bytes from the start index on, around the end of the array.\<close>

definition cb_content :: "circbuf \<Rightarrow> byte list" where
  "cb_content cb = map (\<lambda>i. cb_data cb ! ((cb_start cb + i) mod buf_capacity cb)) [0..<buf_size cb]"

lemma cb_inv_add32 [simp]:
  "cb_inv cb \<Longrightarrow> a < buf_capacity cb \<Longrightarrow> b \<le> buf_capacity cb \<Longrightarrow> add32 a b = a + b"
  by (simp add: cb_inv_def add32_def)

lemma cb_new_inv:
  "0 < cap \<Longrightarrow> cap \<le> 2 ^ 31 \<Longrightarrow> length mem = cap \<Longrightarrow> cb_inv (CircularBuffer_new mem cap)"
  by (simp add: cb_inv_def CircularBuffer_new_def)

lemma cb_new_content [simp]: "cb_content (CircularBuffer_new mem cap) = []"
  by (simp add: cb_content_def CircularBuffer_new_def)

lemma cb_new_capacity [simp]: "buf_capacity (CircularBuffer_new mem cap) = cap"
  by (simp add: CircularBuffer_new_def)

lemma mod_once: "(a :: nat) < m \<Longrightarrow> b \<le> m \<Longrightarrow> (a + b) mod m = (if a + b < m then a + b else a + b - m)"
  by (auto simp: mod_if)

text \<open>The two ranges the code copies from are the queue.\<close>

lemma ranges_content:
  assumes "cb_inv cb"
  shows "firstRange cb @ secondRange cb = cb_content cb"
proof (rule nth_equalityI)
  show "length (firstRange cb @ secondRange cb) = length (cb_content cb)"
    using assms by (auto simp: cb_inv_def firstRange_def secondRange_def cb_content_def sliced_def add32_def)
next
  fix i assume "i < length (firstRange cb @ secondRange cb)"
  then show "(firstRange cb @ secondRange cb) ! i = cb_content cb ! i"
    using assms
    by (auto simp: cb_inv_def firstRange_def secondRange_def cb_content_def sliced_def add32_def
        nth_append mod_once less_diff_conv add.commute)
qed

lemma cb_read_out:
  assumes "cb_inv cb"
  shows "fst (cb_read n cb) = take n (cb_content cb)"
proof -
  have "take k (firstRange cb @ secondRange cb) =
      (if length (firstRange cb) \<ge> k then take k (firstRange cb)
       else firstRange cb @ take (k - length (firstRange cb)) (secondRange cb))" for k
    by simp
  moreover have "take n (cb_content cb) = take (if buf_size cb < n then buf_size cb else n) (cb_content cb)"
    by (simp add: cb_content_def)
  ultimately show ?thesis
    using ranges_content [OF assms] by (simp add: cb_read_def Let_def cb_empty_def cb_content_def)
qed

lemma cb_read_fields:
  assumes "cb_inv cb"
  shows "cb_start (snd (cb_read n cb)) = (cb_start cb + min n (buf_size cb)) mod buf_capacity cb"
    and "buf_size (snd (cb_read n cb)) = buf_size cb - n"
    and "buf_capacity (snd (cb_read n cb)) = buf_capacity cb"
    and "cb_data (snd (cb_read n cb)) = cb_data cb"
  using assms by (auto simp: cb_read_def Let_def cb_empty_def cb_inv_def add32_def min_def)

lemma cb_read_content:
  assumes "cb_inv cb"
  shows "cb_content (snd (cb_read n cb)) = drop n (cb_content cb)"
proof (rule nth_equalityI)
  fix i assume "i < length (cb_content (snd (cb_read n cb)))"
  then have i: "i < buf_size cb - n" by (simp add: cb_content_def cb_read_fields [OF assms])
  then have "n + i < buf_size cb" "min n (buf_size cb) = n" by simp_all
  with i show "cb_content (snd (cb_read n cb)) ! i = drop n (cb_content cb) ! i"
    by (simp add: cb_content_def cb_read_fields [OF assms] mod_add_left_eq add.assoc)
qed (simp add: cb_content_def cb_read_fields [OF assms])

lemma cb_write_fields:
  assumes "cb_inv cb"
  shows "fst (cb_write xs cb) = min (length xs) (buf_capacity cb - buf_size cb)"
    and "cb_start (snd (cb_write xs cb)) = cb_start cb"
    and "buf_size (snd (cb_write xs cb)) = buf_size cb + fst (cb_write xs cb)"
    and "buf_capacity (snd (cb_write xs cb)) = buf_capacity cb"
  using assms by (auto simp: cb_write_def Let_def cb_full_def cb_inv_def)

text \<open>Writing puts the \<open>i\<close>-th byte of the data \<open>i\<close> places behind the queue and leaves the other
  places alone.\<close>

definition ring_put :: "nat \<Rightarrow> nat \<Rightarrow> byte list \<Rightarrow> byte list \<Rightarrow> byte list" where
  "ring_put pos k xs d =
     (if pos + k > length d
      then splice_at 0 (take (k - (length d - pos)) (drop (length d - pos) xs))
             (splice_at pos (take (length d - pos) xs) d)
      else splice_at pos (take k xs) d)"

lemma ring_put_length [simp]:
  "pos < length d \<Longrightarrow> k \<le> length d \<Longrightarrow> k \<le> length xs \<Longrightarrow> length (ring_put pos k xs d) = length d"
  by (auto simp: ring_put_def)

lemma ring_put_nth:
  assumes "pos < length d" and "k \<le> length d" and "k \<le> length xs" and "p < length d"
  shows "ring_put pos k xs d ! p =
    (if pos \<le> p \<and> p < pos + k then xs ! (p - pos)
     else if p + length d < pos + k then xs ! (p + length d - pos) else d ! p)"
proof (cases "pos + k > length d")
  case True
  then show ?thesis using assms by (auto simp: ring_put_def nth_splice_at add.commute)
next
  case False
  then show ?thesis using assms by (auto simp: ring_put_def nth_splice_at)
qed

lemma cb_write_ring_put:
  assumes "cb_inv cb"
  shows "cb_data (snd (cb_write xs cb)) =
    ring_put ((cb_start cb + buf_size cb) mod buf_capacity cb) (fst (cb_write xs cb)) xs (cb_data cb)"
proof -
  have pos: "(cb_start cb + buf_size cb) mod buf_capacity cb < buf_capacity cb"
    and c: "length (cb_data cb) = buf_capacity cb" "cb_start cb < buf_capacity cb" "buf_size cb \<le> buf_capacity cb"
    using assms by (simp_all add: cb_inv_def)
  have "add32 (cb_start cb) (buf_size cb) = cb_start cb + buf_size cb"
    "k \<le> buf_capacity cb \<Longrightarrow> add32 ((cb_start cb + buf_size cb) mod buf_capacity cb) k =
      (cb_start cb + buf_size cb) mod buf_capacity cb + k" for k
    using assms pos c by simp_all
  then show ?thesis
    using c by (cases "cb_full cb") (simp_all add: cb_write_def ring_put_def Let_def sliced_def)
qed

lemma cb_write_data:
  assumes "cb_inv cb"
  shows "length (cb_data (snd (cb_write xs cb))) = buf_capacity cb"
    and "i < buf_size cb + fst (cb_write xs cb) \<Longrightarrow>
      cb_data (snd (cb_write xs cb)) ! ((cb_start cb + i) mod buf_capacity cb) =
        (if i < buf_size cb then cb_data cb ! ((cb_start cb + i) mod buf_capacity cb)
         else xs ! (i - buf_size cb))"
proof -
  let ?k = "fst (cb_write xs cb)" and ?c = "buf_capacity cb"
  have k: "?k \<le> length xs" "buf_size cb + ?k \<le> ?c"
    using assms by (auto simp: cb_write_fields(1) [OF assms] cb_inv_def)
  have c: "length (cb_data cb) = ?c" "cb_start cb < ?c" using assms by (simp_all add: cb_inv_def)
  then have pos: "(cb_start cb + buf_size cb) mod ?c < ?c" by simp
  show "length (cb_data (snd (cb_write xs cb))) = buf_capacity cb"
    using k c pos by (simp add: cb_write_ring_put [OF assms])
  show "cb_data (snd (cb_write xs cb)) ! ((cb_start cb + i) mod ?c) =
        (if i < buf_size cb then cb_data cb ! ((cb_start cb + i) mod ?c) else xs ! (i - buf_size cb))"
    if i: "i < buf_size cb + ?k"
  proof -
    have "(cb_start cb + i) mod ?c < ?c" using c by simp
    then have *: "ring_put ((cb_start cb + buf_size cb) mod ?c) ?k xs (cb_data cb) ! ((cb_start cb + i) mod ?c) =
      (if (cb_start cb + buf_size cb) mod ?c \<le> (cb_start cb + i) mod ?c \<and>
          (cb_start cb + i) mod ?c < (cb_start cb + buf_size cb) mod ?c + ?k
       then xs ! ((cb_start cb + i) mod ?c - (cb_start cb + buf_size cb) mod ?c)
       else if (cb_start cb + i) mod ?c + ?c < (cb_start cb + buf_size cb) mod ?c + ?k
       then xs ! ((cb_start cb + i) mod ?c + ?c - (cb_start cb + buf_size cb) mod ?c)
       else cb_data cb ! ((cb_start cb + i) mod ?c))"
      using ring_put_nth [of _ "cb_data cb"] pos k c by simp
    have m: "(cb_start cb + i) mod ?c = (if cb_start cb + i < ?c then cb_start cb + i else cb_start cb + i - ?c)"
      "(cb_start cb + buf_size cb) mod ?c =
        (if cb_start cb + buf_size cb < ?c then cb_start cb + buf_size cb else cb_start cb + buf_size cb - ?c)"
      using k c i mod_once [of "cb_start cb" ?c i] mod_once [of "cb_start cb" ?c "buf_size cb"] by simp_all
    show ?thesis
      unfolding cb_write_ring_put [OF assms] * unfolding m
      using k(2) c(2) i by (cases "cb_start cb + i < ?c"; cases "cb_start cb + buf_size cb < ?c"; cases "i < buf_size cb") auto
  qed
qed

lemma cb_write_content:
  assumes "cb_inv cb"
  shows "cb_content (snd (cb_write xs cb)) = cb_content cb @ take (fst (cb_write xs cb)) xs"
proof (rule nth_equalityI)
  have le: "fst (cb_write xs cb) \<le> length xs" by (simp add: cb_write_fields [OF assms])
  then show "length (cb_content (snd (cb_write xs cb))) = length (cb_content cb @ take (fst (cb_write xs cb)) xs)"
    by (simp add: cb_content_def cb_write_fields(3) [OF assms])
  fix i assume "i < length (cb_content (snd (cb_write xs cb)))"
  then have "i < buf_size cb + fst (cb_write xs cb)"
    by (simp add: cb_content_def cb_write_fields(3) [OF assms])
  then show "cb_content (snd (cb_write xs cb)) ! i = (cb_content cb @ take (fst (cb_write xs cb)) xs) ! i"
    using cb_write_data(2) [OF assms] le
    by (simp add: cb_content_def cb_write_fields(2-4) [OF assms] nth_append)
qed

interpretation cb: byte_queue cb_inv cb_content buf_capacity cb_read cb_write
proof unfold_locales
  fix cb n xs assume inv: "cb_inv cb"
  show "length (cb_content cb) \<le> buf_capacity cb" using inv by (simp add: cb_content_def cb_inv_def)
  show "cb_inv (snd (cb_read n cb))"
    using inv by (auto simp: cb_inv_def cb_read_fields [OF inv])
  show "cb_inv (snd (cb_write xs cb))"
    using inv cb_write_data(1) [OF inv, of xs] by (auto simp: cb_inv_def cb_write_fields [OF inv])
  show "fst (cb_write xs cb) = min (length xs) (buf_capacity cb - length (cb_content cb))"
    using cb_write_fields(1) [OF inv] by (simp add: cb_content_def)
qed (simp_all add: cb_read_out cb_read_content cb_read_fields cb_write_content cb_write_fields)

section \<open>Properties\<close>

text \<open>C23. The circular buffer is a first-in first-out queue under every interleaving of reads and
  writes: what was read followed by what is left is exactly what was there followed by what
  was accepted, no write is accepted beyond the capacity, and no byte is lost or reordered
  at the wrap of the array.\<close>

theorem circular_buffer_fifo:
  assumes "cb_inv cb" and "cb.run ops cb = (r, a, cb')"
  shows "r @ cb_content cb' = cb_content cb @ a \<and> length (cb_content cb') \<le> buf_capacity cb \<and>
    fst (cb_write xs cb') = min (length xs) (buf_capacity cb - length (cb_content cb'))"
  using cb.run_fifo [OF assms] cb.bounded [of cb'] cb.wr_count [of cb' xs] by simp

theorem circular_buffer_fifo_witness:
  "let cb = CircularBuffer_new [0, 0, 0] 3; (r, a, cb') = cb.run [Wr [1, 2], Rd 1, Wr [3, 4, 5]] cb
   in r = [1] \<and> a = [1, 2, 3, 4] \<and> cb_content cb' = [2, 3, 4] \<and> r @ cb_content cb' = a"
proof -
  let ?cb = "CircularBuffer_new [0, 0, 0] 3" and ?ops = "[Wr [1, 2], Rd 1, Wr [3, 4, 5]]"
  have "cb_inv ?cb" by (rule cb_new_inv) simp_all
  moreover obtain cb' where run: "cb.run ?ops ?cb = ([1], [1, 2, 3, 4], cb')"
    and "cb_content cb' = [2, 3, 4]"
    by (simp add: CircularBuffer_new_def cb_write_def cb_read_def cb_full_def cb_empty_def Let_def add32_def
        splice_at_def sliced_def firstRange_def secondRange_def cb_content_def upt_rec)
  ultimately show ?thesis using circular_buffer_fifo [OF _ run] by (simp add: run)
qed

end
