(* ===== verification/UtpProtocol.thy ===== *)
theory UtpProtocol
  imports CircularBuffer
begin

text \<open>
  The uTP wire format, \<^verbatim>\<open>src/src/utp/utpprotocol.h\<close>, \<^verbatim>\<open>src/src/utp/utpprotocol.cpp\<close> and
  \<^verbatim>\<open>src/src/utp/packetbuffer.cpp\<close>: comparison of 16-bit sequence numbers around the wrap,
  the 20 byte header, selective acknowledgements, the packet parser and the buffer in which a
  packet is put together from payload, extension and header, back to front.
\<close>

section \<open>Sequence numbers\<close>

text \<open>In \<^verbatim>\<open>qAbs(b - a)\<close> the operands are promoted to \<^verbatim>\<open>int\<close>.\<close>

definition SeqNrCmpSE :: "u16 \<Rightarrow> u16 \<Rightarrow> bool" where
  "SeqNrCmpSE a b = (if \<bar>uint b - uint a\<bar> < 32768 then a \<le> b else a > b)"

definition SeqNrCmpS :: "u16 \<Rightarrow> u16 \<Rightarrow> bool" where
  "SeqNrCmpS a b = (if \<bar>uint b - uint a\<bar> < 32768 then a < b else a > b)"

definition SeqNrDiff :: "u16 \<Rightarrow> u16 \<Rightarrow> u16" where
  "SeqNrDiff a b =
     (if \<bar>uint b - uint a\<bar> < 32768 then b - a
      else if b > a then word_of_int (uint a + (65536 - uint b))
      else word_of_int (uint b + (65536 - uint a)))"

text \<open>
  The three operations in terms of the distance from \<open>a\<close> forward to \<open>b\<close>, a number below
  \<open>65536\<close>: up to \<open>32767\<close> ahead compares as later. Exactly half way round the two numbers
  compare by their size.
\<close>

lemma uint_bound16: "0 \<le> uint (a :: u16)" "uint (a :: u16) < 65536"
  using uint_lt2p [of a] by simp_all

lemma uint_diff16:
  fixes a b :: u16
  shows "uint (b - a) = (if uint a \<le> uint b then uint b - uint a else uint b - uint a + 65536)"
  by (simp add: uint_sub_if')

lemmas seq_simps = word_less_def word_le_def uint_diff16

lemma SeqNrCmpSE_forward:
  "SeqNrCmpSE a b \<longleftrightarrow> uint (b - a) < 32768 \<or> (uint (b - a) = 32768 \<and> b < a)"
  using uint_bound16 [of a] uint_bound16 [of b] by (simp add: SeqNrCmpSE_def seq_simps) linarith

lemma SeqNrCmpS_forward:
  "SeqNrCmpS a b \<longleftrightarrow> 0 < uint (b - a) \<and> (uint (b - a) < 32768 \<or> (uint (b - a) = 32768 \<and> b < a))"
  using uint_bound16 [of a] uint_bound16 [of b]
  by (auto simp: SeqNrCmpS_def seq_simps) (use uint_bound16 [of b] in linarith)

lemma SeqNrDiff_forward: "SeqNrCmpSE a b \<Longrightarrow> SeqNrDiff a b = b - a"
proof -
  assume "SeqNrCmpSE a b"
  then have "\<bar>uint b - uint a\<bar> < 32768 \<or> b < a"
    by (auto simp: SeqNrCmpSE_def split: if_splits)
  moreover have "b < a \<Longrightarrow> word_of_int (uint b + (65536 - uint a)) = b - a"
  proof -
    have "(65536 :: u16) = 0" by simp
    then show ?thesis by simp
  qed
  ultimately show ?thesis by (auto simp: SeqNrDiff_def)
qed

text \<open>
  Numbers of packets that are fewer than \<open>32768\<close> apart keep their order and distance as 16-bit
  sequence numbers.
\<close>

lemma uint_of_nat16: "uint (of_nat n :: u16) = int (n mod 65536)"
  by (simp add: uint_word_of_int unsigned_of_nat take_bit_eq_mod zmod_int flip: of_nat_mod)

lemma uint_seq_sub:
  assumes "j < i + 32768" and "i < j + 32768"
  shows "uint (of_nat j - of_nat i :: u16) =
    (if i \<le> j then int (j - i) else 65536 - int (i - j))"
proof (cases "i \<le> j")
  case True
  then show ?thesis using assms by (simp add: uint_of_nat16 flip: of_nat_diff)
next
  case False
  then have "uint (of_nat i - of_nat j :: u16) = int (i - j)"
    using assms by (simp add: uint_of_nat16 flip: of_nat_diff)
  with False show ?thesis
    using uint_diff16 [of "of_nat i" "of_nat j"] uint_diff16 [of "of_nat j" "of_nat i"]
    by (auto split: if_splits)
qed

lemma seq_order:
  assumes "j < i + 32768" and "i < j + 32768"
  shows "SeqNrCmpSE (base + of_nat i) (base + of_nat j) \<longleftrightarrow> i \<le> j"
    and "SeqNrCmpS (base + of_nat i) (base + of_nat j) \<longleftrightarrow> i < j"
    and "i \<le> j \<Longrightarrow> unat (SeqNrDiff (base + of_nat i) (base + of_nat j)) = j - i"
proof -
  show le: "SeqNrCmpSE (base + of_nat i) (base + of_nat j) \<longleftrightarrow> i \<le> j"
    using assms by (auto simp: SeqNrCmpSE_forward uint_seq_sub)
  show "SeqNrCmpS (base + of_nat i) (base + of_nat j) \<longleftrightarrow> i < j"
    using assms by (auto simp: SeqNrCmpS_forward uint_seq_sub)
  show "i \<le> j \<Longrightarrow> unat (SeqNrDiff (base + of_nat i) (base + of_nat j)) = j - i"
    using assms le by (simp add: SeqNrDiff_forward unat_of_nat flip: of_nat_diff)
qed

section \<open>The header\<close>

type_synonym u4 = "4 word"

record utp_header =
  version :: u4
  pkt_type :: u4
  extension :: byte
  connection_id :: u16
  timestamp_microseconds :: u32
  timestamp_difference_microseconds :: u32
  hdr_wnd_size :: u32
  seq_nr :: u16
  ack_nr :: u16

definition SELECTIVE_ACK_ID :: byte where "SELECTIVE_ACK_ID = 1"

definition ST_DATA :: u4 where "ST_DATA = 0"
definition ST_FIN :: u4 where "ST_FIN = 1"
definition ST_STATE :: u4 where "ST_STATE = 2"
definition ST_RESET :: u4 where "ST_RESET = 3"
definition ST_SYN :: u4 where "ST_SYN = 4"

lemmas st_defs = ST_DATA_def ST_FIN_def ST_STATE_def ST_RESET_def ST_SYN_def

definition Header_size :: nat where "Header_size = 20"

definition header_read :: "byte list \<Rightarrow> utp_header" where
  "header_read dat =
     \<lparr>version = ucast (dat ! 0 AND 0x0F), pkt_type = ucast (drop_bit 4 (dat ! 0 AND 0xF0)),
      extension = dat ! 1, connection_id = ReadUint16 dat 2,
      timestamp_microseconds = ReadUint32 dat 4,
      timestamp_difference_microseconds = ReadUint32 dat 8,
      hdr_wnd_size = ReadUint32 dat 12, seq_nr = ReadUint16 dat 16, ack_nr = ReadUint16 dat 18\<rparr>"

definition type_version :: "utp_header \<Rightarrow> byte" where
  "type_version h = (push_bit 4 (ucast (pkt_type h)) AND 0xF0) OR (ucast (version h) AND 0x0F)"

text \<open>\<open>header_write pos h buf\<close> writes the header at the offset \<open>pos\<close> of \<open>buf\<close>.\<close>

definition header_write :: "nat \<Rightarrow> utp_header \<Rightarrow> byte list \<Rightarrow> byte list" where
  "header_write pos h buf =
    (let buf = buf[pos := type_version h];
         buf = buf[pos + 1 := extension h];
         buf = WriteUint16 (pos + 2) (connection_id h) buf;
         buf = WriteUint32 (pos + 4) (timestamp_microseconds h) buf;
         buf = WriteUint32 (pos + 8) (timestamp_difference_microseconds h) buf;
         buf = WriteUint32 (pos + 12) (hdr_wnd_size h) buf;
         buf = WriteUint16 (pos + 16) (seq_nr h) buf
     in WriteUint16 (pos + 18) (ack_nr h) buf)"

text \<open>The twenty bytes of a header, in order.\<close>

definition header_bytes :: "utp_header \<Rightarrow> byte list" where
  "header_bytes h = [type_version h, extension h] @ nat_to_be 2 (unat (connection_id h)) @
     nat_to_be 4 (unat (timestamp_microseconds h)) @ nat_to_be 4 (unat (timestamp_difference_microseconds h)) @
     nat_to_be 4 (unat (hdr_wnd_size h)) @ nat_to_be 2 (unat (seq_nr h)) @ nat_to_be 2 (unat (ack_nr h))"

lemma length_header_bytes [simp]: "length (header_bytes h) = 20"
  by (simp add: header_bytes_def)

lemma splice_at_chain:
  "q = pos + length xs \<Longrightarrow> pos + length xs + length ys \<le> length buf \<Longrightarrow>
   splice_at q ys (splice_at pos xs buf) = splice_at pos (xs @ ys) buf"
  by (simp add: splice_at_def ac_simps)

lemma list_update_splice: "pos < length buf \<Longrightarrow> buf[pos := x] = splice_at pos [x] buf"
  by (simp add: splice_at_def upd_conv_take_nth_drop)

lemma header_write_bytes:
  "pos + 20 \<le> length buf \<Longrightarrow> header_write pos h buf = splice_at pos (header_bytes h) buf"
  by (simp add: header_write_def header_bytes_def Let_def list_update_splice splice_at_chain
      WriteUint16_def WriteUint32_def)

lemma bit_high_nibble:
  "bit (16 * ucast (t :: u4) :: byte) n \<longleftrightarrow> 4 \<le> n \<and> n < 8 \<and> bit t (n - 4)"
proof -
  have "(16 * ucast t :: byte) = push_bit 4 (ucast t)" by (simp add: push_bit_eq_mult)
  then show ?thesis using bit_imp_le_length [of t "n - 4"] by (simp only: bit_push_bit_iff) (auto simp: bit_simps)
qed

lemma nibble_cases: "n < 4 \<Longrightarrow> n = 0 \<or> n = 1 \<or> n = 2 \<or> n = (3 :: nat)"
  by linarith

lemma type_version_parts [simp]:
  "ucast (type_version h AND 0x0F) = version h"
  "ucast (drop_bit 4 (type_version h) AND 0x0F) = pkt_type h"
  by (rule bit_word_eqI; auto simp: type_version_def bit_simps bit_high_nibble dest!: nibble_cases)+

lemma header_read_bytes: "header_read (header_bytes h @ rest) = h"
  by (simp add: header_read_def header_bytes_def type_version_parts ReadUint16_def ReadUint32_def sliced_def
      be16_inverse be32_inverse)

section \<open>Selective acknowledgements\<close>

text \<open>A selective acknowledgement is its bit mask; its \<^verbatim>\<open>length\<close> field is the length of the mask.
  Bit \<open>n\<close> stands for the packet \<open>n\<close> behind the acknowledged one.\<close>

definition Acked :: "byte list \<Rightarrow> nat \<Rightarrow> bool" where
  "Acked bitmask n =
     (if n < 2 \<or> n > 8 * length bitmask + 1 then False
      else bitmask ! ((n - 2) div 8) AND push_bit ((n - 2) mod 8) 1 \<noteq> 0)"

definition Ack :: "nat \<Rightarrow> byte list \<Rightarrow> byte list" where
  "Ack n bitmask =
     (if n < 2 \<or> n > 8 * length bitmask + 1 then bitmask
      else bitmask[(n - 2) div 8 := bitmask ! ((n - 2) div 8) OR push_bit ((n - 2) mod 8) 1])"

lemma length_Ack [simp]: "length (Ack n bitmask) = length bitmask"
  by (simp add: Ack_def)

lemma Acked_bit:
  "Acked bitmask n \<longleftrightarrow> 2 \<le> n \<and> n \<le> 8 * length bitmask + 1 \<and> bit (bitmask ! ((n - 2) div 8)) ((n - 2) mod 8)"
  by (auto simp: Acked_def and_exp_eq_0_iff_not_bit)

lemma Acked_Ack:
  "Acked (Ack m bitmask) n \<longleftrightarrow> Acked bitmask n \<or> (n = m \<and> 2 \<le> m \<and> m \<le> 8 * length bitmask + 1)"
proof (cases "2 \<le> m \<and> m \<le> 8 * length bitmask + 1 \<and> 2 \<le> n \<and> n \<le> 8 * length bitmask + 1")
  case True
  have "(m - 2) div 8 = (n - 2) div 8 \<Longrightarrow> (m - 2) mod 8 = (n - 2) mod 8 \<Longrightarrow> m = n"
    using True div_mult_mod_eq [of "m - 2" 8] div_mult_mod_eq [of "n - 2" 8] by linarith
  with True show ?thesis
    by (auto simp: Acked_bit Ack_def nth_list_update bit_simps split: if_splits)
next
  case False
  then show ?thesis by (auto simp: Acked_bit Ack_def)
qed

lemma Acked_replicate [simp]: "\<not> Acked (replicate k 0) n"
  by (auto simp: Acked_bit)

section \<open>Parsing a packet\<close>

text \<open>
  Errors of the C++ code that have no defined result: reading behind the end of a packet or a
  list, writing in front of a buffer, and taking the front of an empty list.
\<close>

datatype utp_error = Overread | Underrun | EmptyList

text \<open>
  The loop over the extensions. \<^verbatim>\<open>ptr[0]\<close> and \<^verbatim>\<open>ptr[1]\<close> are read for every extension. The result
  is None when the parser refuses the packet, and otherwise the data offset and the selective
  acknowledgement found last.
\<close>

function parse_extensions ::
  "byte list \<Rightarrow> nat \<Rightarrow> byte \<Rightarrow> byte list option \<Rightarrow> utp_error + (nat \<times> byte list option) option" where
  "parse_extensions pkt off ext_id sack =
     (if off < length pkt \<and> ext_id \<noteq> 0 then
        if off + 1 < length pkt then
          let len = unat (pkt ! (off + 1)) in
          if ext_id = SELECTIVE_ACK_ID \<and> off + 2 + len > length pkt then Inr None
          else parse_extensions pkt (off + 2 + len) (pkt ! off)
                 (if ext_id = SELECTIVE_ACK_ID then Some (sliced pkt (off + 2) len) else sack)
        else Inl Overread
      else Inr (Some (off, sack)))"
  by auto
termination by (relation "measure (\<lambda>(pkt, off, _). length pkt - off)") auto

declare parse_extensions.simps [simp del]

record parsed_packet =
  p_header :: utp_header
  p_sack :: "byte list option"
  p_data_off :: nat
  p_data_size :: u32

text \<open>The constructor reads the header before \<^verbatim>\<open>parse\<close> checks that there is one.\<close>

definition utp_parse :: "byte list \<Rightarrow> utp_error + parsed_packet option" where
  "utp_parse pkt =
     (if length pkt < Header_size then Inl Overread
      else let hdr = header_read pkt in
        rbind (parse_extensions pkt Header_size (extension hdr) None) (\<lambda>r. Inr (case r of
          None \<Rightarrow> None
        | Some (off, sack) \<Rightarrow> Some \<lparr>p_header = hdr, p_sack = sack, p_data_off = off,
            p_data_size = of_nat (length pkt) - of_nat off\<rparr>)))"

section \<open>Building a packet\<close>

text \<open>
  \<^verbatim>\<open>PacketBuffer\<close>: a block of 1500 bytes, with pointers into it as offsets (None is the null
  pointer). The payload is at the end of the block, headers are put in front of it.
\<close>

definition MAX_SIZE :: nat where "MAX_SIZE = 1500"

record packet_buffer =
  pb_mem :: "byte list"
  pb_header :: "nat option"
  pb_extension :: "nat option"
  pb_payload :: "nat option"
  pb_size :: nat

text \<open>The memory comes from a pool and holds what was there before.\<close>

definition PacketBuffer_new :: "byte list \<Rightarrow> packet_buffer" where
  "PacketBuffer_new mem = \<lparr>pb_mem = mem, pb_header = None, pb_extension = None, pb_payload = None, pb_size = 0\<rparr>"

definition payloadSize :: "packet_buffer \<Rightarrow> nat" where
  "payloadSize pb = (case pb_payload pb of Some p \<Rightarrow> MAX_SIZE - p | None \<Rightarrow> 0)"

definition headRoom :: "packet_buffer \<Rightarrow> nat" where
  "headRoom pb = (case pb_payload pb of Some p \<Rightarrow> p | None \<Rightarrow> MAX_SIZE)"

text \<open>The bytes handed to the socket, \<^verbatim>\<open>data()\<close> and \<^verbatim>\<open>bufferSize()\<close>.\<close>

definition pb_data :: "packet_buffer \<Rightarrow> byte list" where
  "pb_data pb = (case pb_header pb of None \<Rightarrow> [] | Some h \<Rightarrow> sliced (pb_mem pb) h (pb_size pb))"

text \<open>The guard subtracts the length of the extension from that of the header, in \<^verbatim>\<open>Uint32\<close>
  arithmetic. A header that would start in front of the block is \<open>Underrun\<close>.\<close>

definition setHeader :: "utp_header \<Rightarrow> nat \<Rightarrow> packet_buffer \<Rightarrow> utp_error + bool \<times> packet_buffer" where
  "setHeader hdr extension_length pb =
     (if unat (of_nat Header_size - of_nat extension_length :: u32) > headRoom pb then Inr (False, pb)
      else case pb_payload pb of
        Some p \<Rightarrow>
          if p < Header_size + extension_length then Inl Underrun
          else let h = p - Header_size - extension_length
               in Inr (True, pb\<lparr>pb_mem := header_write h hdr (pb_mem pb), pb_header := Some h,
                     pb_extension := Some (h + Header_size), pb_size := MAX_SIZE - h\<rparr>)
      | None \<Rightarrow> Inr (True, pb\<lparr>pb_mem := header_write 0 hdr (pb_mem pb), pb_header := Some 0,
                     pb_extension := Some Header_size, pb_size := Header_size + extension_length\<rparr>))"

definition fillData :: "circbuf \<Rightarrow> nat \<Rightarrow> packet_buffer \<Rightarrow> nat \<times> circbuf \<times> packet_buffer" where
  "fillData cbuf to_read pb =
     (let to_read = (if to_read > MAX_SIZE - Header_size then MAX_SIZE - Header_size else to_read);
          p = MAX_SIZE - to_read;
          (bytes, cbuf) = cb_read to_read cbuf
      in (to_read, cbuf, pb\<lparr>pb_mem := splice_at p bytes (pb_mem pb), pb_payload := Some p, pb_size := to_read,
           pb_header := Some p, pb_extension := Some p\<rparr>))"

definition fillData_bytes :: "byte list \<Rightarrow> packet_buffer \<Rightarrow> nat \<times> packet_buffer" where
  "fillData_bytes dat pb =
     (let n = (if length dat > MAX_SIZE then MAX_SIZE else length dat);
          p = MAX_SIZE - n
      in (n, pb\<lparr>pb_mem := splice_at p (take n dat) (pb_mem pb), pb_payload := Some p,
           pb_header := Some p, pb_extension := Some p, pb_size := n\<rparr>))"

text \<open>The selective acknowledgement the connection writes into the extension: a zero (no
  further extension), the length of the mask, and the mask.\<close>

definition put_extension :: "byte list \<Rightarrow> packet_buffer \<Rightarrow> packet_buffer" where
  "put_extension bitmask pb =
     (case pb_extension pb of None \<Rightarrow> pb
      | Some e \<Rightarrow> pb\<lparr>pb_mem := splice_at e (0 # of_nat (length bitmask) # bitmask) (pb_mem pb)\<rparr>)"

definition pb_wf :: "packet_buffer \<Rightarrow> bool" where
  "pb_wf pb \<longleftrightarrow> length (pb_mem pb) = MAX_SIZE \<and>
     (case pb_payload pb of None \<Rightarrow> True | Some p \<Rightarrow> p \<le> MAX_SIZE)"

definition pb_payload_bytes :: "packet_buffer \<Rightarrow> byte list" where
  "pb_payload_bytes pb = (case pb_payload pb of None \<Rightarrow> [] | Some p \<Rightarrow> drop p (pb_mem pb))"

lemma fillData_payload:
  assumes "pb_wf pb" and "cb_inv cbuf" and "n \<le> length (cb_content cbuf)" and "n \<le> 1480"
    and "fillData cbuf n pb = (k, cbuf', pb')"
  shows "k = n \<and> pb_wf pb' \<and> pb_payload pb' = Some (1500 - n) \<and> pb_payload_bytes pb' = take n (cb_content cbuf) \<and>
    cb_inv cbuf' \<and> cb_content cbuf' = drop n (cb_content cbuf)"
proof -
  have "cb_read n cbuf = (take n (cb_content cbuf), snd (cb_read n cbuf))"
    using cb.rd_out [OF assms(2), of n] by (metis prod.collapse)
  then have out: "cbuf' = snd (cb_read n cbuf)" "k = n" "pb' = pb\<lparr>pb_mem := splice_at (1500 - n) (take n (cb_content cbuf)) (pb_mem pb),
      pb_payload := Some (1500 - n), pb_size := n, pb_header := Some (1500 - n), pb_extension := Some (1500 - n)\<rparr>"
    using assms(4,5) by (auto simp: fillData_def MAX_SIZE_def Header_size_def Let_def split: prod.splits)
  show ?thesis
    using assms cb.rd_inv cb.rd_content
    by (simp add: out pb_wf_def pb_payload_bytes_def MAX_SIZE_def splice_at_def)
qed

lemma setHeader_guard:
  "e \<le> 20 \<Longrightarrow> unat (of_nat Header_size - of_nat e :: u32) = 20 - e"
proof -
  assume "e \<le> 20"
  then have "(of_nat Header_size - of_nat e :: u32) = of_nat (20 - e)" by (simp add: Header_size_def)
  then show ?thesis by (simp add: unat_of_nat)
qed

lemma setHeader_payload:
  assumes "pb_wf pb" and "pb_payload pb = Some p" and "20 + e \<le> p" and "e \<le> 20"
  obtains pb' where "setHeader hdr e pb = Inr (True, pb')" and "pb_wf pb'" and "pb_payload pb' = Some p"
    and "pb_extension pb' = Some (p - e)" and "pb_header pb' = Some (p - 20 - e)" and "pb_size pb' = 1520 + e - p"
    and "pb_mem pb' = splice_at (p - 20 - e) (header_bytes hdr) (pb_mem pb)"
proof -
  have "p \<le> 1500" "length (pb_mem pb) = 1500" using assms(1,2) by (simp_all add: pb_wf_def MAX_SIZE_def)
  moreover have "\<not> headRoom pb < unat (of_nat Header_size - of_nat e :: u32)"
    using assms(2-4) by (simp add: setHeader_guard headRoom_def)
  ultimately show thesis
    using assms(2-4)
    by (intro that [of "pb\<lparr>pb_mem := splice_at (p - 20 - e) (header_bytes hdr) (pb_mem pb),
          pb_header := Some (p - 20 - e), pb_extension := Some (p - e), pb_size := 1520 + e - p\<rparr>"])
      (simp_all add: setHeader_def pb_wf_def MAX_SIZE_def header_write_bytes Header_size_def Let_def)
qed

section \<open>Extensions and round trips\<close>

text \<open>The extensions of a packet as they are encoded: each begins with the id of the next.\<close>

definition first_id :: "(byte \<times> byte list) list \<Rightarrow> byte" where
  "first_id es = (case es of [] \<Rightarrow> 0 | (i, _) # _ \<Rightarrow> i)"

fun encode_extensions :: "(byte \<times> byte list) list \<Rightarrow> byte list" where
  "encode_extensions [] = []"
| "encode_extensions ((i, body) # es) = first_id es # of_nat (length body) # body @ encode_extensions es"

definition last_sack :: "(byte \<times> byte list) list \<Rightarrow> byte list option \<Rightarrow> byte list option" where
  "last_sack es sack = fold (\<lambda>(i, body) s. if i = SELECTIVE_ACK_ID then Some body else s) es sack"

lemma parse_extensions_encoded:
  assumes "\<forall>(i, body) \<in> set es. i \<noteq> 0 \<and> length body < 256"
  shows "parse_extensions (pre @ encode_extensions es @ payload) (length pre) (first_id es) sack =
    Inr (Some (length (pre @ encode_extensions es), last_sack es sack))"
  using assms
proof (induction es arbitrary: pre sack)
  case Nil
  then show ?case by (simp add: parse_extensions.simps first_id_def last_sack_def)
next
  case (Cons e es)
  obtain i body where e: "e = (i, body)" by (cases e)
  let ?pre = "pre @ [first_id es, of_nat (length body)] @ body"
  let ?pkt = "pre @ encode_extensions (e # es) @ payload"
  have pkt: "?pkt = ?pre @ encode_extensions es @ payload" by (simp add: e)
  have len: "unat (of_nat (length body) :: byte) = length body"
    using Cons.prems by (simp add: e unat_of_nat)
  have body: "sliced ?pkt (length pre + 2) (length body) = body"
    by (simp add: e sliced_def)
  have "parse_extensions ?pkt (length pre) i sack =
      parse_extensions ?pkt (length ?pre) (first_id es) (if i = SELECTIVE_ACK_ID then Some body else sack)"
    using Cons.prems body by (subst parse_extensions.simps) (auto simp: e nth_append len Let_def add.assoc)
  also have "\<dots> = Inr (Some (length (?pre @ encode_extensions es),
      last_sack es (if i = SELECTIVE_ACK_ID then Some body else sack)))"
    unfolding pkt using Cons.prems by (intro Cons.IH) auto
  finally show ?case by (simp add: e first_id_def last_sack_def)
qed

text \<open>The bytes of a finished packet: with a mask, it is the extension in front of the payload.\<close>

definition mask_extension :: "byte list option \<Rightarrow> (byte \<times> byte list) list" where
  "mask_extension sk = (case sk of None \<Rightarrow> [] | Some bm \<Rightarrow> [(SELECTIVE_ACK_ID, bm)])"

definition mask_length :: "byte list option \<Rightarrow> nat" where
  "mask_length sk = (case sk of None \<Rightarrow> 0 | Some bm \<Rightarrow> 2 + length bm)"

definition finish_packet :: "utp_header \<Rightarrow> byte list option \<Rightarrow> packet_buffer \<Rightarrow> utp_error + bool \<times> packet_buffer" where
  "finish_packet hdr sk pb =
     rbind (setHeader hdr (mask_length sk) pb) (\<lambda>(b, pb).
       Inr (b, case sk of None \<Rightarrow> pb | Some bm \<Rightarrow> put_extension bm pb))"

lemma length_encode_mask [simp]: "length (encode_extensions (mask_extension sk)) = mask_length sk"
  by (cases sk) (simp_all add: mask_extension_def mask_length_def)

lemma drop_splice_at [simp]:
  "a \<le> length buf \<Longrightarrow> drop a (splice_at a xs buf) = xs @ drop (a + length xs) buf"
  by (simp add: splice_at_def)

lemma drop_splice_at_after:
  "a + length xs \<le> n \<Longrightarrow> a \<le> length buf \<Longrightarrow> drop n (splice_at a xs buf) = drop n buf"
  by (simp add: splice_at_def drop_Cons')

lemma finish_packet_bytes:
  assumes "pb_wf pb" and "pb_payload pb = Some p" and "20 + mask_length sk \<le> p" and "mask_length sk \<le> 20"
  obtains pb' where "finish_packet hdr sk pb = Inr (True, pb')" and "pb_wf pb'" and "pb_payload pb' = Some p"
    and "pb_payload_bytes pb' = pb_payload_bytes pb"
    and "pb_data pb' = header_bytes hdr @ encode_extensions (mask_extension sk) @ pb_payload_bytes pb"
proof -
  let ?e = "mask_length sk"
  obtain pb1 where pb1: "setHeader hdr ?e pb = Inr (True, pb1)" "pb_wf pb1" "pb_payload pb1 = Some p"
    "pb_extension pb1 = Some (p - ?e)" "pb_header pb1 = Some (p - 20 - ?e)" "pb_size pb1 = 1520 + ?e - p"
    "pb_mem pb1 = splice_at (p - 20 - ?e) (header_bytes hdr) (pb_mem pb)"
    using setHeader_payload [OF assms] by metis
  have mem: "length (pb_mem pb) = 1500" "p \<le> 1500" using assms(1,2) by (simp_all add: pb_wf_def MAX_SIZE_def)
  let ?mem = "splice_at (p - 20 - ?e) (header_bytes hdr @ encode_extensions (mask_extension sk)) (pb_mem pb)"
  let ?pb = "pb1\<lparr>pb_mem := ?mem\<rparr>"
  have fin: "finish_packet hdr sk pb = Inr (True, ?pb)"
  proof (cases sk)
    case None
    then have "?mem = pb_mem pb1" using pb1(7) by (simp add: mask_extension_def)
    then have "?pb = pb1" by simp
    with None pb1(1) show ?thesis by (simp add: finish_packet_def)
  next
    case (Some bm)
    have "splice_at (p - ?e) (0 # of_nat (length bm) # bm) (splice_at (p - 20 - ?e) (header_bytes hdr) (pb_mem pb)) = ?mem"
      using assms(3) mem by (subst splice_at_chain) (auto simp: Some mask_extension_def mask_length_def first_id_def)
    with Some pb1(1,4,7) show ?thesis by (simp add: finish_packet_def put_extension_def)
  qed
  have drp: "drop p ?mem = drop p (pb_mem pb)"
    using assms(3) mem by (intro drop_splice_at_after) auto
  have "drop (p - 20 - ?e) ?mem = header_bytes hdr @ encode_extensions (mask_extension sk) @ drop p (pb_mem pb)"
    using assms(3) mem by (subst drop_splice_at) auto
  with pb1 mem drp assms show thesis
    by (intro that [OF fin]) (auto simp: pb_wf_def pb_data_def sliced_def pb_payload_bytes_def MAX_SIZE_def)
qed

lemma parse_encoded:
  assumes "\<forall>(i, body) \<in> set es. i \<noteq> 0 \<and> length body < 256" and "extension h = first_id es"
    and "pkt = header_bytes h @ encode_extensions es @ payload"
  shows "\<exists>p. utp_parse pkt = Inr (Some p) \<and> p_header p = h \<and> p_sack p = last_sack es None \<and>
    drop (p_data_off p) pkt = payload \<and> p_data_size p = of_nat (length payload)"
proof -
  have "header_read pkt = h" by (simp add: assms(3) header_read_bytes)
  moreover have "parse_extensions pkt 20 (first_id es) None =
      Inr (Some (20 + length (encode_extensions es), last_sack es None))"
    using parse_extensions_encoded [OF assms(1), of "header_bytes h"] by (simp add: assms(3))
  ultimately show ?thesis
    using assms(2) by (simp add: utp_parse_def Header_size_def Let_def) (simp add: assms(3))
qed

text \<open>A state packet that announces an extension other than the selective acknowledgement.\<close>

definition cut_header :: utp_header where
  "cut_header = \<lparr>version = 1, pkt_type = ST_STATE, extension = 3, connection_id = 7, timestamp_microseconds = 1,
     timestamp_difference_microseconds = 2, hdr_wnd_size = 3, seq_nr = 4, ack_nr = 5\<rparr>"

section \<open>Properties\<close>

text \<open>A packet that consists of a header, any sequence of extensions and a payload is parsed
  back into that header, the body of its last selective acknowledgement, and an offset at
  which exactly the payload begins.\<close>

theorem utp_parse_encoded:
  assumes "\<forall>(i, body) \<in> set es. i \<noteq> 0 \<and> length body < 256" and "extension h = first_id es"
    and "pkt = header_bytes h @ encode_extensions es @ payload"
  shows "\<exists>p. utp_parse pkt = Inr (Some p) \<and> p_header p = h \<and> p_sack p = last_sack es None \<and>
    drop (p_data_off p) pkt = payload \<and> p_data_size p = of_nat (length payload)"
  using assms by (rule parse_encoded)

theorem utp_parse_encoded_witness:
  "\<exists>p. utp_parse ([0x21, 2, 0, 7, 0, 0, 0, 1, 0, 0, 0, 2, 0, 0, 0, 3, 0, 4, 0, 5, 1, 1, 9, 0, 1, 255, 65, 66]) = Inr (Some p) \<and>
     p_sack p = Some [255] \<and> p_data_size p = 2"
proof -
  let ?h = "\<lparr>version = 1, pkt_type = 2, extension = 2, connection_id = 7, timestamp_microseconds = 1,
    timestamp_difference_microseconds = 2, hdr_wnd_size = 3, seq_nr = 4, ack_nr = 5\<rparr>"
  have pkt: "[0x21, 2, 0, 7, 0, 0, 0, 1, 0, 0, 0, 2, 0, 0, 0, 3, 0, 4, 0, 5, 1, 1, 9, 0, 1, 255, 65, 66] =
      header_bytes ?h @ encode_extensions [(2, [9]), (SELECTIVE_ACK_ID, [255])] @ [65, 66]"
    by code_simp
  have es: "\<forall>(i, body) \<in> set [(2, [9]), (SELECTIVE_ACK_ID, [255])]. i \<noteq> 0 \<and> length body < 256"
    by code_simp
  have "last_sack [(2, [9]), (SELECTIVE_ACK_ID, [255])] None = Some [255]" by code_simp
  then show ?thesis
    using utp_parse_encoded [OF es _ pkt] by (auto simp: first_id_def)
qed

text \<open>A data packet built from the output buffer - payload, header and optional selective
  acknowledgement - is sent as bytes that the receiving side parses back into the same header,
  the same acknowledgement mask and the next bytes of the buffer.\<close>

theorem utp_packet_roundtrip:
  assumes "pb_wf pb" and "cb_inv cbuf" and "n \<le> length (cb_content cbuf)" and "n + mask_length sk \<le> 1480"
    and "mask_length sk \<le> 20" and "extension hdr = first_id (mask_extension sk)"
    and "fillData cbuf n pb = (k, cbuf', pb')"
  shows "\<exists>pb'' p. finish_packet hdr sk pb' = Inr (True, pb'') \<and> utp_parse (pb_data pb'') = Inr (Some p) \<and>
    p_header p = hdr \<and> p_sack p = sk \<and> drop (p_data_off p) (pb_data pb'') = take n (cb_content cbuf) \<and>
    cb_content cbuf' = drop n (cb_content cbuf)"
proof -
  have fill: "pb_wf pb'" "pb_payload pb' = Some (1500 - n)" "pb_payload_bytes pb' = take n (cb_content cbuf)"
      "cb_content cbuf' = drop n (cb_content cbuf)"
    using fillData_payload [OF assms(1-3) _ assms(7)] assms(4) by simp_all
  moreover have "20 + mask_length sk \<le> 1500 - n" using assms(4) by simp
  ultimately obtain pb'' where pb'': "finish_packet hdr sk pb' = Inr (True, pb'')"
      "pb_data pb'' = header_bytes hdr @ encode_extensions (mask_extension sk) @ take n (cb_content cbuf)"
    using finish_packet_bytes [of pb' "1500 - n" sk hdr] assms(5) by metis
  have "\<forall>(i, body) \<in> set (mask_extension sk). i \<noteq> 0 \<and> length body < 256"
    using assms(5) by (cases sk) (auto simp: mask_extension_def mask_length_def SELECTIVE_ACK_ID_def)
  moreover have "last_sack (mask_extension sk) None = sk"
    by (cases sk) (simp_all add: mask_extension_def last_sack_def)
  ultimately show ?thesis
    using parse_encoded [OF _ assms(6) pb''(2)] pb''(1) fill(4) by auto
qed

theorem utp_packet_roundtrip_witness:
  "\<exists>pb'' p. finish_packet (cut_header\<lparr>extension := 1\<rparr>) (Some [7])
       (snd (snd (fillData (snd (cb_write [65, 66] (CircularBuffer_new [0, 0, 0] 3))) 2
          (PacketBuffer_new (replicate 1500 0))))) = Inr (True, pb'') \<and>
     utp_parse (pb_data pb'') = Inr (Some p) \<and> p_sack p = Some [7] \<and>
     drop (p_data_off p) (pb_data pb'') = [65, 66]"
proof -
  let ?cb = "snd (cb_write [65, 66] (CircularBuffer_new [0, 0, 0] 3))" and ?pb = "PacketBuffer_new (replicate 1500 0)"
  have new: "cb_inv (CircularBuffer_new [0, 0, 0] 3)" by (rule cb_new_inv) simp_all
  have inv: "cb_inv ?cb" by (rule cb.wr_inv [OF new])
  have con: "cb_content ?cb = [65, 66]"
    using cb.wr_content [OF new, of "[65, 66]"] cb.wr_count [OF new, of "[65, 66]"]
    by simp
  have pb: "pb_wf ?pb" by (simp add: pb_wf_def PacketBuffer_new_def MAX_SIZE_def)
  show ?thesis
    using utp_packet_roundtrip [OF pb inv, of 2 "Some [7]" "cut_header\<lparr>extension := 1\<rparr>"
        "fst (fillData ?cb 2 ?pb)" "fst (snd (fillData ?cb 2 ?pb))" "snd (snd (fillData ?cb 2 ?pb))"]
    by (auto simp: con mask_length_def mask_extension_def first_id_def SELECTIVE_ACK_ID_def)
qed

text \<open>Malformed packets that get past the parser: an unknown extension that claims more bytes
  than there are is accepted, with a data size that has wrapped around; and an extension
  header cut off after its first byte makes the parser read behind the packet, as a packet
  shorter than a header does.\<close>

theorem utp_parse_malformed:
  "map_sum id (map_option p_data_size) (utp_parse (header_bytes cut_header @ [0, 10])) = Inr (Some (- 10)) \<and>
   utp_parse (header_bytes cut_header @ [0]) = Inl Overread \<and> utp_parse [0x21, 3] = Inl Overread"
  by code_simp

text \<open>The guard of \<^verbatim>\<open>setHeader\<close> does not protect the block: it subtracts the length of the
  extension where it should add it, so for a payload that leaves less room than header and
  extension need, but at least their difference, the header is written in front of the block.\<close>

theorem setHeader_underrun:
  assumes "pb_payload pb = Some p" and "e \<le> 20"
  shows "setHeader hdr e pb = Inl Underrun \<longleftrightarrow> 20 - e \<le> p \<and> p < 20 + e"
proof -
  have "setHeader hdr e pb = Inl Underrun \<longleftrightarrow>
      \<not> p < unat (of_nat Header_size - of_nat e :: u32) \<and> p < Header_size + e"
    using assms(1) by (auto simp: setHeader_def headRoom_def Let_def)
  then show ?thesis unfolding setHeader_guard [OF assms(2)] by (auto simp: Header_size_def)
qed

theorem setHeader_underrun_witness:
  "setHeader cut_header 6 (snd (fillData_bytes (replicate 1480 0) (PacketBuffer_new (replicate 1500 0)))) = Inl Underrun"
  by (subst setHeader_underrun [of _ 20]) (simp_all add: fillData_bytes_def PacketBuffer_new_def MAX_SIZE_def)

end
