(* ===== verification/LocalWindow.thy ===== *)
theory LocalWindow
  imports UtpProtocol
begin

text \<open>
  The receive window of a uTP connection, \<^verbatim>\<open>src/src/utp/localwindow.cpp\<close>: packets arrive in any
  order, more than once or not at all, and their payload is handed to the reader in sequence.
  Sequence numbers are 16 bits wide and wrap around.
\<close>

section \<open>State and operations\<close>

record window_packet =
  wp_seq :: u16
  wp_packet :: "byte list option"
  wp_read :: nat

definition WindowPacket_empty :: "u16 \<Rightarrow> window_packet" where
  "WindowPacket_empty s = \<lparr>wp_seq = s, wp_packet = None, wp_read = 0\<rparr>"

definition WindowPacket_full :: "u16 \<Rightarrow> byte list \<Rightarrow> nat \<Rightarrow> window_packet" where
  "WindowPacket_full s pkt data_off = \<lparr>wp_seq = s, wp_packet = Some pkt, wp_read = data_off\<rparr>"

record local_window =
  last_seq_nr :: u16
  first_seq_nr :: u16
  lw_capacity :: nat
  incoming_packets :: "window_packet list"
  window_space :: nat
  bytes_available :: nat

definition LocalWindow_new :: "nat \<Rightarrow> local_window" where
  "LocalWindow_new cap = \<lparr>last_seq_nr = 0, first_seq_nr = 0, lw_capacity = cap, incoming_packets = [],
     window_space = cap, bytes_available = 0\<rparr>"

definition setLastSeqNr :: "u16 \<Rightarrow> local_window \<Rightarrow> local_window" where
  "setLastSeqNr lsn lw = lw\<lparr>last_seq_nr := lsn, first_seq_nr := lsn\<rparr>"

definition lw_isEmpty :: "local_window \<Rightarrow> bool" where
  "lw_isEmpty lw \<longleftrightarrow> incoming_packets lw = []"

definition lw_isReadable :: "local_window \<Rightarrow> bool" where
  "lw_isReadable lw \<longleftrightarrow> bytes_available lw > 0"

text \<open>
  The loop of \<^verbatim>\<open>LocalWindow::read\<close>, on the packets from the first unread one on, with \<open>room\<close> bytes
  left in the reader's buffer: the bytes copied, the number of packets that were read to their
  end and dropped, and the packets afterwards.
\<close>

fun read_packets :: "u16 \<Rightarrow> nat \<Rightarrow> window_packet list \<Rightarrow> byte list \<times> nat \<times> window_packet list" where
  "read_packets lst room [] = ([], 0, [])"
| "read_packets lst room (p # ps) =
     (case wp_packet p of
        None \<Rightarrow> ([], 0, p # ps)
      | Some buf \<Rightarrow>
          if SeqNrCmpSE (wp_seq p) lst \<and> 0 < room then
            let n = min (length buf - wp_read p) room;
                bytes = sliced buf (wp_read p) n
            in if wp_read p + n = length buf then
                 let (bs, k, ps') = read_packets lst (room - n) ps
                 in (bytes @ bs, Suc k, p\<lparr>wp_packet := None, wp_read := wp_read p + n\<rparr> # ps')
               else (bytes, 0, p\<lparr>wp_read := wp_read p + n\<rparr> # ps)
          else ([], 0, p # ps))"

definition lw_read :: "nat \<Rightarrow> local_window \<Rightarrow> utp_error + byte list \<times> local_window" where
  "lw_read max_len lw =
     (if incoming_packets lw = [] then Inl EmptyList
      else
        let off = unat (SeqNrDiff (wp_seq (hd (incoming_packets lw))) (first_seq_nr lw));
            (bytes, k, ps) = read_packets (last_seq_nr lw) max_len (drop off (incoming_packets lw));
            lw = lw\<lparr>incoming_packets := take off (incoming_packets lw) @ ps,
                    window_space := window_space lw + length bytes,
                    bytes_available := bytes_available lw - length bytes,
                    first_seq_nr := first_seq_nr lw + of_nat k\<rparr>;
            off = unat (SeqNrDiff (wp_seq (hd (incoming_packets lw))) (first_seq_nr lw))
        in Inr (bytes, if off > 20 then lw\<lparr>incoming_packets := drop off (incoming_packets lw)\<rparr> else lw))"

text \<open>The empty entries from sequence number \<open>i\<close> up to but not including \<open>s\<close>.\<close>

function placeholders :: "u16 \<Rightarrow> u16 \<Rightarrow> window_packet list" where
  "placeholders i s = (if SeqNrCmpS i s then WindowPacket_empty i # placeholders (i + 1) s else [])"
  by auto
termination
proof (relation "measure (\<lambda>(i, s). unat (s - i))")
  fix i s assume "SeqNrCmpS i s"
  then have "0 < uint (s - i)" by (simp add: SeqNrCmpS_forward)
  then have "s - i \<noteq> 0" by (metis less_irrefl unsigned_0)
  then have "unat (s - i - 1) < unat (s - i)" by (simp add: measure_unat)
  then show "((i + 1, s), (i, s)) \<in> measure (\<lambda>(i, s). unat (s - i))" by (simp add: diff_diff_eq)
qed simp

declare placeholders.simps [simp del]

text \<open>The loop that makes packets behind the received one available.\<close>

fun advance :: "window_packet list \<Rightarrow> nat \<Rightarrow> u16 \<Rightarrow> nat \<times> u16" where
  "advance [] avail lst = (avail, lst)"
| "advance (p # ps) avail lst =
     (case wp_packet p of
        None \<Rightarrow> (avail, lst)
      | Some buf \<Rightarrow> advance ps (avail + (length buf - wp_read p)) (lst + 1))"

definition lw_settle :: "u16 \<Rightarrow> nat \<Rightarrow> local_window \<Rightarrow> local_window" where
  "lw_settle s data_size lw =
     (let lw = (if s = last_seq_nr lw + 1 then
          let off = unat (SeqNrDiff (wp_seq (hd (incoming_packets lw))) (s + 1));
              (avail, lst) = advance (drop off (incoming_packets lw)) (bytes_available lw + data_size) s
          in lw\<lparr>bytes_available := avail, last_seq_nr := lst\<rparr>
        else lw)
      in lw\<lparr>window_space := window_space lw - data_size\<rparr>)"

definition lw_packetReceived :: "u16 \<Rightarrow> byte list \<Rightarrow> nat \<Rightarrow> local_window \<Rightarrow> utp_error + bool \<times> local_window" where
  "lw_packetReceived s pkt data_off lw =
     (if SeqNrCmpSE s (last_seq_nr lw) then Inr (True, lw)
      else
        let data_size = unat (of_nat (length pkt) - of_nat data_off :: u32);
            ps = incoming_packets lw;
            off = unat (SeqNrDiff (wp_seq (hd ps)) s)
        in if window_space lw < data_size then Inr (False, lw)
        else if ps = [] then
          Inr (True, lw_settle s data_size (lw\<lparr>first_seq_nr := last_seq_nr lw + 1,
            incoming_packets := placeholders (last_seq_nr lw + 1) s @ [WindowPacket_full s pkt data_off]\<rparr>))
        else if SeqNrCmpS (wp_seq (last ps)) s then
          Inr (True, lw_settle s data_size (lw\<lparr>incoming_packets :=
            ps @ placeholders (wp_seq (last ps) + 1) s @ [WindowPacket_full s pkt data_off]\<rparr>))
        else if off \<ge> length ps then Inl Overread
        else if wp_packet (ps ! off) \<noteq> None then Inr (True, lw)
        else Inr (True, lw_settle s data_size (lw\<lparr>incoming_packets :=
            ps[off := (ps ! off)\<lparr>wp_packet := Some pkt, wp_read := data_off\<rparr>]\<rparr>)))"

definition selectiveAckBits :: "local_window \<Rightarrow> nat" where
  "selectiveAckBits lw =
     (if incoming_packets lw \<noteq> [] \<and> SeqNrCmpS (last_seq_nr lw) (wp_seq (last (incoming_packets lw)))
      then unat (SeqNrDiff (last_seq_nr lw) (wp_seq (last (incoming_packets lw)))) - 1 else 0)"

text \<open>
  \<^verbatim>\<open>std::upper_bound\<close> on the packets, which are in sequence: the entries from the first one that
  is behind the sequence number on.
\<close>

definition fillSelectiveAck :: "local_window \<Rightarrow> nat \<Rightarrow> byte list" where
  "fillSelectiveAck lw len =
     fold (\<lambda>p bitmask. if wp_packet p \<noteq> None then Ack (unat (SeqNrDiff (last_seq_nr lw) (wp_seq p))) bitmask else bitmask)
       (dropWhile (\<lambda>p. \<not> SeqNrCmpS (last_seq_nr lw + 1) (wp_seq p)) (incoming_packets lw))
       (replicate len 0)"

section \<open>Helper lemmas on the loops\<close>

definition rest :: "window_packet \<Rightarrow> byte list" where
  "rest p = (case wp_packet p of None \<Rightarrow> [] | Some buf \<Rightarrow> drop (wp_read p) buf)"

definition filled :: "window_packet \<Rightarrow> bool" where
  "filled p \<longleftrightarrow> wp_packet p \<noteq> None"

definition wp_ok :: "window_packet \<Rightarrow> bool" where
  "wp_ok p \<longleftrightarrow> (case wp_packet p of None \<Rightarrow> True | Some buf \<Rightarrow> wp_read p \<le> length buf)"

lemma rest_empty [simp]: "\<not> filled p \<Longrightarrow> rest p = []"
  by (simp add: rest_def filled_def)

lemma filledE:
  assumes "filled p"
  obtains buf where "wp_packet p = Some buf"
  using assms by (auto simp: filled_def)

lemma filled_simps [simp]:
  "filled (WindowPacket_full s pkt off)" "\<not> filled (WindowPacket_empty s)"
  "rest (WindowPacket_full s pkt off) = drop off pkt"
  "wp_ok (WindowPacket_full s pkt off) \<longleftrightarrow> off \<le> length pkt" "wp_ok (WindowPacket_empty s)"
  "wp_seq (WindowPacket_full s pkt off) = s" "wp_seq (WindowPacket_empty s) = s"
  by (simp_all add: filled_def WindowPacket_full_def WindowPacket_empty_def rest_def wp_ok_def)

lemma placeholders_seq:
  assumes "j < i + 32768" and "i \<le> j"
  shows "placeholders (base + of_nat i) (base + of_nat j) = map (\<lambda>k. WindowPacket_empty (base + of_nat k)) [i..<j]"
  using assms
proof (induction "j - i" arbitrary: i)
  case 0
  then show ?case by (subst placeholders.simps) (simp add: seq_order)
next
  case (Suc d)
  then have "placeholders (base + of_nat (Suc i)) (base + of_nat j) =
      map (\<lambda>k. WindowPacket_empty (base + of_nat k)) [Suc i..<j]"
    by (intro Suc.hyps(1)) auto
  moreover have "base + of_nat i + 1 = base + of_nat (Suc i)" by (simp add: ac_simps)
  moreover have "[i..<j] = i # [Suc i..<j]" using Suc.hyps(2) by (simp add: upt_conv_Cons)
  moreover have "SeqNrCmpS (base + of_nat i) (base + of_nat j)" using Suc by (simp add: seq_order)
  ultimately show ?case by (subst placeholders.simps) (simp add: ac_simps)
qed

lemma advance_takeWhile:
  "\<forall>p \<in> set ps. wp_ok p \<Longrightarrow>
   advance ps avail lst = (avail + length (concat (map rest (takeWhile filled ps))),
     lst + of_nat (length (takeWhile filled ps)))"
proof (induction ps avail lst rule: advance.induct)
  case (2 p ps avail lst)
  then show ?case
    by (cases "wp_packet p") (simp_all add: filled_def rest_def wp_ok_def ac_simps)
qed simp

lemma read_packets_spec:
  assumes "\<forall>p \<in> set B. filled p \<and> wp_ok p \<and> SeqNrCmpSE (wp_seq p) lst" and "C = [] \<or> \<not> filled (hd C)"
  obtains k B' where "read_packets lst room (B @ C) = (take room (concat (map rest B)), k, B' @ C)"
    and "k \<le> length B" and "map wp_seq B' = map wp_seq B" and "\<forall>p \<in> set (take k B'). \<not> filled p"
    and "\<forall>p \<in> set (drop k B'). filled p \<and> wp_ok p"
    and "concat (map rest (drop k B')) = drop room (concat (map rest B))"
  using assms(1)
proof (induction B arbitrary: room thesis)
  case Nil
  have "read_packets lst room C = ([], 0, C)"
    using assms(2) by (cases C) (auto simp: filled_def split: option.splits)
  then show ?case by (intro Nil.prems(1) [of 0 "[]"]) simp_all
next
  case (Cons p B)
  obtain buf where buf: "wp_packet p = Some buf" using Cons.prems by (auto elim: filledE)
  have ok: "wp_read p \<le> length buf" "SeqNrCmpSE (wp_seq p) lst" "filled p" "wp_ok p"
    using Cons.prems(2) by (auto simp: wp_ok_def buf)
  have rp: "rest p = drop (wp_read p) buf" by (simp add: rest_def buf)
  consider "room = 0" | "0 < room" "room < length (rest p)" | "0 < room" "length (rest p) \<le> room" by linarith
  then show ?case
  proof cases
    case 1
    then show ?thesis using Cons.prems(2) buf by (intro Cons.prems(1) [of 0 "p # B"]) simp_all
  next
    case 2
    let ?p = "p\<lparr>wp_read := wp_read p + room\<rparr>"
    have "read_packets lst room ((p # B) @ C) = (take room (rest p), 0, ?p # B @ C)"
      using 2 ok buf by (auto simp: rp sliced_def min_def Let_def)
    moreover have "rest ?p = drop room (rest p)" "filled ?p" "wp_ok ?p"
      using 2 ok by (simp_all add: rest_def buf filled_def wp_ok_def rp add.commute)
    ultimately show ?thesis using 2 Cons.prems(2) by (intro Cons.prems(1) [of 0 "?p # B"]) simp_all
  next
    case 3
    let ?p = "p\<lparr>wp_packet := None, wp_read := length buf\<rparr>"
    obtain k B' where IH: "read_packets lst (room - length (rest p)) (B @ C) =
          (take (room - length (rest p)) (concat (map rest B)), k, B' @ C)"
        "k \<le> length B" "map wp_seq B' = map wp_seq B" "\<forall>p \<in> set (take k B'). \<not> filled p"
        "\<forall>p \<in> set (drop k B'). filled p \<and> wp_ok p"
        "concat (map rest (drop k B')) = drop (room - length (rest p)) (concat (map rest B))"
      using Cons.IH [of "room - length (rest p)"] Cons.prems(2) by auto
    have "min (length buf - wp_read p) room = length (rest p)" "wp_read p + length (rest p) = length buf"
      "sliced buf (wp_read p) (length (rest p)) = rest p"
      using 3 ok by (simp_all add: rp sliced_def)
    then have "read_packets lst room ((p # B) @ C) =
        (rest p @ take (room - length (rest p)) (concat (map rest B)), Suc k, ?p # B' @ C)"
      using 3 ok buf IH(1) by simp
    then show ?thesis using 3 IH by (intro Cons.prems(1) [of "Suc k" "?p # B'"]) (simp_all add: filled_def)
  qed
qed

section \<open>The window as a byte stream\<close>

text \<open>
  The packets of the sender are numbered from one on; packet \<open>k\<close> has sequence number
  \<open>isn + k\<close> and payload \<open>P k\<close>. The list of the window consists of packets that were read (\<open>A\<close>),
  packets that can be read (\<open>B\<close>, up to packet \<open>n\<close>), and packets behind a gap (\<open>C\<close>).
\<close>

definition seq_from :: "u16 \<Rightarrow> nat \<Rightarrow> window_packet list \<Rightarrow> bool" where
  "seq_from isn f ps \<longleftrightarrow> map wp_seq ps = map (\<lambda>k. isn + of_nat k) [f..<f + length ps]"

definition buffered :: "window_packet list \<Rightarrow> nat" where
  "buffered ps = length (concat (map rest ps))"

definition lw_inv ::
  "u16 \<Rightarrow> (nat \<Rightarrow> byte list) \<Rightarrow> byte list \<Rightarrow> nat \<Rightarrow> nat \<Rightarrow>
   window_packet list \<Rightarrow> window_packet list \<Rightarrow> window_packet list \<Rightarrow> local_window \<Rightarrow> bool" where
  "lw_inv isn P out f n A B C lw \<longleftrightarrow>
     incoming_packets lw = A @ B @ C \<and> last_seq_nr lw = isn + of_nat n \<and>
     seq_from isn f (A @ B @ C) \<and> f + length A + length B = n + 1 \<and>
     (incoming_packets lw \<noteq> [] \<longrightarrow> first_seq_nr lw = isn + of_nat (f + length A)) \<and>
     length (incoming_packets lw) < 32768 \<and>
     (\<forall>p \<in> set A. \<not> filled p) \<and> (\<forall>p \<in> set B. filled p) \<and> (C = [] \<or> \<not> filled (hd C)) \<and>
     (\<forall>p \<in> set (B @ C). wp_ok p) \<and>
     (\<forall>i < length C. filled (C ! i) \<longrightarrow> rest (C ! i) = P (n + 1 + i)) \<and>
     out @ concat (map rest B) = concat (map P [1..<n + 1]) \<and>
     bytes_available lw = buffered B \<and>
     window_space lw + buffered (B @ C) = lw_capacity lw"

lemma buffered_simps [simp]:
  "buffered [] = 0" "buffered (p # ps) = length (rest p) + buffered ps" "buffered (ps @ qs) = buffered ps + buffered qs"
  by (simp_all add: buffered_def)

lemma seq_from_nth: "seq_from isn f ps \<Longrightarrow> i < length ps \<Longrightarrow> wp_seq (ps ! i) = isn + of_nat (f + i)"
  unfolding seq_from_def by (drule arg_cong [where f = "\<lambda>xs. xs ! i"]) simp

lemma seq_from_append [simp]:
  "seq_from isn f (ps @ qs) \<longleftrightarrow> seq_from isn f ps \<and> seq_from isn (f + length ps) qs"
proof -
  have "[f..<f + (length ps + length qs)] = [f..<f + length ps] @ [f + length ps..<f + length ps + length qs]"
    using upt_add_eq_append [of f "f + length ps" "length qs"] by (simp add: add.assoc)
  then show ?thesis by (simp add: seq_from_def)
qed

lemma seq_from_Nil [simp]: "seq_from isn f []"
  by (simp add: seq_from_def)

lemma seq_from_single [simp]: "seq_from isn f [p] \<longleftrightarrow> wp_seq p = isn + of_nat f"
  by (simp add: seq_from_def)

lemma seq_from_cong: "map wp_seq ps = map wp_seq qs \<Longrightarrow> seq_from isn f ps \<longleftrightarrow> seq_from isn f qs"
  by (metis length_map seq_from_def)

lemma lw_inv_list:
  assumes "lw_inv isn P out f n A B C lw"
  shows "incoming_packets lw = A @ B @ C" and "length (incoming_packets lw) < 32768"
    and "seq_from isn f (incoming_packets lw)" and "f + length A + length B = n + 1"
    and "last_seq_nr lw = isn + of_nat n"
proof -
  note inv = assms [unfolded lw_inv_def]
  show "incoming_packets lw = A @ B @ C" "length (incoming_packets lw) < 32768" "f + length A + length B = n + 1"
    "last_seq_nr lw = isn + of_nat n" using inv by blast+
  show "seq_from isn f (incoming_packets lw)" using inv by metis
qed

text \<open>A read hands out the next bytes of the stream, as many as fit.\<close>

lemma lw_read_inv:
  assumes inv: "lw_inv isn P out f n A B C lw" and ne: "incoming_packets lw \<noteq> []"
  obtains lw' f' A' B' where "lw_read mx lw = Inr (take mx (concat (map rest B)), lw')"
    and "lw_inv isn P (out @ take mx (concat (map rest B))) f' n A' B' C lw'"
proof -
  let ?ps = "incoming_packets lw" and ?bytes = "take mx (concat (map rest B))"
  have ps: "?ps = A @ B @ C" and len: "length ?ps < 32768" and seq: "seq_from isn f ?ps"
    and n: "f + length A + length B = n + 1" and last: "last_seq_nr lw = isn + of_nat n"
    using lw_inv_list [OF inv] by simp_all
  have first: "first_seq_nr lw = isn + of_nat (f + length A)"
    using inv ne unfolding lw_inv_def by blast
  have hd: "wp_seq (hd ?ps) = isn + of_nat f"
    using seq_from_nth [OF seq, of 0] ne by (simp add: hd_conv_nth)
  have off: "unat (SeqNrDiff (isn + of_nat f) (isn + of_nat (f + j))) = j" if "j \<le> length ?ps" for j
    using seq_order(3) [of "f + j" f isn] that len by simp
  have "SeqNrCmpSE (wp_seq p) (isn + of_nat n)" if pB: "p \<in> set B" for p
  proof -
    obtain i where i: "i < length B" "p = B ! i" using pB by (metis in_set_conv_nth)
    then have "p = ?ps ! (length A + i)" by (simp add: ps nth_append)
    then have "wp_seq p = isn + of_nat (f + (length A + i))"
      using seq_from_nth [OF seq, of "length A + i"] i ps by simp
    moreover have "f + (length A + i) \<le> n" "n < f + (length A + i) + 32768" using i n len by (auto simp: ps)
    ultimately show ?thesis using seq_order(1) [of n "f + (length A + i)" isn] by simp
  qed
  then have B: "\<forall>p \<in> set B. filled p \<and> wp_ok p \<and> SeqNrCmpSE (wp_seq p) (isn + of_nat n)"
    using inv by (auto simp: lw_inv_def)
  have C: "C = [] \<or> \<not> filled (hd C)" using inv by (simp add: lw_inv_def)
  obtain k B' where rp: "read_packets (isn + of_nat n) mx (B @ C) = (?bytes, k, B' @ C)"
      "k \<le> length B" "map wp_seq B' = map wp_seq B" "\<forall>p \<in> set (take k B'). \<not> filled p"
      "\<forall>p \<in> set (drop k B'). filled p \<and> wp_ok p"
      "concat (map rest (drop k B')) = drop mx (concat (map rest B))"
    using read_packets_spec [OF B C] by metis
  have lB: "length B' = length B" using rp(3) by (metis length_map)
  let ?lw = "lw\<lparr>incoming_packets := A @ B' @ C, window_space := window_space lw + length ?bytes,
      bytes_available := bytes_available lw - length ?bytes, first_seq_nr := isn + of_nat (f + (length A + k))\<rparr>"
  have hd': "wp_seq (hd (A @ B' @ C)) = isn + of_nat f"
  proof -
    have "map wp_seq (A @ B' @ C) = map wp_seq ?ps" using rp(3) by (simp add: ps)
    then show ?thesis using hd ne by (metis list.map_disc_iff list.map_sel(1))
  qed
  have read: "lw_read mx lw = Inr (?bytes,
      if length A + k > 20 then ?lw\<lparr>incoming_packets := drop (length A + k) (A @ B' @ C)\<rparr> else ?lw)"
  proof -
    have "unat (SeqNrDiff (wp_seq (hd (A @ B @ C))) (first_seq_nr lw)) = length A"
      using off [of "length A"] hd first by (simp add: ps)
    moreover have "first_seq_nr lw + of_nat k = isn + of_nat (f + (length A + k))" by (simp add: first)
    moreover have "unat (SeqNrDiff (wp_seq (hd (A @ B' @ C))) (isn + of_nat (f + (length A + k)))) = length A + k"
      using off [of "length A + k"] rp(2) unfolding hd' by (simp add: ps)
    ultimately show ?thesis
      using ne rp(1) by (simp add: lw_read_def last ps Let_def del: of_nat_add)
  qed
  have cut: "out @ ?bytes @ concat (map rest (drop k B')) = concat (map P [1..<n + 1])"
    using inv by (simp add: rp(6) lw_inv_def)
  have sum: "length ?bytes + buffered (drop k B') = buffered B"
    unfolding buffered_def rp(6) by simp
  have inv': "lw_inv isn P (out @ ?bytes) f n (A @ take k B') (drop k B') C ?lw"
  proof -
    note i = inv [unfolded lw_inv_def]
    have A: "\<forall>p \<in> set A. \<not> filled p" and okC: "\<forall>p \<in> set C. wp_ok p"
      and PC: "\<forall>i < length C. filled (C ! i) \<longrightarrow> rest (C ! i) = P (n + 1 + i)"
      and avail: "bytes_available lw = buffered B" and space: "window_space lw + buffered (B @ C) = lw_capacity lw"
      using i by auto
    have "map wp_seq ?ps = map wp_seq (A @ B' @ C)" using rp(3) by (simp add: ps)
    then have seq': "seq_from isn f (A @ B' @ C)" using seq seq_from_cong by blast
    have tk: "(A @ take k B') @ drop k B' @ C = A @ B' @ C" by simp
    show ?thesis
      unfolding lw_inv_def tk
    proof (intro conjI)
      show "\<forall>p \<in> set (A @ take k B'). \<not> filled p" using A rp(4) by auto
      show "\<forall>p \<in> set (drop k B' @ C). wp_ok p" using okC rp(5) by auto
      show "\<forall>p \<in> set (drop k B'). filled p" using rp(5) by blast
      show "window_space ?lw + buffered (drop k B' @ C) = lw_capacity ?lw" using space sum by simp
      show "bytes_available ?lw = buffered (drop k B')" using avail sum by simp
    qed (use seq' n C PC cut last len lB rp(2) in \<open>simp_all add: ps\<close>)
  qed
  show thesis
  proof (cases "length A + k > 20")
    case False
    then show ?thesis using that [OF _ inv'] read by simp
  next
    case True
    have "lw_inv isn P (out @ ?bytes) (f + (length A + k)) n [] (drop k B') C
        (?lw\<lparr>incoming_packets := drop (length A + k) (A @ B' @ C)\<rparr>)"
      using inv' rp(2) lB n by (simp add: lw_inv_def add.assoc) linarith
    then show ?thesis using that read True by simp
  qed
qed

text \<open>The last part of \<^verbatim>\<open>packetReceived\<close> moves the filled packets behind the readable ones.\<close>

lemma seq_succ_iff:
  assumes "n < k" and "k < n + 32768"
  shows "(isn + of_nat k :: u16) = isn + of_nat n + 1 \<longleftrightarrow> k = n + 1"
proof
  assume "(isn + of_nat k :: u16) = isn + of_nat n + 1"
  then have "uint (of_nat k - of_nat n :: u16) = uint (1 :: u16)" by (simp add: algebra_simps)
  then show "k = n + 1" using uint_seq_sub [of k n] assms by simp
qed (simp add: ac_simps)

lemma concat_upto:
  assumes "\<forall>i < length xs. rest (xs ! i) = P (n + 1 + i)"
  shows "concat (map rest xs) = concat (map P [n + 1..<n + 1 + length xs])"
proof -
  have "map rest xs = map P [n + 1..<n + 1 + length xs]"
    by (rule nth_equalityI) (use assms in \<open>simp_all del: upt_Suc\<close>)
  then show ?thesis by simp
qed

lemma lw_settle_inv:
  fixes n k :: nat and isn :: u16
  defines "s \<equiv> isn + of_nat k"
  assumes lw: "incoming_packets lw = A @ B @ C" "last_seq_nr lw = isn + of_nat n"
      "first_seq_nr lw = isn + of_nat (f + length A)"
    and seq: "seq_from isn f (A @ B @ C)" "f + length A + length B = n + 1" "length (A @ B @ C) < 32767"
    and AB: "\<forall>p \<in> set A. \<not> filled p" "\<forall>p \<in> set B. filled p" "\<forall>p \<in> set (B @ C). wp_ok p"
    and C: "C \<noteq> []" "filled (hd C) \<longleftrightarrow> k = n + 1" "k = n + 1 \<Longrightarrow> length (rest (hd C)) = sz"
      "\<forall>i < length C. filled (C ! i) \<longrightarrow> rest (C ! i) = P (n + 1 + i)"
    and k: "n < k" "k < n + 32768"
    and out: "out @ concat (map rest B) = concat (map P [1..<n + 1])"
    and counts: "bytes_available lw = buffered B" "sz \<le> window_space lw"
      "window_space lw + buffered B + buffered C = lw_capacity lw + sz"
  shows "lw_inv isn P out f (n + length (takeWhile filled C)) A (B @ takeWhile filled C) (dropWhile filled C)
    (lw_settle s sz lw)"
proof -
  let ?W = "takeWhile filled C" and ?D = "dropWhile filled C"
  let ?lw = "lw\<lparr>bytes_available := buffered B + buffered ?W, last_seq_nr := isn + of_nat (n + length ?W),
      window_space := window_space lw - sz\<rparr>"
  have settle: "lw_settle s sz lw = ?lw"
  proof (cases "k = n + 1")
    case False
    then have "?W = []" using C(1,2) by (cases C) auto
    moreover have "s \<noteq> last_seq_nr lw + 1" using False k seq_succ_iff by (simp add: s_def lw(2))
    ultimately show ?thesis using counts lw(2) by (simp add: lw_settle_def)
  next
    case True
    obtain p C' where c: "C = p # C'" using C(1) by (cases C) auto
    have hd: "wp_seq (hd (A @ B @ C)) = isn + of_nat f"
      using seq_from_nth [OF seq(1), of 0] C(1) by (simp add: hd_conv_nth)
    have "unat (SeqNrDiff (isn + of_nat f) (isn + of_nat (f + (length A + length B + 1)))) = length A + length B + 1"
      using seq_order(3) [of "f + (length A + length B + 1)" f isn] seq(3) by simp
    moreover have "s + 1 = isn + of_nat (f + (length A + length B + 1))"
    proof -
      have "f + (length A + length B + 1) = k + 1" using seq(2) True by simp
      then show ?thesis by (simp only: s_def of_nat_add of_nat_1 add.assoc)
    qed
    ultimately have "unat (SeqNrDiff (wp_seq (hd (A @ B @ C))) (s + 1)) = length A + length B + 1"
      by (simp only: hd)
    moreover have "advance C' (buffered B + sz) s = (buffered B + buffered ?W, isn + of_nat (n + length ?W))"
      using AB(3) C(2,3) True by (subst advance_takeWhile) (auto simp: c buffered_def s_def)
    moreover have "s = last_seq_nr lw + 1" using True by (simp add: s_def lw(2))
    ultimately show ?thesis using lw(1) counts(1) by (simp add: lw_settle_def Let_def c)
  qed
  have W: "rest (?W ! i) = P (n + 1 + i)" if "i < length ?W" for i
  proof -
    have "i < length C" using that length_takeWhile_le order_less_le_trans by blast
    moreover have "?W ! i = C ! i" using that by (rule takeWhile_nth)
    moreover have "filled (?W ! i)" using set_takeWhileD [OF nth_mem [OF that]] by (rule conjunct2)
    ultimately show ?thesis using C(4) by simp
  qed
  have D: "rest (?D ! i) = P (n + length ?W + 1 + i)" if "i < length ?D" "filled (?D ! i)" for i
  proof -
    have "?D ! i = C ! (i + length ?W)" using that(1) by (rule dropWhile_nth)
    moreover have "length ?W + length ?D = length C"
      by (metis length_append takeWhile_dropWhile_id)
    ultimately have "?D ! i = C ! (i + length ?W)" "i + length ?W < length C" using that(1) by simp_all
    then show ?thesis using C(4) that(2) by (simp add: ac_simps)
  qed
  have WD: "?W @ ?D = C" by simp
  have sumC: "buffered ?W + buffered ?D = buffered C" using buffered_simps(3) [of ?W ?D] by simp
  have "out @ concat (map rest (B @ ?W)) = concat (map P [1..<n + 1]) @ concat (map P [n + 1..<n + 1 + length ?W])"
    using out concat_upto [of ?W P n] W by simp
  also have "\<dots> = concat (map P [1..<n + length ?W + 1])"
    using upt_add_eq_append [of 1 "n + 1" "length ?W"] by (simp flip: concat_append map_append)
  finally have out': "out @ concat (map rest (B @ ?W)) = concat (map P [1..<n + length ?W + 1])" .
  have list: "A @ (B @ ?W) @ ?D = A @ B @ C" by simp
  show ?thesis
    unfolding settle lw_inv_def list
  proof (intro conjI)
    show "?D = [] \<or> \<not> filled (hd ?D)" by (metis hd_dropWhile)
    show "\<forall>p \<in> set ((B @ ?W) @ ?D). wp_ok p" using AB(3) by (simp flip: set_append)
    show "\<forall>p \<in> set (B @ ?W). filled p" using AB(2) by (auto dest: set_takeWhileD)
    show "\<forall>i < length ?D. filled (?D ! i) \<longrightarrow> rest (?D ! i) = P (n + length ?W + 1 + i)" using D by blast
    show "window_space ?lw + buffered ((B @ ?W) @ ?D) = lw_capacity ?lw" using counts(2,3) sumC by simp
  qed (use lw seq AB out' in \<open>simp_all\<close>)
qed

text \<open>
  The packets behind the readable ones once packet \<open>k\<close> is entered: an empty entry is replaced, or
  the list is extended.
\<close>

definition put_entry :: "u16 \<Rightarrow> nat \<Rightarrow> nat \<Rightarrow> byte list \<Rightarrow> nat \<Rightarrow> window_packet list \<Rightarrow> window_packet list" where
  "put_entry isn n k pkt off C =
     (if k - (n + 1) < length C then C[k - (n + 1) := (C ! (k - (n + 1)))\<lparr>wp_packet := Some pkt, wp_read := off\<rparr>]
      else C @ map (\<lambda>j. WindowPacket_empty (isn + of_nat j)) [n + 1 + length C..<k] @
        [WindowPacket_full (isn + of_nat k) pkt off])"

lemma seq_from_placeholders:
  "a \<le> b \<Longrightarrow> seq_from isn a (map (\<lambda>j. WindowPacket_empty (isn + of_nat j)) [a..<b])"
  by (simp add: seq_from_def comp_def)

lemma buffered_placeholders [simp]: "buffered (map (\<lambda>j. WindowPacket_empty (g j)) js) = 0"
  by (induction js) simp_all

lemma buffered_update:
  assumes "i < length C" and "\<not> filled (C ! i)"
  shows "buffered (C[i := p]) = buffered C + length (rest p)"
proof -
  have "buffered C = buffered (take i C) + buffered (drop (Suc i) C)"
    using arg_cong [OF id_take_nth_drop [OF assms(1)], of buffered] assms(2) by simp
  then show ?thesis by (simp add: upd_conv_take_nth_drop [OF assms(1)])
qed

lemma put_entry_props:
  assumes C: "seq_from isn (n + 1) C" "C = [] \<or> \<not> filled (hd C)" "\<forall>p \<in> set C. wp_ok p"
      "\<forall>i < length C. filled (C ! i) \<longrightarrow> rest (C ! i) = P (n + 1 + i)"
    and k: "n < k" "\<not> (k - (n + 1) < length C \<and> filled (C ! (k - (n + 1))))"
    and pkt: "drop off pkt = P k" "off \<le> length pkt"
    and C': "C' = put_entry isn n k pkt off C"
  shows "C' \<noteq> [] \<and> seq_from isn (n + 1) C' \<and> (filled (hd C') \<longleftrightarrow> k = n + 1) \<and>
      (k = n + 1 \<longrightarrow> length (rest (hd C')) = length (P k)) \<and> (\<forall>p \<in> set C'. wp_ok p) \<and>
      (\<forall>i < length C'. filled (C' ! i) \<longrightarrow> rest (C' ! i) = P (n + 1 + i)) \<and>
      buffered C' = buffered C + length (P k) \<and> length C' = max (length C) (k - n)"
proof (cases "k - (n + 1) < length C")
  case True
  let ?i = "k - (n + 1)"
  let ?p = "(C ! ?i)\<lparr>wp_packet := Some pkt, wp_read := off\<rparr>"
  have p: "filled ?p" "rest ?p = P k" "wp_ok ?p" "wp_seq ?p = wp_seq (C ! ?i)"
    using pkt by (simp_all add: filled_def rest_def wp_ok_def)
  have eq: "C' = C[?i := ?p]" using True by (simp add: put_entry_def C')
  have "seq_from isn (n + 1) C'"
    using C(1) p(4) seq_from_cong [of C' C] True by (simp add: eq map_update list_update_same_conv)
  moreover have "hd C' = (if k = n + 1 then ?p else hd C)"
    using True k(1) unfolding eq by (cases C) (auto split: nat.splits)
  moreover have "\<forall>q \<in> set C'. wp_ok q"
    using C(3) p(3) set_update_subset_insert unfolding eq by fastforce
  moreover have "\<forall>j < length C'. filled (C' ! j) \<longrightarrow> rest (C' ! j) = P (n + 1 + j)"
  proof (intro allI impI)
    fix j assume "j < length C'" "filled (C' ! j)"
    then show "rest (C' ! j) = P (n + 1 + j)"
      using C(4) p(2) k(1) by (cases "j = ?i") (simp_all add: eq)
  qed
  moreover have "buffered C' = buffered C + length (P k)"
    using buffered_update [of ?i C ?p] True k(2) p(2) by (simp add: eq)
  moreover have "length C' = max (length C) (k - n)" "C' \<noteq> []" using True k(1) by (auto simp: eq)
  ultimately show ?thesis using C(2) p(1,2) True by auto
next
  case False
  let ?E = "map (\<lambda>j. WindowPacket_empty (isn + of_nat j)) [n + 1 + length C..<k]"
  let ?p = "WindowPacket_full (isn + of_nat k) pkt off"
  have eq: "C' = C @ ?E @ [?p]" using False by (simp add: put_entry_def C')
  have len: "n + 1 + length C \<le> k" using False k(1) by simp
  have "seq_from isn (n + 1) C'"
    using C(1) seq_from_placeholders [OF len, of isn] len by (simp add: eq)
  moreover have "filled (hd C') \<longleftrightarrow> k = n + 1" "k = n + 1 \<Longrightarrow> hd C' = ?p"
    using C(2) len by (cases C; cases "k = n + 1"; auto simp: eq upt_conv_Cons)+
  moreover have "\<forall>q \<in> set C'. wp_ok q" using C(3) pkt(2) by (auto simp: eq)
  moreover have "\<forall>j < length C'. filled (C' ! j) \<longrightarrow> rest (C' ! j) = P (n + 1 + j)"
    using C(4) len pkt(1) by (auto simp: eq nth_append less_Suc_eq)
  moreover have "buffered C' = buffered C + length (P k)" by (simp add: eq flip: pkt(1))
  moreover have "length C' = max (length C) (k - n)" "C' \<noteq> []" using len by (auto simp: eq)
  ultimately show ?thesis using pkt(1) by auto
qed

lemma lw_packetReceived_later:
  assumes inv: "lw_inv isn P out f n A B C lw" and k: "n < k" "k + length (incoming_packets lw) < n + 32766"
    and room: "unat (of_nat (length pkt) - of_nat off :: u32) = sz" "sz \<le> window_space lw"
    and lw': "lw' = lw\<lparr>first_seq_nr := isn + of_nat (f + length A),
      incoming_packets := A @ B @ put_entry isn n k pkt off C\<rparr>"
  shows "lw_packetReceived (isn + of_nat k) pkt off lw =
        (if k - (n + 1) < length C \<and> filled (C ! (k - (n + 1))) then Inr (True, lw)
         else Inr (True, lw_settle (isn + of_nat k) sz lw'))"
proof -
  let ?s = "isn + of_nat k" and ?ps = "incoming_packets lw" and ?i = "k - (n + 1)"
  note list = lw_inv_list [OF inv]
  have later: "\<not> SeqNrCmpSE ?s (last_seq_nr lw)" using seq_order(1) [of n k isn] k by (simp add: list(5))
  have small: "\<not> window_space lw < sz" using room(2) by simp
  show ?thesis
  proof (cases "?ps = []")
    case True
    then have e: "A = []" "B = []" "C = []" "f = n + 1" using list(1,4) by simp_all
    have "placeholders (last_seq_nr lw + 1) ?s = map (\<lambda>j. WindowPacket_empty (isn + of_nat j)) [n + 1..<k]"
      using placeholders_seq [of k "n + 1" isn] k by (simp add: list(5) ac_simps)
    then show ?thesis
      using later small True e room(1) by (simp add: lw_packetReceived_def Let_def lw' put_entry_def list(5) ac_simps)
  next
    case False
    have first: "first_seq_nr lw = isn + of_nat (f + length A)" using inv False unfolding lw_inv_def by blast
    have len: "f + length ?ps = n + 1 + length C" using list(1,4) by simp
    have "wp_seq (last ?ps) = isn + of_nat (f + (length ?ps - 1))"
      using seq_from_nth [OF list(3), of "length ?ps - 1"] False by (simp add: last_conv_nth)
    moreover have "f + (length ?ps - 1) = n + length C" using len False by (cases ?ps) auto
    ultimately have last: "wp_seq (last ?ps) = isn + of_nat (n + length C)" by (simp del: of_nat_add)
    have beyond: "SeqNrCmpS (wp_seq (last ?ps)) ?s \<longleftrightarrow> n + length C < k"
      unfolding last using len k list(2) by (intro seq_order(2)) (auto simp: list(1))
    have eq: "lw' = lw\<lparr>incoming_packets := A @ B @ put_entry isn n k pkt off C\<rparr>"
      unfolding lw' first [symmetric] by simp
    show ?thesis
    proof (cases "?i < length C")
      case False
      then have "n + length C < k" using k(1) by simp
      moreover have "placeholders (wp_seq (last ?ps) + 1) ?s =
          map (\<lambda>j. WindowPacket_empty (isn + of_nat j)) [n + 1 + length C..<k]"
        using placeholders_seq [of k "n + 1 + length C" isn] calculation k by (simp add: last ac_simps)
      ultimately show ?thesis
        using later small \<open>?ps \<noteq> []\<close> False room(1) beyond
        by (auto simp: lw_packetReceived_def Let_def eq put_entry_def list(1))
    next
      case True
      then have "\<not> n + length C < k" using k(1) by simp
      moreover have "unat (SeqNrDiff (wp_seq (hd ?ps)) ?s) = length A + length B + ?i"
      proof -
        have "wp_seq (hd ?ps) = isn + of_nat f"
          using seq_from_nth [OF list(3), of 0] False by (simp add: hd_conv_nth)
        moreover have "k - f = length A + length B + ?i" "f \<le> k" "k < f + 32768"
          using k list(4) True by (auto simp: list(1))
        ultimately show ?thesis using seq_order(3) [of k f isn] by simp
      qed
      moreover have "?ps ! (length A + length B + ?i) = C ! ?i" "length A + length B + ?i < length ?ps"
        using True by (simp_all add: list(1) nth_append)
      moreover have "?ps[length A + length B + ?i := x] = A @ B @ C[?i := x]" for x
        by (simp add: list(1) list_update_append)
      ultimately show ?thesis
        using later small \<open>?ps \<noteq> []\<close> True room(1) beyond
        by (simp add: lw_packetReceived_def Let_def eq put_entry_def filled_def)
    qed
  qed
qed

lemma lw_receive_inv:
  assumes inv: "lw_inv isn P out f n A B C lw"
    and k: "n < k + 32768" "k + length (incoming_packets lw) < n + 32766"
    and pkt: "off \<le> length pkt" "length pkt < 2 ^ 32" "drop off pkt = P k"
  obtains ok lw' f' n' A' B' C' where "lw_packetReceived (isn + of_nat k) pkt off lw = Inr (ok, lw')"
    and "lw_inv isn P out f' n' A' B' C' lw'" and "n \<le> n'" and "n' < n + 32768" and "ok \<longrightarrow> k = n + 1 \<longrightarrow> n < n'"
    and "\<not> ok \<longrightarrow> window_space lw < length (P k)"
proof -
  let ?s = "isn + of_nat k" and ?ps = "incoming_packets lw"
  let ?sz = "unat (of_nat (length pkt) - of_nat off :: u32)"
  note list = lw_inv_list [OF inv]
  have sz: "?sz = length (P k)"
  proof -
    have "(of_nat (length pkt) - of_nat off :: u32) = of_nat (length (P k))" using pkt(1) by (simp flip: pkt(3))
    moreover have "length (P k) < 2 ^ 32" using pkt by (simp flip: pkt(3))
    ultimately show ?thesis by (simp add: unat_of_nat)
  qed
  have le: "SeqNrCmpSE ?s (last_seq_nr lw) \<longleftrightarrow> k \<le> n"
    using seq_order(1) [of n k isn] k by (simp add: list(5))
  show thesis
  proof (cases "k \<le> n \<or> window_space lw < length (P k)")
    case True
    show ?thesis
    proof (rule that [OF _ inv])
      show "lw_packetReceived ?s pkt off lw = Inr (k \<le> n, lw)"
        using True le sz by (auto simp: lw_packetReceived_def Let_def)
    qed (use True in auto)
  next
    case False
    then have kn: "n < k" and room: "length (P k) \<le> window_space lw" by auto
    let ?C = "put_entry isn n k pkt off C"
    let ?lw = "lw\<lparr>first_seq_nr := isn + of_nat (f + length A), incoming_packets := A @ B @ ?C\<rparr>"
    have result: "lw_packetReceived ?s pkt off lw =
        (if k - (n + 1) < length C \<and> filled (C ! (k - (n + 1))) then Inr (True, lw)
         else Inr (True, lw_settle ?s ?sz ?lw))"
      using lw_packetReceived_later [OF inv kn k(2) refl _ refl] sz room by simp
    show ?thesis
    proof (cases "k - (n + 1) < length C \<and> filled (C ! (k - (n + 1)))")
      case True
      then have "k \<noteq> n + 1" using inv unfolding lw_inv_def by (cases C) auto
      then show ?thesis using that [OF _ inv] result True by simp
    next
      case False
      note i = inv [unfolded lw_inv_def]
      have C: "seq_from isn (n + 1) C" "C = [] \<or> \<not> filled (hd C)" "\<forall>p \<in> set C. wp_ok p"
          "\<forall>i < length C. filled (C ! i) \<longrightarrow> rest (C ! i) = P (n + 1 + i)"
        using i by auto
      note put = put_entry_props [OF C kn False pkt(3,1) refl]
      have "length ?C = max (length C) (k - n)" using put by blast
      then have l: "length (A @ B @ ?C) < 32767" using k(2) kn by (simp add: list(1) max_def) linarith
      show ?thesis
      proof (rule that [of True])
        show "lw_packetReceived ?s pkt off lw = Inr (True, lw_settle ?s (length (P k)) ?lw)"
          using result unfolding if_not_P [OF False] sz .
        show "lw_inv isn P out f (n + length (takeWhile filled ?C)) A (B @ takeWhile filled ?C) (dropWhile filled ?C)
            (lw_settle ?s (length (P k)) ?lw)"
        proof (rule lw_settle_inv)
          show "seq_from isn f (A @ B @ ?C)" using put list(3,4) by (simp add: list(1))
          show "\<forall>p \<in> set (B @ ?C). wp_ok p" using put i by auto
          show "window_space ?lw + buffered B + buffered ?C = lw_capacity ?lw + length (P k)" using put i by simp
        qed (use put i l kn k room in auto)
        show "n + length (takeWhile filled ?C) < n + 32768"
          using l length_takeWhile_le [of filled ?C] by simp
        show "True \<longrightarrow> k = n + 1 \<longrightarrow> n < n + length (takeWhile filled ?C)"
          using put by (cases ?C) auto
      qed simp_all
    qed
  qed
qed

section \<open>Runs of the window\<close>

text \<open>
  The states of a window of capacity \<open>cap\<close> whose connection started with sequence number \<open>isn\<close>,
  together with the bytes read so far and the number \<open>n\<close> of packets received in sequence. A
  packet may arrive any number of times and in any order, with its number less than \<open>2 ^ 15\<close>
  away from the last one received in sequence, the length of the list being counted in. A
  packet the window has no space for closes the connection and is not a step.
\<close>

inductive lw_run :: "nat \<Rightarrow> u16 \<Rightarrow> (nat \<Rightarrow> byte list) \<Rightarrow> local_window \<Rightarrow> byte list \<Rightarrow> nat \<Rightarrow> bool"
  for cap :: nat and isn :: u16 and P :: "nat \<Rightarrow> byte list" where
  start: "lw_run cap isn P (setLastSeqNr isn (LocalWindow_new cap)) [] 0"
| receive: "lw_run cap isn P lw out n \<Longrightarrow> n < k + 32768 \<Longrightarrow> k + length (incoming_packets lw) < n + 32766 \<Longrightarrow>
    off \<le> length pkt \<Longrightarrow> length pkt < 2 ^ 32 \<Longrightarrow> drop off pkt = P k \<Longrightarrow>
    lw_packetReceived (isn + of_nat k) pkt off lw = Inr (True, lw') \<Longrightarrow>
    lw_run cap isn P lw' out (n + unat (last_seq_nr lw' - last_seq_nr lw))"
| read: "lw_run cap isn P lw out n \<Longrightarrow> lw_read mx lw = Inr (bs, lw') \<Longrightarrow> lw_run cap isn P lw' (out @ bs) n"

lemma lw_settle_capacity [simp]: "lw_capacity (lw_settle s sz lw) = lw_capacity lw"
  by (simp add: lw_settle_def Let_def split: prod.splits)

lemma lw_capacity_step:
  "lw_packetReceived s pkt off lw = Inr (ok, lw') \<Longrightarrow> lw_capacity lw' = lw_capacity lw"
  "lw_read mx lw = Inr (bs, lw') \<Longrightarrow> lw_capacity lw' = lw_capacity lw"
  by (auto simp: lw_packetReceived_def lw_read_def Let_def split: if_splits prod.splits)

lemma lw_run_inv:
  assumes "lw_run cap isn P lw out n"
  obtains f A B C where "lw_inv isn P out f n A B C lw" and "lw_capacity lw = cap"
proof -
  from assms have "\<exists>f A B C. lw_inv isn P out f n A B C lw \<and> lw_capacity lw = cap"
  proof induction
    case start
    have "lw_inv isn P [] 1 0 [] [] [] (setLastSeqNr isn (LocalWindow_new cap))"
      by (simp add: lw_inv_def setLastSeqNr_def LocalWindow_new_def)
    then show ?case by (auto simp: setLastSeqNr_def LocalWindow_new_def)
  next
    case (receive lw out n k off pkt lw')
    then obtain f A B C where inv: "lw_inv isn P out f n A B C lw" by blast
    from lw_receive_inv [OF inv receive.hyps(2-6)] receive.hyps(7)
    obtain f' n' A' B' C' where inv': "lw_inv isn P out f' n' A' B' C' lw'" "n \<le> n'" "n' < n + 32768"
      by (metis Inr_inject Pair_inject)
    have "unat (last_seq_nr lw' - last_seq_nr lw) = n' - n"
      using inv'(2,3) by (simp add: lw_inv_list(5) [OF inv] lw_inv_list(5) [OF inv'(1)] unat_of_nat flip: of_nat_diff)
    with inv' have "lw_inv isn P out f' (n + unat (last_seq_nr lw' - last_seq_nr lw)) A' B' C' lw'" by simp
    then show ?case using receive.IH lw_capacity_step(1) [OF receive.hyps(7)] by auto
  next
    case (read lw out n mx bs lw')
    then obtain f A B C where inv: "lw_inv isn P out f n A B C lw" by blast
    have "incoming_packets lw \<noteq> []" using read.hyps(2) by (auto simp: lw_read_def)
    from lw_read_inv [OF inv this, of mx] read.hyps(2) have "\<exists>f' A' B'. lw_inv isn P (out @ bs) f' n A' B' C lw'"
      by (metis Inr_inject Pair_inject)
    then show ?case using read.IH lw_capacity_step(2) [OF read.hyps(2)] by auto
  qed
  then show thesis using that by blast
qed

section \<open>Properties\<close>

text \<open>C4. Whatever order packets arrive in, and however often, across any number of wraps of the
  16-bit sequence numbers: the bytes read so far followed by the bytes that are announced as
  available are exactly the payloads of the packets received in sequence, and the next read
  returns the next of those bytes, as many as fit.\<close>

theorem local_window_stream:
  assumes "lw_run cap isn P lw out n"
  shows "\<exists>pending. out @ pending = concat (map P [1..<n + 1]) \<and> bytes_available lw = length pending \<and>
    last_seq_nr lw = isn + of_nat n \<and> window_space lw + bytes_available lw \<le> cap \<and>
    (incoming_packets lw \<noteq> [] \<longrightarrow> (\<exists>lw'. lw_read mx lw = Inr (take mx pending, lw')))"
proof -
  obtain f A B C where inv: "lw_inv isn P out f n A B C lw" "lw_capacity lw = cap"
    using lw_run_inv [OF assms] .
  note i = inv [unfolded lw_inv_def]
  have "incoming_packets lw \<noteq> [] \<Longrightarrow> \<exists>lw'. lw_read mx lw = Inr (take mx (concat (map rest B)), lw')"
    using lw_read_inv [OF inv(1), of mx] by metis
  then show ?thesis
    using i by (intro exI [of _ "concat (map rest B)"]) (auto simp: buffered_def)
qed

text \<open>A run in which packets two and one arrive in this order, around the wrap of the sequence
  numbers.\<close>

definition sample_payload :: "nat \<Rightarrow> byte list" where
  "sample_payload k = [of_nat k, of_nat k]"

definition sample_window :: local_window where
  "sample_window = \<lparr>last_seq_nr = 1, first_seq_nr = 0, lw_capacity = 100,
     incoming_packets = [WindowPacket_full 0 [1, 1] 0, WindowPacket_full 1 [2, 2] 0],
     window_space = 96, bytes_available = 4\<rparr>"

lemma wrap16: "(65536 :: u16) = 0" "(65537 :: u16) = 1" "(65538 :: u16) = 2"
  by simp_all

lemma sample_run: "lw_run 100 65535 sample_payload sample_window [] 2"
proof -
  let ?w0 = "setLastSeqNr 65535 (LocalWindow_new 100)"
  let ?w2 = "\<lparr>last_seq_nr = 65535, first_seq_nr = 0, lw_capacity = 100,
     incoming_packets = [WindowPacket_empty 0, WindowPacket_full 1 [2, 2] 0], window_space = 98, bytes_available = 0\<rparr>"
  have ph: "placeholders 0 1 = [WindowPacket_empty 0]"
    by (simp add: placeholders.simps [of 0 1] placeholders.simps [of 1 1] SeqNrCmpS_def)
  have r2: "lw_packetReceived (65535 + of_nat 2) [2, 2] 0 ?w0 = Inr (True, ?w2)"
    by (simp add: lw_packetReceived_def setLastSeqNr_def LocalWindow_new_def SeqNrCmpSE_def SeqNrCmpS_def ph
        lw_settle_def Let_def wrap16)
  have r1: "lw_packetReceived (65535 + of_nat 1) [1, 1] 0 ?w2 = Inr (True, sample_window)"
    by (simp add: lw_packetReceived_def SeqNrCmpSE_def SeqNrCmpS_def SeqNrDiff_def lw_settle_def Let_def
        WindowPacket_empty_def WindowPacket_full_def sample_window_def wrap16)
  have "lw_run 100 65535 sample_payload ?w2 [] (0 + unat (last_seq_nr ?w2 - last_seq_nr ?w0))"
    by (rule lw_run.receive [OF lw_run.start _ _ _ _ _ r2]) (simp_all add: sample_payload_def setLastSeqNr_def LocalWindow_new_def)
  then have w2: "lw_run 100 65535 sample_payload ?w2 [] 0" by (simp add: setLastSeqNr_def)
  have "lw_run 100 65535 sample_payload sample_window [] (0 + unat (last_seq_nr sample_window - last_seq_nr ?w2))"
    by (rule lw_run.receive [OF w2 _ _ _ _ _ r1]) (simp_all add: sample_payload_def)
  then show ?thesis by (simp add: sample_window_def flip: numeral_2_eq_2)
qed

theorem local_window_stream_witness:
  "\<exists>lw'. lw_read 3 sample_window = Inr ([1, 1, 2], lw')"
  using local_window_stream [OF sample_run, of 3]
  by (auto simp: sample_window_def sample_payload_def upt_rec)

text \<open>C30. A packet within the window is never lost or misplaced: it is refused only when its
  payload does not fit the free space, and the packet that comes next in sequence always
  advances the stream.\<close>

theorem local_window_progress:
  assumes "lw_run cap isn P lw out n" and "n < k + 32768" and "k + length (incoming_packets lw) < n + 32766"
    and "off \<le> length pkt" and "length pkt < 2 ^ 32" and "drop off pkt = P k"
  shows "\<exists>ok lw'. lw_packetReceived (isn + of_nat k) pkt off lw = Inr (ok, lw') \<and>
    (\<not> ok \<longrightarrow> window_space lw < length (P k)) \<and> (ok \<and> k = n + 1 \<longrightarrow> last_seq_nr lw' \<noteq> last_seq_nr lw)"
proof -
  obtain f A B C where inv: "lw_inv isn P out f n A B C lw" using lw_run_inv [OF assms(1)] .
  obtain ok lw' f' n' A' B' C' where r: "lw_packetReceived (isn + of_nat k) pkt off lw = Inr (ok, lw')"
      "lw_inv isn P out f' n' A' B' C' lw'" "n \<le> n'" "n' < n + 32768" "ok \<longrightarrow> k = n + 1 \<longrightarrow> n < n'"
      "\<not> ok \<longrightarrow> window_space lw < length (P k)"
    using lw_receive_inv [OF inv assms(2-6)] .
  have "last_seq_nr lw' \<noteq> last_seq_nr lw" if "n < n'"
  proof -
    have "uint (last_seq_nr lw' - last_seq_nr lw) = int (n' - n)"
      using uint_seq_sub [of n' n] r(4) that by (simp add: lw_inv_list(5) [OF inv] lw_inv_list(5) [OF r(2)])
    then show ?thesis using that by auto
  qed
  with r(1,5,6) show ?thesis by blast
qed

theorem local_window_progress_witness:
  "\<exists>ok lw'. lw_packetReceived 2 [3, 3] 0 sample_window = Inr (ok, lw') \<and> (ok \<longrightarrow> last_seq_nr lw' \<noteq> 1)"
  using local_window_progress [OF sample_run, of 3 0 "[3, 3]"]
  by (simp add: sample_window_def sample_payload_def wrap16) blast

text \<open>The comment in the connection's \<^verbatim>\<open>checkIfClosed\<close> takes an empty window for one that has been
  fully read; but packets that were read stay in the list until more than twenty of them are
  there, so after a full read the window is still not empty.\<close>

lemma fully_read_not_empty:
  "\<exists>lw. lw_read 4 sample_window = Inr ([1, 1, 2, 2], lw) \<and> bytes_available lw = 0 \<and> \<not> lw_isEmpty lw"
  by (simp add: lw_read_def sample_window_def WindowPacket_full_def SeqNrDiff_def SeqNrCmpSE_def Let_def
      sliced_def lw_isEmpty_def)

end
