(* ===== verification/DelayWindow.thy ===== *)
theory DelayWindow
  imports UtpProtocol
begin

text \<open>
  The delay window of a uTP connection, \<^verbatim>\<open>src/src/utp/delaywindow.cpp\<close>: the smallest packet delay
  of the last two minutes, kept as a list of the samples that can still become the minimum.
  The list is a \<^verbatim>\<open>boost::circular_buffer\<close> with a capacity of 100; appending to such a buffer is
  the parameter \<open>push_back\<close>.
\<close>

section \<open>State and operation\<close>

record delay_entry =
  de_delay :: u32
  de_time :: u64

definition DELAY_WINDOW_SIZE :: u64 where "DELAY_WINDOW_SIZE = 120000"

text \<open>\<open>push_back cap xs x\<close> appends \<open>x\<close> to a circular buffer of capacity \<open>cap\<close> that holds \<open>xs\<close>.\<close>

type_synonym push_fun = "nat \<Rightarrow> delay_entry list \<Rightarrow> delay_entry \<Rightarrow> delay_entry list"

definition drop_old :: "u64 \<Rightarrow> delay_entry list \<Rightarrow> delay_entry list" where
  "drop_old receive_time = dropWhile (\<lambda>e. receive_time - de_time e > DELAY_WINDOW_SIZE)"

text \<open>
  \<^verbatim>\<open>std::lower_bound\<close> on the entries, which are sorted by delay: everything from the first entry
  whose delay is not below the new one is erased. The check whether the buffer is full is made
  right after it was cleared, so the capacity stays what it is.
\<close>

definition dw_update :: "push_fun \<Rightarrow> nat \<Rightarrow> u32 \<Rightarrow> u64 \<Rightarrow> delay_entry list \<Rightarrow> u32 \<times> delay_entry list" where
  "dw_update push_back cap delay receive_time dw =
     (let dw = drop_old receive_time dw;
          entry = \<lparr>de_delay = delay, de_time = receive_time\<rparr>
      in if dw = [] \<or> delay < de_delay (hd dw) then (delay, push_back cap [] entry)
         else
           let dw = push_back cap (takeWhile (\<lambda>e. de_delay e < delay) dw) entry
           in (de_delay (hd dw), dw))"

text \<open>What the code relies on: there is room, so the entry is put at the end.\<close>

definition appends_below :: "push_fun \<Rightarrow> bool" where
  "appends_below push_back \<longleftrightarrow> (\<forall>cap xs x. length xs < cap \<longrightarrow> push_back cap xs x = xs @ [x])"

section \<open>Histories\<close>

text \<open>A history of samples, oldest first, at times that do not decrease.\<close>

fun dw_run :: "push_fun \<Rightarrow> nat \<Rightarrow> delay_entry list \<Rightarrow> delay_entry list \<Rightarrow> delay_entry list" where
  "dw_run push_back cap [] dw = dw"
| "dw_run push_back cap (e # es) dw =
     dw_run push_back cap es (snd (dw_update push_back cap (de_delay e) (de_time e) dw))"

definition recent :: "u64 \<Rightarrow> delay_entry list \<Rightarrow> delay_entry list" where
  "recent now = filter (\<lambda>e. unat now - unat (de_time e) \<le> 120000)"

text \<open>
  The window represents a history: its entries are samples of the history with strictly
  increasing delays and increasing times, and every recent sample is matched by an entry that
  is no older and whose delay is no larger.
\<close>

definition dw_inv :: "delay_entry list \<Rightarrow> delay_entry list \<Rightarrow> bool" where
  "dw_inv hist dw \<longleftrightarrow> set dw \<subseteq> set hist \<and> sorted_wrt (\<lambda>a b. de_delay a < de_delay b) dw \<and>
     sorted_wrt (\<lambda>a b. de_time a \<le> de_time b) dw \<and>
     (hist \<noteq> [] \<longrightarrow> (\<forall>e \<in> set (recent (de_time (last hist)) hist).
        \<exists>d \<in> set dw. de_delay d \<le> de_delay e \<and> de_time e \<le> de_time d))"

lemma time_diff: "t \<le> (now :: u64) \<Longrightarrow> now - t > DELAY_WINDOW_SIZE \<longleftrightarrow> unat now - unat t > 120000"
  by (simp add: DELAY_WINDOW_SIZE_def word_less_nat_alt unat_sub)

lemma dropWhile_sorted:
  "sorted_wrt (\<lambda>a b. P b \<longrightarrow> P a) xs \<Longrightarrow> dropWhile P xs = filter (\<lambda>x. \<not> P x) xs"
proof (induction xs)
  case (Cons x xs)
  then show ?case by (cases "P x") (auto intro!: filter_True [symmetric])
qed simp

lemma takeWhile_sorted:
  "sorted_wrt (\<lambda>a b. P b \<longrightarrow> P a) xs \<Longrightarrow> takeWhile P xs = filter P xs"
proof (induction xs)
  case (Cons x xs)
  then show ?case by (cases "P x") (auto simp: filter_empty_conv)
qed simp

lemma dw_update_inv:
  assumes inv: "dw_inv hist dw" and times: "\<forall>h \<in> set hist. de_time h \<le> de_time e"
    and push: "appends_below push_back" and cap: "length dw < cap"
    and upd: "dw_update push_back cap (de_delay e) (de_time e) dw = (base, dw')"
  shows "dw_inv (hist @ [e]) dw'" and "dw' \<noteq> []" and "base = de_delay (hd dw')"
    and "set dw' \<subseteq> set (recent (de_time e) (hist @ [e]))" and "length dw' \<le> Suc (length dw)"
proof -
  let ?t = "de_time e" and ?d = "de_delay e"
  have e: "\<lparr>de_delay = ?d, de_time = ?t\<rparr> = e" by simp
  have sub: "set dw \<subseteq> set hist" and delays: "sorted_wrt (\<lambda>a b. de_delay a < de_delay b) dw"
    and dtimes: "sorted_wrt (\<lambda>a b. de_time a \<le> de_time b) dw"
    using inv by (simp_all add: dw_inv_def)
  define dw1 where "dw1 = filter (\<lambda>x. unat ?t - unat (de_time x) \<le> 120000) dw"
  have old: "?t - de_time x > DELAY_WINDOW_SIZE \<longleftrightarrow> unat ?t - unat (de_time x) > 120000" if "x \<in> set dw" for x
    using time_diff times sub that by blast
  have "sorted_wrt (\<lambda>a b. ?t - de_time b > DELAY_WINDOW_SIZE \<longrightarrow> ?t - de_time a > DELAY_WINDOW_SIZE) dw"
    using dtimes by (rule sorted_wrt_mono_rel [rotated]) (auto simp: old word_le_nat_alt)
  then have drop: "drop_old ?t dw = dw1"
    by (simp add: drop_old_def dropWhile_sorted dw1_def old not_less cong: filter_cong)
  have sorted1: "sorted_wrt (\<lambda>a b. de_delay a < de_delay b) dw1"
    using delays by (simp add: dw1_def sorted_wrt_filter)
  define kept where "kept = filter (\<lambda>x. de_delay x < ?d) dw1"
  have "sorted_wrt (\<lambda>a b. de_delay b < ?d \<longrightarrow> de_delay a < ?d) dw1"
    using sorted1 by (rule sorted_wrt_mono_rel [rotated]) auto
  then have take: "takeWhile (\<lambda>x. de_delay x < ?d) dw1 = kept" by (simp add: takeWhile_sorted kept_def)
  have first: "dw1 = [] \<or> ?d < de_delay (hd dw1) \<Longrightarrow> kept = []"
    using sorted1 by (cases dw1) (auto simp: kept_def filter_empty_conv)
  have len: "length kept < cap" "length kept \<le> length dw"
    using cap length_filter_le [of _ dw1] length_filter_le [of _ dw] unfolding kept_def dw1_def
    by (meson le_trans order_le_less_trans)+
  have app: "length xs < cap \<Longrightarrow> push_back cap xs x = xs @ [x]" for xs x
    using push by (simp add: appends_below_def)
  have dw': "dw' = kept @ [e]" and base: "base = de_delay (hd dw')"
    using upd first len(1) cap app e by (auto simp: dw_update_def drop take Let_def split: if_splits)
  then show "dw' \<noteq> []" "base = de_delay (hd dw')" by simp_all
  show "length dw' \<le> Suc (length dw)" using len(2) by (simp add: dw')
  show "set dw' \<subseteq> set (recent ?t (hist @ [e]))"
    using sub by (auto simp: dw' kept_def dw1_def recent_def)
  show "dw_inv (hist @ [e]) dw'"
    unfolding dw_inv_def
  proof (intro conjI impI ballI)
    show "set dw' \<subseteq> set (hist @ [e])" using sub by (auto simp: dw' kept_def dw1_def)
    show "sorted_wrt (\<lambda>a b. de_delay a < de_delay b) dw'"
      using sorted1 by (auto simp: dw' kept_def sorted_wrt_append sorted_wrt_filter)
    show "sorted_wrt (\<lambda>a b. de_time a \<le> de_time b) dw'"
      using dtimes sub times by (auto simp: dw' kept_def dw1_def sorted_wrt_append sorted_wrt_filter)
    fix x assume "x \<in> set (recent (de_time (last (hist @ [e]))) (hist @ [e]))"
    then have x: "x = e \<or> x \<in> set hist" "unat ?t - unat (de_time x) \<le> 120000" by (auto simp: recent_def)
    show "\<exists>d \<in> set dw'. de_delay d \<le> de_delay x \<and> de_time x \<le> de_time d"
    proof (cases "x = e")
      case False
      then have hx: "x \<in> set hist" using x by simp
      moreover have "unat (de_time (last hist)) \<le> unat ?t"
        using times hx by (metis last_in_set list.set_cases list.distinct(1) word_le_nat_alt)
      ultimately obtain d where d: "d \<in> set dw" "de_delay d \<le> de_delay x" "de_time x \<le> de_time d"
        using inv x(2) by (fastforce simp: dw_inv_def recent_def)
      have "d \<in> set dw1" using d x(2) by (auto simp: dw1_def word_le_nat_alt)
      then show ?thesis
        using d x times hx by (cases "de_delay d < ?d") (auto simp: dw' kept_def)
    qed (simp add: dw')
  qed
qed

definition in_time :: "delay_entry list \<Rightarrow> bool" where
  "in_time hist \<longleftrightarrow> sorted_wrt (\<lambda>a b. de_time a \<le> de_time b) hist"

lemma dw_run_snoc:
  "dw_run push_back cap (es @ [e]) dw =
   snd (dw_update push_back cap (de_delay e) (de_time e) (dw_run push_back cap es dw))"
  by (induction es arbitrary: dw) simp_all

lemma dw_run_inv:
  assumes "in_time hist" and "appends_below push_back"
    and "\<forall>n < length hist. length (dw_run push_back cap (take n hist) []) < cap"
  shows "dw_inv hist (dw_run push_back cap hist [])"
  using assms(1,3)
proof (induction hist rule: rev_induct)
  case Nil
  then show ?case by (simp add: dw_inv_def)
next
  case (snoc e hist)
  have full: "\<forall>n < length hist. length (dw_run push_back cap (take n hist) []) < cap"
  proof (intro allI impI)
    fix n assume "n < length hist"
    then show "length (dw_run push_back cap (take n hist) []) < cap" using snoc.prems(2) [rule_format, of n] by simp
  qed
  have "length (dw_run push_back cap hist []) < cap" using snoc.prems(2) [rule_format, of "length hist"] by simp
  moreover have "dw_inv hist (dw_run push_back cap hist [])" "\<forall>h \<in> set hist. de_time h \<le> de_time e"
    using snoc.IH snoc.prems(1) full by (auto simp: in_time_def sorted_wrt_append)
  ultimately show ?case
    using dw_update_inv(1) [OF _ _ assms(2)] by (metis dw_run_snoc prod.collapse)
qed

section \<open>Properties\<close>

text \<open>C31. As long as the window never fills up, the base delay returned for a packet is the smallest
  delay of the packets received in the last two minutes, the new one included.\<close>

theorem delay_window_minimum:
  assumes "in_time (hist @ [e])" and "appends_below push_back"
    and "\<forall>n \<le> length hist. length (dw_run push_back cap (take n hist) []) < cap"
  shows "fst (dw_update push_back cap (de_delay e) (de_time e) (dw_run push_back cap hist [])) =
    Min (de_delay ` set (recent (de_time e) (hist @ [e])))"
proof -
  let ?dw = "dw_run push_back cap hist []"
  obtain base dw' where upd: "dw_update push_back cap (de_delay e) (de_time e) ?dw = (base, dw')" by fastforce
  have "dw_inv hist ?dw" "\<forall>h \<in> set hist. de_time h \<le> de_time e" "length ?dw < cap"
    using assms dw_run_inv [of hist push_back cap] by (auto simp: in_time_def sorted_wrt_append)
  note u = dw_update_inv [OF this(1,2) assms(2) this(3) upd]
  have "Min (de_delay ` set (recent (de_time e) (hist @ [e]))) = base"
  proof (rule Min_eqI)
    show "base \<in> de_delay ` set (recent (de_time e) (hist @ [e]))" using u(2-4) by (metis hd_in_set image_eqI subsetD)
    fix y assume "y \<in> de_delay ` set (recent (de_time e) (hist @ [e]))"
    then obtain d where d: "d \<in> set dw'" "de_delay d \<le> y" using u(1) by (auto simp: dw_inv_def)
    have "de_delay (hd dw') \<le> de_delay d"
      using u(1,2) d(1) by (cases dw') (auto simp: dw_inv_def less_imp_le)
    with d(2) u(3) show "base \<le> y" by simp
  qed simp
  then show ?thesis by (simp add: upd)
qed

theorem delay_window_minimum_witness:
  "fst (dw_update (\<lambda>cap xs x. xs @ [x]) 100 9 200000
     (dw_run (\<lambda>cap xs x. xs @ [x]) 100 [\<lparr>de_delay = 3, de_time = 1000\<rparr>, \<lparr>de_delay = 7, de_time = 100000\<rparr>] [])) = 7"
proof -
  let ?push = "\<lambda>cap xs x. xs @ [x]" and ?a = "\<lparr>de_delay = 3, de_time = 1000\<rparr>" and ?b = "\<lparr>de_delay = 7, de_time = 100000\<rparr>"
  have "in_time ([?a, ?b] @ [\<lparr>de_delay = 9, de_time = 200000\<rparr>])" by (simp add: in_time_def)
  moreover have "appends_below ?push" by (simp add: appends_below_def)
  moreover have "\<forall>n \<le> length [?a, ?b]. length (dw_run ?push 100 (take n [?a, ?b]) []) < 100"
  proof (intro allI impI)
    fix n assume "n \<le> length [?a, ?b]"
    then have "n = 0 \<or> n = 1 \<or> n = 2" by auto
    then show "length (dw_run ?push 100 (take n [?a, ?b]) []) < 100"
      by (elim disjE) (simp_all add: dw_update_def drop_old_def DELAY_WINDOW_SIZE_def Let_def)
  qed
  ultimately show ?thesis
    using delay_window_minimum [of "[?a, ?b]" "\<lparr>de_delay = 9, de_time = 200000\<rparr>" ?push 100]
    by (simp add: recent_def)
qed

text \<open>
  The capacity is only ever checked on the cleared buffer. When the window is full, a circular
  buffer overwrites its front, and the smallest delay is lost although it is recent.
\<close>

lemma dw_update_full:
  assumes "\<forall>xs x. length xs = cap \<longrightarrow> push_back cap xs x = drop 1 xs @ [x]"
    and "length dw = cap" and "2 \<le> cap" and "\<forall>x \<in> set dw. \<not> t - de_time x > DELAY_WINDOW_SIZE"
    and "\<forall>x \<in> set dw. de_delay x < d"
  shows "fst (dw_update push_back cap d t dw) = de_delay (dw ! 1)"
proof -
  obtain a b dw' where dw: "dw = a # b # dw'" using assms(2,3) by (cases dw rule: remdups_adj.cases) auto
  have "drop_old t dw = dw" using assms(4) dw by (simp add: drop_old_def)
  moreover have "takeWhile (\<lambda>e. de_delay e < d) dw = dw" using assms(5) by simp
  moreover have "\<not> d < de_delay (hd dw)" using assms(5) dw by (simp add: not_less less_imp_le)
  ultimately show ?thesis using assms(1,2) dw by (simp add: dw_update_def Let_def)
qed

end
