(* ===== verification/RemoteWindow.thy ===== *)
theory RemoteWindow
  imports UtpProtocol
begin

text \<open>
  The send window of a uTP connection, \<^verbatim>\<open>src/src/utp/remotewindow.cpp\<close>: the packets sent and not
  yet acknowledged, their total size, fast retransmission and the congestion window. The
  connection is seen through the \<^verbatim>\<open>Retransmitter\<close> interface, a record of its three functions on
  a state \<open>'c\<close>. The results of floating point computations (0.78 times the window, the rounded
  gain) are parameters.
\<close>

section \<open>State\<close>

record unacked_packet =
  up_packet :: packet_buffer
  up_seq :: u16
  up_send_time :: u64
  up_retransmitted :: bool

record remote_window =
  cur_window :: u32
  max_window :: u32
  wnd_size :: u32
  unacked_packets :: "unacked_packet list"
  last_ack_nr :: u16
  last_ack_receive_count :: u32

text \<open>\<open>retransmit\<close> returns whether no \<^verbatim>\<open>TransmissionError\<close> was thrown, and the packet, whose header
  it rewrites.\<close>

record 'c retransmitter =
  updateRTT_of :: "utp_header \<Rightarrow> u64 \<Rightarrow> nat \<Rightarrow> 'c \<Rightarrow> 'c"
  retransmit_of :: "packet_buffer \<Rightarrow> u16 \<Rightarrow> 'c \<Rightarrow> bool \<times> packet_buffer \<times> 'c"
  currentTimeout_of :: "'c \<Rightarrow> u32"

definition MIN_PACKET_SIZE :: u32 where "MIN_PACKET_SIZE = 150"

definition RemoteWindow_new :: remote_window where
  "RemoteWindow_new = \<lparr>cur_window = 0, max_window = 64 * 1024, wnd_size = 0, unacked_packets = [],
     last_ack_nr = 0, last_ack_receive_count = 0\<rparr>"

definition allowedToSend :: "remote_window \<Rightarrow> u32 \<Rightarrow> bool" where
  "allowedToSend rw packet_size \<longleftrightarrow> cur_window rw + packet_size \<le> min (wnd_size rw) (max_window rw)"

definition rw_availableSpace :: "remote_window \<Rightarrow> u32" where
  "rw_availableSpace rw =
     (let m = min (wnd_size rw) (max_window rw) in if cur_window rw > m then 0 else m - cur_window rw)"

definition allPacketsAcked :: "remote_window \<Rightarrow> bool" where
  "allPacketsAcked rw \<longleftrightarrow> unacked_packets rw = []"

definition rw_clear :: "remote_window \<Rightarrow> remote_window" where
  "rw_clear rw = rw\<lparr>unacked_packets := []\<rparr>"

section \<open>Operations\<close>

definition addPacket :: "packet_buffer \<Rightarrow> u16 \<Rightarrow> u64 \<Rightarrow> remote_window \<Rightarrow> remote_window" where
  "addPacket packet s send_time rw =
     rw\<lparr>cur_window := cur_window rw + of_nat (payloadSize packet),
        wnd_size := wnd_size rw - of_nat (payloadSize packet),
        unacked_packets := unacked_packets rw @
          [\<lparr>up_packet = packet, up_seq = s, up_send_time = send_time, up_retransmitted = False\<rparr>]\<rparr>"

text \<open>The loop over the unacknowledged packets. Without a selective acknowledgement it stops at
  the first packet that is not covered.\<close>

fun ack_loop ::
  "'c retransmitter \<Rightarrow> utp_header \<Rightarrow> byte list option \<Rightarrow> u64 \<Rightarrow> unacked_packet list \<Rightarrow> u32 \<Rightarrow> 'c \<Rightarrow>
   unacked_packet list \<times> u32 \<times> 'c" where
  "ack_loop R hdr sack now [] cur conn = ([], cur, conn)"
| "ack_loop R hdr sack now (p # ps) cur conn =
     (if SeqNrCmpSE (up_seq p) (ack_nr hdr) then
        ack_loop R hdr sack now ps (cur - of_nat (payloadSize (up_packet p)))
          (updateRTT_of R hdr (now - up_send_time p) (payloadSize (up_packet p)) conn)
      else case sack of
        Some bitmask \<Rightarrow>
          if Acked bitmask (unat (up_seq p - ack_nr hdr)) then
            ack_loop R hdr sack now ps (cur - of_nat (payloadSize (up_packet p)))
              (updateRTT_of R hdr (now - up_send_time p) (payloadSize (up_packet p)) conn)
          else let (ps, cur, conn) = ack_loop R hdr sack now ps cur conn in (p # ps, cur, conn)
      | None \<Rightarrow> (p # ps, cur, conn))"

text \<open>The packets behind the third acknowledged one, counted from the end of the mask.\<close>

fun lost_from :: "byte list \<Rightarrow> nat \<Rightarrow> nat \<Rightarrow> nat" where
  "lost_from bitmask 0 acked = 0"
| "lost_from bitmask (Suc i) acked =
     (if Acked bitmask i then (if acked + 1 = 3 then i else lost_from bitmask i (acked + 1))
      else lost_from bitmask i acked)"

definition lost :: "byte list \<Rightarrow> nat" where
  "lost bitmask = lost_from bitmask (8 * length bitmask) 0"

text \<open>One packet is retransmitted unless it was already and its timeout has not passed. A
  transmission error leaves its time and mark unchanged.\<close>

definition needs_retransmit :: "'c retransmitter \<Rightarrow> u64 \<Rightarrow> unacked_packet \<Rightarrow> 'c \<Rightarrow> bool" where
  "needs_retransmit R now p conn \<longleftrightarrow>
     \<not> up_retransmitted p \<or> now - up_send_time p > ucast (currentTimeout_of R conn)"

definition retransmit_packet :: "'c retransmitter \<Rightarrow> u64 \<Rightarrow> unacked_packet \<Rightarrow> 'c \<Rightarrow> bool \<times> unacked_packet \<times> 'c" where
  "retransmit_packet R now p conn =
     (let (ok, packet, conn) = retransmit_of R (up_packet p) (up_seq p) conn;
          p = p\<lparr>up_packet := packet\<rparr>
      in (ok, if ok then p\<lparr>up_send_time := now, up_retransmitted := True\<rparr> else p, conn))"

fun lost_loop ::
  "'c retransmitter \<Rightarrow> utp_header \<Rightarrow> nat \<Rightarrow> u64 \<Rightarrow> unacked_packet list \<Rightarrow> 'c \<Rightarrow> bool \<times> unacked_packet list \<times> 'c" where
  "lost_loop R hdr lost_index now [] conn = (False, [], conn)"
| "lost_loop R hdr lost_index now (p # ps) conn =
     (if lost_index > 0 then
        let go = unat (up_seq p - ack_nr hdr) < lost_index \<and> needs_retransmit R now p conn;
            (_, p, conn) = (if go then retransmit_packet R now p conn else (True, p, conn));
            (l, ps, conn) = lost_loop R hdr lost_index now ps conn
        in (go \<or> l, p # ps, conn)
      else (False, p # ps, conn))"

text \<open>In \<^verbatim>\<open>first_unacked.seq_nr == hdr->ack_nr + 1\<close> the sum is an \<^verbatim>\<open>int\<close>: behind acknowledgement
  number 65535 it is 65536, which is no sequence number.\<close>

definition checkLostPackets ::
  "'c retransmitter \<Rightarrow> (u32 \<Rightarrow> u32) \<Rightarrow> utp_header \<Rightarrow> byte list option \<Rightarrow> u64 \<Rightarrow> remote_window \<Rightarrow> 'c \<Rightarrow>
   remote_window \<times> 'c" where
  "checkLostPackets R shrink hdr sack now rw conn =
     (case unacked_packets rw of
        [] \<Rightarrow> (rw, conn)
      | first # ps \<Rightarrow>
          let fast = last_ack_receive_count rw \<ge> 3 \<and> uint (up_seq first) = uint (ack_nr hdr) + 1;
              go = fast \<and> needs_retransmit R now first conn;
              (_, first, conn) = (if go then retransmit_packet R now first conn else (True, first, conn));
              (done, todo) = (if fast then ([first], ps) else ([], first # ps));
              (l, todo, conn) = (case sack of
                  None \<Rightarrow> (False, todo, conn)
                | Some bitmask \<Rightarrow> lost_loop R hdr (lost bitmask) now todo conn);
              rw = rw\<lparr>unacked_packets := done @ todo\<rparr>
          in (if go \<or> l then rw\<lparr>max_window := shrink (max_window rw)\<rparr> else rw, conn))"

text \<open>\<open>packetReceived\<close> also returns the bytes acknowledged and the window before it is shrunk, from
  which the code computes the window factor.\<close>

definition rw_packetReceived ::
  "'c retransmitter \<Rightarrow> (u32 \<Rightarrow> u32) \<Rightarrow> utp_header \<Rightarrow> byte list option \<Rightarrow> u64 \<Rightarrow> remote_window \<Rightarrow> 'c \<Rightarrow>
   (u32 \<times> u32) \<times> remote_window \<times> 'c" where
  "rw_packetReceived R shrink hdr sack now rw conn =
     (let rw = (if ack_nr hdr = last_ack_nr rw then
                  (if pkt_type hdr = ST_STATE then rw\<lparr>last_ack_receive_count := last_ack_receive_count rw + 1\<rparr> else rw)
                else rw\<lparr>last_ack_nr := ack_nr hdr, last_ack_receive_count := 1\<rparr>);
          rw = rw\<lparr>wnd_size := hdr_wnd_size hdr\<rparr>;
          before = cur_window rw;
          (ps, cur, conn) = ack_loop R hdr sack now (unacked_packets rw) (cur_window rw) conn;
          rw = rw\<lparr>unacked_packets := ps, cur_window := cur\<rparr>;
          factor = (before - cur, max_window rw);
          (rw, conn) = (if ps \<noteq> [] then checkLostPackets R shrink hdr sack now rw conn else (rw, conn))
      in (factor, rw, conn))"

text \<open>A transmission error ends the loop of \<^verbatim>\<open>timeout\<close>.\<close>

fun timeout_loop :: "'c retransmitter \<Rightarrow> u64 \<Rightarrow> unacked_packet list \<Rightarrow> 'c \<Rightarrow> unacked_packet list \<times> 'c" where
  "timeout_loop R now [] conn = ([], conn)"
| "timeout_loop R now (p # ps) conn =
     (if needs_retransmit R now p conn then
        let (ok, p, conn) = retransmit_packet R now p conn
        in if ok then let (ps, conn) = timeout_loop R now ps conn in (p # ps, conn) else (p # ps, conn)
      else let (ps, conn) = timeout_loop R now ps conn in (p # ps, conn))"

definition rw_timeout :: "'c retransmitter \<Rightarrow> u64 \<Rightarrow> remote_window \<Rightarrow> 'c \<Rightarrow> remote_window \<times> 'c" where
  "rw_timeout R now rw conn =
     (let (ps, conn) = timeout_loop R now (unacked_packets rw) conn
      in (rw\<lparr>max_window := MIN_PACKET_SIZE, unacked_packets := ps\<rparr>, conn))"

text \<open>\<open>d\<close> is the rounded gain, an \<^verbatim>\<open>int\<close>, which is converted to \<^verbatim>\<open>Uint32\<close> in the sum.\<close>

definition updateWindowSize :: "int \<Rightarrow> remote_window \<Rightarrow> remote_window" where
  "updateWindowSize d rw =
     (if max_window rw + word_of_int d < MIN_PACKET_SIZE then rw\<lparr>max_window := MIN_PACKET_SIZE\<rparr>
      else rw\<lparr>max_window := max_window rw + word_of_int d\<rparr>)"

section \<open>Accounting\<close>

text \<open>What a packet in flight is to the receiver: its sequence number and its payload.\<close>

definition flight :: "unacked_packet \<Rightarrow> u16 \<times> byte list" where
  "flight p = (up_seq p, pb_payload_bytes (up_packet p))"

definition in_flight :: "unacked_packet list \<Rightarrow> nat" where
  "in_flight ps = sum_list (map (\<lambda>p. payloadSize (up_packet p)) ps)"

lemma in_flight_simps [simp]:
  "in_flight [] = 0" "in_flight (p # ps) = payloadSize (up_packet p) + in_flight ps"
  "in_flight (ps @ qs) = in_flight ps + in_flight qs"
  by (simp_all add: in_flight_def)

lemma payloadSize_bytes: "pb_wf p \<Longrightarrow> payloadSize p = length (pb_payload_bytes p)"
  by (auto simp: pb_wf_def payloadSize_def pb_payload_bytes_def split: option.splits)

text \<open>Acknowledged by a header, by number or by the mask.\<close>

definition acked_by :: "utp_header \<Rightarrow> byte list option \<Rightarrow> u16 \<Rightarrow> bool" where
  "acked_by hdr sack s \<longleftrightarrow> SeqNrCmpSE s (ack_nr hdr) \<or>
     (case sack of None \<Rightarrow> False | Some bitmask \<Rightarrow> Acked bitmask (unat (s - ack_nr hdr)))"

lemma ack_loop_window:
  "ack_loop R hdr sack now ps cur conn = (ps', cur', conn') \<Longrightarrow> cur' = cur + of_nat (in_flight ps') - of_nat (in_flight ps)"
proof (induction ps arbitrary: cur conn ps' cur' conn')
  case (Cons p ps)
  show ?case
  proof (cases "SeqNrCmpSE (up_seq p) (ack_nr hdr) \<or> (\<exists>bm. sack = Some bm \<and> Acked bm (unat (up_seq p - ack_nr hdr)))")
    case True
    then have "ack_loop R hdr sack now ps (cur - of_nat (payloadSize (up_packet p)))
          (updateRTT_of R hdr (now - up_send_time p) (payloadSize (up_packet p)) conn) =
        ack_loop R hdr sack now (p # ps) cur conn"
      by auto
    from Cons.IH [OF trans [OF this Cons.prems]] show ?thesis by (simp add: algebra_simps)
  next
    case False
    show ?thesis
    proof (cases sack)
      case None
      then show ?thesis using False Cons.prems by simp
    next
      case (Some bm)
      obtain ps1 cur1 conn1 where r: "ack_loop R hdr sack now ps cur conn = (ps1, cur1, conn1)" by (metis prod_cases3)
      have "cur1 = cur + of_nat (in_flight ps1) - of_nat (in_flight ps)" by (rule Cons.IH [OF r])
      then show ?thesis using False Cons.prems Some r by (auto simp: algebra_simps)
    qed
  qed
qed simp

lemma ack_loop_sack:
  "fst (ack_loop R hdr (Some bitmask) now ps cur conn) = filter (\<lambda>p. \<not> acked_by hdr (Some bitmask) (up_seq p)) ps"
  by (induction ps arbitrary: cur conn) (auto simp: acked_by_def case_prod_beta)

lemma ack_loop_plain:
  "fst (ack_loop R hdr None now ps cur conn) = dropWhile (\<lambda>p. acked_by hdr None (up_seq p)) ps"
  by (induction ps arbitrary: cur conn) (auto simp: acked_by_def)

lemma ack_loop_subset: "set (fst (ack_loop R hdr sack now ps cur conn)) \<subseteq> set ps"
  by (cases sack) (auto simp: ack_loop_plain ack_loop_sack dest: set_dropWhileD)

section \<open>The contract of the retransmitter\<close>

text \<open>
  What the send window needs of the connection: retransmitting keeps packets well-formed (in a
  sense \<open>good\<close> of the connection's) and does not touch their payload.
\<close>

locale retransmission =
  fixes R :: "'c retransmitter" and good :: "packet_buffer \<Rightarrow> bool"
  assumes good_wf: "good p \<Longrightarrow> pb_wf p"
    and retransmit_good: "good p \<Longrightarrow> retransmit_of R p s conn = (ok, p', conn') \<Longrightarrow> good p'"
    and retransmit_payload: "good p \<Longrightarrow> retransmit_of R p s conn = (ok, p', conn') \<Longrightarrow>
      pb_payload_bytes p' = pb_payload_bytes p"
begin

definition rw_good :: "remote_window \<Rightarrow> bool" where
  "rw_good rw \<longleftrightarrow> (\<forall>p \<in> set (unacked_packets rw). good (up_packet p))"

definition rw_wf :: "remote_window \<Rightarrow> bool" where
  "rw_wf rw \<longleftrightarrow> cur_window rw = of_nat (in_flight (unacked_packets rw)) \<and> rw_good rw"

lemma payload_size: "good p \<Longrightarrow> retransmit_of R p s conn = (ok, p', conn') \<Longrightarrow> payloadSize p' = payloadSize p"
  using good_wf retransmit_good retransmit_payload by (metis payloadSize_bytes)

lemma retransmit_packet_keeps:
  assumes "good (up_packet p)" and "retransmit_packet R now p conn = (ok, p', conn')"
  shows "good (up_packet p') \<and> flight p' = flight p \<and> payloadSize (up_packet p') = payloadSize (up_packet p)"
proof -
  obtain ok' q c where r: "retransmit_of R (up_packet p) (up_seq p) conn = (ok', q, c)" by (metis prod_cases3)
  then show ?thesis
    using assms retransmit_good [OF assms(1) r] retransmit_payload [OF assms(1) r] payload_size [OF assms(1) r]
    by (auto simp: retransmit_packet_def flight_def Let_def split: if_splits)
qed

definition keeps :: "unacked_packet list \<Rightarrow> unacked_packet list \<Rightarrow> bool" where
  "keeps ps qs \<longleftrightarrow> (\<forall>p \<in> set ps. good (up_packet p)) \<longrightarrow>
     (\<forall>p \<in> set qs. good (up_packet p)) \<and> map flight qs = map flight ps \<and> in_flight qs = in_flight ps"

lemma keeps_refl [simp]: "keeps ps ps"
  by (simp add: keeps_def)

lemma keeps_Cons:
  assumes "keeps ps qs" and "good (up_packet p) \<Longrightarrow>
    good (up_packet q) \<and> flight q = flight p \<and> payloadSize (up_packet q) = payloadSize (up_packet p)"
  shows "keeps (p # ps) (q # qs)"
  using assms by (auto simp: keeps_def)

lemma lost_loop_keeps: "lost_loop R hdr i now ps conn = (l, ps', conn') \<Longrightarrow> keeps ps ps'"
proof (induction ps arbitrary: conn l ps' conn')
  case (Cons p ps)
  then show ?case
    by (auto simp: Let_def split: if_splits prod.splits intro!: keeps_Cons dest: retransmit_packet_keeps)
qed simp

lemma timeout_loop_keeps: "timeout_loop R now ps conn = (ps', conn') \<Longrightarrow> keeps ps ps'"
proof (induction ps arbitrary: conn ps' conn')
  case (Cons p ps)
  then show ?case
    by (auto simp: Let_def split: if_splits prod.splits intro!: keeps_Cons dest: retransmit_packet_keeps)
qed simp

lemma keeps_append:
  assumes "keeps ps qs" and "keeps ps' qs'"
  shows "keeps (ps @ ps') (qs @ qs')"
  unfolding keeps_def
proof (intro impI)
  assume "\<forall>p \<in> set (ps @ ps'). good (up_packet p)"
  then have g: "\<forall>p \<in> set ps. good (up_packet p)" "\<forall>p \<in> set ps'. good (up_packet p)" by simp_all
  have "(\<forall>p \<in> set qs. good (up_packet p)) \<and> map flight qs = map flight ps \<and> in_flight qs = in_flight ps"
    using assms(1) g(1) unfolding keeps_def by (rule mp)
  moreover have "(\<forall>p \<in> set qs'. good (up_packet p)) \<and> map flight qs' = map flight ps' \<and> in_flight qs' = in_flight ps'"
    using assms(2) g(2) unfolding keeps_def by (rule mp)
  ultimately show "(\<forall>p \<in> set (qs @ qs'). good (up_packet p)) \<and> map flight (qs @ qs') = map flight (ps @ ps') \<and>
      in_flight (qs @ qs') = in_flight (ps @ ps')"
    by (simp add: ball_Un)
qed

lemma keeps_trans: "keeps ps qs \<Longrightarrow> keeps qs rs \<Longrightarrow> keeps ps rs"
  unfolding keeps_def by simp

lemma checkLostPackets_keeps:
  assumes "checkLostPackets R shrink hdr sack now rw conn = (rw', conn')"
  shows "keeps (unacked_packets rw) (unacked_packets rw') \<and> cur_window rw' = cur_window rw \<and> wnd_size rw' = wnd_size rw"
proof (cases "unacked_packets rw")
  case Nil
  then show ?thesis using assms by (simp add: checkLostPackets_def)
next
  case (Cons p ps)
  define fast where "fast = (last_ack_receive_count rw \<ge> 3 \<and> uint (up_seq p) = uint (ack_nr hdr) + 1)"
  define go where "go = (fast \<and> needs_retransmit R now p conn)"
  obtain ok q c where q: "(if go then retransmit_packet R now p conn else (True, p, conn)) = (ok, q, c)"
    by (metis prod_cases3)
  have p: "keeps [p] [q]"
    using q by (auto simp: keeps_def dest: retransmit_packet_keeps split: if_splits)
  define dn where "dn = (if fast then [q] else [])"
  define todo where "todo = (if fast then ps else q # ps)"
  obtain l todo' c' where t: "(case sack of None \<Rightarrow> (False, todo, c) | Some bm \<Rightarrow> lost_loop R hdr (lost bm) now todo c) = (l, todo', c')"
    by (metis prod_cases3)
  have todo: "keeps todo todo'"
    using t lost_loop_keeps by (auto split: option.splits)
  have "dn @ todo = q # ps" by (simp add: dn_def todo_def)
  moreover have "keeps (p # ps) (q # ps)" using keeps_append [OF p, of ps ps] by simp
  moreover have "keeps (dn @ todo) (dn @ todo')" using keeps_append [OF _ todo, of dn dn] by simp
  ultimately have "keeps (p # ps) (dn @ todo')" using keeps_trans by simp
  moreover have "checkLostPackets R shrink hdr sack now rw conn =
      (if go \<or> l then rw\<lparr>unacked_packets := dn @ todo', max_window := shrink (max_window rw)\<rparr>
       else rw\<lparr>unacked_packets := dn @ todo'\<rparr>, c')"
  proof -
    have pair: "(if fast then ([q], ps) else ([], q # ps)) = (dn, todo)" by (simp add: dn_def todo_def)
    show ?thesis
      unfolding checkLostPackets_def Cons list.case fast_def [symmetric] Let_def go_def [symmetric] q prod.case pair t
      by simp
  qed
  ultimately show ?thesis using assms by (auto simp: Cons split: if_splits)
qed

lemma rw_wf_add:
  "rw_good rw \<Longrightarrow> good packet \<Longrightarrow> rw_good (addPacket packet s t rw)"
  "rw_wf rw \<Longrightarrow> good packet \<Longrightarrow> rw_wf (addPacket packet s t rw)"
  by (auto simp: rw_wf_def rw_good_def addPacket_def)

lemma rw_good_simps [simp]: "rw_good (updateWindowSize d rw) \<longleftrightarrow> rw_good rw" "rw_good (rw_clear rw)"
  by (simp_all add: rw_good_def updateWindowSize_def rw_clear_def)

lemma rw_good_timeout: "rw_good rw \<Longrightarrow> rw_timeout R now rw conn = (rw', conn') \<Longrightarrow> rw_good rw'"
  using timeout_loop_keeps [of now "unacked_packets rw" conn]
  by (auto simp: rw_timeout_def rw_good_def keeps_def split: prod.splits)

lemma rw_wf_timeout:
  assumes "rw_wf rw" and "rw_timeout R now rw conn = (rw', conn')"
  shows "rw_wf rw' \<and> map flight (unacked_packets rw') = map flight (unacked_packets rw)"
  using assms timeout_loop_keeps [of now "unacked_packets rw" conn]
  by (auto simp: rw_timeout_def rw_wf_def rw_good_def keeps_def split: prod.splits)

lemma rw_wf_updateWindowSize: "rw_wf rw \<Longrightarrow> rw_wf (updateWindowSize d rw)"
  by (simp add: rw_wf_def rw_good_def updateWindowSize_def)

text \<open>Receiving a packet forgets exactly the acknowledged packets at the front, or all of them
  with a selective acknowledgement, and keeps the window's size right.\<close>

lemma rw_packetReceived_keeps:
  assumes "rw_good rw" and "rw_packetReceived R shrink hdr sack now rw conn = (factor, rw', conn')"
  shows "rw_good rw' \<and> wnd_size rw' = hdr_wnd_size hdr \<and>
    cur_window rw' = cur_window rw + of_nat (in_flight (unacked_packets rw')) - of_nat (in_flight (unacked_packets rw)) \<and>
    map flight (unacked_packets rw') =
      (case sack of None \<Rightarrow> dropWhile (\<lambda>(s, _). acked_by hdr sack s) (map flight (unacked_packets rw))
       | Some _ \<Rightarrow> filter (\<lambda>(s, _). \<not> acked_by hdr sack s) (map flight (unacked_packets rw)))"
proof -
  obtain ps cur c where al: "ack_loop R hdr sack now (unacked_packets rw) (cur_window rw) conn = (ps, cur, c)"
    by (metis prod_cases3)
  have good: "\<forall>p \<in> set ps. good (up_packet p)"
    using assms(1) ack_loop_subset [of R hdr sack now "unacked_packets rw" "cur_window rw" conn] al
    by (auto simp: rw_good_def)
  note cur = ack_loop_window [OF al]
  have "map flight ps =
      (case sack of None \<Rightarrow> dropWhile (\<lambda>(s, _). acked_by hdr sack s) (map flight (unacked_packets rw))
       | Some _ \<Rightarrow> filter (\<lambda>(s, _). \<not> acked_by hdr sack s) (map flight (unacked_packets rw)))"
  proof -
    have "ps = fst (ack_loop R hdr sack now (unacked_packets rw) (cur_window rw) conn)" using al by simp
    then show ?thesis
      by (cases sack) (simp_all add: ack_loop_plain ack_loop_sack flight_def filter_map dropWhile_map comp_def)
  qed
  moreover have "keeps ps (unacked_packets rw') \<and> cur_window rw' = cur \<and> wnd_size rw' = hdr_wnd_size hdr"
    using assms(2)
    by (auto simp: rw_packetReceived_def Let_def al dest!: checkLostPackets_keeps split: if_splits prod.splits)
  ultimately show ?thesis using good cur by (auto simp: rw_good_def keeps_def)
qed

lemma rw_wf_packetReceived:
  "rw_wf rw \<Longrightarrow> rw_packetReceived R shrink hdr sack now rw conn = (factor, rw', conn') \<Longrightarrow> rw_wf rw'"
  using rw_packetReceived_keeps [of rw shrink hdr sack now conn factor rw' conn'] by (simp add: rw_wf_def)

end

text \<open>A property of the connection that the interface's functions keep is kept by the window.\<close>

locale retransmission_inv = retransmission R good
  for R :: "'c retransmitter" and good :: "packet_buffer \<Rightarrow> bool" +
  fixes I :: "'c \<Rightarrow> bool"
  assumes update_inv: "I conn \<Longrightarrow> I (updateRTT_of R hdr t n conn)"
    and retransmit_inv: "good p \<Longrightarrow> I conn \<Longrightarrow> retransmit_of R p s conn = (ok, p', conn') \<Longrightarrow> I conn'"
begin

lemma ack_loop_inv: "I conn \<Longrightarrow> I (snd (snd (ack_loop R hdr sack now ps cur conn)))"
  by (induction ps arbitrary: cur conn) (auto simp: update_inv case_prod_beta split: option.splits)

lemma retransmit_packet_inv:
  assumes "good (up_packet p)" and "I conn" and "retransmit_packet R now p conn = (ok, p', conn')"
  shows "I conn'"
proof -
  obtain ok' q c where r: "retransmit_of R (up_packet p) (up_seq p) conn = (ok', q, c)" by (metis prod_cases3)
  from retransmit_inv [OF assms(1,2) r] assms(3) show ?thesis by (simp add: retransmit_packet_def r Let_def)
qed

lemma lost_loop_inv:
  "\<forall>p \<in> set ps. good (up_packet p) \<Longrightarrow> I conn \<Longrightarrow> lost_loop R hdr i now ps conn = (l, ps', conn') \<Longrightarrow> I conn'"
proof (induction ps arbitrary: conn l ps' conn')
  case (Cons p ps)
  show ?case
  proof (cases "i > 0")
    case True
    let ?go = "unat (up_seq p - ack_nr hdr) < i \<and> needs_retransmit R now p conn"
    obtain ok q c where q: "(if ?go then retransmit_packet R now p conn else (True, p, conn)) = (ok, q, c)" by (metis prod_cases3)
    have "I c" using q Cons.prems(1,2) retransmit_packet_inv [of p conn now ok q c] by (auto split: if_splits)
    moreover obtain l1 ps1 where "lost_loop R hdr i now ps c = (l1, ps1, conn')"
      using Cons.prems(3) True q by (auto simp: Let_def split: prod.splits)
    ultimately show ?thesis using Cons.IH Cons.prems(1) by simp
  next
    case False
    then show ?thesis using Cons.prems by simp
  qed
qed simp

lemma timeout_loop_inv:
  "\<forall>p \<in> set ps. good (up_packet p) \<Longrightarrow> I conn \<Longrightarrow> timeout_loop R now ps conn = (ps', conn') \<Longrightarrow> I conn'"
proof (induction ps arbitrary: conn ps' conn')
  case (Cons p ps)
  show ?case
  proof (cases "needs_retransmit R now p conn")
    case True
    obtain ok q c where q: "retransmit_packet R now p conn = (ok, q, c)" by (metis prod_cases3)
    have "I c" using Cons.prems(1,2) retransmit_packet_inv [OF _ _ q] by simp
    then show ?thesis using Cons.IH [of c] Cons.prems True q by (auto split: if_splits prod.splits)
  next
    case False
    then show ?thesis using Cons.IH [of conn] Cons.prems by (auto split: prod.splits)
  qed
qed simp

lemma checkLostPackets_inv:
  assumes "\<forall>p \<in> set (unacked_packets rw). good (up_packet p)" and "I conn"
    and "checkLostPackets R shrink hdr sack now rw conn = (rw', conn')"
  shows "I conn'"
proof (cases "unacked_packets rw")
  case Nil
  then show ?thesis using assms by (simp add: checkLostPackets_def)
next
  case (Cons p ps)
  define fast where "fast = (last_ack_receive_count rw \<ge> 3 \<and> uint (up_seq p) = uint (ack_nr hdr) + 1)"
  define go where "go = (fast \<and> needs_retransmit R now p conn)"
  obtain ok q c where q: "(if go then retransmit_packet R now p conn else (True, p, conn)) = (ok, q, c)"
    by (metis prod_cases3)
  have c: "I c" "good (up_packet q)"
    using q assms(1,2) retransmit_packet_inv [of p conn now ok q c] retransmit_packet_keeps [of p now conn ok q c] Cons
    by (auto split: if_splits)
  define todo where "todo = (if fast then ps else q # ps)"
  obtain l todo' c' where t: "(case sack of None \<Rightarrow> (False, todo, c) | Some bm \<Rightarrow> lost_loop R hdr (lost bm) now todo c) = (l, todo', c')"
    by (metis prod_cases3)
  have "\<forall>p \<in> set todo. good (up_packet p)" using assms(1) c(2) by (simp add: todo_def Cons)
  then have "I c'" using t c(1) lost_loop_inv [of todo c hdr _ now l todo' c'] by (auto split: option.splits)
  moreover have pair: "(if fast then ([q], ps) else ([], q # ps)) = (if fast then [q] else [], todo)" by (simp add: todo_def)
  have "conn' = c'"
    using assms(3)
    unfolding checkLostPackets_def Cons list.case fast_def [symmetric] Let_def go_def [symmetric] q prod.case pair t
    by simp
  ultimately show ?thesis by simp
qed

lemma rw_packetReceived_inv:
  assumes "rw_good rw" and "I conn" and "rw_packetReceived R shrink hdr sack now rw conn = (factor, rw', conn')"
  shows "I conn'"
proof -
  obtain ps cur c where al: "ack_loop R hdr sack now (unacked_packets rw) (cur_window rw) conn = (ps, cur, c)"
    by (metis prod_cases3)
  have "I c" using ack_loop_inv [OF assms(2), of hdr sack now "unacked_packets rw" "cur_window rw"] al by simp
  moreover have "\<forall>p \<in> set ps. good (up_packet p)"
    using assms(1) ack_loop_subset [of R hdr sack now "unacked_packets rw" "cur_window rw" conn] al
    by (auto simp: rw_good_def)
  ultimately show ?thesis
    using assms(3)
    by (auto simp: rw_packetReceived_def Let_def al dest!: checkLostPackets_inv [rotated 2] split: if_splits prod.splits)
qed

lemma rw_timeout_inv: "rw_good rw \<Longrightarrow> I conn \<Longrightarrow> rw_timeout R now rw conn = (rw', conn') \<Longrightarrow> I conn'"
  using timeout_loop_inv by (auto simp: rw_timeout_def rw_good_def split: prod.splits)

end

section \<open>Fast retransmission at the wrap\<close>

text \<open>The packet behind acknowledgement number 65535 has sequence number zero and is never found
  to be the next one, however often the acknowledgement is repeated.\<close>

lemma no_fast_retransmit_at_wrap:
  assumes "ack_nr hdr = 65535"
  shows "checkLostPackets R shrink hdr None now rw conn = (rw, conn)"
proof -
  have "uint (up_seq p) \<noteq> 65536" for p using uint_bound16 [of "up_seq p"] by linarith
  then show ?thesis using assms
    by (cases "unacked_packets rw") (auto simp: checkLostPackets_def Let_def)
qed

section \<open>The congestion window\<close>

text \<open>The sum of window and gain is computed in \<^verbatim>\<open>Uint32\<close>.\<close>

lemma updateWindowSize_mod:
  "uint (max_window (updateWindowSize d rw)) = max 150 ((uint (max_window rw) + d) mod 2 ^ 32)"
proof -
  have "uint (max_window rw + word_of_int d) = (uint (max_window rw) + d) mod 2 ^ 32"
    by (simp add: uint_word_ariths uint_word_of_int mod_add_right_eq)
  then show ?thesis by (simp add: updateWindowSize_def MIN_PACKET_SIZE_def word_less_def max_def)
qed

section \<open>Properties\<close>

text \<open>C32. The congestion window follows the gain, and does not fall below the size of the smallest
  packet, while the sum of window and gain is not negative. A gain below the negated window,
  as a long queueing delay gives, wraps around to a window of about four gigabytes.\<close>

theorem updateWindowSize_wraps:
  assumes "- (2 ^ 31) \<le> d" and "d < 2 ^ 31" and "uint (max_window rw) + d < 2 ^ 32"
  shows "uint (max_window (updateWindowSize d rw)) =
    (if 0 \<le> uint (max_window rw) + d then max 150 (uint (max_window rw) + d)
     else uint (max_window rw) + d + 2 ^ 32)"
proof (cases "0 \<le> uint (max_window rw) + d")
  case True
  then show ?thesis using updateWindowSize_mod [of d rw] assms(3) by simp
next
  case False
  have "- 2147483648 \<le> d" using assms(1) by simp
  moreover have "0 \<le> uint (max_window rw)" by simp
  ultimately have "0 \<le> uint (max_window rw) + d + 4294967296" "uint (max_window rw) + d + 4294967296 < 4294967296"
      "150 \<le> uint (max_window rw) + d + 4294967296"
    using False by linarith+
  moreover from this(1,2) have "(uint (max_window rw) + d + 4294967296) mod 4294967296 = uint (max_window rw) + d + 4294967296"
    by (rule mod_pos_pos_trivial)
  ultimately show ?thesis using updateWindowSize_mod [of d rw] False by simp
qed

theorem updateWindowSize_wraps_witness:
  "uint (max_window (updateWindowSize (- 500) (RemoteWindow_new\<lparr>max_window := 150\<rparr>))) = 4294966946"
  using updateWindowSize_wraps [of "- 500" "RemoteWindow_new\<lparr>max_window := 150\<rparr>"] by simp

end
