(* ===== verification/Connection.thy ===== *)
theory Connection
  imports LocalWindow RemoteWindow DelayWindow "HOL-Library.Signed_Division"
begin

text \<open>
  The uTP connection, \<^verbatim>\<open>src/src/utp/connection.cpp\<close>: its state machine, the chopping of the output
  buffer into packets, acknowledgements, retransmission and timeouts. The surroundings are a
  record \<open>utp_env\<close>: the clock, the outcome of each call of the transmitter's \<^verbatim>\<open>sendTo\<close>, the memory a
  new packet buffer is made of, and the floating point computations of the congestion control.
  Within one operation the clock stands still. The wake-ups of waiting threads, which do not
  change the state of the connection, are left out.
\<close>

section \<open>State\<close>

datatype conn_state = IDLE | SYN_SENT | CONNECTED | FINISHED | CLOSED

datatype conn_type = INCOMING | OUTGOING

record connection =
  c_type :: conn_type
  c_state :: conn_state
  send_connection_id :: u16
  reply_micro :: u32
  recv_connection_id :: u16
  c_seq_nr :: u16
  eof_seq_nr :: int
  c_timeout :: u32
  absolute_timeout :: u64
  rtt :: int
  rtt_var :: int
  packet_size :: nat
  last_window_size_transmitted :: nat
  bytes_received :: nat
  bytes_sent :: nat
  packets_received :: nat
  packets_sent :: nat
  c_readable :: bool
  c_writeable :: bool
  local_wnd :: local_window
  remote_wnd :: remote_window
  output_buffer :: circbuf
  fin_sent :: bool
  last_packet_sent :: u64
  delay_window :: "delay_entry list"
  attempts :: nat
  transmitted :: "byte list list"

text \<open>\<open>attempts\<close> counts the calls of \<^verbatim>\<open>sendTo\<close>, \<open>transmitted\<close> holds the packets it accepted.\<close>

record utp_env =
  now_us :: u32
  now_ms :: u64
  send_ok :: "nat \<Rightarrow> bool"
  pool_mem :: "byte list"
  dw_push :: push_fun
  shrink_window :: "u32 \<Rightarrow> u32"
  window_gain :: "u32 \<Rightarrow> u32 \<times> u32 \<Rightarrow> int"

datatype conn_error = TransmissionError | MemoryError utp_error

definition IP_AND_UDP_OVERHEAD :: nat where "IP_AND_UDP_OVERHEAD = 28"
definition MAX_TIMEOUT :: u32 where "MAX_TIMEOUT = 30000"
definition CONNECT_TIMEOUT :: u32 where "CONNECT_TIMEOUT = 30000"
definition KEEP_ALIVE_TIMEOUT :: u64 where "KEEP_ALIVE_TIMEOUT = 30000"

text \<open>\<^verbatim>\<open>sizeof(utp::Header)\<close> is twenty where the two bit fields share the first byte.\<close>

definition max_packet_size :: nat where
  "max_packet_size = 1500 - IP_AND_UDP_OVERHEAD - 20"

definition Connection_new :: "u16 \<Rightarrow> conn_type \<Rightarrow> conn_state \<Rightarrow> u16 \<Rightarrow> byte list \<Rightarrow> connection" where
  "Connection_new recv_id ty uninit_state uninit_seq buf =
     \<lparr>c_type = ty,
      c_state = (if ty = OUTGOING then uninit_state else IDLE),
      send_connection_id = (if ty = OUTGOING then recv_id + 1 else recv_id - 1),
      reply_micro = 0, recv_connection_id = recv_id,
      c_seq_nr = (if ty = OUTGOING then uninit_seq else 5),
      eof_seq_nr = -1, c_timeout = 1000, absolute_timeout = 0, rtt = 100, rtt_var = 0,
      packet_size = max_packet_size, last_window_size_transmitted = 128 * 1024,
      bytes_received = 0, bytes_sent = 0, packets_received = 0, packets_sent = 0,
      c_readable = False, c_writeable = False,
      local_wnd = LocalWindow_new (128 * 1024), remote_wnd = RemoteWindow_new,
      output_buffer = CircularBuffer_new buf (64 * 1024), fin_sent = False, last_packet_sent = 0,
      delay_window = [], attempts = 0, transmitted = []\<rparr>"

section \<open>Sending\<close>

definition startTimer :: "utp_env \<Rightarrow> connection \<Rightarrow> connection" where
  "startTimer env c = c\<lparr>absolute_timeout := now_ms env + ucast (c_timeout c)\<rparr>"

definition extensionLength :: "connection \<Rightarrow> nat" where
  "extensionLength c =
     (let sack_bits = selectiveAckBits (local_wnd c)
      in if sack_bits > 0 then 2 + min (sack_bits div 8) 4 else 0)"

definition sack_mask :: "connection \<Rightarrow> byte list option" where
  "sack_mask c =
     (if extensionLength c = 0 then None else Some (fillSelectiveAck (local_wnd c) (extensionLength c - 2)))"

definition make_header :: "utp_env \<Rightarrow> u4 \<Rightarrow> u16 \<Rightarrow> u16 \<Rightarrow> u16 \<Rightarrow> connection \<Rightarrow> utp_header" where
  "make_header env ty conn_id s ack c =
     \<lparr>version = 1, pkt_type = ty, extension = (if extensionLength c = 0 then 0 else SELECTIVE_ACK_ID),
      connection_id = conn_id, timestamp_microseconds = now_us env,
      timestamp_difference_microseconds = reply_micro c,
      hdr_wnd_size = of_nat (window_space (local_wnd c)), seq_nr = s, ack_nr = ack\<rparr>"

text \<open>The transmitter: a packet is accepted or the send fails with a transmission error.\<close>

definition send_to :: "utp_env \<Rightarrow> packet_buffer \<Rightarrow> connection \<Rightarrow> conn_error option \<times> connection" where
  "send_to env packet c =
     (if send_ok env (attempts c)
      then (None, c\<lparr>attempts := attempts c + 1, transmitted := transmitted c @ [pb_data packet],
                    last_packet_sent := now_ms env, packets_sent := packets_sent c + 1\<rparr>)
      else (Some TransmissionError, c\<lparr>attempts := attempts c + 1\<rparr>))"

definition sendPacket :: "utp_env \<Rightarrow> u4 \<Rightarrow> u16 \<Rightarrow> connection \<Rightarrow> conn_error option \<times> connection" where
  "sendPacket env ty p_ack_nr c =
     (let hdr = make_header env ty (if ty = ST_SYN then recv_connection_id c else send_connection_id c)
                  (c_seq_nr c) p_ack_nr c;
          c = c\<lparr>last_window_size_transmitted := window_space (local_wnd c)\<rparr>
      in case finish_packet hdr (sack_mask c) (PacketBuffer_new (pool_mem env)) of
           Inl e \<Rightarrow> (Some (MemoryError e), c)
         | Inr (_, packet) \<Rightarrow>
             (case send_to env packet c of
                (Some e, c) \<Rightarrow> (Some e, c)
              | (None, c) \<Rightarrow> (None, startTimer env c)))"

definition sendSYN :: "utp_env \<Rightarrow> connection \<Rightarrow> conn_error option \<times> connection" where
  "sendSYN env c =
     (let c = c\<lparr>c_seq_nr := 1, c_state := SYN_SENT, c_timeout := CONNECT_TIMEOUT\<rparr>;
          (e, c) = sendPacket env ST_SYN 0 c
      in (e, if e = None then c\<lparr>c_seq_nr := c_seq_nr c + 1\<rparr> else c))"

definition sendState :: "utp_env \<Rightarrow> connection \<Rightarrow> conn_error option \<times> connection" where
  "sendState env c = sendPacket env ST_STATE (last_seq_nr (local_wnd c)) c"

definition sendFIN :: "utp_env \<Rightarrow> connection \<Rightarrow> conn_error option \<times> connection" where
  "sendFIN env c = sendPacket env ST_FIN (last_seq_nr (local_wnd c)) c"

definition sendReset :: "utp_env \<Rightarrow> connection \<Rightarrow> conn_error option \<times> connection" where
  "sendReset env c = sendPacket env ST_RESET (last_seq_nr (local_wnd c)) c"

definition startConnecting :: "utp_env \<Rightarrow> connection \<Rightarrow> conn_error option \<times> connection" where
  "startConnecting env c = (if c_type c = OUTGOING then sendSYN env c else (None, c))"

text \<open>A header that does not fit is a transmission error.\<close>

definition sendDataPacket ::
  "utp_env \<Rightarrow> packet_buffer \<Rightarrow> u16 \<Rightarrow> connection \<Rightarrow> conn_error option \<times> packet_buffer \<times> connection" where
  "sendDataPacket env packet s c =
     (let hdr = make_header env ST_DATA (send_connection_id c) s (last_seq_nr (local_wnd c)) c;
          c = c\<lparr>last_window_size_transmitted := window_space (local_wnd c)\<rparr>
      in case setHeader hdr (extensionLength c) packet of
           Inl e \<Rightarrow> (Some (MemoryError e), packet, c)
         | Inr (False, packet) \<Rightarrow> (Some TransmissionError, packet, c)
         | Inr (True, packet) \<Rightarrow>
             (let packet = (case sack_mask c of None \<Rightarrow> packet | Some bm \<Rightarrow> put_extension bm packet);
                  (e, c) = send_to env packet c
              in (e, packet, c)))"

definition retransmit :: "utp_env \<Rightarrow> packet_buffer \<Rightarrow> u16 \<Rightarrow> connection \<Rightarrow> bool \<times> packet_buffer \<times> connection" where
  "retransmit env packet p_seq_nr c =
     (let (e, packet, c) = sendDataPacket env packet p_seq_nr c
      in (e = None, packet, if e = None then startTimer env c else c))"

lemma send_to_output [simp]: "output_buffer (snd (send_to env packet c)) = output_buffer c"
  by (simp add: send_to_def)

lemma sendDataPacket_output [simp]:
  "output_buffer (snd (snd (sendDataPacket env packet s c))) = output_buffer c"
  by (auto simp: sendDataPacket_def Let_def case_prod_beta split: sum.splits bool.splits)

lemma sendDataPacket_outputD:
  "sendDataPacket env packet s c = (e, packet', c') \<Longrightarrow> output_buffer c' = output_buffer c"
  using sendDataPacket_output [of env packet s c] by simp

lemma fillData_shrinks:
  "fillData cbuf n pb = (k, buf, pb') \<Longrightarrow> 0 < n \<Longrightarrow> 0 < buf_size cbuf \<Longrightarrow> buf_size buf < buf_size cbuf"
  by (auto simp: fillData_def Let_def cb_read_def cb_empty_def MAX_SIZE_def Header_size_def
      split: prod.splits if_splits)

text \<open>
  The loop of \<^verbatim>\<open>sendPackets\<close>: the output buffer is chopped into packets while the remote window
  has room. Every round takes at least one byte from the buffer.
\<close>

definition chunk_size :: "connection \<Rightarrow> nat" where
  "chunk_size c = min (min (min (buf_size (output_buffer c)) (unat (rw_availableSpace (remote_wnd c))))
     (packet_size c)) (MAX_SIZE - extensionLength c - Header_size)"

function send_loop :: "utp_env \<Rightarrow> connection \<Rightarrow> conn_error option \<times> connection" where
  "send_loop env c =
     (if buf_size (output_buffer c) > 0 \<and> rw_availableSpace (remote_wnd c) > 0 \<and> chunk_size c > 0 then
        let (_, buf, packet) = fillData (output_buffer c) (chunk_size c) (PacketBuffer_new (pool_mem env));
            (e, packet, c) = sendDataPacket env packet (c_seq_nr c) (c\<lparr>output_buffer := buf\<rparr>)
        in if e \<noteq> None then (e, c)
           else send_loop env (c\<lparr>remote_wnd := addPacket packet (c_seq_nr c) (now_ms env) (remote_wnd c),
                                 c_seq_nr := c_seq_nr c + 1\<rparr>)
      else (None, c))"
  by auto
termination
  by (relation "measure (\<lambda>(env, c). buf_size (output_buffer c))")
    (auto dest!: sendDataPacket_outputD [OF sym] fillData_shrinks [OF sym])

declare send_loop.simps [simp del]

definition sendPackets :: "utp_env \<Rightarrow> connection \<Rightarrow> conn_error option \<times> connection" where
  "sendPackets env c =
     (let (e, c) = send_loop env c
      in if e \<noteq> None then (e, c)
         else if c_state c = FINISHED \<and> \<not> fin_sent c \<and> buf_size (output_buffer c) = 0 then
           let (e, c) = sendFIN env c in (e, if e = None then c\<lparr>fin_sent := True\<rparr> else c)
         else (None, startTimer env c))"

definition sendStateOrData :: "utp_env \<Rightarrow> connection \<Rightarrow> conn_error option \<times> connection" where
  "sendStateOrData env c =
     (if buf_size (output_buffer c) > 0 \<and> rw_availableSpace (remote_wnd c) > 0 then sendPackets env c
      else sendState env c)"

text \<open>Sequencing of statements that may throw.\<close>

definition and_then ::
  "conn_error option \<times> connection \<Rightarrow> (connection \<Rightarrow> conn_error option \<times> connection) \<Rightarrow> conn_error option \<times> connection" where
  "and_then r f = (case r of (None, c) \<Rightarrow> f c | (Some e, c) \<Rightarrow> (Some e, c))"

definition conn_send :: "utp_env \<Rightarrow> byte list \<Rightarrow> connection \<Rightarrow> conn_error option \<times> int \<times> connection" where
  "conn_send env dat c =
     (if c_state c \<noteq> CONNECTED then (None, -1, c)
      else
        let (ret, buf) = cb_write dat (output_buffer c);
            (e, c) = sendPackets env (c\<lparr>output_buffer := buf\<rparr>)
        in (e, int ret, if e = None then c\<lparr>c_writeable := \<not> cb_full (output_buffer c)\<rparr> else c))"

section \<open>Receiving\<close>

text \<open>The retransmitter interface of the connection. The round trip time is an \<^verbatim>\<open>int\<close>, divided
  towards zero.\<close>

definition updateRTT :: "utp_header \<Rightarrow> u64 \<Rightarrow> nat \<Rightarrow> connection \<Rightarrow> connection" where
  "updateRTT hdr packet_rtt pkt_size c =
     (let r = sint (ucast packet_rtt :: u32);
          delta = rtt c - r;
          v = rtt_var c + (\<bar>delta\<bar> - rtt_var c) sdiv 4;
          t = rtt c + (r - rtt c) sdiv 8
      in c\<lparr>rtt_var := v, rtt := t, c_timeout := word_of_int (max (t + v * 4) 500),
           bytes_sent := bytes_sent c + pkt_size\<rparr>)"

definition conn_retransmitter :: "utp_env \<Rightarrow> connection retransmitter" where
  "conn_retransmitter env = \<lparr>updateRTT_of = updateRTT, retransmit_of = retransmit env, currentTimeout_of = c_timeout\<rparr>"

text \<open>The gain is computed by \<open>window_gain\<close> from our delay and the window factor.\<close>

definition updateDelayMeasurement :: "utp_env \<Rightarrow> utp_header \<Rightarrow> u32 \<times> u32 \<Rightarrow> connection \<Rightarrow> connection" where
  "updateDelayMeasurement env hdr window_factor c =
     (let tms = now_us env;
          c = c\<lparr>reply_micro := (if tms > timestamp_microseconds hdr then tms - timestamp_microseconds hdr
                 else timestamp_difference_microseconds hdr - tms)\<rparr>;
          (base_delay, dw) = dw_update (dw_push env) 100 (timestamp_difference_microseconds hdr) (now_ms env) (delay_window c);
          our_delay = timestamp_difference_microseconds hdr - base_delay;
          rw = updateWindowSize (window_gain env our_delay window_factor) (remote_wnd c);
          c = c\<lparr>delay_window := dw, remote_wnd := rw\<rparr>
      in c\<lparr>packet_size :=
           (if max_window rw \<le> MIN_PACKET_SIZE then unat MIN_PACKET_SIZE
            else if max_window rw \<le> 1000 then 500
            else if max_window rw \<le> 5000 then 1000
            else max_packet_size)\<rparr>)"

definition checkState :: "connection \<Rightarrow> connection" where
  "checkState c = c\<lparr>c_readable := lw_isReadable (local_wnd c) \<or> c_state c = CLOSED,
     c_writeable := rw_availableSpace (remote_wnd c) > 0 \<and> c_state c = CONNECTED\<rparr>"

definition checkIfClosed :: "connection \<Rightarrow> connection" where
  "checkIfClosed c =
     (if c_state c = FINISHED \<and> allPacketsAcked (remote_wnd c) \<and> lw_isEmpty (local_wnd c)
      then c\<lparr>c_state := CLOSED\<rparr> else c)"

definition reset_and_close :: "utp_env \<Rightarrow> connection \<Rightarrow> conn_error option \<times> connection" where
  "reset_and_close env c = and_then (sendReset env c) (\<lambda>c. (None, c\<lparr>c_state := CLOSED\<rparr>))"

text \<open>\<open>push_data\<close> is the call of the local window's \<^verbatim>\<open>packetReceived\<close> with the two ways to go on.\<close>

definition push_data ::
  "utp_header \<Rightarrow> byte list \<Rightarrow> nat \<Rightarrow> connection \<Rightarrow> (connection \<Rightarrow> conn_error option \<times> connection) \<Rightarrow>
   (connection \<Rightarrow> conn_error option \<times> connection) \<Rightarrow> conn_error option \<times> connection" where
  "push_data hdr packet data_off c panic k =
     (case lw_packetReceived (seq_nr hdr) packet data_off (local_wnd c) of
        Inl e \<Rightarrow> (Some (MemoryError e), c)
      | Inr (True, lw) \<Rightarrow> k (c\<lparr>local_wnd := lw\<rparr>)
      | Inr (False, lw) \<Rightarrow> panic (c\<lparr>local_wnd := lw\<rparr>))"

definition handle_connected :: "utp_env \<Rightarrow> parsed_packet \<Rightarrow> byte list \<Rightarrow> connection \<Rightarrow> conn_error option \<times> connection" where
  "handle_connected env parser packet c =
     (let hdr = p_header parser in
      if pkt_type hdr = ST_DATA then
        push_data hdr packet (p_data_off parser) c (reset_and_close env) (sendStateOrData env)
      else if pkt_type hdr = ST_STATE then sendPackets env c
      else if pkt_type hdr = ST_FIN then
        and_then (sendPackets env (c\<lparr>eof_seq_nr := uint (seq_nr hdr), c_state := FINISHED\<rparr>))
          (\<lambda>c. (None, checkIfClosed c))
      else reset_and_close env c)"

text \<open>\<^verbatim>\<open>eof_seq_nr\<close> is an \<^verbatim>\<open>int\<close> that is converted to 16 bits when it is compared.\<close>

definition handle_finished :: "utp_env \<Rightarrow> parsed_packet \<Rightarrow> byte list \<Rightarrow> connection \<Rightarrow> conn_error option \<times> connection" where
  "handle_finished env parser packet c =
     (let hdr = p_header parser;
          ack = (\<lambda>c. and_then (and_then (sendStateOrData env c)
             (\<lambda>c. if c_state c = FINISHED \<and> \<not> fin_sent c \<and> buf_size (output_buffer c) = 0
                  then and_then (sendFIN env c) (\<lambda>c. (None, c\<lparr>fin_sent := True\<rparr>)) else (None, c)))
             (\<lambda>c. (None, checkIfClosed c)))
      in
      if pkt_type hdr = ST_DATA then
        (if SeqNrCmpSE (seq_nr hdr) (word_of_int (eof_seq_nr c))
         then push_data hdr packet (p_data_off parser) c (reset_and_close env) ack
         else ack c)
      else if pkt_type hdr = ST_STATE then
        and_then (sendPackets env c) (\<lambda>c. (None, checkIfClosed c))
      else if pkt_type hdr = ST_FIN then
        and_then (sendPackets env (c\<lparr>eof_seq_nr := uint (seq_nr hdr)\<rparr>)) (\<lambda>c. (None, checkIfClosed c))
      else reset_and_close env c)"

definition handle_state :: "utp_env \<Rightarrow> parsed_packet \<Rightarrow> byte list \<Rightarrow> connection \<Rightarrow> conn_error option \<times> connection" where
  "handle_state env parser packet c =
     (let hdr = p_header parser in
      case c_state c of
        SYN_SENT \<Rightarrow>
          if pkt_type hdr = ST_STATE then
            (None, c\<lparr>c_state := CONNECTED, local_wnd := setLastSeqNr (seq_nr hdr - 1) (local_wnd c), c_timeout := 1000\<rparr>)
          else reset_and_close env c
      | IDLE \<Rightarrow>
          if pkt_type hdr = ST_SYN then
            and_then (sendState env (c\<lparr>local_wnd := setLastSeqNr (seq_nr hdr) (local_wnd c)\<rparr>))
              (\<lambda>c. (None, c\<lparr>c_state := CONNECTED, c_timeout := 1000\<rparr>))
          else reset_and_close env c
      | CONNECTED \<Rightarrow> handle_connected env parser packet c
      | FINISHED \<Rightarrow> handle_finished env parser packet c
      | CLOSED \<Rightarrow> (None, c))"

definition handlePacket :: "utp_env \<Rightarrow> parsed_packet \<Rightarrow> byte list \<Rightarrow> connection \<Rightarrow> conn_error option \<times> connection" where
  "handlePacket env parser packet c =
     (let c = c\<lparr>packets_received := packets_received c + 1\<rparr>;
          (factor, rw, c) = rw_packetReceived (conn_retransmitter env) (shrink_window env) (p_header parser)
             (p_sack parser) (now_ms env) (remote_wnd c) c;
          c = updateDelayMeasurement env (p_header parser) factor (c\<lparr>remote_wnd := rw\<rparr>)
      in and_then (handle_state env parser packet c) (\<lambda>c. (None, startTimer env (checkState c))))"

text \<open>\<open>recv\<close> returns -1 on a closed connection without data.\<close>

definition conn_recv :: "utp_env \<Rightarrow> nat \<Rightarrow> connection \<Rightarrow> conn_error option \<times> byte list option \<times> connection" where
  "conn_recv env max_len c =
     (let c = (if c_state c = FINISHED then checkIfClosed c else c)
      in if bytes_available (local_wnd c) = 0 \<and> c_state c = CLOSED then (None, None, c)
      else case lw_read max_len (local_wnd c) of
             Inl e \<Rightarrow> (Some (MemoryError e), None, c)
           | Inr (bytes, lw) \<Rightarrow>
               let c = c\<lparr>local_wnd := lw\<rparr>;
                   (e, c) = (if last_window_size_transmitted c < 2000 \<and> window_space lw > 2000
                             then sendState env c else (None, c))
               in (e, Some bytes,
                   if e = None then c\<lparr>bytes_received := bytes_received c + length bytes,
                        c_readable := lw_isReadable (local_wnd c)\<rparr> else c))"

section \<open>Closing and timeouts\<close>

definition conn_close :: "utp_env \<Rightarrow> connection \<Rightarrow> conn_error option \<times> connection" where
  "conn_close env c =
     (if c_state c = CONNECTED then sendPackets env (c\<lparr>c_state := FINISHED\<rparr>) else (None, c))"

definition conn_reset :: "utp_env \<Rightarrow> connection \<Rightarrow> conn_error option \<times> connection" where
  "conn_reset env c =
     (if c_state c \<noteq> CLOSED then
        and_then (sendReset env c) (\<lambda>c. (None, c\<lparr>c_state := CLOSED, remote_wnd := rw_clear (remote_wnd c)\<rparr>))
      else (None, c))"

definition timeout_connected :: "utp_env \<Rightarrow> connection \<Rightarrow> conn_error option \<times> connection" where
  "timeout_connected env c =
     (let (rw, c) = rw_timeout (conn_retransmitter env) (now_ms env) (remote_wnd c) c;
          c = c\<lparr>remote_wnd := rw, packet_size := unat MIN_PACKET_SIZE, c_timeout := c_timeout c * 2\<rparr>
      in if c_timeout c \<ge> MAX_TIMEOUT then sendReset env (c\<lparr>c_state := FINISHED\<rparr>)
         else and_then (sendPackets env c)
           (\<lambda>c. if now_ms env - last_packet_sent c > KEEP_ALIVE_TIMEOUT then sendState env c else (None, c)))"

definition handleTimeout :: "utp_env \<Rightarrow> connection \<Rightarrow> conn_error option \<times> connection" where
  "handleTimeout env c =
     and_then
       (case c_state c of
          SYN_SENT \<Rightarrow> (None, c\<lparr>c_state := CLOSED\<rparr>)
        | FINISHED \<Rightarrow> (None, c\<lparr>c_state := CLOSED\<rparr>)
        | CONNECTED \<Rightarrow> timeout_connected env c
        | IDLE \<Rightarrow> (None, startTimer env c)
        | CLOSED \<Rightarrow> (None, c))
       (\<lambda>c. (None, checkState c))"

definition checkTimeout :: "utp_env \<Rightarrow> connection \<Rightarrow> conn_error option \<times> connection" where
  "checkTimeout env c = (if now_ms env \<ge> absolute_timeout c then handleTimeout env c else (None, c))"

section \<open>Packets always fit\<close>

text \<open>Data packets of the connection leave at least 48 bytes in front of their payload.\<close>

definition good_packet :: "packet_buffer \<Rightarrow> bool" where
  "good_packet p \<longleftrightarrow> pb_wf p \<and> (\<exists>q. pb_payload p = Some q \<and> 48 \<le> q)"

lemma length_fillSelectiveAck [simp]: "length (fillSelectiveAck lw n) = n"
proof -
  have "length (fold (\<lambda>p bm. if wp_packet p \<noteq> None then Ack (unat (SeqNrDiff (last_seq_nr lw) (wp_seq p))) bm else bm) ps bm) =
      length bm" for bm and ps :: "window_packet list"
    by (induction ps arbitrary: bm) simp_all
  then show ?thesis by (simp add: fillSelectiveAck_def)
qed

lemma extensionLength_bounds: "extensionLength c \<le> 6" "extensionLength c = 0 \<or> 2 \<le> extensionLength c"
  by (auto simp: extensionLength_def Let_def)

lemma mask_length_sack [simp]: "mask_length (sack_mask c) = extensionLength c"
  using extensionLength_bounds(2) [of c] by (auto simp: mask_length_def sack_mask_def)

lemma extension_make_header: "extension (make_header env ty i s a c) = first_id (mask_extension (sack_mask c))"
  by (simp add: make_header_def sack_mask_def mask_extension_def first_id_def)

lemma core_update [simp]:
  "extensionLength (c\<lparr>last_window_size_transmitted := w\<rparr>) = extensionLength c"
  "sack_mask (c\<lparr>last_window_size_transmitted := w\<rparr>) = sack_mask c"
  by (simp_all add: extensionLength_def sack_mask_def)

text \<open>The parts of a connection that sending one packet does not touch.\<close>

definition same_core :: "connection \<Rightarrow> connection \<Rightarrow> bool" where
  "same_core c c' \<longleftrightarrow> remote_wnd c' = remote_wnd c \<and> output_buffer c' = output_buffer c \<and> packet_size c' = packet_size c \<and>
     c_state c' = c_state c \<and> local_wnd c' = local_wnd c \<and> c_seq_nr c' = c_seq_nr c \<and> fin_sent c' = fin_sent c"

lemma same_core_refl [simp]: "same_core c c"
  by (simp add: same_core_def)

lemma same_core_startTimer [simp]: "same_core c (startTimer env d) \<longleftrightarrow> same_core c d"
  by (simp add: same_core_def startTimer_def)

lemma send_to_core: "send_to env packet c = (e, c') \<Longrightarrow> same_core c c' \<and> (e = None \<or> e = Some TransmissionError)"
  by (auto simp: send_to_def same_core_def split: if_splits)

definition env_ok :: "utp_env \<Rightarrow> bool" where
  "env_ok env \<longleftrightarrow> length (pool_mem env) = 1500"

lemma finish_packet_new:
  assumes "env_ok env" and "mask_length sk \<le> 20"
  shows "\<exists>pb. finish_packet hdr sk (PacketBuffer_new (pool_mem env)) = Inr (True, pb)"
  using assms by (simp add: finish_packet_def setHeader_def PacketBuffer_new_def headRoom_def setHeader_guard
      MAX_SIZE_def)

lemma sendPacket_core:
  assumes "env_ok env" and "sendPacket env ty a c = (e, c')"
  shows "same_core c c' \<and> (e = None \<or> e = Some TransmissionError)"
proof -
  let ?c = "c\<lparr>last_window_size_transmitted := window_space (local_wnd c)\<rparr>"
  have "mask_length (sack_mask ?c) \<le> 20" using extensionLength_bounds(1) [of c] by simp
  from finish_packet_new [OF assms(1) this] obtain pb where
    "finish_packet (make_header env ty (if ty = ST_SYN then recv_connection_id c else send_connection_id c) (c_seq_nr c) a c)
       (sack_mask ?c) (PacketBuffer_new (pool_mem env)) = Inr (True, pb)" by blast
  then have "(case send_to env pb ?c of (Some e, c) \<Rightarrow> (Some e, c) | (None, c) \<Rightarrow> (None, startTimer env c)) = (e, c')"
    using assms(2) by (simp add: sendPacket_def Let_def)
  then have "same_core ?c c' \<and> (e = None \<or> e = Some TransmissionError)"
    by (auto dest: send_to_core split: prod.splits option.splits)
  then show ?thesis by (simp add: same_core_def)
qed

lemma send_to_succeeds: "send_ok env (attempts c) \<Longrightarrow> fst (send_to env packet c) = None"
  by (simp add: send_to_def)

lemma sendDataPacket_good:
  assumes "good_packet packet" and "sendDataPacket env packet s c = (e, packet', c')"
  shows "good_packet packet'" and "pb_payload_bytes packet' = pb_payload_bytes packet"
    and "same_core c c'" and "e = None \<or> e = Some TransmissionError"
    and "e = None \<Longrightarrow> transmitted c' = transmitted c @
      [header_bytes (make_header env ST_DATA (send_connection_id c) s (last_seq_nr (local_wnd c)) c) @
       encode_extensions (mask_extension (sack_mask c)) @ pb_payload_bytes packet]"
    and "(\<forall>n. send_ok env n) \<Longrightarrow> e = None"
proof -
  let ?hdr = "make_header env ST_DATA (send_connection_id c) s (last_seq_nr (local_wnd c)) c"
  let ?c = "c\<lparr>last_window_size_transmitted := window_space (local_wnd c)\<rparr>"
  obtain q where q: "pb_wf packet" "pb_payload packet = Some q" "48 \<le> q" using assms(1) by (auto simp: good_packet_def)
  have "20 + mask_length (sack_mask c) \<le> q" "mask_length (sack_mask c) \<le> 20"
    using q(3) extensionLength_bounds(1) [of c] by simp_all
  from finish_packet_bytes [OF q(1,2) this, of ?hdr] obtain pb' where
    fin: "finish_packet ?hdr (sack_mask c) packet = Inr (True, pb')"
    and pb': "pb_wf pb'" "pb_payload pb' = Some q" "pb_payload_bytes pb' = pb_payload_bytes packet"
      "pb_data pb' = header_bytes ?hdr @ encode_extensions (mask_extension (sack_mask c)) @ pb_payload_bytes packet"
    by blast
  obtain pb1 where "setHeader ?hdr (extensionLength c) packet = Inr (True, pb1)"
      "pb' = (case sack_mask c of None \<Rightarrow> pb1 | Some bm \<Rightarrow> put_extension bm pb1)"
    using fin by (auto simp: finish_packet_def)
  then have "send_to env pb' ?c = (e, c')" and p: "packet' = pb'"
    using assms(2) by (auto simp: sendDataPacket_def Let_def split: prod.splits)
  then show "same_core c c'" "e = None \<or> e = Some TransmissionError"
      "e = None \<Longrightarrow> transmitted c' = transmitted c @ [header_bytes ?hdr @
         encode_extensions (mask_extension (sack_mask c)) @ pb_payload_bytes packet]"
    using send_to_core [of env pb' ?c e c'] pb'(4) by (auto simp: same_core_def send_to_def split: if_splits)
  show "(\<forall>n. send_ok env n) \<Longrightarrow> e = None"
    using send_to_succeeds [of env ?c pb'] \<open>send_to env pb' ?c = (e, c')\<close> by simp
  show "good_packet packet'" "pb_payload_bytes packet' = pb_payload_bytes packet"
    using pb' q(3) by (simp_all add: p good_packet_def)
qed

interpretation rt: retransmission "conn_retransmitter env" good_packet for env
proof
  fix p s c ok p' c'
  assume p: "good_packet p" "retransmit_of (conn_retransmitter env) p s c = (ok, p', c')"
  then obtain e d where "sendDataPacket env p s c = (e, p', d)"
    by (auto simp: conn_retransmitter_def retransmit_def Let_def split: prod.splits)
  from sendDataPacket_good(1,2) [OF p(1) this] show "good_packet p'" "pb_payload_bytes p' = pb_payload_bytes p" .
qed (simp add: good_packet_def)

section \<open>Chopping the output buffer\<close>

definition conn_ok :: "connection \<Rightarrow> bool" where
  "conn_ok c \<longleftrightarrow> cb_inv (output_buffer c) \<and> packet_size c \<le> max_packet_size \<and>
     retransmission.rw_good good_packet (remote_wnd c)"

lemma conn_ok_core: "same_core c c' \<Longrightarrow> conn_ok c \<Longrightarrow> conn_ok c'"
  by (simp add: conn_ok_def same_core_def)

text \<open>\<open>chopped c new c'\<close>: between the two states the packets \<open>new\<close> were put in flight, numbered on from
  the connection's sequence number, and their payloads are what left the output buffer.\<close>

definition chopped :: "connection \<Rightarrow> (u16 \<times> byte list) list \<Rightarrow> connection \<Rightarrow> bool" where
  "chopped c new c' \<longleftrightarrow>
     map flight (unacked_packets (remote_wnd c')) = map flight (unacked_packets (remote_wnd c)) @ new \<and>
     concat (map snd new) @ cb_content (output_buffer c') = cb_content (output_buffer c) \<and>
     map fst new = map (\<lambda>k. c_seq_nr c + of_nat k) [0..<length new] \<and>
     c_seq_nr c' = c_seq_nr c + of_nat (length new) \<and> (\<forall>x \<in> set new. snd x \<noteq> [])"

lemma chopped_Nil: "chopped c [] c"
  by (simp add: chopped_def)

lemma chopped_Cons:
  assumes "chopped c [(s, bytes)] c1" and "chopped c1 new c'"
  shows "chopped c ((s, bytes) # new) c'"
proof -
  have "[0..<length ((s, bytes) # new)] = 0 # map Suc [0..<length new]"
    by (simp add: upt_conv_Cons map_Suc_upt del: upt_Suc)
  moreover have "[0..<Suc 0] = [0]" by simp
  ultimately show ?thesis using assms by (auto simp: chopped_def ac_simps simp del: upt_Suc)
qed

text \<open>One round of the loop.\<close>

lemma send_round:
  assumes c: "conn_ok c" and env: "env_ok env"
    and n: "0 < buf_size (output_buffer c)" "0 < rw_availableSpace (remote_wnd c)" "0 < chunk_size c"
    and fill: "fillData (output_buffer c) (chunk_size c) (PacketBuffer_new (pool_mem env)) = (k, buf, packet)"
    and send: "sendDataPacket env packet (c_seq_nr c) (c\<lparr>output_buffer := buf\<rparr>) = (e, packet', d)"
    and c1: "c1 = d\<lparr>remote_wnd := addPacket packet' (c_seq_nr d) (now_ms env) (remote_wnd d), c_seq_nr := c_seq_nr d + 1\<rparr>"
  shows "conn_ok d" and "e = None \<or> e = Some TransmissionError" and "conn_ok c1"
    and "chopped c [(c_seq_nr c, take (chunk_size c) (cb_content (output_buffer c)))] c1"
    and "c_state d = c_state c" and "local_wnd d = local_wnd c" and "fin_sent d = fin_sent c"
    and "(\<forall>n. send_ok env n) \<Longrightarrow> e = None"
proof -
  have inv: "cb_inv (output_buffer c)" "packet_size c \<le> 1452"
    and wf: "retransmission.rw_good good_packet (remote_wnd c)"
    using c by (simp_all add: conn_ok_def max_packet_size_def IP_AND_UDP_OVERHEAD_def)
  have len: "length (cb_content (output_buffer c)) = buf_size (output_buffer c)" by (simp add: cb_content_def)
  have size: "chunk_size c \<le> buf_size (output_buffer c)" "chunk_size c \<le> 1452"
    using inv(2) by (auto simp: chunk_size_def)
  have "pb_wf (PacketBuffer_new (pool_mem env))"
    using env by (simp add: pb_wf_def PacketBuffer_new_def env_ok_def MAX_SIZE_def)
  from fillData_payload [OF this inv(1) _ _ fill] len size
  have p: "pb_wf packet" "pb_payload packet = Some (1500 - chunk_size c)"
      "pb_payload_bytes packet = take (chunk_size c) (cb_content (output_buffer c))"
    and buf: "cb_inv buf" "cb_content buf = drop (chunk_size c) (cb_content (output_buffer c))"
    by simp_all
  have good: "good_packet packet" using p size by (simp add: good_packet_def)
  note s = sendDataPacket_good [OF good send]
  have d: "remote_wnd d = remote_wnd c" "output_buffer d = buf" "packet_size d = packet_size c" "c_seq_nr d = c_seq_nr c"
      "c_state d = c_state c" "local_wnd d = local_wnd c" "fin_sent d = fin_sent c"
    using s(3) by (simp_all add: same_core_def)
  then show "c_state d = c_state c" "local_wnd d = local_wnd c" "fin_sent d = fin_sent c" by simp_all
  show "conn_ok d" using buf(1) inv(2) wf d by (simp add: conn_ok_def max_packet_size_def IP_AND_UDP_OVERHEAD_def)
  show "e = None \<or> e = Some TransmissionError" by (rule s(4))
  show "(\<forall>n. send_ok env n) \<Longrightarrow> e = None" by (rule s(6))
  show "conn_ok c1"
    using buf(1) inv(2) wf d rt.rw_wf_add(1) [OF wf s(1)]
    by (simp add: conn_ok_def c1 max_packet_size_def IP_AND_UDP_OVERHEAD_def)
  have "take (chunk_size c) (cb_content (output_buffer c)) \<noteq> []" using n len by auto
  then show "chopped c [(c_seq_nr c, take (chunk_size c) (cb_content (output_buffer c)))] c1"
    using d buf(2) s(2) p(3) by (simp add: chopped_def c1 addPacket_def flight_def)
qed

lemma send_loop_chops:
  assumes "conn_ok c" and "env_ok env" and "send_loop env c = (e, c')"
  shows "conn_ok c' \<and> (e = None \<or> e = Some TransmissionError) \<and> c_state c' = c_state c \<and>
    local_wnd c' = local_wnd c \<and> fin_sent c' = fin_sent c \<and> (e = None \<longrightarrow> (\<exists>new. chopped c new c'))"
  using assms
proof (induction env c rule: send_loop.induct)
  case (1 env c)
  show ?case
  proof (cases "buf_size (output_buffer c) > 0 \<and> rw_availableSpace (remote_wnd c) > 0 \<and> chunk_size c > 0")
    case False
    then have "(e, c') = (None, c)" using 1(4) by (subst (asm) send_loop.simps) auto
    then show ?thesis using 1(2) chopped_Nil by auto
  next
    case True
    obtain k buf packet where f: "fillData (output_buffer c) (chunk_size c) (PacketBuffer_new (pool_mem env)) = (k, buf, packet)"
      by (metis prod_cases3)
    obtain e1 packet' d where s: "sendDataPacket env packet (c_seq_nr c) (c\<lparr>output_buffer := buf\<rparr>) = (e1, packet', d)"
      by (metis prod_cases3)
    let ?c1 = "d\<lparr>remote_wnd := addPacket packet' (c_seq_nr d) (now_ms env) (remote_wnd d), c_seq_nr := c_seq_nr d + 1\<rparr>"
    note r = send_round [OF 1(2,3) _ _ _ f s refl] 
    have loop: "(if e1 \<noteq> None then (e1, d) else send_loop env ?c1) = (e, c')"
      using 1(4) True f s by (subst (asm) send_loop.simps) (simp split: if_splits)
    show ?thesis
    proof (cases "e1 = None")
      case False
      then show ?thesis using loop r True by auto
    next
      case True
      then have "send_loop env ?c1 = (e, c')" using loop by simp
      then have "conn_ok c' \<and> (e = None \<or> e = Some TransmissionError) \<and> c_state c' = c_state ?c1 \<and>
          local_wnd c' = local_wnd ?c1 \<and> fin_sent c' = fin_sent ?c1 \<and> (e = None \<longrightarrow> (\<exists>new. chopped ?c1 new c'))"
        using 1(1) f s True \<open>0 < buf_size (output_buffer c) \<and> 0 < rw_availableSpace (remote_wnd c) \<and> 0 < chunk_size c\<close> r(3) 1(3)
        by (metis (no_types, lifting))
      then show ?thesis using r \<open>0 < buf_size (output_buffer c) \<and> 0 < rw_availableSpace (remote_wnd c) \<and> 0 < chunk_size c\<close>
        by (auto intro: chopped_Cons)
    qed
  qed
qed

section \<open>The invariant of a connection\<close>

lemma and_then_None: "and_then r f = (None, c') \<longleftrightarrow> (\<exists>c. r = (None, c) \<and> f c = (None, c'))"
  by (auto simp: and_then_def split: prod.splits option.splits)

text \<open>A statement is safe when it keeps the invariant and writes no header in front of its buffer.\<close>

definition safe :: "conn_error option \<times> connection \<Rightarrow> bool" where
  "safe r \<longleftrightarrow> conn_ok (snd r) \<and> fst r \<noteq> Some (MemoryError Underrun)"

lemma safe_simps [simp]: "safe (None, c) \<longleftrightarrow> conn_ok c" "safe (Some TransmissionError, c) \<longleftrightarrow> conn_ok c"
  by (simp_all add: safe_def)

lemma safe_and_then:
  assumes "safe r" and "\<And>c. conn_ok c \<Longrightarrow> safe (f c)"
  shows "safe (and_then r f)"
proof -
  obtain e c where r: "r = (e, c)" by fastforce
  show ?thesis using assms(1) assms(2) [of c] unfolding r by (cases e) (simp_all add: and_then_def safe_def)
qed

lemma conn_ok_fields [simp]:
  "conn_ok (c\<lparr>c_state := st\<rparr>) \<longleftrightarrow> conn_ok c" "conn_ok (c\<lparr>fin_sent := b\<rparr>) \<longleftrightarrow> conn_ok c"
  "conn_ok (c\<lparr>local_wnd := lw\<rparr>) \<longleftrightarrow> conn_ok c" "conn_ok (c\<lparr>c_timeout := t\<rparr>) \<longleftrightarrow> conn_ok c"
  "conn_ok (c\<lparr>c_seq_nr := s\<rparr>) \<longleftrightarrow> conn_ok c" "conn_ok (c\<lparr>eof_seq_nr := n\<rparr>) \<longleftrightarrow> conn_ok c"
  "conn_ok (c\<lparr>c_writeable := b\<rparr>) \<longleftrightarrow> conn_ok c" "conn_ok (c\<lparr>packets_received := k\<rparr>) \<longleftrightarrow> conn_ok c"
  "conn_ok (startTimer env c) \<longleftrightarrow> conn_ok c" "conn_ok (checkState c) \<longleftrightarrow> conn_ok c" "conn_ok (checkIfClosed c) \<longleftrightarrow> conn_ok c"
  by (simp_all add: conn_ok_def startTimer_def checkState_def checkIfClosed_def)

lemma safe_sendPacket: "env_ok env \<Longrightarrow> conn_ok c \<Longrightarrow> safe (sendPacket env ty a c)"
  using sendPacket_core [of env ty a c "fst (sendPacket env ty a c)" "snd (sendPacket env ty a c)"] conn_ok_core
  by (auto simp: safe_def)

lemmas safe_control = safe_sendPacket [of env c ST_STATE "last_seq_nr (local_wnd c)" for env c, folded sendState_def]
  safe_sendPacket [of env c ST_FIN "last_seq_nr (local_wnd c)" for env c, folded sendFIN_def]
  safe_sendPacket [of env c ST_RESET "last_seq_nr (local_wnd c)" for env c, folded sendReset_def]

lemma safe_set_fin: "safe r \<Longrightarrow> safe (let (e, c) = r in (e, if e = None then c\<lparr>fin_sent := True\<rparr> else c))"
  by (cases r) (auto simp: safe_def)

lemma safe_sendPackets:
  assumes "env_ok env" and "conn_ok c"
  shows "safe (sendPackets env c)"
proof -
  obtain e d where l: "send_loop env c = (e, d)" by fastforce
  have d: "conn_ok d" "e = None \<or> e = Some TransmissionError" using send_loop_chops [OF assms(2,1) l] by simp_all
  have "safe (let (e, c) = sendFIN env d in (e, if e = None then c\<lparr>fin_sent := True\<rparr> else c))"
    by (rule safe_set_fin) (rule safe_control(2) [OF assms(1) d(1)])
  with d show ?thesis by (auto simp: sendPackets_def l safe_def [of "(e, d)"])
qed

lemma safe_sendStateOrData: "env_ok env \<Longrightarrow> conn_ok c \<Longrightarrow> safe (sendStateOrData env c)"
  by (simp add: sendStateOrData_def safe_sendPackets safe_control)

lemma safe_reset_and_close: "env_ok env \<Longrightarrow> conn_ok c \<Longrightarrow> safe (reset_and_close env c)"
  unfolding reset_and_close_def by (intro safe_and_then safe_control) simp_all

lemma safe_conn_send:
  assumes "env_ok env" and "conn_ok c" and "conn_send env dat c = (e, n, c')"
  shows "safe (e, c')"
proof (cases "c_state c = CONNECTED")
  case True
  obtain ret buf where w: "cb_write dat (output_buffer c) = (ret, buf)" by fastforce
  have "cb_inv buf" using cb.wr_inv [of "output_buffer c" dat] assms(2) w by (simp add: conn_ok_def)
  then have "conn_ok (c\<lparr>output_buffer := buf\<rparr>)" using assms(2) by (simp add: conn_ok_def)
  from safe_sendPackets [OF assms(1) this] show ?thesis
    using assms(3) True w by (auto simp: conn_send_def safe_def Let_def split: prod.splits if_splits)
next
  case False
  then show ?thesis using assms by (simp add: conn_send_def)
qed

lemma safe_conn_close: "env_ok env \<Longrightarrow> conn_ok c \<Longrightarrow> safe (conn_close env c)"
  by (simp add: conn_close_def safe_sendPackets)

lemma same_core_trans: "same_core a b \<Longrightarrow> same_core b c \<Longrightarrow> same_core a c"
  by (simp add: same_core_def)

interpretation rti: retransmission_inv "conn_retransmitter env" good_packet "same_core c0" for env c0
proof
  fix c hdr t n p s ok p' c'
  show "same_core c0 (updateRTT_of (conn_retransmitter env) hdr t n c)" if "same_core c0 c"
    using that by (simp add: conn_retransmitter_def updateRTT_def same_core_def Let_def)
  show "same_core c0 c'" if p: "good_packet p" "same_core c0 c" and r: "retransmit_of (conn_retransmitter env) p s c = (ok, p', c')"
  proof -
    obtain e d where d: "sendDataPacket env p s c = (e, p', d)" "c' = d \<or> c' = startTimer env d"
      using r by (auto simp: conn_retransmitter_def retransmit_def Let_def split: prod.splits if_splits)
    from sendDataPacket_good(3) [OF p(1) d(1)] d(2) p(2) show ?thesis using same_core_trans by auto
  qed
qed

lemma conn_ok_window:
  assumes "conn_ok c" and "retransmission.rw_good good_packet rw" and "same_core c c'"
  shows "conn_ok (c'\<lparr>remote_wnd := rw\<rparr>)"
  using assms by (simp add: conn_ok_def same_core_def)

lemma safe_timeout_connected:
  assumes "env_ok env" and "conn_ok c"
  shows "safe (timeout_connected env c)"
proof -
  obtain rw d where t: "rw_timeout (conn_retransmitter env) (now_ms env) (remote_wnd c) c = (rw, d)" by fastforce
  have wf: "retransmission.rw_good good_packet (remote_wnd c)" using assms(2) by (simp add: conn_ok_def)
  let ?c = "d\<lparr>remote_wnd := rw, packet_size := unat MIN_PACKET_SIZE, c_timeout := c_timeout d * 2\<rparr>"
  have "conn_ok (d\<lparr>remote_wnd := rw\<rparr>)"
    using conn_ok_window [OF assms(2)] rt.rw_good_timeout [OF wf t] rti.rw_timeout_inv [OF wf _ t, of c] by simp
  then have c: "conn_ok ?c" by (simp add: conn_ok_def MIN_PACKET_SIZE_def max_packet_size_def IP_AND_UDP_OVERHEAD_def)
  show ?thesis
  proof (cases "c_timeout ?c \<ge> MAX_TIMEOUT")
    case True
    then show ?thesis
      using safe_control(3) [OF assms(1), of "?c\<lparr>c_state := FINISHED\<rparr>"] c
      unfolding timeout_connected_def t by (simp add: Let_def)
  next
    case False
    have "safe (and_then (sendPackets env ?c)
        (\<lambda>c. if now_ms env - last_packet_sent c > KEEP_ALIVE_TIMEOUT then sendState env c else (None, c)))"
      using assms(1) c by (intro safe_and_then safe_sendPackets) (auto simp: safe_control)
    then show ?thesis using False unfolding timeout_connected_def t by (simp add: Let_def)
  qed
qed

lemma safe_checkTimeout: "env_ok env \<Longrightarrow> conn_ok c \<Longrightarrow> safe (checkTimeout env c)"
  unfolding checkTimeout_def handleTimeout_def
  by (auto intro!: safe_and_then safe_timeout_connected split: conn_state.splits)

lemma safe_push_data:
  assumes "conn_ok c" and "\<And>c. conn_ok c \<Longrightarrow> safe (panic c)" and "\<And>c. conn_ok c \<Longrightarrow> safe (k c)"
  shows "safe (push_data hdr packet off c panic k)"
proof -
  have "lw_packetReceived s packet off lw \<noteq> Inl Underrun" for s lw
    by (simp add: lw_packetReceived_def Let_def)
  then show ?thesis
    using assms by (auto simp: push_data_def safe_def split: sum.splits bool.splits)
qed

lemma safe_handle_state:
  assumes "env_ok env" and "conn_ok c"
  shows "safe (handle_state env parser packet c)"
proof -
  note s = safe_and_then safe_sendPackets safe_sendStateOrData safe_reset_and_close safe_control safe_push_data
  have "safe (handle_connected env parser packet c)"
    unfolding handle_connected_def Let_def using assms by (auto intro!: s)
  moreover have "safe (handle_finished env parser packet c)"
    unfolding handle_finished_def Let_def using assms by (auto intro!: s)
  ultimately show ?thesis
    using assms unfolding handle_state_def Let_def by (auto intro!: s split: conn_state.splits)
qed

lemma safe_handlePacket:
  assumes "env_ok env" and "conn_ok c"
  shows "safe (handlePacket env parser packet c)"
proof -
  let ?c = "c\<lparr>packets_received := packets_received c + 1\<rparr>"
  obtain factor rw d where r: "rw_packetReceived (conn_retransmitter env) (shrink_window env) (p_header parser)
      (p_sack parser) (now_ms env) (remote_wnd c) ?c = (factor, rw, d)" by (metis prod_cases3)
  have wf: "retransmission.rw_good good_packet (remote_wnd c)" using assms(2) by (simp add: conn_ok_def)
  have rw: "retransmission.rw_good good_packet rw" using rt.rw_packetReceived_keeps [OF wf r] by simp
  have "conn_ok (d\<lparr>remote_wnd := rw\<rparr>)"
    using conn_ok_window [of ?c, OF _ rw rti.rw_packetReceived_inv [OF wf _ r]] assms(2) by simp
  then have "conn_ok (updateDelayMeasurement env (p_header parser) factor (d\<lparr>remote_wnd := rw\<rparr>))"
    using rw
    by (simp add: updateDelayMeasurement_def conn_ok_def Let_def MIN_PACKET_SIZE_def max_packet_size_def
        IP_AND_UDP_OVERHEAD_def split: prod.splits)
  from safe_handle_state [OF assms(1) this] show ?thesis
    using r by (simp add: handlePacket_def Let_def safe_and_then)
qed

section \<open>The order of the states\<close>

text \<open>\<open>ends S r\<close>: a statement that starts in a sound connection ends in one, in a state of \<open>S\<close>, also
  when it throws.\<close>

definition ends :: "conn_state set \<Rightarrow> conn_error option \<times> connection \<Rightarrow> bool" where
  "ends S r \<longleftrightarrow> safe r \<and> c_state (snd r) \<in> S"

lemma ends_None [simp]: "ends S (None, c) \<longleftrightarrow> conn_ok c \<and> c_state c \<in> S"
  by (simp add: ends_def)

lemma ends_and_then:
  assumes "ends S r" and "\<And>c. conn_ok c \<Longrightarrow> c_state c \<in> S \<Longrightarrow> ends T (f c)" and "S \<subseteq> T"
  shows "ends T (and_then r f)"
proof -
  obtain e c where r: "r = (e, c)" by fastforce
  show ?thesis
    using assms(1,3) assms(2) [of c] unfolding r by (cases e) (auto simp: and_then_def ends_def safe_def)
qed

lemma ends_sendPacket: "env_ok env \<Longrightarrow> conn_ok c \<Longrightarrow> c_state c \<in> S \<Longrightarrow> ends S (sendPacket env ty a c)"
  using sendPacket_core [of env ty a c "fst (sendPacket env ty a c)" "snd (sendPacket env ty a c)"]
    safe_sendPacket [of env c ty a]
  by (simp add: ends_def same_core_def)

lemmas ends_control = ends_sendPacket [of env c S ST_STATE "last_seq_nr (local_wnd c)" for env c S, folded sendState_def]
  ends_sendPacket [of env c S ST_FIN "last_seq_nr (local_wnd c)" for env c S, folded sendFIN_def]
  ends_sendPacket [of env c S ST_RESET "last_seq_nr (local_wnd c)" for env c S, folded sendReset_def]

lemma ends_sendPackets:
  assumes "env_ok env" and "conn_ok c" and "c_state c \<in> S"
  shows "ends S (sendPackets env c)"
proof -
  obtain e d where l: "send_loop env c = (e, d)" by fastforce
  have d: "conn_ok d" "c_state d = c_state c" using send_loop_chops [OF assms(2,1) l] by simp_all
  have "c_state (snd (sendFIN env d)) \<in> S"
    using ends_control(2) [OF assms(1) d(1)] d(2) assms(3) by (simp add: ends_def)
  with safe_sendPackets [OF assms(1,2)] d(2) assms(3) show ?thesis
    by (auto simp: ends_def sendPackets_def l Let_def startTimer_def case_prod_beta)
qed

lemma ends_sendStateOrData: "env_ok env \<Longrightarrow> conn_ok c \<Longrightarrow> c_state c \<in> S \<Longrightarrow> ends S (sendStateOrData env c)"
  by (simp add: sendStateOrData_def ends_sendPackets ends_control)

lemma ends_reset_and_close:
  "env_ok env \<Longrightarrow> conn_ok c \<Longrightarrow> c_state c \<in> S \<Longrightarrow> ends (insert CLOSED S) (reset_and_close env c)"
  unfolding reset_and_close_def by (rule ends_and_then [of S]) (auto intro: ends_control)

lemma ends_checkIfClosed: "conn_ok c \<Longrightarrow> c_state c \<in> S \<Longrightarrow> CLOSED \<in> S \<Longrightarrow> ends S (None, checkIfClosed c)"
  by (simp add: checkIfClosed_def)

lemma ends_push_data:
  assumes "conn_ok c" and "c_state c \<in> S"
    and "\<And>c. conn_ok c \<Longrightarrow> c_state c \<in> S \<Longrightarrow> ends T (panic c)" and "\<And>c. conn_ok c \<Longrightarrow> c_state c \<in> S \<Longrightarrow> ends T (k c)"
    and "S \<subseteq> T"
  shows "ends T (push_data hdr packet off c panic k)"
proof -
  have "lw_packetReceived s packet off lw \<noteq> Inl Underrun" for s lw
    by (simp add: lw_packetReceived_def Let_def)
  then show ?thesis
    using assms by (auto simp: push_data_def ends_def safe_def split: sum.splits bool.splits)
qed

text \<open>The states a connection may be in after a step from a given state.\<close>

fun conn_next :: "conn_state \<Rightarrow> conn_state set" where
  "conn_next IDLE = {IDLE, CONNECTED, CLOSED}"
| "conn_next SYN_SENT = {SYN_SENT, CONNECTED, CLOSED}"
| "conn_next CONNECTED = {CONNECTED, FINISHED, CLOSED}"
| "conn_next FINISHED = {FINISHED, CLOSED}"
| "conn_next CLOSED = {CLOSED}"

lemma ends_mono: "ends S r \<Longrightarrow> S \<subseteq> T \<Longrightarrow> ends T r"
  by (auto simp: ends_def)

lemma ends_handle_connected:
  assumes "env_ok env" and "conn_ok c" and "c_state c = CONNECTED"
  shows "ends {CONNECTED, FINISHED, CLOSED} (handle_connected env parser packet c)"
proof -
  let ?S = "{CONNECTED, FINISHED, CLOSED}"
  have rc: "conn_ok d \<Longrightarrow> c_state d \<in> ?S \<Longrightarrow> ends ?S (reset_and_close env d)" for d
    using ends_reset_and_close [OF assms(1), of d ?S] by (simp add: insert_commute)
  show ?thesis
    unfolding handle_connected_def Let_def using assms
    by (auto intro!: ends_push_data [where S = ?S] ends_sendPackets ends_sendStateOrData rc
        ends_and_then [where S = ?S] ends_checkIfClosed simp del: ends_None)
qed

lemma ends_handle_finished:
  assumes "env_ok env" and "conn_ok c" and "c_state c = FINISHED"
  shows "ends {FINISHED, CLOSED} (handle_finished env parser packet c)"
proof -
  let ?S = "{FINISHED, CLOSED}"
  have rc: "conn_ok d \<Longrightarrow> c_state d \<in> ?S \<Longrightarrow> ends ?S (reset_and_close env d)" for d
    using ends_reset_and_close [OF assms(1), of d ?S] by (simp add: insert_commute)
  have fin: "ends ?S (if c_state d = FINISHED \<and> \<not> fin_sent d \<and> buf_size (output_buffer d) = 0
       then and_then (sendFIN env d) (\<lambda>c. (None, c\<lparr>fin_sent := True\<rparr>)) else (None, d))"
    if "conn_ok d" "c_state d \<in> ?S" for d
    using that assms(1) by (auto intro!: ends_and_then [where S = ?S] ends_control)
  have ack: "ends ?S (and_then (and_then (sendStateOrData env d)
        (\<lambda>c. if c_state c = FINISHED \<and> \<not> fin_sent c \<and> buf_size (output_buffer c) = 0
             then and_then (sendFIN env c) (\<lambda>c. (None, c\<lparr>fin_sent := True\<rparr>)) else (None, c)))
        (\<lambda>c. (None, checkIfClosed c)))"
    if "conn_ok d" "c_state d \<in> ?S" for d
    by (rule ends_and_then [where S = ?S], rule ends_and_then [where S = ?S], rule ends_sendStateOrData)
      (use that assms(1) fin in \<open>auto simp: checkIfClosed_def\<close>)
  show ?thesis
    unfolding handle_finished_def Let_def using assms
    by (auto intro!: ends_push_data [where S = ?S] ends_sendPackets rc ack
        ends_and_then [where S = ?S] ends_checkIfClosed simp del: ends_None)
qed

lemma ends_handle_state:
  assumes "env_ok env" and "conn_ok c"
  shows "ends (conn_next (c_state c)) (handle_state env parser packet c)"
proof (cases "c_state c")
  case IDLE
  have "ends (insert CLOSED {IDLE, CONNECTED}) (reset_and_close env c)"
    using ends_reset_and_close [OF assms] IDLE by simp
  moreover have "ends {IDLE, CONNECTED, CLOSED} (and_then (sendState env (c\<lparr>local_wnd := lw\<rparr>))
      (\<lambda>c. (None, c\<lparr>c_state := CONNECTED, c_timeout := 1000\<rparr>)))" for lw
    using assms IDLE by (intro ends_and_then [where S = "{IDLE}"] ends_control) auto
  ultimately show ?thesis by (simp add: handle_state_def IDLE insert_commute Let_def)
next
  case SYN_SENT
  have "ends (insert CLOSED {SYN_SENT, CONNECTED}) (reset_and_close env c)"
    using ends_reset_and_close [OF assms] SYN_SENT by simp
  then show ?thesis using assms by (simp add: handle_state_def SYN_SENT insert_commute Let_def)
qed (use assms ends_handle_connected ends_handle_finished in \<open>simp_all add: handle_state_def\<close>)

lemma ends_handlePacket:
  assumes "env_ok env" and "conn_ok c"
  shows "ends (conn_next (c_state c)) (handlePacket env parser packet c)"
proof -
  let ?c = "c\<lparr>packets_received := packets_received c + 1\<rparr>"
  obtain factor rw d where r: "rw_packetReceived (conn_retransmitter env) (shrink_window env) (p_header parser)
      (p_sack parser) (now_ms env) (remote_wnd c) ?c = (factor, rw, d)" by (metis prod_cases3)
  let ?d = "updateDelayMeasurement env (p_header parser) factor (d\<lparr>remote_wnd := rw\<rparr>)"
  have wf: "retransmission.rw_good good_packet (remote_wnd c)" using assms(2) by (simp add: conn_ok_def)
  have rw: "retransmission.rw_good good_packet rw" using rt.rw_packetReceived_keeps [OF wf r] by simp
  have core: "same_core ?c d" using rti.rw_packetReceived_inv [OF wf _ r] by simp
  have "conn_ok (d\<lparr>remote_wnd := rw\<rparr>)" using conn_ok_window [OF _ rw core] assms(2) by simp
  then have d: "conn_ok ?d" "c_state ?d = c_state c"
    using rw core
    by (simp_all add: updateDelayMeasurement_def conn_ok_def Let_def MIN_PACKET_SIZE_def max_packet_size_def
        IP_AND_UDP_OVERHEAD_def same_core_def split: prod.splits)
  have "ends (conn_next (c_state c)) (and_then (handle_state env parser packet ?d)
      (\<lambda>c. (None, startTimer env (checkState c))))"
    using ends_handle_state [OF assms(1) d(1)] d(2)
    by (intro ends_and_then [where S = "conn_next (c_state c)"]) (auto simp: startTimer_def checkState_def conn_ok_def)
  then show ?thesis using r by (simp add: handlePacket_def Let_def)
qed

lemma ends_checkTimeout:
  assumes "env_ok env" and "conn_ok c"
  shows "ends (conn_next (c_state c)) (checkTimeout env c)"
proof -
  have "ends {CONNECTED, FINISHED} (timeout_connected env c)" if st: "c_state c = CONNECTED"
  proof -
    obtain rw d where t: "rw_timeout (conn_retransmitter env) (now_ms env) (remote_wnd c) c = (rw, d)" by fastforce
    have wf: "retransmission.rw_good good_packet (remote_wnd c)" using assms(2) by (simp add: conn_ok_def)
    let ?c = "d\<lparr>remote_wnd := rw, packet_size := unat MIN_PACKET_SIZE, c_timeout := c_timeout d * 2\<rparr>"
    have core: "same_core c d" using rti.rw_timeout_inv [OF wf _ t] by simp
    have "conn_ok (d\<lparr>remote_wnd := rw\<rparr>)"
      using conn_ok_window [OF assms(2) _ core] rt.rw_good_timeout [OF wf t] by simp
    then have c: "conn_ok ?c" by (simp add: conn_ok_def MIN_PACKET_SIZE_def max_packet_size_def IP_AND_UDP_OVERHEAD_def)
    have "ends {CONNECTED, FINISHED} (sendReset env (?c\<lparr>c_state := FINISHED\<rparr>))"
      using c by (intro ends_control assms(1)) simp_all
    moreover have "ends {CONNECTED, FINISHED} (and_then (sendPackets env ?c)
        (\<lambda>c. if now_ms env - last_packet_sent c > KEEP_ALIVE_TIMEOUT then sendState env c else (None, c)))"
      using assms(1) c core st
      by (intro ends_and_then [where S = "{CONNECTED, FINISHED}"] ends_sendPackets)
        (auto simp: same_core_def intro!: ends_control)
    ultimately show ?thesis unfolding timeout_connected_def t by (simp add: Let_def)
  qed
  moreover have "S = {CONNECTED, FINISHED} \<Longrightarrow> ends S r \<Longrightarrow>
      ends {CONNECTED, FINISHED, CLOSED} (and_then r (\<lambda>c. (None, checkState c)))" for S r
    by (rule ends_and_then [where S = S]) (auto simp: checkState_def conn_ok_def)
  moreover have "and_then (None, d) f = f d" for d f by (simp add: and_then_def)
  ultimately show ?thesis
    using assms unfolding checkTimeout_def handleTimeout_def
    by (cases "c_state c") (auto simp: checkState_def startTimer_def conn_ok_def)
qed

lemma ends_conn_send: "env_ok env \<Longrightarrow> conn_ok c \<Longrightarrow> conn_send env dat c = (e, n, c') \<Longrightarrow> ends {c_state c} (e, c')"
proof -
  assume a: "env_ok env" "conn_ok c" "conn_send env dat c = (e, n, c')"
  obtain ret buf where w: "cb_write dat (output_buffer c) = (ret, buf)" by fastforce
  have "cb_inv buf" using cb.wr_inv [of "output_buffer c" dat] a(2) w by (simp add: conn_ok_def)
  then have "ends {c_state c} (sendPackets env (c\<lparr>output_buffer := buf\<rparr>))"
    using a by (intro ends_sendPackets) (simp_all add: conn_ok_def)
  then show ?thesis
    using a safe_conn_send [OF a] w by (auto simp: conn_send_def ends_def Let_def split: prod.splits if_splits)
qed

lemma ends_conn_close: "env_ok env \<Longrightarrow> conn_ok c \<Longrightarrow> ends (conn_next (c_state c)) (conn_close env c)"
  by (cases "c_state c") (auto simp: conn_close_def intro!: ends_sendPackets)

lemma ends_conn_reset: "env_ok env \<Longrightarrow> conn_ok c \<Longrightarrow> ends (conn_next (c_state c)) (conn_reset env c)"
  unfolding conn_reset_def
  by (cases "c_state c") (auto simp: conn_ok_def
      intro!: ends_and_then [where S = "{c_state c}"] ends_control)

lemma ends_conn_recv:
  assumes "env_ok env" and "conn_ok c" and "conn_recv env n c = (e, r, c')"
  shows "ends (conn_next (c_state c)) (e, c')"
proof -
  let ?c = "if c_state c = FINISHED then checkIfClosed c else c"
  let ?S = "conn_next (c_state c)"
  have c: "conn_ok ?c" "c_state ?c \<in> ?S" using assms(2) by (auto simp: checkIfClosed_def intro: conn_next.cases [of "c_state c"])
  have read: "lw_read n lw \<noteq> Inl Underrun" for lw by (simp add: lw_read_def Let_def case_prod_beta)
  show ?thesis
  proof (cases "bytes_available (local_wnd ?c) = 0 \<and> c_state ?c = CLOSED")
    case True
    then show ?thesis using assms(3) c by (simp add: conn_recv_def Let_def)
  next
    case False
    show ?thesis
    proof (cases "lw_read n (local_wnd ?c)")
      case (Inl x)
      then have "(e, c') = (Some (MemoryError x), ?c)" using assms(3) False by (simp add: conn_recv_def Let_def)
      then show ?thesis using c Inl read by (auto simp: ends_def safe_def)
    next
      case (Inr y)
      obtain bytes lw where y: "y = (bytes, lw)" by fastforce
      obtain e1 d where d: "(if last_window_size_transmitted (?c\<lparr>local_wnd := lw\<rparr>) < 2000 \<and> window_space lw > 2000
          then sendState env (?c\<lparr>local_wnd := lw\<rparr>) else (None, ?c\<lparr>local_wnd := lw\<rparr>)) = (e1, d)" by fastforce
      have "ends ?S (e1, d)"
        using d c ends_control(1) [OF assms(1), of "?c\<lparr>local_wnd := lw\<rparr>" ?S] by (auto split: if_splits)
      moreover have "e = e1" "c' = (if e1 = None then d\<lparr>bytes_received := bytes_received d + length bytes,
          c_readable := lw_isReadable (local_wnd d)\<rparr> else d)"
        using assms(3) False Inr y d by (auto simp: conn_recv_def Let_def split: prod.splits)
      ultimately show ?thesis by (auto simp: ends_def safe_def conn_ok_def)
    qed
  qed
qed

section \<open>Runs of a connection\<close>

text \<open>A step is any call on the connection, with any clock, transmitter and peer; it may throw.\<close>

inductive conn_step :: "connection \<Rightarrow> conn_error option \<Rightarrow> connection \<Rightarrow> bool" where
  packet: "env_ok env \<Longrightarrow> handlePacket env parser pkt c = (e, c') \<Longrightarrow> conn_step c e c'"
| send: "env_ok env \<Longrightarrow> conn_send env dat c = (e, n, c') \<Longrightarrow> conn_step c e c'"
| recv: "env_ok env \<Longrightarrow> conn_recv env k c = (e, r, c') \<Longrightarrow> conn_step c e c'"
| timeout: "env_ok env \<Longrightarrow> checkTimeout env c = (e, c') \<Longrightarrow> conn_step c e c'"
| close: "env_ok env \<Longrightarrow> conn_close env c = (e, c') \<Longrightarrow> conn_step c e c'"
| reset: "env_ok env \<Longrightarrow> conn_reset env c = (e, c') \<Longrightarrow> conn_step c e c'"

inductive conn_reachable :: "connection \<Rightarrow> bool" where
  incoming: "length buf = 65536 \<Longrightarrow> conn_reachable (Connection_new i INCOMING st s buf)"
| outgoing: "length buf = 65536 \<Longrightarrow> env_ok env \<Longrightarrow>
    startConnecting env (Connection_new i OUTGOING st s buf) = (e, c) \<Longrightarrow> conn_reachable c"
| step: "conn_reachable c \<Longrightarrow> conn_step c e c' \<Longrightarrow> conn_reachable c'"

lemma conn_ok_new: "length buf = 65536 \<Longrightarrow> conn_ok (Connection_new i ty st s buf)"
  by (simp add: conn_ok_def Connection_new_def cb_new_inv RemoteWindow_new_def rt.rw_good_def)

lemma conn_step_ends:
  assumes "conn_step c e c'" and "conn_ok c"
  shows "ends (conn_next (c_state c)) (e, c')"
  using assms
proof cases
  case (send env dat n)
  then have "ends {c_state c} (e, c')" using ends_conn_send assms(2) by blast
  then show ?thesis by (cases "c_state c") (auto simp: ends_def)
next
  case (packet env parser pkt)
  then show ?thesis using ends_handlePacket [of env c parser pkt] assms(2) by simp
next
  case (recv env k r)
  then show ?thesis using ends_conn_recv assms(2) by blast
next
  case (timeout env)
  then show ?thesis using ends_checkTimeout [of env c] assms(2) by simp
next
  case (close env)
  then show ?thesis using ends_conn_close [of env c] assms(2) by simp
next
  case (reset env)
  then show ?thesis using ends_conn_reset [of env c] assms(2) by simp
qed

lemma conn_reachable_ok: "conn_reachable c \<Longrightarrow> conn_ok c"
proof (induction rule: conn_reachable.induct)
  case (outgoing buf env i st s e c)
  let ?c = "(Connection_new i OUTGOING st s buf)\<lparr>c_seq_nr := 1, c_state := SYN_SENT, c_timeout := CONNECT_TIMEOUT\<rparr>"
  have "safe (sendPacket env ST_SYN 0 ?c)"
    using safe_sendPacket [OF outgoing(2), of ?c] conn_ok_new [OF outgoing(1)] by simp
  then show ?case
    using outgoing(3) by (auto simp: startConnecting_def sendSYN_def safe_def Let_def Connection_new_def split: prod.splits if_splits)
next
  case (step c e c')
  then show ?case using conn_step_ends by (auto simp: ends_def safe_def)
qed (simp add: conn_ok_new)

section \<open>Properties\<close>

text \<open>C22. In every reachable state and whatever the peer sends, the connection's states only move
  forward (connecting, connected, finished, closed), a closed connection stays closed, and no
  packet is ever assembled in front of its buffer.\<close>

theorem connection_life_cycle:
  assumes "conn_reachable c" and "conn_step c e c'"
  shows "c_state c' \<in> conn_next (c_state c) \<and> e \<noteq> Some (MemoryError Underrun)"
  using conn_step_ends [OF assms(2) conn_reachable_ok [OF assms(1)]] by (simp add: ends_def safe_def)

text \<open>A transmitter that always accepts, and an environment around it.\<close>

definition sample_env :: utp_env where
  "sample_env = \<lparr>now_us = 0, now_ms = 0, send_ok = (\<lambda>_. True), pool_mem = replicate 1500 0,
     dw_push = (\<lambda>cap xs x. xs @ [x]), shrink_window = (\<lambda>w. w), window_gain = (\<lambda>_ _. 0)\<rparr>"

definition sample_conn :: connection where
  "sample_conn = Connection_new 7 INCOMING IDLE 0 (replicate 65536 0)"

lemma sample_env_ok: "env_ok sample_env"
  by (simp add: env_ok_def sample_env_def)

lemma sample_conn_reachable: "conn_reachable sample_conn"
  unfolding sample_conn_def by (rule conn_reachable.incoming) simp

theorem connection_life_cycle_witness:
  "c_state (snd (conn_reset sample_env sample_conn)) \<in> {IDLE, CONNECTED, CLOSED} \<and>
   fst (conn_reset sample_env sample_conn) \<noteq> Some (MemoryError Underrun)"
  using connection_life_cycle [OF sample_conn_reachable conn_step.reset [OF sample_env_ok prod.collapse [symmetric]]]
  by (simp add: sample_conn_def Connection_new_def)

text \<open>C20. From every state that satisfies the invariant, as all reachable states do, and without a
  transmission error, sending chops the output buffer into packets with
  consecutive sequence numbers whose payloads, followed by what stays in the buffer, are
  exactly the bytes that were in it; the packets are added to those awaiting
  acknowledgement.\<close>

theorem sendPackets_chops:
  assumes "conn_ok c" and "env_ok env" and "send_loop env c = (None, c')"
  shows "\<exists>new. map flight (unacked_packets (remote_wnd c')) = map flight (unacked_packets (remote_wnd c)) @ new \<and>
    concat (map snd new) @ cb_content (output_buffer c') = cb_content (output_buffer c) \<and>
    map fst new = map (\<lambda>k. c_seq_nr c + of_nat k) [0..<length new] \<and>
    c_seq_nr c' = c_seq_nr c + of_nat (length new)"
  using send_loop_chops [OF assms] by (auto simp: chopped_def)

lemma send_loop_succeeds:
  assumes "conn_ok c" and "env_ok env" and "\<forall>n. send_ok env n"
  shows "fst (send_loop env c) = None"
  using assms
proof (induction env c rule: send_loop.induct)
  case (1 env c)
  show ?case
  proof (cases "buf_size (output_buffer c) > 0 \<and> rw_availableSpace (remote_wnd c) > 0 \<and> chunk_size c > 0")
    case False
    then show ?thesis by (subst send_loop.simps) auto
  next
    case True
    obtain k buf packet where f: "fillData (output_buffer c) (chunk_size c) (PacketBuffer_new (pool_mem env)) = (k, buf, packet)"
      by (metis prod_cases3)
    obtain e1 packet' d where s: "sendDataPacket env packet (c_seq_nr c) (c\<lparr>output_buffer := buf\<rparr>) = (e1, packet', d)"
      by (metis prod_cases3)
    let ?c1 = "d\<lparr>remote_wnd := addPacket packet' (c_seq_nr d) (now_ms env) (remote_wnd d), c_seq_nr := c_seq_nr d + 1\<rparr>"
    have ok: "conn_ok ?c1" using send_round(3) [OF 1(2,3) _ _ _ f s refl] True by simp
    have e1: "e1 = None" using send_round(8) [OF 1(2,3) _ _ _ f s refl] True 1(4) by simp
    have "fst (send_loop env ?c1) = None"
      using 1(1) f s True e1 ok 1(3,4) by (metis (no_types, lifting))
    then show ?thesis using True f s e1 by (subst send_loop.simps) simp
  qed
qed

text \<open>A connection with two bytes to send and a peer that announced room for a thousand.\<close>

definition sample_sender :: connection where
  "sample_sender = sample_conn\<lparr>output_buffer := snd (cb_write [65, 66] (CircularBuffer_new [0, 0, 0] 3)),
     remote_wnd := RemoteWindow_new\<lparr>wnd_size := 1000\<rparr>\<rparr>"

lemma sample_sender_ok: "conn_ok sample_sender" "cb_content (output_buffer sample_sender) = [65, 66]"
proof -
  have new: "cb_inv (CircularBuffer_new [0, 0, 0] 3)" by (rule cb_new_inv) simp_all
  show "cb_content (output_buffer sample_sender) = [65, 66]"
    using cb.wr_content [OF new, of "[65, 66]"] cb.wr_count [OF new, of "[65, 66]"] by (simp add: sample_sender_def)
  show "conn_ok sample_sender"
    using cb.wr_inv [OF new, of "[65, 66]"]
    by (simp add: conn_ok_def sample_sender_def sample_conn_def Connection_new_def RemoteWindow_new_def rt.rw_good_def)
qed

theorem sendPackets_chops_witness:
  "\<exists>(new :: (u16 \<times> byte list) list) c'. send_loop sample_env sample_sender = (None, c') \<and>
     concat (map snd new) @ cb_content (output_buffer c') = [65, 66] \<and>
     c_seq_nr c' = c_seq_nr sample_sender + of_nat (length new)"
proof -
  have "fst (send_loop sample_env sample_sender) = None"
    by (rule send_loop_succeeds [OF sample_sender_ok(1) sample_env_ok]) (simp add: sample_env_def)
  then obtain c' where c': "send_loop sample_env sample_sender = (None, c')"
    by (cases "send_loop sample_env sample_sender") auto
  from sendPackets_chops [OF sample_sender_ok(1) sample_env_ok c']
  obtain new :: "(u16 \<times> byte list) list" where
    "concat (map snd new) @ cb_content (output_buffer c') = cb_content (output_buffer sample_sender)"
    and "c_seq_nr c' = c_seq_nr sample_sender + of_nat (length new)" by blast
  then show ?thesis
    using c' sample_sender_ok(2) by (intro exI [of _ new] exI [of _ c']) simp
qed

text \<open>The packets in flight are in the order of their numbers, which go on from \<open>s0\<close> with holes where a packet was acknowledged selectively, and the
  acknowledgement is not further away than a quarter of the numbers.\<close>

definition in_sequence :: "u16 \<Rightarrow> u16 list \<Rightarrow> bool" where
  "in_sequence a seqs \<longleftrightarrow> (\<exists>s0 offs j. seqs = map (\<lambda>i. s0 + of_nat i) offs \<and> sorted offs \<and> (\<forall>i \<in> set offs. i < 2 ^ 14) \<and>
     - (2 ^ 14) < j \<and> j \<le> 2 ^ 14 \<and> a = s0 + word_of_int j - 1)"

lemma SeqNrCmpSE_offset:
  assumes "i < 2 ^ 14" and "- (2 ^ 14) < j" and "j \<le> 2 ^ 14"
  shows "SeqNrCmpSE (s0 + of_nat i) (s0 + word_of_int j - 1) \<longleftrightarrow> int i < j"
proof -
  have "(s0 + word_of_int j - 1) - (s0 + of_nat i) = (word_of_int (j - 1 - int i) :: u16)" by simp
  then have u: "uint ((s0 + word_of_int j - 1) - (s0 + of_nat i)) = (j - 1 - int i) mod 65536" by (simp only: uint_word_of_int_eq take_bit_eq_mod) simp
  show ?thesis
  proof (cases "int i < j")
    case True
    then have "(j - 1 - int i) mod 65536 = j - 1 - int i" using assms by (intro mod_pos_pos_trivial) auto
    then show ?thesis using True assms u by (simp add: SeqNrCmpSE_forward)
  next
    case False
    have "(j - 1 - int i) mod 65536 = (j - 1 - int i + 65536) mod 65536" by (simp only: mod_add_self2)
    also have "\<dots> = j - 1 - int i + 65536" using False assms by (intro mod_pos_pos_trivial) auto
    finally show ?thesis using False assms u by (simp add: SeqNrCmpSE_forward)
  qed
qed

lemma dropWhile_filter: "sorted_wrt (\<lambda>x y. P y \<longrightarrow> P x) xs \<Longrightarrow> dropWhile P xs = filter (\<lambda>x. \<not> P x) xs"
proof (induction xs)
  case (Cons x xs)
  then show ?case by (cases "P x") (auto intro!: filter_True [symmetric])
qed simp

lemma plain_covers_prefix:
  assumes "in_sequence (ack_nr hdr) (map fst fl)"
  shows "dropWhile (\<lambda>(s, _). acked_by hdr None s) fl = filter (\<lambda>(s, _). \<not> acked_by hdr None s) fl"
proof -
  obtain s0 offs j where o: "map fst fl = map (\<lambda>i. s0 + of_nat i) offs" "sorted offs" "\<forall>i \<in> set offs. i < 2 ^ 14" "- (2 ^ 14) < j" "j \<le> 2 ^ 14"
    "ack_nr hdr = s0 + word_of_int j - 1" using assms by (auto simp: in_sequence_def)
  have acked: "acked_by hdr None (s0 + of_nat i) \<longleftrightarrow> int i < j" if "i \<in> set offs" for i
    using SeqNrCmpSE_offset [of i j s0] o that by (simp add: acked_by_def)
  have "sorted_wrt (\<lambda>s s'. acked_by hdr None s' \<longrightarrow> acked_by hdr None s) (map fst fl)"
    unfolding o(1) sorted_wrt_map using o(2) by (rule sorted_wrt_mono_rel [rotated]) (use acked in auto)
  then have "sorted_wrt (\<lambda>x y. (case y of (s, _) \<Rightarrow> acked_by hdr None s) \<longrightarrow> (case x of (s, _) \<Rightarrow> acked_by hdr None s)) fl"
    by (simp add: sorted_wrt_map case_prod_unfold)
  from dropWhile_filter [OF this] show ?thesis by (simp add: case_prod_unfold)
qed

text \<open>C33. An acknowledgement, plain or selective, removes exactly the packets it covers from those in flight, by number
  or by the bits of a selective acknowledgement, and the size of the window in flight stays
  the sum of the sizes of the packets that are left, whatever is retransmitted on the way. A plain
  acknowledgement stops at the first packet it does not cover, which leaves none behind that it covers
  as the packets are in the order of their numbers.\<close>

theorem acknowledgement_accounting:
  assumes "retransmission.rw_wf good_packet rw"
    and "rw_packetReceived (conn_retransmitter env) shrink hdr sack now rw c = (factor, rw', c')"
  shows "cur_window rw' = of_nat (in_flight (unacked_packets rw')) \<and>
    (sack = None \<longrightarrow> map flight (unacked_packets rw') = dropWhile (\<lambda>(s, _). acked_by hdr None s) (map flight (unacked_packets rw))) \<and>
    (sack \<noteq> None \<or> in_sequence (ack_nr hdr) (map up_seq (unacked_packets rw)) \<longrightarrow>
      map flight (unacked_packets rw') = filter (\<lambda>(s, _). \<not> acked_by hdr sack s) (map flight (unacked_packets rw)))"
proof -
  have w: "cur_window rw' = of_nat (in_flight (unacked_packets rw'))" using rt.rw_wf_packetReceived [OF assms] by (simp add: rt.rw_wf_def)
  have k: "map flight (unacked_packets rw') = (case sack of None \<Rightarrow> dropWhile (\<lambda>(s, _). acked_by hdr sack s) (map flight (unacked_packets rw))
       | Some _ \<Rightarrow> filter (\<lambda>(s, _). \<not> acked_by hdr sack s) (map flight (unacked_packets rw)))"
    using rt.rw_packetReceived_keeps [OF _ assms(2)] assms(1) by (simp add: rt.rw_wf_def)
  have "map fst (map flight (unacked_packets rw)) = map up_seq (unacked_packets rw)" by (simp add: flight_def)
  note plain = plain_covers_prefix [of hdr "map flight (unacked_packets rw)", unfolded this]
  show ?thesis
  proof (cases sack)
    case None
    then show ?thesis using w k plain by (simp del: map_map)
  next
    case (Some b)
    then show ?thesis using w k by simp
  qed
qed

definition sample_flight :: remote_window where
  "sample_flight = RemoteWindow_new\<lparr>cur_window := 2,
     unacked_packets := [\<lparr>up_packet = (PacketBuffer_new (replicate 1500 0))\<lparr>pb_payload := Some 1498\<rparr>,
       up_seq = 5, up_send_time = 0, up_retransmitted = False\<rparr>]\<rparr>"

theorem acknowledgement_accounting_witness:
  "map flight (unacked_packets (fst (snd (rw_packetReceived (conn_retransmitter sample_env) (\<lambda>w. w)
     (cut_header\<lparr>ack_nr := 5\<rparr>) None 0 sample_flight sample_conn)))) = []"
proof -
  let ?r = "rw_packetReceived (conn_retransmitter sample_env) (\<lambda>w. w) (cut_header\<lparr>ack_nr := 5\<rparr>) None 0
    sample_flight sample_conn"
  have "retransmission.rw_wf good_packet sample_flight"
    by (simp add: rt.rw_wf_def rt.rw_good_def sample_flight_def good_packet_def pb_wf_def PacketBuffer_new_def
        payloadSize_def MAX_SIZE_def)
  note acc = acknowledgement_accounting [OF this, where rw' = "fst (snd ?r)" and factor = "fst ?r" and
      c' = "snd (snd ?r)" and env = sample_env and shrink = "\<lambda>w. w" and hdr = "cut_header\<lparr>ack_nr := 5\<rparr>" and
      sack = None and now = 0 and c = sample_conn]
  have "in_sequence 5 (map up_seq (unacked_packets sample_flight))"
    unfolding in_sequence_def by (intro exI [of _ 5] exI [of _ "[0]"] exI [of _ 1]) (simp add: sample_flight_def)
  moreover have "filter (\<lambda>(s, _). \<not> acked_by (cut_header\<lparr>ack_nr := 5\<rparr>) None s) (map flight (unacked_packets sample_flight)) = []"
    by (simp add: sample_flight_def flight_def acked_by_def SeqNrCmpSE_def)
  ultimately show ?thesis using acc by simp
qed

end
