(* ===== verification/PacketSocket.thy ===== *)
theory PacketSocket
  imports Packet
begin

text \<open>
  \<^verbatim>\<open>net::PacketSocket\<close>, \<^verbatim>\<open>src/src/net/packetsocket.cpp\<close>: the outbound queues of a peer
  connection. Control messages and pieces wait in two queues, \<^verbatim>\<open>selectPacket\<close> chooses the
  next packet to transmit, \<^verbatim>\<open>write\<close> hands bytes to the socket, and pieces can be taken out
  again as long as no byte of them was sent. The recursive mutex makes each operation atomic.

  The socket device and the cipher of an encrypted connection are parameters: \<open>dev_send\<close> is
  the answer of the device to a buffer, \<open>dev_ready\<close> is false while a connect is still under way,
  and \<open>pre_process\<close> is the virtual \<^verbatim>\<open>preProcess\<close>, the identity in the base class and the stream
  cipher in the encrypted subclass. The bytes the device took are recorded in \<open>ps_wire\<close>.
\<close>

section \<open>State\<close>

record ('c, 's) socket_env =
  pre_process :: "byte list \<Rightarrow> 'c \<Rightarrow> byte list \<times> 'c"
  dev_send :: "byte list \<Rightarrow> 's \<Rightarrow> int \<times> 's"
  dev_ready :: "'s \<Rightarrow> bool"

record ('c, 's) packet_socket =
  control_packets :: "packet list"
  data_packets :: "packet list"
  curr_packet :: "packet option"
  ctrl_packets_sent :: u32
  pending_upload_data_bytes :: u32
  uploaded_data_bytes :: u32
  ps_cipher :: 'c
  ps_dev :: 's
  ps_wire :: "byte list"

definition PacketSocket_new :: "'c \<Rightarrow> 's \<Rightarrow> ('c, 's) packet_socket" where
  "PacketSocket_new c s = \<lparr>control_packets = [], data_packets = [], curr_packet = None,
     ctrl_packets_sent = 0, pending_upload_data_bytes = 0, uploaded_data_bytes = 0,
     ps_cipher = c, ps_dev = s, ps_wire = []\<rparr>"

section \<open>Operations\<close>

definition getDataLength :: "packet \<Rightarrow> u32" where
  "getDataLength p = of_nat (length (pk_data p))"

definition sending :: "packet \<Rightarrow> bool" where
  "sending p \<longleftrightarrow> pk_written p > 0"

definition take_control :: "('c, 's) packet_socket \<Rightarrow> ('c, 's) packet_socket" where
  "take_control ps = ps\<lparr>curr_packet := Some (hd (control_packets ps)), control_packets := List.tl (control_packets ps)\<rparr>"

definition take_data :: "('c, 's) packet_socket \<Rightarrow> ('c, 's) packet_socket" where
  "take_data ps = ps\<lparr>curr_packet := Some (hd (data_packets ps)), data_packets := List.tl (data_packets ps)\<rparr>"

definition run_preProcess :: "('c, 's) socket_env \<Rightarrow> ('c, 's) packet_socket \<Rightarrow> ('c, 's) packet_socket" where
  "run_preProcess env ps = (case curr_packet ps of
     None \<Rightarrow> ps
   | Some p \<Rightarrow> let (d, c) = pre_process env (pk_data p) (ps_cipher ps)
       in ps\<lparr>curr_packet := Some (p\<lparr>pk_data := d\<rparr>), ps_cipher := c\<rparr>)"

definition selectPacket :: "('c, 's) socket_env \<Rightarrow> ('c, 's) packet_socket \<Rightarrow> ('c, 's) packet_socket" where
  "selectPacket env ps0 =
     (let ps = ps0\<lparr>curr_packet := None\<rparr>;
          chosen = (if ctrl_packets_sent ps < 3 then
                      if control_packets ps \<noteq> [] then take_control ps
                      else if data_packets ps \<noteq> [] then take_data ps else ps
                    else if data_packets ps \<noteq> [] then take_data (ps\<lparr>ctrl_packets_sent := 0\<rparr>)
                    else if control_packets ps \<noteq> [] then take_control ps else ps)
      in run_preProcess env chosen)"

text \<open>One call of \<^verbatim>\<open>Packet::send\<close> on the current packet: what it returned, and the socket afterwards.\<close>

definition send_current :: "('c, 's) socket_env \<Rightarrow> nat \<Rightarrow> packet \<Rightarrow> ('c, 's) packet_socket \<Rightarrow>
    int \<times> packet \<times> ('c, 's) packet_socket" where
  "send_current env limit p ps =
     (let (ret, buf, p') = packet_send (\<lambda>b. fst (dev_send env b (ps_dev ps))) limit p
      in (ret, p', ps\<lparr>curr_packet := Some p',
            ps_dev := (if buf = [] then ps_dev ps else snd (dev_send env buf (ps_dev ps))),
            ps_wire := ps_wire ps @ take (nat ret) buf\<rparr>))"

definition account :: "packet \<Rightarrow> int \<Rightarrow> ('c, 's) packet_socket \<Rightarrow> ('c, 's) packet_socket" where
  "account p ret ps = (if pk_type p = PIECE
     then ps\<lparr>pending_upload_data_bytes := pending_upload_data_bytes ps - of_int ret,
             uploaded_data_bytes := uploaded_data_bytes ps + of_int ret\<rparr>
     else ps)"

definition packet_done :: "packet \<Rightarrow> ('c, 's) packet_socket \<Rightarrow> ('c, 's) packet_socket" where
  "packet_done p ps = ps\<lparr>ctrl_packets_sent := (if pk_type p = PIECE then 0 else ctrl_packets_sent ps + 1)\<rparr>"

lemma selectPacket_fields [simp]:
  "ps_wire (selectPacket env ps) = ps_wire ps" "ps_dev (selectPacket env ps) = ps_dev ps"
  "pending_upload_data_bytes (selectPacket env ps) = pending_upload_data_bytes ps"
  "uploaded_data_bytes (selectPacket env ps) = uploaded_data_bytes ps"
  by (auto simp: selectPacket_def run_preProcess_def take_control_def take_data_def Let_def
      split: option.splits prod.splits)

lemma send_current_fields [simp]:
  "control_packets (snd (snd (send_current env l p ps))) = control_packets ps"
  "data_packets (snd (snd (send_current env l p ps))) = data_packets ps"
  by (simp_all add: send_current_def Let_def split: prod.splits)

lemma account_fields [simp]:
  "control_packets (account p r ps) = control_packets ps" "data_packets (account p r ps) = data_packets ps"
  "curr_packet (account p r ps) = curr_packet ps" "ps_wire (account p r ps) = ps_wire ps"
  "ps_dev (account p r ps) = ps_dev ps" "ps_cipher (account p r ps) = ps_cipher ps"
  "ctrl_packets_sent (account p r ps) = ctrl_packets_sent ps"
  by (simp_all add: account_def)

definition backlog :: "('c, 's) packet_socket \<Rightarrow> nat" where
  "backlog ps = length (control_packets ps) + length (data_packets ps) +
     (case curr_packet ps of None \<Rightarrow> 0 | Some _ \<Rightarrow> 1)"

lemma backlog_select:
  "curr_packet ps = Some p \<Longrightarrow> backlog (selectPacket env (packet_done q ps)) < backlog ps"
  by (auto simp: backlog_def selectPacket_def run_preProcess_def take_control_def take_data_def packet_done_def
      Let_def neq_Nil_conv split: option.splits prod.splits)

text \<open>The loop of \<^verbatim>\<open>write\<close>; \<open>written\<close> counts the bytes of this call.\<close>

function write_loop :: "('c, 's) socket_env \<Rightarrow> nat \<Rightarrow> nat \<Rightarrow> ('c, 's) packet_socket \<Rightarrow>
    nat \<times> ('c, 's) packet_socket" where
  "write_loop env mx written ps = (case curr_packet ps of
     None \<Rightarrow> (written, ps)
   | Some p \<Rightarrow>
       if \<not> (written < mx \<or> mx = 0) then (written, ps)
       else let (ret, p', ps1) = send_current env (if mx = 0 then 0 else mx - written) p ps in
         if ret \<le> 0 then (written, ps1)
         else let ps2 = account p' ret ps1 in
           if isSent p' then write_loop env mx (written + nat ret) (selectPacket env (packet_done p' ps2))
           else (written + nat ret, ps2))"
  by pat_completeness auto
termination
proof (relation "measure (\<lambda>(_, _, _, ps). backlog ps)", goal_cases)
  case 1
  then show ?case by simp
next
  case (2 env mx written ps p x ret y p' ps1 ps2)
  have "curr_packet ps2 = Some p'" and "control_packets ps2 = control_packets ps" and "data_packets ps2 = data_packets ps"
    using 2 send_current_fields [of env "if mx = 0 then 0 else mx - written" p ps]
    by (auto simp: send_current_def Let_def split: prod.splits)
  then have "backlog (selectPacket env (packet_done p' ps2)) < backlog ps2" and "backlog ps2 = backlog ps"
    using backlog_select [of ps2 p' env p'] 2(1) by (simp_all add: backlog_def)
  then show ?case by simp
qed

declare write_loop.simps [simp del]

definition ps_write :: "('c, 's) socket_env \<Rightarrow> nat \<Rightarrow> ('c, 's) packet_socket \<Rightarrow> nat \<times> ('c, 's) packet_socket" where
  "ps_write env mx ps = (if \<not> dev_ready env (ps_dev ps) then (0, ps)
     else write_loop env mx 0 (if curr_packet ps = None then selectPacket env ps else ps))"

definition addPacket_ps :: "packet \<Rightarrow> ('c, 's) packet_socket \<Rightarrow> ('c, 's) packet_socket" where
  "addPacket_ps packet ps = (if pk_type packet = PIECE
     then ps\<lparr>pending_upload_data_bytes := pending_upload_data_bytes ps + getDataLength packet,
             data_packets := data_packets ps @ [packet]\<rparr>
     else ps\<lparr>control_packets := control_packets ps @ [packet]\<rparr>)"

definition bytesReadyToWrite :: "('c, 's) packet_socket \<Rightarrow> bool" where
  "bytesReadyToWrite ps \<longleftrightarrow> data_packets ps \<noteq> [] \<or> control_packets ps \<noteq> [] \<or> curr_packet ps \<noteq> None"

definition dataBytesUploaded :: "('c, 's) packet_socket \<Rightarrow> u32 \<times> ('c, 's) packet_socket" where
  "dataBytesUploaded ps = (uploaded_data_bytes ps, ps\<lparr>uploaded_data_bytes := 0\<rparr>)"

definition queue_reject :: "bool \<Rightarrow> packet \<Rightarrow> ('c, 's) packet_socket \<Rightarrow> ('c, 's) packet_socket" where
  "queue_reject reject p ps = (if reject then
     (case makeRejectOfPiece p of Some r \<Rightarrow> addPacket_ps r ps | None \<Rightarrow> ps) else ps)"

text \<open>
  The loops of \<^verbatim>\<open>clearPieces\<close> and \<^verbatim>\<open>doNotSendPiece\<close> go over the data queue and erase some of its
  packets; the packets that stay are appended again in order. A reject is never a piece, so
  \<^verbatim>\<open>addPacket\<close> leaves the queue that is iterated alone.
\<close>

fun erase_loop :: "(packet \<Rightarrow> bool) \<Rightarrow> bool \<Rightarrow> packet list \<Rightarrow> ('c, 's) packet_socket \<Rightarrow> ('c, 's) packet_socket" where
  "erase_loop drp reject [] ps = ps"
| "erase_loop drp reject (p # rest) ps =
     (if drp p \<and> \<not> sending p then
        erase_loop drp reject rest
          (let ps1 = queue_reject reject p ps
           in ps1\<lparr>pending_upload_data_bytes := pending_upload_data_bytes ps1 - getDataLength p\<rparr>)
      else erase_loop drp reject rest (ps\<lparr>data_packets := data_packets ps @ [p]\<rparr>))"

definition clearPieces :: "bool \<Rightarrow> ('c, 's) packet_socket \<Rightarrow> ('c, 's) packet_socket" where
  "clearPieces reject ps = erase_loop (\<lambda>p. pk_type p = PIECE) reject (data_packets ps) (ps\<lparr>data_packets := []\<rparr>)"

definition doNotSendPiece :: "request \<Rightarrow> bool \<Rightarrow> ('c, 's) packet_socket \<Rightarrow> ('c, 's) packet_socket" where
  "doNotSendPiece req reject ps = erase_loop (\<lambda>p. isPiece p req) reject (data_packets ps) (ps\<lparr>data_packets := []\<rparr>)"

definition numPendingPieceUploads :: "('c, 's) packet_socket \<Rightarrow> u32" where
  "numPendingPieceUploads ps = of_nat (length (data_packets ps) +
     (case curr_packet ps of Some p \<Rightarrow> if pk_type p = PIECE then 1 else 0 | None \<Rightarrow> 0))"

definition numPendingPieceUploadBytes :: "('c, 's) packet_socket \<Rightarrow> u32" where
  "numPendingPieceUploadBytes ps = pending_upload_data_bytes ps"


section \<open>The order of transmission\<close>

text \<open>
  The reference order: as long as fewer than three control messages went out since the last
  piece the control queue goes first, otherwise the data queue does.
\<close>

fun schedule :: "u32 \<Rightarrow> packet list \<Rightarrow> packet list \<Rightarrow> packet list" where
  "schedule n [] [] = []"
| "schedule n (c # cs) [] = c # schedule (n + 1) cs []"
| "schedule n [] (d # ds) = d # schedule 0 [] ds"
| "schedule n (c # cs) (d # ds) =
     (if n < 3 then c # schedule (n + 1) cs (d # ds) else d # schedule 0 (c # cs) ds)"

definition after :: "packet \<Rightarrow> u32 \<Rightarrow> u32" where
  "after p n = (if pk_type p = PIECE then 0 else n + 1)"

text \<open>The packets that \<open>ps\<close> will still transmit after the current one.\<close>

definition plan :: "('c, 's) packet_socket \<Rightarrow> packet list" where
  "plan ps = schedule (case curr_packet ps of None \<Rightarrow> ctrl_packets_sent ps | Some p \<Rightarrow> after p (ctrl_packets_sent ps))
     (control_packets ps) (data_packets ps)"

fun stream :: "('c, 's) socket_env \<Rightarrow> 'c \<Rightarrow> packet list \<Rightarrow> byte list" where
  "stream env c [] = []"
| "stream env c (p # ps) = fst (pre_process env (pk_data p) c) @ stream env (snd (pre_process env (pk_data p) c)) ps"

text \<open>The bytes that \<open>ps\<close> will still put on the wire, the rest of the current packet first.\<close>

definition pending_stream :: "('c, 's) socket_env \<Rightarrow> ('c, 's) packet_socket \<Rightarrow> byte list" where
  "pending_stream env ps = (case curr_packet ps of None \<Rightarrow> [] | Some p \<Rightarrow> drop (pk_written p) (pk_data p)) @
     stream env (ps_cipher ps) (plan ps)"

definition fresh :: "packet \<Rightarrow> bool" where
  "fresh p \<longleftrightarrow> pk_written p = 0 \<and> pk_data p \<noteq> []"

definition queues_ok :: "('c, 's) packet_socket \<Rightarrow> bool" where
  "queues_ok ps \<longleftrightarrow> (\<forall>p \<in> set (control_packets ps). fresh p \<and> pk_type p \<noteq> PIECE) \<and>
     (\<forall>p \<in> set (data_packets ps). fresh p \<and> pk_type p = PIECE)"

definition piece_bytes :: "packet list \<Rightarrow> nat" where
  "piece_bytes ps = sum_list (map (\<lambda>p. length (pk_data p)) ps)"

definition unsent_piece_bytes :: "('c, 's) packet_socket \<Rightarrow> nat" where
  "unsent_piece_bytes ps = piece_bytes (data_packets ps) + (case curr_packet ps of None \<Rightarrow> 0
     | Some p \<Rightarrow> if pk_type p = PIECE then length (pk_data p) - pk_written p else 0)"

definition sock_inv :: "('c, 's) packet_socket \<Rightarrow> bool" where
  "sock_inv ps \<longleftrightarrow> queues_ok ps \<and> (\<forall>p. curr_packet ps = Some p \<longrightarrow> pk_written p < length (pk_data p)) \<and>
     pending_upload_data_bytes ps = of_nat (unsent_piece_bytes ps)"

text \<open>What the code relies on: the device takes no more than it was offered, the cipher keeps the length.\<close>

definition sock_env_ok :: "('c, 's) socket_env \<Rightarrow> bool" where
  "sock_env_ok env \<longleftrightarrow> (\<forall>b s. fst (dev_send env b s) \<le> int (length b)) \<and>
     (\<forall>d c. length (fst (pre_process env d c)) = length d)"

lemma piece_bytes_simps [simp]:
  "piece_bytes [] = 0" "piece_bytes (p # ps) = length (pk_data p) + piece_bytes ps"
  "piece_bytes (ps @ qs) = piece_bytes ps + piece_bytes qs"
  by (simp_all add: piece_bytes_def)

text \<open>Selecting realises the head of the reference order.\<close>

lemma selectPacket_cases:
  assumes "queues_ok ps"
  shows "selectPacket env ps = (case schedule (ctrl_packets_sent ps) (control_packets ps) (data_packets ps) of
      [] \<Rightarrow> ps\<lparr>curr_packet := None\<rparr>
    | p # rest \<Rightarrow>
       ps\<lparr>curr_packet := Some (p\<lparr>pk_data := fst (pre_process env (pk_data p) (ps_cipher ps))\<rparr>),
          ps_cipher := snd (pre_process env (pk_data p) (ps_cipher ps)),
          control_packets := (if pk_type p = PIECE then control_packets ps else List.tl (control_packets ps)),
          data_packets := (if pk_type p = PIECE then List.tl (data_packets ps) else data_packets ps),
          ctrl_packets_sent := (if pk_type p = PIECE \<and> 3 \<le> ctrl_packets_sent ps then 0 else ctrl_packets_sent ps)\<rparr>)"
  using assms
  by (cases "control_packets ps"; cases "data_packets ps")
    (auto simp: selectPacket_def run_preProcess_def take_control_def take_data_def Let_def queues_ok_def
      split: prod.splits)

lemma schedule_head:
  assumes "schedule n cs ds = p # rest" and "\<forall>c \<in> set cs. pk_type c \<noteq> PIECE" and "\<forall>d \<in> set ds. pk_type d = PIECE"
  shows "p \<in> set cs \<union> set ds" and "(pk_type p = PIECE) = (ds \<noteq> [] \<and> p = hd ds \<and> (cs = [] \<or> \<not> n < 3))"
    and "rest = schedule (after p n) (if pk_type p = PIECE then cs else List.tl cs) (if pk_type p = PIECE then List.tl ds else ds)"
    and "pk_type p = PIECE \<Longrightarrow> ds = p # List.tl ds" and "pk_type p \<noteq> PIECE \<Longrightarrow> cs = p # List.tl cs"
  using assms by (cases cs; cases ds; auto simp: after_def split: if_splits)+

lemma select_inv:
  assumes ok: "queues_ok ps" and env: "sock_env_ok env"
  shows "pending_stream env (selectPacket env ps) =
      stream env (ps_cipher ps) (schedule (ctrl_packets_sent ps) (control_packets ps) (data_packets ps))"
    and "queues_ok (selectPacket env ps)"
    and "\<forall>p. curr_packet (selectPacket env ps) = Some p \<longrightarrow> pk_written p < length (pk_data p)"
    and "unsent_piece_bytes (selectPacket env ps) = piece_bytes (data_packets ps)"
proof -
  have types: "\<forall>c \<in> set (control_packets ps). pk_type c \<noteq> PIECE" "\<forall>d \<in> set (data_packets ps). pk_type d = PIECE"
    and fresh: "\<forall>p \<in> set (control_packets ps) \<union> set (data_packets ps). fresh p"
    using ok by (auto simp: queues_ok_def)
  have len: "length (fst (pre_process env d c)) = length d" for d c using env by (simp add: sock_env_ok_def)
  let ?s = "schedule (ctrl_packets_sent ps) (control_packets ps) (data_packets ps)"
  have "pending_stream env (selectPacket env ps) = stream env (ps_cipher ps) ?s \<and>
    queues_ok (selectPacket env ps) \<and>
    (\<forall>p. curr_packet (selectPacket env ps) = Some p \<longrightarrow> pk_written p < length (pk_data p)) \<and>
    unsent_piece_bytes (selectPacket env ps) = piece_bytes (data_packets ps)"
  proof (cases ?s)
    case Nil
    then have "control_packets ps = []" "data_packets ps = []"
      by (cases "control_packets ps"; cases "data_packets ps"; simp split: if_splits)+
    with Nil ok show ?thesis
      by (simp add: selectPacket_cases pending_stream_def plan_def queues_ok_def unsent_piece_bytes_def)
  next
    case (Cons p rest)
    note h = schedule_head [OF Cons types]
    have f: "fresh p" using h(1) fresh by blast
    have tails: "set (List.tl xs) \<subseteq> set xs" for xs :: "packet list" by (cases xs) auto
    have q: "queues_ok (selectPacket env ps)"
      unfolding selectPacket_cases [OF ok] Cons using ok tails by (auto simp: queues_ok_def)
    have a: "after p (if pk_type p = PIECE \<and> 3 \<le> ctrl_packets_sent ps then 0 else ctrl_packets_sent ps) =
      after p (ctrl_packets_sent ps)" by (simp add: after_def)
    have a': "after (p\<lparr>pk_data := d\<rparr>) n = after p n" for d n by (simp add: after_def)
    have b: "pk_type p = PIECE \<Longrightarrow> piece_bytes (data_packets ps) = length (pk_data p) + piece_bytes (List.tl (data_packets ps))"
      using h(4) by (metis piece_bytes_simps(2))
    show ?thesis
      using q f b h(3)
      by (auto simp: selectPacket_cases [OF ok] Cons pending_stream_def plan_def a a' fresh_def len unsent_piece_bytes_def)
  qed
  then show "pending_stream env (selectPacket env ps) = stream env (ps_cipher ps) ?s"
    and "queues_ok (selectPacket env ps)"
    and "\<forall>p. curr_packet (selectPacket env ps) = Some p \<longrightarrow> pk_written p < length (pk_data p)"
    and "unsent_piece_bytes (selectPacket env ps) = piece_bytes (data_packets ps)"
    by blast+
qed

lemma send_current_cases:
  assumes "send_current env limit p ps = (ret, p', ps1)" and env: "sock_env_ok env"
    and room: "pk_written p < length (pk_data p)"
  shows "\<exists>d w. ps1 = ps\<lparr>curr_packet := Some p', ps_dev := d, ps_wire := ps_wire ps @ w\<rparr> \<and>
      drop (pk_written p) (pk_data p) = w @ drop (pk_written p') (pk_data p') \<and>
      p' = p\<lparr>pk_written := pk_written p + length w\<rparr> \<and> pk_written p' \<le> length (pk_data p) \<and>
      length w = nat ret \<and> (0 < limit \<longrightarrow> length w \<le> limit)"
proof -
  obtain buf where s: "packet_send (\<lambda>b. fst (dev_send env b (ps_dev ps))) limit p = (ret, buf, p')"
    and ps1: "ps1 = ps\<lparr>curr_packet := Some p', ps_dev := (if buf = [] then ps_dev ps else snd (dev_send env buf (ps_dev ps))),
            ps_wire := ps_wire ps @ take (nat ret) buf\<rparr>"
    using assms(1) by (auto simp: send_current_def Let_def split: prod.splits)
  define n where "n = length (pk_data p) - pk_written p"
  define m where "m = (if limit < n \<and> 0 < limit then limit else n)"
  have n: "n \<noteq> 0" "m \<le> n" "0 < limit \<longrightarrow> m \<le> limit" using room by (auto simp: n_def m_def)
  have buf: "buf = take m (drop (pk_written p) (pk_data p))" "ret = fst (dev_send env buf (ps_dev ps))"
    "p' = (if 0 < ret then p\<lparr>pk_written := pk_written p + nat ret\<rparr> else p)"
    using s n(1) by (auto simp: packet_send_def n_def m_def sliced_def Let_def split: if_splits)
  have len: "length buf = m" using n(2) by (simp add: buf(1) n_def)
  have ret: "nat ret \<le> m" using env len buf(2) by (metis nat_le_iff sock_env_ok_def)
  let ?w = "take (nat ret) buf"
  have w: "?w = take (nat ret) (drop (pk_written p) (pk_data p))" using ret by (simp add: buf(1))
  have lw: "length ?w = nat ret" using len ret by simp
  have p': "p' = p\<lparr>pk_written := pk_written p + length ?w\<rparr>" unfolding lw using buf(3) by auto
  have "drop (pk_written p) (pk_data p) = ?w @ drop (pk_written p') (pk_data p')"
  proof -
    have "pk_written p' = nat ret + pk_written p" "pk_data p' = pk_data p" using p' lw by simp_all
    then show ?thesis unfolding w by (metis append_take_drop_id drop_drop)
  qed
  moreover have "pk_written p' \<le> length (pk_data p)" using ret n(2) room unfolding p' lw by (simp add: n_def)
  ultimately show ?thesis using ps1 p' lw ret n(3)
    by (intro exI [of _ "if buf = [] then ps_dev ps else snd (dev_send env buf (ps_dev ps))"] exI [of _ ?w]) auto
qed

text \<open>
  One round of the loop of \<^verbatim>\<open>write\<close>: the bytes the device took leave the pending stream for the
  wire, whatever the device answered, and the counters follow.
\<close>

lemma write_round:
  assumes inv: "sock_inv ps" and env: "sock_env_ok env" and curr: "curr_packet ps = Some p"
    and s: "send_current env limit p ps = (ret, p', ps1)"
  shows "ret \<le> 0 \<Longrightarrow> sock_inv ps1 \<and> ps_wire ps1 = ps_wire ps \<and> pending_stream env ps1 = pending_stream env ps"
    and "0 < ret \<Longrightarrow> \<not> isSent p' \<Longrightarrow> sock_inv (account p' ret ps1) \<and>
      ps_wire (account p' ret ps1) @ pending_stream env (account p' ret ps1) = ps_wire ps @ pending_stream env ps"
    and "0 < ret \<Longrightarrow> isSent p' \<Longrightarrow> sock_inv (selectPacket env (packet_done p' (account p' ret ps1))) \<and>
      ps_wire ps1 @ pending_stream env (selectPacket env (packet_done p' (account p' ret ps1))) =
        ps_wire ps @ pending_stream env ps"
    and "length (ps_wire ps1) = length (ps_wire ps) + nat ret" and "0 < limit \<Longrightarrow> nat ret \<le> limit"
proof -
  have room: "pk_written p < length (pk_data p)" and q: "queues_ok ps"
    and pend: "pending_upload_data_bytes ps = of_nat (unsent_piece_bytes ps)"
    using inv curr by (auto simp: sock_inv_def)
  from send_current_cases [OF s env room] obtain d w where
    ps1: "ps1 = ps\<lparr>curr_packet := Some p', ps_dev := d, ps_wire := ps_wire ps @ w\<rparr>" and
    w: "drop (pk_written p) (pk_data p) = w @ drop (pk_written p') (pk_data p')" and
    p': "p' = p\<lparr>pk_written := pk_written p + length w\<rparr>" and le: "pk_written p' \<le> length (pk_data p)" and
    lw: "length w = nat ret" "0 < limit \<longrightarrow> length w \<le> limit" by blast
  have same: "pk_data p' = pk_data p" "pk_type p' = pk_type p" "after p' n = after p n" for n
    by (simp_all add: p' after_def)
  have q1: "queues_ok ps1" using q by (simp add: queues_ok_def ps1)
  show "length (ps_wire ps1) = length (ps_wire ps) + nat ret" and "0 < limit \<Longrightarrow> nat ret \<le> limit"
    using lw by (simp_all add: ps1)
  show "sock_inv ps1 \<and> ps_wire ps1 = ps_wire ps \<and> pending_stream env ps1 = pending_stream env ps" if "ret \<le> 0"
  proof -
    have "w = []" using that lw(1) by simp
    then show ?thesis using inv curr
      by (simp add: sock_inv_def ps1 p' queues_ok_def pending_stream_def plan_def unsent_piece_bytes_def after_def)
  qed
  have pend2: "pending_upload_data_bytes (account p' ret ps1) = of_nat (piece_bytes (data_packets ps) +
      (if pk_type p = PIECE then length (pk_data p) - pk_written p' else 0))" if "0 < ret"
  proof (cases "pk_type p = PIECE")
    case True
    have "unsent_piece_bytes ps = piece_bytes (data_packets ps) + (length (pk_data p) - pk_written p') + length w"
      using True le by (simp add: unsent_piece_bytes_def curr p')
    then have "pending_upload_data_bytes ps - of_int ret = of_nat (piece_bytes (data_packets ps) + (length (pk_data p) - pk_written p'))"
      using that lw(1) by (simp add: pend)
    then show ?thesis using True by (simp add: account_def same ps1)
  next
    case False
    then show ?thesis by (simp add: account_def same ps1 pend unsent_piece_bytes_def curr)
  qed
  show "sock_inv (account p' ret ps1) \<and>
      ps_wire (account p' ret ps1) @ pending_stream env (account p' ret ps1) = ps_wire ps @ pending_stream env ps"
    if "0 < ret" "\<not> isSent p'"
  proof -
    have "pk_written p' < length (pk_data p')" using that(2) le by (simp add: isSent_def same)
    then show ?thesis using pend2 [OF that(1)] q curr w
      by (simp add: sock_inv_def ps1 queues_ok_def pending_stream_def plan_def unsent_piece_bytes_def same)
  qed
  show "sock_inv (selectPacket env (packet_done p' (account p' ret ps1))) \<and>
      ps_wire ps1 @ pending_stream env (selectPacket env (packet_done p' (account p' ret ps1))) =
        ps_wire ps @ pending_stream env ps" if "0 < ret" "isSent p'"
  proof -
    let ?ps = "packet_done p' (account p' ret ps1)"
    have q2: "queues_ok ?ps" using q by (simp add: queues_ok_def packet_done_def ps1)
    have wire: "ps_wire ps1 = ps_wire ps @ w" by (simp add: ps1)
    have full: "pk_written p' = length (pk_data p')" using that(2) by (simp add: isSent_def)
    have f: "ctrl_packets_sent ?ps = after p (ctrl_packets_sent ps)" "control_packets ?ps = control_packets ps"
      "data_packets ?ps = data_packets ps" "ps_cipher ?ps = ps_cipher ps"
      by (simp_all add: packet_done_def ps1 after_def same)
    have "pending_upload_data_bytes ?ps = of_nat (piece_bytes (data_packets ps))"
      using pend2 [OF that(1)] full by (simp add: packet_done_def same)
    then show ?thesis
      using select_inv [OF q2 env, unfolded f] w full wire
      by (simp add: sock_inv_def pending_stream_def [of env ps] plan_def curr)
  qed
qed

lemma write_loop_stream:
  assumes "sock_inv ps" and "sock_env_ok env" and "write_loop env mx written ps = (n, ps')"
  shows "sock_inv ps' \<and> ps_wire ps' @ pending_stream env ps' = ps_wire ps @ pending_stream env ps \<and>
    length (ps_wire ps') + written = length (ps_wire ps) + n \<and> (0 < mx \<longrightarrow> written \<le> mx \<longrightarrow> n \<le> mx)"
  using assms
proof (induction env mx written ps arbitrary: n ps' rule: write_loop.induct)
  case (1 env mx written ps)
  show ?case
  proof (cases "curr_packet ps")
    case None
    with 1(2-4) show ?thesis by (simp add: write_loop.simps [of env mx written ps])
  next
    case (Some p)
    show ?thesis
    proof (cases "written < mx \<or> mx = 0")
      case False
      with 1(2-4) Some show ?thesis by (simp add: write_loop.simps [of env mx written ps])
    next
      case True
      obtain ret p' ps1 where s: "send_current env (if mx = 0 then 0 else mx - written) p ps = (ret, p', ps1)"
        by (metis prod_cases3)
      note r = write_round [OF 1(2,3) Some s]
      have lim: "0 < mx \<longrightarrow> written + nat ret \<le> mx" using r(5) True by (cases "mx = 0") auto
      consider "ret \<le> 0" | "0 < ret" "\<not> isSent p'" | "0 < ret" "isSent p'" by linarith
      then show ?thesis
      proof cases
        case 1
        then have "n = written" "ps' = ps1"
          using \<open>write_loop env mx written ps = (n, ps')\<close> Some True s
          by (simp_all add: write_loop.simps [of env mx written ps])
        with r(1) [OF 1] show ?thesis by simp
      next
        case 2
        then have "n = written + nat ret" "ps' = account p' ret ps1"
          using \<open>write_loop env mx written ps = (n, ps')\<close> Some True s
          by (simp_all add: write_loop.simps [of env mx written ps])
        with r(2) [OF 2] r(4) lim show ?thesis by simp
      next
        case 3
        let ?next = "selectPacket env (packet_done p' (account p' ret ps1))"
        have w: "write_loop env mx (written + nat ret) ?next = (n, ps')"
          using \<open>write_loop env mx written ps = (n, ps')\<close> Some True s 3
          by (simp add: write_loop.simps [of env mx written ps])
        have wire: "ps_wire ?next = ps_wire ps1" by (simp add: packet_done_def)
        have ih: "sock_inv ps' \<and> ps_wire ps' @ pending_stream env ps' = ps_wire ?next @ pending_stream env ?next \<and>
            length (ps_wire ps') + (written + nat ret) = length (ps_wire ?next) + n \<and>
            (0 < mx \<longrightarrow> written + nat ret \<le> mx \<longrightarrow> n \<le> mx)"
          by (rule 1(1) [OF Some _ refl s [symmetric] refl _ refl]) (use True 3 r(3) [OF 3] 1(3) w in auto)
        then show ?thesis using r(3) [OF 3] r(4) lim unfolding wire by auto
      qed
    qed
  qed
qed

text \<open>
  On a socket that accepts whatever it is offered, a write without a limit leaves nothing behind.
\<close>

lemma select_none: "curr_packet (selectPacket env ps) = None \<Longrightarrow> \<not> bytesReadyToWrite (selectPacket env ps)"
  by (auto simp: selectPacket_def run_preProcess_def take_control_def take_data_def bytesReadyToWrite_def Let_def
      split: option.splits prod.splits if_splits)

lemma write_loop_drains:
  assumes "sock_inv ps" and "sock_env_ok env" and "\<forall>b s. fst (dev_send env b s) = int (length b)"
    and "curr_packet ps = None \<longrightarrow> \<not> bytesReadyToWrite ps"
  shows "\<not> bytesReadyToWrite (snd (write_loop env 0 written ps))"
  using assms
proof (induction env "0 :: nat" written ps rule: write_loop.induct)
  case (1 env written ps)
  show ?case
  proof (cases "curr_packet ps")
    case None
    with 1(5) show ?thesis by (simp add: write_loop.simps [of env 0 written ps])
  next
    case (Some p)
    then have room: "pk_written p < length (pk_data p)" using 1(2) by (simp add: sock_inv_def)
    obtain ret p' ps1 where s: "send_current env 0 p ps = (ret, p', ps1)" by (metis prod_cases3)
    have "ret = int (length (pk_data p) - pk_written p) \<and> p' = p\<lparr>pk_written := length (pk_data p)\<rparr>"
      using s room 1(4) by (auto simp: send_current_def packet_send_def Let_def sliced_def split: prod.splits if_splits)
    then have done': "0 < ret" "isSent p'" using room by (auto simp: isSent_def)
    note r = write_round [OF 1(2,3) Some s]
    have "\<not> bytesReadyToWrite (snd (write_loop env 0 (written + nat ret) (selectPacket env (packet_done p' (account p' ret ps1)))))"
      by (rule 1(1) [OF Some _ refl _ refl _ refl]) (use s done' r(3) [OF done'] 1(3,4) select_none in auto)
    then show ?thesis using Some s done' by (simp add: write_loop.simps [of env 0 written ps])
  qed
qed

section \<open>Taking pieces back\<close>

lemma create_request_fields: "fresh (create_request r t)" "pk_type (create_request r t) = t"
proof -
  have "pk_data (create_request r t) \<noteq> []" by (simp add: create_wire(5) wire_def)
  moreover have "pk_written (create_request r t) = 0" by (simp add: create_request_def Packet_new_def Let_def)
  ultimately show "fresh (create_request r t)" by (simp add: fresh_def)
  show "pk_type (create_request r t) = t" by (simp add: create_request_def Packet_new_def Let_def)
qed

lemma makeReject_fresh: "makeRejectOfPiece p = Some r \<Longrightarrow> fresh r \<and> pk_type r \<noteq> PIECE"
  by (auto simp: makeRejectOfPiece_def create_request_fields REJECT_REQUEST_def PIECE_def split: if_splits)

lemma queue_reject_ok:
  "queues_ok ps \<Longrightarrow> queues_ok (queue_reject rej p ps)"
  "data_packets (queue_reject rej p ps) = data_packets ps" "curr_packet (queue_reject rej p ps) = curr_packet ps"
  "pending_upload_data_bytes (queue_reject rej p ps) = pending_upload_data_bytes ps"
  "control_packets (queue_reject rej p ps) = control_packets ps @
     (if rej then (case makeRejectOfPiece p of Some r \<Rightarrow> [r] | None \<Rightarrow> []) else [])"
  "ps_wire (queue_reject rej p ps) = ps_wire ps"
  by (auto simp: queue_reject_def addPacket_ps_def queues_ok_def dest: makeReject_fresh split: option.splits)

lemma erase_loop_spec:
  assumes "queues_ok ps" and "\<forall>p \<in> set rest. fresh p \<and> pk_type p = PIECE"
    and "pending_upload_data_bytes ps = of_nat (unsent_piece_bytes ps + piece_bytes rest)"
  shows "queues_ok (erase_loop drp rej rest ps) \<and>
    pending_upload_data_bytes (erase_loop drp rej rest ps) = of_nat (unsent_piece_bytes (erase_loop drp rej rest ps)) \<and>
    data_packets (erase_loop drp rej rest ps) = data_packets ps @ filter (\<lambda>p. \<not> drp p) rest \<and>
    control_packets (erase_loop drp rej rest ps) = control_packets ps @
      (if rej then concat (map (\<lambda>p. case makeRejectOfPiece p of Some r \<Rightarrow> [r] | None \<Rightarrow> []) (filter drp rest)) else []) \<and>
    curr_packet (erase_loop drp rej rest ps) = curr_packet ps \<and> ps_wire (erase_loop drp rej rest ps) = ps_wire ps"
  using assms
proof (induction rest arbitrary: ps)
  case (Cons p rest)
  have f: "\<not> sending p" "fresh p" "pk_type p = PIECE" using Cons.prems(2) by (auto simp: sending_def fresh_def)
  show ?case
  proof (cases "drp p")
    case True
    let ?ps = "let ps1 = queue_reject rej p ps in ps1\<lparr>pending_upload_data_bytes := pending_upload_data_bytes ps1 - getDataLength p\<rparr>"
    have u: "unsent_piece_bytes ?ps = unsent_piece_bytes ps"
      by (simp add: Let_def unsent_piece_bytes_def queue_reject_ok)
    have "queues_ok ?ps" using queue_reject_ok(1) [OF Cons.prems(1), of rej p] by (simp add: queues_ok_def Let_def)
    moreover have "pending_upload_data_bytes ?ps = of_nat (unsent_piece_bytes ?ps + piece_bytes rest)"
      unfolding u using Cons.prems(3) by (simp add: Let_def queue_reject_ok getDataLength_def)
    ultimately show ?thesis
      using Cons.IH [of ?ps] Cons.prems(2) True f by (simp add: Let_def queue_reject_ok)
  next
    case False
    let ?ps = "ps\<lparr>data_packets := data_packets ps @ [p]\<rparr>"
    have "queues_ok ?ps" using Cons.prems(1) f by (auto simp: queues_ok_def)
    moreover have "pending_upload_data_bytes ?ps = of_nat (unsent_piece_bytes ?ps + piece_bytes rest)"
      using Cons.prems(3) by (simp add: unsent_piece_bytes_def algebra_simps)
    ultimately show ?thesis
      using Cons.IH [of ?ps] Cons.prems(2) False f by simp
  qed
qed (simp add: sock_inv_def)

lemma erase_inv:
  assumes "sock_inv ps" and "ps' = erase_loop drp rej (data_packets ps) (ps\<lparr>data_packets := []\<rparr>)"
  shows "sock_inv ps'" and "data_packets ps' = filter (\<lambda>p. \<not> drp p) (data_packets ps)"
    and "rej \<Longrightarrow> control_packets ps' = control_packets ps @
      concat (map (\<lambda>p. case makeRejectOfPiece p of Some r \<Rightarrow> [r] | None \<Rightarrow> []) (filter drp (data_packets ps)))"
proof -
  let ?ps = "ps\<lparr>data_packets := []\<rparr>"
  have q: "queues_ok ?ps" and r: "\<forall>p \<in> set (data_packets ps). fresh p \<and> pk_type p = PIECE"
    and p: "pending_upload_data_bytes ?ps = of_nat (unsent_piece_bytes ?ps + piece_bytes (data_packets ps))"
    using assms(1) by (auto simp: sock_inv_def queues_ok_def unsent_piece_bytes_def add.commute)
  note e = erase_loop_spec [OF q r p, of drp rej, folded assms(2)]
  show "sock_inv ps'" using e assms(1) by (simp add: sock_inv_def)
  show "data_packets ps' = filter (\<lambda>p. \<not> drp p) (data_packets ps)" using e by simp
  show "control_packets ps' = control_packets ps @
      concat (map (\<lambda>p. case makeRejectOfPiece p of Some r \<Rightarrow> [r] | None \<Rightarrow> []) (filter drp (data_packets ps)))" if rej
    using e that by simp
qed

lemma add_inv: "sock_inv ps \<Longrightarrow> fresh p \<Longrightarrow> sock_inv (addPacket_ps p ps)"
  by (auto simp: sock_inv_def queues_ok_def addPacket_ps_def getDataLength_def unsent_piece_bytes_def algebra_simps)

lemma write_inv:
  assumes "sock_inv ps" and "sock_env_ok env" and w: "ps_write env mx ps = (n, ps')"
  shows "sock_inv ps'" and "ps_wire ps' @ pending_stream env ps' = ps_wire ps @ pending_stream env ps"
    and "length (ps_wire ps') = length (ps_wire ps) + n" and "0 < mx \<longrightarrow> n \<le> mx"
proof -
  let ?ps = "if curr_packet ps = None then selectPacket env ps else ps"
  have q: "queues_ok ps" using assms(1) by (simp add: sock_inv_def)
  note sel = select_inv [OF q assms(2)]
  have i: "sock_inv ?ps" and s: "pending_stream env ?ps = pending_stream env ps" and v: "ps_wire ?ps = ps_wire ps"
    using assms(1) sel by (auto simp: sock_inv_def unsent_piece_bytes_def [of ps] pending_stream_def [of env ps] plan_def)
  have "sock_inv ps' \<and> ps_wire ps' @ pending_stream env ps' = ps_wire ps @ pending_stream env ps \<and>
      length (ps_wire ps') = length (ps_wire ps) + n \<and> (0 < mx \<longrightarrow> n \<le> mx)"
  proof (cases "dev_ready env (ps_dev ps)")
    case True
    then have "write_loop env mx 0 ?ps = (n, ps')" using w by (simp add: ps_write_def)
    from write_loop_stream [OF i assms(2) this] show ?thesis unfolding s v by simp
  next
    case False
    then show ?thesis using w assms(1) by (simp add: ps_write_def)
  qed
  then show "sock_inv ps'" "ps_wire ps' @ pending_stream env ps' = ps_wire ps @ pending_stream env ps"
    "length (ps_wire ps') = length (ps_wire ps) + n" "0 < mx \<longrightarrow> n \<le> mx" by blast+
qed

section \<open>Sequences of operations\<close>

text \<open>The calls the connection and the upload thread make on a socket, in any order.\<close>

datatype sock_op = Add packet | Write nat | Clear bool | DoNotSend request bool | Poll

fun sock_step :: "('c, 's) socket_env \<Rightarrow> sock_op \<Rightarrow> ('c, 's) packet_socket \<Rightarrow> ('c, 's) packet_socket" where
  "sock_step env (Add p) ps = addPacket_ps p ps"
| "sock_step env (Write mx) ps = snd (ps_write env mx ps)"
| "sock_step env (Clear rej) ps = clearPieces rej ps"
| "sock_step env (DoNotSend req rej) ps = doNotSendPiece req rej ps"
| "sock_step env Poll ps = snd (dataBytesUploaded ps)"

fun op_fresh :: "sock_op \<Rightarrow> bool" where
  "op_fresh (Add p) = fresh p"
| "op_fresh _ = True"

lemma sock_step_inv:
  assumes "sock_inv ps" and "sock_env_ok env" and "op_fresh a"
  shows "sock_inv (sock_step env a ps)"
proof (cases a)
  case (Add p)
  then show ?thesis using add_inv [OF assms(1)] assms(3) by simp
next
  case (Write mx)
  then show ?thesis using write_inv(1) [OF assms(1,2)] by (metis prod.collapse sock_step.simps(2))
next
  case (Clear rej)
  then show ?thesis using erase_inv(1) [OF assms(1)] by (simp add: clearPieces_def)
next
  case (DoNotSend req rej)
  then show ?thesis using erase_inv(1) [OF assms(1)] by (simp add: doNotSendPiece_def)
next
  case Poll
  then show ?thesis using assms(1) by (simp add: dataBytesUploaded_def sock_inv_def queues_ok_def unsent_piece_bytes_def)
qed

lemma sock_run_inv:
  assumes "sock_env_ok env" and "\<forall>a \<in> set ops. op_fresh a" and "sock_inv ps"
  shows "sock_inv (fold (sock_step env) ops ps)"
  using assms(2,3) by (induction ops arbitrary: ps) (simp_all add: sock_step_inv assms(1))

lemma sock_new_inv: "sock_inv (PacketSocket_new c s)"
  by (simp add: sock_inv_def PacketSocket_new_def queues_ok_def unsent_piece_bytes_def)

section \<open>Properties\<close>

text \<open>C24. Whatever sequence of additions, partial writes, withdrawals and polls a connection goes
  through, the number of pending upload bytes the socket reports is the number of piece bytes
  that are queued and not yet accepted by the device, so it is zero when nothing waits.\<close>

theorem pending_upload_bytes_exact:
  assumes "sock_env_ok env" and "\<forall>a \<in> set ops. op_fresh a" and "ps = fold (sock_step env) ops (PacketSocket_new c s)"
  shows "numPendingPieceUploadBytes ps = of_nat (unsent_piece_bytes ps) \<and>
    (\<not> bytesReadyToWrite ps \<longrightarrow> numPendingPieceUploadBytes ps = 0)"
  using sock_run_inv [OF assms(1,2) sock_new_inv, of c s]
  unfolding assms(3) by (auto simp: sock_inv_def numPendingPieceUploadBytes_def bytesReadyToWrite_def unsent_piece_bytes_def)

definition plain_env :: "(unit, nat) socket_env" where
  "plain_env = \<lparr>pre_process = (\<lambda>d c. (d, c)), dev_send = (\<lambda>b k. (int (min k (length b)), k)), dev_ready = (\<lambda>_. True)\<rparr>"

lemma plain_env_ok: "sock_env_ok plain_env"
  by (simp add: sock_env_ok_def plain_env_def)

lemma fresh_create: "fresh (create_type t)" "fresh (create_piece i b [1, 2, 3])"
  by (simp_all add: fresh_def create_wire wire_def) (simp_all add: create_type_def create_piece_def Packet_new_def Let_def)

theorem pending_upload_bytes_exact_witness:
  "numPendingPieceUploadBytes (fold (sock_step plain_env)
     [Add (create_piece 0 0 [1, 2, 3]), Write 0, Add (create_type CHOKE)] (PacketSocket_new () 4)) = 12"
proof -
  let ?ps = "fold (sock_step plain_env)
     [Add (create_piece 0 0 [1, 2, 3]), Write 0, Add (create_type CHOKE)] (PacketSocket_new () 4)"
  have "unsent_piece_bytes ?ps = 12" by code_simp
  then show ?thesis
    using pending_upload_bytes_exact [OF plain_env_ok _ refl,
        of "[Add (create_piece 0 0 [1, 2, 3]), Write 0, Add (create_type CHOKE)]" "()" 4] fresh_create by simp
qed

text \<open>C11. A write never changes what the peer will see, only how much of it is out: the bytes on the
  wire followed by the bytes still to come (the rest of the current packet, then the queued packets
  in the reference order, each passed through the cipher in that order) stay the same whatever part
  of each buffer the device accepts, and the call returns the number of bytes it put on the wire,
  never more than its limit.\<close>

theorem write_keeps_stream:
  assumes "sock_inv ps" and "sock_env_ok env" and "ps_write env mx ps = (n, ps')"
  shows "ps_wire ps' @ pending_stream env ps' = ps_wire ps @ pending_stream env ps \<and>
    length (ps_wire ps') = length (ps_wire ps) + n \<and> (0 < mx \<longrightarrow> n \<le> mx)"
  using write_inv [OF assms] by blast

theorem write_keeps_stream_witness:
  "let ps' = snd (ps_write plain_env 3 (addPacket_ps (create_type UNCHOKE) (PacketSocket_new () (9 :: nat))))
   in ps_wire ps' @ pending_stream plain_env ps' = [0, 0, 0, 1, 1]"
proof -
  let ?ps = "addPacket_ps (create_type UNCHOKE) (PacketSocket_new () (9 :: nat))"
  obtain n ps' where w: "ps_write plain_env 3 ?ps = (n, ps')" by force
  have "sock_inv ?ps" by (intro add_inv sock_new_inv fresh_create)
  note k = write_keeps_stream [OF this plain_env_ok w]
  have "ps' = snd (ps_write plain_env 3 ?ps)" using w by simp
  moreover have "pending_stream plain_env ?ps = [0, 0, 0, 1, 1]" by code_simp
  moreover have "ps_wire ?ps = []" by (simp add: addPacket_ps_def PacketSocket_new_def)
  ultimately show ?thesis using k by simp
qed

lemma schedule_control: "cs \<noteq> [] \<Longrightarrow> hd cs \<in> set (take (Suc (Suc 0)) (schedule n cs ds))"
  by (cases cs; cases ds; cases "List.tl ds") auto

lemma schedule_data:
  assumes "ds \<noteq> []" and "3 \<le> unat n + k"
  shows "hd ds \<in> set (take (Suc k) (schedule n cs ds))"
  using assms(2)
proof (induction k arbitrary: n cs)
  case 0
  then have "\<not> n < 3" by (simp add: word_less_nat_alt)
  with assms(1) show ?case by (cases cs; cases ds) auto
next
  case (Suc k)
  show ?case
  proof (cases "cs \<noteq> [] \<and> n < 3")
    case True
    then have "unat (n + 1) = Suc (unat n)" by (simp add: word_less_nat_alt unat_word_ariths)
    with Suc.prems have "3 \<le> unat (n + 1) + k" by simp
    from Suc.IH [OF this, of "List.tl cs"] assms(1) True show ?thesis by (cases ds; cases cs) auto
  next
    case False
    with assms(1) show ?thesis by (cases ds; cases cs) auto
  qed
qed

text \<open>
  The packets the code selects in the next \<open>k\<close> turns of the loop of \<^verbatim>\<open>write\<close>, as they are put on the wire: each turn finishes the
  current packet and calls \<open>selectPacket\<close>.
\<close>

definition next_turn :: "('c, 's) socket_env \<Rightarrow> ('c, 's) packet_socket \<Rightarrow> ('c, 's) packet_socket" where
  "next_turn env ps = selectPacket env (case curr_packet ps of None \<Rightarrow> ps | Some p \<Rightarrow> packet_done p ps)"

fun selected :: "('c, 's) socket_env \<Rightarrow> nat \<Rightarrow> ('c, 's) packet_socket \<Rightarrow> packet list" where
  "selected env 0 ps = []"
| "selected env (Suc k) ps = (case curr_packet (next_turn env ps) of None \<Rightarrow> [] | Some q \<Rightarrow> q # selected env k (next_turn env ps))"

definition sent_as :: "('c, 's) socket_env \<Rightarrow> packet \<Rightarrow> packet \<Rightarrow> bool" where
  "sent_as env p q \<longleftrightarrow> (\<exists>c. q = p\<lparr>pk_data := fst (pre_process env (pk_data p) c)\<rparr>)"

definition rest_of_current :: "('c, 's) packet_socket \<Rightarrow> byte list" where
  "rest_of_current ps = (case curr_packet ps of None \<Rightarrow> [] | Some p \<Rightarrow> drop (pk_written p) (pk_data p))"

lemma next_turn_plan:
  assumes "queues_ok ps"
  shows "queues_ok (next_turn env ps)" and "curr_packet (next_turn env ps) = None \<longleftrightarrow> plan ps = []"
    and "plan ps = p # rest \<Longrightarrow> plan (next_turn env ps) = rest \<and> ps_cipher (next_turn env ps) = snd (pre_process env (pk_data p) (ps_cipher ps)) \<and>
      curr_packet (next_turn env ps) = Some (p\<lparr>pk_data := fst (pre_process env (pk_data p) (ps_cipher ps))\<rparr>)"
proof -
  let ?ps = "case curr_packet ps of None \<Rightarrow> ps | Some p \<Rightarrow> packet_done p ps"
  have q: "queues_ok ?ps" using assms by (simp add: queues_ok_def packet_done_def split: option.splits)
  have same: "control_packets ?ps = control_packets ps" "data_packets ?ps = data_packets ps" "ps_cipher ?ps = ps_cipher ps"
    by (simp_all add: packet_done_def split: option.splits)
  have pl: "schedule (ctrl_packets_sent ?ps) (control_packets ?ps) (data_packets ?ps) = plan ps"
    by (simp add: plan_def packet_done_def after_def split: option.splits)
  have types: "\<forall>c \<in> set (control_packets ?ps). pk_type c \<noteq> PIECE" "\<forall>d \<in> set (data_packets ?ps). pk_type d = PIECE"
    using q by (auto simp: queues_ok_def)
  note code = selectPacket_cases [OF q, of env, folded next_turn_def, unfolded pl]
  have tails: "set (List.tl xs) \<subseteq> set xs" for xs :: "packet list" by (cases xs) auto
  show "queues_ok (next_turn env ps)" using q tails by (cases "plan ps") (auto simp: code queues_ok_def)
  show "curr_packet (next_turn env ps) = None \<longleftrightarrow> plan ps = []" by (cases "plan ps") (simp_all add: code)
  assume p: "plan ps = p # rest"
  note h = schedule_head [OF pl [unfolded p] types]
  have "plan (next_turn env ps) = rest"
    unfolding h(3) code p by (cases "pk_type p = PIECE") (simp_all add: plan_def after_def)
  then show "plan (next_turn env ps) = rest \<and> ps_cipher (next_turn env ps) = snd (pre_process env (pk_data p) (ps_cipher ps)) \<and>
      curr_packet (next_turn env ps) = Some (p\<lparr>pk_data := fst (pre_process env (pk_data p) (ps_cipher ps))\<rparr>)"
    by (simp add: code p same)
qed

lemma selected_plan:
  assumes "queues_ok ps"
  shows "list_all2 (sent_as env) (take k (plan ps)) (selected env k ps)"
    and "concat (map pk_data (selected env k ps)) = stream env (ps_cipher ps) (take k (plan ps))"
proof -
  have "list_all2 (sent_as env) (take k (plan ps)) (selected env k ps) \<and>
    concat (map pk_data (selected env k ps)) = stream env (ps_cipher ps) (take k (plan ps))"
    using assms
  proof (induction k arbitrary: ps)
    case (Suc k)
    note n = next_turn_plan [OF Suc.prems, where env = env]
    show ?case
    proof (cases "plan ps")
      case Nil
      then show ?thesis using n(2) by simp
    next
      case (Cons p rest)
      then show ?thesis using n(3) [OF Cons] Suc.IH [OF n(1)] by (auto simp: sent_as_def)
    qed
  qed simp
  then show "list_all2 (sent_as env) (take k (plan ps)) (selected env k ps)"
    "concat (map pk_data (selected env k ps)) = stream env (ps_cipher ps) (take k (plan ps))" by blast+
qed

lemma length_schedule: "length (schedule n cs ds) = length cs + length ds"
  by (induction n cs ds rule: schedule.induct) simp_all

lemma in_selected:
  assumes "queues_ok ps" and "p \<in> set (take k (plan ps))"
  shows "\<exists>q \<in> set (selected env k ps). sent_as env p q"
proof -
  note l = selected_plan(1) [OF assms(1), of env k]
  obtain i where "i < length (take k (plan ps))" "p = take k (plan ps) ! i" using assms(2) by (auto simp only: in_set_conv_nth)
  then show ?thesis using list_all2_nthD [OF l, of i] nth_mem [of i "selected env k ps"] list_all2_lengthD [OF l] by metis
qed

text \<open>C34. No class of messages starves: in the turns of \<^verbatim>\<open>selectPacket\<close> behind the current packet the oldest control message is
  one of the next two packets and the oldest piece one of the next four, and an
  unlimited write on a device that takes everything leaves nothing in the queues and puts the selected packets on the wire in this order.\<close>

theorem no_starvation:
  assumes "sock_inv ps" and "sock_env_ok env"
  shows "(control_packets ps \<noteq> [] \<longrightarrow> (\<exists>q \<in> set (selected env 2 ps). sent_as env (hd (control_packets ps)) q)) \<and>
    (data_packets ps \<noteq> [] \<longrightarrow> (\<exists>q \<in> set (selected env 4 ps). sent_as env (hd (data_packets ps)) q)) \<and>
    (dev_ready env (ps_dev ps) \<and> (\<forall>b s. fst (dev_send env b s) = int (length b)) \<longrightarrow>
      \<not> bytesReadyToWrite (snd (ps_write env 0 ps)) \<and>
      ps_wire (snd (ps_write env 0 ps)) = ps_wire ps @ rest_of_current ps @ concat (map pk_data (selected env (backlog ps) ps)))"
proof (intro conjI impI)
  have q: "queues_ok ps" using assms(1) by (simp add: sock_inv_def)
  show "\<exists>q \<in> set (selected env 2 ps). sent_as env (hd (control_packets ps)) q" if "control_packets ps \<noteq> []"
    using schedule_control [OF that] by (intro in_selected [OF q]) (simp add: plan_def numeral_2_eq_2)
  show "\<exists>q \<in> set (selected env 4 ps). sent_as env (hd (data_packets ps)) q" if "data_packets ps \<noteq> []"
    using schedule_data [OF that, of _ 3] by (intro in_selected [OF q]) (simp add: plan_def)
  assume dev: "dev_ready env (ps_dev ps) \<and> (\<forall>b s. fst (dev_send env b s) = int (length b))"
  let ?ps = "if curr_packet ps = None then selectPacket env ps else ps" and ?ps' = "snd (ps_write env 0 ps)"
  have i: "sock_inv ?ps"
    using assms(1) select_inv [OF q assms(2)] by (auto simp: sock_inv_def unsent_piece_bytes_def [of ps])
  have "curr_packet ?ps = None \<longrightarrow> \<not> bytesReadyToWrite ?ps" using select_none by auto
  then show empty: "\<not> bytesReadyToWrite ?ps'"
    using write_loop_drains [OF i assms(2) _ _, of 0] dev by (simp add: ps_write_def)
  have "ps_wire ?ps' @ pending_stream env ?ps' = ps_wire ps @ pending_stream env ps"
    by (rule write_inv(2) [OF assms prod.collapse [symmetric]])
  moreover have "pending_stream env ?ps' = []" using empty by (simp add: bytesReadyToWrite_def pending_stream_def plan_def)
  moreover have "take (backlog ps) (plan ps) = plan ps" by (simp add: backlog_def plan_def length_schedule)
  then have "pending_stream env ps = rest_of_current ps @ concat (map pk_data (selected env (backlog ps) ps))"
    using selected_plan(2) [OF q, of env "backlog ps"] by (simp add: pending_stream_def rest_of_current_def)
  ultimately show "ps_wire ?ps' = ps_wire ps @ rest_of_current ps @ concat (map pk_data (selected env (backlog ps) ps))" by simp
qed

theorem no_starvation_witness:
  "create_type UNCHOKE \<in> set (selected plain_env 2 (addPacket_ps (create_type UNCHOKE)
     (addPacket_ps (create_piece 0 0 [1, 2, 3]) (PacketSocket_new () (9 :: nat)))))"
proof -
  let ?ps = "addPacket_ps (create_type UNCHOKE) (addPacket_ps (create_piece 0 0 [1, 2, 3]) (PacketSocket_new () (9 :: nat)))"
  have "sock_inv ?ps" by (intro add_inv sock_new_inv fresh_create)
  moreover have "control_packets ?ps = [create_type UNCHOKE]"
    by (simp add: addPacket_ps_def PacketSocket_new_def create_type_def create_piece_def Packet_new_def Let_def
        UNCHOKE_def PIECE_def)
  moreover have "sent_as plain_env p q \<Longrightarrow> q = p" for p q by (auto simp: sent_as_def plain_env_def)
  ultimately show ?thesis using no_starvation [OF _ plain_env_ok, of ?ps] by auto
qed

end
