(* ===== verification/PeerDownloader.thy ===== *)
theory PeerDownloader
  imports PacketSocket
begin

text \<open>
  \<^verbatim>\<open>bt::PieceDownloader\<close> (\<^verbatim>\<open>src/src/interfaces/piecedownloader.cpp\<close>) and its implementation for a
  peer, \<^verbatim>\<open>bt::PeerDownloader\<close> (\<^verbatim>\<open>src/src/peer/peerdownloader.cpp\<close>): requests wait in a queue until
  the number of outstanding ones, bounded by the download rate and by what the peer announced,
  allows to send them. The parts of \<^verbatim>\<open>bt::Peer\<close> that the downloader reads are the record
  \<open>peer_view\<close>; the messages it sends through the peer are appended to \<open>pv_out\<close>. A destroyed
  peer is \<^const>\<open>None\<close>. The operations that emit signals are in \<^verbatim>\<open>Downloads.thy\<close>, where the
  receivers of the signals are known.
\<close>

definition MAX_PIECE_LEN :: nat where "MAX_PIECE_LEN = 16384"

section \<open>Requests with their downloader\<close>

type_synonym pd_id = nat

text \<open>A request with the pointer to its downloader; \<^verbatim>\<open>operator==\<close> ignores the pointer.\<close>

record pd_request = request +
  rq_pd :: "pd_id option"

definition request_eq :: "pd_request \<Rightarrow> pd_request \<Rightarrow> bool" where
  "request_eq a b \<longleftrightarrow> rq_index a = rq_index b \<and> rq_len a = rq_len b \<and> rq_off a = rq_off b"

definition Request_new :: "u32 \<Rightarrow> u32 \<Rightarrow> u32 \<Rightarrow> pd_id option \<Rightarrow> pd_request" where
  "Request_new index off len pd = \<lparr>rq_index = index, rq_off = off, rq_len = len, rq_pd = pd\<rparr>"

record time_stamped_request =
  tr_req :: pd_request
  time_stamp :: u64

definition TimeStampedRequest :: "u64 \<Rightarrow> pd_request \<Rightarrow> time_stamped_request" where
  "TimeStampedRequest now r = \<lparr>tr_req = r, time_stamp = now\<rparr>"

section \<open>State\<close>

record peer_view =
  pv_choked :: bool
  pv_pieces :: bitset
  pv_download_rate :: u32
  pv_fast_extensions :: bool
  pv_max_request_queue :: u32
  pv_out :: "packet list"

record piece_downloader =
  grabbed :: int
  nearly_done :: bool

record peer_downloader = piece_downloader +
  pd_peer :: "peer_view option"
  reqs :: "time_stamped_request list"
  wait_queue :: "pd_request list"
  max_wait_queue_size :: u32
  pd_chunk_size :: u32

definition PeerDownloader_new :: "peer_view \<Rightarrow> u32 \<Rightarrow> peer_downloader" where
  "PeerDownloader_new peer chunk_size =
     \<lparr>grabbed = 0, nearly_done = False, pd_peer = Some peer, reqs = [], wait_queue = [],
      max_wait_queue_size = 25, pd_chunk_size = chunk_size div of_nat MAX_PIECE_LEN\<rparr>"

section \<open>Operations of the interface\<close>

definition grab :: "peer_downloader \<Rightarrow> int \<times> peer_downloader" where
  "grab pd = (grabbed pd + 1, pd\<lparr>grabbed := grabbed pd + 1\<rparr>)"

definition release_pd :: "peer_downloader \<Rightarrow> peer_downloader" where
  "release_pd pd = (let g = grabbed pd - 1 in pd\<lparr>grabbed := (if g < 0 then 0 else g)\<rparr>)"

definition isNearlyDone :: "peer_downloader \<Rightarrow> bool" where
  "isNearlyDone pd \<longleftrightarrow> grabbed pd = 1 \<and> nearly_done pd"

definition setNearlyDone :: "bool \<Rightarrow> peer_downloader \<Rightarrow> peer_downloader" where
  "setNearlyDone nd pd = pd\<lparr>nearly_done := nd\<rparr>"

section \<open>Messages of the peer\<close>

definition add_out :: "packet \<Rightarrow> peer_view \<Rightarrow> peer_view" where
  "add_out p v = v\<lparr>pv_out := pv_out v @ [p]\<rparr>"

definition sendRequest_peer :: "pd_request \<Rightarrow> peer_view \<Rightarrow> peer_view" where
  "sendRequest_peer r v = add_out (create_request (request.truncate r) REQUEST) v"

definition sendCancel_peer :: "pd_request \<Rightarrow> peer_view \<Rightarrow> peer_view" where
  "sendCancel_peer r v = add_out (create_request (request.truncate r) CANCEL) v"

section \<open>Operations\<close>

definition canAddRequest :: "peer_downloader \<Rightarrow> bool" where
  "canAddRequest pd \<longleftrightarrow> of_nat (length (wait_queue pd)) < max_wait_queue_size pd"

text \<open>
  \<^verbatim>\<open>getMaxChunkDownloads\<close> divides by the chunk size in pieces; \<^const>\<open>None\<close> is that division by zero.
\<close>

definition getMaxChunkDownloads :: "peer_view \<Rightarrow> peer_downloader \<Rightarrow> u32 option" where
  "getMaxChunkDownloads v pd =
     (let rate_kbs = pv_download_rate v div 1024;
          num_extra = rate_kbs div 25
      in if 16 \<le> pd_chunk_size pd then Some (1 + 16 * num_extra div pd_chunk_size pd)
         else if pd_chunk_size pd = 0 then None
         else Some (1 + (16 div pd_chunk_size pd) * num_extra))"

definition canDownloadChunk :: "peer_downloader \<Rightarrow> bool option" where
  "canDownloadChunk pd = (case pd_peer pd of
     None \<Rightarrow> Some False
   | Some v \<Rightarrow> (case getMaxChunkDownloads v pd of
       None \<Rightarrow> None
     | Some m \<Rightarrow> Some ((grabbed pd < sint m \<or> isNearlyDone pd) \<and> canAddRequest pd)))"

definition getNumRequests :: "peer_downloader \<Rightarrow> u32" where
  "getNumRequests pd = of_nat (length (reqs pd))"

text \<open>
  \<^verbatim>\<open>update\<close> computes \<^verbatim>\<open>1 + (int)ceil(10 * rate / 16384)\<close> in double precision; every value involved
  is an integer multiple of \<open>2 ^ -14\<close> below \<open>2 ^ 36\<close>, so the computation is exact. The announced
  maximum is compared and assigned as a signed \<^verbatim>\<open>int\<close>.
\<close>

definition max_reqs :: "peer_view \<Rightarrow> int" where
  "max_reqs v =
     (let m = 1 + (10 * int (unat (pv_download_rate v)) + 16383) div 16384
      in if sint (pv_max_request_queue v) < m \<and> pv_max_request_queue v \<noteq> 0
         then sint (pv_max_request_queue v) else m)"

fun update_loop_pd :: "u64 \<Rightarrow> int \<Rightarrow> pd_request list \<Rightarrow> time_stamped_request list \<Rightarrow> peer_view \<Rightarrow>
    pd_request list \<times> time_stamped_request list \<times> peer_view" where
  "update_loop_pd now m [] rs v = ([], rs, v)"
| "update_loop_pd now m (req # wq) rs v =
     (if int (length rs) < m
      then update_loop_pd now m wq (rs @ [TimeStampedRequest now req]) (sendRequest_peer req v)
      else (req # wq, rs, v))"

definition pd_update :: "u64 \<Rightarrow> peer_downloader \<Rightarrow> peer_downloader option" where
  "pd_update now pd = (case pd_peer pd of
     None \<Rightarrow> None
   | Some v \<Rightarrow>
       let m = max_reqs v;
           (wq, rs, v') = update_loop_pd now m (wait_queue pd) (reqs pd) v;
           sz = (of_int (2 * m) :: u32)
       in Some (pd\<lparr>wait_queue := wq, reqs := rs, pd_peer := Some v',
                  max_wait_queue_size := (if sz < 10 then 10 else sz)\<rparr>))"

definition download :: "u64 \<Rightarrow> pd_request \<Rightarrow> peer_downloader \<Rightarrow> peer_downloader" where
  "download now req pd = (if pd_peer pd = None then pd
     else the (pd_update now (pd\<lparr>wait_queue := wait_queue pd @ [req]\<rparr>)))"

text \<open>\<^verbatim>\<open>QList::removeAll\<close> with the number of elements removed, \<^verbatim>\<open>removeOne\<close> with success.\<close>

definition remove_reqs :: "pd_request \<Rightarrow> time_stamped_request list \<Rightarrow> time_stamped_request list" where
  "remove_reqs r rs = filter (\<lambda>t. \<not> request_eq r (tr_req t)) rs"

fun remove_one_req :: "pd_request \<Rightarrow> time_stamped_request list \<Rightarrow> time_stamped_request list" where
  "remove_one_req r [] = []"
| "remove_one_req r (t # ts) = (if request_eq r (tr_req t) then ts else t # remove_one_req r ts)"

definition remove_waiting :: "pd_request \<Rightarrow> pd_request list \<Rightarrow> pd_request list" where
  "remove_waiting r wq = filter (\<lambda>q. \<not> request_eq r q) wq"

definition cancel :: "pd_request \<Rightarrow> peer_downloader \<Rightarrow> peer_downloader" where
  "cancel req pd = (case pd_peer pd of
     None \<Rightarrow> pd
   | Some v \<Rightarrow>
       if length (remove_waiting req (wait_queue pd)) < length (wait_queue pd)
       then pd\<lparr>wait_queue := remove_waiting req (wait_queue pd)\<rparr>
       else pd\<lparr>reqs := remove_reqs req (reqs pd), pd_peer := Some (sendCancel_peer req v)\<rparr>)"

definition cancelAll_pd :: "peer_downloader \<Rightarrow> peer_downloader" where
  "cancelAll_pd pd =
     pd\<lparr>pd_peer := map_option (\<lambda>v. fold (\<lambda>t. sendCancel_peer (tr_req t)) (reqs pd) v) (pd_peer pd),
        wait_queue := [], reqs := []\<rparr>"

definition piece_pd :: "pd_request \<Rightarrow> peer_downloader \<Rightarrow> peer_downloader" where
  "piece_pd r pd = (if \<exists>t \<in> set (reqs pd). request_eq r (tr_req t)
     then pd\<lparr>reqs := remove_one_req r (reqs pd)\<rparr>
     else pd\<lparr>wait_queue := remove_waiting r (wait_queue pd)\<rparr>)"

definition peerDestroyed :: "peer_downloader \<Rightarrow> peer_downloader" where
  "peerDestroyed pd = pd\<lparr>pd_peer := None\<rparr>"

definition isChoked_pd :: "peer_downloader \<Rightarrow> bool" where
  "isChoked_pd pd = (case pd_peer pd of Some v \<Rightarrow> pv_choked v | None \<Rightarrow> True)"

definition hasChunk_pd :: "u32 \<Rightarrow> peer_downloader \<Rightarrow> bool" where
  "hasChunk_pd idx pd = (case pd_peer pd of Some v \<Rightarrow> bs_get (pv_pieces v) (unat idx) | None \<Rightarrow> False)"

definition getDownloadRate_pd :: "peer_downloader \<Rightarrow> u32" where
  "getDownloadRate_pd pd = (case pd_peer pd of Some v \<Rightarrow> pv_download_rate v | None \<Rightarrow> 0)"

section \<open>The request window\<close>

lemma update_loop_pd_spec:
  assumes "update_loop_pd now m wq rs v = (wq', rs', v')"
  shows "map tr_req rs' @ wq' = map tr_req rs @ wq"
    and "\<exists>new. rs' = rs @ map (TimeStampedRequest now) new \<and>
      v' = v\<lparr>pv_out := pv_out v @ map (\<lambda>r. create_request (request.truncate r) REQUEST) new\<rparr>"
    and "wq' = [] \<or> m \<le> int (length rs')"
    and "int (length rs') \<le> max (int (length rs)) m"
  using assms
proof (induction now m wq rs v rule: update_loop_pd.induct)
  case (1 now m rs v)
  {
    case 1
    then show ?case by simp
  next
    case 2
    then show ?case by (auto intro: exI [of _ "[]"])
  next
    case 3
    then show ?case by simp
  next
    case 4
    then show ?case by simp
  }
next
  case (2 now m req wq rs v)
  note IH = 2
  {
    case 1
    then show ?case using IH(1) by (cases "int (length rs) < m") (auto simp: TimeStampedRequest_def)
  next
    case 2
    show ?case
    proof (cases "int (length rs) < m")
      case True
      then obtain new where "rs' = (rs @ [TimeStampedRequest now req]) @ map (TimeStampedRequest now) new"
        "v' = (sendRequest_peer req v)\<lparr>pv_out := pv_out (sendRequest_peer req v) @
           map (\<lambda>r. create_request (request.truncate r) REQUEST) new\<rparr>"
        using IH(2) 2 by auto
      then show ?thesis
        by (intro exI [of _ "req # new"]) (simp add: sendRequest_peer_def add_out_def)
    qed (use 2 in \<open>auto intro: exI [of _ "[]"]\<close>)
  next
    case 3
    then show ?case using IH(3) by (cases "int (length rs) < m") auto
  next
    case 4
    then show ?case using IH(4) by (cases "int (length rs) < m") auto
  }
qed

text \<open>
  A peer may announce a negative queue length: \<^verbatim>\<open>reqq\<close> is stored with \<^verbatim>\<open>toInt()\<close> in an unsigned
  field and compared as an \<^verbatim>\<open>int\<close>. Then no request is ever sent to it, while its wait queue is
  nearly unbounded.
\<close>

lemma negative_reqq_stalls:
  assumes "pd_peer pd = Some v" and "sint (pv_max_request_queue v) < 0" and "pd_update now pd = Some pd'"
  shows "reqs pd' = reqs pd" and "wait_queue pd' = wait_queue pd"
proof -
  have "max_reqs v < 0"
  proof -
    have "0 \<le> (10 * int (unat (pv_download_rate v)) + 16383) div 16384"
      by (rule pos_imp_zdiv_nonneg_iff [THEN iffD2]) simp_all
    then show ?thesis using assms(2) by (auto simp: max_reqs_def Let_def)
  qed
  then have "update_loop_pd now (max_reqs v) (wait_queue pd) (reqs pd) v = (wait_queue pd, reqs pd, v)"
    by (cases "wait_queue pd") simp_all
  then show "reqs pd' = reqs pd" and "wait_queue pd' = wait_queue pd"
    using assms(1,3) by (auto simp: pd_update_def Let_def)
qed

text \<open>With chunks smaller than a piece \<^verbatim>\<open>canDownloadChunk\<close> divides by zero.\<close>

lemma small_chunks_divide_by_zero: "sz < 16384 \<Longrightarrow> canDownloadChunk (PeerDownloader_new v sz) = None"
proof -
  assume "sz < 16384"
  then have "sz div 16384 = 0" by (simp add: div_word_less)
  then show ?thesis
    by (simp add: canDownloadChunk_def PeerDownloader_new_def getMaxChunkDownloads_def MAX_PIECE_LEN_def)
qed

end
