(* ===== verification/ChunkRequests.thy ===== *)
theory ChunkRequests
  imports PeerDownloader "HOL-Library.AList"
begin

text \<open>
  The request side of \<^verbatim>\<open>bt::ChunkDownload\<close>, \<^verbatim>\<open>src/src/download/chunkdownload.cpp\<close>: which piece of
  a chunk is asked from which downloader. A chunk download keeps the downloaders assigned to it
  and, for each, the pieces requested from it. The downloaders are objects behind the virtual
  interface \<^verbatim>\<open>PieceDownloader\<close>: the record \<open>pd_ops\<close> holds its methods, and \<open>pds\<close> is the store of
  the downloader objects, indexed by their identity. Locale \<open>downloader_contract\<close> states what the
  chunk download relies on; \<^verbatim>\<open>bt::PeerDownloader\<close> is shown to provide it.
\<close>

section \<open>The interface of a downloader\<close>

record 'p pd_ops =
  op_grab :: "'p \<Rightarrow> 'p"
  op_release :: "'p \<Rightarrow> 'p"
  op_download :: "pd_request \<Rightarrow> 'p \<Rightarrow> 'p"
  op_cancel :: "pd_request \<Rightarrow> 'p \<Rightarrow> 'p"
  op_isChoked :: "'p \<Rightarrow> bool"
  op_canAddRequest :: "'p \<Rightarrow> bool"
  op_setNearlyDone :: "bool \<Rightarrow> 'p \<Rightarrow> 'p"
  op_getDownloadRate :: "'p \<Rightarrow> u32"

type_synonym 'p pd_store = "pd_id \<Rightarrow> 'p"

definition on_pd :: "('p \<Rightarrow> 'p) \<Rightarrow> pd_id \<Rightarrow> 'p pd_store \<Rightarrow> 'p pd_store" where
  "on_pd f pd pds = pds(pd := f (pds pd))"

section \<open>State\<close>

text \<open>
  \<^verbatim>\<open>DownloadStatus\<close>: the pieces requested from one downloader, a \<^verbatim>\<open>QSet\<close>, here a list without
  duplicates (the order in which a hash set is traversed is not specified), and the timeouts.
\<close>

record download_status =
  timeouts :: u32
  status :: "nat list"

definition DownloadStatus :: download_status where
  "DownloadStatus = \<lparr>timeouts = 0, status = []\<rparr>"

definition ds_add :: "nat \<Rightarrow> download_status \<Rightarrow> download_status" where
  "ds_add p ds = ds\<lparr>status := List.insert p (status ds)\<rparr>"

definition ds_remove :: "nat \<Rightarrow> download_status \<Rightarrow> download_status" where
  "ds_remove p ds = ds\<lparr>status := removeAll p (status ds)\<rparr>"

definition ds_contains :: "nat \<Rightarrow> download_status \<Rightarrow> bool" where
  "ds_contains p ds \<longleftrightarrow> p \<in> set (status ds)"

definition ds_clear :: "download_status \<Rightarrow> download_status" where
  "ds_clear ds = ds\<lparr>status := []\<rparr>"

definition ds_timeout :: "download_status \<Rightarrow> download_status" where
  "ds_timeout ds = ds\<lparr>timeouts := timeouts ds + 1\<rparr>"

text \<open>
  \<open>hash_data\<close> are the bytes fed to the hash generator since \<^verbatim>\<open>start\<close>, \<open>hash_ended\<close> those its
  \<^verbatim>\<open>end\<close> turned into the digest. \<open>cd_index\<close> and \<open>cd_size\<close> are the chunk's. The time stamp of the
  last activity is left out.
\<close>

record chunk_download =
  cd_index :: u32
  cd_size :: u32
  pieces :: bitset
  num :: u32
  num_downloaded :: u32
  last_size :: u32
  pdown :: "pd_id list"
  dstatus :: "(pd_id \<times> download_status) list"
  piece_providers :: "pd_id option list"
  piece_data :: "nat option list"
  hash_data :: "byte list"
  hash_ended :: "byte list option"
  num_pieces_in_hash :: u32

definition ChunkDownload_new :: "u32 \<Rightarrow> u32 \<Rightarrow> chunk_download" where
  "ChunkDownload_new index sz =
     (let n = sz div of_nat MAX_PIECE_LEN; r = sz mod of_nat MAX_PIECE_LEN;
          num' = (if r \<noteq> 0 then n + 1 else n)
      in \<lparr>cd_index = index, cd_size = sz, pieces = bs_clear (bs_new (unat num')),
          num = num', num_downloaded = 0,
          last_size = (if r \<noteq> 0 then r else of_nat MAX_PIECE_LEN),
          pdown = [], dstatus = [], piece_providers = [], piece_data = replicate (unat num') None,
          hash_data = [], hash_ended = None, num_pieces_in_hash = 0\<rparr>)"

definition find_ds :: "pd_id \<Rightarrow> chunk_download \<Rightarrow> download_status option" where
  "find_ds pd cd = map_of (dstatus cd) pd"

definition map_ds :: "(download_status \<Rightarrow> download_status) \<Rightarrow> pd_id \<Rightarrow> chunk_download \<Rightarrow> chunk_download" where
  "map_ds f pd cd = (case find_ds pd cd of None \<Rightarrow> cd
     | Some ds \<Rightarrow> cd\<lparr>dstatus := AList.update pd (f ds) (dstatus cd)\<rparr>)"

section \<open>Choosing a piece\<close>

definition times_downloading :: "chunk_download \<Rightarrow> pd_id \<Rightarrow> nat \<Rightarrow> nat" where
  "times_downloading cd pd i = length (filter (\<lambda>(k, ds). k \<noteq> pd \<and> ds_contains i ds) (dstatus cd))"

definition skips :: "chunk_download \<Rightarrow> pd_id \<Rightarrow> nat \<Rightarrow> bool" where
  "skips cd pd i \<longleftrightarrow> bs_get (pieces cd) i \<or>
     (case find_ds pd cd of Some ds \<Rightarrow> ds_contains i ds | None \<Rightarrow> False)"

fun best_loop :: "chunk_download \<Rightarrow> pd_id \<Rightarrow> nat list \<Rightarrow> nat \<Rightarrow> nat \<Rightarrow> nat" where
  "best_loop cd pd [] best best_count = best"
| "best_loop cd pd (i # is) best best_count =
     (if skips cd pd i then best_loop cd pd is best best_count
      else let t = times_downloading cd pd i in
        if t = 0 then i
        else if best = unat (num cd) \<or> t < best_count then best_loop cd pd is i t
        else best_loop cd pd is best best_count)"

definition bestPiece :: "pd_id \<Rightarrow> chunk_download \<Rightarrow> nat" where
  "bestPiece pd cd = best_loop cd pd [0..<unat (num cd)] (unat (num cd)) 0"

text \<open>A piece can be asked from \<open>pd\<close> when it is missing and not already requested from it.\<close>

definition wanted :: "chunk_download \<Rightarrow> pd_id \<Rightarrow> nat \<Rightarrow> bool" where
  "wanted cd pd i \<longleftrightarrow> i < unat (num cd) \<and> \<not> skips cd pd i"

lemma best_loop_spec:
  assumes "\<forall>i \<in> set is. i < unat (num cd)"
    and "best \<noteq> unat (num cd) \<longrightarrow> wanted cd pd best \<and> best_count = times_downloading cd pd best \<and> 0 < best_count"
    and "best \<le> unat (num cd)"
    and "r = best_loop cd pd is best best_count"
  shows "r = unat (num cd) \<and> best = unat (num cd) \<and> (\<forall>i \<in> set is. skips cd pd i) \<or>
    (wanted cd pd r \<and> (r = best \<or> r \<in> set is) \<and>
      (\<forall>i \<in> set is. \<not> skips cd pd i \<longrightarrow> times_downloading cd pd r \<le> times_downloading cd pd i) \<and>
      (best \<noteq> unat (num cd) \<longrightarrow> times_downloading cd pd r \<le> best_count))"
  using assms
proof (induction cd pd "is" best best_count arbitrary: r rule: best_loop.induct)
  case (1 cd pd best best_count)
  then show ?case by (auto simp: wanted_def)
next
  case (2 cd pd i "is" best best_count)
  let ?t = "times_downloading cd pd i"
  have i: "i < unat (num cd)" and srt: "\<forall>i \<in> set is. i < unat (num cd)" using 2(4) by auto
  show ?case
  proof (cases "skips cd pd i")
    case True
    then show ?thesis using 2(1) [OF True srt 2(5,6), of r] 2(7) by auto
  next
    case False
    then have w: "wanted cd pd i" using i by (simp add: wanted_def)
    consider "?t = 0" | "0 < ?t" "best = unat (num cd) \<or> ?t < best_count"
      | "0 < ?t" "\<not> (best = unat (num cd) \<or> ?t < best_count)" by linarith
    then show ?thesis
    proof cases
      case 1
      then show ?thesis using False w 2(7) by (auto simp: Let_def)
    next
      case t: 2
      have "r = best_loop cd pd is i ?t" using 2(7) False t by (auto simp: Let_def)
      from 2(2) [OF False refl _ t(2) srt _ _ this] t i w
      show ?thesis by (auto simp: wanted_def)
    next
      case t: 3
      have "r = best_loop cd pd is best best_count" using 2(7) False t by (auto simp: Let_def)
      from 2(3) [OF False refl _ t(2) srt 2(5,6) this] t 2(5) show ?thesis by auto
    qed
  qed
qed

lemma bestPiece_spec:
  "(bestPiece pd cd = unat (num cd) \<longleftrightarrow> (\<forall>i. \<not> wanted cd pd i)) \<and>
   (bestPiece pd cd \<noteq> unat (num cd) \<longrightarrow> wanted cd pd (bestPiece pd cd) \<and>
     (\<forall>i. wanted cd pd i \<longrightarrow> times_downloading cd pd (bestPiece pd cd) \<le> times_downloading cd pd i))"
  using best_loop_spec [of "[0..<unat (num cd)]" cd "unat (num cd)" pd 0 "bestPiece pd cd"]
  by (auto simp: bestPiece_def wanted_def)

section \<open>Sending requests\<close>

definition piece_len :: "chunk_download \<Rightarrow> nat \<Rightarrow> u32" where
  "piece_len cd i = (if i + 1 < unat (num cd) then of_nat MAX_PIECE_LEN else last_size cd)"

definition piece_request :: "chunk_download \<Rightarrow> nat \<Rightarrow> pd_id option \<Rightarrow> pd_request" where
  "piece_request cd i pd = Request_new (cd_index cd) (of_nat i * of_nat MAX_PIECE_LEN) (piece_len cd i) pd"

definition sendRequest :: "'p pd_ops \<Rightarrow> pd_id \<Rightarrow> chunk_download \<Rightarrow> 'p pd_store \<Rightarrow>
    bool \<times> chunk_download \<times> 'p pd_store" where
  "sendRequest ops pd cd pds =
     (if find_ds pd cd = None \<or> op_isChoked ops (pds pd) then (False, cd, pds)
      else let bp = bestPiece pd cd in
        if unat (num cd) \<le> bp then (False, cd, pds)
        else let pds1 = on_pd (op_download ops (piece_request cd bp (Some pd))) pd pds;
                 cd1 = map_ds (ds_add bp) pd cd;
                 left = num cd - num_downloaded cd
             in (True, cd1, if left < 2 \<and> left > 0 then on_pd (op_setNearlyDone ops True) pd pds1 else pds1))"

text \<open>One pass of the \<^verbatim>\<open>for\<close> loop of \<^verbatim>\<open>sendRequests\<close>: the downloaders that stay in the list.\<close>

fun request_round :: "'p pd_ops \<Rightarrow> pd_id list \<Rightarrow> chunk_download \<Rightarrow> 'p pd_store \<Rightarrow>
    pd_id list \<times> chunk_download \<times> 'p pd_store" where
  "request_round ops [] cd pds = ([], cd, pds)"
| "request_round ops (pd # tmp) cd pds =
     (if \<not> op_isChoked ops (pds pd) \<and> op_canAddRequest ops (pds pd) \<and> fst (sendRequest ops pd cd pds)
      then let (_, cd1, pds1) = sendRequest ops pd cd pds;
               (tmp', cd2, pds2) = request_round ops tmp cd1 pds1
           in (pd # tmp', cd2, pds2)
      else request_round ops tmp cd pds)"

definition free_pieces :: "chunk_download \<Rightarrow> nat" where
  "free_pieces cd = sum_list (map (\<lambda>(k, ds). card ({..<unat (num cd)} - set (status ds))) (dstatus cd))"

lemma sum_list_update:
  fixes f :: "'k \<times> 'v \<Rightarrow> nat"
  shows "map_of al k = Some v \<Longrightarrow>
    sum_list (map f (AList.update k v' al)) + f (k, v) = sum_list (map f al) + f (k, v')"
  by (induction al) (auto split: if_splits)

text \<open>The case in which a request goes out.\<close>

lemma sendRequest_True:
  assumes "sendRequest ops pd cd pds = (True, cd', pds')"
  obtains ds bp where "find_ds pd cd = Some ds" "wanted cd pd bp" "bp = bestPiece pd cd" "bp \<notin> set (status ds)"
    "cd' = cd\<lparr>dstatus := AList.update pd (ds_add bp ds) (dstatus cd)\<rparr>" "\<not> op_isChoked ops (pds pd)"
    "\<And>k. k \<noteq> pd \<Longrightarrow> pds' k = pds k"
proof -
  obtain ds where ds: "find_ds pd cd = Some ds" using assms by (auto simp: sendRequest_def split: if_splits)
  let ?bp = "bestPiece pd cd"
  have lt: "\<not> unat (num cd) \<le> ?bp" and nc: "\<not> op_isChoked ops (pds pd)"
    using assms by (auto simp: sendRequest_def Let_def split: if_splits)
  then have w: "wanted cd pd ?bp" using bestPiece_spec [of pd cd] by auto
  show thesis
  proof (rule that [OF ds w refl _ _ nc])
    show "?bp \<notin> set (status ds)" using w ds by (simp add: wanted_def skips_def ds_contains_def)
    show "cd' = cd\<lparr>dstatus := AList.update pd (ds_add ?bp ds) (dstatus cd)\<rparr>"
      using assms lt ds by (auto simp: sendRequest_def Let_def map_ds_def split: if_splits)
    show "pds' k = pds k" if "k \<noteq> pd" for k
      using assms that by (auto simp: sendRequest_def Let_def on_pd_def split: if_splits)
  qed
qed

lemma sendRequest_False: "sendRequest ops pd cd pds = (False, cd', pds') \<Longrightarrow> cd' = cd \<and> pds' = pds"
  by (auto simp: sendRequest_def Let_def split: if_splits)

lemma sendRequest_free:
  assumes "sendRequest ops pd cd pds = (True, cd', pds')"
  shows "free_pieces cd' < free_pieces cd"
proof -
  from assms obtain ds bp where ds: "find_ds pd cd = Some ds" and w: "wanted cd pd bp" "bp \<notin> set (status ds)"
    and cd': "cd' = cd\<lparr>dstatus := AList.update pd (ds_add bp ds) (dstatus cd)\<rparr>" by (rule sendRequest_True)
  let ?f = "\<lambda>(k, ds). card ({..<unat (num cd)} - set (status ds))"
  have "{..<unat (num cd)} - set (status (ds_add bp ds)) = ({..<unat (num cd)} - set (status ds)) - {bp}"
    by (auto simp: ds_add_def)
  moreover have "bp \<in> {..<unat (num cd)} - set (status ds)" using w by (simp add: wanted_def)
  ultimately have "?f (pd, ds_add bp ds) < ?f (pd, ds)"
    by (simp only: prod.case) (rule psubset_card_mono, auto)
  then show ?thesis
    using sum_list_update [of "dstatus cd" pd ds ?f "ds_add bp ds"] ds
    by (simp add: free_pieces_def cd' find_ds_def)
qed

lemma request_round_measure:
  assumes "request_round ops tmp cd pds = (tmp', cd', pds')"
  shows "length tmp' \<le> length tmp" and "free_pieces cd' \<le> free_pieces cd"
    and "tmp \<noteq> [] \<Longrightarrow> length tmp' + free_pieces cd' < length tmp + free_pieces cd"
proof -
  have "length tmp' \<le> length tmp \<and> free_pieces cd' \<le> free_pieces cd \<and>
    (tmp \<noteq> [] \<longrightarrow> length tmp' + free_pieces cd' < length tmp + free_pieces cd)"
    using assms
  proof (induction tmp arbitrary: cd pds tmp' cd' pds')
    case (Cons pd tmp)
    obtain ok cd1 pds1 where s: "sendRequest ops pd cd pds = (ok, cd1, pds1)" by (metis prod_cases3)
    obtain t2 cd2 pds2 where r: "request_round ops tmp cd1 pds1 = (t2, cd2, pds2)" by (metis prod_cases3)
    show ?case
    proof (cases "\<not> op_isChoked ops (pds pd) \<and> op_canAddRequest ops (pds pd) \<and> ok")
      case True
      then have "free_pieces cd1 < free_pieces cd" using sendRequest_free s by metis
      with Cons.IH [OF r] Cons.prems True s r show ?thesis by auto
    next
      case False
      then have "request_round ops tmp cd pds = (tmp', cd', pds')" using Cons.prems s by auto
      from Cons.IH [OF this] show ?thesis by (cases tmp) auto
    qed
  qed simp
  then show "length tmp' \<le> length tmp" and "free_pieces cd' \<le> free_pieces cd"
    and "tmp \<noteq> [] \<Longrightarrow> length tmp' + free_pieces cd' < length tmp + free_pieces cd" by auto
qed

function request_loop :: "'p pd_ops \<Rightarrow> pd_id list \<Rightarrow> chunk_download \<Rightarrow> 'p pd_store \<Rightarrow> chunk_download \<times> 'p pd_store" where
  "request_loop ops tmp cd pds = (if tmp = [] then (cd, pds)
     else let (tmp', cd', pds') = request_round ops tmp cd pds in request_loop ops tmp' cd' pds')"
  by pat_completeness auto
termination
proof (relation "measure (\<lambda>(ops, tmp, cd, pds). length tmp + free_pieces cd)", goal_cases)
  case 1
  then show ?case by simp
next
  case (2 ops tmp cd pds x t y c p)
  then have r: "request_round ops tmp cd pds = (t, c, p)" by simp
  show ?case using request_round_measure(3) [OF r 2(1)] by simp
qed

declare request_loop.simps [simp del]

definition sendRequests :: "'p pd_ops \<Rightarrow> chunk_download \<Rightarrow> 'p pd_store \<Rightarrow> chunk_download \<times> 'p pd_store" where
  "sendRequests ops cd pds = request_loop ops (pdown cd) cd pds"

section \<open>Cancelling, assigning and releasing\<close>

definition sendCancels :: "'p pd_ops \<Rightarrow> pd_id \<Rightarrow> chunk_download \<Rightarrow> 'p pd_store \<Rightarrow> chunk_download \<times> 'p pd_store" where
  "sendCancels ops pd cd pds = (case find_ds pd cd of
     None \<Rightarrow> (cd, pds)
   | Some ds \<Rightarrow> (map_ds ds_clear pd cd,
       fold (\<lambda>i. on_pd (op_cancel ops (piece_request cd i None)) pd) (status ds) pds))"

fun release_loop :: "'p pd_ops \<Rightarrow> pd_id list \<Rightarrow> chunk_download \<Rightarrow> 'p pd_store \<Rightarrow> chunk_download \<times> 'p pd_store" where
  "release_loop ops [] cd pds = (cd, pds)"
| "release_loop ops (pd # rest) cd pds =
     (let (cd1, pds1) = sendCancels ops pd cd (on_pd (op_release ops) pd pds) in release_loop ops rest cd1 pds1)"

definition releaseAllPDs :: "'p pd_ops \<Rightarrow> chunk_download \<Rightarrow> 'p pd_store \<Rightarrow> chunk_download \<times> 'p pd_store" where
  "releaseAllPDs ops cd pds = (let (cd1, pds1) = release_loop ops (pdown cd) cd pds
     in (cd1\<lparr>dstatus := [], pdown := []\<rparr>, pds1))"

definition assign :: "'p pd_ops \<Rightarrow> pd_id option \<Rightarrow> chunk_download \<Rightarrow> 'p pd_store \<Rightarrow>
    bool \<times> chunk_download \<times> 'p pd_store" where
  "assign ops pd' cd pds = (case pd' of
     None \<Rightarrow> (False, cd, pds)
   | Some pd \<Rightarrow>
       if pd \<in> set (pdown cd) then (False, cd, pds)
       else (True, sendRequests ops
         (cd\<lparr>pdown := pdown cd @ [pd], dstatus := AList.update pd DownloadStatus (dstatus cd)\<rparr>)
         (on_pd (op_grab ops) pd pds)))"

definition forget :: "pd_id \<Rightarrow> chunk_download \<Rightarrow> chunk_download" where
  "forget pd cd = cd\<lparr>dstatus := AList.delete pd (dstatus cd), pdown := removeAll pd (pdown cd)\<rparr>"

definition cd_release :: "'p pd_ops \<Rightarrow> pd_id \<Rightarrow> chunk_download \<Rightarrow> 'p pd_store \<Rightarrow> chunk_download \<times> 'p pd_store" where
  "cd_release ops pd cd pds = (if pd \<notin> set (pdown cd) then (cd, pds)
     else let (cd1, pds1) = sendCancels ops pd cd (on_pd (op_release ops) pd pds) in (forget pd cd1, pds1))"

definition cd_killed :: "pd_id \<Rightarrow> chunk_download \<Rightarrow> chunk_download" where
  "cd_killed pd cd = (if pd \<notin> set (pdown cd) then cd else forget pd cd)"

text \<open>The steps of \<^verbatim>\<open>notDownloaded\<close> that drop a downloader.\<close>

definition drop_downloader :: "'p pd_ops \<Rightarrow> pd_id \<Rightarrow> chunk_download \<Rightarrow> 'p pd_store \<Rightarrow> chunk_download \<times> 'p pd_store" where
  "drop_downloader ops pd cd pds =
     (let (cd1, pds1) = sendCancels ops pd cd (on_pd (op_release ops) pd pds) in (cd_killed pd cd1, pds1))"

definition notDownloaded :: "'p pd_ops \<Rightarrow> pd_request \<Rightarrow> bool \<Rightarrow> chunk_download \<Rightarrow> 'p pd_store \<Rightarrow>
    chunk_download \<times> 'p pd_store" where
  "notDownloaded ops r reject cd pds =
     (let (cd', pds') =
        (case rq_pd r of
           None \<Rightarrow> (cd, pds)
         | Some pd \<Rightarrow>
             if find_ds pd cd = None then (cd, pds)
             else let cd1 = map_ds (ds_remove (unat (rq_off r) div MAX_PIECE_LEN)) pd cd in
               if reject then drop_downloader ops pd cd1 pds
               else let pds2 = on_pd (op_cancel ops r) pd pds;
                        cd2 = map_ds ds_timeout pd cd1
                    in if timeouts (the (find_ds pd cd2)) > 0 \<and> length (pdown cd2) > 0
                       then drop_downloader ops pd cd2 pds2 else (cd2, pds2))
      in sendRequests ops cd' pds')"

definition onRejected_cd :: "'p pd_ops \<Rightarrow> pd_request \<Rightarrow> chunk_download \<Rightarrow> 'p pd_store \<Rightarrow> chunk_download \<times> 'p pd_store" where
  "onRejected_cd ops r cd pds = (if cd_index cd = rq_index r then notDownloaded ops r True cd pds else (cd, pds))"

definition onTimeout_cd :: "'p pd_ops \<Rightarrow> pd_request \<Rightarrow> chunk_download \<Rightarrow> 'p pd_store \<Rightarrow> chunk_download \<times> 'p pd_store" where
  "onTimeout_cd ops r cd pds = (if cd_index cd = rq_index r then notDownloaded ops r False cd pds else (cd, pds))"

fun endgame_loop :: "'p pd_ops \<Rightarrow> pd_request \<Rightarrow> pd_id list \<Rightarrow> chunk_download \<Rightarrow> 'p pd_store \<Rightarrow> chunk_download \<times> 'p pd_store" where
  "endgame_loop ops p [] cd pds = (cd, pds)"
| "endgame_loop ops p (pd # rest) cd pds =
     (let pp = unat (rq_off p) div MAX_PIECE_LEN in
      case find_ds pd cd of
        Some ds \<Rightarrow>
          if ds_contains pp ds
          then endgame_loop ops p rest (map_ds (ds_remove pp) pd cd) (on_pd (op_cancel ops p) pd pds)
          else endgame_loop ops p rest cd pds
      | None \<Rightarrow> endgame_loop ops p rest cd pds)"

definition endgameCancel :: "'p pd_ops \<Rightarrow> pd_request \<Rightarrow> chunk_download \<Rightarrow> 'p pd_store \<Rightarrow> chunk_download \<times> 'p pd_store" where
  "endgameCancel ops p cd pds = endgame_loop ops p (pdown cd) cd pds"

fun cancel_loop :: "'p pd_ops \<Rightarrow> pd_id list \<Rightarrow> chunk_download \<Rightarrow> 'p pd_store \<Rightarrow> chunk_download \<times> 'p pd_store" where
  "cancel_loop ops [] cd pds = (cd, pds)"
| "cancel_loop ops (pd # rest) cd pds = (let (cd1, pds1) = sendCancels ops pd cd pds in cancel_loop ops rest cd1 pds1)"

definition cancelAll_cd :: "'p pd_ops \<Rightarrow> chunk_download \<Rightarrow> 'p pd_store \<Rightarrow> chunk_download \<times> 'p pd_store" where
  "cancelAll_cd ops cd pds = cancel_loop ops (pdown cd) cd pds"

definition isChoked_cd :: "'p pd_ops \<Rightarrow> chunk_download \<Rightarrow> 'p pd_store \<Rightarrow> bool" where
  "isChoked_cd ops cd pds \<longleftrightarrow> (\<forall>pd \<in> set (pdown cd). op_isChoked ops (pds pd))"

definition getDownloadSpeed :: "'p pd_ops \<Rightarrow> chunk_download \<Rightarrow> 'p pd_store \<Rightarrow> u32" where
  "getDownloadSpeed ops cd pds = sum_list (map (\<lambda>pd. op_getDownloadRate ops (pds pd)) (pdown cd))"

definition getOnlyDownloader :: "chunk_download \<Rightarrow> pd_id option" where
  "getOnlyDownloader cd = (if length (piece_providers cd) = 1 then hd (piece_providers cd) else None)"

definition bytesDownloaded :: "chunk_download \<Rightarrow> u32" where
  "bytesDownloaded cd = sum_list (map (\<lambda>i. if of_nat i = num cd - 1 then last_size cd else of_nat MAX_PIECE_LEN)
     (filter (bs_get (pieces cd)) [0..<unat (num cd)]))"

section \<open>Bookkeeping invariant\<close>

definition requests_wf :: "chunk_download \<Rightarrow> bool" where
  "requests_wf cd \<longleftrightarrow> distinct (pdown cd) \<and> distinct (map fst (dstatus cd)) \<and> (\<forall>pd. pd \<in> set (pdown cd) \<longleftrightarrow> find_ds pd cd \<noteq> None) \<and>
     (\<forall>pd ds. find_ds pd cd = Some ds \<longrightarrow> set (status ds) \<subseteq> {..<unat (num cd)} \<and> timeouts ds = 0) \<and> unat (num cd) \<le> 262144"

lemma find_ds_simps [simp]:
  "find_ds pd (cd\<lparr>dstatus := AList.update k v (dstatus cd)\<rparr>) = (if pd = k then Some v else find_ds pd cd)"
  "find_ds pd (cd\<lparr>dstatus := []\<rparr>) = None"
  "find_ds pd (cd\<lparr>pdown := ps\<rparr>) = find_ds pd cd"
  by (simp_all add: find_ds_def update_conv')

lemma find_ds_forget [simp]: "find_ds pd (forget k cd) = (if pd = k then None else find_ds pd cd)"
  by (simp add: find_ds_def forget_def delete_conv')

lemma find_ds_map [simp]: "find_ds pd (map_ds f k cd) = (if pd = k then map_option f (find_ds pd cd) else find_ds pd cd)"
  by (auto simp: map_ds_def split: option.splits)

lemma map_ds_fields [simp]:
  "pdown (map_ds f k cd) = pdown cd" "num (map_ds f k cd) = num cd" "cd_index (map_ds f k cd) = cd_index cd"
  "pieces (map_ds f k cd) = pieces cd" "last_size (map_ds f k cd) = last_size cd"
  "num_downloaded (map_ds f k cd) = num_downloaded cd"
  by (simp_all add: map_ds_def split: option.splits)

lemma forget_fields [simp]:
  "pdown (forget k cd) = removeAll k (pdown cd)" "num (forget k cd) = num cd" "cd_index (forget k cd) = cd_index cd"
  "pieces (forget k cd) = pieces cd" "last_size (forget k cd) = last_size cd"
  by (simp_all add: forget_def)

lemma status_simps [simp]:
  "set (status (ds_add p ds)) = insert p (set (status ds))" "set (status (ds_remove p ds)) = set (status ds) - {p}"
  "status (ds_clear ds) = []" "status (ds_timeout ds) = status ds" "status DownloadStatus = []"
  "timeouts (ds_add p ds) = timeouts ds" "timeouts (ds_remove p ds) = timeouts ds"
  "timeouts (ds_clear ds) = timeouts ds" "timeouts DownloadStatus = 0" "timeouts (ds_timeout ds) = timeouts ds + 1"
  by (simp_all add: ds_add_def ds_remove_def ds_clear_def ds_timeout_def DownloadStatus_def)

lemma requests_wf_map:
  assumes "requests_wf cd"
    and "\<And>ds. find_ds k cd = Some ds \<Longrightarrow> set (status (f ds)) \<subseteq> {..<unat (num cd)} \<and> timeouts (f ds) = timeouts ds"
  shows "requests_wf (map_ds f k cd)"
proof -
  have "distinct (map fst (dstatus (map_ds f k cd)))"
    using assms(1) by (auto simp: requests_wf_def map_ds_def distinct_update split: option.splits)
  with assms show ?thesis unfolding requests_wf_def by (auto simp: map_option_case split: option.splits if_splits)
qed

lemma requests_wf_forget: "requests_wf cd \<Longrightarrow> requests_wf (forget k cd)"
  unfolding requests_wf_def
  by (auto simp: distinct_removeAll split: if_splits) (simp add: forget_def distinct_delete)

lemma requests_wf_assign:
  assumes "requests_wf cd" and "pd \<notin> set (pdown cd)"
  shows "requests_wf (cd\<lparr>pdown := pdown cd @ [pd], dstatus := AList.update pd DownloadStatus (dstatus cd)\<rparr>)"
proof -
  have "find_ds k (cd\<lparr>pdown := ps, dstatus := AList.update pd DownloadStatus (dstatus cd)\<rparr>) =
      (if k = pd then Some DownloadStatus else find_ds k cd)" for k ps
    by (simp add: find_ds_def update_conv')
  with assms show ?thesis unfolding requests_wf_def
    by (auto simp: distinct_update split: if_splits)
qed

lemma requests_wf_find: "requests_wf cd \<Longrightarrow> pd \<in> set (pdown cd) \<longleftrightarrow> find_ds pd cd \<noteq> None"
  by (auto simp: requests_wf_def)

lemma requests_wf_bound:
  "requests_wf cd \<Longrightarrow> find_ds pd cd = Some ds \<Longrightarrow> j \<in> set (status ds) \<Longrightarrow> j < unat (num cd) \<and> unat (num cd) \<le> 262144"
  by (auto simp: requests_wf_def)

text \<open>Dropping a downloader forgets its status, timeouts included.\<close>

lemma drop_after_timeout:
  assumes "pd \<in> set (pdown cd)"
  shows "drop_downloader ops pd (map_ds ds_timeout pd cd) pds = drop_downloader ops pd cd pds"
proof (cases "find_ds pd cd")
  case None
  then show ?thesis by (simp add: map_ds_def)
next
  case (Some ds)
  have req: "piece_request (map_ds f pd cd) = piece_request cd" for f
    by (auto simp: fun_eq_iff piece_request_def piece_len_def)
  have f: "forget pd (map_ds f pd cd) = forget pd cd" for f cd
    by (simp add: forget_def map_ds_def delete_update_same split: option.splits)
  show ?thesis using Some assms
    by (simp add: drop_downloader_def sendCancels_def req cd_killed_def f Let_def)
qed

section \<open>Agreement with the downloaders\<close>

type_synonym request_key = "u32 \<times> u32 \<times> u32"

definition req_key :: "pd_request \<Rightarrow> request_key" where
  "req_key r = (rq_index r, rq_off r, rq_len r)"

definition piece_key :: "chunk_download \<Rightarrow> nat \<Rightarrow> request_key" where
  "piece_key cd i = (cd_index cd, of_nat i * of_nat MAX_PIECE_LEN, piece_len cd i)"

definition of_chunk :: "chunk_download \<Rightarrow> request_key set \<Rightarrow> request_key set" where
  "of_chunk cd K = {k \<in> K. fst k = cd_index cd}"

lemma req_key_piece [simp]: "req_key (piece_request cd i pd) = piece_key cd i"
  by (simp add: req_key_def piece_request_def Request_new_def piece_key_def)

lemma piece_key_inj:
  assumes "i < 262144" "j < 262144" and "piece_key cd i = piece_key cd j"
  shows "i = j"
proof -
  have "(of_nat (i * MAX_PIECE_LEN) :: u32) = of_nat (j * MAX_PIECE_LEN)"
    using assms(3) by (simp add: piece_key_def)
  then have "i * MAX_PIECE_LEN = j * MAX_PIECE_LEN"
    using assms(1,2) by (subst (asm) word_of_nat_eq_iff) (simp add: MAX_PIECE_LEN_def take_bit_eq_mod)
  then show ?thesis by (simp add: MAX_PIECE_LEN_def)
qed

lemma piece_key_image:
  assumes "requests_wf cd" "find_ds pd cd = Some ds" "i < unat (num cd)"
  shows "piece_key cd i \<in> piece_key cd ` set (status ds) \<longleftrightarrow> i \<in> set (status ds)"
proof
  assume "piece_key cd i \<in> piece_key cd ` set (status ds)"
  then obtain j where j: "j \<in> set (status ds)" "piece_key cd i = piece_key cd j" by blast
  with requests_wf_bound [OF assms(1,2) j(1)] assms(3) have "i < 262144" "j < 262144" by auto
  from piece_key_inj [OF this j(2)] j(1) show "i \<in> set (status ds)" by simp
qed simp

text \<open>The requests of other chunks, and a chunk download without its downloaders.\<close>

definition foreign :: "u32 \<Rightarrow> request_key set \<Rightarrow> request_key set" where
  "foreign ix K = {k \<in> K. fst k \<noteq> ix}"

definition core :: "chunk_download \<Rightarrow> chunk_download" where
  "core cd = cd\<lparr>pdown := [], dstatus := []\<rparr>"

lemma core_map_ds [simp]: "core (map_ds f k cd) = core cd"
  by (simp add: core_def map_ds_def split: option.splits)

lemma core_forget [simp]: "core (forget k cd) = core cd"
  by (simp add: core_def forget_def)

lemma core_index: "core cd' = core cd \<Longrightarrow> cd_index cd' = cd_index cd"
  by (cases cd; cases cd') (simp add: core_def)

text \<open>
  What a chunk download relies on: the requests a downloader holds (\<open>outstanding\<close>, by index,
  offset and length) grow by a download, shrink by a cancel, and nothing else it calls changes
  them or whether the downloader is choked. \<open>good\<close> is the downloader's own invariant.
\<close>

locale downloader_contract =
  fixes ops :: "'p pd_ops" and good :: "'p \<Rightarrow> bool" and outstanding :: "'p \<Rightarrow> request_key set"
  assumes grab_law: "good p \<Longrightarrow> good (op_grab ops p) \<and> outstanding (op_grab ops p) = outstanding p"
    and release_law: "good p \<Longrightarrow> good (op_release ops p) \<and> outstanding (op_release ops p) = outstanding p"
    and nearly_law: "good p \<Longrightarrow> good (op_setNearlyDone ops b p) \<and> outstanding (op_setNearlyDone ops b p) = outstanding p"
    and download_law: "good p \<Longrightarrow> \<not> op_isChoked ops p \<Longrightarrow> req_key r \<notin> outstanding p \<Longrightarrow>
      good (op_download ops r p) \<and> outstanding (op_download ops r p) = insert (req_key r) (outstanding p)"
    and cancel_law: "good p \<Longrightarrow> good (op_cancel ops r p) \<and> outstanding (op_cancel ops r p) = outstanding p - {req_key r}"
begin

definition agrees :: "chunk_download \<Rightarrow> 'p pd_store \<Rightarrow> pd_id \<Rightarrow> bool" where
  "agrees cd pds pd \<longleftrightarrow> good (pds pd) \<and>
     (\<forall>ds. find_ds pd cd = Some ds \<longrightarrow> of_chunk cd (outstanding (pds pd)) = piece_key cd ` set (status ds))"

text \<open>
  \<open>framed\<close>: relative to a reference state \<open>R\<close>, only the assignment of downloaders and requests of
  this chunk have changed; requests of other chunks at any downloader are as they were.
\<close>

definition framed :: "chunk_download \<times> 'p pd_store \<Rightarrow> chunk_download \<Rightarrow> 'p pd_store \<Rightarrow> bool" where
  "framed R cd pds \<longleftrightarrow> core cd = core (fst R) \<and> (\<forall>pd. good (snd R pd) \<longrightarrow> good (pds pd) \<and>
     foreign (cd_index cd) (outstanding (pds pd)) = foreign (cd_index cd) (outstanding (snd R pd)))"

definition agree :: "chunk_download \<times> 'p pd_store \<Rightarrow> chunk_download \<Rightarrow> 'p pd_store \<Rightarrow> bool" where
  "agree R cd pds \<longleftrightarrow> requests_wf cd \<and> framed R cd pds \<and> (\<forall>pd \<in> set (pdown cd). agrees cd pds pd)"

lemma framed_on:
  assumes "framed R cd pds" and "\<And>k. k \<noteq> pd \<Longrightarrow> pds' k = pds k"
    and "good (pds pd) \<Longrightarrow> good (pds' pd) \<and>
      foreign (cd_index cd) (outstanding (pds' pd)) = foreign (cd_index cd) (outstanding (pds pd))"
  shows "framed R cd pds'"
  unfolding framed_def
proof (intro conjI allI impI)
  show "core cd = core (fst R)" using assms(1) by (simp add: framed_def)
  fix k assume g: "good (snd R k)"
  with assms(1) have "good (pds k)" "foreign (cd_index cd) (outstanding (pds k)) = foreign (cd_index cd) (outstanding (snd R k))"
    by (auto simp: framed_def)
  with assms(2,3) show "good (pds' k)" "foreign (cd_index cd) (outstanding (pds' k)) = foreign (cd_index cd) (outstanding (snd R k))"
    by (cases "k = pd"; simp)+
qed

lemma framed_core: "core cd' = core cd \<Longrightarrow> framed R cd pds \<Longrightarrow> framed R cd' pds"
  using core_index [of cd' cd] by (simp add: framed_def)

lemma agree_neutral:
  assumes "agree R cd pds" and "good (pds pd) \<Longrightarrow> good (f (pds pd)) \<and> outstanding (f (pds pd)) = outstanding (pds pd)"
  shows "agree R cd (on_pd f pd pds)"
proof -
  have "framed R cd (on_pd f pd pds)"
    by (rule framed_on [where pds = pds and pd = pd]) (use assms in \<open>auto simp: agree_def on_pd_def\<close>)
  then show ?thesis using assms by (auto simp: agree_def agrees_def on_pd_def)
qed

lemma of_chunk_insert: "fst k = cd_index cd \<Longrightarrow> of_chunk cd (insert k K) = insert k (of_chunk cd K)"
  by (auto simp: of_chunk_def)

lemma of_chunk_diff: "of_chunk cd (K - L) = of_chunk cd K - L"
  by (auto simp: of_chunk_def)

lemma sendRequest_agree:
  assumes "agree R cd pds" and s: "sendRequest ops pd cd pds = (ok, cd', pds')"
  shows "agree R cd' pds' \<and> pdown cd' = pdown cd \<and> num cd' = num cd \<and> pieces cd' = pieces cd"
proof (cases ok)
  case False
  then show ?thesis using sendRequest_False s assms(1) by metis
next
  case True
  then obtain ds bp where ds: "find_ds pd cd = Some ds" and w: "wanted cd pd bp" and bp: "bp = bestPiece pd cd"
    and nin: "bp \<notin> set (status ds)" and cd': "cd' = cd\<lparr>dstatus := AList.update pd (ds_add bp ds) (dstatus cd)\<rparr>"
    and nc: "\<not> op_isChoked ops (pds pd)"
    using s sendRequest_True [of ops pd cd pds cd' pds'] by metis
  have wf: "requests_wf cd" and bpn: "bp < unat (num cd)" using assms(1) w by (auto simp: agree_def wanted_def)
  have mem: "pd \<in> set (pdown cd)" using requests_wf_find [OF wf] ds by simp
  have ag: "good (pds pd)" "of_chunk cd (outstanding (pds pd)) = piece_key cd ` set (status ds)"
    using assms(1) mem ds by (auto simp: agree_def agrees_def)
  let ?r = "piece_request cd bp (Some pd)"
  have "piece_key cd bp \<notin> of_chunk cd (outstanding (pds pd))"
    unfolding ag(2) using piece_key_image [OF wf ds bpn] nin by simp
  then have fresh: "req_key ?r \<notin> outstanding (pds pd)" by (simp add: of_chunk_def piece_key_def)
  note dl = download_law [OF ag(1) nc fresh]
  have cd'm: "cd' = map_ds (ds_add bp) pd cd" using ds cd' by (simp add: map_ds_def)
  have wf': "requests_wf cd'" unfolding cd'm using wf ds bpn by (intro requests_wf_map) (auto simp: requests_wf_def)
  have pds': "pds' = on_pd (op_download ops ?r) pd pds \<or>
      pds' = on_pd (op_setNearlyDone ops True) pd (on_pd (op_download ops ?r) pd pds)"
    using s True bp by (auto simp: sendRequest_def Let_def split: if_splits)
  have mine: "good (pds' pd)" "outstanding (pds' pd) = insert (piece_key cd bp) (outstanding (pds pd))"
    and other: "\<And>k. k \<noteq> pd \<Longrightarrow> pds' k = pds k"
    using pds' dl nearly_law by (auto simp: on_pd_def)
  have same: "piece_key cd' = piece_key cd" "of_chunk cd' = of_chunk cd" "pdown cd' = pdown cd"
    by (auto simp: cd' fun_eq_iff piece_key_def piece_len_def of_chunk_def)
  have "agrees cd' pds' k" if "k \<in> set (pdown cd)" for k
  proof (cases "k = pd")
    case True
    then show ?thesis using mine ag(2) unfolding agrees_def same
      by (simp add: cd' of_chunk_insert piece_key_def)
  next
    case False
    then show ?thesis using assms(1) that other unfolding agree_def agrees_def same by (auto simp: cd')
  qed
  moreover have "framed R cd' pds'"
  proof (rule framed_core)
    show "core cd' = core cd" by (simp add: cd' core_def)
    show "framed R cd pds'"
      by (rule framed_on [OF _ other]) (use assms(1) mine in \<open>auto simp: agree_def foreign_def piece_key_def\<close>)
  qed
  ultimately show ?thesis using wf' same(3) by (simp add: agree_def cd')
qed

text \<open>Cancelling pieces at one downloader and dropping them from its status keeps the agreement.\<close>

lemma fold_cancel:
  assumes "good (pds pd)"
  shows "good (fold (\<lambda>i. on_pd (op_cancel ops (g i)) pd) is pds pd) \<and>
    outstanding (fold (\<lambda>i. on_pd (op_cancel ops (g i)) pd) is pds pd) = outstanding (pds pd) - (\<lambda>i. req_key (g i)) ` set is \<and>
    (\<forall>k. k \<noteq> pd \<longrightarrow> fold (\<lambda>i. on_pd (op_cancel ops (g i)) pd) is pds k = pds k)"
  using assms
proof (induction "is" arbitrary: pds)
  case (Cons i "is")
  have "good (on_pd (op_cancel ops (g i)) pd pds pd)" using cancel_law [OF Cons.prems] by (simp add: on_pd_def)
  with Cons.IH [of "on_pd (op_cancel ops (g i)) pd pds"] cancel_law [OF Cons.prems, of "g i"]
  show ?case by (auto simp: on_pd_def)
qed simp

lemma agree_update:
  assumes "agree R cd pds" and ds: "find_ds pd cd = Some ds"
    and f: "set (status (f ds)) = set (status ds) - P" "timeouts (f ds) = timeouts ds"
    and good': "good (pds' pd)" and out: "of_chunk cd (outstanding (pds' pd)) = piece_key cd ` (set (status ds) - P)"
    and other: "\<And>k. k \<noteq> pd \<Longrightarrow> pds' k = pds k"
    and rest: "foreign (cd_index cd) (outstanding (pds' pd)) = foreign (cd_index cd) (outstanding (pds pd))"
  shows "agree R (map_ds f pd cd) pds'"
proof -
  have wf: "requests_wf cd" using assms(1) by (simp add: agree_def)
  then have "requests_wf (map_ds f pd cd)"
    by (rule requests_wf_map) (use requests_wf_bound [OF wf ds] f ds in auto)
  moreover have same: "piece_key (map_ds f pd cd) = piece_key cd" "of_chunk (map_ds f pd cd) = of_chunk cd"
    by (auto simp: fun_eq_iff piece_key_def piece_len_def of_chunk_def)
  have "agrees (map_ds f pd cd) pds' k" if "k \<in> set (pdown cd)" for k
  proof (cases "k = pd")
    case True
    then show ?thesis using good' out f ds unfolding agrees_def same by simp
  next
    case False
    then show ?thesis using assms(1) that other unfolding agree_def agrees_def same by simp
  qed
  moreover have "framed R (map_ds f pd cd) pds'"
    by (rule framed_core [OF core_map_ds], rule framed_on [OF _ other])
      (use assms(1) good' rest in \<open>auto simp: agree_def\<close>)
  ultimately show ?thesis by (simp add: agree_def)
qed

lemma sendCancels_agree:
  assumes "agree R cd pds" and "sendCancels ops pd cd pds = (cd', pds')"
  shows "agree R cd' pds' \<and> pdown cd' = pdown cd \<and> num cd' = num cd \<and> cd_index cd' = cd_index cd \<and> pieces cd' = pieces cd"
proof (cases "find_ds pd cd")
  case None
  with assms show ?thesis by (simp add: sendCancels_def)
next
  case (Some ds)
  let ?g = "\<lambda>i. piece_request cd i None"
  have wf: "requests_wf cd" using assms(1) by (simp add: agree_def)
  have pd: "pd \<in> set (pdown cd)" using requests_wf_find [OF wf] Some by simp
  then have g: "good (pds pd)" and o: "of_chunk cd (outstanding (pds pd)) = piece_key cd ` set (status ds)"
    using assms(1) Some by (auto simp: agree_def agrees_def)
  have c: "cd' = map_ds ds_clear pd cd" "pds' = fold (\<lambda>i. on_pd (op_cancel ops (?g i)) pd) (status ds) pds"
    using assms(2) Some by (simp_all add: sendCancels_def)
  have "agree R (map_ds ds_clear pd cd) pds'"
    by (rule agree_update [OF assms(1) Some, where P = "set (status ds)"])
      (use fold_cancel [of pds pd ?g "status ds"] g o in \<open>auto simp: c(2) of_chunk_diff foreign_def piece_key_def\<close>)
  then show ?thesis by (simp add: c(1))
qed

lemma agree_forget: "agree R cd pds \<Longrightarrow> agree R (forget pd cd) pds"
  by (auto simp: agree_def agrees_def requests_wf_forget of_chunk_def piece_key_def piece_len_def
      intro: framed_core [OF core_forget] split: if_splits)

lemma request_round_agree:
  assumes "agree R cd pds" and "request_round ops tmp cd pds = (tmp', cd', pds')"
  shows "agree R cd' pds' \<and> pdown cd' = pdown cd"
  using assms
proof (induction tmp arbitrary: cd pds tmp' cd' pds')
  case (Cons pd tmp)
  obtain ok cd1 pds1 where s: "sendRequest ops pd cd pds = (ok, cd1, pds1)" by (metis prod_cases3)
  obtain t2 cd2 pds2 where r: "request_round ops tmp cd1 pds1 = (t2, cd2, pds2)" by (metis prod_cases3)
  show ?case
  proof (cases "\<not> op_isChoked ops (pds pd) \<and> op_canAddRequest ops (pds pd) \<and> ok")
    case True
    then have "cd' = cd2" "pds' = pds2" using Cons.prems(2) s r by auto
    then show ?thesis using Cons.IH [OF _ r] sendRequest_agree [OF Cons.prems(1) s] by simp
  next
    case False
    then have "request_round ops tmp cd pds = (tmp', cd', pds')" using Cons.prems(2) s by auto
    then show ?thesis using Cons.IH Cons.prems(1) by blast
  qed
qed simp

lemma request_loop_agree:
  assumes "agree R cd pds" and "request_loop ops tmp cd pds = (cd', pds')"
  shows "agree R cd' pds' \<and> pdown cd' = pdown cd"
  using assms
proof (induction "length tmp + free_pieces cd" arbitrary: tmp cd pds rule: less_induct)
  case less
  show ?case
  proof (cases "tmp = []")
    case True
    with less(2,3) show ?thesis by (simp add: request_loop.simps [of ops "[]"])
  next
    case False
    obtain t1 cd1 pds1 where r: "request_round ops tmp cd pds = (t1, cd1, pds1)" by (metis prod_cases3)
    have "request_loop ops t1 cd1 pds1 = (cd', pds')"
      using less(3) False r by (simp add: request_loop.simps [of ops tmp])
    then show ?thesis
      using less(1) [OF request_round_measure(3) [OF r False], of pds1] request_round_agree [OF less(2) r] by simp
  qed
qed

lemma sendRequests_agree:
  "agree R cd pds \<Longrightarrow> sendRequests ops cd pds = (cd', pds') \<Longrightarrow> agree R cd' pds' \<and> pdown cd' = pdown cd"
  unfolding sendRequests_def by (rule request_loop_agree)

lemma cd_release_agree:
  assumes "agree R cd pds" and "cd_release ops pd cd pds = (cd', pds')"
  shows "agree R cd' pds' \<and> pdown cd' = removeAll pd (pdown cd)"
proof (cases "pd \<in> set (pdown cd)")
  case True
  obtain cd1 pds1 where c: "sendCancels ops pd cd (on_pd (op_release ops) pd pds) = (cd1, pds1)" by force
  have "agree R cd (on_pd (op_release ops) pd pds)" using agree_neutral [OF assms(1)] release_law by blast
  from sendCancels_agree [OF this c] agree_forget [of R cd1 pds1 pd] assms(2) c True show ?thesis
    by (auto simp: cd_release_def)
qed (use assms in \<open>simp add: cd_release_def\<close>)

lemma drop_downloader_agree:
  assumes "agree R cd pds" and "drop_downloader ops pd cd pds = (cd', pds')"
  shows "agree R cd' pds' \<and> pdown cd' = removeAll pd (pdown cd)"
proof -
  obtain cd1 pds1 where c: "sendCancels ops pd cd (on_pd (op_release ops) pd pds) = (cd1, pds1)" by force
  have "agree R cd (on_pd (op_release ops) pd pds)" using agree_neutral [OF assms(1)] release_law by blast
  from sendCancels_agree [OF this c] agree_forget [of R cd1 pds1 pd] assms(2) c show ?thesis
    by (auto simp: drop_downloader_def cd_killed_def)
qed

lemma assign_agree:
  assumes "agree R cd pds" and "assign ops (Some pd) cd pds = (ok, cd', pds')"
    and new: "pd \<notin> set (pdown cd) \<Longrightarrow> good (pds pd) \<and> of_chunk cd (outstanding (pds pd)) = {}"
  shows "agree R cd' pds' \<and> (ok \<longleftrightarrow> pd \<notin> set (pdown cd)) \<and> pd \<in> set (pdown cd')"
proof (cases "pd \<in> set (pdown cd)")
  case True
  with assms(1,2) show ?thesis by (simp add: assign_def)
next
  case False
  let ?cd = "cd\<lparr>pdown := pdown cd @ [pd], dstatus := AList.update pd DownloadStatus (dstatus cd)\<rparr>"
  let ?pds = "on_pd (op_grab ops) pd pds"
  have s: "sendRequests ops ?cd ?pds = (cd', pds')" "ok" using assms(2) False by (auto simp: assign_def)
  have find: "find_ds k ?cd = (if k = pd then Some DownloadStatus else find_ds k cd)" for k
    by (simp add: find_ds_def update_conv')
  have same: "piece_key ?cd = piece_key cd" "of_chunk ?cd = of_chunk cd"
    by (auto simp: fun_eq_iff piece_key_def piece_len_def of_chunk_def)
  have "agrees ?cd ?pds k" if "k \<in> set (pdown cd) \<or> k = pd" for k
  proof (cases "k = pd")
    case True
    then show ?thesis using new [OF False] grab_law [of "pds pd"] unfolding agrees_def same find by (simp add: on_pd_def)
  next
    case False
    then show ?thesis using assms(1) that unfolding agree_def agrees_def same find by (simp add: on_pd_def)
  qed
  moreover have "requests_wf ?cd" using requests_wf_assign [OF _ False] assms(1) by (simp add: agree_def)
  moreover have "framed R ?cd ?pds"
    by (rule framed_core [of _ cd], simp add: core_def, rule framed_on [where pds = pds and pd = pd])
      (use assms(1) grab_law [of "pds pd"] in \<open>auto simp: agree_def on_pd_def\<close>)
  ultimately have "agree R ?cd ?pds" by (auto simp: agree_def)
  from sendRequests_agree [OF this s(1)] s(2) False show ?thesis by simp
qed

text \<open>
  A request that comes back unanswered: the downloader has dropped it already (\<open>pds\<close> holds it no
  more), so the agreement holds up to that one piece, and \<^verbatim>\<open>notDownloaded\<close> restores it.
\<close>

definition agree_but :: "chunk_download \<times> 'p pd_store \<Rightarrow> chunk_download \<Rightarrow> 'p pd_store \<Rightarrow> pd_id \<Rightarrow> nat \<Rightarrow> bool" where
  "agree_but R cd pds pd i \<longleftrightarrow> requests_wf cd \<and> framed R cd pds \<and> (\<forall>k \<in> set (pdown cd). k \<noteq> pd \<longrightarrow> agrees cd pds k) \<and>
     (\<forall>ds. find_ds pd cd = Some ds \<longrightarrow> good (pds pd) \<and>
        of_chunk cd (outstanding (pds pd)) = piece_key cd ` (set (status ds) - {i}))"

lemma agree_but_remove:
  assumes "agree_but R cd pds pd i"
  shows "agree R (map_ds (ds_remove i) pd cd) pds"
proof -
  have wf: "requests_wf cd" using assms by (simp add: agree_but_def)
  then have "requests_wf (map_ds (ds_remove i) pd cd)"
    by (rule requests_wf_map) (use requests_wf_bound [OF wf] in auto)
  moreover have same: "piece_key (map_ds f pd cd) = piece_key cd" "of_chunk (map_ds f pd cd) = of_chunk cd" for f
    by (auto simp: fun_eq_iff piece_key_def piece_len_def of_chunk_def)
  ultimately show ?thesis
    using assms requests_wf_find [OF wf] framed_core [OF core_map_ds]
    unfolding agree_def agree_but_def agrees_def same by (auto split: if_splits)
qed

lemma notDownloaded_agree:
  assumes "agree_but R cd pds pd (unat (rq_off r) div MAX_PIECE_LEN)" and r: "rq_pd r = Some pd"
    and gone: "\<not> reject \<Longrightarrow> req_key r \<notin> outstanding (pds pd)"
    and n: "notDownloaded ops r reject cd pds = (cd', pds')"
  shows "agree R cd' pds' \<and> pd \<notin> set (pdown cd') \<and> set (pdown cd') \<subseteq> set (pdown cd)"
proof (cases "find_ds pd cd")
  case None
  then have "agree R cd pds" and "pd \<notin> set (pdown cd)"
    using assms(1) requests_wf_find [of cd pd] by (auto simp: agree_but_def agree_def)
  moreover have "sendRequests ops cd pds = (cd', pds')" using n r None by (simp add: notDownloaded_def)
  ultimately show ?thesis using sendRequests_agree [of R cd pds cd' pds'] by simp
next
  case (Some ds)
  let ?i = "unat (rq_off r) div MAX_PIECE_LEN"
  let ?cd1 = "map_ds (ds_remove ?i) pd cd"
  have a1: "agree R ?cd1 pds" by (rule agree_but_remove [OF assms(1)])
  have pd: "pd \<in> set (pdown cd)" using assms(1) Some requests_wf_find [of cd pd] by (simp add: agree_but_def)
  have "\<exists>cd2 pds2 cd3 pds3. agree R cd2 pds2 \<and> pdown cd2 = pdown cd \<and> drop_downloader ops pd cd2 pds2 = (cd3, pds3) \<and>
      sendRequests ops cd3 pds3 = (cd', pds')"
  proof (cases reject)
    case True
    obtain cd3 pds3 where d: "drop_downloader ops pd ?cd1 pds = (cd3, pds3)" by force
    then have "sendRequests ops cd3 pds3 = (cd', pds')" using n r Some True by (simp add: notDownloaded_def Let_def)
    with a1 d show ?thesis by (intro exI [of _ ?cd1] exI [of _ pds] exI [of _ cd3] exI [of _ pds3]) simp
  next
    case False
    let ?cd2 = "map_ds ds_timeout pd ?cd1" and ?pds2 = "on_pd (op_cancel ops r) pd pds"
    have wf: "requests_wf cd" using assms(1) by (simp add: agree_but_def)
    have g: "good (pds pd)" using assms(1) Some by (simp add: agree_but_def)
    have "agree R ?cd1 ?pds2"
      by (rule agree_neutral [OF a1]) (use cancel_law [OF g, of r] gone [OF False] in auto)
    moreover have "timeouts (the (find_ds pd ?cd2)) > 0 \<and> length (pdown ?cd2) > 0"
      using Some pd wf by (auto simp: requests_wf_def)
    moreover obtain cd3 pds3 where d: "drop_downloader ops pd ?cd1 ?pds2 = (cd3, pds3)" by force
    ultimately have "sendRequests ops cd3 pds3 = (cd', pds')"
      using n r Some False drop_after_timeout [of pd ?cd1 ops ?pds2] pd by (simp add: notDownloaded_def Let_def)
    then show ?thesis using \<open>agree R ?cd1 ?pds2\<close> d
      by (intro exI [of _ ?cd1] exI [of _ ?pds2] exI [of _ cd3] exI [of _ pds3]) simp
  qed
  then obtain cd2 pds2 cd3 pds3 where "agree R cd2 pds2" "pdown cd2 = pdown cd"
    "drop_downloader ops pd cd2 pds2 = (cd3, pds3)" "sendRequests ops cd3 pds3 = (cd', pds')" by blast
  with drop_downloader_agree [of R cd2 pds2 pd cd3 pds3] sendRequests_agree [of R cd3 pds3 cd' pds'] show ?thesis by auto
qed

lemma cancel_loop_agree:
  "agree R cd pds \<Longrightarrow> cancel_loop ops ps cd pds = (cd', pds') \<Longrightarrow> agree R cd' pds' \<and> pdown cd' = pdown cd"
proof (induction ps arbitrary: cd pds)
  case (Cons pd ps)
  obtain cd1 pds1 where c: "sendCancels ops pd cd pds = (cd1, pds1)" by force
  from sendCancels_agree [OF Cons.prems(1) c] Cons.IH [of cd1 pds1] Cons.prems(2) c show ?case by simp
qed simp

lemma release_loop_agree:
  "agree R cd pds \<Longrightarrow> release_loop ops ps cd pds = (cd', pds') \<Longrightarrow> agree R cd' pds' \<and> num cd' = num cd"
proof (induction ps arbitrary: cd pds)
  case (Cons pd ps)
  obtain cd1 pds1 where c: "sendCancels ops pd cd (on_pd (op_release ops) pd pds) = (cd1, pds1)" by force
  have "agree R cd (on_pd (op_release ops) pd pds)" using agree_neutral [OF Cons.prems(1)] release_law by blast
  from sendCancels_agree [OF this c] Cons.IH [of cd1 pds1] Cons.prems(2) c show ?case by simp
qed simp

lemma releaseAllPDs_agree:
  assumes "agree R cd pds" and "releaseAllPDs ops cd pds = (cd', pds')"
  shows "agree R cd' pds' \<and> pdown cd' = []"
proof -
  obtain cd1 where l: "release_loop ops (pdown cd) cd pds = (cd1, pds')" and c: "cd' = cd1\<lparr>dstatus := [], pdown := []\<rparr>"
    using assms(2) by (auto simp: releaseAllPDs_def split: prod.splits)
  have "requests_wf cd1" "framed R cd1 pds'" using release_loop_agree [OF assms(1) l] by (simp_all add: agree_def)
  moreover have "core cd' = core cd1" by (simp add: c core_def)
  ultimately show ?thesis using framed_core [of cd' cd1] by (simp add: c agree_def requests_wf_def find_ds_def)
qed

lemma endgame_loop_agree:
  assumes "agree R cd pds" and "endgame_loop ops p ps cd pds = (cd', pds')"
    and p: "req_key p = piece_key cd (unat (rq_off p) div MAX_PIECE_LEN)" "unat (rq_off p) div MAX_PIECE_LEN < unat (num cd)"
  shows "agree R cd' pds' \<and> pdown cd' = pdown cd"
  using assms
proof (induction ps arbitrary: cd pds)
  case (Cons pd ps)
  let ?i = "unat (rq_off p) div MAX_PIECE_LEN"
  have wf: "requests_wf cd" using Cons.prems(1) by (simp add: agree_def)
  show ?case
  proof (cases "\<exists>ds. find_ds pd cd = Some ds \<and> ds_contains ?i ds")
    case True
    then obtain ds where ds: "find_ds pd cd = Some ds" "?i \<in> set (status ds)" by (auto simp: ds_contains_def)
    have ag: "good (pds pd)" "of_chunk cd (outstanding (pds pd)) = piece_key cd ` set (status ds)"
      using Cons.prems(1) requests_wf_find [OF wf, of pd] ds(1) by (auto simp: agree_def agrees_def)
    let ?pds = "on_pd (op_cancel ops p) pd pds"
    have img: "piece_key cd ` set (status ds) - {piece_key cd ?i} = piece_key cd ` (set (status ds) - {?i})"
      using piece_key_inj [of _ ?i cd] requests_wf_bound [OF wf ds(1)] Cons.prems(4) by fastforce
    have "agree R (map_ds (ds_remove ?i) pd cd) ?pds"
      by (rule agree_update [OF Cons.prems(1) ds(1), where P = "{?i}"])
        (use cancel_law [OF ag(1), of p] ag(2) Cons.prems(3) img in \<open>auto simp: on_pd_def of_chunk_diff foreign_def piece_key_def\<close>)
    moreover have "req_key p = piece_key (map_ds (ds_remove ?i) pd cd) ?i"
      using Cons.prems(3) by (simp add: piece_key_def piece_len_def)
    ultimately show ?thesis
      using Cons.IH [of "map_ds (ds_remove ?i) pd cd" ?pds] Cons.prems(2,4) ds by (simp add: ds_contains_def Let_def)
  next
    case False
    then have "endgame_loop ops p ps cd pds = (cd', pds')"
      using Cons.prems(2) by (auto simp: Let_def split: option.splits)
    with Cons.IH [of cd pds] Cons.prems show ?thesis by simp
  qed
qed simp

end

section \<open>Nothing to ask for is left unasked\<close>

text \<open>
  A downloader that leaves the list of \<^verbatim>\<open>sendRequests\<close> is choked, has a full queue, or has no piece
  left to ask for, and stays so: requests to other downloaders touch neither its state nor its status.
\<close>

definition saturated :: "'p pd_ops \<Rightarrow> chunk_download \<Rightarrow> 'p pd_store \<Rightarrow> pd_id \<Rightarrow> bool" where
  "saturated ops cd pds pd \<longleftrightarrow> op_isChoked ops (pds pd) \<or> \<not> op_canAddRequest ops (pds pd) \<or> (\<forall>i. \<not> wanted cd pd i)"

lemma sendRequest_other:
  assumes "sendRequest ops pd cd pds = (ok, cd', pds')" and "k \<noteq> pd"
  shows "saturated ops cd' pds' k \<longleftrightarrow> saturated ops cd pds k"
proof (cases ok)
  case False
  then show ?thesis using sendRequest_False assms(1) by metis
next
  case True
  with assms(1) have "sendRequest ops pd cd pds = (True, cd', pds')" by simp
  then obtain ds bp where cd': "cd' = cd\<lparr>dstatus := AList.update pd (ds_add bp ds) (dstatus cd)\<rparr>"
    and o: "pds' k = pds k" by (rule sendRequest_True) (use assms(2) in blast)
  have "wanted cd' k i = wanted cd k i" for i
    using assms(2) by (simp add: cd' wanted_def skips_def)
  with o show ?thesis by (simp add: saturated_def)
qed

lemma sendRequest_failed:
  assumes "sendRequest ops pd cd pds = (False, cd', pds')" and "find_ds pd cd \<noteq> None"
  shows "saturated ops cd pds pd"
  using assms bestPiece_spec [of pd cd]
  by (auto simp: sendRequest_def saturated_def Let_def wanted_def split: if_splits)

lemma sendRequest_keeps_ds:
  assumes "sendRequest ops pd cd pds = (ok, cd', pds')"
  shows "find_ds k cd' = None \<longleftrightarrow> find_ds k cd = None"
proof (cases ok)
  case False
  then show ?thesis using sendRequest_False assms by metis
next
  case True
  with assms have "sendRequest ops pd cd pds = (True, cd', pds')" by simp
  then obtain ds bp where "cd' = cd\<lparr>dstatus := AList.update pd (ds_add bp ds) (dstatus cd)\<rparr>" and "find_ds pd cd = Some ds"
    by (rule sendRequest_True)
  then show ?thesis by simp
qed

lemma request_round_saturates:
  assumes "request_round ops tmp cd pds = (tmp', cd', pds')" and "distinct tmp"
    and "\<forall>pd \<in> set tmp. find_ds pd cd \<noteq> None"
  shows "distinct tmp' \<and> set tmp' \<subseteq> set tmp \<and> (\<forall>k. find_ds k cd' = None \<longleftrightarrow> find_ds k cd = None) \<and>
    (\<forall>pd \<in> set tmp - set tmp'. saturated ops cd' pds' pd) \<and>
    (\<forall>pd. pd \<notin> set tmp \<longrightarrow> saturated ops cd pds pd \<longrightarrow> saturated ops cd' pds' pd)"
  using assms
proof (induction tmp arbitrary: cd pds tmp' cd' pds')
  case (Cons pd tmp)
  obtain ok cd1 pds1 where s: "sendRequest ops pd cd pds = (ok, cd1, pds1)" by (metis prod_cases3)
  show ?case
  proof (cases "\<not> op_isChoked ops (pds pd) \<and> op_canAddRequest ops (pds pd) \<and> ok")
    case True
    obtain t2 where r: "request_round ops tmp cd1 pds1 = (t2, cd', pds')" and t: "tmp' = pd # t2"
      using Cons.prems(1) True s by (auto split: prod.splits)
    have f: "\<forall>k \<in> set tmp. find_ds k cd1 \<noteq> None" using Cons.prems(3) sendRequest_keeps_ds [OF s] by simp
    note ih = Cons.IH [OF r _ f]
    show ?thesis
      using ih Cons.prems(2) t sendRequest_keeps_ds [OF s] sendRequest_other [OF s] by auto
  next
    case False
    have sat: "saturated ops cd pds pd"
      using False sendRequest_failed [of ops pd cd pds cd1 pds1] s Cons.prems(3)
      by (cases ok) (auto simp: saturated_def)
    have r: "request_round ops tmp cd pds = (tmp', cd', pds')" using Cons.prems(1) False s by auto
    from Cons.IH [OF r] Cons.prems(2,3) sat show ?thesis by auto
  qed
qed simp

lemma request_loop_saturates:
  assumes "request_loop ops tmp cd pds = (cd', pds')" and "distinct tmp"
    and "\<forall>pd \<in> set tmp. find_ds pd cd \<noteq> None"
  shows "(\<forall>pd \<in> set tmp. saturated ops cd' pds' pd) \<and> (\<forall>pd. pd \<notin> set tmp \<longrightarrow> saturated ops cd pds pd \<longrightarrow> saturated ops cd' pds' pd)"
  using assms
proof (induction "length tmp + free_pieces cd" arbitrary: tmp cd pds rule: less_induct)
  case less
  show ?case
  proof (cases "tmp = []")
    case True
    with less(2) show ?thesis by (simp add: request_loop.simps [of ops "[]"])
  next
    case False
    obtain t1 cd1 pds1 where r: "request_round ops tmp cd pds = (t1, cd1, pds1)" by (metis prod_cases3)
    have l: "request_loop ops t1 cd1 pds1 = (cd', pds')"
      using less(2) False r by (simp add: request_loop.simps [of ops tmp])
    note rs = request_round_saturates [OF r less(3,4)]
    have "\<forall>pd \<in> set t1. find_ds pd cd1 \<noteq> None" using rs less(4) by auto
    from less(1) [OF request_round_measure(3) [OF r False] l _ this] rs show ?thesis by blast
  qed
qed

section \<open>Downloading from a peer\<close>

definition peer_ops :: "u64 \<Rightarrow> peer_downloader pd_ops" where
  "peer_ops now = \<lparr>op_grab = (\<lambda>p. snd (grab p)), op_release = release_pd, op_download = download now,
     op_cancel = cancel, op_isChoked = isChoked_pd, op_canAddRequest = canAddRequest,
     op_setNearlyDone = setNearlyDone, op_getDownloadRate = getDownloadRate_pd\<rparr>"

definition pd_keys :: "peer_downloader \<Rightarrow> request_key list" where
  "pd_keys pd = map req_key (map tr_req (reqs pd) @ wait_queue pd)"

text \<open>No request is held twice; a downloader whose peer is gone holds none.\<close>

definition pd_good :: "peer_downloader \<Rightarrow> bool" where
  "pd_good pd \<longleftrightarrow> distinct (pd_keys pd)"

definition pd_outstanding :: "peer_downloader \<Rightarrow> request_key set" where
  "pd_outstanding pd = (if pd_peer pd = None then {} else set (pd_keys pd))"

lemma request_eq_key: "request_eq a b \<longleftrightarrow> req_key a = req_key b"
  by (auto simp: request_eq_def req_key_def)

lemma pd_neutral:
  "pd_good (snd (grab p)) = pd_good p" "pd_outstanding (snd (grab p)) = pd_outstanding p"
  "pd_good (release_pd p) = pd_good p" "pd_outstanding (release_pd p) = pd_outstanding p"
  "pd_good (setNearlyDone b p) = pd_good p" "pd_outstanding (setNearlyDone b p) = pd_outstanding p"
  by (simp_all add: grab_def release_pd_def setNearlyDone_def pd_good_def pd_outstanding_def pd_keys_def Let_def)

lemma pd_update_keys:
  assumes "pd_update now pd = Some pd'"
  shows "pd_keys pd' = pd_keys pd" and "pd_peer pd' \<noteq> None" and "pd_peer pd \<noteq> None"
proof -
  obtain v where v: "pd_peer pd = Some v" using assms by (auto simp: pd_update_def split: option.splits)
  obtain wq rs v' where u: "update_loop_pd now (max_reqs v) (wait_queue pd) (reqs pd) v = (wq, rs, v')" by (metis prod_cases3)
  have "reqs pd' = rs" "wait_queue pd' = wq" "pd_peer pd' = Some v'" using assms v u by (auto simp: pd_update_def Let_def)
  then show "pd_keys pd' = pd_keys pd" "pd_peer pd' \<noteq> None" "pd_peer pd \<noteq> None"
    using update_loop_pd_spec(1) [OF u] v by (simp_all add: pd_keys_def flip: map_append)
qed

lemma pd_update_some: "pd_peer pd \<noteq> None \<Longrightarrow> \<exists>pd'. pd_update now pd = Some pd'"
  by (auto simp: pd_update_def Let_def split: prod.splits)

lemma download_pd:
  assumes "pd_peer pd \<noteq> None"
  shows "pd_keys (download now r pd) = pd_keys pd @ [req_key r]" and "pd_peer (download now r pd) \<noteq> None"
proof -
  let ?pd = "pd\<lparr>wait_queue := wait_queue pd @ [r]\<rparr>"
  obtain pd' where u: "pd_update now ?pd = Some pd'" using pd_update_some [of ?pd now] assms by auto
  then have d: "download now r pd = pd'" using assms by (auto simp: download_def)
  show "pd_keys (download now r pd) = pd_keys pd @ [req_key r]" "pd_peer (download now r pd) \<noteq> None"
    using pd_update_keys [OF u] by (simp_all add: d pd_keys_def)
qed

lemma cancel_pd:
  assumes "pd_good pd"
  shows "pd_good (cancel r pd)" and "pd_outstanding (cancel r pd) = pd_outstanding pd - {req_key r}"
proof -
  have w: "length (remove_waiting r wq) < length wq \<longleftrightarrow> req_key r \<in> req_key ` set wq" for wq
    by (induction wq) (auto simp: remove_waiting_def request_eq_key less_Suc_eq_le)
  have s1: "set (map req_key (remove_waiting r wq)) = set (map req_key wq) - {req_key r}" for wq
    by (auto simp: remove_waiting_def request_eq_key)
  have s2: "set (map req_key (map tr_req (remove_reqs r rs))) = set (map req_key (map tr_req rs)) - {req_key r}" for rs
    by (auto simp: remove_reqs_def request_eq_key)
  have d: "distinct (map f xs) \<Longrightarrow> distinct (map f (filter P xs))" for f :: "'x \<Rightarrow> 'y" and xs P
    by (induction xs) auto
  have dd: "distinct (map req_key (map tr_req (reqs pd)))" "distinct (map req_key (wait_queue pd))"
    "set (map req_key (map tr_req (reqs pd))) \<inter> set (map req_key (wait_queue pd)) = {}"
    using assms by (auto simp: pd_good_def pd_keys_def)
  have d1: "distinct (map req_key (remove_waiting r (wait_queue pd)))"
    using d [OF dd(2)] by (simp add: remove_waiting_def)
  have d2: "distinct (map req_key (map tr_req (remove_reqs r (reqs pd))))"
    using d [of "\<lambda>t. req_key (tr_req t)" "reqs pd"] dd(1) by (simp add: remove_reqs_def o_def)
  have "pd_good (cancel r pd) \<and> pd_outstanding (cancel r pd) = pd_outstanding pd - {req_key r}"
  proof (cases "pd_peer pd")
    case None
    then show ?thesis using assms by (simp add: cancel_def pd_outstanding_def)
  next
    case (Some v)
    let ?R = "map req_key (map tr_req (reqs pd))" and ?W = "map req_key (wait_queue pd)"
    show ?thesis
    proof (cases "req_key r \<in> req_key ` set (wait_queue pd)")
      case True
      let ?W' = "map req_key (remove_waiting r (wait_queue pd))"
      have c: "pd_keys (cancel r pd) = ?R @ ?W'" "pd_peer (cancel r pd) = Some v"
        using Some True w [of "wait_queue pd"] by (simp_all add: cancel_def pd_keys_def)
      have "set (?R @ ?W') = set (?R @ ?W) - {req_key r}" and "distinct (?R @ ?W')"
        using s1 [of "wait_queue pd"] dd d1 True by auto
      with Some c show ?thesis unfolding pd_good_def pd_outstanding_def by (simp add: pd_keys_def)
    next
      case False
      let ?R' = "map req_key (map tr_req (remove_reqs r (reqs pd)))"
      have c: "pd_keys (cancel r pd) = ?R' @ ?W" "pd_peer (cancel r pd) = Some (sendCancel_peer r v)"
        using Some False w [of "wait_queue pd"] by (simp_all add: cancel_def pd_keys_def)
      have "set (?R' @ ?W) = set (?R @ ?W) - {req_key r}"
      proof -
        have "req_key r \<notin> set ?W" using False by (simp only: set_map not_False_eq_True)
        then show ?thesis unfolding set_append s2 by blast
      qed
      moreover have "distinct (?R' @ ?W)"
        using s2 [of "reqs pd"] dd d2 unfolding distinct_append by blast
      ultimately show ?thesis using Some c unfolding pd_good_def pd_outstanding_def by (simp add: pd_keys_def)
    qed
  qed
  then show "pd_good (cancel r pd)" and "pd_outstanding (cancel r pd) = pd_outstanding pd - {req_key r}" by blast+
qed

interpretation peer: downloader_contract "peer_ops now" pd_good pd_outstanding for now
proof unfold_locales
  fix p :: peer_downloader and r :: pd_request and b
  assume g: "pd_good p"
  show "pd_good (op_grab (peer_ops now) p) \<and> pd_outstanding (op_grab (peer_ops now) p) = pd_outstanding p"
    "pd_good (op_release (peer_ops now) p) \<and> pd_outstanding (op_release (peer_ops now) p) = pd_outstanding p"
    "pd_good (op_setNearlyDone (peer_ops now) b p) \<and> pd_outstanding (op_setNearlyDone (peer_ops now) b p) = pd_outstanding p"
    using g by (simp_all add: peer_ops_def pd_neutral)
  show "pd_good (op_cancel (peer_ops now) r p) \<and> pd_outstanding (op_cancel (peer_ops now) r p) = pd_outstanding p - {req_key r}"
    using cancel_pd [OF g] by (simp add: peer_ops_def)
  show "pd_good (op_download (peer_ops now) r p) \<and>
      pd_outstanding (op_download (peer_ops now) r p) = insert (req_key r) (pd_outstanding p)"
    if "\<not> op_isChoked (peer_ops now) p" "req_key r \<notin> pd_outstanding p"
  proof -
    have "pd_peer p \<noteq> None" using that(1) by (auto simp: peer_ops_def isChoked_pd_def split: option.splits)
    with download_pd [OF this, of now r] g that(2) show ?thesis
      by (auto simp: peer_ops_def pd_good_def pd_outstanding_def)
  qed
qed

section \<open>Properties\<close>

text \<open>C35. The piece chosen for a downloader is one that is still missing and that this downloader was
  not asked for yet, and among those one that is asked from the fewest other downloaders; no piece
  is chosen only when there is none.\<close>

theorem bestPiece_least:
  "(bestPiece pd cd = unat (num cd) \<longleftrightarrow> (\<forall>i. \<not> wanted cd pd i)) \<and>
   (bestPiece pd cd \<noteq> unat (num cd) \<longrightarrow> wanted cd pd (bestPiece pd cd) \<and>
     (\<forall>i. wanted cd pd i \<longrightarrow> times_downloading cd pd (bestPiece pd cd) \<le> times_downloading cd pd i))"
  by (rule bestPiece_spec)

definition sample_cd :: chunk_download where
  "sample_cd = (ChunkDownload_new 7 40000)\<lparr>pdown := [0, 1],
     dstatus := [(0, \<lparr>timeouts = 0, status = [0, 1]\<rparr>), (1, \<lparr>timeouts = 0, status = [2]\<rparr>)]\<rparr>"

theorem bestPiece_least_witness:
  "bestPiece 1 sample_cd = 0 \<and> times_downloading sample_cd 1 0 \<le> times_downloading sample_cd 1 1"
proof -
  have "bestPiece 1 sample_cd = 0" "num sample_cd = 3" "wanted sample_cd 1 1" by code_simp+
  then show ?thesis using bestPiece_least [of 1 sample_cd] by auto
qed

text \<open>C21. \<^verbatim>\<open>sendRequests\<close> returns, and leaves nothing unasked: afterwards every assigned downloader is
  choked, has a full request queue, or has no missing piece left that it was not asked for.\<close>

theorem sendRequests_exhaustive:
  assumes "requests_wf cd" and "sendRequests ops cd pds = (cd', pds')"
  shows "\<forall>pd \<in> set (pdown cd). op_isChoked ops (pds' pd) \<or> \<not> op_canAddRequest ops (pds' pd) \<or> (\<forall>i. \<not> wanted cd' pd i)"
proof -
  have "distinct (pdown cd)" "\<forall>pd \<in> set (pdown cd). find_ds pd cd \<noteq> None" using assms(1) by (auto simp: requests_wf_def)
  from request_loop_saturates [OF assms(2) [unfolded sendRequests_def] this] show ?thesis by (simp add: saturated_def)
qed

lemma sample_cd_wf: "requests_wf sample_cd"
proof -
  have "distinct (pdown sample_cd)" "distinct (map fst (dstatus sample_cd))" "unat (num sample_cd) = 3" by code_simp+
  moreover have "pdown sample_cd = [0, 1]"
    "dstatus sample_cd = [(0, \<lparr>timeouts = 0, status = [0, 1]\<rparr>), (1, \<lparr>timeouts = 0, status = [2]\<rparr>)]"
    by (simp_all add: sample_cd_def)
  ultimately show ?thesis by (auto simp: requests_wf_def find_ds_def split: if_splits)
qed

definition sample_view :: peer_view where
  "sample_view = \<lparr>pv_choked = False, pv_pieces = bs_new 8, pv_download_rate = 0, pv_fast_extensions = False,
     pv_max_request_queue = 0, pv_out = []\<rparr>"

theorem sendRequests_exhaustive_witness:
  "\<not> wanted (fst (sendRequests (peer_ops 0) sample_cd (\<lambda>_. PeerDownloader_new sample_view 40000))) 0 2"
proof -
  let ?pds = "\<lambda>_. PeerDownloader_new sample_view 40000"
  obtain cd' pds' where s: "sendRequests (peer_ops 0) sample_cd ?pds = (cd', pds')" by force
  have "0 \<in> set (pdown sample_cd)" by (simp add: sample_cd_def)
  with sendRequests_exhaustive [OF sample_cd_wf s]
  have "op_isChoked (peer_ops 0) (pds' 0) \<or> \<not> op_canAddRequest (peer_ops 0) (pds' 0) \<or> (\<forall>i. \<not> wanted cd' 0 i)" by blast
  moreover have "\<not> op_isChoked (peer_ops 0) (snd (sendRequests (peer_ops 0) sample_cd ?pds) 0)"
    "op_canAddRequest (peer_ops 0) (snd (sendRequests (peer_ops 0) sample_cd ?pds) 0)" by code_simp+
  ultimately show ?thesis using s by simp
qed

end
