(* ===== verification/Downloads.thy ===== *)
theory Downloads
  imports ChunkRequests
begin

text \<open>
  The signals of \<^verbatim>\<open>bt::PeerDownloader\<close> (\<^verbatim>\<open>src/src/peer/peerdownloader.cpp\<close>) wired to the chunk
  downloads of a torrent. \<^verbatim>\<open>rejected\<close> and \<^verbatim>\<open>timedout\<close> are emitted synchronously: while a loop
  over the downloader's requests is running, the slots of the connected chunk downloads call back
  into the same downloader and cancel other requests of it. A position behind the end of the list,
  which the C++ iterators would run past, is \<^const>\<open>None\<close> here.
\<close>

section \<open>Signals\<close>

type_synonym pd_objs = "peer_downloader pd_store"

text \<open>A signal reaches the chunk downloads that are connected to the downloader, in order.\<close>

fun emit :: "(chunk_download \<Rightarrow> pd_objs \<Rightarrow> chunk_download \<times> pd_objs) \<Rightarrow> pd_id \<Rightarrow>
    chunk_download list \<Rightarrow> pd_objs \<Rightarrow> chunk_download list \<times> pd_objs" where
  "emit slot pd [] pds = ([], pds)"
| "emit slot pd (cd # cds) pds =
     (let (cd1, pds1) = (if pd \<in> set (pdown cd) then slot cd pds else (cd, pds));
          (cds1, pds2) = emit slot pd cds pds1
      in (cd1 # cds1, pds2))"

definition emit_rejected :: "u64 \<Rightarrow> pd_request \<Rightarrow> pd_id \<Rightarrow> chunk_download list \<Rightarrow> pd_objs \<Rightarrow> chunk_download list \<times> pd_objs" where
  "emit_rejected now r pd cds pds = emit (onRejected_cd (peer_ops now) r) pd cds pds"

definition emit_timedout :: "u64 \<Rightarrow> pd_request \<Rightarrow> pd_id \<Rightarrow> chunk_download list \<Rightarrow> pd_objs \<Rightarrow> chunk_download list \<times> pd_objs" where
  "emit_timedout now r pd cds pds = emit (onTimeout_cd (peer_ops now) r) pd cds pds"

definition onRejected_pd :: "u64 \<Rightarrow> pd_request \<Rightarrow> pd_id \<Rightarrow> chunk_download list \<Rightarrow> pd_objs \<Rightarrow> chunk_download list \<times> pd_objs" where
  "onRejected_pd now req pd cds pds =
     (if pd_peer (pds pd) = None then (cds, pds)
      else let rs = remove_reqs req (reqs (pds pd)) in
        if length rs < length (reqs (pds pd))
        then emit_rejected now req pd cds (on_pd (\<lambda>p. p\<lparr>reqs := rs\<rparr>) pd pds)
        else (cds, pds))"

text \<open>
  The loops of \<^verbatim>\<open>choked\<close> and \<^verbatim>\<open>checkTimeouts\<close>. The first argument bounds the number of rounds; the
  length of the list at the start is enough, as no slot adds a request to this downloader.
\<close>

fun reject_loop :: "nat \<Rightarrow> (peer_downloader \<Rightarrow> pd_request list) \<Rightarrow> u64 \<Rightarrow> nat \<Rightarrow> pd_id \<Rightarrow>
    chunk_download list \<Rightarrow> pd_objs \<Rightarrow> (chunk_download list \<times> pd_objs) option" where
  "reject_loop fuel held now i pd cds pds =
     (if i = length (held (pds pd)) then Some (cds, pds)
      else if length (held (pds pd)) < i then None
      else case fuel of 0 \<Rightarrow> None
        | Suc f \<Rightarrow> (let (cds1, pds1) = emit_rejected now (held (pds pd) ! i) pd cds pds
            in reject_loop f held now (Suc i) pd cds1 pds1))"

declare reject_loop.simps [simp del]

definition sent_requests :: "peer_downloader \<Rightarrow> pd_request list" where
  "sent_requests p = map tr_req (reqs p)"

definition choked :: "u64 \<Rightarrow> pd_id \<Rightarrow> chunk_download list \<Rightarrow> pd_objs \<Rightarrow> (chunk_download list \<times> pd_objs) option" where
  "choked now pd cds pds = (case pd_peer (pds pd) of
     None \<Rightarrow> None
   | Some v \<Rightarrow>
       if pv_fast_extensions v then Some (cds, pds)
       else (case reject_loop (length (reqs (pds pd))) sent_requests now 0 pd cds pds of
         None \<Rightarrow> None
       | Some (cds1, pds1) \<Rightarrow>
           let pds2 = on_pd (\<lambda>p. p\<lparr>reqs := []\<rparr>) pd pds1 in
           (case reject_loop (length (wait_queue (pds2 pd))) wait_queue now 0 pd cds1 pds2 of
              None \<Rightarrow> None
            | Some (cds3, pds3) \<Rightarrow> Some (cds3, on_pd (\<lambda>p. p\<lparr>wait_queue := []\<rparr>) pd pds3))))"

definition MAX_INTERVAL :: u64 where "MAX_INTERVAL = 60 * 1000"

fun expire_loop :: "nat \<Rightarrow> u64 \<Rightarrow> pd_id \<Rightarrow> chunk_download list \<Rightarrow> pd_objs \<Rightarrow> (chunk_download list \<times> pd_objs) option" where
  "expire_loop fuel now pd cds pds = (case reqs (pds pd) of
     [] \<Rightarrow> Some (cds, pds)
   | t # ts \<Rightarrow>
       if now - time_stamp t > MAX_INTERVAL then
         (case fuel of 0 \<Rightarrow> None
          | Suc f \<Rightarrow> (let (cds1, pds1) = emit_timedout now (tr_req t) pd cds (on_pd (\<lambda>p. p\<lparr>reqs := ts\<rparr>) pd pds)
              in expire_loop f now pd cds1 pds1))
       else Some (cds, pds))"

declare expire_loop.simps [simp del]

definition checkTimeouts :: "u64 \<Rightarrow> pd_id \<Rightarrow> chunk_download list \<Rightarrow> pd_objs \<Rightarrow> (chunk_download list \<times> pd_objs) option" where
  "checkTimeouts now pd cds pds = expire_loop (length (reqs (pds pd))) now pd cds pds"

section \<open>Requests to other downloaders\<close>

lemma sendRequest_store:
  assumes "sendRequest ops pd cd pds = (ok, cd', pds')" and "k \<noteq> pd"
  shows "pds' k = pds k"
  using assms by (auto simp: sendRequest_def on_pd_def Let_def split: if_splits)

lemma request_round_store:
  assumes "request_round ops tmp cd pds = (tmp', cd', pds')" and "k \<notin> set tmp"
  shows "pds' k = pds k \<and> set tmp' \<subseteq> set tmp"
  using assms
proof (induction tmp arbitrary: cd pds tmp' cd' pds')
  case (Cons pd tmp)
  obtain ok cd1 pds1 where s: "sendRequest ops pd cd pds = (ok, cd1, pds1)" by (metis prod_cases3)
  obtain t2 cd2 pds2 where r: "request_round ops tmp cd1 pds1 = (t2, cd2, pds2)" by (metis prod_cases3)
  show ?case
  proof (cases "\<not> op_isChoked ops (pds pd) \<and> op_canAddRequest ops (pds pd) \<and> ok")
    case True
    then have "tmp' = pd # t2" "pds' = pds2" using Cons.prems(1) s r by auto
    then show ?thesis using Cons.IH [OF r] Cons.prems(2) sendRequest_store [OF s, of k] by auto
  next
    case False
    then have "request_round ops tmp cd pds = (tmp', cd', pds')" using Cons.prems(1) s by auto
    then show ?thesis using Cons.IH [of cd pds tmp' cd' pds'] Cons.prems(2) by auto
  qed
qed simp

lemma request_loop_store:
  assumes "request_loop ops tmp cd pds = (cd', pds')" and "k \<notin> set tmp"
  shows "pds' k = pds k"
  using assms
proof (induction "length tmp + free_pieces cd" arbitrary: tmp cd pds rule: less_induct)
  case less
  show ?case
  proof (cases "tmp = []")
    case True
    with less(2) show ?thesis by (simp add: request_loop.simps [of ops "[]"])
  next
    case False
    obtain t1 cd1 pds1 where r: "request_round ops tmp cd pds = (t1, cd1, pds1)" by (metis prod_cases3)
    have l: "request_loop ops t1 cd1 pds1 = (cd', pds')"
      using less(2) False r by (simp add: request_loop.simps [of ops tmp])
    have s: "pds1 k = pds k" "k \<notin> set t1" using request_round_store [OF r less(3)] less(3) by auto
    from less(1) [OF request_round_measure(3) [OF r False] l s(2)] s(1) show ?thesis by simp
  qed
qed

lemma chunk_keys_same [simp]:
  "piece_key (map_ds f k cd) = piece_key cd" "piece_key (forget k cd) = piece_key cd"
  "of_chunk (map_ds f k cd) = of_chunk cd" "of_chunk (forget k cd) = of_chunk cd"
  by (auto simp: fun_eq_iff piece_key_def piece_len_def of_chunk_def)

section \<open>Dropping a downloader whose requests are being returned\<close>

context downloader_contract
begin

text \<open>The agreement, except for what downloader \<open>pd\<close> holds.\<close>

definition agree_off :: "chunk_download \<times> 'p pd_store \<Rightarrow> chunk_download \<Rightarrow> 'p pd_store \<Rightarrow> pd_id \<Rightarrow> bool" where
  "agree_off R cd pds pd \<longleftrightarrow> requests_wf cd \<and> framed R cd pds \<and> good (pds pd) \<and>
     (\<forall>k \<in> set (pdown cd). k \<noteq> pd \<longrightarrow> agrees cd pds k)"

lemma drop_downloader_off:
  assumes a: "agree_off R cd pds pd" and ds: "find_ds pd cd = Some ds"
    and d: "drop_downloader ops pd cd pds = (cd', pds')"
  shows "agree R cd' pds' \<and> pdown cd' = removeAll pd (pdown cd) \<and>
    pds' pd = fold (\<lambda>i. on_pd (op_cancel ops (piece_request cd i None)) pd) (status ds) (on_pd (op_release ops) pd pds) pd"
proof -
  let ?g = "\<lambda>i. piece_request cd i None" and ?pds1 = "on_pd (op_release ops) pd pds"
  let ?pds2 = "fold (\<lambda>i. on_pd (op_cancel ops (?g i)) pd) (status ds) ?pds1"
  have wf: "requests_wf cd" and g: "good (pds pd)" using a by (simp_all add: agree_off_def)
  have mem: "pd \<in> set (pdown cd)" using requests_wf_find [OF wf] ds by simp
  have c: "cd' = forget pd (map_ds ds_clear pd cd)" "pds' = ?pds2"
    using d ds mem by (simp_all add: drop_downloader_def sendCancels_def cd_killed_def Let_def)
  have g1: "good (?pds1 pd)" "outstanding (?pds1 pd) = outstanding (pds pd)"
    using release_law [OF g] by (simp_all add: on_pd_def)
  note fc = fold_cancel [of ?pds1 pd ?g "status ds", OF g1(1)]
  have other: "?pds2 k = pds k" if "k \<noteq> pd" for k using fc that by (simp add: on_pd_def)
  have "requests_wf cd'" unfolding c(1)
    by (intro requests_wf_forget requests_wf_map [OF wf]) (use requests_wf_bound [OF wf] in auto)
  moreover have "framed R cd' ?pds2"
  proof (rule framed_core [of _ cd])
    show "core cd' = core cd" by (simp add: c(1))
    show "framed R cd ?pds2"
      by (rule framed_on [where pds = pds and pd = pd])
        (use a fc g1 other in \<open>auto simp: agree_off_def foreign_def piece_key_def\<close>)
  qed
  moreover have "agrees cd' ?pds2 k" if "k \<in> set (pdown cd)" "k \<noteq> pd" for k
    using a that other by (simp add: agree_off_def agrees_def c(1))
  ultimately show ?thesis by (auto simp: agree_def c)
qed

lemma notDownloaded_reject_off:
  assumes a: "agree_off R cd pds pd" and ds: "find_ds pd cd = Some ds" and r: "rq_pd r = Some pd"
    and n: "notDownloaded ops r True cd pds = (cd', pds')"
  shows "agree R cd' pds' \<and> pdown cd' = removeAll pd (pdown cd) \<and>
    pds' pd = fold (\<lambda>i. on_pd (op_cancel ops (piece_request cd i None)) pd)
      (removeAll (unat (rq_off r) div MAX_PIECE_LEN) (status ds)) (on_pd (op_release ops) pd pds) pd"
proof -
  let ?i = "unat (rq_off r) div MAX_PIECE_LEN"
  let ?cd1 = "map_ds (ds_remove ?i) pd cd"
  have wf: "requests_wf cd" using a by (simp add: agree_off_def)
  have wf1: "requests_wf ?cd1" by (rule requests_wf_map [OF wf]) (use requests_wf_bound [OF wf] in auto)
  have a1: "agree_off R ?cd1 pds pd"
    using a wf1 framed_core [OF core_map_ds]
    by (auto simp: agree_off_def agrees_def)
  have ds1: "find_ds pd ?cd1 = Some (ds_remove ?i ds)" using ds by simp
  obtain cd2 pds2 where d: "drop_downloader ops pd ?cd1 pds = (cd2, pds2)" by force
  have s: "sendRequests ops cd2 pds2 = (cd', pds')" using n r ds d by (simp add: notDownloaded_def Let_def)
  note dr = drop_downloader_off [OF a1 ds1 d]
  have "pd \<notin> set (pdown cd2)" using dr by simp
  then have "pds' pd = pds2 pd" using request_loop_store [OF s [unfolded sendRequests_def]] by simp
  moreover have "piece_request ?cd1 = piece_request cd"
    by (auto simp: fun_eq_iff piece_request_def piece_len_def)
  ultimately show ?thesis using dr sendRequests_agree [OF _ s, of R] by (simp add: ds_remove_def)
qed

lemma notDownloaded_timeout_off:
  assumes a: "agree_off R cd pds pd" and ds: "find_ds pd cd = Some ds" and r: "rq_pd r = Some pd" "rq_index r = cd_index cd"
    and n: "notDownloaded ops r False cd pds = (cd', pds')"
  shows "agree R cd' pds' \<and> pdown cd' = removeAll pd (pdown cd) \<and>
    pds' pd = fold (\<lambda>i. on_pd (op_cancel ops (piece_request cd i None)) pd)
      (removeAll (unat (rq_off r) div MAX_PIECE_LEN) (status ds)) (on_pd (op_release ops) pd (on_pd (op_cancel ops r) pd pds)) pd"
proof -
  let ?i = "unat (rq_off r) div MAX_PIECE_LEN"
  let ?cd1 = "map_ds (ds_remove ?i) pd cd" and ?pds1 = "on_pd (op_cancel ops r) pd pds"
  let ?cd2 = "map_ds ds_timeout pd ?cd1"
  have wf: "requests_wf cd" and g: "good (pds pd)" using a by (simp_all add: agree_off_def)
  have mem: "pd \<in> set (pdown cd)" using requests_wf_find [OF wf] ds by simp
  have wf1: "requests_wf ?cd1" by (rule requests_wf_map [OF wf]) (use requests_wf_bound [OF wf] in auto)
  have "framed R cd ?pds1"
    by (rule framed_on [where pds = pds and pd = pd])
      (use a cancel_law [OF g, of r] r(2) in \<open>auto simp: agree_off_def on_pd_def foreign_def req_key_def\<close>)
  then have a1: "agree_off R ?cd1 ?pds1 pd"
    using a wf1 framed_core [OF core_map_ds] cancel_law [OF g, of r]
    by (auto simp: agree_off_def agrees_def on_pd_def)
  have ds1: "find_ds pd ?cd1 = Some (ds_remove ?i ds)" using ds by simp
  obtain cd3 pds3 where d: "drop_downloader ops pd ?cd1 ?pds1 = (cd3, pds3)" by force
  have "timeouts (the (find_ds pd ?cd2)) > 0 \<and> length (pdown ?cd2) > 0"
    using ds mem wf by (auto simp: requests_wf_def)
  then have s: "sendRequests ops cd3 pds3 = (cd', pds')"
    using n r ds d drop_after_timeout [of pd ?cd1 ops ?pds1] mem by (simp add: notDownloaded_def Let_def)
  note dr = drop_downloader_off [OF a1 ds1 d]
  have "pd \<notin> set (pdown cd3)" using dr by simp
  then have "pds' pd = pds3 pd" using request_loop_store [OF s [unfolded sendRequests_def]] by simp
  moreover have "piece_request ?cd1 = piece_request cd"
    by (auto simp: fun_eq_iff piece_request_def piece_len_def)
  ultimately show ?thesis using dr sendRequests_agree [OF _ s, of R] by (simp add: ds_remove_def)
qed

definition plain :: "chunk_download \<Rightarrow> 'p pd_store \<Rightarrow> bool" where
  "plain cd pds \<longleftrightarrow> requests_wf cd \<and> (\<forall>pd \<in> set (pdown cd). agrees cd pds pd)"

lemma agree_plain: "agree (cd, pds) cd pds \<longleftrightarrow> plain cd pds"
  by (simp add: agree_def plain_def framed_def)

text \<open>What happens to one chunk leaves the agreement of another alone.\<close>

lemma plain_frame:
  assumes "plain cd2 pds" and "framed (cd, pds) cd1 pds1" and "cd_index cd2 \<noteq> cd_index cd"
  shows "plain cd2 pds1"
proof -
  have ix: "cd_index cd1 = cd_index cd" using assms(2) core_index [of cd1 cd] by (simp add: framed_def)
  have "of_chunk cd2 (outstanding (pds1 k)) = of_chunk cd2 (outstanding (pds k))" "good (pds1 k)" if "good (pds k)" for k
    using assms(2,3) that ix by (auto simp: framed_def foreign_def of_chunk_def set_eq_iff)
  with assms(1) show ?thesis by (simp add: plain_def agrees_def)
qed

end

section \<open>Cancelling at a peer\<close>

lemma fold_on_pd: "fold (\<lambda>i. on_pd (f i) pd) is pds pd = fold f is (pds pd)"
  by (induction "is" arbitrary: pds) (simp_all add: on_pd_def)

lemma cancel_lists:
  assumes "pd_good p" and "pd_peer p \<noteq> None"
  shows "pd_peer (cancel r p) \<noteq> None"
    and "reqs (cancel r p) = filter (\<lambda>t. req_key (tr_req t) \<noteq> req_key r) (reqs p)"
    and "wait_queue (cancel r p) = filter (\<lambda>q. req_key q \<noteq> req_key r) (wait_queue p)"
proof -
  obtain v where v: "pd_peer p = Some v" using assms(2) by blast
  have w: "remove_waiting r (wait_queue p) = filter (\<lambda>q. req_key q \<noteq> req_key r) (wait_queue p)"
    and q: "remove_reqs r (reqs p) = filter (\<lambda>t. req_key (tr_req t) \<noteq> req_key r) (reqs p)"
    by (simp_all add: remove_waiting_def remove_reqs_def request_eq_key eq_commute)
  have len: "length (filter P xs) < length xs \<longleftrightarrow> (\<exists>x \<in> set xs. \<not> P x)" for P and xs :: "pd_request list"
    by (metis filter_id_conv length_filter_less less_irrefl)
  show "pd_peer (cancel r p) \<noteq> None" using v by (simp add: cancel_def)
  show "wait_queue (cancel r p) = filter (\<lambda>q. req_key q \<noteq> req_key r) (wait_queue p)"
    using v len [of "\<lambda>q. req_key q \<noteq> req_key r" "wait_queue p"] by (auto simp: cancel_def w filter_id_conv)
  show "reqs (cancel r p) = filter (\<lambda>t. req_key (tr_req t) \<noteq> req_key r) (reqs p)"
  proof (cases "\<exists>q \<in> set (wait_queue p). req_key q = req_key r")
    case True
    then have "req_key r \<in> set (map req_key (wait_queue p))" by (metis image_eqI set_map)
    then have "req_key r \<notin> set (map req_key (map tr_req (reqs p)))"
      using assms(1) unfolding pd_good_def pd_keys_def map_append distinct_append by blast
    then have "\<forall>t \<in> set (reqs p). req_key (tr_req t) \<noteq> req_key r" by (metis image_eqI set_map)
    then show ?thesis using v True len [of "\<lambda>q. req_key q \<noteq> req_key r" "wait_queue p"]
      by (simp add: cancel_def w filter_id_conv)
  next
    case False
    then show ?thesis using v len [of "\<lambda>q. req_key q \<noteq> req_key r" "wait_queue p"] by (simp add: cancel_def w q)
  qed
qed

lemma fold_cancel_lists:
  assumes "pd_good p" and "pd_peer p \<noteq> None"
  shows "pd_peer (fold (\<lambda>i. cancel (g i)) is p) \<noteq> None \<and>
    reqs (fold (\<lambda>i. cancel (g i)) is p) = filter (\<lambda>t. req_key (tr_req t) \<notin> (\<lambda>i. req_key (g i)) ` set is) (reqs p) \<and>
    wait_queue (fold (\<lambda>i. cancel (g i)) is p) = filter (\<lambda>q. req_key q \<notin> (\<lambda>i. req_key (g i)) ` set is) (wait_queue p)"
  using assms
proof (induction "is" arbitrary: p)
  case (Cons i "is")
  have g: "pd_good (cancel (g i) p)" by (rule cancel_pd(1) [OF Cons.prems(1)])
  note c = cancel_lists [OF Cons.prems, of "g i"]
  show ?case using Cons.IH [OF g c(1)] by (simp add: c(2,3) filter_filter conj_commute cong: filter_cong)
qed simp

section \<open>Returning a request\<close>

text \<open>The state in which the loops run: the chunk downloads agree with the downloaders.\<close>

definition downloads_ok :: "chunk_download list \<Rightarrow> pd_objs \<Rightarrow> pd_id \<Rightarrow> bool" where
  "downloads_ok cds pds pd \<longleftrightarrow> distinct (map cd_index cds) \<and> (\<forall>cd \<in> set cds. peer.plain cd pds) \<and>
     pd_good (pds pd) \<and> pd_peer (pds pd) \<noteq> None \<and>
     (\<forall>q \<in> set (sent_requests (pds pd) @ wait_queue (pds pd)). rq_pd q = Some pd)"

lemma emit_none:
  "(\<forall>cd \<in> set cds. cd_index cd = rq_index r \<longrightarrow> pd \<notin> set (pdown cd)) \<Longrightarrow>
   emit (onRejected_cd ops r) pd cds pds = (cds, pds)"
  by (induction cds) (auto simp: onRejected_cd_def)

lemma emit_one:
  assumes "distinct (map cd_index (xs @ cd # ys))" and "cd_index cd = rq_index r" and "pd \<in> set (pdown cd)"
    and "notDownloaded ops r True cd pds = (cd', pds')"
  shows "emit (onRejected_cd ops r) pd (xs @ cd # ys) pds = (xs @ cd' # ys, pds')"
  using assms
proof (induction xs)
  case Nil
  have "emit (onRejected_cd ops r) pd ys pds' = (ys, pds')" by (rule emit_none) (use Nil in force)
  moreover have "onRejected_cd ops r cd pds = (cd', pds')" using Nil by (simp add: onRejected_cd_def)
  ultimately show ?case using Nil(3) by simp
next
  case (Cons x xs)
  then have "cd_index x \<noteq> rq_index r" by auto
  then have "onRejected_cd ops r x pds = (x, pds)" by (simp add: onRejected_cd_def)
  with Cons show ?case by simp
qed

text \<open>
  One rejection: the chunk download of that chunk drops the downloader and cancels its other pieces
  there, so requests of no other chunk and not the request itself leave the downloader's lists.
\<close>

lemma rejection_step:
  assumes ok: "downloads_ok cds pds pd" and mem: "r \<in> set (sent_requests (pds pd) @ wait_queue (pds pd))"
    and e: "emit_rejected now r pd cds pds = (cds', pds')"
  obtains K where "downloads_ok cds' pds' pd" "map cd_index cds' = map cd_index cds"
    "sent_requests (pds' pd) = filter (\<lambda>q. req_key q \<notin> K) (sent_requests (pds pd))"
    "wait_queue (pds' pd) = filter (\<lambda>q. req_key q \<notin> K) (wait_queue (pds pd))"
    "req_key r \<notin> K" "\<forall>k \<in> K. fst k = rq_index r"
    "\<forall>cd \<in> set cds'. cd_index cd = rq_index r \<longrightarrow> pd \<notin> set (pdown cd)"
    "\<forall>cd \<in> set cds'. pd \<in> set (pdown cd) \<longrightarrow> cd \<in> set cds"
    "(\<exists>cd \<in> set cds. cd_index cd = rq_index r \<and> pd \<in> set (pdown cd)) \<or> K = {}"
proof (cases "\<exists>cd \<in> set cds. cd_index cd = rq_index r \<and> pd \<in> set (pdown cd)")
  case False
  then have "cds' = cds" "pds' = pds" using e emit_none [of cds r pd "peer_ops now" pds] by (auto simp: emit_rejected_def)
  with ok False show thesis by (intro that [of "{}"]) auto
next
  case True
  then obtain cd where cd: "cd \<in> set cds" "cd_index cd = rq_index r" "pd \<in> set (pdown cd)" by blast
  then obtain xs ys where cds: "cds = xs @ cd # ys" by (meson split_list)
  obtain cd1 pds1 where n: "notDownloaded (peer_ops now) r True cd pds = (cd1, pds1)" by force
  have dist: "distinct (map cd_index (xs @ cd # ys))" using ok cds by (simp add: downloads_ok_def)
  have res: "cds' = xs @ cd1 # ys" "pds' = pds1"
    using emit_one [OF dist cd(2,3) n] e cds by (simp_all add: emit_rejected_def)
  have pl: "peer.plain cd pds" using ok cd(1) by (simp add: downloads_ok_def)
  then have wf: "requests_wf cd" by (simp add: peer.plain_def)
  obtain ds where ds: "find_ds pd cd = Some ds" using cd(3) requests_wf_find [OF wf] by blast
  have good: "pd_good (pds pd)" and alive: "pd_peer (pds pd) \<noteq> None" and rpd: "rq_pd r = Some pd"
    using ok mem by (auto simp: downloads_ok_def)
  have off: "peer.agree_off (cd, pds) cd pds pd"
    using pl good by (auto simp: peer.agree_off_def peer.plain_def peer.framed_def)
  let ?i = "unat (rq_off r) div MAX_PIECE_LEN"
  let ?is = "removeAll ?i (status ds)"
  let ?K = "piece_key cd ` set ?is"
  note nd = peer.notDownloaded_reject_off [OF off ds rpd n]
  let ?p = "release_pd (pds pd)"
  have pg: "pd_good ?p" "pd_peer ?p \<noteq> None" using good alive by (simp_all add: pd_neutral) (simp add: release_pd_def Let_def)
  have pd1: "pds1 pd = fold (\<lambda>i. cancel (piece_request cd i None)) ?is ?p"
    using nd by (simp add: fold_on_pd peer_ops_def on_pd_def)
  have lists: "reqs ?p = reqs (pds pd)" "wait_queue ?p = wait_queue (pds pd)" by (simp_all add: release_pd_def Let_def)
  note fc = fold_cancel_lists [OF pg, of "\<lambda>i. piece_request cd i None" ?is, folded pd1, unfolded lists]
  have sent: "sent_requests (pds1 pd) = filter (\<lambda>q. req_key q \<notin> ?K) (sent_requests (pds pd))"
    and wait: "wait_queue (pds1 pd) = filter (\<lambda>q. req_key q \<notin> ?K) (wait_queue (pds pd))"
    and alive1: "pd_peer (pds1 pd) \<noteq> None"
    using fc by (simp_all add: sent_requests_def filter_map o_def)
  have "req_key r \<in> pd_outstanding (pds pd)" using mem alive by (auto simp: pd_outstanding_def pd_keys_def sent_requests_def)
  then have "req_key r \<in> of_chunk cd (pd_outstanding (pds pd))" using cd(2) by (simp add: of_chunk_def req_key_def)
  then have "req_key r \<in> piece_key cd ` set (status ds)" using pl cd(3) ds by (auto simp: peer.plain_def peer.agrees_def)
  then obtain q where q: "q \<in> set (status ds)" "req_key r = piece_key cd q" by blast
  have bnd: "j < 262144" if "j \<in> set (status ds)" for j using requests_wf_bound [OF wf ds that] by linarith
  have "unat (rq_off r) = q * MAX_PIECE_LEN"
  proof -
    have "rq_off r = of_nat (q * MAX_PIECE_LEN)" using q(2) by (simp add: req_key_def piece_key_def)
    moreover have "q * MAX_PIECE_LEN < 2 ^ 32" using bnd [OF q(1)] by (simp add: MAX_PIECE_LEN_def)
    ultimately show ?thesis by (simp only: unat_of_nat) simp
  qed
  then have qi: "?i = q" by (simp add: MAX_PIECE_LEN_def)
  have notK: "req_key r \<notin> ?K"
  proof
    assume "req_key r \<in> ?K"
    then obtain j where "j \<in> set (status ds)" "j \<noteq> q" "piece_key cd q = piece_key cd j" using q(2) qi by auto
    with piece_key_inj bnd q(1) show False by metis
  qed
  have gone: "pd \<notin> set (pdown cd1)" using nd by simp
  have core: "core cd1 = core cd" and fr: "peer.framed (cd, pds) cd1 pds1" and ag1: "peer.plain cd1 pds1"
    using nd by (auto simp: peer.agree_def peer.framed_def peer.plain_def)
  have ix1: "cd_index cd1 = cd_index cd" by (rule core_index [OF core])
  have others: "peer.plain c pds1" if "c \<in> set xs \<union> set ys" for c
  proof (rule peer.plain_frame [OF _ fr])
    show "peer.plain c pds" using ok cds that by (auto simp: downloads_ok_def)
    have "cd_index c \<in> cd_index ` (set xs \<union> set ys)" using that by blast
    then show "cd_index c \<noteq> cd_index cd" using dist by auto
  qed
  have "pd_good (pds1 pd)" using fr good by (simp add: peer.framed_def)
  then have ok1: "downloads_ok cds' pds' pd"
    using ok ag1 others alive1 dist unfolding downloads_ok_def res sent wait cds by (auto simp: ix1)
  show thesis
  proof (rule that [OF ok1])
    show "map cd_index cds' = map cd_index cds" by (simp add: res cds ix1)
    show "sent_requests (pds' pd) = filter (\<lambda>q. req_key q \<notin> ?K) (sent_requests (pds pd))"
      "wait_queue (pds' pd) = filter (\<lambda>q. req_key q \<notin> ?K) (wait_queue (pds pd))" using sent wait res by simp_all
    show "req_key r \<notin> ?K" by (rule notK)
    show "\<forall>k \<in> ?K. fst k = rq_index r" using cd(2) by (simp add: piece_key_def)
    show "\<forall>c \<in> set cds'. cd_index c = rq_index r \<longrightarrow> pd \<notin> set (pdown c)"
      using dist cd(2) gone by (auto simp: res image_iff)
    show "\<forall>c \<in> set cds'. pd \<in> set (pdown c) \<longrightarrow> c \<in> set cds" using gone by (auto simp: res cds)
    show "(\<exists>c \<in> set cds. cd_index c = rq_index r \<and> pd \<in> set (pdown c)) \<or> ?K = {}" using cd by blast
  qed
qed

text \<open>
  The loop over one of the two lists. The chunks of the requests it has passed no longer use the
  downloader, so nothing before its position is ever taken out of the list: the position never
  overtakes the end.
\<close>

definition passed :: "pd_request list \<Rightarrow> pd_id \<Rightarrow> chunk_download list \<Rightarrow> bool" where
  "passed qs pd cds \<longleftrightarrow> (\<forall>q \<in> set qs. \<forall>cd \<in> set cds. cd_index cd = rq_index q \<longrightarrow> pd \<notin> set (pdown cd))"

lemma take_filter:
  assumes "i \<le> length xs" and "\<forall>x \<in> set (take i xs). P x"
  shows "take i (filter P xs) = take i xs" and "i \<le> length (filter P xs)"
proof -
  have "filter P xs = take i xs @ filter P (drop i xs)"
    using assms(2) by (metis append_take_drop_id filter_True filter_append)
  with assms(1) show "take i (filter P xs) = take i xs" and "i \<le> length (filter P xs)" by simp_all
qed

lemma reject_loop_runs:
  assumes "downloads_ok cds pds pd" and "held = sent_requests \<or> held = wait_queue"
    and "i \<le> length (held (pds pd))" and "length (held (pds pd)) \<le> i + fuel"
    and "passed (take i (held (pds pd))) pd cds"
  shows "\<exists>cds' pds'. reject_loop fuel held now i pd cds pds = Some (cds', pds') \<and> downloads_ok cds' pds' pd \<and>
    map cd_index cds' = map cd_index cds \<and> passed (held (pds' pd)) pd cds' \<and>
    (\<forall>cd \<in> set cds'. pd \<in> set (pdown cd) \<longrightarrow> cd \<in> set cds) \<and> (reqs (pds pd) = [] \<longrightarrow> reqs (pds' pd) = [])"
  using assms
proof (induction fuel arbitrary: i cds pds)
  case 0
  then have "i = length (held (pds pd))" by simp
  with 0 show ?case by (simp add: reject_loop.simps)
next
  case (Suc fuel)
  show ?case
  proof (cases "i = length (held (pds pd))")
    case True
    with Suc.prems show ?thesis by (simp add: reject_loop.simps)
  next
    case False
    then have lt: "i < length (held (pds pd))" using Suc.prems(3) by simp
    let ?r = "held (pds pd) ! i"
    have mem: "?r \<in> set (sent_requests (pds pd) @ wait_queue (pds pd))" using lt Suc.prems(2) by auto
    obtain cds1 pds1 where e: "emit_rejected now ?r pd cds pds = (cds1, pds1)" by force
    from rejection_step [OF Suc.prems(1) mem e] obtain K where
      ok: "downloads_ok cds1 pds1 pd" and ix: "map cd_index cds1 = map cd_index cds" and
      sent: "sent_requests (pds1 pd) = filter (\<lambda>q. req_key q \<notin> K) (sent_requests (pds pd))" and
      wait: "wait_queue (pds1 pd) = filter (\<lambda>q. req_key q \<notin> K) (wait_queue (pds pd))" and
      K: "req_key ?r \<notin> K" "\<forall>k \<in> K. fst k = rq_index ?r" and
      gone: "\<forall>cd \<in> set cds1. cd_index cd = rq_index ?r \<longrightarrow> pd \<notin> set (pdown cd)" and
      old: "\<forall>cd \<in> set cds1. pd \<in> set (pdown cd) \<longrightarrow> cd \<in> set cds" and
      used: "(\<exists>cd \<in> set cds. cd_index cd = rq_index ?r \<and> pd \<in> set (pdown cd)) \<or> K = {}" .
    have h: "held (pds1 pd) = filter (\<lambda>q. req_key q \<notin> K) (held (pds pd))" using sent wait Suc.prems(2) by auto
    have keep: "\<forall>q \<in> set (take (Suc i) (held (pds pd))). req_key q \<notin> K"
    proof
      fix q assume "q \<in> set (take (Suc i) (held (pds pd)))"
      then consider "q = ?r" | "q \<in> set (take i (held (pds pd)))" using lt by (auto simp: take_Suc_conv_app_nth)
      then show "req_key q \<notin> K"
      proof cases
        case 2
        show ?thesis
        proof
          assume "req_key q \<in> K"
          then have "rq_index q = rq_index ?r" using K(2) by (auto simp: req_key_def)
          moreover obtain cd where "cd \<in> set cds" "cd_index cd = rq_index ?r" "pd \<in> set (pdown cd)"
            using used \<open>req_key q \<in> K\<close> by auto
          ultimately show False using Suc.prems(5) 2 by (auto simp: passed_def)
        qed
      qed (use K in simp)
    qed
    have t: "take (Suc i) (held (pds1 pd)) = take (Suc i) (held (pds pd))" "Suc i \<le> length (held (pds1 pd))"
      using take_filter [of "Suc i" "held (pds pd)"] lt keep by (simp_all add: h)
    have p: "passed (take (Suc i) (held (pds1 pd))) pd cds1"
      unfolding t using Suc.prems(5) gone old lt by (auto simp: passed_def take_Suc_conv_app_nth)
    have len: "length (held (pds1 pd)) \<le> Suc i + fuel"
      unfolding h using Suc.prems(4) length_filter_le [of "\<lambda>q. req_key q \<notin> K" "held (pds pd)"] by linarith
    have step: "reject_loop (Suc fuel) held now i pd cds pds = reject_loop fuel held now (Suc i) pd cds1 pds1"
      using lt by (simp add: reject_loop.simps [of "Suc fuel"] e)
    have "reqs (pds pd) = [] \<longrightarrow> reqs (pds1 pd) = []" using sent by (auto simp: sent_requests_def)
    with Suc.IH [OF ok Suc.prems(2) t(2) len p] show ?thesis unfolding step ix [symmetric] using old by metis
  qed
qed

text \<open>Emptying a list whose requests belong to chunks that no longer use the downloader.\<close>

lemma clear_ok:
  assumes "downloads_ok cds pds pd" and "pd_peer p' = pd_peer (pds pd)"
    and "passed (filter (\<lambda>q. req_key q \<notin> set (pd_keys p')) (sent_requests (pds pd) @ wait_queue (pds pd))) pd cds"
    and "set (sent_requests p' @ wait_queue p') \<subseteq> set (sent_requests (pds pd) @ wait_queue (pds pd))" and "pd_good p'"
  shows "downloads_ok cds (pds(pd := p')) pd"
proof -
  have keys: "pd_keys p = map req_key (sent_requests p @ wait_queue p)" for p
    by (simp add: pd_keys_def sent_requests_def)
  have "peer.plain cd (pds(pd := p'))" if cd: "cd \<in> set cds" for cd
  proof -
    have pl: "peer.plain cd pds" using assms(1) cd by (simp add: downloads_ok_def)
    have alive: "pd_peer (pds pd) \<noteq> None" "pd_peer p' \<noteq> None" using assms(1,2) by (simp_all add: downloads_ok_def)
    have out: "pd_outstanding (pds pd) = set (pd_keys (pds pd))" "pd_outstanding p' = set (pd_keys p')"
      using alive by (auto simp: pd_outstanding_def)
    have "of_chunk cd (pd_outstanding p') = of_chunk cd (pd_outstanding (pds pd))" if "pd \<in> set (pdown cd)"
    proof -
      have "set (pd_keys p') \<subseteq> set (pd_keys (pds pd))" unfolding keys set_map using assms(4) by blast
      moreover have "k \<in> set (pd_keys p')" if k1: "k \<in> set (pd_keys (pds pd))" and k2: "fst k = cd_index cd" for k
      proof (rule ccontr)
        assume no: "k \<notin> set (pd_keys p')"
        obtain q where q: "q \<in> set (sent_requests (pds pd) @ wait_queue (pds pd))" "k = req_key q"
          using k1 unfolding keys set_map by blast
        then have "q \<in> set (filter (\<lambda>q. req_key q \<notin> set (pd_keys p')) (sent_requests (pds pd) @ wait_queue (pds pd)))"
          using no by simp
        then have "cd_index cd \<noteq> rq_index q" using assms(3) cd \<open>pd \<in> set (pdown cd)\<close> by (auto simp: passed_def)
        then show False using k2 q(2) by (simp add: req_key_def)
      qed
      ultimately show ?thesis unfolding out of_chunk_def by blast
    qed
    then show ?thesis using pl assms(5) by (auto simp: peer.plain_def peer.agrees_def)
  qed
  then show ?thesis using assms by (auto simp: downloads_ok_def)
qed

lemma downloads_ok_empty:
  assumes "downloads_ok cds pds pd" and "reqs (pds pd) = []" "wait_queue (pds pd) = []"
  shows "\<forall>cd \<in> set cds. \<forall>ds. find_ds pd cd = Some ds \<longrightarrow> status ds = []"
proof (intro ballI allI impI)
  fix cd ds assume cd: "cd \<in> set cds" and ds: "find_ds pd cd = Some ds"
  have pl: "peer.plain cd pds" using assms(1) cd by (simp add: downloads_ok_def)
  then have "pd \<in> set (pdown cd)" using requests_wf_find [of cd pd] ds by (simp add: peer.plain_def)
  then have "of_chunk cd (pd_outstanding (pds pd)) = piece_key cd ` set (status ds)"
    using pl ds by (simp add: peer.plain_def peer.agrees_def)
  moreover have "pd_outstanding (pds pd) = {}" using assms(2,3) by (simp add: pd_outstanding_def pd_keys_def)
  ultimately show "status ds = []" by (simp add: of_chunk_def)
qed

section \<open>Requests that time out\<close>

lemma emit_timeout_none:
  "(\<forall>cd \<in> set cds. cd_index cd = rq_index r \<longrightarrow> pd \<notin> set (pdown cd)) \<Longrightarrow>
   emit (onTimeout_cd ops r) pd cds pds = (cds, pds)"
  by (induction cds) (auto simp: onTimeout_cd_def)

lemma emit_timeout_one:
  assumes "distinct (map cd_index (xs @ cd # ys))" and "cd_index cd = rq_index r" and "pd \<in> set (pdown cd)"
    and "notDownloaded ops r False cd pds = (cd', pds')"
  shows "emit (onTimeout_cd ops r) pd (xs @ cd # ys) pds = (xs @ cd' # ys, pds')"
  using assms
proof (induction xs)
  case Nil
  have "emit (onTimeout_cd ops r) pd ys pds' = (ys, pds')" by (rule emit_timeout_none) (use Nil in force)
  moreover have "onTimeout_cd ops r cd pds = (cd', pds')" using Nil by (simp add: onTimeout_cd_def)
  ultimately show ?case using Nil(3) by simp
next
  case (Cons x xs)
  then have "cd_index x \<noteq> rq_index r" by auto
  then have "onTimeout_cd ops r x pds = (x, pds)" by (simp add: onTimeout_cd_def)
  with Cons show ?case by simp
qed

text \<open>One expired request: the lists of the downloader only shrink, and the agreement is restored.\<close>

lemma timeout_step:
  assumes ok: "downloads_ok cds pds pd" and reqs: "reqs (pds pd) = t # ts"
    and e: "emit_timedout now (tr_req t) pd cds (on_pd (\<lambda>p. p\<lparr>reqs := ts\<rparr>) pd pds) = (cds', pds')"
  shows "downloads_ok cds' pds' pd \<and> (\<exists>P. reqs (pds' pd) = filter P ts)"
proof -
  let ?r = "tr_req t" and ?p0 = "(pds pd)\<lparr>reqs := ts\<rparr>"
  let ?pds0 = "on_pd (\<lambda>p. p\<lparr>reqs := ts\<rparr>) pd pds"
  have pds0: "?pds0 = pds(pd := ?p0)" by (simp add: on_pd_def)
  have dist: "distinct (map cd_index cds)" and good: "pd_good (pds pd)" and alive: "pd_peer (pds pd) \<noteq> None"
    and rpd: "rq_pd ?r = Some pd" using ok reqs by (auto simp: downloads_ok_def sent_requests_def)
  have keys: "pd_keys (pds pd) = req_key ?r # pd_keys ?p0" by (simp add: pd_keys_def reqs)
  have good0: "pd_good ?p0" using good keys by (simp add: pd_good_def)
  have out0: "pd_outstanding (pds pd) = insert (req_key ?r) (pd_outstanding ?p0)"
    using alive keys by (auto simp: pd_outstanding_def)
  have other: "peer.plain cd ?pds0" if "cd \<in> set cds" "cd_index cd \<noteq> rq_index ?r \<or> pd \<notin> set (pdown cd)" for cd
  proof -
    have pl: "peer.plain cd pds" using ok that(1) by (simp add: downloads_ok_def)
    have "of_chunk cd (pd_outstanding ?p0) = of_chunk cd (pd_outstanding (pds pd))" if "cd_index cd \<noteq> rq_index ?r"
      using out0 that by (auto simp: of_chunk_def req_key_def)
    then have "peer.agrees cd ?pds0 k" if "k \<in> set (pdown cd)" for k
      using pl that \<open>cd_index cd \<noteq> rq_index ?r \<or> pd \<notin> set (pdown cd)\<close> good0
      by (cases "k = pd") (auto simp: peer.plain_def peer.agrees_def on_pd_def)
    then show ?thesis using pl by (simp add: peer.plain_def)
  qed
  show ?thesis
  proof (cases "\<exists>cd \<in> set cds. cd_index cd = rq_index ?r \<and> pd \<in> set (pdown cd)")
    case False
    then have "cds' = cds" "pds' = ?pds0"
      using e emit_timeout_none [of cds ?r pd "peer_ops now" ?pds0] by (auto simp: emit_timedout_def)
    moreover have "\<forall>cd \<in> set cds. peer.plain cd ?pds0" using other False by blast
    ultimately show ?thesis using ok good0 reqs
      by (auto simp: downloads_ok_def on_pd_def sent_requests_def intro!: exI [of _ "\<lambda>_. True"])
  next
    case True
    then obtain cd where cd: "cd \<in> set cds" "cd_index cd = rq_index ?r" "pd \<in> set (pdown cd)" by blast
    then obtain xs ys where cds: "cds = xs @ cd # ys" by (meson split_list)
    obtain cd1 pds1 where n: "notDownloaded (peer_ops now) ?r False cd ?pds0 = (cd1, pds1)" by force
    have res: "cds' = xs @ cd1 # ys" "pds' = pds1"
      using emit_timeout_one [OF _ cd(2,3) n, of xs ys] dist e cds by (simp_all add: emit_timedout_def)
    have pl: "peer.plain cd pds" using ok cd(1) by (simp add: downloads_ok_def)
    then obtain ds where ds: "find_ds pd cd = Some ds" using cd(3) requests_wf_find [of cd pd] by (auto simp: peer.plain_def)
    have off: "peer.agree_off (cd, ?pds0) cd ?pds0 pd"
      using pl good0 by (auto simp: peer.agree_off_def peer.plain_def peer.framed_def peer.agrees_def on_pd_def)
    note nd = peer.notDownloaded_timeout_off [OF off ds rpd cd(2) [symmetric] n]
    let ?p1 = "release_pd (cancel ?r ?p0)"
    have c: "pd_good (cancel ?r ?p0)" "pd_peer (cancel ?r ?p0) \<noteq> None"
      using cancel_pd(1) [OF good0] cancel_lists(1) [OF good0, of ?r] alive by simp_all
    have p1: "pd_good ?p1" "pd_peer ?p1 \<noteq> None" "reqs ?p1 = reqs (cancel ?r ?p0)" "wait_queue ?p1 = wait_queue (cancel ?r ?p0)"
      using c by (simp_all add: pd_neutral) (simp_all add: release_pd_def Let_def)
    let ?is = "removeAll (unat (rq_off ?r) div MAX_PIECE_LEN) (status ds)"
    have pd1: "pds1 pd = fold (\<lambda>i. cancel (piece_request cd i None)) ?is ?p1"
      using nd by (simp add: fold_on_pd peer_ops_def on_pd_def)
    note fc = fold_cancel_lists [OF p1(1,2), of "\<lambda>i. piece_request cd i None" ?is, folded pd1, unfolded p1(3,4)]
    have lists: "\<exists>P. reqs (pds1 pd) = filter P ts" "\<exists>P. wait_queue (pds1 pd) = filter P (wait_queue (pds pd))"
      "pd_peer (pds1 pd) \<noteq> None"
      using fc cancel_lists [OF good0, of ?r] alive by auto
    have fr: "peer.framed (cd, ?pds0) cd1 pds1" and ag1: "peer.plain cd1 pds1"
      using nd by (auto simp: peer.agree_def peer.plain_def)
    have ix1: "cd_index cd1 = cd_index cd" using fr core_index [of cd1 cd] by (simp add: peer.framed_def)
    have others: "peer.plain c pds1" if "c \<in> set xs \<union> set ys" for c
    proof (rule peer.plain_frame [OF _ fr])
      have "cd_index c \<in> cd_index ` (set xs \<union> set ys)" using that by blast
      then show ne: "cd_index c \<noteq> cd_index cd" using dist cds by auto
      show "peer.plain c ?pds0" using other [of c] ne cd(2) cds that by auto
    qed
    have "pd_good (pds1 pd)" using fr good0 by (simp add: peer.framed_def on_pd_def)
    moreover have "\<forall>q \<in> set (sent_requests (pds1 pd) @ wait_queue (pds1 pd)). rq_pd q = Some pd"
    proof -
      have "set (sent_requests (pds1 pd)) \<subseteq> set (sent_requests (pds pd))"
        using lists(1) reqs by (auto simp: sent_requests_def)
      moreover have "set (wait_queue (pds1 pd)) \<subseteq> set (wait_queue (pds pd))" using lists(2) by auto
      ultimately show ?thesis using ok unfolding downloads_ok_def set_append by blast
    qed
    ultimately have "downloads_ok cds' pds' pd"
      using ag1 others lists(3) dist unfolding downloads_ok_def res cds by (auto simp: ix1)
    then show ?thesis using lists(1) res by simp
  qed
qed

text \<open>The number of requests bounds the rounds of \<^verbatim>\<open>checkTimeouts\<close>; afterwards no request at the front is overdue.\<close>

lemma expire_loop_runs:
  assumes "downloads_ok cds pds pd" and "length (reqs (pds pd)) \<le> fuel"
  shows "\<exists>cds' pds'. expire_loop fuel now pd cds pds = Some (cds', pds') \<and> downloads_ok cds' pds' pd \<and>
    (\<forall>t ts. reqs (pds' pd) = t # ts \<longrightarrow> now - time_stamp t \<le> MAX_INTERVAL) \<and>
    set (reqs (pds' pd)) \<subseteq> set (reqs (pds pd))"
  using assms
proof (induction fuel arbitrary: cds pds)
  case 0
  then show ?case by (simp add: expire_loop.simps)
next
  case (Suc fuel)
  show ?case
  proof (cases "reqs (pds pd)")
    case Nil
    with Suc.prems show ?thesis by (simp add: expire_loop.simps)
  next
    case (Cons t ts)
    show ?thesis
    proof (cases "now - time_stamp t > MAX_INTERVAL")
      case False
      then have "expire_loop (Suc fuel) now pd cds pds = Some (cds, pds)" using Cons by (simp add: expire_loop.simps)
      with Suc.prems(1) Cons False show ?thesis by (simp add: not_less)
    next
      case True
      obtain cds1 pds1 where e: "emit_timedout now (tr_req t) pd cds (on_pd (\<lambda>p. p\<lparr>reqs := ts\<rparr>) pd pds) = (cds1, pds1)" by force
      from timeout_step [OF Suc.prems(1) Cons e] obtain P where ok: "downloads_ok cds1 pds1 pd"
        and f: "reqs (pds1 pd) = filter P ts" by blast
      have "length (reqs (pds1 pd)) \<le> fuel" unfolding f using Suc.prems(2) Cons length_filter_le [of P ts] by (simp del: length_filter_le)
      moreover have "expire_loop (Suc fuel) now pd cds pds = expire_loop fuel now pd cds1 pds1"
        using Cons True e by (simp add: expire_loop.simps [of "Suc fuel"])
      moreover have "set (reqs (pds1 pd)) \<subseteq> set (reqs (pds pd))" using f Cons by auto
      ultimately show ?thesis using Suc.IH [OF ok] by (metis subset_trans)
    qed
  qed
qed

section \<open>Properties\<close>

text \<open>C5. When a peer without the fast extension chokes us, all its requests go back to the chunk
  downloads, although these cancel further requests of the same peer while the loops over its lists
  are running: neither loop runs past the end of its list, afterwards the peer's lists are empty,
  a chunk download that still has the peer assigned has nothing requested from it, and what every
  chunk download believes to be requested is what the downloaders hold.\<close>

theorem choke_returns_requests:
  assumes "downloads_ok cds pds pd" and "pd_peer (pds pd) = Some v" and "\<not> pv_fast_extensions v"
  shows "\<exists>cds' pds'. choked now pd cds pds = Some (cds', pds') \<and>
    reqs (pds' pd) = [] \<and> wait_queue (pds' pd) = [] \<and> downloads_ok cds' pds' pd \<and>
    (\<forall>cd \<in> set cds'. \<forall>ds. find_ds pd cd = Some ds \<longrightarrow> status ds = [])"
proof -
  from reject_loop_runs [of cds pds pd sent_requests 0 "length (reqs (pds pd))" now]
  obtain cds1 pds1 where l1: "reject_loop (length (reqs (pds pd))) sent_requests now 0 pd cds pds = Some (cds1, pds1)"
    and ok1: "downloads_ok cds1 pds1 pd" and p1: "passed (sent_requests (pds1 pd)) pd cds1"
    using assms(1) by (auto simp: passed_def sent_requests_def)
  let ?p2 = "(pds1 pd)\<lparr>reqs := []\<rparr>"
  let ?pds2 = "pds1(pd := ?p2)"
  have good1: "pd_good (pds1 pd)" using ok1 by (simp add: downloads_ok_def)
  have ok2: "downloads_ok cds1 ?pds2 pd"
  proof (rule clear_ok [OF ok1])
    show "passed (filter (\<lambda>q. req_key q \<notin> set (pd_keys ?p2)) (sent_requests (pds1 pd) @ wait_queue (pds1 pd))) pd cds1"
      using p1 by (auto simp: passed_def pd_keys_def)
    show "pd_good ?p2" using good1 by (simp add: pd_good_def pd_keys_def)
  qed (simp_all add: sent_requests_def)
  from reject_loop_runs [OF ok2, of wait_queue 0 "length (wait_queue (?pds2 pd))" now]
  obtain cds3 pds3 where l3: "reject_loop (length (wait_queue (?pds2 pd))) wait_queue now 0 pd cds1 ?pds2 = Some (cds3, pds3)"
    and ok3: "downloads_ok cds3 pds3 pd" and p3: "passed (wait_queue (pds3 pd)) pd cds3" and r3: "reqs (pds3 pd) = []"
    by (auto simp: passed_def)
  let ?p4 = "(pds3 pd)\<lparr>wait_queue := []\<rparr>"
  have ok4: "downloads_ok cds3 (pds3(pd := ?p4)) pd"
  proof (rule clear_ok [OF ok3])
    show "passed (filter (\<lambda>q. req_key q \<notin> set (pd_keys ?p4)) (sent_requests (pds3 pd) @ wait_queue (pds3 pd))) pd cds3"
      using p3 r3 by (auto simp: passed_def sent_requests_def)
    show "pd_good ?p4" using r3 by (simp add: pd_good_def pd_keys_def)
  qed (simp_all add: sent_requests_def)
  have "choked now pd cds pds = Some (cds3, pds3(pd := ?p4))"
    using assms(2,3) l1 l3 by (simp add: choked_def Let_def on_pd_def)
  moreover have "\<forall>cd \<in> set cds3. \<forall>ds. find_ds pd cd = Some ds \<longrightarrow> status ds = []"
    using downloads_ok_empty [OF ok4] r3 by simp
  ultimately show ?thesis using r3 ok4 by (intro exI [of _ cds3] exI [of _ "pds3(pd := ?p4)"]) simp
qed

lemma new_requests_wf: "requests_wf (ChunkDownload_new ix sz)"
proof -
  have "unat (sz div 16384) < 262144" using unat_u32 [of sz] by (simp add: unat_div less_mult_imp_div_less)
  then have "unat (sz div 16384 + 1) \<le> 262144" by (simp add: unat_word_ariths)
  then have "unat (num (ChunkDownload_new ix sz)) \<le> 262144"
    using \<open>unat (sz div 16384) < 262144\<close> by (simp add: ChunkDownload_new_def Let_def MAX_PIECE_LEN_def)
  then show ?thesis by (simp add: requests_wf_def find_ds_def ChunkDownload_new_def Let_def)
qed

definition sample_pds :: pd_objs where
  "sample_pds = (\<lambda>_. PeerDownloader_new sample_view 40000)"

text \<open>A chunk of three pieces, all of them requested from peer 0.\<close>

definition sample_assigned :: "chunk_download \<times> pd_objs" where
  "sample_assigned = snd (assign (peer_ops 0) (Some 0) (ChunkDownload_new 7 40000) sample_pds)"

lemma sample_assigned_ok: "downloads_ok [fst sample_assigned] (snd sample_assigned) 0"
proof -
  let ?cd = "ChunkDownload_new 7 40000"
  obtain ok cd' pds' where a: "assign (peer_ops 0) (Some 0) ?cd sample_pds = (ok, cd', pds')" by (metis prod_cases3)
  have "peer.agree (?cd, sample_pds) ?cd sample_pds"
    unfolding peer.agree_plain peer.plain_def using new_requests_wf by (simp add: ChunkDownload_new_def Let_def)
  then have "peer.agree (?cd, sample_pds) cd' pds' \<and> ok = (0 \<notin> set (pdown ?cd)) \<and> 0 \<in> set (pdown cd')"
    by (rule peer.assign_agree [OF _ a])
      (simp add: sample_pds_def PeerDownloader_new_def pd_good_def pd_keys_def pd_outstanding_def of_chunk_def)
  then have p: "peer.plain (fst sample_assigned) (snd sample_assigned)"
    using a by (simp add: sample_assigned_def peer.agree_def peer.plain_def)
  have l: "pd_good (snd sample_assigned 0)" "pd_peer (snd sample_assigned 0) \<noteq> None"
    "list_all (\<lambda>q. rq_pd q = Some 0) (sent_requests (snd sample_assigned 0) @ wait_queue (snd sample_assigned 0))"
    by code_simp+
  with p show ?thesis by (simp add: downloads_ok_def list_all_iff)
qed

theorem choke_returns_requests_witness:
  "length (sent_requests (snd sample_assigned 0) @ wait_queue (snd sample_assigned 0)) = 3 \<and>
   (\<exists>cds' pds'. choked 5 0 [fst sample_assigned] (snd sample_assigned) = Some (cds', pds') \<and>
     reqs (pds' 0) = [] \<and> wait_queue (pds' 0) = [])"
proof
  show "length (sent_requests (snd sample_assigned 0) @ wait_queue (snd sample_assigned 0)) = 3" by code_simp
  have "map_option pv_fast_extensions (pd_peer (snd sample_assigned 0)) = Some False" by code_simp
  then obtain v where v: "pd_peer (snd sample_assigned 0) = Some v" "\<not> pv_fast_extensions v" by auto
  from choke_returns_requests [OF sample_assigned_ok v, of 5]
  show "\<exists>cds' pds'. choked 5 0 [fst sample_assigned] (snd sample_assigned) = Some (cds', pds') \<and>
     reqs (pds' 0) = [] \<and> wait_queue (pds' 0) = []" by blast
qed

end
