(* ===== verification/Peer.thy ===== *)
theory Peer
  imports PeerDownloader Bcodec
begin

text \<open>
  \<^verbatim>\<open>bt::Peer\<close> (\<^verbatim>\<open>src/src/peer/peer.cpp\<close>) and \<^verbatim>\<open>bt::PeerUploader\<close> (\<^verbatim>\<open>src/src/peer/peeruploader.cpp\<close>): what
  a packet received from a peer does, and what is sent to it. The packet socket of the connection is
  the model of \<^verbatim>\<open>PacketSocket.thy\<close>. Calls into the peer's downloader, the peer manager and the
  protocol extensions are recorded in order in the list \<open>calls\<close>; the downloader itself is modelled
  in \<^verbatim>\<open>PeerDownloader.thy\<close> and \<^verbatim>\<open>Downloads.thy\<close>. Timers that only feed statistics are left out.
\<close>

section \<open>State\<close>

datatype peer_call =
    Close
  | DownloaderChoked
  | DownloaderPiece pd_request "byte list"
  | DownloaderRejected pd_request
  | DownloaderUpdate
  | DownloaderCancelAll
  | RerunChoker
  | Have u32
  | BitSetReceived bitset
  | PieceReceived pd_request "byte list"
  | PortPacketReceived u16
  | ExtHandlePacket u32 "byte list"
  | NewUTMetaData u32 u32

record peer_stats =
  st_choked :: bool
  st_interested :: bool
  st_am_interested :: bool
  st_has_upload_slot :: bool
  st_fast_extensions :: bool
  st_extension_protocol :: bool
  st_partial_seed :: bool
  st_max_request_queue :: u32
  st_time_choked :: u64
  st_time_unchoked :: u64
  st_bytes_downloaded :: u64

text \<open>
  \<open>extensions\<close> maps the local number of an active extension to the number the peer gave it;
  \<open>requests\<close> and \<open>uploaded\<close> are the uploader's.
\<close>

record ('c, 's) peer =
  pr_id :: pd_id
  killed :: bool
  paused :: bool
  token :: bool
  pr_pieces :: bitset
  stats :: peer_stats
  sock :: "('c, 's) packet_socket"
  extensions :: "u32 \<Rightarrow> u32 option"
  ut_pex_id :: u32
  pex_allowed :: bool
  bytes_since_unchoke :: u64
  requests :: "pd_request list"
  uploaded :: u32
  calls :: "peer_call list"

text \<open>What the handlers read from elsewhere: the torrent, the settings and the clock, Qt's number
  conversions, and the value an uninitialised integer happens to have.\<close>

record peer_env =
  torrent_loaded :: bool
  pex_enabled :: bool
  time_now :: u64
  conv_int :: "string \<Rightarrow> int option"
  conv_long :: "string \<Rightarrow> int option"
  junk :: int

definition UT_PEX_ID :: u32 where "UT_PEX_ID = 1"
definition UT_METADATA_ID :: u32 where "UT_METADATA_ID = 2"
definition MAX_METADATA_SIZE :: int where "MAX_METADATA_SIZE = 100 * 1024 * 1024"
definition MAX_PENDING_UPLOAD_BLOCKS :: u32 where "MAX_PENDING_UPLOAD_BLOCKS = 512"
definition MAX_PENDING_UPLOAD_BYTES :: u32 where
  "MAX_PENDING_UPLOAD_BYTES = MAX_PENDING_UPLOAD_BLOCKS * (13 + 16384)"

text \<open>The limit the constructor gives the packet reader, from the number of chunks.\<close>

definition reader_limit :: "u32 \<Rightarrow> u32" where
  "reader_limit num_chunks =
     (let max_packet_len = 9 + of_nat MAX_PIECE_LEN;
          bitfield_length = num_chunks div 8 + 1 + (if num_chunks mod 8 = 0 then 0 else 1)
      in 10 * (if max_packet_len < bitfield_length then bitfield_length else max_packet_len))"

definition call :: "peer_call \<Rightarrow> ('c, 's) peer \<Rightarrow> ('c, 's) peer" where
  "call e p = p\<lparr>calls := calls p @ [e]\<rparr>"

definition addPacket_peer :: "packet \<Rightarrow> ('c, 's) peer \<Rightarrow> ('c, 's) peer" where
  "addPacket_peer pkt p = p\<lparr>sock := addPacket_ps pkt (sock p)\<rparr>"

definition kill :: "('c, 's) peer \<Rightarrow> ('c, 's) peer" where
  "kill p = (call Close p)\<lparr>killed := True, token := False\<rparr>"

section \<open>Sending\<close>

definition sendChoke :: "('c, 's) peer \<Rightarrow> ('c, 's) peer" where
  "sendChoke p = (if \<not> st_has_upload_slot (stats p) then p
     else (addPacket_peer (create_type CHOKE) p)\<lparr>stats := (stats p)\<lparr>st_has_upload_slot := False\<rparr>\<rparr>)"

definition sendUnchoke :: "('c, 's) peer \<Rightarrow> ('c, 's) peer" where
  "sendUnchoke p = (if st_has_upload_slot (stats p) then p
     else (addPacket_peer (create_type UNCHOKE) p)\<lparr>stats := (stats p)\<lparr>st_has_upload_slot := True\<rparr>\<rparr>)"

definition sendEvilUnchoke :: "('c, 's) peer \<Rightarrow> ('c, 's) peer" where
  "sendEvilUnchoke p = (addPacket_peer (create_type UNCHOKE) p)\<lparr>stats := (stats p)\<lparr>st_has_upload_slot := False\<rparr>\<rparr>"

definition sendInterested :: "('c, 's) peer \<Rightarrow> ('c, 's) peer" where
  "sendInterested p = (if st_am_interested (stats p) then p
     else (addPacket_peer (create_type INTERESTED) p)\<lparr>stats := (stats p)\<lparr>st_am_interested := True\<rparr>\<rparr>)"

definition sendNotInterested :: "('c, 's) peer \<Rightarrow> ('c, 's) peer" where
  "sendNotInterested p = (if \<not> st_am_interested (stats p) then p
     else (addPacket_peer (create_type NOT_INTERESTED) p)\<lparr>stats := (stats p)\<lparr>st_am_interested := False\<rparr>\<rparr>)"

definition sendReject :: "pd_request \<Rightarrow> ('c, 's) peer \<Rightarrow> ('c, 's) peer" where
  "sendReject r p = addPacket_peer (create_request (request.truncate r) REJECT_REQUEST) p"

definition sendHave :: "u32 \<Rightarrow> ('c, 's) peer \<Rightarrow> ('c, 's) peer" where
  "sendHave index p = addPacket_peer (create_chunk index HAVE) p"

definition sendPort :: "u16 \<Rightarrow> ('c, 's) peer \<Rightarrow> ('c, 's) peer" where
  "sendPort port p = addPacket_peer (create_port port) p"

definition sendBitSet :: "bitset \<Rightarrow> ('c, 's) peer \<Rightarrow> ('c, 's) peer" where
  "sendBitSet bs p = addPacket_peer (create_bitfield bs) p"

definition sendHaveAll :: "('c, 's) peer \<Rightarrow> ('c, 's) peer" where
  "sendHaveAll p = addPacket_peer (create_type HAVE_ALL) p"

definition sendHaveNone :: "('c, 's) peer \<Rightarrow> ('c, 's) peer" where
  "sendHaveNone p = addPacket_peer (create_type HAVE_NONE) p"

definition sendSuggestPiece :: "u32 \<Rightarrow> ('c, 's) peer \<Rightarrow> ('c, 's) peer" where
  "sendSuggestPiece index p = addPacket_peer (create_chunk index SUGGEST_PIECE) p"

definition sendAllowedFast :: "u32 \<Rightarrow> ('c, 's) peer \<Rightarrow> ('c, 's) peer" where
  "sendAllowedFast index p = addPacket_peer (create_chunk index ALLOWED_FAST) p"

definition sendExtProtMsg :: "byte \<Rightarrow> byte list \<Rightarrow> ('c, 's) peer \<Rightarrow> ('c, 's) peer" where
  "sendExtProtMsg eid dat p = addPacket_peer (create_extended eid dat) p"

text \<open>
  \<^verbatim>\<open>Packet::create(index, begin, len, ch)\<close> allocates \<^verbatim>\<open>13 + len\<close> bytes computed as a \<^verbatim>\<open>Uint32\<close> and
  stores thirteen bytes and \<open>len\<close> more; \<^const>\<open>None\<close> is a store outside that buffer. \<open>piece\<close> are the
  \<open>len\<close> bytes behind the header: what \<^verbatim>\<open>Chunk::readPiece\<close> stores there, or the unspecified content of
  the new buffer when it fails (its result is ignored).
\<close>

definition createPiece :: "u32 \<Rightarrow> u32 \<Rightarrow> u32 \<Rightarrow> byte list \<Rightarrow> packet option" where
  "createPiece index bgn len piece =
     (if unat (13 + len) < 13 + unat len then None else Some (create_piece index bgn piece))"

text \<open>\<open>csize\<close> is the size of the chunk and \<open>read\<close> its data; the checks are in 32 bits, as in the code.\<close>

definition sendChunk_peer :: "u32 \<Rightarrow> u32 \<Rightarrow> u32 \<Rightarrow> u32 \<Rightarrow> (u32 \<Rightarrow> u32 \<Rightarrow> byte list) \<Rightarrow> ('c, 's) peer \<Rightarrow>
    (bool \<times> ('c, 's) peer) option" where
  "sendChunk_peer index bgn len csize read p =
     (if csize \<le> bgn \<or> csize < bgn + len then Some (False, p)
      else if MAX_PENDING_UPLOAD_BLOCKS \<le> numPendingPieceUploads (sock p) \<or>
              MAX_PENDING_UPLOAD_BYTES < numPendingPieceUploadBytes (sock p) + 13 + len then Some (False, p)
      else case createPiece index bgn len (read bgn len) of
             None \<Rightarrow> None
           | Some pkt \<Rightarrow> Some (True, addPacket_peer pkt p))"

section \<open>The uploader\<close>

definition addRequest :: "pd_request \<Rightarrow> ('c, 's) peer \<Rightarrow> ('c, 's) peer" where
  "addRequest r p = p\<lparr>requests := requests p @ [r]\<rparr>"

definition removeRequest :: "pd_request \<Rightarrow> ('c, 's) peer \<Rightarrow> ('c, 's) peer" where
  "removeRequest r p = p\<lparr>requests := remove_waiting r (requests p)\<rparr>"

definition rejectIfFast :: "pd_request \<Rightarrow> ('c, 's) peer \<Rightarrow> ('c, 's) peer" where
  "rejectIfFast r p = (if st_fast_extensions (stats p) then sendReject r p else p)"

text \<open>A chunk of the torrent: its size, whether it is on disk, and its data.\<close>

record chunk_view =
  cv_size :: u32
  cv_on_disk :: bool
  cv_read :: "u32 \<Rightarrow> u32 \<Rightarrow> byte list"

fun requests_loop :: "(u32 \<Rightarrow> chunk_view option) \<Rightarrow> pd_request list \<Rightarrow> ('c, 's) peer \<Rightarrow> ('c, 's) peer option" where
  "requests_loop getChunk [] p = Some (p\<lparr>requests := []\<rparr>)"
| "requests_loop getChunk (r # rs) p =
     (case getChunk (rq_index r) of
        Some c \<Rightarrow>
          if cv_on_disk c then
            (case sendChunk_peer (rq_index r) (rq_off r) (rq_len r) (cv_size c) (cv_read c) p of
               None \<Rightarrow> None
             | Some (True, p') \<Rightarrow> requests_loop getChunk rs p'
             | Some (False, p') \<Rightarrow> requests_loop getChunk rs (rejectIfFast r p'))
          else requests_loop getChunk rs (rejectIfFast r p)
      | None \<Rightarrow> requests_loop getChunk rs (rejectIfFast r p))"

text \<open>\<^verbatim>\<open>areWeChoked\<close> is the absence of an upload slot.\<close>

definition handleRequests :: "(u32 \<Rightarrow> chunk_view option) \<Rightarrow> ('c, 's) peer \<Rightarrow> (u32 \<times> ('c, 's) peer) option" where
  "handleRequests getChunk p =
     (let ret = uploaded p; p1 = p\<lparr>uploaded := 0\<rparr> in
      if \<not> st_has_upload_slot (stats p) then Some (ret, p1)
      else map_option (\<lambda>p'. (ret, p')) (requests_loop getChunk (requests p1) p1))"

definition clearAllRequests :: "('c, 's) peer \<Rightarrow> ('c, 's) peer" where
  "clearAllRequests p =
     (let p1 = p\<lparr>sock := clearPieces (st_fast_extensions (stats p)) (sock p)\<rparr>;
          p2 = (if st_fast_extensions (stats p) then fold sendReject (requests p) p1 else p1)
      in p2\<lparr>requests := []\<rparr>)"

definition choke_peer :: "('c, 's) peer \<Rightarrow> ('c, 's) peer" where
  "choke_peer p = (if \<not> st_has_upload_slot (stats p) then p else clearAllRequests (sendChoke p))"

definition pause_peer :: "('c, 's) peer \<Rightarrow> ('c, 's) peer" where
  "pause_peer p = (if paused p then p
     else (sendNotInterested (choke_peer (call DownloaderCancelAll p)))\<lparr>paused := True\<rparr>)"

definition unpause_peer :: "('c, 's) peer \<Rightarrow> ('c, 's) peer" where
  "unpause_peer p = p\<lparr>paused := False\<rparr>"

section \<open>Handling packets\<close>

text \<open>\<open>packet\<close> starts with the type byte; \<open>len\<close> is its length.\<close>

definition handleChoke :: "peer_env \<Rightarrow> nat \<Rightarrow> ('c, 's) peer \<Rightarrow> ('c, 's) peer" where
  "handleChoke env len p = (if len \<noteq> 1 then kill p
     else let st = (if \<not> st_choked (stats p) then (stats p)\<lparr>st_time_choked := time_now env\<rparr> else stats p)
          in call DownloaderChoked (p\<lparr>stats := st\<lparr>st_choked := True\<rparr>\<rparr>))"

definition handleUnchoke :: "peer_env \<Rightarrow> nat \<Rightarrow> ('c, 's) peer \<Rightarrow> ('c, 's) peer" where
  "handleUnchoke env len p = (if len \<noteq> 1 then kill p
     else let p1 = (if st_choked (stats p)
                    then p\<lparr>stats := (stats p)\<lparr>st_time_unchoked := time_now env\<rparr>, bytes_since_unchoke := 0\<rparr> else p)
          in p1\<lparr>stats := (stats p1)\<lparr>st_choked := False\<rparr>\<rparr>)"

definition handleInterested :: "nat \<Rightarrow> ('c, 's) peer \<Rightarrow> ('c, 's) peer" where
  "handleInterested len p = (if len \<noteq> 1 then kill p
     else if \<not> st_interested (stats p) then call RerunChoker (p\<lparr>stats := (stats p)\<lparr>st_interested := True\<rparr>\<rparr>) else p)"

definition handleNotInterested :: "nat \<Rightarrow> ('c, 's) peer \<Rightarrow> ('c, 's) peer" where
  "handleNotInterested len p = (if len \<noteq> 1 then kill p
     else if st_interested (stats p) then call RerunChoker (p\<lparr>stats := (stats p)\<lparr>st_interested := False\<rparr>\<rparr>) else p)"

definition handleHave :: "peer_env \<Rightarrow> byte list \<Rightarrow> nat \<Rightarrow> ('c, 's) peer \<Rightarrow> ('c, 's) peer" where
  "handleHave env packet len p = (if len \<noteq> 5 then kill p
     else let ch = ReadUint32 packet 1 in
       if unat ch < num_bits (pr_pieces p)
       then let p1 = call (Have ch) p in p1\<lparr>pr_pieces := bs_set (unat ch) True (pr_pieces p1)\<rparr>
       else if torrent_loaded env then kill p else p)"

definition handleHaveAll :: "nat \<Rightarrow> ('c, 's) peer \<Rightarrow> ('c, 's) peer" where
  "handleHaveAll len p = (if len \<noteq> 1 then kill p
     else let bs = bs_setAll True (pr_pieces p) in call (BitSetReceived bs) (p\<lparr>pr_pieces := bs\<rparr>))"

definition handleHaveNone :: "nat \<Rightarrow> ('c, 's) peer \<Rightarrow> ('c, 's) peer" where
  "handleHaveNone len p = (if len \<noteq> 1 then kill p
     else let bs = bs_setAll False (pr_pieces p) in call (BitSetReceived bs) (p\<lparr>pr_pieces := bs\<rparr>))"

definition handleBitField :: "peer_env \<Rightarrow> byte list \<Rightarrow> nat \<Rightarrow> ('c, 's) peer \<Rightarrow> ('c, 's) peer" where
  "handleBitField env packet len p =
     (if len \<noteq> 1 + length (bs_data (pr_pieces p)) then (if torrent_loaded env then kill p else p)
      else let bs = bs_from_data (drop 1 packet) (num_bits (pr_pieces p))
           in call (BitSetReceived bs) (p\<lparr>pr_pieces := bs\<rparr>))"

definition read_request :: "byte list \<Rightarrow> pd_id \<Rightarrow> pd_request" where
  "read_request packet pd = Request_new (ReadUint32 packet 1) (ReadUint32 packet 5) (ReadUint32 packet 9) (Some pd)"

definition handleRequest :: "byte list \<Rightarrow> nat \<Rightarrow> ('c, 's) peer \<Rightarrow> ('c, 's) peer" where
  "handleRequest packet len p = (if len \<noteq> 13 then kill p
     else let r = read_request packet (pr_id p) in
       if st_has_upload_slot (stats p) then addRequest r p
       else if st_fast_extensions (stats p) then sendReject r p else p)"

definition handlePiece :: "byte list \<Rightarrow> nat \<Rightarrow> ('c, 's) peer \<Rightarrow> ('c, 's) peer" where
  "handlePiece packet len p = (if paused p then p
     else if len < 9 then kill p
     else let n = of_nat (len - 9);
              r = Request_new (ReadUint32 packet 1) (ReadUint32 packet 5) n (Some (pr_id p));
              p1 = p\<lparr>stats := (stats p)\<lparr>st_bytes_downloaded := st_bytes_downloaded (stats p) + ucast n\<rparr>,
                     bytes_since_unchoke := bytes_since_unchoke p + ucast n\<rparr>
          in call DownloaderUpdate (call (PieceReceived r (drop 9 packet)) (call (DownloaderPiece r (drop 9 packet)) p1)))"

definition handleCancel :: "byte list \<Rightarrow> nat \<Rightarrow> ('c, 's) peer \<Rightarrow> ('c, 's) peer" where
  "handleCancel packet len p = (if len \<noteq> 13 then kill p
     else let r = read_request packet (pr_id p); p1 = removeRequest r p
          in p1\<lparr>sock := doNotSendPiece (request.truncate r) (st_fast_extensions (stats p1)) (sock p1)\<rparr>)"

definition handleReject :: "byte list \<Rightarrow> nat \<Rightarrow> ('c, 's) peer \<Rightarrow> ('c, 's) peer" where
  "handleReject packet len p = (if len \<noteq> 13 then kill p
     else call (DownloaderRejected (read_request packet (pr_id p))) p)"

definition handlePort :: "byte list \<Rightarrow> nat \<Rightarrow> ('c, 's) peer \<Rightarrow> ('c, 's) peer" where
  "handlePort packet len p = (if len \<noteq> 3 then kill p else call (PortPacketReceived (ReadUint16 packet 1)) p)"

section \<open>The extension protocol\<close>

definition string_of :: "byte list \<Rightarrow> string" where
  "string_of bs = map (\<lambda>b. char_of (unat b)) bs"

definition bytes_of :: "string \<Rightarrow> byte list" where
  "bytes_of s = map (\<lambda>c. of_nat (of_char c)) s"

text \<open>\<^verbatim>\<open>val->data().toInt()\<close>, which for a 64-bit value reads a member that was never set.\<close>

definition value_toInt :: "peer_env \<Rightarrow> bvalue \<Rightarrow> int" where
  "value_toInt env v = (case toInt v of Some i \<Rightarrow> i | None \<Rightarrow> junk env)"

definition handshake_pex :: "peer_env \<Rightarrow> bdict \<Rightarrow> ('c, 's) peer \<Rightarrow> ('c, 's) peer" where
  "handshake_pex env mdict p = (case getValue mdict ''ut_pex'' of
     None \<Rightarrow> p
   | Some v \<Rightarrow>
       if \<not> pex_enabled env then p
       else let i = of_int (value_toInt env v); p1 = p\<lparr>ut_pex_id := i\<rparr> in
         if i = 0 then p1\<lparr>extensions := (extensions p1)(UT_PEX_ID := None)\<rparr>
         else if extensions p1 UT_PEX_ID \<noteq> None \<or> pex_allowed p1
              then p1\<lparr>extensions := (extensions p1)(UT_PEX_ID := Some i)\<rparr>
              else p1)"

text \<open>
  \<^const>\<open>Inl\<close> leaves the handler: with the peer killed, or with an exception from \<^verbatim>\<open>getInt\<close>
  that the handler swallows. The new metadata extension is told the size, an \<^verbatim>\<open>int\<close>, as a \<^verbatim>\<open>Uint32\<close>.
\<close>

definition handshake_metadata :: "peer_env \<Rightarrow> bdict \<Rightarrow> bdict \<Rightarrow> ('c, 's) peer \<Rightarrow> ('c, 's) peer + ('c, 's) peer" where
  "handshake_metadata env dict mdict p = (case getValue mdict ''ut_metadata'' of
     None \<Rightarrow> Inr p
   | Some v \<Rightarrow>
       let i = of_int (value_toInt env v) in
         if i = 0 then Inr (p\<lparr>extensions := (extensions p)(UT_METADATA_ID := None)\<rparr>)
         else if extensions p UT_METADATA_ID \<noteq> None
         then Inr (p\<lparr>extensions := (extensions p)(UT_METADATA_ID := Some i)\<rparr>)
         else (case (if getValue dict ''metadata_size'' = None then Inr 0 else dict_getInt dict ''metadata_size'') of
             Inl e \<Rightarrow> Inl p
           | Inr metadata_size \<Rightarrow>
               if MAX_METADATA_SIZE < metadata_size then Inl (kill p)
               else Inr (call (NewUTMetaData i (of_int metadata_size))
                           (p\<lparr>extensions := (extensions p)(UT_METADATA_ID := Some i)\<rparr>))))"

definition handshake_stats :: "peer_env \<Rightarrow> bdict \<Rightarrow> ('c, 's) peer \<Rightarrow> ('c, 's) peer" where
  "handshake_stats env dict p =
     (let p1 = (case getValue dict ''reqq'' of None \<Rightarrow> p
           | Some v \<Rightarrow> p\<lparr>stats := (stats p)\<lparr>st_max_request_queue := of_int (value_toInt env v)\<rparr>\<rparr>)
      in case getValue dict ''upload_only'' of None \<Rightarrow> p1
           | Some v \<Rightarrow> p1\<lparr>stats := (stats p1)\<lparr>st_partial_seed := value_toInt env v = 1\<rparr>\<rparr>)"

text \<open>An exception of the decoder is swallowed as well.\<close>

definition handleExtendedHandshake :: "peer_env \<Rightarrow> byte list \<Rightarrow> nat \<Rightarrow> ('c, 's) peer \<Rightarrow> ('c, 's) peer" where
  "handleExtendedHandshake env packet len p = (if len \<le> 2 then p
     else case decodeDict (conv_int env) (conv_long env) (string_of (drop 2 packet)) 0 of
         Inl e \<Rightarrow> p
       | Inr (None, _) \<Rightarrow> p
       | Inr (Some dict, _) \<Rightarrow> (case getDict dict ''m'' of
           None \<Rightarrow> p
         | Some mdict \<Rightarrow> (case handshake_metadata env dict mdict (handshake_pex env mdict p) of
             Inl p' \<Rightarrow> p'
           | Inr p' \<Rightarrow> handshake_stats env dict p')))"

definition handleExtendedPacket :: "peer_env \<Rightarrow> byte list \<Rightarrow> nat \<Rightarrow> ('c, 's) peer \<Rightarrow> ('c, 's) peer" where
  "handleExtendedPacket env packet len p = (if len \<le> 2 then p
     else if extensions p (ucast (packet ! 1)) \<noteq> None then call (ExtHandlePacket (ucast (packet ! 1)) packet) p
     else if packet ! 1 = 0 then handleExtendedHandshake env packet len p
     else p)"

definition handlePacket_peer :: "peer_env \<Rightarrow> byte list \<Rightarrow> ('c, 's) peer \<Rightarrow> ('c, 's) peer" where
  "handlePacket_peer env packet p =
     (let len = length packet; t = packet ! 0 in
      if killed p \<or> len = 0 then p
      else if t = CHOKE then handleChoke env len p
      else if t = UNCHOKE then handleUnchoke env len p
      else if t = INTERESTED then handleInterested len p
      else if t = NOT_INTERESTED then handleNotInterested len p
      else if t = HAVE then handleHave env packet len p
      else if t = BITFIELD then handleBitField env packet len p
      else if t = REQUEST then handleRequest packet len p
      else if t = PIECE then handlePiece packet len p
      else if t = CANCEL then handleCancel packet len p
      else if t = REJECT_REQUEST then handleReject packet len p
      else if t = PORT then handlePort packet len p
      else if t = HAVE_ALL then handleHaveAll len p
      else if t = HAVE_NONE then handleHaveNone len p
      else if t = EXTENDED then handleExtendedPacket env packet len p
      else p)"

text \<open>\<open>number\<close> is \<^verbatim>\<open>QByteArray::number\<close> and \<open>version\<close> the client's version string.\<close>

definition ext_handshake :: "(nat \<Rightarrow> string) \<Rightarrow> string \<Rightarrow> u16 \<Rightarrow> u32 \<Rightarrow> bool \<Rightarrow> bool \<Rightarrow> bencoder" where
  "ext_handshake number version port metadata_size partial_seed pex =
     (let e = beginDict (write_bytes number ''m'' (beginDict buffer_output));
          e = write_key number ''ut_pex'' (write_u32 number (if pex then UT_PEX_ID else 0)) e;
          e = write_key number ''ut_metadata'' (write_u32 number UT_METADATA_ID) e;
          e = end_enc e;
          e = (if port > 0 then write_key number ''p'' (write_u32 number (ucast port)) e else e);
          e = write_key number ''reqq'' (write_u32 number 250) e;
          e = (if metadata_size \<noteq> 0 then write_key number ''metadata_size'' (write_u32 number metadata_size) e else e);
          e = write_key number ''upload_only'' (write_bool number partial_seed) e;
          e = write_key number ''v'' (write_bytes number version) e
      in end_enc e)"

definition sendExtProtHandshake :: "(nat \<Rightarrow> string) \<Rightarrow> string \<Rightarrow> u16 \<Rightarrow> u32 \<Rightarrow> bool \<Rightarrow> ('c, 's) peer \<Rightarrow> ('c, 's) peer" where
  "sendExtProtHandshake number version port metadata_size partial_seed p =
     (if \<not> st_extension_protocol (stats p) then p
      else case ext_handshake number version port metadata_size partial_seed (pex_allowed p) of
             None \<Rightarrow> p
           | Some arr \<Rightarrow> sendExtProtMsg 0 (bytes_of arr) p)"

definition setPexEnabled :: "peer_env \<Rightarrow> bool \<Rightarrow> ('c, 's) peer \<Rightarrow> ('c, 's) peer" where
  "setPexEnabled env on p = (if \<not> st_extension_protocol (stats p) then p
     else let p1 = (if extensions p UT_PEX_ID \<noteq> None \<and> (\<not> on \<or> \<not> pex_enabled env)
                    then p\<lparr>extensions := (extensions p)(UT_PEX_ID := None)\<rparr>
                    else if extensions p UT_PEX_ID = None \<and> on \<and> 0 < ut_pex_id p \<and> pex_enabled env
                    then p\<lparr>extensions := (extensions p)(UT_PEX_ID := Some (ut_pex_id p))\<rparr>
                    else p)
          in p1\<lparr>pex_allowed := on\<rparr>)"

definition hasWantedChunks :: "bitset \<Rightarrow> ('c, 's) peer \<Rightarrow> bool option" where
  "hasWantedChunks wanted_chunks p = map_option (\<lambda>bs. 0 < num_on bs) (bs_andBitSet (pr_pieces p) wanted_chunks)"

text \<open>The times are unsigned; the divisor is the time of the last unchoke minus the current time.\<close>

definition averageDownloadSpeed :: "u64 \<Rightarrow> ('c, 's) peer \<Rightarrow> u32" where
  "averageDownloadSpeed now p = (if st_choked (stats p) then 0
     else if st_time_unchoked (stats p) \<le> now then 0
     else ucast (bytes_since_unchoke p div (st_time_unchoked (stats p) - now)))"

section \<open>What a peer can make us do\<close>

text \<open>
  The set of chunks keeps its size and its array, and the accounting of the outbound queues stays
  exact (\<^const>\<open>sock_inv\<close>).
\<close>

definition peer_inv :: "nat \<Rightarrow> ('c, 's) peer \<Rightarrow> bool" where
  "peer_inv n p \<longleftrightarrow> shape (pr_pieces p) \<and> num_bits (pr_pieces p) = n \<and> sock_inv (sock p)"

lemma peer_inv_simps [simp]:
  "peer_inv n (call e p) = peer_inv n p" "peer_inv n (p\<lparr>stats := st\<rparr>) = peer_inv n p"
  "peer_inv n (p\<lparr>extensions := ex\<rparr>) = peer_inv n p" "peer_inv n (p\<lparr>requests := rs\<rparr>) = peer_inv n p"
  "peer_inv n (p\<lparr>bytes_since_unchoke := b\<rparr>) = peer_inv n p" "peer_inv n (p\<lparr>ut_pex_id := u\<rparr>) = peer_inv n p"
  "peer_inv n (kill p) = peer_inv n p"
  by (simp_all add: peer_inv_def call_def kill_def)

lemma peer_inv_send: "peer_inv n p \<Longrightarrow> fresh pkt \<Longrightarrow> peer_inv n (addPacket_peer pkt p)"
  by (simp add: peer_inv_def addPacket_peer_def add_inv)

lemma peer_inv_reject: "peer_inv n p \<Longrightarrow> peer_inv n (sendReject r p)"
  unfolding sendReject_def by (rule peer_inv_send) (assumption, rule create_request_fields)

lemma shape_set: "shape bs \<Longrightarrow> shape (bs_set i on bs)"
  by (simp add: shape_def bs_set_def Let_def)

lemma shape_setAll: "shape bs \<Longrightarrow> shape (bs_setAll on bs)"
  by (simp add: shape_def bs_setAll_def)

lemma handlers_inv:
  assumes "peer_inv n p"
  shows "peer_inv n (handleChoke env len p)" "peer_inv n (handleUnchoke env len p)"
    "peer_inv n (handleInterested len p)" "peer_inv n (handleNotInterested len p)"
    "peer_inv n (handleHave env packet len p)" "peer_inv n (handleHaveAll len p)" "peer_inv n (handleHaveNone len p)"
    "peer_inv n (handleRequest packet len p)" "peer_inv n (handlePiece packet len p)"
    "peer_inv n (handleCancel packet len p)" "peer_inv n (handleReject packet len p)" "peer_inv n (handlePort packet len p)"
  using assms
  by (simp_all add: handleChoke_def handleUnchoke_def handleInterested_def handleNotInterested_def handleRequest_def
      addRequest_def peer_inv_reject handlePiece_def handleReject_def handlePort_def Let_def)
    (auto simp: peer_inv_def handleHave_def handleHaveAll_def handleHaveNone_def handleCancel_def removeRequest_def
      doNotSendPiece_def erase_inv(1) shape_set shape_setAll call_def kill_def Let_def)

lemma handleBitField_inv:
  assumes "peer_inv n p" and "len = length packet"
  shows "peer_inv n (handleBitField env packet len p)"
proof (cases "len = 1 + length (bs_data (pr_pieces p))")
  case True
  have sh: "n < 2 ^ 32" "length (bs_data (pr_pieces p)) = NumBytesFromNumBits n" using assms(1) by (simp_all add: peer_inv_def shape_def)
  have "length (drop 1 packet) = NumBytesFromNumBits n" using True assms(2) sh(2) by simp
  then have "shape (bs_from_data (drop 1 packet) n)" "num_bits (bs_from_data (drop 1 packet) n) = n"
    using sh(1) by (simp_all add: shape_def bs_from_data_def updateNumOnBits_def)
  then show ?thesis using assms(1) True by (simp add: handleBitField_def peer_inv_def Let_def call_def)
qed (use assms in \<open>simp add: handleBitField_def\<close>)

lemma handleExtended_inv:
  assumes "peer_inv n p"
  shows "peer_inv n (handleExtendedPacket env packet len p)"
proof -
  have pex: "peer_inv n (handshake_pex env m q) = peer_inv n q" for m q
    by (auto simp: handshake_pex_def Let_def split: option.splits)
  have meta: "handshake_metadata env d m q = Inl q' \<Longrightarrow> peer_inv n q' = peer_inv n q"
    "handshake_metadata env d m q = Inr q' \<Longrightarrow> peer_inv n q' = peer_inv n q" for d m q q'
    by (auto simp: handshake_metadata_def Let_def split: option.splits sum.splits if_splits)
  have st: "peer_inv n (handshake_stats env d q) = peer_inv n q" for d q
    by (auto simp: handshake_stats_def Let_def split: option.splits)
  have "peer_inv n (handleExtendedHandshake env packet len p)"
    using assms by (auto simp: handleExtendedHandshake_def pex meta st split: sum.splits option.splits prod.splits)
  then show ?thesis using assms by (simp add: handleExtendedPacket_def)
qed

lemma handlePacket_inv: "peer_inv n p \<Longrightarrow> peer_inv n (handlePacket_peer env packet p)"
  by (simp add: handlePacket_peer_def Let_def handlers_inv handleBitField_inv handleExtended_inv)

section \<open>Properties\<close>

text \<open>C13. Whatever packets a peer sends, in any order and of any length and content: its set of
  chunks keeps the size of the torrent, the count of pending upload bytes stays exact, and once it
  was killed for a malformed packet nothing more of what it sends has any effect.\<close>

theorem peer_packets_safe:
  assumes "shape (pr_pieces p)" and "sock_inv (sock p)" and "p' = fold (handlePacket_peer env) packets p"
  shows "shape (pr_pieces p') \<and> num_bits (pr_pieces p') = num_bits (pr_pieces p) \<and>
    numPendingPieceUploadBytes (sock p') = of_nat (unsent_piece_bytes (sock p')) \<and>
    (killed p \<longrightarrow> p' = p)"
proof -
  have "peer_inv (num_bits (pr_pieces p)) p'" if "peer_inv (num_bits (pr_pieces p)) q" "p' = fold (handlePacket_peer env) packets q" for q
    using that by (induction packets arbitrary: q) (simp_all add: handlePacket_inv)
  moreover have "killed p \<Longrightarrow> fold (handlePacket_peer env) packets p = p"
    by (induction packets) (simp_all add: handlePacket_peer_def Let_def)
  ultimately show ?thesis using assms by (simp add: peer_inv_def sock_inv_def numPendingPieceUploadBytes_def)
qed

definition sample_peer :: "(unit, nat) peer" where
  "sample_peer = \<lparr>pr_id = 0, killed = False, paused = False, token = True, pr_pieces = bs_new 10,
     stats = \<lparr>st_choked = True, st_interested = False, st_am_interested = False, st_has_upload_slot = True,
       st_fast_extensions = True, st_extension_protocol = True, st_partial_seed = False, st_max_request_queue = 0,
       st_time_choked = 0, st_time_unchoked = 0, st_bytes_downloaded = 0\<rparr>,
     sock = PacketSocket_new () 9, extensions = (\<lambda>_. None), ut_pex_id = 0, pex_allowed = True,
     bytes_since_unchoke = 0, requests = [], uploaded = 0, calls = []\<rparr>"

definition sample_peer_env :: peer_env where
  "sample_peer_env = \<lparr>torrent_loaded = True, pex_enabled = True, time_now = 5, conv_int = ref_to_int,
     conv_long = ref_to_long_long, junk = 0\<rparr>"

lemma sample_peer_ok: "shape (pr_pieces sample_peer)" "sock_inv (sock sample_peer)"
  using sock_new_inv [of "()" "9 :: nat"] by (simp_all add: sample_peer_def shape_def bs_new_def)

theorem peer_packets_safe_witness:
  "num_bits (pr_pieces (fold (handlePacket_peer sample_peer_env)
     [[HAVE, 0, 0, 0, 3], [BITFIELD, 255, 255], [CHOKE, 1], [HAVE_ALL]] sample_peer)) = 10"
  using peer_packets_safe [OF sample_peer_ok refl, of sample_peer_env
      "[[HAVE, 0, 0, 0, 3], [BITFIELD, 255, 255], [CHOKE, 1], [HAVE_ALL]]"]
  by (simp add: sample_peer_def bs_new_def)

text \<open>C36. The range checks of \<^verbatim>\<open>sendChunk\<close> are in 32 bits. As long as none of their sums wraps, a piece
  is queued exactly when it lies inside the chunk, fewer than 512 pieces are pending and the bytes that are pending leave room for
  it; otherwise nothing is queued. But while the limits are not reached, a
  request for the last \<^verbatim>\<open>2^32 - begin\<close> bytes from a small offset passes all checks, and the packet
  built for it is smaller than what is stored into it.\<close>

theorem sendChunk_checks:
  assumes "unat bgn + unat len < 2 ^ 32"
    and "unat (numPendingPieceUploadBytes (sock p)) + 13 + unat len < 2 ^ 32"
  shows "sendChunk_peer index bgn len csize read p =
      (if unat bgn < unat csize \<and> unat bgn + unat len \<le> unat csize \<and> unat (numPendingPieceUploads (sock p)) < 512 \<and>
          unat (numPendingPieceUploadBytes (sock p)) + 13 + unat len \<le> 512 * 16397
       then Some (True, addPacket_peer (create_piece index bgn (read bgn len)) p) else Some (False, p)) \<and>
    (0 < bad \<and> bad \<le> 13 \<and> bad < csize \<and> unat (numPendingPieceUploads (sock p)) < 512 \<and> numPendingPieceUploadBytes (sock p) \<le> 8000000 \<longrightarrow>
      sendChunk_peer index bad (- bad) csize read' p = None)"
proof
  have s1: "unat (bgn + len) = unat bgn + unat len" using assms(1) by (simp add: unat_word_ariths)
  have s2: "unat (numPendingPieceUploadBytes (sock p) + 13 + len) = unat (numPendingPieceUploadBytes (sock p)) + 13 + unat len"
    using assms(2) by (simp add: unat_word_ariths)
  have s3: "unat (13 + len) = 13 + unat len" using assms(2) by (simp add: unat_word_ariths)
  have m: "unat MAX_PENDING_UPLOAD_BYTES = 512 * 16397"
    by (simp add: MAX_PENDING_UPLOAD_BYTES_def MAX_PENDING_UPLOAD_BLOCKS_def)
  have blocks: "unat MAX_PENDING_UPLOAD_BLOCKS = 512" by (simp add: MAX_PENDING_UPLOAD_BLOCKS_def)
  show "sendChunk_peer index bgn len csize read p =
      (if unat bgn < unat csize \<and> unat bgn + unat len \<le> unat csize \<and> unat (numPendingPieceUploads (sock p)) < 512 \<and>
          unat (numPendingPieceUploadBytes (sock p)) + 13 + unat len \<le> 512 * 16397
       then Some (True, addPacket_peer (create_piece index bgn (read bgn len)) p) else Some (False, p))"
    by (auto simp: sendChunk_peer_def createPiece_def word_le_nat_alt word_less_nat_alt s1 s2 s3 m blocks not_le not_less)
  show "0 < bad \<and> bad \<le> 13 \<and> bad < csize \<and> unat (numPendingPieceUploads (sock p)) < 512 \<and> numPendingPieceUploadBytes (sock p) \<le> 8000000 \<longrightarrow>
      sendChunk_peer index bad (- bad) csize read' p = None"
  proof
  assume bad: "0 < bad \<and> bad \<le> 13 \<and> bad < csize \<and> unat (numPendingPieceUploads (sock p)) < 512 \<and> numPendingPieceUploadBytes (sock p) \<le> 8000000"
  have b: "unat bad \<le> 13" "0 < unat bad" "unat (numPendingPieceUploadBytes (sock p)) \<le> 8000000"
    using bad by (simp_all add: word_le_nat_alt word_less_nat_alt)
  have "unat (13 - bad) = 13 - unat bad" using bad by (simp add: unat_sub)
  then have w: "unat (numPendingPieceUploadBytes (sock p) + (13 - bad)) = unat (numPendingPieceUploadBytes (sock p)) + (13 - unat bad)"
    using b by (simp add: unat_word_ariths)
  have u: "13 + - bad = 13 - bad" "numPendingPieceUploadBytes (sock p) + 13 + - bad = numPendingPieceUploadBytes (sock p) + (13 - bad)"
    by simp_all
  have "uint (- bad) = 2 ^ 32 - uint bad"
  proof -
    have "uint bad = int (unat bad)" by simp
    then have "0 < uint bad" "uint bad \<le> 13" using b by linarith+
    moreover have "uint (- bad) = (- uint bad) mod 2 ^ 32" by (simp add: uint_word_ariths)
    ultimately show ?thesis by (simp add: zmod_zminus1_eq_if)
  qed
  then have "int (unat (- bad)) = 4294967296 - int (unat bad)" by simp
  then have n: "unat (- bad) = 4294967296 - unat bad" by linarith
  have "createPiece index bad (- bad) (read' bad (- bad)) = None"
    unfolding createPiece_def u using \<open>unat (13 - bad) = 13 - unat bad\<close> n b by simp
  moreover have "\<not> MAX_PENDING_UPLOAD_BYTES < numPendingPieceUploadBytes (sock p) + 13 + - bad"
    unfolding u using w b by (simp add: word_less_nat_alt m)
  ultimately show "sendChunk_peer index bad (- bad) csize read' p = None"
    using bad blocks by (simp add: sendChunk_peer_def not_le word_less_nat_alt)
qed
qed

theorem sendChunk_checks_witness:
  "sendChunk_peer 0 0 1 262144 (\<lambda>_ _. [7]) sample_peer = Some (True, addPacket_peer (create_piece 0 0 [7]) sample_peer) \<and>
    sendChunk_peer 0 8 (- 8) 262144 (\<lambda>_ _. []) sample_peer = None"
  using sendChunk_checks [of 0 1 sample_peer 0 262144 "\<lambda>_ _. [7]" 8 "\<lambda>_ _. []"]
  by (simp add: sample_peer_def PacketSocket_new_def numPendingPieceUploads_def numPendingPieceUploadBytes_def)

section \<open>Both ends of the extended handshake\<close>

lemma string_of_bytes [simp]: "string_of (bytes_of s) = s"
proof -
  have "char_of (unat (of_nat (of_char c) :: byte)) = c" for c :: char
    using of_char_mod_256 [of c, where ?'a = nat] by (simp add: unat_of_nat)
  then show ?thesis by (induction s) (simp_all add: string_of_def bytes_of_def)
qed

definition handshake_tree :: "string \<Rightarrow> u16 \<Rightarrow> u32 \<Rightarrow> bool \<Rightarrow> bool \<Rightarrow> (string \<times> btree) list" where
  "handshake_tree version port metadata_size partial_seed pex =
     [(''m'', TDict [(''ut_pex'', TInt (if pex then 1 else 0)), (''ut_metadata'', TInt 2)])] @
     (if port > 0 then [(''p'', TInt (ucast (ucast port :: u32)))] else []) @ [(''reqq'', TInt 250)] @
     (if metadata_size \<noteq> 0 then [(''metadata_size'', TInt (ucast metadata_size))] else []) @
     [(''upload_only'', TInt (if partial_seed then 1 else 0)), (''v'', TStr version)]"

lemma write_u32_tree: "write_u32 number w = encode_tree number (TInt (ucast w))"
  by (simp add: fun_eq_iff write_u32_def write_u64_def unat_ucast_u64)

lemma write_bool_tree: "write_bool number b = encode_tree number (TInt (if b then 1 else 0))"
  by (simp add: fun_eq_iff write_bool_def write_u64_def)

lemma ext_handshake_tree:
  "ext_handshake number version port metadata_size partial_seed pex =
     encode_tree number (TDict (handshake_tree version port metadata_size partial_seed pex)) buffer_output"
  by (simp add: ext_handshake_def handshake_tree_def write_u32_tree write_bool_tree write_key_def UT_PEX_ID_def
      UT_METADATA_ID_def Let_def del: encode_tree.simps(2))

lemma handshake_effect:
  assumes "getValue d ''reqq'' = Some (V_INT 250)"
    and "getValue d ''upload_only'' = Some (V_INT (if partial_seed then 1 else 0))"
    and "getValue m ''ut_metadata'' = Some (V_INT 2)" and "getValue m ''ut_pex'' = Some (V_INT (if pex then 1 else 0))"
    and "getValue d ''metadata_size'' = None \<or> (\<exists>k. dict_getInt d ''metadata_size'' = Inr k \<and> k \<le> MAX_METADATA_SIZE)"
    and "\<not> killed q" and "extensions q UT_METADATA_ID = None"
  shows "let q' = (case handshake_metadata env d m (handshake_pex env m q) of Inl p' \<Rightarrow> p' | Inr p' \<Rightarrow> handshake_stats env d p')
    in st_max_request_queue (stats q') = 250 \<and> st_partial_seed (stats q') = partial_seed \<and>
    extensions q' UT_METADATA_ID = Some UT_METADATA_ID \<and> \<not> killed q' \<and>
    (pex_enabled env \<longrightarrow> ut_pex_id q' = (if pex then UT_PEX_ID else 0))"
proof -
  let ?r = "handshake_pex env m q"
  have pex: "extensions ?r UT_METADATA_ID = None" "\<not> killed ?r"
    "pex_enabled env \<longrightarrow> ut_pex_id ?r = (if pex then UT_PEX_ID else 0)"
    using assms(4,6,7) by (simp_all add: handshake_pex_def value_toInt_def Let_def UT_PEX_ID_def UT_METADATA_ID_def)
  have "\<exists>sz. handshake_metadata env d m ?r =
      Inr (call (NewUTMetaData 2 sz) (?r\<lparr>extensions := (extensions ?r)(UT_METADATA_ID := Some 2)\<rparr>))"
    using assms(3,5) pex(1) by (auto simp: handshake_metadata_def value_toInt_def Let_def MAX_METADATA_SIZE_def)
  then obtain sz where meta: "handshake_metadata env d m ?r =
      Inr (call (NewUTMetaData 2 sz) (?r\<lparr>extensions := (extensions ?r)(UT_METADATA_ID := Some 2)\<rparr>))" by blast
  show ?thesis
    using assms(1,2) pex by (simp add: meta call_def handshake_stats_def value_toInt_def Let_def UT_METADATA_ID_def)
qed

text \<open>C37. The extended handshake one side sends with \<^verbatim>\<open>sendExtProtHandshake\<close> is understood by the other:
  handling the packet records the announced queue length, the partial seed flag, the peer exchange
  number, and the metadata extension under the number the sender uses, and does not kill the peer,
  given that the sender's metadata is within the size limit.\<close>

theorem ext_handshake_roundtrip:
  assumes "qt_decimal number (conv_int env) (conv_long env)"
    and "ext_handshake number version port metadata_size partial_seed pex = Some arr" and "length arr < 2 ^ 31"
    and "unat metadata_size \<le> 104857600"
    and "\<not> killed q" and "extensions q 0 = None" and "extensions q UT_METADATA_ID = None"
    and "q' = handlePacket_peer env (EXTENDED # 0 # bytes_of arr) q"
  shows "st_max_request_queue (stats q') = 250 \<and> st_partial_seed (stats q') = partial_seed \<and>
    extensions q' UT_METADATA_ID = Some UT_METADATA_ID \<and> \<not> killed q' \<and>
    (pex_enabled env \<longrightarrow> ut_pex_id q' = (if pex then UT_PEX_ID else 0))"
proof -
  let ?es = "handshake_tree version port metadata_size partial_seed pex"
  have fit: "ints_fit (TDict ?es)"
    using unat_u32 [of metadata_size] unat_u32 [of "ucast port"] by (auto simp: handshake_tree_def unat_ucast_u64)
  have enc: "encode_tree number (TDict ?es) buffer_output = Some arr" using assms(2) by (simp add: ext_handshake_tree)
  from qt_decimal.decode_encode_tree [OF assms(1) enc fit, of "[]" "[]"] assms(3)
  have "decode (conv_int env) (conv_long env) arr 0 = Inr (Some (node_of number (TDict ?es)), length arr)" by simp
  then have dec: "decodeDict (conv_int env) (conv_long env) arr 0 = Inr (Some (node_of_dict number ?es), length arr)"
    by (simp add: decodeDict_def as_dict_def)
  let ?d = "node_of_dict number ?es"
  let ?m = "node_of_dict number [(''ut_pex'', TInt (if pex then 1 else 0)), (''ut_metadata'', TInt 2)]"
  have m: "getDict ?d ''m'' = Some ?m" by (simp add: handshake_tree_def getDict_def as_dict_def)
  have vals: "getValue ?d ''reqq'' = Some (V_INT 250)" 
    "getValue ?d ''upload_only'' = Some (V_INT (if partial_seed then 1 else 0))"
    "getValue ?m ''ut_metadata'' = Some (V_INT 2)" "getValue ?m ''ut_pex'' = Some (V_INT (if pex then 1 else 0))"
    by (simp_all add: handshake_tree_def getValue_def as_value_def int_value_def)
  have "uint metadata_size \<le> 104857600"
    using assms(4) zle_int [of "unat metadata_size" 104857600] by simp
  moreover have "unat metadata_size < 2147483648" using assms(4) by simp
  ultimately have size: "getValue ?d ''metadata_size'' = None \<or> (\<exists>k. dict_getInt ?d ''metadata_size'' = Inr k \<and> k \<le> MAX_METADATA_SIZE)"
    by (auto simp: handshake_tree_def dict_getInt_def value_int_def getValue_def as_value_def int_value_def MAX_METADATA_SIZE_def
        unat_ucast_u64)
  have len: "2 < length (EXTENDED # 0 # bytes_of arr)"
    using enc by (auto simp: bytes_of_def encode_tree_benc buffer_output_def)
  have q': "q' = (case handshake_metadata env ?d ?m (handshake_pex env ?m q) of Inl p' \<Rightarrow> p' | Inr p' \<Rightarrow> handshake_stats env ?d p')"
    using assms(5,6,8) len dec m
    by (simp add: handlePacket_peer_def message_types handleExtendedPacket_def handleExtendedHandshake_def Let_def)
  show ?thesis unfolding q' by (rule handshake_effect [OF vals size assms(5,7), unfolded Let_def])
qed

theorem ext_handshake_roundtrip_witness:
  "st_max_request_queue (stats (handlePacket_peer sample_peer_env (EXTENDED # 0 # bytes_of
     ''d1:md6:ut_pexi1e11:ut_metadatai2ee4:reqqi250e11:upload_onlyi1e1:v2:KTe'') sample_peer)) = 250"
proof -
  have enc: "ext_handshake ref_number ''KT'' 0 0 True True =
    Some ''d1:md6:ut_pexi1e11:ut_metadatai2ee4:reqqi250e11:upload_onlyi1e1:v2:KTe''" by code_simp
  have dec: "qt_decimal ref_number (conv_int sample_peer_env) (conv_long sample_peer_env)"
    using ref_dec.qt_decimal_axioms by (simp add: sample_peer_env_def)
  have len: "length ''d1:md6:ut_pexi1e11:ut_metadatai2ee4:reqqi250e11:upload_onlyi1e1:v2:KTe'' < 2 ^ 31"
    and "unat (0 :: u32) \<le> 104857600"
    by simp_all
  moreover have "\<not> killed sample_peer" "extensions sample_peer 0 = None" "extensions sample_peer UT_METADATA_ID = None"
    by (simp_all add: sample_peer_def)
  ultimately show ?thesis by (rule ext_handshake_roundtrip [OF dec enc _ _ _ _ _ refl, THEN conjunct1])
qed

text \<open>
  The size limit misses negative sizes: a handshake that announces a size of minus one is accepted
  and the metadata extension is told to prepare for almost four gigabytes.
\<close>

lemma negative_metadata_size_accepted:
  assumes "getValue mdict ''ut_metadata'' = Some (V_INT 2)" and "extensions p UT_METADATA_ID = None"
    and "getValue dict ''metadata_size'' = Some (V_INT (- 1))"
  shows "\<exists>p'. handshake_metadata env dict mdict p = Inr (call (NewUTMetaData 2 4294967295) p')"
proof -
  have "(4294967295 :: u32) = - 1" by simp
  then show ?thesis unfolding \<open>(4294967295 :: u32) = - 1\<close>
    using assms by (auto simp: handshake_metadata_def value_toInt_def dict_getInt_def value_int_def MAX_METADATA_SIZE_def Let_def)
qed

text \<open>
  \<^verbatim>\<open>averageDownloadSpeed\<close> compares the wrong way round: a peer was unchoked in the past, so the result is zero.
\<close>

lemma averageDownloadSpeed_zero:
  "st_time_unchoked (stats p) \<le> now \<Longrightarrow> averageDownloadSpeed now p = 0"
  by (simp add: averageDownloadSpeed_def)

end
