(* ===== verification/PeerSession.thy ===== *)
theory PeerSession
  imports Peer PacketReader "HOL-Library.Sublist"
begin

text \<open>
  Two peers put together: one side calls the senders of \<^verbatim>\<open>bt::Peer\<close> while its upload thread writes
  the queues of the packet socket to the device; the other side's packet reader cuts the bytes it
  receives into packets and hands them to \<^verbatim>\<open>Peer::handlePacket\<close>. The sender, the socket, the reader
  and the receiver are the models of \<^verbatim>\<open>Peer.thy\<close>, \<^verbatim>\<open>PacketSocket.thy\<close> and \<^verbatim>\<open>PacketReader.thy\<close>.
\<close>

section \<open>What the sending side does\<close>

datatype announcement = Bits bitset | AllChunks | NoChunks | OneChunk u32

fun announce :: "announcement \<Rightarrow> ('c, 's) peer \<Rightarrow> ('c, 's) peer" where
  "announce (Bits bs) p = sendBitSet bs p"
| "announce AllChunks p = sendHaveAll p"
| "announce NoChunks p = sendHaveNone p"
| "announce (OneChunk c) p = sendHave c p"

fun ann_packet :: "announcement \<Rightarrow> packet" where
  "ann_packet (Bits bs) = create_bitfield bs"
| "ann_packet AllChunks = create_type HAVE_ALL"
| "ann_packet NoChunks = create_type HAVE_NONE"
| "ann_packet (OneChunk c) = create_chunk c HAVE"

text \<open>The set of chunks an announcement leaves the sender with in the eyes of the receiver.\<close>

fun announced :: "nat \<Rightarrow> announcement \<Rightarrow> nat set \<Rightarrow> nat set" where
  "announced n (Bits bs) A = {i. bs_get bs i}"
| "announced n AllChunks A = {..<n}"
| "announced n NoChunks A = {}"
| "announced n (OneChunk c) A = insert (unat c) A"

fun ann_ok :: "nat \<Rightarrow> announcement \<Rightarrow> bool" where
  "ann_ok n (Bits bs) \<longleftrightarrow> shape bs \<and> num_bits bs = n"
| "ann_ok n (OneChunk c) \<longleftrightarrow> unat c < n"
| "ann_ok n _ \<longleftrightarrow> True"

text \<open>
  The calls of the sending side, in any order: announcing chunks, telling its interest, granting and
  taking away an upload slot, queueing a piece (the success case of \<^verbatim>\<open>sendChunk\<close>), and writes of the
  upload thread with a limit.
\<close>

datatype side_op = Announce announcement | Interest bool | Slot bool | Upload u32 u32 "byte list" | Flush nat

fun side_step :: "('c, 's) socket_env \<Rightarrow> side_op \<Rightarrow> ('c, 's) peer \<Rightarrow> ('c, 's) peer" where
  "side_step env (Announce a) p = announce a p"
| "side_step env (Interest on) p = (if on then sendInterested p else sendNotInterested p)"
| "side_step env (Slot on) p = (if on then sendUnchoke p else choke_peer p)"
| "side_step env (Upload i b d) p = addPacket_peer (create_piece i b d) p"
| "side_step env (Flush mx) p = p\<lparr>sock := snd (ps_write env mx (sock p))\<rparr>"

fun op_ok :: "nat \<Rightarrow> nat \<Rightarrow> side_op \<Rightarrow> bool" where
  "op_ok m n (Announce a) \<longleftrightarrow> ann_ok n a"
| "op_ok m n (Upload i b d) \<longleftrightarrow> length d + 9 \<le> m \<and> length d < 2 ^ 31"
| "op_ok m n _ \<longleftrightarrow> True"

fun announcements :: "side_op list \<Rightarrow> announcement list" where
  "announcements [] = []"
| "announcements (Announce a # ops) = a # announcements ops"
| "announcements (_ # ops) = announcements ops"

section \<open>Packets and their effect\<close>

definition is_ann :: "packet \<Rightarrow> bool" where
  "is_ann p \<longleftrightarrow> pk_type p \<in> {HAVE, BITFIELD, HAVE_ALL, HAVE_NONE}"

definition neutral :: "packet \<Rightarrow> bool" where
  "neutral p \<longleftrightarrow> (\<exists>pl. pk_data p = wire (pk_type p) pl \<and>
     (pk_type p \<in> {CHOKE, UNCHOKE, INTERESTED, NOT_INTERESTED} \<and> pl = [] \<or> pk_type p = PIECE \<and> 8 \<le> length pl \<or>
      pk_type p = REJECT_REQUEST \<and> length pl = 12))"

definition good :: "nat \<Rightarrow> nat \<Rightarrow> packet \<Rightarrow> bool" where
  "good m n p \<longleftrightarrow> length (pk_data p) \<le> m + 4 \<and> (neutral p \<or> (\<exists>a. ann_ok n a \<and> p = ann_packet a))"

definition bytes :: "packet list \<Rightarrow> byte list" where
  "bytes ps = concat (map pk_data ps)"

lemma bytes_simps [simp]:
  "bytes [] = []" "bytes (p # ps) = pk_data p @ bytes ps" "bytes (ps @ qs) = bytes ps @ bytes qs"
  by (simp_all add: bytes_def)

lemma pk_type_create [simp]:
  "pk_type (create_type t) = t" "pk_type (create_chunk c t) = t" "pk_type (create_bitfield bs) = BITFIELD"
  "pk_type (create_piece i b d) = PIECE" "pk_type (create_request r t) = t"
  by (simp_all add: create_type_def create_chunk_def create_bitfield_def create_piece_def create_request_def
      Packet_new_def Let_def)

lemma pk_written_create [simp]:
  "pk_written (create_type t) = 0" "pk_written (create_chunk c t) = 0" "pk_written (create_bitfield bs) = 0"
  "pk_written (create_piece i b d) = 0"
  by (simp_all add: create_type_def create_chunk_def create_bitfield_def create_piece_def Packet_new_def Let_def)

lemma NumBytes_small: "n < 2 ^ 32 \<Longrightarrow> NumBytesFromNumBits n < 2 ^ 31"
  by (simp add: NumBytesFromNumBits_def) linarith

lemma ann_wire:
  assumes "ann_ok n a"
  shows "pk_data (ann_packet a) = (case a of Bits bs \<Rightarrow> wire BITFIELD (bs_data bs) | AllChunks \<Rightarrow> wire HAVE_ALL []
    | NoChunks \<Rightarrow> wire HAVE_NONE [] | OneChunk c \<Rightarrow> wire HAVE (nat_to_be 4 (unat c)))"
  using assms NumBytes_small by (cases a) (auto simp: create_wire shape_def)

lemma ann_is_ann: "is_ann (ann_packet a)" "fresh (ann_packet a)" "pk_type (ann_packet a) \<noteq> PIECE" if "ann_ok n a"
proof -
  show "is_ann (ann_packet a)" and "pk_type (ann_packet a) \<noteq> PIECE"
    by (cases a; simp add: is_ann_def message_types)+
  show "fresh (ann_packet a)"
    using ann_wire [OF that] by (cases a) (simp_all add: fresh_def wire_def)
qed

lemma neutral_create:
  "t \<in> {CHOKE, UNCHOKE, INTERESTED, NOT_INTERESTED} \<Longrightarrow> neutral (create_type t)"
  "length d < 2 ^ 31 \<Longrightarrow> neutral (create_piece i b d)"
  "neutral (create_request r REJECT_REQUEST)"
  by (auto simp: neutral_def create_wire)

lemma neutral_not_ann: "neutral p \<Longrightarrow> \<not> is_ann p"
  by (auto simp: neutral_def is_ann_def message_types)

lemma good_wire:
  assumes "good m n p"
  shows "\<exists>t pl. pk_data p = wire t pl \<and> Suc (length pl) \<le> m"
proof -
  obtain t pl where "pk_data p = wire t pl"
    using assms ann_wire by (auto simp: good_def neutral_def split: announcement.splits)
  moreover then have "Suc (length pl) \<le> m" using assms by (simp add: good_def)
  ultimately show ?thesis by blast
qed

lemma frames_bytes:
  assumes "\<forall>p \<in> set S. good m n p" and "m < 2 ^ 32"
  shows "frames m (bytes S) = (map (\<lambda>p. drop 4 (pk_data p)) S, [], False)"
  using assms(1)
proof (induction S)
  case (Cons p S)
  obtain t pl where w: "pk_data p = wire t pl" "Suc (length pl) \<le> m" using good_wire Cons.prems by (metis list.set_intros(1))
  have "drop 4 (wire t pl) = t # pl" by (simp add: wire_def)
  with Cons w frames_wire [OF w(2) assms(2)] show ?case by simp
qed (simp add: frames_short)

text \<open>What the receiver knows of the sender: the set of its chunks.\<close>

definition known :: "('c, 's) peer \<Rightarrow> nat set" where
  "known p = {i. bs_get (pr_pieces p) i}"

lemma drop4_wire [simp]: "drop 4 (wire t pl) = t # pl"
  by (simp add: wire_def)

lemma have_payload: "ReadUint32 (HAVE # nat_to_be 4 (unat c)) (Suc 0) = c"
  using sliced_append [of "[HAVE]" "nat_to_be 4 (unat c)" "[]"] by (simp add: ReadUint32_def be32_inverse)

lemma dispatch:
  assumes "\<not> killed p"
  shows "handlePacket_peer env (CHOKE # pl) p = handleChoke env (Suc (length pl)) p"
    "handlePacket_peer env (UNCHOKE # pl) p = handleUnchoke env (Suc (length pl)) p"
    "handlePacket_peer env (INTERESTED # pl) p = handleInterested (Suc (length pl)) p"
    "handlePacket_peer env (NOT_INTERESTED # pl) p = handleNotInterested (Suc (length pl)) p"
    "handlePacket_peer env (HAVE # pl) p = handleHave env (HAVE # pl) (Suc (length pl)) p"
    "handlePacket_peer env (BITFIELD # pl) p = handleBitField env (BITFIELD # pl) (Suc (length pl)) p"
    "handlePacket_peer env (PIECE # pl) p = handlePiece (PIECE # pl) (Suc (length pl)) p"
    "handlePacket_peer env (REJECT_REQUEST # pl) p = handleReject (REJECT_REQUEST # pl) (Suc (length pl)) p"
    "handlePacket_peer env (HAVE_ALL # pl) p = handleHaveAll (Suc (length pl)) p"
    "handlePacket_peer env (HAVE_NONE # pl) p = handleHaveNone (Suc (length pl)) p"
  using assms by (simp_all add: handlePacket_peer_def message_types split del: if_split)

lemma call_fields [simp]: "killed (call e p) = killed p" "pr_pieces (call e p) = pr_pieces p"
  by (simp_all add: call_def)

lemma receive_neutral:
  assumes "neutral p" and "\<not> killed q"
  shows "\<not> killed (handlePacket_peer renv (drop 4 (pk_data p)) q) \<and>
    pr_pieces (handlePacket_peer renv (drop 4 (pk_data p)) q) = pr_pieces q"
proof -
  obtain pl where w: "drop 4 (pk_data p) = pk_type p # pl" and
    "pk_type p \<in> {CHOKE, UNCHOKE, INTERESTED, NOT_INTERESTED} \<and> pl = [] \<or> pk_type p = PIECE \<and> 8 \<le> length pl \<or>
      pk_type p = REJECT_REQUEST \<and> length pl = 12"
    using assms(1) by (auto simp: neutral_def)
  then consider "pk_type p = CHOKE" "pl = []" | "pk_type p = UNCHOKE" "pl = []" | "pk_type p = INTERESTED" "pl = []"
    | "pk_type p = NOT_INTERESTED" "pl = []" | "pk_type p = PIECE" "8 \<le> length pl" | "pk_type p = REJECT_REQUEST" "length pl = 12"
    by blast
  then show ?thesis
    using assms(2)
    by cases (simp_all add: w dispatch handleChoke_def handleUnchoke_def handleInterested_def handleNotInterested_def
        handlePiece_def handleReject_def Let_def)
qed

lemma receive_ann:
  assumes "ann_ok n a" and "\<not> killed q" and "shape (pr_pieces q)" and "num_bits (pr_pieces q) = n"
    and q': "q' = handlePacket_peer renv (drop 4 (pk_data (ann_packet a))) q"
  shows "\<not> killed q' \<and> shape (pr_pieces q') \<and> num_bits (pr_pieces q') = n \<and> known q' = announced n a (known q)"
proof (cases a)
  case (Bits bs)
  have "pr_pieces q' = bs_from_data (bs_data bs) n" "\<not> killed q'"
    using assms(1-4) Bits unfolding q' ann_wire [OF assms(1)]
    by (simp_all add: dispatch handleBitField_def Let_def shape_def)
  moreover have "shape (bs_from_data (bs_data bs) n)" "num_bits (bs_from_data (bs_data bs) n) = n"
    "bs_get (bs_from_data (bs_data bs) n) i = bs_get bs i" for i
    using assms(1) Bits by (simp_all add: bs_from_data_def updateNumOnBits_def shape_def bs_get_def)
  ultimately show ?thesis using Bits by (simp add: known_def)
next
  case (OneChunk c)
  have "pr_pieces q' = bs_set (unat c) True (pr_pieces q)" "\<not> killed q'"
    using assms(1-4) OneChunk unfolding q' ann_wire [OF assms(1)]
    by (simp_all add: dispatch handleHave_def have_payload Let_def)
  then show ?thesis
    using assms(1,3,4) OneChunk bs_set_bits(1) [OF assms(3)]
    by (auto simp: known_def bs_set_get)
next
  case AllChunks
  have "pr_pieces q' = bs_setAll True (pr_pieces q)" "\<not> killed q'"
    using assms(1-4) AllChunks unfolding q' ann_wire [OF assms(1)] by (simp_all add: dispatch handleHaveAll_def Let_def)
  then show ?thesis
    using assms(3,4) AllChunks by (auto simp: known_def bs_get_bits bs_setAll_bits)
next
  case NoChunks
  have "pr_pieces q' = bs_setAll False (pr_pieces q)" "\<not> killed q'"
    using assms(1-4) NoChunks unfolding q' ann_wire [OF assms(1)] by (simp_all add: dispatch handleHaveNone_def Let_def)
  then show ?thesis
    using assms(3,4) NoChunks by (auto simp: known_def bs_get_bits bs_setAll_bits)
qed

lemma receive_all:
  assumes "\<forall>p \<in> set S. good m n p" and "filter is_ann S = map ann_packet as" and "\<forall>a \<in> set as. ann_ok n a"
    and "\<not> killed q" and "shape (pr_pieces q)" and "num_bits (pr_pieces q) = n"
    and "q' = fold (handlePacket_peer renv) (map (\<lambda>p. drop 4 (pk_data p)) S) q"
  shows "\<not> killed q' \<and> known q' = fold (announced n) as (known q)"
  using assms
proof (induction S arbitrary: as q)
  case (Cons p S)
  let ?q = "handlePacket_peer renv (drop 4 (pk_data p)) q"
  show ?case
  proof (cases "is_ann p")
    case True
    then obtain a as' where as: "as = a # as'" "p = ann_packet a" "filter is_ann S = map ann_packet as'"
      using Cons.prems(2) by auto
    have "ann_ok n a" using Cons.prems(3) as(1) by simp
    from receive_ann [OF this Cons.prems(4-6) refl, of renv]
    show ?thesis using Cons.IH [of as' ?q] Cons.prems as by (simp del: ann_packet.simps)
  next
    case False
    then have n: "neutral p" using Cons.prems(1) ann_is_ann(1) by (auto simp: good_def)
    show ?thesis
      using Cons.IH [of as ?q] Cons.prems False receive_neutral [OF n Cons.prems(4), of renv] by (simp add: known_def)
  qed
qed simp

section \<open>The socket in between\<close>

lemma set_schedule: "set (schedule k cs ds) = set cs \<union> set ds"
  by (induction k cs ds rule: schedule.induct) auto

lemma filter_schedule: "\<forall>d \<in> set ds. \<not> P d \<Longrightarrow> filter P (schedule k cs ds) = filter P cs"
  by (induction k cs ds rule: schedule.induct) auto

lemma schedule_tl: "queues_ok ps \<Longrightarrow> plan (selectPacket env ps) = List.tl (schedule (ctrl_packets_sent ps) (control_packets ps) (data_packets ps))"
proof -
  assume ok: "queues_ok ps"
  let ?s = "schedule (ctrl_packets_sent ps) (control_packets ps) (data_packets ps)"
  have t: "\<forall>c \<in> set (control_packets ps). pk_type c \<noteq> PIECE" "\<forall>d \<in> set (data_packets ps). pk_type d = PIECE"
    using ok by (auto simp: queues_ok_def)
  show ?thesis
  proof (cases ?s)
    case Nil
    then show ?thesis by (simp add: selectPacket_cases [OF ok] plan_def)
  next
    case (Cons p rest)
    then show ?thesis
      using schedule_head(3) [OF Cons t] by (simp add: selectPacket_cases [OF ok] plan_def after_def)
  qed
qed

lemma selectPacket_queues: "queues_ok ps \<Longrightarrow> queues_ok (selectPacket env ps)"
  by (auto simp: queues_ok_def selectPacket_def run_preProcess_def take_control_def take_data_def Let_def
      dest: list.set_sel(2) split: option.splits prod.splits)

lemma write_loop_plan:
  assumes "queues_ok ps"
  shows "queues_ok (snd (write_loop env mx written ps)) \<and> suffix (plan (snd (write_loop env mx written ps))) (plan ps)"
  using assms
proof (induction env mx written ps rule: write_loop.induct)
  case (1 env mx written ps)
  show ?case
  proof (cases "curr_packet ps = None \<or> \<not> (written < mx \<or> mx = 0)")
    case True
    with 1(2) show ?thesis by (auto simp: write_loop.simps [of env mx written ps] split: option.splits)
  next
    case False
    then obtain p where Some: "curr_packet ps = Some p" and lim: "written < mx \<or> mx = 0" by auto
    obtain ret p' ps1 where s: "send_current env (if mx = 0 then 0 else mx - written) p ps = (ret, p', ps1)"
      by (metis prod_cases3)
    have t: "pk_type p' = pk_type p" 
      using s by (auto simp: send_current_def packet_send_def Let_def split: prod.splits if_splits)
    have f: "control_packets ps1 = control_packets ps" "data_packets ps1 = data_packets ps"
      "ctrl_packets_sent ps1 = ctrl_packets_sent ps" "curr_packet ps1 = Some p'"
      using s by (auto simp: send_current_def Let_def split: prod.splits)
    let ?ps2 = "account p' ret ps1"
    have q: "queues_ok ps1" "queues_ok ?ps2" "queues_ok (packet_done p' ?ps2)"
      using 1(2) f by (simp_all add: queues_ok_def packet_done_def)
    have pl: "plan ps1 = plan ps" "plan ?ps2 = plan ps" 
      by (simp_all add: plan_def f Some after_def t)
    have nxt: "plan (selectPacket env (packet_done p' ?ps2)) = List.tl (plan ps)"
      unfolding schedule_tl [OF q(3)] by (simp add: plan_def packet_done_def f Some after_def t)
    consider "ret \<le> 0" | "0 < ret" "\<not> isSent p'" | "0 < ret" "isSent p'" by linarith
    then show ?thesis
    proof cases
      case 3
      let ?next = "selectPacket env (packet_done p' ?ps2)"
      have "suffix (List.tl (plan ps)) (plan ps)" by (metis suffix_tl)
      moreover have "queues_ok ?next" 
        using selectPacket_queues [OF q(3)] .
      ultimately show ?thesis
        using 1(1) [OF Some _ refl s [symmetric] refl _ refl _ \<open>queues_ok ?next\<close>] lim 3 nxt Some s
        by (auto simp: write_loop.simps [of env mx written ps] intro: suffix_order.trans)
    qed (use q pl lim Some s in \<open>simp_all add: write_loop.simps [of env mx written ps]\<close>)
  qed
qed

section \<open>The invariant of a session\<close>

text \<open>
  The bytes on the wire and the rest of the current packet are those of whole packets \<open>S\<close>; the
  announcements among \<open>S\<close> and the queued control messages are \<open>as\<close>, in this order.
\<close>

definition session_inv :: "nat \<Rightarrow> nat \<Rightarrow> announcement list \<Rightarrow> ('c, 's) packet_socket \<Rightarrow> bool" where
  "session_inv m n as ps \<longleftrightarrow> sock_inv ps \<and> (\<forall>p \<in> set (control_packets ps) \<union> set (data_packets ps). good m n p) \<and>
     (\<exists>S. ps_wire ps @ rest_of_current ps = bytes S \<and> (\<forall>p \<in> set S. good m n p) \<and>
       filter is_ann (S @ control_packets ps) = map ann_packet as)"

lemma session_new: "session_inv m n [] (PacketSocket_new c s)"
  using sock_new_inv [of c s] by (auto simp: session_inv_def PacketSocket_new_def rest_of_current_def intro: exI [of _ "[]"])

lemma session_add:
  assumes "session_inv m n as ps" and "good m n p" and "fresh p" and "\<not> is_ann p"
  shows "session_inv m n as (addPacket_ps p ps)"
  using assms add_inv [of ps p] by (auto simp: session_inv_def addPacket_ps_def rest_of_current_def)

lemma session_announce:
  assumes "session_inv m n as ps" and "ann_ok n a" and "length (pk_data (ann_packet a)) \<le> m + 4"
  shows "session_inv m n (as @ [a]) (addPacket_ps (ann_packet a) ps)"
proof -
  note a = ann_is_ann [OF assms(2)]
  have "good m n (ann_packet a)" using assms(2,3) by (auto simp: good_def)
  with assms(1) a add_inv [of ps "ann_packet a"] show ?thesis
    by (auto simp: session_inv_def addPacket_ps_def rest_of_current_def)
qed

lemma session_clear:
  assumes "session_inv m n as ps" and "13 \<le> m"
  shows "session_inv m n as (clearPieces rej ps)"
proof -
  let ?ps = "clearPieces rej ps" and ?o = "ps\<lparr>data_packets := []\<rparr>"
  have inv: "sock_inv ps" using assms(1) by (simp add: session_inv_def)
  then have q: "queues_ok ?o" and r: "\<forall>p \<in> set (data_packets ps). fresh p \<and> pk_type p = PIECE"
    and p: "pending_upload_data_bytes ?o = of_nat (unsent_piece_bytes ?o + piece_bytes (data_packets ps))"
    by (auto simp: sock_inv_def queues_ok_def unsent_piece_bytes_def add.commute)
  note e = erase_loop_spec [OF q r p, of "\<lambda>p. pk_type p = PIECE" rej, folded clearPieces_def]
  have rej: "good m n x \<and> \<not> is_ann x" if rj: "makeRejectOfPiece y = Some x" for x y
  proof -
    obtain req where "x = create_request req REJECT_REQUEST" using rj by (auto simp: makeRejectOfPiece_def split: if_splits)
    then show ?thesis using neutral_create(3) neutral_not_ann assms(2) by (auto simp: good_def create_wire)
  qed
  define xs where "xs = (if rej then concat (map (\<lambda>p. case makeRejectOfPiece p of Some r \<Rightarrow> [r] | None \<Rightarrow> [])
      (filter (\<lambda>p. pk_type p = PIECE) (data_packets ps))) else [])"
  have xs: "\<forall>x \<in> set xs. good m n x \<and> \<not> is_ann x" using rej by (auto simp: xs_def split: option.splits)
  have c: "control_packets ?ps = control_packets ps @ xs" using e by (simp add: xs_def)
  have "sock_inv ?ps" using erase_inv(1) [OF inv] by (simp add: clearPieces_def)
  moreover have "rest_of_current ?ps = rest_of_current ps" "ps_wire ?ps = ps_wire ps" "set (data_packets ?ps) \<subseteq> set (data_packets ps)"
    using e by (auto simp: rest_of_current_def)
  moreover have "filter is_ann xs = []" using xs by simp
  ultimately show ?thesis using assms(1) c xs by (auto simp: session_inv_def)
qed

lemma stream_bytes: "pre_process env = (\<lambda>d c. (d, c)) \<Longrightarrow> stream env c ps = bytes ps"
  by (induction ps arbitrary: c) simp_all

lemma write_plan: "queues_ok ps \<Longrightarrow> suffix (plan (snd (ps_write env mx ps))) (plan ps)"
proof -
  assume q: "queues_ok ps"
  show ?thesis
  proof (cases "curr_packet ps = None")
    case True
    then have "plan (selectPacket env ps) = List.tl (plan ps)" unfolding schedule_tl [OF q] by (simp add: plan_def)
    then have "suffix (plan (selectPacket env ps)) (plan ps)" by (simp add: suffix_tl)
    with write_loop_plan [OF selectPacket_queues [OF q, of env], of env mx 0] True show ?thesis
      by (auto simp: ps_write_def intro: suffix_order.trans)
  next
    case False
    with write_loop_plan [OF q, of env mx 0] show ?thesis by (auto simp: ps_write_def)
  qed
qed

lemma session_write:
  assumes "session_inv m n as ps" and "sock_env_ok env" and "pre_process env = (\<lambda>d c. (d, c))"
  shows "session_inv m n as (snd (ps_write env mx ps))"
proof -
  obtain k ps' where w: "ps_write env mx ps = (k, ps')" by fastforce
  obtain S where inv: "sock_inv ps" and good: "\<forall>p \<in> set (control_packets ps) \<union> set (data_packets ps). good m n p"
    and S: "ps_wire ps @ rest_of_current ps = bytes S" "\<forall>p \<in> set S. good m n p"
      "filter is_ann (S @ control_packets ps) = map ann_packet as"
    using assms(1) by (auto simp: session_inv_def)
  note wi = write_inv [OF inv assms(2) w]
  have plan: "set (plan q) = set (control_packets q) \<union> set (data_packets q)"
    "filter is_ann (plan q) = filter is_ann (control_packets q)" if "sock_inv q" for q :: "('a, 'b) packet_socket"
    using that by (simp_all add: plan_def set_schedule filter_schedule sock_inv_def queues_ok_def is_ann_def message_types)
  have pend: "pending_stream env q = rest_of_current q @ bytes (plan q)" for q
    by (simp add: pending_stream_def rest_of_current_def stream_bytes [OF assms(3)])
  obtain K where K: "plan ps = K @ plan ps'"
    using write_plan [of ps env mx] inv w by (auto simp: sock_inv_def suffix_def)
  have "ps_wire ps' @ rest_of_current ps' = bytes (S @ K)"
    using wi(2) S(1) unfolding pend K by (simp flip: append_assoc)
  moreover have "\<forall>p \<in> set (S @ K). good m n p" using S(2) good plan(1) [OF inv] K by auto
  moreover have "filter is_ann ((S @ K) @ control_packets ps') = map ann_packet as"
    using S(3) plan(2) [OF inv] plan(2) [OF wi(1)] K by simp
  moreover have "\<forall>p \<in> set (control_packets ps') \<union> set (data_packets ps'). good m n p"
    using good plan(1) [OF inv] plan(1) [OF wi(1)] K by auto
  ultimately show ?thesis using wi(1) unfolding session_inv_def w snd_conv by blast
qed

lemma session_step:
  assumes "session_inv m n as (sock p)" and "sock_env_ok env" and "pre_process env = (\<lambda>d c. (d, c))"
    and "13 \<le> m" and "NumBytesFromNumBits n < m" and "op_ok m n op" and "requests p = []"
  shows "session_inv m n (as @ announcements [op]) (sock (side_step env op p)) \<and> requests (side_step env op p) = []"
proof -
  have simple: "session_inv m n as (addPacket_ps (create_type t) ps)"
    if "session_inv m n as ps" "t \<in> {CHOKE, UNCHOKE, INTERESTED, NOT_INTERESTED}" for t ps
    using that session_add [of m n as ps "create_type t"] neutral_create(1) [of t] neutral_not_ann assms(4) fresh_create(1)
    by (auto simp: good_def create_wire)
  show ?thesis
  proof (cases op)
    case (Announce a)
    have "length (pk_data (ann_packet a)) \<le> m + 4"
      using ann_wire [of n a] assms(4,5,6) Announce by (cases a) (auto simp: shape_def)
    with session_announce [OF assms(1), of a] assms(6,7) Announce show ?thesis
      by (cases a) (auto simp: addPacket_peer_def sendBitSet_def sendHaveAll_def sendHaveNone_def sendHave_def)
  next
    case (Upload i b d)
    have "fresh (create_piece i b d)" "neutral (create_piece i b d)" "good m n (create_piece i b d)"
      using neutral_create(2) [of d i b] assms(6) Upload by (auto simp: fresh_def good_def create_wire wire_def)
    with session_add [OF assms(1)] neutral_not_ann assms(7) Upload show ?thesis by (simp add: addPacket_peer_def)
  next
    case (Flush mx)
    with session_write [OF assms(1-3)] assms(7) show ?thesis by simp
  next
    case (Interest on)
    with simple [OF assms(1)] assms(1,7) show ?thesis
      by (auto simp: sendInterested_def sendNotInterested_def addPacket_peer_def)
  next
    case (Slot on)
    with simple [OF assms(1)] session_clear [OF simple [OF assms(1), of CHOKE] assms(4)] assms(1,7) show ?thesis
      by (auto simp: sendUnchoke_def choke_peer_def sendChoke_def clearAllRequests_def addPacket_peer_def Let_def)
  qed
qed

lemma session_run:
  assumes "sock_env_ok env" and "pre_process env = (\<lambda>d c. (d, c))" and "13 \<le> m" and "NumBytesFromNumBits n < m"
    and "session_inv m n as (sock p)" and "requests p = []" and "\<forall>op \<in> set ops. op_ok m n op"
  shows "session_inv m n (as @ announcements ops) (sock (fold (side_step env) ops p))"
  using assms(5-7)
proof (induction ops arbitrary: as p)
  case (Cons op ops)
  have split: "announcements (op # ops) = announcements [op] @ announcements ops" by (cases op) auto
  show ?case
    using session_step [OF Cons.prems(1) assms(1-4) _ Cons.prems(2), of op] Cons.IH [of "as @ announcements [op]"] Cons.prems(3)
    unfolding split by simp
qed simp

lemma reader_limit_enough:
  assumes "num_chunks < 2 ^ 31"
  shows "NumBytesFromNumBits (unat num_chunks) < unat (reader_limit num_chunks)" and "13 \<le> unat (reader_limit num_chunks)"
proof -
  let ?n = "unat num_chunks" and ?b = "num_chunks div 8 + 1 + (if num_chunks mod 8 = 0 then 0 else 1)"
  have n: "?n < 2147483648" using assms by (simp add: word_less_nat_alt)
  have d: "unat (num_chunks div 8) = ?n div 8" "unat (num_chunks mod 8) = ?n mod 8"
    by (simp_all add: unat_div unat_mod)
  have b: "unat ?b = NumBytesFromNumBits ?n + 1"
    using n d by (simp add: NumBytesFromNumBits_def unat_word_ariths unat_eq_0 [symmetric] del: unat_eq_0)
  have B: "NumBytesFromNumBits ?n + 1 < 300000000" using n by (simp add: NumBytesFromNumBits_def) linarith
  define k where "k = (if 9 + of_nat MAX_PIECE_LEN < ?b then ?b else 9 + of_nat MAX_PIECE_LEN)"
  have k: "NumBytesFromNumBits ?n + 1 \<le> unat k" "16393 \<le> unat k" "unat k < 400000000"
    using B b by (auto simp: k_def MAX_PIECE_LEN_def word_less_nat_alt split: if_splits)
  have "unat (reader_limit num_chunks) = 10 * unat k"
    using k(3) by (simp add: reader_limit_def Let_def unat_word_ariths flip: k_def)
  then show "NumBytesFromNumBits ?n < unat (reader_limit num_chunks)" and "13 \<le> unat (reader_limit num_chunks)"
    using k by simp_all
qed

section \<open>Properties\<close>

text \<open>C3. Both peers agree on the chunks of the sender: after any sequence of announcements, interest
  and choke messages, queued and withdrawn pieces and partial writes, once the queues of the sender
  are empty and its bytes have arrived, cut up in whatever way and polled whenever, the receiver has
  not dropped the sender and its record of the sender's chunks is what the announcements said in
  their order. The limit the receiver sets for packets never refuses one of them.\<close>

theorem peers_agree_on_chunks:
  assumes "sock_env_ok env" and "pre_process env = (\<lambda>d c. (d, c))"
    and "num_chunks < 2 ^ 31" and "\<forall>op \<in> set ops. op_ok (unat (reader_limit num_chunks)) (unat num_chunks) op"
    and "sock p = PacketSocket_new c s" and "requests p = []"
    and "p' = fold (side_step env) ops p" and "\<not> bytesReadyToWrite (sock p')"
    and "received_bytes es = ps_wire (sock p')"
    and "\<not> killed q" and "shape (pr_pieces q)" and "num_bits (pr_pieces q) = unat num_chunks"
  shows "\<exists>packets r q'. reader_run (es @ [reader_event.Poll]) (PacketReader_new (unat (reader_limit num_chunks))) = Some (packets, r) \<and>
    q' = fold (handlePacket_peer renv) packets q \<and> \<not> killed q' \<and>
    known q' = fold (announced (unat num_chunks)) (announcements ops) (known q)"
proof -
  let ?m = "unat (reader_limit num_chunks)" and ?n = "unat num_chunks"
  have m: "?m < 2 ^ 32" using unat_lt2p [of "reader_limit num_chunks"] by simp
  note lim = reader_limit_enough [OF assms(3)]
  have "session_inv ?m ?n (announcements ops) (sock p')"
    using session_run [OF assms(1,2) lim(2,1) _ assms(6,4), of "[]"] session_new [of ?m ?n c s] assms(5,7) by simp
  then obtain S where S: "ps_wire (sock p') = bytes S" "\<forall>p \<in> set S. good ?m ?n p"
    "filter is_ann S = map ann_packet (announcements ops)"
    using assms(8) by (auto simp: session_inv_def bytesReadyToWrite_def rest_of_current_def)
  let ?fs = "map (\<lambda>p. drop 4 (pk_data p)) S"
  obtain r where run: "reader_run (es @ [reader_event.Poll]) (PacketReader_new ?m) = Some (?fs, r)"
    using reader_run_poll [OF m, of es ?fs "[]"] frames_bytes [OF S(2) m] S(1) assms(9) by auto
  have "\<forall>a \<in> set (announcements ops). ann_ok ?n a"
    using assms(4) by (induction ops rule: announcements.induct) auto
  from receive_all [OF S(2,3) this assms(10-12) refl, of renv] run show ?thesis by blast
qed

definition sample_ops :: "side_op list" where
  "sample_ops = [Announce (OneChunk 3), Upload 0 0 [1, 2, 3], Flush 7, Announce NoChunks, Slot False, Flush 0,
     Announce (OneChunk 8), Flush 0, Flush 0, Flush 0]"

definition sample_wire :: "byte list" where
  "sample_wire = ps_wire (sock (fold (side_step plain_env) sample_ops sample_peer))"

theorem peers_agree_on_chunks_witness:
  "\<exists>packets r q'. reader_run [Data (take 5 sample_wire), Data (drop 5 sample_wire), reader_event.Poll]
      (PacketReader_new (unat (reader_limit 10))) = Some (packets, r) \<and>
    q' = fold (handlePacket_peer sample_peer_env) packets sample_peer \<and> \<not> killed q' \<and> known q' = {8}"
proof -
  let ?p = "fold (side_step plain_env) sample_ops sample_peer"
  have ready: "\<not> bytesReadyToWrite (sock ?p)" unfolding sample_ops_def by code_simp
  have lim: "12 \<le> unat (reader_limit 10)" using reader_limit_enough(2) [of 10] by simp
  have ok: "\<forall>op \<in> set sample_ops. op_ok (unat (reader_limit 10)) (unat (10 :: u32)) op"
    using lim by (simp add: sample_ops_def)
  have pre: "pre_process plain_env = (\<lambda>d c. (d, c))" by (simp add: plain_env_def)
  have p: "sock sample_peer = PacketSocket_new () 9" "requests sample_peer = []" "\<not> killed sample_peer"
    "shape (pr_pieces sample_peer)" "num_bits (pr_pieces sample_peer) = unat (10 :: u32)"
    using bs_new_bits(1) [of 10] by (simp_all add: sample_peer_def)
  have es: "received_bytes [Data (take 5 sample_wire), Data (drop 5 sample_wire)] = ps_wire (sock ?p)"
    by (simp add: sample_wire_def)
  have a: "fold (announced (unat (10 :: u32))) (announcements sample_ops) A = {8}" for A by (simp add: sample_ops_def)
  have "(10 :: u32) < 2 ^ 31" by simp
  from peers_agree_on_chunks [OF plain_env_ok pre this ok p(1,2) refl ready es p(3-5), of sample_peer_env]
  show ?thesis unfolding a by simp
qed

end
