(* ===== verification/Metadata.thy ===== *)
theory Metadata
  imports Peer
begin

text \<open>
  The metadata extension: \<^verbatim>\<open>bt::UTMetaData\<close> (\<^verbatim>\<open>src/src/peer/utmetadata.cpp\<close>), which answers requests
  for pieces of the torrent's metadata and collects the pieces of a magnet download, and
  \<^verbatim>\<open>bt::MetadataDownload\<close> (\<^verbatim>\<open>src/src/magnet/metadatadownload.cpp\<close>), which assembles them. The messages
  handed to \<^verbatim>\<open>Peer::sendExtProtMsg\<close> are recorded in \<open>um_sent\<close> and the signals \<^verbatim>\<open>metadataDownloaded\<close> in
  \<open>um_emitted\<close>. \<open>tor\<close> is the metadata of the torrent when it is loaded.
\<close>

section \<open>State and operations\<close>

definition METADATA_PIECE_SIZE :: nat where "METADATA_PIECE_SIZE = 16 * 1024"

record metadata_download =
  mdl_pieces :: bitset
  mdl_metadata :: "byte list"
  mdl_total_size :: u32

record ut_metadata =
  um_id :: u32
  um_reported :: u32
  um_download :: "metadata_download option"
  um_sent :: "(byte \<times> byte list) list"
  um_emitted :: "byte list list"

definition UTMetaData_new :: "u32 \<Rightarrow> ut_metadata" where
  "UTMetaData_new i = \<lparr>um_id = i, um_reported = 0, um_download = None, um_sent = [], um_emitted = []\<rparr>"

definition changeID :: "u32 \<Rightarrow> ut_metadata \<Rightarrow> ut_metadata" where
  "changeID i um = um\<lparr>um_id := i\<rparr>"

text \<open>\<^verbatim>\<open>sendExtProtMsg\<close> takes the number as a byte.\<close>

definition sendPacket_ext :: "byte list \<Rightarrow> ut_metadata \<Rightarrow> ut_metadata" where
  "sendPacket_ext dat um = um\<lparr>um_sent := um_sent um @ [(ucast (um_id um), dat)]\<rparr>"

definition encoded :: "bencoder \<Rightarrow> byte list" where
  "encoded out = (case out of None \<Rightarrow> [] | Some s \<Rightarrow> bytes_of s)"

definition download_msg :: "(nat \<Rightarrow> string) \<Rightarrow> u32 \<Rightarrow> byte list" where
  "download_msg number piece = encoded
     (let e = beginDict buffer_output;
          e = write_key number ''msg_type'' (write_u32 number 0) e;
          e = write_key number ''piece'' (write_u32 number piece) e
      in end_enc e)"

definition md_download :: "(nat \<Rightarrow> string) \<Rightarrow> u32 \<Rightarrow> ut_metadata \<Rightarrow> ut_metadata" where
  "md_download number piece um = sendPacket_ext (download_msg number piece) um"

definition downloadNext :: "(nat \<Rightarrow> string) \<Rightarrow> metadata_download \<Rightarrow> ut_metadata \<Rightarrow> ut_metadata" where
  "downloadNext number dl um = fold (\<lambda>i um. if \<not> bs_get (mdl_pieces dl) i then md_download number (of_nat i) um else um)
     [0..<num_bits (mdl_pieces dl)] um"

text \<open>\<^verbatim>\<open>QByteArray::resize\<close> leaves new bytes unspecified: \<open>fill\<close> is what they happen to be.\<close>

definition resize_bytes :: "(nat \<Rightarrow> byte) \<Rightarrow> nat \<Rightarrow> byte list \<Rightarrow> byte list" where
  "resize_bytes fill n xs = take n xs @ map fill [length xs..<n]"

definition num_metadata_pieces :: "nat \<Rightarrow> nat" where
  "num_metadata_pieces n = n div METADATA_PIECE_SIZE + (if n mod METADATA_PIECE_SIZE > 0 then 1 else 0)"

definition MetadataDownload_new :: "(nat \<Rightarrow> byte) \<Rightarrow> u32 \<Rightarrow> metadata_download" where
  "MetadataDownload_new fill sz = \<lparr>mdl_pieces = bs_new (num_metadata_pieces (unat sz)),
     mdl_metadata = resize_bytes fill (unat sz) [], mdl_total_size = sz\<rparr>"

text \<open>The constructor asks for the first piece at once.\<close>

definition setReportedMetadataSize :: "(nat \<Rightarrow> byte) \<Rightarrow> (nat \<Rightarrow> string) \<Rightarrow> byte list option \<Rightarrow> u32 \<Rightarrow> ut_metadata \<Rightarrow> ut_metadata" where
  "setReportedMetadataSize fill number tor sz um =
     (let um1 = um\<lparr>um_reported := sz\<rparr> in
      if 0 < sz \<and> tor = None \<and> um_download um1 = None
      then (md_download number 0 um1)\<lparr>um_download := Some (MetadataDownload_new fill sz)\<rparr>
      else um1)"

text \<open>
  \<^verbatim>\<open>MetadataDownload::data\<close>: whether everything is there, and the extension and the download
  afterwards. The product and the sum are in 32 bits.
\<close>

definition md_data :: "(nat \<Rightarrow> byte) \<Rightarrow> (nat \<Rightarrow> string) \<Rightarrow> u32 \<Rightarrow> byte list \<Rightarrow> metadata_download \<Rightarrow> ut_metadata \<Rightarrow>
    bool \<times> metadata_download \<times> ut_metadata" where
  "md_data fill number piece piece_data dl um =
     (if num_bits (mdl_pieces dl) \<le> unat piece then (False, dl, downloadNext number dl um)
      else let sz = (if unat piece = num_bits (mdl_pieces dl) - 1 \<and> unat (mdl_total_size dl) mod METADATA_PIECE_SIZE > 0
                     then unat (mdl_total_size dl) mod METADATA_PIECE_SIZE else METADATA_PIECE_SIZE) in
        if sz \<noteq> length piece_data then (False, dl, downloadNext number dl um)
        else let off = piece * of_nat METADATA_PIECE_SIZE;
                 m = (if length (mdl_metadata dl) < unat (off + of_nat sz)
                      then resize_bytes fill (unat (off + of_nat sz)) (mdl_metadata dl) else mdl_metadata dl);
                 dl' = dl\<lparr>mdl_metadata := splice_at (unat off) piece_data m,
                          mdl_pieces := bs_set (unat piece) True (mdl_pieces dl)\<rparr>;
                 um' = (if \<not> bs_allOn (mdl_pieces dl') then downloadNext number dl' um else um)
             in (bs_allOn (mdl_pieces dl'), dl', um'))"

definition um_data :: "(nat \<Rightarrow> byte) \<Rightarrow> (nat \<Rightarrow> string) \<Rightarrow> bdict \<Rightarrow> byte list \<Rightarrow> ut_metadata \<Rightarrow> ut_metadata" where
  "um_data fill number dict piece_data um = (case um_download um of
     None \<Rightarrow> um
   | Some dl \<Rightarrow> (case dict_getInt dict ''piece'' of
       Inl e \<Rightarrow> um
     | Inr piece \<Rightarrow>
         let (fin, dl', um1) = md_data fill number (of_int piece) piece_data dl um;
             um2 = um1\<lparr>um_download := Some dl'\<rparr>
         in if fin then um2\<lparr>um_emitted := um_emitted um2 @ [mdl_metadata dl']\<rparr> else um2))"

definition um_reject :: "(nat \<Rightarrow> string) \<Rightarrow> bdict \<Rightarrow> ut_metadata \<Rightarrow> ut_metadata" where
  "um_reject number dict um = (case um_download um of
     None \<Rightarrow> um
   | Some dl \<Rightarrow> (case dict_getInt dict ''piece'' of Inl e \<Rightarrow> um | Inr piece \<Rightarrow> downloadNext number dl um))"

definition um_sendReject :: "(nat \<Rightarrow> string) \<Rightarrow> int \<Rightarrow> ut_metadata \<Rightarrow> ut_metadata" where
  "um_sendReject number piece um = sendPacket_ext (encoded
     (let e = beginDict buffer_output;
          e = write_key number ''msg_type'' (write_u32 number 2) e;
          e = write_key number ''piece'' (write_u32 number (of_int piece)) e
      in end_enc e)) um"

definition data_msg :: "(nat \<Rightarrow> string) \<Rightarrow> int \<Rightarrow> int \<Rightarrow> byte list \<Rightarrow> byte list" where
  "data_msg number piece total_size dat = encoded
     (let e = beginDict buffer_output;
          e = write_key number ''msg_type'' (write_u32 number 1) e;
          e = write_key number ''piece'' (write_u32 number (of_int piece)) e;
          e = write_key number ''total_size'' (write_u32 number (of_int total_size)) e
      in end_enc e) @ dat"

definition um_sendData :: "(nat \<Rightarrow> string) \<Rightarrow> int \<Rightarrow> int \<Rightarrow> byte list \<Rightarrow> ut_metadata \<Rightarrow> ut_metadata" where
  "um_sendData number piece total_size dat um = sendPacket_ext (data_msg number piece total_size dat) um"

text \<open>The metadata of a torrent is far below two gigabytes: the offsets are exact.\<close>

definition um_request :: "(nat \<Rightarrow> string) \<Rightarrow> byte list option \<Rightarrow> bdict \<Rightarrow> ut_metadata \<Rightarrow> ut_metadata" where
  "um_request number tor dict um = (case dict_getInt dict ''piece'' of
     Inl e \<Rightarrow> um
   | Inr piece \<Rightarrow> (case tor of
       None \<Rightarrow> um_sendReject number piece um
     | Some md \<Rightarrow>
         let num_pieces = int (num_metadata_pieces (length md)) in
         if piece < 0 \<or> num_pieces \<le> piece then um_sendReject number piece um
         else let off = nat piece * METADATA_PIECE_SIZE;
                  last_len = (if length md mod METADATA_PIECE_SIZE = 0 then METADATA_PIECE_SIZE else length md mod METADATA_PIECE_SIZE);
                  len = (if piece = num_pieces - 1 then last_len else METADATA_PIECE_SIZE)
              in um_sendData number piece (int (length md)) (sliced md off len) um))"

text \<open>An exception of the decoder or of a missing key is swallowed.\<close>

definition handlePacket_um :: "(nat \<Rightarrow> byte) \<Rightarrow> (nat \<Rightarrow> string) \<Rightarrow> peer_env \<Rightarrow> byte list option \<Rightarrow> byte list \<Rightarrow>
    ut_metadata \<Rightarrow> ut_metadata" where
  "handlePacket_um fill number env tor packet um = (if length packet \<le> 2 then um
     else case decodeDict (conv_int env) (conv_long env) (string_of (drop 2 packet)) 0 of
         Inl e \<Rightarrow> um
       | Inr (None, _) \<Rightarrow> um
       | Inr (Some dict, pos) \<Rightarrow> (case dict_getInt dict ''msg_type'' of
           Inl e \<Rightarrow> um
         | Inr type \<Rightarrow>
             if type = 0 then um_request number tor dict um
             else if type = 1 then um_data fill number dict (drop (2 + pos) packet) um
             else if type = 2 then um_reject number dict um
             else um))"

section \<open>The messages\<close>

definition msg_tree :: "u32 \<Rightarrow> u32 \<Rightarrow> u32 option \<Rightarrow> btree" where
  "msg_tree type piece tot = TDict ([(''msg_type'', TInt (ucast type)), (''piece'', TInt (ucast piece))] @
     (case tot of None \<Rightarrow> [] | Some n \<Rightarrow> [(''total_size'', TInt (ucast n))]))"

lemma messages_tree:
  "download_msg number piece = bytes_of (benc number (msg_tree 0 piece None))"
  "data_msg number p n dat = bytes_of (benc number (msg_tree 1 (of_int p) (Some (of_int n)))) @ dat"
  by (simp_all add: download_msg_def data_msg_def msg_tree_def encoded_def write_key_def write_u32_tree encode_tree_benc
      encoder_defs out_write_def buffer_output_def bytes_of_def unat_ucast_u64 Let_def write_u32_def)

lemma string_of_append: "string_of (bytes_of s @ d) = s @ string_of d"
  using string_of_bytes [of s] by (simp add: string_of_def)

lemma decode_msg:
  assumes "qt_decimal number (conv_int env) (conv_long env)"
    and "length (benc number (msg_tree type piece tot)) + length dat < 2 ^ 31" and "unat type < 3" and "unat piece < 2 ^ 31"
    and packet: "packet = EXTENDED # i # bytes_of (benc number (msg_tree type piece tot)) @ dat"
  shows "\<exists>dict. decodeDict (conv_int env) (conv_long env) (string_of (drop 2 packet)) 0 =
        Inr (Some dict, length packet - 2 - length dat) \<and>
      dict_getInt dict ''msg_type'' = Inr (int (unat type)) \<and> dict_getInt dict ''piece'' = Inr (int (unat piece)) \<and>
      2 < length packet \<and> drop (2 + (length packet - 2 - length dat)) packet = dat"
proof -
  let ?out = "benc number (msg_tree type piece tot)"
  have e: "encode_tree number (msg_tree type piece tot) buffer_output = Some ?out"
    by (simp add: encode_tree_benc buffer_output_def)
  have f: "ints_fit (msg_tree type piece tot)"
    using unat_u32 [of type] unat_u32 [of piece] unat_u32
    by (cases tot) (auto simp: msg_tree_def unat_ucast_u64 intro: less_trans [OF unat_u32])
  have l: "length ([] @ ?out @ string_of dat) < 2 ^ 31" using assms(2) by (simp add: string_of_def)
  have len: "length packet = 2 + length ?out + length dat" by (simp add: packet bytes_of_def)
  have o: "0 < length ?out" by (simp add: msg_tree_def)
  have dec: "decode (conv_int env) (conv_long env) (string_of (drop 2 packet)) 0 =
      Inr (Some (node_of number (msg_tree type piece tot)), length ?out)"
    using qt_decimal.decode_encode_tree [OF assms(1) e f l] by (simp add: packet string_of_append)
  obtain dict where d: "node_of number (msg_tree type piece tot) = BDictNode dict ?out"
    "dict_getInt dict ''msg_type'' = Inr (int (unat type))" "dict_getInt dict ''piece'' = Inr (int (unat piece))"
    using assms(3,4) by (cases tot) (auto simp: msg_tree_def dict_getInt_def value_int_def getValue_def as_value_def
        int_value_def unat_ucast_u64)
  have "drop (2 + length ?out) packet = dat" by (simp add: packet bytes_of_def)
  then show ?thesis using d o len by (simp add: decodeDict_def dec as_dict_def)
qed

text \<open>Qt formats a 32-bit number with at most ten digits.\<close>

definition short_numbers :: "(nat \<Rightarrow> string) \<Rightarrow> bool" where
  "short_numbers number \<longleftrightarrow> (\<forall>n < 2 ^ 32. length (number n) \<le> 10)"

lemma short_msg:
  assumes "short_numbers number"
  shows "length (benc number (msg_tree type piece tot)) \<le> 200"
proof -
  have n: "length (number n) \<le> 10" if "n < 4294967296" for n using assms that by (simp add: short_numbers_def)
  have w: "length (number (unat (w :: u32))) \<le> 10" for w using n [of "unat w"] unat_u32 [of w] by simp
  show ?thesis
    using w [of type] w [of piece] n [of "Suc (Suc (Suc (Suc (Suc (Suc (Suc (Suc 0)))))))"]
      n [of "Suc (Suc (Suc (Suc (Suc 0))))"] n [of "Suc (Suc (Suc (Suc (Suc (Suc (Suc (Suc (Suc (Suc 0)))))))))"] w [of "the tot"]
    by (cases tot) (simp_all add: msg_tree_def unat_ucast_u64)
qed

definition piece_of :: "byte list \<Rightarrow> nat \<Rightarrow> byte list" where
  "piece_of md i = sliced md (i * METADATA_PIECE_SIZE) METADATA_PIECE_SIZE"

lemma piece_count:
  assumes "i < num_metadata_pieces n"
  shows "i * METADATA_PIECE_SIZE < n" and "i = num_metadata_pieces n - 1 \<longleftrightarrow> n \<le> Suc i * METADATA_PIECE_SIZE"
    and "i = num_metadata_pieces n - 1 \<Longrightarrow> n - i * METADATA_PIECE_SIZE =
      (if n mod METADATA_PIECE_SIZE = 0 then METADATA_PIECE_SIZE else n mod METADATA_PIECE_SIZE)"
proof -
  define a b where ab: "a = n div 16384" "b = n mod 16384"
  then have n: "n = a * 16384 + b" "b < 16384" by simp_all
  have k: "num_metadata_pieces n = (if b = 0 then a else a + 1)"
    by (simp add: num_metadata_pieces_def METADATA_PIECE_SIZE_def ab)
  have ik: "i < (if b = 0 then a else a + 1)" using assms k by simp
  then show "i * METADATA_PIECE_SIZE < n" using n by (simp add: METADATA_PIECE_SIZE_def split: if_splits)
  show "i = num_metadata_pieces n - 1 \<longleftrightarrow> n \<le> Suc i * METADATA_PIECE_SIZE"
    using ik n unfolding k by (auto simp: METADATA_PIECE_SIZE_def split: if_splits)
  show "n - i * METADATA_PIECE_SIZE = (if n mod METADATA_PIECE_SIZE = 0 then METADATA_PIECE_SIZE else n mod METADATA_PIECE_SIZE)"
    if "i = num_metadata_pieces n - 1"
  proof -
    have "n mod METADATA_PIECE_SIZE = b" by (simp add: METADATA_PIECE_SIZE_def ab)
    moreover have "n - i * 16384 = (if b = 0 then 16384 else b)" using ik n(1) that unfolding k by (cases a) (auto split: if_splits)
    ultimately show ?thesis by (simp add: METADATA_PIECE_SIZE_def)
  qed
qed

lemma piece_index:
  assumes "k < n"
  shows "k div METADATA_PIECE_SIZE < num_metadata_pieces n"
proof (cases "n mod METADATA_PIECE_SIZE = 0")
  case True
  then have "n = num_metadata_pieces n * METADATA_PIECE_SIZE" by (auto simp: num_metadata_pieces_def)
  then show ?thesis using assms by (metis less_mult_imp_div_less)
next
  case False
  then show ?thesis using div_le_mono [of k n METADATA_PIECE_SIZE] assms by (simp add: num_metadata_pieces_def)
qed

lemma length_piece_of:
  "i < num_metadata_pieces (length md) \<Longrightarrow> length (piece_of md i) =
     (if i = num_metadata_pieces (length md) - 1 then
        (if length md mod METADATA_PIECE_SIZE = 0 then METADATA_PIECE_SIZE else length md mod METADATA_PIECE_SIZE)
      else METADATA_PIECE_SIZE)"
  using piece_count [of i "length md"] by (auto simp: piece_of_def sliced_def)

section \<open>The serving side\<close>

lemma serve:
  assumes "qt_decimal number (conv_int env) (conv_long env)" and "short_numbers number"
    and "i < num_metadata_pieces (length md)" and "length md < 2 ^ 31"
  shows "handlePacket_um fill number env (Some md) (EXTENDED # j # download_msg number (of_nat i)) um =
    sendPacket_ext (data_msg number (int i) (int (length md)) (piece_of md i)) um"
proof -
  let ?p = "EXTENDED # j # download_msg number (of_nat i)"
  have i: "i < 2147483648" "unat (of_nat i :: u32) = i"
    using piece_count(1) [OF assms(3)] assms(4) by (simp_all add: METADATA_PIECE_SIZE_def unat_of_nat)
  from decode_msg [OF assms(1), of 0 "of_nat i" None "[]" ?p j] short_msg [OF assms(2), of 0 "of_nat i" None] i
  obtain dict where d: "decodeDict (conv_int env) (conv_long env) (string_of (drop 2 ?p)) 0 = Inr (Some dict, length ?p - 2)"
    "dict_getInt dict ''msg_type'' = Inr 0" "dict_getInt dict ''piece'' = Inr (int i)" "2 < length ?p"
    by (auto simp: messages_tree)
  have "um_request number (Some md) dict um = sendPacket_ext (data_msg number (int i) (int (length md)) (piece_of md i)) um"
  proof -
    have "int i = int (num_metadata_pieces (length md)) - 1 \<longleftrightarrow> i = num_metadata_pieces (length md) - 1" using assms(3) by auto
    moreover have "piece_of md i = sliced md (i * METADATA_PIECE_SIZE) (length (piece_of md i))"
      by (simp add: piece_of_def sliced_def min_def)
    ultimately show ?thesis
      using assms(3) d(3) length_piece_of [OF assms(3)] by (simp add: um_request_def um_sendData_def Let_def)
  qed
  then show ?thesis using d by (simp add: handlePacket_um_def)
qed

section \<open>The collecting side\<close>

text \<open>The pieces \<open>D\<close> of \<open>md\<close> are there.\<close>

definition collecting :: "byte list \<Rightarrow> nat set \<Rightarrow> metadata_download \<Rightarrow> bool" where
  "collecting md D dl \<longleftrightarrow> shape (mdl_pieces dl) \<and> counted (mdl_pieces dl) \<and>
     num_bits (mdl_pieces dl) = num_metadata_pieces (length md) \<and> mdl_total_size dl = of_nat (length md) \<and>
     length (mdl_metadata dl) = length md \<and>
     (\<forall>i. bs_get (mdl_pieces dl) i \<longleftrightarrow> i \<in> D \<and> i < num_metadata_pieces (length md)) \<and>
     (\<forall>k < length md. k div METADATA_PIECE_SIZE \<in> D \<longrightarrow> mdl_metadata dl ! k = md ! k)"

lemma collecting_new:
  assumes "length md < 2 ^ 31"
  shows "collecting md {} (MetadataDownload_new fill (of_nat (length md)))"
proof -
  have u: "unat (of_nat (length md) :: u32) = length md" using assms by (simp add: unat_of_nat)
  have "num_metadata_pieces (length md) < 2 ^ 32"
    using assms by (simp add: num_metadata_pieces_def METADATA_PIECE_SIZE_def) linarith
  from bs_new_bits [OF this] show ?thesis
    using u by (auto simp: collecting_def MetadataDownload_new_def resize_bytes_def bs_get_bits)
qed

lemma downloadNext_sent:
  "downloadNext number dl um = um\<lparr>um_sent := um_sent um @ map (\<lambda>i. (ucast (um_id um), download_msg number (of_nat i)))
     (filter (\<lambda>i. \<not> bs_get (mdl_pieces dl) i) [0..<num_bits (mdl_pieces dl)])\<rparr>"
proof -
  have "fold (\<lambda>i um. if \<not> bs_get (mdl_pieces dl) i then md_download number (of_nat i) um else um) is um =
      um\<lparr>um_sent := um_sent um @ map (\<lambda>i. (ucast (um_id um), download_msg number (of_nat i)))
        (filter (\<lambda>i. \<not> bs_get (mdl_pieces dl) i) is)\<rparr>" for "is"
    by (induction "is" arbitrary: um) (simp_all add: md_download_def sendPacket_ext_def)
  then show ?thesis by (simp add: downloadNext_def)
qed

text \<open>A piece of the right number and size is stored, inside the buffer.\<close>

lemma md_data_stored:
  assumes "unat piece < num_bits (mdl_pieces dl)"
    and k: "(if unat piece = num_bits (mdl_pieces dl) - 1 \<and> unat (mdl_total_size dl) mod METADATA_PIECE_SIZE > 0
      then unat (mdl_total_size dl) mod METADATA_PIECE_SIZE else METADATA_PIECE_SIZE) = k"
    and "length dat = k" and "unat (piece * of_nat METADATA_PIECE_SIZE) = off"
    and "unat (piece * of_nat METADATA_PIECE_SIZE + of_nat k) = off + k" and "off + k \<le> length (mdl_metadata dl)"
    and dl': "dl' = dl\<lparr>mdl_metadata := splice_at off dat (mdl_metadata dl), mdl_pieces := bs_set (unat piece) True (mdl_pieces dl)\<rparr>"
  shows "md_data fill number piece dat dl um =
    (bs_allOn (mdl_pieces dl'), dl', if bs_allOn (mdl_pieces dl') then um else downloadNext number dl' um)"
proof -
  have "\<not> num_bits (mdl_pieces dl) \<le> unat piece" using assms(1) by simp
  then show ?thesis unfolding md_data_def Let_def k using assms(3-6) by (simp add: dl')
qed

lemma store_piece:
  assumes c: "collecting md D dl" and i: "i < num_metadata_pieces (length md)" and small: "length md < 2 ^ 31"
  shows "\<exists>dl'. collecting md (insert i D) dl' \<and> md_data fill number (of_nat i) (piece_of md i) dl um =
    (let fin = ({..<num_metadata_pieces (length md)} \<subseteq> insert i D) in (fin, dl', if fin then um else downloadNext number dl' um))"
proof -
  let ?S = METADATA_PIECE_SIZE and ?n = "num_metadata_pieces (length md)" and ?p = "piece_of md i"
  note f = c [unfolded collecting_def]
  have u: "unat (of_nat i :: u32) = i" "unat (of_nat (length md) :: u32) = length md"
    using small piece_count(1) [OF i] by (simp_all add: unat_of_nat METADATA_PIECE_SIZE_def)
  have sz: "(if i = ?n - 1 \<and> length md mod ?S > 0 then length md mod ?S else ?S) = length ?p"
    unfolding length_piece_of [OF i] by auto
  have fit: "i * ?S + length ?p \<le> length md"
    using piece_count(1) [OF i] by (simp add: piece_of_def sliced_def)
  have off: "unat (of_nat i * of_nat ?S :: u32) = i * ?S" "unat (of_nat i * of_nat ?S + of_nat (length ?p) :: u32) = i * ?S + length ?p"
    using fit small by (simp_all add: METADATA_PIECE_SIZE_def unat_of_nat unat_word_ariths)
  let ?dl = "dl\<lparr>mdl_metadata := splice_at (i * ?S) ?p (mdl_metadata dl), mdl_pieces := bs_set i True (mdl_pieces dl)\<rparr>"
  have bits: "shape (mdl_pieces ?dl)" "counted (mdl_pieces ?dl)"
    "bs_get (mdl_pieces ?dl) j \<longleftrightarrow> j \<in> insert i D \<and> j < ?n" for j
    using f i bs_set_bits [of "mdl_pieces dl" i True] bs_set_get [of "mdl_pieces dl" i True j] by auto
  have nth: "splice_at (i * ?S) ?p (mdl_metadata dl) ! k = md ! k" if "k < length md" "k div ?S \<in> insert i D" for k
  proof (cases "i * ?S \<le> k \<and> k < i * ?S + length ?p")
    case True
    then have "k - i * ?S < ?S" unfolding piece_of_def sliced_def length_take by linarith
    then show ?thesis using True f fit that(1) by (simp add: nth_splice_at piece_of_def sliced_def)
  next
    case False
    then have "k div ?S \<noteq> i"
      using that(1) by (auto simp: piece_of_def sliced_def METADATA_PIECE_SIZE_def)
    then show ?thesis using False f fit that by (auto simp: nth_splice_at)
  qed
  have coll: "collecting md (insert i D) ?dl"
    using f bits nth fit by (simp add: collecting_def)
  have "unat (mdl_total_size dl) = length md" "num_bits (mdl_pieces dl) = ?n" using f u by simp_all
  then have B: "(if unat (of_nat i :: u32) = num_bits (mdl_pieces dl) - 1 \<and> unat (mdl_total_size dl) mod ?S > 0
      then unat (mdl_total_size dl) mod ?S else ?S) = length ?p"
    using sz unfolding u by (simp only:)
  have "bs_allOn (mdl_pieces ?dl) \<longleftrightarrow> {..<?n} \<subseteq> insert i D"
    using bs_allOn_correct [OF bits(1,2)] bits(3) f by auto
  then have "md_data fill number (of_nat i) ?p dl um =
    (let fin = ({..<?n} \<subseteq> insert i D) in (fin, ?dl, if fin then um else downloadNext number ?dl um))"
    using md_data_stored [OF _ B refl off _ refl, of fill number um] f fit i u by (simp add: Let_def)
  with coll show ?thesis by blast
qed

lemma collect:
  assumes "qt_decimal number (conv_int env) (conv_long env)" and "short_numbers number" and "length md < 2 ^ 31"
    and "um_download um = Some dl" and "collecting md D dl" and "i < num_metadata_pieces (length md)"
    and um': "um' = handlePacket_um fill number env None (EXTENDED # j # data_msg number (int i) (int (length md)) (piece_of md i)) um"
  shows "\<exists>dl'. um_download um' = Some dl' \<and> collecting md (insert i D) dl' \<and> um_id um' = um_id um \<and>
    (if {..<num_metadata_pieces (length md)} \<subseteq> insert i D
     then um_emitted um' = um_emitted um @ [md] \<and> um_sent um' = um_sent um
     else um_emitted um' = um_emitted um \<and> um_sent um' = um_sent um @ map (\<lambda>k. (ucast (um_id um), download_msg number (of_nat k)))
       (filter (\<lambda>k. k \<notin> insert i D) [0..<num_metadata_pieces (length md)]))"
proof -
  let ?n = "num_metadata_pieces (length md)"
  let ?p = "EXTENDED # j # data_msg number (int i) (int (length md)) (piece_of md i)"
  have i: "i < 2147483648" "unat (of_nat i :: u32) = i"
    using piece_count(1) [OF assms(6)] assms(3) by (simp_all add: METADATA_PIECE_SIZE_def unat_of_nat)
  have "length (piece_of md i) \<le> 16384" by (simp add: piece_of_def sliced_def METADATA_PIECE_SIZE_def)
  with decode_msg [OF assms(1), of 1 "of_nat i" "Some (of_nat (length md))" "piece_of md i" ?p j]
    short_msg [OF assms(2), of 1 "of_nat i" "Some (of_nat (length md))"] i
  obtain dict where d: "decodeDict (conv_int env) (conv_long env) (string_of (drop 2 ?p)) 0 =
        Inr (Some dict, length ?p - 2 - length (piece_of md i))"
    "dict_getInt dict ''msg_type'' = Inr 1" "dict_getInt dict ''piece'' = Inr (int i)" "2 < length ?p"
    "drop (2 + (length ?p - 2 - length (piece_of md i))) ?p = piece_of md i"
    by (auto simp: messages_tree)
  from store_piece [OF assms(5,6,3), of fill number um] obtain dl' where dl': "collecting md (insert i D) dl'"
    "md_data fill number (of_nat i) (piece_of md i) dl um =
      (let fin = ({..<?n} \<subseteq> insert i D) in (fin, dl', if fin then um else downloadNext number dl' um))" by blast
  have "um' = um_data fill number dict (piece_of md i) um"
    unfolding um' handlePacket_um_def using d by simp
  also have "\<dots> = (let fin = ({..<?n} \<subseteq> insert i D); um2 = (if fin then um else downloadNext number dl' um)\<lparr>um_download := Some dl'\<rparr>
      in if fin then um2\<lparr>um_emitted := um_emitted um2 @ [mdl_metadata dl']\<rparr> else um2)"
    using d(3) assms(4) by (simp add: um_data_def dl'(2) Let_def)
  finally have eq: "um' = \<dots>" .
  have whole: "mdl_metadata dl' = md" if "{..<?n} \<subseteq> insert i D"
  proof (rule nth_equalityI)
    show "length (mdl_metadata dl') = length md" using dl'(1) by (simp add: collecting_def)
    fix k assume "k < length (mdl_metadata dl')"
    then have k: "k < length md" using dl'(1) by (simp add: collecting_def)
    then have "k div METADATA_PIECE_SIZE < ?n" by (rule piece_index)
    then show "mdl_metadata dl' ! k = md ! k" using dl'(1) k that by (auto simp: collecting_def)
  qed
  have filt: "filter (\<lambda>k. \<not> bs_get (mdl_pieces dl') k) [0..<num_bits (mdl_pieces dl')] = filter (\<lambda>k. k \<notin> insert i D) [0..<?n]"
    using dl'(1) by (auto simp: collecting_def intro: filter_cong)
  show ?thesis
    unfolding eq using dl'(1) whole by (auto simp: Let_def downloadNext_sent filt)
qed

section \<open>An exchange\<close>

text \<open>
  Handing over recorded messages, in order; and a round trip: what the collecting side sent goes to
  a peer that has the metadata \<open>md\<close>, and the answers come back.
\<close>

definition deliver :: "(nat \<Rightarrow> byte) \<Rightarrow> (nat \<Rightarrow> string) \<Rightarrow> peer_env \<Rightarrow> byte list option \<Rightarrow> (byte \<times> byte list) list \<Rightarrow>
    ut_metadata \<Rightarrow> ut_metadata" where
  "deliver fill number env tor msgs um = fold (\<lambda>(i, d). handlePacket_um fill number env tor (EXTENDED # i # d)) msgs um"

definition round_trip :: "(nat \<Rightarrow> byte) \<Rightarrow> (nat \<Rightarrow> string) \<Rightarrow> peer_env \<Rightarrow> byte list \<Rightarrow> ut_metadata \<times> ut_metadata \<Rightarrow>
    ut_metadata \<times> ut_metadata" where
  "round_trip fill number env md = (\<lambda>(c, s).
     let s' = deliver fill number env (Some md) (um_sent c) (s\<lparr>um_sent := []\<rparr>);
         c' = deliver fill number env None (um_sent s') (c\<lparr>um_sent := []\<rparr>)
     in (c', s'))"

lemma serve_all:
  assumes "qt_decimal number (conv_int env) (conv_long env)" and "short_numbers number" and "length md < 2 ^ 31"
    and "\<forall>i \<in> set is. i < num_metadata_pieces (length md)"
  shows "deliver fill number env (Some md) (map (\<lambda>i. (j, download_msg number (of_nat i))) is) s =
    s\<lparr>um_sent := um_sent s @ map (\<lambda>i. (ucast (um_id s), data_msg number (int i) (int (length md)) (piece_of md i))) is\<rparr>"
  using assms(4)
  by (induction "is" arbitrary: s) (simp_all add: deliver_def serve [OF assms(1,2) _ assms(3)] sendPacket_ext_def)

lemma collect_all:
  assumes "qt_decimal number (conv_int env) (conv_long env)" and "short_numbers number" and "length md < 2 ^ 31"
    and "um_download um = Some dl" and "collecting md {..<k} dl" and "k < num_metadata_pieces (length md)"
  shows "um_emitted (deliver fill number env None (map (\<lambda>i. (j, data_msg number (int i) (int (length md)) (piece_of md i)))
    [k..<num_metadata_pieces (length md)]) um) = um_emitted um @ [md]"
  using assms(4-6)
proof (induction "num_metadata_pieces (length md) - k" arbitrary: k um dl)
  case (Suc x)
  let ?n = "num_metadata_pieces (length md)"
  let ?um = "handlePacket_um fill number env None (EXTENDED # j # data_msg number (int k) (int (length md)) (piece_of md k)) um"
  from collect [OF assms(1-3) Suc.prems refl, of fill j] obtain dl' where
    c: "um_download ?um = Some dl'" "collecting md (insert k {..<k}) dl'" and
    e: "if {..<?n} \<subseteq> insert k {..<k} then um_emitted ?um = um_emitted um @ [md] else um_emitted ?um = um_emitted um"
    by (auto split: if_splits)
  have k: "insert k {..<k} = {..<Suc k}" by auto
  have upt: "[k..<?n] = k # [Suc k..<?n]" using Suc.prems(3) by (simp add: upt_rec)
  show ?case
  proof (cases "Suc k < ?n")
    case True
    then have "\<not> {..<?n} \<subseteq> {..<Suc k}" by auto
    then have same: "um_emitted ?um = um_emitted um" using e unfolding k by simp
    have "x = ?n - Suc k" using Suc.hyps(2) by simp
    from Suc.hyps(1) [OF this c(1) c(2) [unfolded k] True] same show ?thesis
      unfolding upt by (simp add: deliver_def)
  next
    case False
    then have "{..<?n} \<subseteq> {..<Suc k}" "[Suc k..<?n] = []" using Suc.prems(3) by auto
    then show ?thesis using e unfolding upt k by (simp add: deliver_def)
  qed
qed simp

section \<open>Hostile peers\<close>

definition mdl_ok :: "u32 \<Rightarrow> metadata_download \<Rightarrow> bool" where
  "mdl_ok sz dl \<longleftrightarrow> mdl_total_size dl = sz \<and> length (mdl_metadata dl) = unat sz \<and>
     num_bits (mdl_pieces dl) = num_metadata_pieces (unat sz) \<and> shape (mdl_pieces dl)"

lemma md_data_ok:
  assumes ok: "mdl_ok sz dl" and d: "md_data fill number piece dat dl um = (fin, dl', um')"
  shows "mdl_ok sz dl' \<and> um_emitted um' = um_emitted um \<and> um_download um' = um_download um"
proof (cases "unat piece < num_metadata_pieces (unat sz)")
  case True
  let ?i = "unat piece" and ?n = "unat sz"
  define k where "k = (if ?i = num_metadata_pieces ?n - 1 \<and> 0 < ?n mod METADATA_PIECE_SIZE then ?n mod METADATA_PIECE_SIZE else METADATA_PIECE_SIZE)"
  have fit: "?i * METADATA_PIECE_SIZE + k \<le> ?n"
    using piece_count [OF True] by (cases "?i = num_metadata_pieces ?n - 1") (auto simp: k_def split: if_splits)
  have off: "unat (piece * of_nat METADATA_PIECE_SIZE) = ?i * METADATA_PIECE_SIZE"
    "unat (piece * of_nat METADATA_PIECE_SIZE + of_nat k) = ?i * METADATA_PIECE_SIZE + k"
    using fit unat_u32 [of sz] by (simp_all add: METADATA_PIECE_SIZE_def unat_of_nat unat_word_ariths)
  have K: "(if ?i = num_bits (mdl_pieces dl) - 1 \<and> unat (mdl_total_size dl) mod METADATA_PIECE_SIZE > 0
      then unat (mdl_total_size dl) mod METADATA_PIECE_SIZE else METADATA_PIECE_SIZE) = k"
    using ok by (simp add: k_def mdl_ok_def)
  show ?thesis
  proof (cases "length dat = k")
    case len: True
    have "dl' = dl\<lparr>mdl_metadata := splice_at (?i * METADATA_PIECE_SIZE) dat (mdl_metadata dl), mdl_pieces := bs_set ?i True (mdl_pieces dl)\<rparr> \<and>
      (um' = um \<or> um' = downloadNext number dl' um)"
      using d md_data_stored [OF _ K len off _ refl, of fill number um] ok fit True
      by (auto simp: mdl_ok_def split: if_splits)
    then show ?thesis
      using ok fit len bs_set_bits(1) [of "mdl_pieces dl"] by (auto simp: mdl_ok_def downloadNext_sent)
  next
    case False
    then have "k \<noteq> length dat" by simp
    then have "(fin, dl', um') = (False, dl, downloadNext number dl um)"
      using d True ok unfolding md_data_def Let_def K by (auto simp: mdl_ok_def)
    then show ?thesis using ok by (simp add: downloadNext_sent)
  qed
next
  case False
  then show ?thesis using d ok by (auto simp: md_data_def mdl_ok_def downloadNext_sent)
qed

definition um_ok :: "u32 \<Rightarrow> ut_metadata \<Rightarrow> bool" where
  "um_ok sz um \<longleftrightarrow> (\<exists>dl. um_download um = Some dl \<and> mdl_ok sz dl) \<and> (\<forall>e \<in> set (um_emitted um). length e = unat sz)"

lemma um_ok_simps [simp]: "um_ok sz (um\<lparr>um_sent := x\<rparr>) = um_ok sz um"
  by (simp add: um_ok_def)

lemma handlePacket_um_ok:
  assumes "um_ok sz um"
  shows "um_ok sz (handlePacket_um fill number env tor packet um)"
proof -
  have send: "um_ok sz (sendPacket_ext d um)" for d using assms by (simp add: sendPacket_ext_def)
  have "um_ok sz (um_request number tor dict um)" for dict
    using assms send by (simp add: um_request_def um_sendReject_def um_sendData_def Let_def split: sum.splits option.splits)
  moreover have "um_ok sz (um_reject number dict um)" for dict
    using assms by (simp add: um_reject_def downloadNext_sent split: sum.splits option.splits)
  moreover have "um_ok sz (um_data fill number dict d um)" for dict d
  proof -
    obtain dl where dl: "um_download um = Some dl" "mdl_ok sz dl" using assms by (auto simp: um_ok_def)
    from md_data_ok [OF dl(2)] show ?thesis
      using assms dl(1) by (auto simp: um_data_def um_ok_def mdl_ok_def Let_def split: sum.splits prod.splits)
  qed
  ultimately show ?thesis
    using assms by (auto simp: handlePacket_um_def split: sum.splits option.splits prod.splits)
qed

section \<open>Properties\<close>

text \<open>The second round trip: all pieces but the first are asked for, served and collected.\<close>

lemma second_round:
  assumes "qt_decimal number (conv_int env) (conv_long env)" and "short_numbers number" and "length md < 2 ^ 31"
    and "um_download c1 = Some dl" and "collecting md {0} dl" and "1 < num_metadata_pieces (length md)"
    and "um_sent c1 = map (\<lambda>k. (i, download_msg number (of_nat k))) [1..<num_metadata_pieces (length md)]" and "um_emitted c1 = []"
  shows "um_emitted (fst (round_trip fill number env md (c1, s1))) = [md]"
proof -
  let ?n = "num_metadata_pieces (length md)"
  let ?dat = "\<lambda>k. (ucast (um_id s1) :: byte, data_msg number (int k) (int (length md)) (piece_of md k))"
  have "deliver fill number env (Some md) (um_sent c1) (s1\<lparr>um_sent := []\<rparr>) = s1\<lparr>um_sent := map ?dat [1..<?n]\<rparr>"
    unfolding assms(7) using serve_all [OF assms(1-3), of "[1..<?n]" fill i "s1\<lparr>um_sent := []\<rparr>"] by simp
  moreover have "{0} = {..<1 :: nat}" by auto
  then have "um_emitted (deliver fill number env None (map ?dat [1..<?n]) (c1\<lparr>um_sent := []\<rparr>)) = [md]"
    using collect_all [OF assms(1-3), of "c1\<lparr>um_sent := []\<rparr>" dl 1 fill "ucast (um_id s1)"] assms(4-6,8) by simp
  ultimately show ?thesis by (simp add: round_trip_def Let_def)
qed

text \<open>C12. The metadata of a torrent gets across: a peer that was told the right size asks for the first
  piece, after the answer for all missing ones, and after two round trips with a peer that has the
  metadata, messages encoded and decoded, it has reported exactly that metadata, once. Sizes up to the
  limit of the handshake are covered; the bytes the buffer held at the start do not matter.\<close>

theorem metadata_transfer:
  assumes "qt_decimal number (conv_int env) (conv_long env)" and "short_numbers number"
    and "0 < length md" and "length md \<le> 104857600"
    and "c = setReportedMetadataSize fill number None (of_nat (length md)) (UTMetaData_new i)"
  shows "um_emitted (fst (round_trip fill number env md (round_trip fill number env md (c, s)))) = [md]"
proof -
  let ?n = "num_metadata_pieces (length md)" and ?i = "ucast i :: byte" and ?j = "ucast (um_id s) :: byte"
  let ?req = "\<lambda>k. (?i, download_msg number (of_nat k))"
  let ?dat = "\<lambda>k. (?j, data_msg number (int k) (int (length md)) (piece_of md k))"
  have small: "length md < 2 ^ 31" using assms(4) by simp
  have n: "0 < ?n" using piece_index [OF assms(3)] by simp
  have "(0 :: u32) < of_nat (length md)" using assms(3) small by (simp add: word_less_nat_alt unat_of_nat)
  then have c: "um_sent c = map ?req [0]" "um_id c = i" "um_emitted c = []"
    "um_download c = Some (MetadataDownload_new fill (of_nat (length md)))"
    by (simp_all add: assms(5) setReportedMetadataSize_def UTMetaData_new_def md_download_def sendPacket_ext_def)
  define s1 where "s1 = s\<lparr>um_sent := map ?dat [0]\<rparr>"
  have s1: "deliver fill number env (Some md) (um_sent c) (s\<lparr>um_sent := []\<rparr>) = s1"
    unfolding c(1) using serve_all [OF assms(1,2) small, of "[0]" fill ?i "s\<lparr>um_sent := []\<rparr>"] n by (simp add: s1_def)
  define c1 where "c1 = deliver fill number env None (um_sent s1) (c\<lparr>um_sent := []\<rparr>)"
  have c1: "c1 = handlePacket_um fill number env None (EXTENDED # ?j # data_msg number (int 0) (int (length md)) (piece_of md 0))
      (c\<lparr>um_sent := []\<rparr>)"
    by (simp add: c1_def s1_def deliver_def)
  have r1: "round_trip fill number env md (c, s) = (c1, s1)"
    unfolding round_trip_def by (simp add: Let_def s1 c1_def)
  from collect [OF assms(1,2) small, of "c\<lparr>um_sent := []\<rparr>" _ "{}" 0 c1 fill ?j] collecting_new [OF small] c n c1
  obtain dl where dl: "um_download c1 = Some dl" "collecting md {0} dl" and
    r: "if {..<?n} \<subseteq> {0} then um_emitted c1 = [md] \<and> um_sent c1 = []
      else um_emitted c1 = [] \<and> um_sent c1 = map ?req (filter (\<lambda>k. k \<notin> {0}) [0..<?n])" by auto
  show ?thesis
  proof (cases "?n = 1")
    case True
    then have sub: "{..<?n} \<subseteq> {0}" by auto
    have "um_emitted c1 = [md]" "um_sent c1 = []" using r unfolding if_P [OF sub] by auto
    then show ?thesis by (simp add: r1) (simp add: round_trip_def deliver_def Let_def)
  next
    case False
    then have n1: "1 < ?n" using n by simp
    then have sub: "\<not> {..<?n} \<subseteq> {0}" by auto
    have "filter (\<lambda>k. k \<notin> {0}) [0..<?n] = [1..<?n]"
    proof -
      have "[0..<?n] = 0 # [1..<?n]" using n by (simp add: upt_conv_Cons)
      then show ?thesis by (auto intro: filter_True)
    qed
    then have sent: "um_sent c1 = map ?req [1..<?n]" "um_emitted c1 = []" using r unfolding if_not_P [OF sub] by auto
    show ?thesis unfolding r1 by (rule second_round [OF assms(1,2) small dl n1 sent])
  qed
qed

text \<open>C38. Whatever packets a peer sends to a download that was started with some announced size, of any
  number, order and content: the buffer keeps that size, so no piece is stored outside of it, the set
  of pieces keeps its size, and whatever is reported as metadata has the announced size.\<close>

theorem metadata_download_bounds:
  assumes "0 < sz" and "um = setReportedMetadataSize fill number None sz (UTMetaData_new i)"
    and "um' = fold (handlePacket_um fill number env None) packets um"
  shows "(\<exists>dl. um_download um' = Some dl \<and> length (mdl_metadata dl) = unat sz \<and>
      num_bits (mdl_pieces dl) = num_metadata_pieces (unat sz)) \<and>
    (\<forall>e \<in> set (um_emitted um'). length e = unat sz)"
proof -
  have n: "num_metadata_pieces (unat sz) < 2 ^ 32"
    using unat_u32 [of sz] by (simp add: num_metadata_pieces_def METADATA_PIECE_SIZE_def) linarith
  have "um_ok sz um"
    using assms(1,2) bs_new_bits(1) [OF n]
    by (simp add: um_ok_def mdl_ok_def setReportedMetadataSize_def UTMetaData_new_def md_download_def sendPacket_ext_def
        MetadataDownload_new_def resize_bytes_def)
  then have "um_ok sz um'"
    unfolding assms(3) by (induction packets arbitrary: um) (simp_all add: handlePacket_um_ok)
  then show ?thesis by (auto simp: um_ok_def mdl_ok_def)
qed

theorem metadata_download_bounds_witness:
  "\<exists>dl. um_download (fold (handlePacket_um (\<lambda>_. 0) ref_number sample_peer_env None)
      [EXTENDED # 2 # bytes_of ''d8:msg_typei1e5:piecei7eeabc'', [], [EXTENDED, 2, 100]]
      (setReportedMetadataSize (\<lambda>_. 0) ref_number None 20000 (UTMetaData_new 3))) = Some dl \<and>
    length (mdl_metadata dl) = 20000"
  using metadata_download_bounds [OF _ refl refl, of 20000 "\<lambda>_. 0" ref_number sample_peer_env
      "[EXTENDED # 2 # bytes_of ''d8:msg_typei1e5:piecei7eeabc'', [], [EXTENDED, 2, 100]]" 3]
  by auto

lemma ref_number_length: "n < 10 ^ Suc k \<Longrightarrow> length (ref_number n) \<le> Suc k"
proof (induction k arbitrary: n)
  case (Suc k)
  then have "n div 10 < 10 ^ Suc k" by (simp add: less_mult_imp_div_less mult.commute)
  from Suc.IH [OF this] show ?case by (subst ref_number.simps) simp
qed (simp add: ref_number.simps)

lemma ref_number_short: "short_numbers ref_number"
  unfolding short_numbers_def using ref_number_length [of _ 9] by (auto intro: less_le_trans)

theorem metadata_transfer_witness:
  "um_emitted (fst (round_trip (\<lambda>_. 0) ref_number sample_peer_env [1, 2, 3] (round_trip (\<lambda>_. 0) ref_number sample_peer_env [1, 2, 3]
     (setReportedMetadataSize (\<lambda>_. 0) ref_number None 3 (UTMetaData_new 2), UTMetaData_new 2)))) = [[1, 2, 3]]"
proof -
  have dec: "qt_decimal ref_number (conv_int sample_peer_env) (conv_long sample_peer_env)"
    using ref_dec.qt_decimal_axioms by (simp add: sample_peer_env_def)
  have "(3 :: u32) = of_nat (length [1 :: byte, 2, 3])" by simp
  then show ?thesis
    using metadata_transfer [OF dec ref_number_short _ _ refl, of "[1, 2, 3]" "\<lambda>_. 0" 2 "UTMetaData_new 2"] by simp
qed

text \<open>
  A rejected piece makes the download ask for every missing piece at once. Two rejects double the
  requests that are under way, so a peer that rejects everything is asked \<open>n\<close> times for each of its answers.
\<close>

lemma reject_asks_for_everything:
  assumes "um_download um = Some dl" and "dict_getInt dict ''piece'' = Inr piece" and "\<forall>i < num_bits (mdl_pieces dl). \<not> bs_get (mdl_pieces dl) i"
  shows "length (um_sent (um_reject number dict um)) = length (um_sent um) + num_bits (mdl_pieces dl)"
  using assms by (simp add: um_reject_def downloadNext_sent)

end
