(* ===== verification/ChunkStore.thy ===== *)
theory ChunkStore
  imports ChunkRequests
begin

text \<open>
  The storing side of \<^verbatim>\<open>bt::ChunkDownload\<close>, \<^verbatim>\<open>src/src/download/chunkdownload.cpp\<close>: a received piece is
  written to its place in the chunk, the hash of the chunk is fed with the pieces in their order as
  soon as the ones before are there, and a hashed piece is saved. The pieces are stored
  behind the virtual interface \<^verbatim>\<open>bt::Cache\<close>: the record \<open>store_ops\<close> holds the operations the chunk download
  calls, locale \<open>store_contract\<close> what it relies on. \<^verbatim>\<open>Storage.thy\<close> shows that the single file cache
  provides it.
\<close>

section \<open>The interface of the cache\<close>

record ('s, 'e) store_ops =
  so_load :: "u32 \<Rightarrow> u32 \<Rightarrow> u32 \<Rightarrow> 's \<Rightarrow> 's \<times> ('e + nat)"
  so_prepare :: "u32 \<Rightarrow> u32 \<Rightarrow> u32 \<Rightarrow> 's \<Rightarrow> 's \<times> ('e + nat)"
  so_save :: "nat \<Rightarrow> 's \<Rightarrow> 's \<times> ('e + unit)"
  so_write :: "nat \<Rightarrow> byte list \<Rightarrow> 's \<Rightarrow> 's \<times> ('e + u32)"
  so_ok :: "nat \<Rightarrow> 's \<Rightarrow> bool"
  so_bytes :: "nat \<Rightarrow> 's \<Rightarrow> byte list"

section \<open>Operations\<close>

text \<open>
  The loop of \<^verbatim>\<open>updateHash\<close> over the pieces that can be added to the hash. \<^const>\<open>Some\<close> is the exception
  that left it.
\<close>

fun hash_loop :: "('s, 'e) store_ops \<Rightarrow> nat list \<Rightarrow> chunk_download \<Rightarrow> 's \<Rightarrow> chunk_download \<times> 's \<times> 'e option" where
  "hash_loop sops [] cd s = (cd, s, None)"
| "hash_loop sops (i # is) cd s =
     (case (case piece_data cd ! i of
              Some p \<Rightarrow> (s, Inr p)
            | None \<Rightarrow> so_load sops (cd_index cd) (of_nat i * of_nat MAX_PIECE_LEN) (piece_len cd i) s) of
        (s1, Inl e) \<Rightarrow> (cd, s1, Some e)
      | (s1, Inr p) \<Rightarrow>
          if so_ok sops p s1 then
            let cd1 = cd\<lparr>hash_data := hash_data cd @ so_bytes sops p s1\<rparr> in
            case so_save sops p s1 of
              (s2, Inl e) \<Rightarrow> (cd1, s2, Some e)
            | (s2, Inr _) \<Rightarrow> hash_loop sops is cd1 s2
          else hash_loop sops is cd s1)"

definition hashable :: "chunk_download \<Rightarrow> nat list" where
  "hashable cd = takeWhile (bs_get (pieces cd)) [unat (num_pieces_in_hash cd)..<unat (num cd)]"

definition updateHash :: "('s, 'e) store_ops \<Rightarrow> chunk_download \<Rightarrow> 's \<Rightarrow> chunk_download \<times> 's \<times> 'e option" where
  "updateHash sops cd s = (case hash_loop sops (hashable cd) cd s of
     (cd1, s1, Some e) \<Rightarrow> (cd1, s1, Some e)
   | (cd1, s1, None) \<Rightarrow> (cd1\<lparr>num_pieces_in_hash := num_pieces_in_hash cd + of_nat (length (hashable cd))\<rparr>, s1, None))"

text \<open>What \<^verbatim>\<open>ChunkDownload::piece\<close> does once the piece is written and recorded.\<close>

definition piece_accepted :: "'p pd_ops \<Rightarrow> ('s, 'e) store_ops \<Rightarrow> pd_request \<Rightarrow> chunk_download \<Rightarrow> 'p pd_store \<Rightarrow> 's \<Rightarrow>
    'e option \<times> bool \<times> bool \<times> chunk_download \<times> 'p pd_store \<times> 's" where
  "piece_accepted ops sops p cd2 pds s2 =
     (let (cd3, pds3) = (if length (pdown cd2) > 1 then endgameCancel ops p cd2 pds else (cd2, pds)) in
      case updateHash sops cd3 s2 of
        (cd4, s3, Some e) \<Rightarrow> (Some e, False, True, cd4, pds3, s3)
      | (cd4, s3, None) \<Rightarrow>
          if num cd4 \<le> num_downloaded cd4 then
            let (cd5, pds5) = releaseAllPDs ops (cd4\<lparr>hash_ended := Some (hash_data cd4)\<rparr>) pds3
            in (None, True, True, cd5, pds5, s3)
          else let (cd5, pds5) = sendRequests ops cd4 pds3 in (None, False, True, cd5, pds5, s3))"

text \<open>
  \<^verbatim>\<open>ChunkDownload::piece\<close>: the exception that left it, whether the chunk is complete, and the
  reference parameter \<open>ok\<close>, followed by the states.
\<close>

definition piece_cd :: "'p pd_ops \<Rightarrow> ('s, 'e) store_ops \<Rightarrow> pd_request \<Rightarrow> byte list \<Rightarrow> chunk_download \<Rightarrow> 'p pd_store \<Rightarrow> 's \<Rightarrow>
    'e option \<times> bool \<times> bool \<times> chunk_download \<times> 'p pd_store \<times> 's" where
  "piece_cd ops sops p dat cd pds s =
     (let pp = rq_off p div of_nat MAX_PIECE_LEN;
          len = (if pp = num cd - 1 then last_size cd else of_nat MAX_PIECE_LEN) in
      if num cd \<le> pp \<or> bs_get (pieces cd) (unat pp) \<or> rq_len p \<noteq> len then (None, False, False, cd, pds, s)
      else let cd1 = (case rq_pd p of Some pd \<Rightarrow> map_ds (ds_remove (unat pp)) pd cd | None \<Rightarrow> cd) in
        case so_prepare sops (cd_index cd) (rq_off p) (rq_len p) s of
          (s1, Inl e) \<Rightarrow> (Some e, False, False, cd1, pds, s1)
        | (s1, Inr buf) \<Rightarrow> (case so_write sops buf dat s1 of
            (s2, Inl e) \<Rightarrow> (Some e, False, False, cd1, pds, s2)
          | (s2, Inr n) \<Rightarrow>
              if n = rq_len p then
                piece_accepted ops sops p
                  (cd1\<lparr>piece_data := (piece_data cd1)[unat pp := Some buf],
                       pieces := bs_set (unat pp) True (pieces cd1),
                       piece_providers := List.insert (rq_pd p) (piece_providers cd1),
                       num_downloaded := num_downloaded cd1 + 1\<rparr>) pds s2
              else let (cd5, pds5) = sendRequests ops cd1 pds in (None, False, False, cd5, pds5, s2)))"

section \<open>The life of a chunk download\<close>

text \<open>
  Pieces arrive and downloaders come and go, until the chunk is complete (\<^const>\<open>True\<close>) or the events end;
  \<^const>\<open>None\<close> is an exception of the cache, which stops the torrent.
\<close>

datatype chunk_event = Arrive pd_request "byte list" | Assign "pd_id option" | Release pd_id

fun chunk_run :: "'p pd_ops \<Rightarrow> ('s, 'e) store_ops \<Rightarrow> chunk_event list \<Rightarrow> chunk_download \<Rightarrow> 'p pd_store \<Rightarrow> 's \<Rightarrow>
    (bool \<times> chunk_download \<times> 's) option" where
  "chunk_run ops sops [] cd pds s = Some (False, cd, s)"
| "chunk_run ops sops (Arrive p dat # es) cd pds s = (case piece_cd ops sops p dat cd pds s of
     (Some e, _) \<Rightarrow> None
   | (None, fin, _, cd', pds', s') \<Rightarrow> if fin then Some (True, cd', s') else chunk_run ops sops es cd' pds' s')"
| "chunk_run ops sops (Assign pd # es) cd pds s =
     (let (_, cd', pds') = assign ops pd cd pds in chunk_run ops sops es cd' pds' s)"
| "chunk_run ops sops (Release pd # es) cd pds s =
     (let (cd', pds') = cd_release ops pd cd pds in chunk_run ops sops es cd' pds' s)"

text \<open>A piece carries as many bytes as it says, and starts at a multiple of the piece size.\<close>

fun event_ok :: "chunk_event \<Rightarrow> bool" where
  "event_ok (Arrive p dat) \<longleftrightarrow> length dat = unat (rq_len p)"
| "event_ok _ \<longleftrightarrow> True"

fun event_aligned :: "chunk_event \<Rightarrow> bool" where
  "event_aligned (Arrive p dat) \<longleftrightarrow> unat (rq_off p) mod MAX_PIECE_LEN = 0"
| "event_aligned _ \<longleftrightarrow> True"

section \<open>What the request side leaves alone\<close>

lemma core_sendRequest: "sendRequest ops pd cd pds = (b, cd', pds') \<Longrightarrow> core cd' = core cd"
  by (auto simp: sendRequest_def Let_def split: if_splits)

lemma core_request_round: "request_round ops tmp cd pds = (tmp', cd', pds') \<Longrightarrow> core cd' = core cd"
  by (induction ops tmp cd pds arbitrary: tmp' cd' pds' rule: request_round.induct)
    (auto simp: Let_def split: prod.splits if_splits dest: core_sendRequest)

lemma core_request_loop: "request_loop ops tmp cd pds = (cd', pds') \<Longrightarrow> core cd' = core cd"
proof (induction ops tmp cd pds arbitrary: cd' pds' rule: request_loop.induct)
  case (1 ops tmp cd pds)
  obtain t c p where r: "request_round ops tmp cd pds = (t, c, p)" by (metis prod_cases3)
  show ?case
  proof (cases "tmp = []")
    case True
    then show ?thesis using 1(2) by (simp add: request_loop.simps)
  next
    case False
    then have "request_loop ops t c p = (cd', pds')" using 1(2) r by (simp add: request_loop.simps [of ops tmp])
    from 1(1) [OF False r [symmetric] refl refl this] core_request_round [OF r] show ?thesis by simp
  qed
qed

lemma core_sendRequests: "sendRequests ops cd pds = (cd', pds') \<Longrightarrow> core cd' = core cd"
  unfolding sendRequests_def by (rule core_request_loop)

lemma core_sendCancels: "core (fst (sendCancels ops pd cd pds)) = core cd"
  by (simp add: sendCancels_def split: option.splits)

lemma core_releaseAllPDs: "core (fst (releaseAllPDs ops cd pds)) = core cd"
proof -
  have l: "core (fst (release_loop ops l cd pds)) = core cd" for l
    by (induction l arbitrary: cd pds) (simp_all add: Let_def split_beta core_sendCancels)
  have "core (cd'\<lparr>dstatus := [], pdown := []\<rparr>) = core cd'" for cd' by (simp add: core_def)
  then show ?thesis using l [of "pdown cd"] by (simp add: releaseAllPDs_def Let_def split_beta)
qed

lemma core_endgameCancel: "core (fst (endgameCancel ops p cd pds)) = core cd"
proof -
  have "core (fst (endgame_loop ops p l cd pds)) = core cd" for l
    by (induction l arbitrary: cd pds) (simp_all add: Let_def split: option.splits)
  then show ?thesis by (simp add: endgameCancel_def)
qed

lemma core_assign: "core (fst (snd (assign ops pd cd pds))) = core cd"
proof -
  have "core (cd\<lparr>pdown := x, dstatus := y\<rparr>) = core cd" for x y by (simp add: core_def)
  then show ?thesis
    by (auto simp: assign_def split: option.splits) (metis core_sendRequests prod.collapse)
qed

lemma core_release: "core (fst (cd_release ops pd cd pds)) = core cd"
  using core_sendCancels [of ops pd cd] by (simp add: cd_release_def Let_def split_beta)

lemma core_fields:
  assumes "core cd' = core cd"
  shows "cd_index cd' = cd_index cd" "cd_size cd' = cd_size cd" "pieces cd' = pieces cd" "num cd' = num cd"
    "num_downloaded cd' = num_downloaded cd" "last_size cd' = last_size cd" "piece_data cd' = piece_data cd"
    "hash_data cd' = hash_data cd" "hash_ended cd' = hash_ended cd" "num_pieces_in_hash cd' = num_pieces_in_hash cd"
    "piece_len cd' = piece_len cd"
  using assms by (cases cd; cases cd'; simp add: core_def fun_eq_iff piece_len_def)+

lemma piece_len_simps [simp]:
  "piece_len (cd\<lparr>hash_data := a\<rparr>) = piece_len cd" "piece_len (cd\<lparr>hash_ended := b\<rparr>) = piece_len cd"
  "piece_len (cd\<lparr>num_pieces_in_hash := c\<rparr>) = piece_len cd" "piece_len (cd\<lparr>piece_data := d\<rparr>) = piece_len cd"
  "piece_len (cd\<lparr>pieces := e\<rparr>) = piece_len cd" "piece_len (cd\<lparr>piece_providers := f\<rparr>) = piece_len cd"
  "piece_len (cd\<lparr>num_downloaded := g\<rparr>) = piece_len cd"
  by (simp_all add: fun_eq_iff piece_len_def)

lemma takeWhile_upt:
  assumes "a \<le> b"
  shows "\<exists>c. a \<le> c \<and> c \<le> b \<and> takeWhile P [a..<b] = [a..<c] \<and> (\<forall>i. a \<le> i \<longrightarrow> i < c \<longrightarrow> P i) \<and> (c < b \<longrightarrow> \<not> P c)"
  using assms
proof (induction "b - a" arbitrary: a)
  case (Suc n)
  then have upt: "[a..<b] = a # [Suc a..<b]" and "n = b - Suc a" "Suc a \<le> b" by (simp_all add: upt_conv_Cons)
  from Suc.hyps(1) [OF this(2,3)] obtain c where c: "Suc a \<le> c" "c \<le> b" "takeWhile P [Suc a..<b] = [Suc a..<c]"
    "\<forall>i. Suc a \<le> i \<longrightarrow> i < c \<longrightarrow> P i" "c < b \<longrightarrow> \<not> P c" by blast
  show ?case
  proof (cases "P a")
    case True
    have "\<forall>i. a \<le> i \<longrightarrow> i < c \<longrightarrow> P i" using True c(4) by (metis Suc_leI le_neq_implies_less)
    then show ?thesis using c True by (intro exI [of _ c]) (simp add: upt upt_conv_Cons)
  qed (intro exI [of _ a], use Suc.prems in \<open>simp add: upt\<close>)
qed (intro exI, auto)

section \<open>The contract of the cache\<close>

text \<open>
  For the chunk \<open>idx\<close> of \<open>csize\<close> bytes: \<open>live s p off len\<close> says that the pointer \<open>p\<close> is a writable piece
  of \<open>len\<close> bytes at \<open>off\<close>, and \<open>on_disk s off len\<close> are the bytes of the file there. Preparing a piece that
  overlaps no other changes no piece and no saved byte, writing changes that piece and its place only,
  saving brings the bytes of the piece to their place in the file.
\<close>

definition apart :: "nat \<Rightarrow> nat \<Rightarrow> nat \<Rightarrow> nat \<Rightarrow> bool" where
  "apart off len off' len' \<longleftrightarrow> off + len \<le> off' \<or> off' + len' \<le> off"

locale store_contract =
  fixes sops :: "('s, 'e) store_ops" and idx :: u32 and csize :: nat
    and wf :: "'s \<Rightarrow> bool" and live :: "'s \<Rightarrow> nat \<Rightarrow> nat \<Rightarrow> nat \<Rightarrow> bool" and on_disk :: "'s \<Rightarrow> nat \<Rightarrow> nat \<Rightarrow> byte list"
  assumes disk_split: "on_disk s off (l + m) = on_disk s off l @ on_disk s (off + l) m"
    and disk_length: "length (on_disk s off l) \<le> l"
    and live_ok: "live s p off len \<Longrightarrow> so_ok sops p s"
    and live_bytes: "live s p off len \<Longrightarrow> length (so_bytes sops p s) = len"
    and prepare_ok: "wf s \<Longrightarrow> 0 < n32 \<Longrightarrow> unat w + unat n32 \<le> csize \<Longrightarrow>
      (\<And>p o' l'. live s p o' l' \<Longrightarrow> apart (unat w) (unat n32) o' l') \<Longrightarrow> so_prepare sops idx w n32 s = (s', Inr q) \<Longrightarrow>
      wf s' \<and> live s' q (unat w) (unat n32) \<and>
      (\<forall>p o' l'. live s p o' l' \<longrightarrow> live s' p o' l' \<and> so_bytes sops p s' = so_bytes sops p s) \<and>
      (\<forall>p o' l'. live s' p o' l' \<longrightarrow> live s p o' l' \<or> p = q) \<and>
      (\<forall>o' l'. length (on_disk s o' l') = l' \<longrightarrow> on_disk s' o' l' = on_disk s o' l')"
    and write_ok: "wf s \<Longrightarrow> live s p off len \<Longrightarrow> length dat = len \<Longrightarrow> so_write sops p dat s = (s', Inr n) \<Longrightarrow>
      unat n = len \<and> wf s' \<and> (\<forall>p' o' l'. live s' p' o' l' \<longleftrightarrow> live s p' o' l') \<and> so_bytes sops p s' = dat \<and>
      (\<forall>p' o' l'. live s p' o' l' \<longrightarrow> apart off len o' l' \<longrightarrow> so_bytes sops p' s' = so_bytes sops p' s) \<and>
      (\<forall>o' l'. length (on_disk s o' l') = l' \<longrightarrow> apart off len o' l' \<longrightarrow> on_disk s' o' l' = on_disk s o' l')"
    and save_ok: "wf s \<Longrightarrow> live s p off len \<Longrightarrow> so_save sops p s = (s', Inr u) \<Longrightarrow>
      wf s' \<and> (\<forall>p' o' l'. live s' p' o' l' \<longleftrightarrow> live s p' o' l') \<and> on_disk s' off len = so_bytes sops p s \<and>
      (\<forall>p' o' l'. live s p' o' l' \<longrightarrow> p' = p \<or> apart off len o' l' \<longrightarrow> so_bytes sops p' s' = so_bytes sops p' s) \<and>
      (\<forall>o' l'. length (on_disk s o' l') = l' \<longrightarrow> apart off len o' l' \<longrightarrow> on_disk s' o' l' = on_disk s o' l')"
    and live_unique: "live s p off len \<Longrightarrow> live s p off' len' \<Longrightarrow> off' = off \<and> len' = len"
begin

definition cd_wf :: "chunk_download \<Rightarrow> bool" where
  "cd_wf cd \<longleftrightarrow> cd_index cd = idx \<and> shape (pieces cd) \<and> counted (pieces cd) \<and> num_bits (pieces cd) = unat (num cd) \<and>
     length (piece_data cd) = unat (num cd) \<and> 0 < num cd \<and> unat (num cd) \<le> 262144 \<and>
     0 < last_size cd \<and> unat (last_size cd) \<le> MAX_PIECE_LEN \<and>
     csize = (unat (num cd) - 1) * MAX_PIECE_LEN + unat (last_size cd) \<and>
     unat (num_downloaded cd) = card {i. bs_get (pieces cd) i}"

text \<open>
  \<open>D i\<close> are the bytes received for piece \<open>i\<close>. All pieces held are in memory under their pointers, the
  first \<open>h\<close> are hashed in order and on disk.
\<close>

definition stored :: "(nat \<Rightarrow> byte list) \<Rightarrow> nat \<Rightarrow> chunk_download \<Rightarrow> 's \<Rightarrow> bool" where
  "stored D h cd s \<longleftrightarrow> wf s \<and> cd_wf cd \<and> h \<le> unat (num cd) \<and>
     (\<forall>i < unat (num cd). if bs_get (pieces cd) i
        then \<exists>p. piece_data cd ! i = Some p \<and> live s p (i * MAX_PIECE_LEN) (unat (piece_len cd i)) \<and> so_bytes sops p s = D i
        else piece_data cd ! i = None) \<and>
     (\<forall>p off len. live s p off len \<longrightarrow> (\<exists>i < unat (num cd). bs_get (pieces cd) i \<and> piece_data cd ! i = Some p)) \<and>
     (\<forall>i < h. bs_get (pieces cd) i \<and> on_disk s (i * MAX_PIECE_LEN) (unat (piece_len cd i)) = D i) \<and>
     hash_data cd = concat (map D [0..<h])"

lemma stored_core:
  assumes "core cd' = core cd"
  shows "stored D h cd' s = stored D h cd s"
  by (simp add: stored_def cd_wf_def core_fields [OF assms])

lemma piece_len_cases:
  assumes "cd_wf cd" and "i < unat (num cd)"
  shows "unat (piece_len cd i) = (if i = unat (num cd) - 1 then unat (last_size cd) else MAX_PIECE_LEN)"
    and "0 < unat (piece_len cd i)" and "unat (piece_len cd i) \<le> MAX_PIECE_LEN" and "i * MAX_PIECE_LEN + unat (piece_len cd i) \<le> csize"
    and "unat (of_nat i * of_nat MAX_PIECE_LEN :: u32) = i * MAX_PIECE_LEN"
proof -
  have n: "0 < unat (num cd)" and l: "0 < unat (last_size cd)" using assms(1) by (auto simp: cd_wf_def word_less_nat_alt)
  have m: "unat (of_nat MAX_PIECE_LEN :: u32) = MAX_PIECE_LEN" by (simp add: MAX_PIECE_LEN_def)
  show len: "unat (piece_len cd i) = (if i = unat (num cd) - 1 then unat (last_size cd) else MAX_PIECE_LEN)"
    using assms(2) n m by (auto simp: piece_len_def)
  show "0 < unat (piece_len cd i)" "unat (piece_len cd i) \<le> MAX_PIECE_LEN"
    using len l assms(1) by (simp_all add: cd_wf_def MAX_PIECE_LEN_def)
  show "i * MAX_PIECE_LEN + unat (piece_len cd i) \<le> csize"
  proof (cases "i = unat (num cd) - 1")
    case False
    then have "Suc i * MAX_PIECE_LEN \<le> (unat (num cd) - 1) * MAX_PIECE_LEN" using assms(2) by (intro mult_right_mono) auto
    then show ?thesis using False len assms(1) by (simp add: cd_wf_def)
  qed (use len assms(1) in \<open>simp add: cd_wf_def\<close>)
  have "i * 16384 < 4294967296" using assms by (simp add: cd_wf_def)
  then show "unat (of_nat i * of_nat MAX_PIECE_LEN :: u32) = i * MAX_PIECE_LEN"
    using assms by (simp add: MAX_PIECE_LEN_def unat_word_ariths unat_of_nat cd_wf_def)
qed

lemma pieces_apart:
  assumes "cd_wf cd" and "i < unat (num cd)" and "j < unat (num cd)" and "i \<noteq> j"
  shows "apart (i * MAX_PIECE_LEN) (unat (piece_len cd i)) (j * MAX_PIECE_LEN) (unat (piece_len cd j))"
proof -
  have le: "i * MAX_PIECE_LEN + MAX_PIECE_LEN \<le> j * MAX_PIECE_LEN \<or> j * MAX_PIECE_LEN + MAX_PIECE_LEN \<le> i * MAX_PIECE_LEN"
    using assms(4) by (simp add: MAX_PIECE_LEN_def) linarith
  then show ?thesis
    using piece_len_cases(3) [OF assms(1,2)] piece_len_cases(3) [OF assms(1,3)] unfolding apart_def by linarith
qed

lemma stored_piece:
  assumes "stored D h cd s" and "i < unat (num cd)" and "bs_get (pieces cd) i"
  obtains p where "piece_data cd ! i = Some p" "live s p (i * MAX_PIECE_LEN) (unat (piece_len cd i))" "so_bytes sops p s = D i"
    "length (D i) = unat (piece_len cd i)"
proof -
  have "\<exists>p. piece_data cd ! i = Some p \<and> live s p (i * MAX_PIECE_LEN) (unat (piece_len cd i)) \<and> so_bytes sops p s = D i"
    using assms unfolding stored_def by (metis (no_types, lifting))
  then obtain p where p: "piece_data cd ! i = Some p" "live s p (i * MAX_PIECE_LEN) (unat (piece_len cd i))"
    "so_bytes sops p s = D i" by blast
  with live_bytes [OF p(2)] that show thesis by simp
qed

lemma stored_live:
  assumes "stored D h cd s" and "live s p off len"
  shows "\<exists>i < unat (num cd). bs_get (pieces cd) i \<and> piece_data cd ! i = Some p"
proof -
  have "\<forall>p off len. live s p off len \<longrightarrow> (\<exists>i < unat (num cd). bs_get (pieces cd) i \<and> piece_data cd ! i = Some p)"
    using assms(1) unfolding stored_def by (elim conjE)
  then show ?thesis using assms(2) by blast
qed

lemma hash_step:
  assumes st: "stored D h cd s" and h: "h < unat (num cd)" "bs_get (pieces cd) h"
    and r: "hash_loop sops (h # is) cd s = (cd', s', None)"
  shows "\<exists>s2. stored D (Suc h) (cd\<lparr>hash_data := hash_data cd @ D h\<rparr>) s2 \<and>
    hash_loop sops is (cd\<lparr>hash_data := hash_data cd @ D h\<rparr>) s2 = (cd', s', None)"
proof -
  obtain p where p: "piece_data cd ! h = Some p" "live s p (h * MAX_PIECE_LEN) (unat (piece_len cd h))" "so_bytes sops p s = D h"
    using stored_piece [OF st h] by blast
  let ?cd = "cd\<lparr>hash_data := hash_data cd @ D h\<rparr>"
  have wf: "wf s" "cd_wf cd" using st by (simp_all add: stored_def)
  obtain s2 u where sv: "so_save sops p s = (s2, Inr u)" and rest: "hash_loop sops is ?cd s2 = (cd', s', None)"
    using r p live_ok [OF p(2)] by (auto simp: Let_def split: prod.splits sum.splits)
  note k = save_ok [OF wf(1) p(2) sv]
  note k1 = k [THEN conjunct1] and k2 = k [THEN conjunct2, THEN conjunct1, rule_format]
    and k3 = k [THEN conjunct2, THEN conjunct2, THEN conjunct1]
    and k4 = k [THEN conjunct2, THEN conjunct2, THEN conjunct2, THEN conjunct1, rule_format]
    and k5 = k [THEN conjunct2, THEN conjunct2, THEN conjunct2, THEN conjunct2, rule_format]
  have ap: "apart (h * MAX_PIECE_LEN) (unat (piece_len cd h)) (i * MAX_PIECE_LEN) (unat (piece_len cd i))"
    if "i < unat (num cd)" "i \<noteq> h" for i using pieces_apart [OF wf(2) h(1) that(1)] that(2) by blast
  have held: "\<exists>q. piece_data cd ! i = Some q \<and> live s2 q (i * MAX_PIECE_LEN) (unat (piece_len cd i)) \<and> so_bytes sops q s2 = D i"
    if i: "i < unat (num cd)" "bs_get (pieces cd) i" for i
  proof -
    obtain q where q: "piece_data cd ! i = Some q" "live s q (i * MAX_PIECE_LEN) (unat (piece_len cd i))" "so_bytes sops q s = D i"
      using stored_piece [OF st i] by blast
    have "q = p \<or> apart (h * MAX_PIECE_LEN) (unat (piece_len cd h)) (i * MAX_PIECE_LEN) (unat (piece_len cd i))"
      using ap [OF i(1)] q(1) p(1) by (cases "i = h") auto
    from k4 [OF q(2) this] k2 q show ?thesis by simp
  qed
  have saved: "on_disk s2 (i * MAX_PIECE_LEN) (unat (piece_len cd i)) = D i" if "i < Suc h" for i
  proof (cases "i = h")
    case True
    then show ?thesis using k3 p(3) by simp
  next
    case False
    then have i: "i < unat (num cd)" "bs_get (pieces cd) i" "on_disk s (i * MAX_PIECE_LEN) (unat (piece_len cd i)) = D i"
      using that h(1) st by (auto simp: stored_def)
    have "length (D i) = unat (piece_len cd i)" using stored_piece [OF st i(1,2)] by blast
    then show ?thesis using k5 [OF _ ap [OF i(1) False]] i(3) by simp
  qed
  have "stored D (Suc h) ?cd s2"
    unfolding stored_def
  proof (intro conjI allI impI)
    show "wf s2" by (rule k1)
    show "cd_wf ?cd" using wf(2) unfolding cd_wf_def by simp
    show "Suc h \<le> unat (num ?cd)" using h(1) by simp
    fix i assume "i < unat (num ?cd)"
    then show "if bs_get (pieces ?cd) i then \<exists>p. piece_data ?cd ! i = Some p \<and>
        live s2 p (i * MAX_PIECE_LEN) (unat (piece_len ?cd i)) \<and> so_bytes sops p s2 = D i else piece_data ?cd ! i = None"
      using held [of i] st by (simp add: stored_def)
  next
    fix q off len assume "live s2 q off len"
    then show "\<exists>i<unat (num ?cd). bs_get (pieces ?cd) i \<and> piece_data ?cd ! i = Some q"
      using stored_live [OF st] unfolding k2 by simp
  next
    fix i assume i: "i < Suc h"
    then show "bs_get (pieces ?cd) i" using h st by (auto simp: stored_def less_Suc_eq)
    show "on_disk s2 (i * MAX_PIECE_LEN) (unat (piece_len ?cd i)) = D i"
      using saved [OF i] by simp
  next
    show "hash_data ?cd = concat (map D [0..<Suc h])" using st by (simp add: stored_def)
  qed
  with rest show ?thesis by blast
qed

lemma hash_loop_stored:
  assumes "stored D h cd s" and "h \<le> c" and "c \<le> unat (num cd)" and "\<forall>i. h \<le> i \<longrightarrow> i < c \<longrightarrow> bs_get (pieces cd) i"
    and "hash_loop sops [h..<c] cd s = (cd', s', None)"
  shows "stored D c cd' s' \<and> (\<exists>x. cd' = cd\<lparr>hash_data := x\<rparr>)"
  using assms
proof (induction "c - h" arbitrary: h cd s)
  case 0
  then have "h = c" "cd' = cd" "s' = s" by auto
  then show ?case using 0 by (intro conjI exI [of _ "hash_data cd"]) simp_all
next
  case (Suc n)
  then have upt: "[h..<c] = h # [Suc h..<c]" by (simp add: upt_conv_Cons)
  have h: "h < unat (num cd)" "bs_get (pieces cd) h" using Suc.prems Suc.hyps(2) by auto
  let ?cd = "cd\<lparr>hash_data := hash_data cd @ D h\<rparr>"
  from hash_step [OF Suc.prems(1) h] Suc.prems(5) obtain s2 where
    s2: "stored D (Suc h) ?cd s2" "hash_loop sops [Suc h..<c] ?cd s2 = (cd', s', None)"
    unfolding upt by blast
  have "stored D c cd' s' \<and> (\<exists>x. cd' = ?cd\<lparr>hash_data := x\<rparr>)"
    by (rule Suc.hyps(1) [OF _ s2(1) _ _ _ s2(2)]) (use Suc.prems Suc.hyps(2) in auto)
  then show ?case by auto
qed

lemma updateHash_stored:
  assumes st: "stored D h cd s" and h: "h = unat (num_pieces_in_hash cd)" and r: "updateHash sops cd s = (cd', s', None)"
  shows "\<exists>h'. stored D h' cd' s' \<and> h' = unat (num_pieces_in_hash cd') \<and> (h' < unat (num cd) \<longrightarrow> \<not> bs_get (pieces cd) h') \<and>
    (\<exists>x y. cd' = cd\<lparr>hash_data := x, num_pieces_in_hash := y\<rparr>)"
proof -
  have "h \<le> unat (num cd)" using st by (simp add: stored_def)
  from takeWhile_upt [OF this, of "bs_get (pieces cd)"] obtain c where
    c: "h \<le> c" "c \<le> unat (num cd)" "hashable cd = [h..<c]" "\<forall>i. h \<le> i \<longrightarrow> i < c \<longrightarrow> bs_get (pieces cd) i"
      "c < unat (num cd) \<longrightarrow> \<not> bs_get (pieces cd) c"
    unfolding hashable_def h by blast
  obtain cd1 where l: "hash_loop sops [h..<c] cd s = (cd1, s', None)"
    and cd': "cd' = cd1\<lparr>num_pieces_in_hash := num_pieces_in_hash cd + of_nat (c - h)\<rparr>"
    using r c(3) by (auto simp: updateHash_def split: prod.splits option.splits)
  from hash_loop_stored [OF st c(1,2,4) l] obtain x where x: "stored D c cd1 s'" "cd1 = cd\<lparr>hash_data := x\<rparr>" by blast
  have "unat (num_pieces_in_hash cd + of_nat (c - h)) = c"
  proof -
    have "c < 2 ^ 32" using c(2) unat_u32 [of "num cd"] by simp
    moreover have "num_pieces_in_hash cd = of_nat h" by (simp add: h)
    ultimately show ?thesis using c(1) by (simp add: unat_of_nat flip: of_nat_add)
  qed
  moreover have "stored D c cd' s'" using x(1) unfolding stored_def cd_wf_def cd' by simp
  ultimately show ?thesis using c(5) x(2) cd' by auto
qed

lemma accept_stored:
  assumes st: "stored D h cd s" and i: "i < unat (num cd)" "\<not> bs_get (pieces cd) i" and off: "unat off = i * MAX_PIECE_LEN"
    and pr: "so_prepare sops idx off (piece_len cd i) s = (s1, Inr buf)"
    and wr: "so_write sops buf dat s1 = (s2, Inr n)" and dat: "length dat = unat (piece_len cd i)"
    and cd2: "cd2 = cd\<lparr>piece_data := (piece_data cd)[i := Some buf], pieces := bs_set i True (pieces cd), piece_providers := x,
      num_downloaded := num_downloaded cd + 1\<rparr>"
  shows "unat n = unat (piece_len cd i) \<and> stored (D(i := dat)) h cd2 s2"
proof -
  have wf: "wf s" "cd_wf cd" using st by (simp_all add: stored_def)
  let ?at = "\<lambda>j. j * MAX_PIECE_LEN" and ?len = "\<lambda>j. unat (piece_len cd j)"
  note pl = piece_len_cases [OF wf(2) i(1)]
  have ap: "apart (?at i) (?len i) (?at j) (?len j)" if "j < unat (num cd)" "j \<noteq> i" for j
    using pieces_apart [OF wf(2) i(1) that(1)] that(2) by blast
  have old: "apart (unat off) (?len i) o' l'" if l: "live s p o' l'" for p o' l'
  proof -
    obtain j where j: "j < unat (num cd)" "bs_get (pieces cd) j" "piece_data cd ! j = Some p" using stored_live [OF st l] by blast
    obtain q where "piece_data cd ! j = Some q" "live s q (?at j) (?len j)" using stored_piece [OF st j(1,2)] by blast
    then have "o' = ?at j" "l' = ?len j" using j(3) live_unique [OF _ l] by auto
    moreover have "j \<noteq> i" using j(2) i(2) by blast
    ultimately show ?thesis using ap [OF j(1)] off by simp
  qed
  have fits: "0 < piece_len cd i" "unat off + ?len i \<le> csize" using pl off by (simp_all add: word_less_nat_alt)
  have P: "wf s1 \<and> live s1 buf (unat off) (?len i) \<and>
      (\<forall>p o' l'. live s p o' l' \<longrightarrow> live s1 p o' l' \<and> so_bytes sops p s1 = so_bytes sops p s) \<and>
      (\<forall>p o' l'. live s1 p o' l' \<longrightarrow> live s p o' l' \<or> p = buf) \<and>
      (\<forall>o' l'. length (on_disk s o' l') = l' \<longrightarrow> on_disk s1 o' l' = on_disk s o' l')"
    by (rule prepare_ok [OF wf(1) fits _ pr], rule old)
  note p1 = P [THEN conjunct1] and p2 = P [THEN conjunct2, THEN conjunct1, unfolded off]
    and p3 = P [THEN conjunct2, THEN conjunct2, THEN conjunct1, rule_format]
    and p4 = P [THEN conjunct2, THEN conjunct2, THEN conjunct2, THEN conjunct1, rule_format]
    and p5 = P [THEN conjunct2, THEN conjunct2, THEN conjunct2, THEN conjunct2, rule_format]
  note W = write_ok [OF p1 p2 dat wr]
  note w1 = W [THEN conjunct1] and w2 = W [THEN conjunct2, THEN conjunct1]
    and w3 = W [THEN conjunct2, THEN conjunct2, THEN conjunct1, rule_format]
    and w4 = W [THEN conjunct2, THEN conjunct2, THEN conjunct2, THEN conjunct1]
    and w5 = W [THEN conjunct2, THEN conjunct2, THEN conjunct2, THEN conjunct2, THEN conjunct1, rule_format]
    and w6 = W [THEN conjunct2, THEN conjunct2, THEN conjunct2, THEN conjunct2, THEN conjunct2, rule_format]
  have held: "\<exists>q. (piece_data cd)[i := Some buf] ! j = Some q \<and> live s2 q (?at j) (?len j) \<and> so_bytes sops q s2 = (D(i := dat)) j"
    if j: "j < unat (num cd)" "bs_get (pieces cd) j \<or> j = i" for j
  proof (cases "j = i")
    case True
    then show ?thesis using p2 w3 w4 wf(2) i(1) by (simp add: cd_wf_def)
  next
    case False
    then obtain q where q: "piece_data cd ! j = Some q" "live s q (?at j) (?len j)" "so_bytes sops q s = D j"
      using stored_piece [OF st j(1)] j(2) by blast
    have l1: "live s1 q (?at j) (?len j)" "so_bytes sops q s1 = D j" using p3 [OF q(2)] q(3) by simp_all
    have "so_bytes sops q s2 = D j" using w5 [OF l1(1) ap [OF j(1) False]] l1(2) by simp
    then show ?thesis using q(1) l1(1) w3 False by auto
  qed
  have disk: "on_disk s2 (?at j) (?len j) = D j" if "j < h" for j
  proof -
    have j: "j < unat (num cd)" "bs_get (pieces cd) j" "on_disk s (?at j) (?len j) = D j" "j \<noteq> i"
      using that st i(2) by (auto simp: stored_def)
    have "length (D j) = ?len j" using stored_piece [OF st j(1,2)] by blast
    then have "on_disk s1 (?at j) (?len j) = D j" using p5 j(3) by simp
    with w6 [of "?at j" "?len j"] ap [OF j(1,4)] \<open>length (D j) = ?len j\<close> show ?thesis by simp
  qed
  have hi: "h \<le> i" using st i(2) unfolding stored_def by (metis not_le)
  have bits: "shape (bs_set i True (pieces cd))" "counted (bs_set i True (pieces cd))"
    "{k. bs_get (bs_set i True (pieces cd)) k} = insert i {k. bs_get (pieces cd) k}"
    using wf(2) i(1) bs_set_bits [of "pieces cd" i True] bs_set_get [of "pieces cd" i True] by (auto simp: cd_wf_def)
  have fin: "finite {k. bs_get (pieces cd) k}" "card {k. bs_get (pieces cd) k} \<le> unat (num cd)"
  proof -
    have sub: "{k. bs_get (pieces cd) k} \<subseteq> {..<unat (num cd)}" using wf(2) by (auto simp: cd_wf_def bs_get_def split: if_splits)
    from finite_subset [OF this] card_mono [OF _ sub] show "finite {k. bs_get (pieces cd) k}" "card {k. bs_get (pieces cd) k} \<le> unat (num cd)"
      by simp_all
  qed
  have wf2: "cd_wf cd2"
  proof -
    have "unat (num_downloaded cd + 1) = Suc (unat (num_downloaded cd))"
      using wf(2) fin(2) by (simp add: cd_wf_def unat_word_ariths)
    then show ?thesis using wf(2) bits fin(1) i(2) unfolding cd_wf_def cd2 by simp
  qed
  have "stored (D(i := dat)) h cd2 s2"
    unfolding stored_def
  proof (intro conjI allI impI)
    show "wf s2" by (rule w2)
    show "cd_wf cd2" by (rule wf2)
    show "h \<le> unat (num cd2)" using st by (simp add: stored_def cd2)
  next
    fix j assume j: "j < unat (num cd2)"
    then have j': "j < unat (num cd)" by (simp add: cd2)
    have g: "bs_get (bs_set i True (pieces cd)) j \<longleftrightarrow> bs_get (pieces cd) j \<or> j = i" using bits(3) by auto
    have none: "\<not> bs_get (pieces cd) j \<Longrightarrow> piece_data cd ! j = None" using st j' by (simp add: stored_def)
    show "if bs_get (pieces cd2) j then \<exists>p. piece_data cd2 ! j = Some p \<and> live s2 p (?at j) (unat (piece_len cd2 j)) \<and>
        so_bytes sops p s2 = (D(i := dat)) j else piece_data cd2 ! j = None"
      using held [OF j'] none g by (auto simp: cd2)
  next
    fix p off' len' assume "live s2 p off' len'"
    then consider "live s p off' len'" | "p = buf" using w3 p4 by blast
    then show "\<exists>j<unat (num cd2). bs_get (pieces cd2) j \<and> piece_data cd2 ! j = Some p"
    proof cases
      case 1
      then obtain j where j: "j < unat (num cd)" "bs_get (pieces cd) j" "piece_data cd ! j = Some p" using stored_live [OF st] by blast
      moreover have "j \<noteq> i" using j(2) i(2) by blast
      ultimately show ?thesis using bits(3) by (intro exI [of _ j]) (auto simp: cd2)
    next
      case 2
      then show ?thesis using i(1) bits(3) wf(2) by (intro exI [of _ i]) (auto simp: cd2 cd_wf_def)
    qed
  next
    fix j assume j: "j < h"
    then show "bs_get (pieces cd2) j" using st bits(3) by (auto simp: stored_def cd2)
    show "on_disk s2 (?at j) (unat (piece_len cd2 j)) = (D(i := dat)) j" using disk [OF j] j hi by (simp add: cd2)
  next
    have same: "map (D(i := dat)) [0..<h] = map D [0..<h]" using hi by auto
    show "hash_data cd2 = concat (map (D(i := dat)) [0..<h])" using st unfolding same by (simp add: stored_def cd2)
  qed
  with w1 show ?thesis by blast
qed

lemma accepted_stored:
  assumes st2: "stored D h cd2 s2" and h: "h = unat (num_pieces_in_hash cd2)"
    and r: "piece_accepted ops sops p cd2 pds s2 = (None, fin, ok, cd', pds', s')"
  shows "\<exists>h'. stored D h' cd' s' \<and> h' = unat (num_pieces_in_hash cd') \<and>
    (fin \<longrightarrow> h' = unat (num cd') \<and> hash_ended cd' = Some (hash_data cd'))"
proof -
  define e where "e = (if length (pdown cd2) > 1 then endgameCancel ops p cd2 pds else (cd2, pds))"
  obtain cd3 pds3 where e3: "e = (cd3, pds3)" by (cases e)
  have c3: "core cd3 = core cd2" using core_endgameCancel [of ops p cd2 pds] e3 by (auto simp: e_def split: if_splits)
  have st3: "stored D h cd3 s2" using st2 stored_core [OF c3] by simp
  have h3: "h = unat (num_pieces_in_hash cd3)" using h core_fields(10) [OF c3] by simp
  obtain cd4 s3 where up: "updateHash sops cd3 s2 = (cd4, s3, None)"
    and fin: "fin = (num cd4 \<le> num_downloaded cd4)" "s' = s3"
      "(cd', pds') = (if fin then releaseAllPDs ops (cd4\<lparr>hash_ended := Some (hash_data cd4)\<rparr>) pds3 else sendRequests ops cd4 pds3)"
    using r unfolding piece_accepted_def e_def [symmetric] e3 Let_def prod.case
    by (auto split: prod.splits option.splits if_splits)
  from updateHash_stored [OF st3 h3 up] obtain h' x y where
    u: "stored D h' cd4 s3" "h' = unat (num_pieces_in_hash cd4)" "h' < unat (num cd3) \<longrightarrow> \<not> bs_get (pieces cd3) h'"
      "cd4 = cd3\<lparr>hash_data := x, num_pieces_in_hash := y\<rparr>" by blast
  show ?thesis
  proof (cases fin)
    case False
    then have "sendRequests ops cd4 pds3 = (cd', pds')" using fin(3) by simp
    note c = core_sendRequests [OF this]
    show ?thesis using u(1,2) stored_core [OF c] fin(2) core_fields(10) [OF c] False by metis
  next
    case True
    let ?cd = "cd4\<lparr>hash_ended := Some (hash_data cd4)\<rparr>"
    have "releaseAllPDs ops ?cd pds3 = (cd', pds')" using fin(3) True by simp
    then have c: "core cd' = core ?cd" using core_releaseAllPDs [of ops ?cd pds3] by simp
    have st5: "stored D h' ?cd s3" using u(1) unfolding stored_def cd_wf_def by simp
    have wf4: "cd_wf cd4" using u(1) by (simp add: stored_def)
    have "\<forall>k < unat (num cd4). bs_get (pieces cd4) k"
    proof -
      have "unat (num cd4) \<le> unat (num_downloaded cd4)" using fin(1) True by (simp add: word_le_nat_alt)
      then have "unat (num cd4) \<le> card {k. bs_get (pieces cd4) k}" using wf4 by (simp add: cd_wf_def)
      moreover have "{k. bs_get (pieces cd4) k} \<subseteq> {..<unat (num cd4)}"
        using wf4 by (auto simp: cd_wf_def bs_get_def split: if_splits)
      ultimately have "{k. bs_get (pieces cd4) k} = {..<unat (num cd4)}"
        by (intro card_seteq) auto
      then show ?thesis by auto
    qed
    moreover have "h' \<le> unat (num cd4)" using u(1) by (simp add: stored_def)
    ultimately have "h' = unat (num cd4)" using u(3,4) by (cases "h' < unat (num cd4)") auto
    then have "h' = unat (num cd')" "hash_ended cd' = Some (hash_data cd')" "h' = unat (num_pieces_in_hash cd')"
      using core_fields [OF c] u(2) by simp_all
    then show ?thesis using st5 stored_core [OF c] fin(2) by metis
  qed
qed

text \<open>One call of \<^verbatim>\<open>piece\<close> that throws nothing, for a piece that starts at a multiple of the piece size.\<close>

lemma piece_stored:
  assumes st: "stored D h cd s" and h: "h = unat (num_pieces_in_hash cd)"
    and al: "unat (rq_off p) mod MAX_PIECE_LEN = 0" and dat: "length dat = unat (rq_len p)"
    and r: "piece_cd ops sops p dat cd pds s = (None, fin, ok, cd', pds', s')"
  shows "\<exists>D' h'. stored D' h' cd' s' \<and> h' = unat (num_pieces_in_hash cd') \<and>
    (fin \<longrightarrow> h' = unat (num cd') \<and> hash_ended cd' = Some (hash_data cd'))"
proof -
  define pp where "pp = rq_off p div of_nat MAX_PIECE_LEN"
  define i where "i = unat pp"
  have wf: "cd_wf cd" using st by (simp add: stored_def)
  have "i = unat (rq_off p) div MAX_PIECE_LEN" by (simp add: i_def pp_def unat_div MAX_PIECE_LEN_def)
  then have off: "unat (rq_off p) = i * MAX_PIECE_LEN" using al by (metis mod_0_imp_dvd dvd_div_mult_self)
  have n0: "0 < unat (num cd)" using wf by (simp add: cd_wf_def word_less_nat_alt)
  have last: "pp = num cd - 1 \<longleftrightarrow> i = unat (num cd) - 1"
    using n0 by (simp add: i_def word_unat_eq_iff unat_sub word_le_nat_alt)
  define bad where "bad \<longleftrightarrow> num cd \<le> pp \<or> bs_get (pieces cd) (unat pp) \<or>
    rq_len p \<noteq> (if pp = num cd - 1 then last_size cd else of_nat MAX_PIECE_LEN)"
  note r' = r [unfolded piece_cd_def Let_def, folded pp_def, folded bad_def]
  show ?thesis
  proof (cases bad)
    case True
    then have "cd' = cd" "s' = s" "\<not> fin" using r' by auto
    then show ?thesis using st h by blast
  next
    case False
    then have lt: "i < unat (num cd)" and new: "\<not> bs_get (pieces cd) i" and len: "rq_len p = piece_len cd i"
      using last n0 by (auto simp: bad_def i_def word_le_nat_alt not_le piece_len_def)
    define cd1 where "cd1 = (case rq_pd p of Some pd \<Rightarrow> map_ds (ds_remove (unat pp)) pd cd | None \<Rightarrow> cd)"
    have c1: "core cd1 = core cd" by (simp add: cd1_def split: option.splits)
    have st1: "stored D h cd1 s" using st stored_core [OF c1] by simp
    note f1 = core_fields [OF c1]
    have idx: "cd_index cd = idx" using wf by (simp add: cd_wf_def)
    note r2 = r' [unfolded if_not_P [OF False] idx, folded cd1_def i_def]
    obtain s1 buf s2 n where pr: "so_prepare sops idx (rq_off p) (rq_len p) s = (s1, Inr buf)"
      and wr: "so_write sops buf dat s1 = (s2, Inr n)"
      using r2 by (auto split: prod.splits sum.splits)
    define cd2 where "cd2 = cd1\<lparr>piece_data := (piece_data cd1)[i := Some buf], pieces := bs_set i True (pieces cd1),
      piece_providers := List.insert (rq_pd p) (piece_providers cd1), num_downloaded := num_downloaded cd1 + 1\<rparr>"
    have "unat n = unat (piece_len cd1 i) \<and> stored (D(i := dat)) h cd2 s2"
      by (rule accept_stored [OF st1 _ _ off _ wr _ cd2_def])
        (use lt new len pr dat in \<open>simp_all add: f1\<close>)
    then have n: "n = rq_len p" and st2: "stored (D(i := dat)) h cd2 s2" using len f1 by (simp_all add: word_unat_eq_iff)
    have "piece_accepted ops sops p cd2 pds s2 = (None, fin, ok, cd', pds', s')" using r2 pr wr n by (simp add: cd2_def)
    moreover have "h = unat (num_pieces_in_hash cd2)" using h f1 by (simp add: cd2_def)
    ultimately show ?thesis using accepted_stored [OF st2] by blast
  qed
qed

lemma run_stored:
  assumes "stored D h cd s" and "h = unat (num_pieces_in_hash cd)" and "\<forall>e \<in> set es. event_ok e \<and> event_aligned e"
    and "chunk_run ops sops es cd pds s = Some (True, cd', s')"
  shows "\<exists>D. stored D (unat (num cd')) cd' s' \<and> hash_ended cd' = Some (hash_data cd')"
  using assms
proof (induction es arbitrary: D h cd pds s)
  case (Cons e es)
  show ?case
  proof (cases e)
    case (Arrive p dat)
    obtain ex fin ok cd1 pds1 s1 where r: "piece_cd ops sops p dat cd pds s = (ex, fin, ok, cd1, pds1, s1)" by (metis prod_cases6)
    have ex: "ex = None" using Cons.prems(4) Arrive r by (cases ex) auto
    have al: "unat (rq_off p) mod MAX_PIECE_LEN = 0" "length dat = unat (rq_len p)" using Cons.prems(3) Arrive by auto
    from piece_stored [OF Cons.prems(1,2) al, of ops pds fin ok cd1 pds1 s1] r ex obtain D' h' where
      d: "stored D' h' cd1 s1" "h' = unat (num_pieces_in_hash cd1)" "fin \<longrightarrow> h' = unat (num cd1) \<and> hash_ended cd1 = Some (hash_data cd1)"
      by blast
    show ?thesis
    proof (cases fin)
      case True
      then have "cd' = cd1" "s' = s1" using Cons.prems(4) Arrive r ex by simp_all
      then show ?thesis using d True by auto
    next
      case False
      then have "chunk_run ops sops es cd1 pds1 s1 = Some (True, cd', s')" using Cons.prems(4) Arrive r ex by simp
      then show ?thesis using Cons.IH [OF d(1,2)] Cons.prems(3) by simp
    qed
  next
    case (Assign pd)
    obtain b cd1 pds1 where a: "assign ops pd cd pds = (b, cd1, pds1)" by (metis prod_cases3)
    have c: "core cd1 = core cd" using core_assign [of ops pd cd pds] a by simp
    have "chunk_run ops sops es cd1 pds1 s = Some (True, cd', s')" using Cons.prems(4) Assign a by simp
    then show ?thesis
      using Cons.IH [of D h cd1 s pds1] Cons.prems(1-3) stored_core [OF c] core_fields(10) [OF c] by simp
  next
    case (Release pd)
    obtain cd1 pds1 where a: "cd_release ops pd cd pds = (cd1, pds1)" by fastforce
    have c: "core cd1 = core cd" using core_release [of ops pd cd pds] a by simp
    have "chunk_run ops sops es cd1 pds1 s = Some (True, cd', s')" using Cons.prems(4) Release a by simp
    then show ?thesis
      using Cons.IH [of D h cd1 s pds1] Cons.prems(1-3) stored_core [OF c] core_fields(10) [OF c] by simp
  qed
qed simp

lemma stored_disk:
  assumes st: "stored D (unat (num cd)) cd s"
  shows "hash_data cd = on_disk s 0 csize" and "length (hash_data cd) = csize"
proof -
  let ?n = "unat (num cd)"
  have wf: "cd_wf cd" using st by (simp add: stored_def)
  have n0: "0 < ?n" using wf by (simp add: cd_wf_def word_less_nat_alt)
  have d: "on_disk s (i * MAX_PIECE_LEN) (unat (piece_len cd i)) = D i" "length (D i) = unat (piece_len cd i)" if "i < ?n" for i
    using st that stored_piece [OF st that] by (auto simp: stored_def)
  have z: "on_disk s 0 0 = []" using disk_length [of s 0 0] by simp
  have pre: "on_disk s 0 (k * MAX_PIECE_LEN) = concat (map D [0..<k])" if "k \<le> ?n - 1" for k
    using that
  proof (induction k)
    case (Suc k)
    then have "unat (piece_len cd k) = MAX_PIECE_LEN" "k < ?n" using piece_len_cases(1) [OF wf, of k] by auto
    then show ?case using Suc d(1) [of k] disk_split [of s 0 "k * MAX_PIECE_LEN" MAX_PIECE_LEN] by (simp add: add.commute)
  qed (simp add: z)
  have l: "unat (piece_len cd (?n - 1)) = unat (last_size cd)" using piece_len_cases(1) [OF wf, of "?n - 1"] n0 by simp
  have c: "csize = (?n - 1) * MAX_PIECE_LEN + unat (last_size cd)" using wf unfolding cd_wf_def by blast
  have "[0..<?n] = [0..<?n - 1] @ [?n - 1]" using n0 by (metis One_nat_def Suc_pred upt_Suc_append zero_le)
  then have "concat (map D [0..<?n]) = on_disk s 0 ((?n - 1) * MAX_PIECE_LEN) @ on_disk s ((?n - 1) * MAX_PIECE_LEN) (unat (last_size cd))"
    using pre [of "?n - 1"] d(1) [of "?n - 1"] l n0 by simp
  moreover have hd: "hash_data cd = concat (map D [0..<?n])" using st by (simp add: stored_def)
  ultimately show "hash_data cd = on_disk s 0 csize"
    using disk_split [of s 0 "(?n - 1) * MAX_PIECE_LEN" "unat (last_size cd)"] unfolding c by simp
  have lens: "length (concat (map D [0..<k])) = k * MAX_PIECE_LEN" if "k \<le> ?n - 1" for k
    using that by (induction k) (use d(2) piece_len_cases(1) [OF wf] in auto)
  show "length (hash_data cd) = csize"
    using hd lens [of "?n - 1"] d(2) [of "?n - 1"] l n0 \<open>[0..<?n] = [0..<?n - 1] @ [?n - 1]\<close> unfolding c by simp
qed

lemma stored_new:
  assumes "wf s" and "\<And>p off len. \<not> live s p off len" and "unat sz = csize" and "0 < sz"
    and "core cd = core (ChunkDownload_new idx sz)"
  shows "stored (\<lambda>_. []) 0 cd s" and "num_pieces_in_hash cd = 0"
proof -
  let ?cd = "ChunkDownload_new idx sz" and ?N = "num (ChunkDownload_new idx sz)"
  define q r where qr: "q = csize div 16384" "r = csize mod 16384"
  have c: "csize = q * 16384 + r" "r < 16384" "csize < 4294967296" "0 < csize"
    using qr assms(3,4) unat_u32 [of sz] by (simp_all add: word_less_nat_alt)
  have u: "unat (sz div of_nat MAX_PIECE_LEN) = q" "unat (sz mod of_nat MAX_PIECE_LEN) = r"
    using qr assms(3) by (simp_all add: MAX_PIECE_LEN_def unat_div unat_mod)
  have r0: "sz mod of_nat MAX_PIECE_LEN \<noteq> 0 \<longleftrightarrow> r \<noteq> 0" using u(2) by (metis unat_0 unat_eq_zero)
  have q1: "q < 262144" using c by simp
  have N: "unat ?N = (if r = 0 then q else Suc q)" "unat (last_size ?cd) = (if r = 0 then 16384 else r)"
    using r0 u q1 by (auto simp: ChunkDownload_new_def Let_def MAX_PIECE_LEN_def unat_word_ariths)
  have n0: "0 < unat ?N" using N c by (cases q) auto
  have fl: "cd_index ?cd = idx" "pieces ?cd = bs_clear (bs_new (unat ?N))" "piece_data ?cd = replicate (unat ?N) None"
    "num_downloaded ?cd = 0" "hash_data ?cd = []" "num_pieces_in_hash ?cd = 0"
    by (simp_all add: ChunkDownload_new_def Let_def)
  have "unat ?N < 2 ^ 32" using unat_u32 [of ?N] by simp
  note new = bs_new_bits [OF this]
  have bits: "shape (pieces ?cd)" "counted (pieces ?cd)" "num_bits (pieces ?cd) = unat ?N" "\<not> bs_get (pieces ?cd) i" for i
    using bs_setAll_bits [OF new(1), of False] unfolding fl bs_clear_def by (auto simp: bs_get_bits)
  have none: "{i. bs_get (pieces ?cd) i} = {}" using bits(4) by simp
  have size: "csize = (unat ?N - 1) * MAX_PIECE_LEN + unat (last_size ?cd)"
    using c N by (cases "r = 0"; cases q) (simp_all add: MAX_PIECE_LEN_def)
  have "0 < ?N" "0 < last_size ?cd" "unat (last_size ?cd) \<le> MAX_PIECE_LEN" "unat ?N \<le> 262144"
    using n0 N c(2) q1 by (auto simp: word_less_nat_alt MAX_PIECE_LEN_def)
  then have "cd_wf ?cd" unfolding cd_wf_def none using bits(1-3) fl size by simp
  then have "stored (\<lambda>_. []) 0 ?cd s" using assms(1,2) bits(4) fl by (simp add: stored_def)
  then show "stored (\<lambda>_. []) 0 cd s" using stored_core [OF assms(5)] by simp
  show "num_pieces_in_hash cd = 0" using core_fields(10) [OF assms(5)] fl by simp
qed

lemma hash_is_disk:
  assumes "wf s" and "\<And>p off len. \<not> live s p off len" and "unat sz = csize" and "0 < sz"
    and "core cd = core (ChunkDownload_new idx sz)" and "\<forall>e \<in> set es. event_ok e \<and> event_aligned e"
    and "chunk_run ops sops es cd pds s = Some (True, cd', s')"
  shows "hash_ended cd' = Some (on_disk s' 0 csize) \<and> length (on_disk s' 0 csize) = csize"
proof -
  note st = stored_new [OF assms(1-5)]
  from run_stored [OF st(1) _ assms(6,7)] st(2) obtain D where
    "stored D (unat (num cd')) cd' s'" "hash_ended cd' = Some (hash_data cd')" by auto
  with stored_disk show ?thesis by fastforce
qed

end

end
