(* ===== verification/DiskCache.thy ===== *)
theory DiskCache
  imports Endian
begin

text \<open>
  The storage of pieces: \<^verbatim>\<open>bt::CacheFile\<close> (\<^verbatim>\<open>src/src/diskio/cachefile.cpp\<close>), the file of a torrent with
  its mappings; \<^verbatim>\<open>bt::PieceData\<close> (\<^verbatim>\<open>piecedata.cpp\<close>), a piece in memory that is either a buffer of its own
  or a window onto the mapped file; the piece cache of \<^verbatim>\<open>bt::Cache\<close> (\<^verbatim>\<open>cache.cpp\<close>); and the operations
  of \<^verbatim>\<open>bt::SingleFileCache\<close> (\<^verbatim>\<open>singlefilecache.cpp\<close>) that load, prepare and save pieces.

  Piece objects live in a heap: a list of objects whose indices are the shared pointers. A mapped
  piece has no bytes of its own: reading it reads the file and writing it writes the file, so pieces
  that overlap share what is in both. An operation that throws returns the error together
  with the state it left behind. What the operating system answers (whether the file can be opened
  again and mapped, whether seeks, reads, writes and resizes succeed, what new memory contains) is given by
  \<open>disk_env\<close>, indexed by a counter of the operations so far: \<open>No_mapping\<close> is a closed file that may not be
  opened for a mapping (descriptors run short, or a file system that cannot map), \<open>Cannot_open\<close> an
  \<^verbatim>\<open>openFile\<close> that throws. A file that can only be opened for reading has \<open>cf_read_only\<close>. Bus errors on mapped
  memory are left out.
\<close>

section \<open>The file\<close>

datatype disk_error = Beyond_max_size | Past_end | Not_writable | Os_error | Piece_read_only

datatype reopen = Opened | No_mapping | Cannot_open

record disk_env =
  env_reopen :: "nat \<Rightarrow> reopen"
  env_mmap :: "nat \<Rightarrow> bool"
  env_io :: "nat \<Rightarrow> bool"
  env_fill :: "nat \<Rightarrow> byte"

record cache_file =
  cf_data :: "byte list"
  cf_max_size :: u64
  cf_read_only :: bool

definition file_size :: "cache_file \<Rightarrow> u64" where
  "file_size cf = of_nat (length (cf_data cf))"

definition growFile :: "disk_env \<Rightarrow> nat \<Rightarrow> u64 \<Rightarrow> cache_file \<Rightarrow> disk_error + cache_file" where
  "growFile env k to_write cf =
     (if cf_read_only cf then Inl Not_writable
      else if cf_max_size cf < file_size cf + to_write then Inl Beyond_max_size
      else if \<not> env_io env k then Inl Os_error
      else Inr (cf\<lparr>cf_data := cf_data cf @ replicate (unat to_write) 0\<rparr>))"

text \<open>\<^verbatim>\<open>map\<close> gives a pointer or null; the file is grown to cover the mapping.\<close>

definition cf_map :: "disk_env \<Rightarrow> nat \<Rightarrow> u64 \<Rightarrow> u32 \<Rightarrow> bool \<Rightarrow> cache_file \<Rightarrow> disk_error + bool \<times> cache_file" where
  "cf_map env k off sz rw cf =
     (if env_reopen env k = No_mapping then Inr (False, cf)
      else if env_reopen env k = Cannot_open then Inl Os_error
      else if cf_read_only cf \<and> rw then Inl Not_writable
      else if cf_max_size cf < off + ucast sz then Inl Beyond_max_size
      else case (if file_size cf < off + ucast sz then growFile env k (off + ucast sz - file_size cf) cf else Inr cf) of
             Inl e \<Rightarrow> Inl e
           | Inr cf' \<Rightarrow> Inr (env_mmap env k, cf'))"

definition cf_read :: "disk_env \<Rightarrow> nat \<Rightarrow> u32 \<Rightarrow> u64 \<Rightarrow> cache_file \<Rightarrow> disk_error + byte list" where
  "cf_read env k sz off cf =
     (if env_reopen env k = Cannot_open then Inl Os_error
      else if file_size cf \<le> off \<or> cf_max_size cf \<le> off then Inl Past_end
      else if \<not> env_io env k then Inl Os_error
      else let bs = sliced (cf_data cf) (unat off) (unat sz) in
        if length bs \<noteq> unat sz then Inl Os_error else Inr bs)"

definition cf_write :: "disk_env \<Rightarrow> nat \<Rightarrow> byte list \<Rightarrow> u64 \<Rightarrow> cache_file \<Rightarrow> disk_error + cache_file" where
  "cf_write env k buf off cf =
     (if env_reopen env k = Cannot_open then Inl Os_error
      else if cf_read_only cf then Inl Not_writable
      else if cf_max_size cf < off + of_nat (length buf) then Inl Beyond_max_size
      else case (if file_size cf < off then growFile env k (off - file_size cf) cf else Inr cf) of
             Inl e \<Rightarrow> Inl e
           | Inr cf' \<Rightarrow>
               if \<not> env_io env k then Inl Os_error
               else Inr (cf'\<lparr>cf_data := splice_at (unat off) buf (cf_data cf')\<rparr>))"

section \<open>Pieces and the piece cache\<close>

text \<open>\<open>Gone\<close> is a piece whose pointer is null; its argument tells whether it was mapped.\<close>

datatype backing = Buffer "byte list" | Map | Gone bool

record piece_obj =
  po_chunk :: u32
  po_off :: u32
  po_len :: u32
  po_backing :: backing
  po_read_only :: bool

record disk =
  dk_chunk_size :: u64
  dk_file :: cache_file
  dk_heap :: "piece_obj list"
  dk_cache :: "u32 \<Rightarrow> (u64 \<times> nat) list"
  dk_mmap_failures :: u32
  dk_clock :: nat

definition piece_off :: "disk \<Rightarrow> u32 \<Rightarrow> u32 \<Rightarrow> u64" where
  "piece_off dk c off = ucast c * dk_chunk_size dk + ucast off"

definition pd_ok :: "piece_obj \<Rightarrow> bool" where
  "pd_ok po = (case po_backing po of Gone _ \<Rightarrow> False | _ \<Rightarrow> True)"

definition mapped :: "piece_obj \<Rightarrow> bool" where
  "mapped po = (case po_backing po of Buffer _ \<Rightarrow> False | Map \<Rightarrow> True | Gone m \<Rightarrow> m)"

text \<open>The bytes behind the pointer of a piece.\<close>

definition pd_bytes :: "disk \<Rightarrow> nat \<Rightarrow> byte list" where
  "pd_bytes dk p = (let po = dk_heap dk ! p in case po_backing po of
     Buffer b \<Rightarrow> b
   | Map \<Rightarrow> sliced (cf_data (dk_file dk)) (unat (piece_off dk (po_chunk po) (po_off po))) (unat (po_len po))
   | Gone _ \<Rightarrow> [])"

definition unload :: "nat \<Rightarrow> disk \<Rightarrow> disk" where
  "unload p dk = (let po = dk_heap dk ! p in
     if \<not> pd_ok po then dk else dk\<lparr>dk_heap := (dk_heap dk)[p := po\<lparr>po_backing := Gone (mapped po)\<rparr>]\<rparr>)"

text \<open>\<^verbatim>\<open>write\<close> at offset \<open>off\<close> of the piece: the number of bytes written.\<close>

definition pd_write :: "nat \<Rightarrow> byte list \<Rightarrow> u32 \<Rightarrow> disk \<Rightarrow> disk \<times> (disk_error + u32)" where
  "pd_write p buf off dk =
     (let po = dk_heap dk ! p in
      if po_len po < off + of_nat (length buf) \<or> \<not> pd_ok po then (dk, Inr 0)
      else if po_read_only po then (dk, Inl Piece_read_only)
      else (case po_backing po of
          Buffer b \<Rightarrow> dk\<lparr>dk_heap := (dk_heap dk)[p := po\<lparr>po_backing := Buffer (splice_at (unat off) buf b)\<rparr>]\<rparr>
        | _ \<Rightarrow> dk\<lparr>dk_file := (dk_file dk)\<lparr>cf_data :=
            splice_at (unat (piece_off dk (po_chunk po) (po_off po)) + unat off) buf (cf_data (dk_file dk))\<rparr>\<rparr>,
        Inr (of_nat (length buf))))"

definition pd_read :: "nat \<Rightarrow> u32 \<Rightarrow> u32 \<Rightarrow> disk \<Rightarrow> byte list" where
  "pd_read p to_read off dk =
     (let po = dk_heap dk ! p in
      if po_len po < off + to_read \<or> \<not> pd_ok po then [] else sliced (pd_bytes dk p) (unat off) (unat to_read))"

definition makeKey :: "u32 \<Rightarrow> u32 \<Rightarrow> u64" where
  "makeKey off len = push_bit 32 (ucast off) OR ucast len"

definition findPiece :: "u32 \<Rightarrow> u32 \<Rightarrow> u32 \<Rightarrow> bool \<Rightarrow> disk \<Rightarrow> nat option" where
  "findPiece c off len read_only dk =
     (let key = makeKey off len;
          candidates = takeWhile (\<lambda>e. fst e = key) (dropWhile (\<lambda>e. fst e < key) (dk_cache dk c))
      in map_option snd (List.find (\<lambda>e. read_only \<or> \<not> po_read_only (dk_heap dk ! snd e)) candidates))"

definition insertPiece :: "u32 \<Rightarrow> nat \<Rightarrow> disk \<Rightarrow> disk" where
  "insertPiece c p dk =
     (let key = makeKey (po_off (dk_heap dk ! p)) (po_len (dk_heap dk ! p)); info_list = dk_cache dk c
      in dk\<lparr>dk_cache := (dk_cache dk)(c := takeWhile (\<lambda>e. fst e \<le> key) info_list @ [(key, p)] @
                                         dropWhile (\<lambda>e. fst e \<le> key) info_list)\<rparr>)"

definition clearPieces_cache :: "u32 \<Rightarrow> disk \<Rightarrow> disk" where
  "clearPieces_cache c dk = dk\<lparr>dk_cache := (dk_cache dk)(c := [])\<rparr>"

text \<open>\<open>in_use\<close>: whether someone else holds the shared pointer; \<open>chunks\<close> are the keys of the hash table.\<close>

definition clearPieceCache :: "(nat \<Rightarrow> bool) \<Rightarrow> disk \<Rightarrow> disk" where
  "clearPieceCache in_use dk = dk\<lparr>dk_cache := (\<lambda>c. filter (\<lambda>e. in_use (snd e)) (dk_cache dk c))\<rparr>"

text \<open>\<^verbatim>\<open>checkMemoryUsage\<close> drops what nobody uses and counts the bytes in use and freed, for the log.\<close>

definition checkMemoryUsage :: "(nat \<Rightarrow> bool) \<Rightarrow> u32 list \<Rightarrow> disk \<Rightarrow> u64 \<times> u64 \<times> disk" where
  "checkMemoryUsage in_use chunks dk =
     (let infos = concat (map (dk_cache dk) chunks); len = (\<lambda>e. ucast (po_len (dk_heap dk ! snd e)) :: u64)
      in (sum_list (map len (filter (\<lambda>e. in_use (snd e)) infos)),
          sum_list (map len (filter (\<lambda>e. \<not> in_use (snd e)) infos)), clearPieceCache in_use dk))"

definition cleanupPieceCache :: "u32 list \<Rightarrow> disk \<Rightarrow> disk" where
  "cleanupPieceCache chunks dk =
     (fold (\<lambda>e. unload (snd e)) (concat (map (dk_cache dk) chunks)) dk)\<lparr>dk_cache := (\<lambda>_. [])\<rparr>"

section \<open>The single file cache\<close>

definition new_piece :: "u32 \<Rightarrow> u32 \<Rightarrow> u32 \<Rightarrow> backing \<Rightarrow> bool \<Rightarrow> disk \<Rightarrow> disk \<times> nat" where
  "new_piece c off len b read_only dk =
     (dk\<lparr>dk_heap := dk_heap dk @ [\<lparr>po_chunk = c, po_off = off, po_len = len, po_backing = b, po_read_only = read_only\<rparr>]\<rparr>,
      length (dk_heap dk))"

definition fresh_buffer :: "disk_env \<Rightarrow> u32 \<Rightarrow> backing" where
  "fresh_buffer env len = Buffer (map (env_fill env) [0..<unat len])"

definition createPiece_sfc :: "disk_env \<Rightarrow> u32 \<Rightarrow> u32 \<Rightarrow> u32 \<Rightarrow> bool \<Rightarrow> disk \<Rightarrow> disk \<times> (disk_error + nat)" where
  "createPiece_sfc env c off len read_only dk0 =
     (let dk = dk0\<lparr>dk_clock := dk_clock dk0 + 1\<rparr> in
      if 3 \<le> dk_mmap_failures dk then
        let (dk1, p) = new_piece c off len (fresh_buffer env len) read_only dk in (insertPiece c p dk1, Inr p)
      else case cf_map env (dk_clock dk) (piece_off dk c off) len (\<not> read_only) (dk_file dk) of
          Inl e \<Rightarrow> (dk, Inl e)
        | Inr (True, cf) \<Rightarrow>
            let (dk1, p) = new_piece c off len Map read_only (dk\<lparr>dk_file := cf\<rparr>) in (insertPiece c p dk1, Inr p)
        | Inr (False, cf) \<Rightarrow>
            let (dk1, p) = new_piece c off len (fresh_buffer env len) read_only
                  (dk\<lparr>dk_file := cf, dk_mmap_failures := dk_mmap_failures dk + 1\<rparr>) in (insertPiece c p dk1, Inr p))"

text \<open>A piece that is not mapped is read from the file; when that throws the piece stays in the cache.\<close>

definition loadPiece :: "disk_env \<Rightarrow> u32 \<Rightarrow> u32 \<Rightarrow> u32 \<Rightarrow> disk \<Rightarrow> disk \<times> (disk_error + nat)" where
  "loadPiece env c off len dk = (case findPiece c off len True dk of
     Some p \<Rightarrow> (dk, Inr p)
   | None \<Rightarrow> (case createPiece_sfc env c off len True dk of
       (dk1, Inl e) \<Rightarrow> (dk1, Inl e)
     | (dk1, Inr p) \<Rightarrow>
         if mapped (dk_heap dk1 ! p) then (dk1, Inr p)
         else let dk2 = dk1\<lparr>dk_clock := dk_clock dk1 + 1\<rparr> in
           case cf_read env (dk_clock dk2) len (piece_off dk2 c off) (dk_file dk2) of
             Inl e \<Rightarrow> (dk2, Inl e)
           | Inr bs \<Rightarrow> (dk2\<lparr>dk_heap := (dk_heap dk2)[p := (dk_heap dk2 ! p)\<lparr>po_backing := Buffer bs\<rparr>]\<rparr>, Inr p)))"

definition preparePiece :: "disk_env \<Rightarrow> u32 \<Rightarrow> u32 \<Rightarrow> u32 \<Rightarrow> disk \<Rightarrow> disk \<times> (disk_error + nat)" where
  "preparePiece env c off len dk = (case findPiece c off len False dk of
     Some p \<Rightarrow> (dk, Inr p)
   | None \<Rightarrow> createPiece_sfc env c off len False dk)"

definition savePiece :: "disk_env \<Rightarrow> nat \<Rightarrow> disk \<Rightarrow> disk \<times> (disk_error + unit)" where
  "savePiece env p dk0 =
     (let dk = dk0\<lparr>dk_clock := dk_clock dk0 + 1\<rparr>; po = dk_heap dk ! p in
      if \<not> mapped po \<and> pd_ok po then
        case cf_write env (dk_clock dk) (pd_bytes dk p) (piece_off dk (po_chunk po) (po_off po)) (dk_file dk) of
          Inl e \<Rightarrow> (dk, Inl e)
        | Inr cf \<Rightarrow> (dk\<lparr>dk_file := cf\<rparr>, Inr ())
      else (dk, Inr ()))"

end
