(* ===== verification/Storage.thy ===== *)
theory Storage
  imports ChunkStore DiskCache
begin

text \<open>
  The single file cache provides what a chunk download relies on, whatever the operating
  system answers: mapped and buffered pieces, and the switch between them when mappings fail, make no
  difference to what is hashed and what ends up in the file.
\<close>

section \<open>The file\<close>

lemma sliced_append_left: "off + len \<le> length xs \<Longrightarrow> sliced (xs @ ys) off len = sliced xs off len"
  by (simp add: sliced_def)

lemma sliced_full: "length (sliced xs off len) = len \<Longrightarrow> 0 < len \<Longrightarrow> off + len \<le> length xs"
  by (simp add: sliced_def)

lemma cf_map_result:
  assumes "cf_map env k off sz rw cf = Inr (b, cf')" and "length (cf_data cf) \<le> unat (cf_max_size cf)"
  shows "\<exists>z. cf_data cf' = cf_data cf @ z" and "cf_max_size cf' = cf_max_size cf" and "length (cf_data cf') \<le> unat (cf_max_size cf)"
    and "b \<Longrightarrow> unat (off + ucast sz) \<le> length (cf_data cf')"
proof -
  let ?e = "off + ucast sz"
  have fs: "unat (file_size cf) = length (cf_data cf)"
    using assms(2) unat_u64 [of "cf_max_size cf"] by (simp add: file_size_def unat_of_nat)
  define g where "g = (if file_size cf < ?e then growFile env k (?e - file_size cf) cf else Inr cf)"
  have r: "(if env_reopen env k = No_mapping then Inr (False, cf) else if env_reopen env k = Cannot_open then Inl Os_error else if cf_read_only cf \<and> rw then Inl Not_writable
      else if cf_max_size cf < ?e then Inl Beyond_max_size
      else case g of Inl e \<Rightarrow> Inl e | Inr cf' \<Rightarrow> Inr (env_mmap env k, cf')) = Inr (b, cf')"
    using assms(1) by (simp only: cf_map_def g_def)
  have g': "g = Inr cf' \<Longrightarrow> file_size cf < ?e \<Longrightarrow> cf' = cf\<lparr>cf_data := cf_data cf @ replicate (unat (?e - file_size cf)) 0\<rparr>"
    unfolding g_def growFile_def by (simp split: if_splits)
  have "cf' = cf \<and> \<not> b \<or> \<not> cf_max_size cf < ?e \<and> g = Inr cf'"
    using r by (cases "env_reopen env k"; cases "cf_read_only cf \<and> rw"; cases "cf_max_size cf < ?e"; cases g) simp_all
  then have "(\<exists>z. cf_data cf' = cf_data cf @ z) \<and> cf_max_size cf' = cf_max_size cf \<and> length (cf_data cf') \<le> unat (cf_max_size cf) \<and>
    (b \<longrightarrow> unat ?e \<le> length (cf_data cf'))"
  proof (elim disjE conjE)
    assume "cf' = cf" "\<not> b"
    then show ?thesis using assms(2) by simp
  next
    assume m: "\<not> cf_max_size cf < ?e" and gi: "g = Inr cf'"
    show ?thesis
    proof (cases "file_size cf < ?e")
      case True
      have "unat (?e - file_size cf) = unat ?e - length (cf_data cf)" using True fs by (simp add: unat_sub word_less_nat_alt word_le_nat_alt)
      then show ?thesis using g' [OF gi True] True m fs by (simp add: word_less_nat_alt)
    next
      case False
      then have "cf' = cf" using gi by (simp add: g_def)
      then show ?thesis using False assms(2) fs by (simp add: word_less_nat_alt)
    qed
  qed
  then show "\<exists>z. cf_data cf' = cf_data cf @ z" "cf_max_size cf' = cf_max_size cf" "length (cf_data cf') \<le> unat (cf_max_size cf)"
    "b \<Longrightarrow> unat ?e \<le> length (cf_data cf')" by blast+
qed

lemma cf_write_result:
  assumes "cf_write env k buf off cf = Inr cf'" and "length (cf_data cf) \<le> unat (cf_max_size cf)"
    and fit: "unat off + length buf \<le> unat (cf_max_size cf)"
  shows "cf_max_size cf' = cf_max_size cf" and "length (cf_data cf) \<le> length (cf_data cf')" and "length (cf_data cf') \<le> unat (cf_max_size cf)"
    and "sliced (cf_data cf') (unat off) (length buf) = buf"
    and "a + n \<le> length (cf_data cf) \<Longrightarrow> a + n \<le> unat off \<or> unat off + length buf \<le> a \<Longrightarrow>
      sliced (cf_data cf') a n = sliced (cf_data cf) a n"
proof -
  have fs: "unat (file_size cf) = length (cf_data cf)"
    using assms(2) unat_u64 [of "cf_max_size cf"] by (simp add: file_size_def unat_of_nat)
  define d where "d = cf_data cf @ replicate (unat off - length (cf_data cf)) 0"
  have g: "unat (off - file_size cf) = unat off - length (cf_data cf)" if "file_size cf < off"
    using that fs by (simp add: unat_sub word_less_nat_alt word_le_nat_alt)
  have cf': "cf' = cf\<lparr>cf_data := splice_at (unat off) buf d\<rparr>"
  proof (cases "file_size cf < off")
    case True
    then show ?thesis using assms(1) g unfolding cf_write_def growFile_def by (simp add: d_def split: if_splits)
  next
    case False
    then have "unat off - length (cf_data cf) = 0" using fs by (simp add: word_less_nat_alt)
    then show ?thesis using False assms(1) unfolding cf_write_def by (simp add: d_def split: if_splits)
  qed
  have len: "unat off \<le> length d" "length (cf_data cf) \<le> length d" "length d \<le> unat (cf_max_size cf)"
    using assms(2) fit by (simp_all add: d_def)
  show "cf_max_size cf' = cf_max_size cf" by (simp add: cf')
  show "length (cf_data cf) \<le> length (cf_data cf')" "length (cf_data cf') \<le> unat (cf_max_size cf)"
    using len fit by (simp_all add: cf' splice_at_def)
  show "sliced (cf_data cf') (unat off) (length buf) = buf" using sliced_splice_at_same [OF len(1)] by (simp add: cf')
  show "sliced (cf_data cf') a n = sliced (cf_data cf) a n"
    if a: "a + n \<le> length (cf_data cf)" and ap: "a + n \<le> unat off \<or> unat off + length buf \<le> a"
  proof -
    have "sliced d a n = sliced (cf_data cf) a n" using a by (simp add: d_def sliced_append_left)
    moreover have "sliced (splice_at (unat off) buf d) a n = sliced d a n"
    proof (cases "a + n \<le> unat off")
      case True
      then show ?thesis using len by (simp add: sliced_def splice_at_def take_drop)
    next
      case False
      then have "unat off + length buf \<le> a" using ap by simp
      then show ?thesis using len by (simp add: sliced_def splice_at_def)
    qed
    ultimately show ?thesis by (simp add: cf')
  qed
qed

section \<open>Keys\<close>

lemma makeKey_inj: "makeKey off len = makeKey off' len' \<longleftrightarrow> off = off' \<and> len = len'"
proof
  assume e: "makeKey off len = makeKey off' len'"
  have l: "ucast (makeKey a b) = b" and o: "ucast (drop_bit 32 (makeKey a b)) = a" for a b :: u32
    by (rule bit_word_eqI; simp add: makeKey_def bit_simps; auto dest: bit_imp_le_length)+
  from l [of off len] l [of off' len'] o [of off len] o [of off' len'] e show "off = off' \<and> len = len'" by simp
qed simp

lemma makeKey_arith [code]: "makeKey off len = ucast off * 4294967296 + ucast len"
proof -
  have "push_bit 32 (ucast off) + (ucast len :: u64) = push_bit 32 (ucast off) OR ucast len"
    by (rule disjunctive_add_eq_or, rule bit_word_eqI) (auto simp: bit_simps dest: bit_imp_le_length)
  then show ?thesis by (simp add: makeKey_def push_bit_eq_mult)
qed

section \<open>The single file cache as a store\<close>

definition sfc_ops :: "disk_env \<Rightarrow> (disk, disk_error) store_ops" where
  "sfc_ops env = \<lparr>so_load = loadPiece env, so_prepare = preparePiece env, so_save = savePiece env,
     so_write = (\<lambda>p buf. pd_write p buf 0), so_ok = (\<lambda>p dk. pd_ok (dk_heap dk ! p)), so_bytes = (\<lambda>p dk. pd_bytes dk p)\<rparr>"

definition chunk_base :: "u32 \<Rightarrow> disk \<Rightarrow> nat" where
  "chunk_base idx dk = unat idx * unat (dk_chunk_size dk)"

definition sfc_live :: "u32 \<Rightarrow> nat \<Rightarrow> disk \<Rightarrow> nat \<Rightarrow> nat \<Rightarrow> nat \<Rightarrow> bool" where
  "sfc_live idx csize dk p off len \<longleftrightarrow> p < length (dk_heap dk) \<and> (let po = dk_heap dk ! p in
     po_chunk po = idx \<and> unat (po_off po) = off \<and> unat (po_len po) = len \<and> \<not> po_read_only po \<and> off + len \<le> csize \<and>
     chunk_base idx dk + csize \<le> unat (cf_max_size (dk_file dk)) \<and>
     (case po_backing po of Buffer b \<Rightarrow> length b = len
      | Map \<Rightarrow> chunk_base idx dk + off + len \<le> length (cf_data (dk_file dk)) | Gone _ \<Rightarrow> False))"

definition sfc_wf :: "u32 \<Rightarrow> nat \<Rightarrow> disk \<Rightarrow> bool" where
  "sfc_wf idx csize dk \<longleftrightarrow> chunk_base idx dk + csize \<le> unat (cf_max_size (dk_file dk)) \<and>
     length (cf_data (dk_file dk)) \<le> unat (cf_max_size (dk_file dk)) \<and>
     (\<forall>(k, p) \<in> set (dk_cache dk idx). k = makeKey (po_off (dk_heap dk ! p)) (po_len (dk_heap dk ! p)) \<and> p < length (dk_heap dk) \<and>
        (\<not> po_read_only (dk_heap dk ! p) \<longrightarrow>
          sfc_live idx csize dk p (unat (po_off (dk_heap dk ! p))) (unat (po_len (dk_heap dk ! p))))) \<and>
     (\<forall>po \<in> set (dk_heap dk). po_chunk po = idx \<longrightarrow> po_backing po = Map \<longrightarrow> \<not> po_read_only po \<longrightarrow>
        chunk_base idx dk + unat (po_off po) + unat (po_len po) \<le> length (cf_data (dk_file dk)))"

definition sfc_disk :: "u32 \<Rightarrow> disk \<Rightarrow> nat \<Rightarrow> nat \<Rightarrow> byte list" where
  "sfc_disk idx dk off len = sliced (cf_data (dk_file dk)) (chunk_base idx dk + off) len"

lemma piece_off_exact:
  assumes "chunk_base idx dk + csize \<le> unat (cf_max_size (dk_file dk))" and "unat off \<le> csize"
  shows "unat (piece_off dk idx off) = chunk_base idx dk + unat off"
proof -
  have "chunk_base idx dk + unat off < 18446744073709551616"
    using assms unat_u64 [of "cf_max_size (dk_file dk)"] by simp
  then show ?thesis by (simp add: piece_off_def chunk_base_def unat_word_ariths unat_ucast_u64)
qed

text \<open>The bytes of a live piece.\<close>

lemma live_pd_bytes:
  assumes "sfc_live idx csize dk p off len"
  shows "pd_bytes dk p = (case po_backing (dk_heap dk ! p) of Buffer b \<Rightarrow> b | _ \<Rightarrow> sfc_disk idx dk off len)"
    and "length (pd_bytes dk p) = len" and "pd_ok (dk_heap dk ! p)"
proof -
  let ?po = "dk_heap dk ! p"
  have f: "po_chunk ?po = idx" "unat (po_off ?po) = off" "unat (po_len ?po) = len" "off + len \<le> csize"
    "chunk_base idx dk + csize \<le> unat (cf_max_size (dk_file dk))"
    using assms by (simp_all add: sfc_live_def Let_def)
  have o: "unat (piece_off dk idx (po_off ?po)) = chunk_base idx dk + off" using piece_off_exact [OF f(5), of "po_off ?po"] f by simp
  show b: "pd_bytes dk p = (case po_backing ?po of Buffer b \<Rightarrow> b | _ \<Rightarrow> sfc_disk idx dk off len)"
    using assms f o by (auto simp: pd_bytes_def sfc_disk_def sfc_live_def Let_def split: backing.splits)
  show "length (pd_bytes dk p) = len" "pd_ok ?po"
    using assms unfolding b by (auto simp: sfc_live_def sfc_disk_def sliced_def pd_ok_def Let_def split: backing.splits)
qed

text \<open>A new piece at the end of the heap and in the cache, with the file grown by \<open>z\<close>.\<close>

lemma new_piece_frame:
  assumes wf: "sfc_wf idx csize dk" and fit: "unat off + unat len \<le> csize"
    and dk': "dk' = insertPiece idx (length (dk_heap dk)) (dk\<lparr>dk_heap := dk_heap dk @ [\<lparr>po_chunk = idx, po_off = off, po_len = len,
        po_backing = b, po_read_only = False\<rparr>], dk_file := cf, dk_mmap_failures := f, dk_clock := c\<rparr>)"
    and dat: "cf_data cf = cf_data (dk_file dk) @ z" and mx: "cf_max_size cf = cf_max_size (dk_file dk)"
    and room: "length (cf_data cf) \<le> unat (cf_max_size cf)"
    and b: "case b of Buffer bs \<Rightarrow> length bs = unat len | Map \<Rightarrow> chunk_base idx dk + unat off + unat len \<le> length (cf_data cf) | Gone _ \<Rightarrow> False"
  shows "sfc_wf idx csize dk'" and "sfc_live idx csize dk' (length (dk_heap dk)) (unat off) (unat len)"
    and "sfc_live idx csize dk p o' l' \<Longrightarrow> sfc_live idx csize dk' p o' l' \<and> pd_bytes dk' p = pd_bytes dk p"
    and "sfc_live idx csize dk' p o' l' \<Longrightarrow> sfc_live idx csize dk p o' l' \<or> p = length (dk_heap dk)"
    and "length (sfc_disk idx dk o' l') = l' \<Longrightarrow> sfc_disk idx dk' o' l' = sfc_disk idx dk o' l'"
proof -
  let ?n = "length (dk_heap dk)" and ?po = "\<lparr>po_chunk = idx, po_off = off, po_len = len, po_backing = b, po_read_only = False\<rparr>"
  have f: "dk_heap dk' = dk_heap dk @ [?po]" "dk_chunk_size dk' = dk_chunk_size dk" "dk_file dk' = cf"
    "set (dk_cache dk' idx) = insert (makeKey off len, ?n) (set (dk_cache dk idx))"
    by (simp_all add: dk' insertPiece_def Let_def nth_append) (metis set_append takeWhile_dropWhile_id Un_insert_right)
  have base: "chunk_base idx dk' = chunk_base idx dk" by (simp add: chunk_base_def f)
  have w: "chunk_base idx dk + csize \<le> unat (cf_max_size (dk_file dk))" using wf by (simp add: sfc_wf_def)
  have live_new: "sfc_live idx csize dk' ?n (unat off) (unat len)"
    using fit w b by (simp add: sfc_live_def f base mx nth_append Let_def split: backing.splits)
  have live_old: "sfc_live idx csize dk' p o' l'" if "sfc_live idx csize dk p o' l'" for p o' l'
    using that by (auto simp: sfc_live_def f base mx dat nth_append Let_def split: backing.splits)
  show "sfc_live idx csize dk' ?n (unat off) (unat len)" by (rule live_new)
  have disk: "sfc_disk idx dk' o' l' = sfc_disk idx dk o' l'" if "chunk_base idx dk + o' + l' \<le> length (cf_data (dk_file dk)) \<or> l' = 0" for o' l'
    using that by (auto simp: sfc_disk_def f base dat sliced_append_left) (simp add: sliced_def)
  show "length (sfc_disk idx dk o' l') = l' \<Longrightarrow> sfc_disk idx dk' o' l' = sfc_disk idx dk o' l'"
    using sliced_full [of "cf_data (dk_file dk)" "chunk_base idx dk + o'" l'] disk [of o' l'] by (cases "l' = 0") (auto simp: sfc_disk_def [of idx dk])
  show "sfc_live idx csize dk' p o' l' \<and> pd_bytes dk' p = pd_bytes dk p" if l: "sfc_live idx csize dk p o' l'"
  proof
    show l': "sfc_live idx csize dk' p o' l'" by (rule live_old [OF l])
    have h: "dk_heap dk' ! p = dk_heap dk ! p" using l by (simp add: sfc_live_def f nth_append)
    show "pd_bytes dk' p = pd_bytes dk p"
      unfolding live_pd_bytes(1) [OF l] live_pd_bytes(1) [OF l'] h
      using l disk [of o' l'] by (auto simp: sfc_live_def Let_def split: backing.splits)
  qed
  show "sfc_live idx csize dk p o' l' \<or> p = ?n" if l: "sfc_live idx csize dk' p o' l'"
  proof (cases "p = ?n")
    case False
    then have p: "p < ?n" using l by (simp add: sfc_live_def f)
    then have "dk_heap dk ! p \<in> set (dk_heap dk)" by simp
    then have "po_chunk (dk_heap dk ! p) = idx \<longrightarrow> po_backing (dk_heap dk ! p) = Map \<longrightarrow> \<not> po_read_only (dk_heap dk ! p) \<longrightarrow>
        chunk_base idx dk + unat (po_off (dk_heap dk ! p)) + unat (po_len (dk_heap dk ! p)) \<le> length (cf_data (dk_file dk))"
      using wf unfolding sfc_wf_def by blast
    then show ?thesis using l p by (auto simp: sfc_live_def f base mx nth_append Let_def split: backing.splits)
  qed simp
  show "sfc_wf idx csize dk'"
    unfolding sfc_wf_def
  proof (intro conjI)
    show "chunk_base idx dk' + csize \<le> unat (cf_max_size (dk_file dk'))" using w by (simp add: base f mx)
    show "length (cf_data (dk_file dk')) \<le> unat (cf_max_size (dk_file dk'))" using room by (simp add: f)
    show "\<forall>(k, p) \<in> set (dk_cache dk' idx). k = makeKey (po_off (dk_heap dk' ! p)) (po_len (dk_heap dk' ! p)) \<and> p < length (dk_heap dk') \<and>
        (\<not> po_read_only (dk_heap dk' ! p) \<longrightarrow> sfc_live idx csize dk' p (unat (po_off (dk_heap dk' ! p))) (unat (po_len (dk_heap dk' ! p))))"
      using live_new live_old wf unfolding f(4) sfc_wf_def by (auto simp: f(1) nth_append)
    show "\<forall>po \<in> set (dk_heap dk'). po_chunk po = idx \<longrightarrow> po_backing po = Map \<longrightarrow> \<not> po_read_only po \<longrightarrow>
        chunk_base idx dk' + unat (po_off po) + unat (po_len po) \<le> length (cf_data (dk_file dk'))"
    proof (intro ballI impI)
      fix po assume po: "po \<in> set (dk_heap dk')" "po_chunk po = idx" "po_backing po = Map" "\<not> po_read_only po"
      show "chunk_base idx dk' + unat (po_off po) + unat (po_len po) \<le> length (cf_data (dk_file dk'))"
      proof (cases "po \<in> set (dk_heap dk)")
        case True
        then have "chunk_base idx dk + unat (po_off po) + unat (po_len po) \<le> length (cf_data (dk_file dk))"
          using wf po(2-4) unfolding sfc_wf_def by blast
        then show ?thesis by (simp add: f base dat)
      next
        case False
        then have "po = ?po" using po(1) by (simp add: f)
        then show ?thesis using po(3) b by (simp add: f base)
      qed
    qed
  qed
qed

text \<open>A change of the contents of the file that does not shorten it.\<close>

lemma file_frame:
  assumes wf: "sfc_wf idx csize dk" and dk': "dk' = dk\<lparr>dk_file := cf, dk_clock := c\<rparr>"
    and mx: "cf_max_size cf = cf_max_size (dk_file dk)" and grow: "length (cf_data (dk_file dk)) \<le> length (cf_data cf)"
    and room: "length (cf_data cf) \<le> unat (cf_max_size cf)"
  shows "sfc_wf idx csize dk'" and "sfc_live idx csize dk' p o' l' \<longleftrightarrow> sfc_live idx csize dk p o' l'"
proof -
  have base: "chunk_base idx dk' = chunk_base idx dk" by (simp add: chunk_base_def dk')
  have maps: "chunk_base idx dk + unat (po_off po) + unat (po_len po) \<le> length (cf_data (dk_file dk))"
    if "po \<in> set (dk_heap dk)" "po_chunk po = idx" "po_backing po = Map" "\<not> po_read_only po" for po
    using wf that unfolding sfc_wf_def by blast
  have live: "sfc_live idx csize dk' p o' l' \<longleftrightarrow> sfc_live idx csize dk p o' l'" for p o' l'
  proof (cases "p < length (dk_heap dk)")
    case True
    then have "dk_heap dk ! p \<in> set (dk_heap dk)" by simp
    from maps [OF this] show ?thesis using grow unfolding sfc_live_def base
      by (cases "po_backing (dk_heap dk ! p)") (auto simp: dk' mx Let_def)
  qed (simp add: sfc_live_def dk')
  then show "sfc_live idx csize dk' p o' l' \<longleftrightarrow> sfc_live idx csize dk p o' l'" .
  have maps': "chunk_base idx dk + unat (po_off po) + unat (po_len po) \<le> length (cf_data cf)"
    if "po \<in> set (dk_heap dk)" "po_chunk po = idx" "po_backing po = Map" "\<not> po_read_only po" for po
    using maps [OF that] grow by simp
  show "sfc_wf idx csize dk'"
    using wf room maps' unfolding sfc_wf_def base live by (simp add: dk' mx)
qed

text \<open>New bytes in the buffer of a piece.\<close>

lemma buffer_frame:
  assumes wf: "sfc_wf idx csize dk" and live: "sfc_live idx csize dk p off len" and len: "length bs = len"
    and dk': "dk' = dk\<lparr>dk_heap := (dk_heap dk)[p := (dk_heap dk ! p)\<lparr>po_backing := Buffer bs\<rparr>]\<rparr>"
  shows "sfc_wf idx csize dk'" and "sfc_live idx csize dk' q o' l' \<longleftrightarrow> sfc_live idx csize dk q o' l'"
    and "pd_bytes dk' q = (if q = p then bs else pd_bytes dk q)"
proof -
  have p: "p < length (dk_heap dk)" using live by (simp add: sfc_live_def)
  have base: "chunk_base idx dk' = chunk_base idx dk" by (simp add: chunk_base_def dk')
  have h: "po_chunk (dk_heap dk' ! q) = po_chunk (dk_heap dk ! q)" "po_off (dk_heap dk' ! q) = po_off (dk_heap dk ! q)"
    "po_len (dk_heap dk' ! q) = po_len (dk_heap dk ! q)" "po_read_only (dk_heap dk' ! q) = po_read_only (dk_heap dk ! q)" for q
    using p by (cases "q = p"; simp add: dk')+
  have live': "sfc_live idx csize dk' q o' l' \<longleftrightarrow> sfc_live idx csize dk q o' l'" for q o' l'
    using live len unfolding sfc_live_def base h Let_def by (cases "q = p") (auto simp: dk' split: backing.splits)
  then show "sfc_live idx csize dk' q o' l' \<longleftrightarrow> sfc_live idx csize dk q o' l'" .
  show "pd_bytes dk' q = (if q = p then bs else pd_bytes dk q)" using p by (cases "q = p"; cases "po_backing (dk_heap dk ! q)") (simp_all add: pd_bytes_def dk' piece_off_def)
  show "sfc_wf idx csize dk'"
    unfolding sfc_wf_def
  proof (intro conjI)
    show "chunk_base idx dk' + csize \<le> unat (cf_max_size (dk_file dk'))" "length (cf_data (dk_file dk')) \<le> unat (cf_max_size (dk_file dk'))"
      using wf by (simp_all add: sfc_wf_def base) (simp_all add: dk')
    have "dk_cache dk' = dk_cache dk" "length (dk_heap dk') = length (dk_heap dk)" by (simp_all add: dk')
    then show "\<forall>(k, p) \<in> set (dk_cache dk' idx). k = makeKey (po_off (dk_heap dk' ! p)) (po_len (dk_heap dk' ! p)) \<and> p < length (dk_heap dk') \<and>
        (\<not> po_read_only (dk_heap dk' ! p) \<longrightarrow> sfc_live idx csize dk' p (unat (po_off (dk_heap dk' ! p))) (unat (po_len (dk_heap dk' ! p))))"
      using wf unfolding h live' sfc_wf_def by simp
    show "\<forall>po \<in> set (dk_heap dk'). po_chunk po = idx \<longrightarrow> po_backing po = Map \<longrightarrow> \<not> po_read_only po \<longrightarrow>
        chunk_base idx dk' + unat (po_off po) + unat (po_len po) \<le> length (cf_data (dk_file dk'))"
    proof (intro ballI impI)
      fix po assume po: "po \<in> set (dk_heap dk')" "po_chunk po = idx" "po_backing po = Map" "\<not> po_read_only po"
      then have "po \<in> set (dk_heap dk)" using set_update_subset_insert by (fastforce simp: dk')
      then show "chunk_base idx dk' + unat (po_off po) + unat (po_len po) \<le> length (cf_data (dk_file dk'))"
        using wf po(2-4) unfolding sfc_wf_def base by (simp add: dk')
    qed
  qed
qed

section \<open>The operations of the cache\<close>

lemma sliced_splice_at_apart:
  "off \<le> length d \<Longrightarrow> a + n \<le> off \<or> off + length buf \<le> a \<Longrightarrow> sliced (splice_at off buf d) a n = sliced d a n"
  by (auto simp: sliced_def splice_at_def take_drop)

lemma findPiece_none:
  assumes wf: "sfc_wf idx csize dk" and n: "0 < n32" and ap: "\<And>p o' l'. sfc_live idx csize dk p o' l' \<Longrightarrow> apart (unat w) (unat n32) o' l'"
  shows "findPiece idx w n32 False dk = None"
proof (rule ccontr)
  assume "findPiece idx w n32 False dk \<noteq> None"
  then obtain e where e: "List.find (\<lambda>e. \<not> po_read_only (dk_heap dk ! snd e))
      (takeWhile (\<lambda>e. fst e = makeKey w n32) (dropWhile (\<lambda>e. fst e < makeKey w n32) (dk_cache dk idx))) = Some e"
    by (auto simp: findPiece_def Let_def)
  then have "\<not> po_read_only (dk_heap dk ! snd e)"
    and "e \<in> set (takeWhile (\<lambda>e. fst e = makeKey w n32) (dropWhile (\<lambda>e. fst e < makeKey w n32) (dk_cache dk idx)))"
    by (metis (no_types, lifting) find_Some_iff nth_mem)+
  then have "\<not> po_read_only (dk_heap dk ! snd e)" "fst e = makeKey w n32" "e \<in> set (dk_cache dk idx)"
    by (auto dest: set_takeWhileD set_dropWhileD)
  then have "makeKey w n32 = makeKey (po_off (dk_heap dk ! snd e)) (po_len (dk_heap dk ! snd e))"
    "sfc_live idx csize dk (snd e) (unat (po_off (dk_heap dk ! snd e))) (unat (po_len (dk_heap dk ! snd e)))"
    using wf unfolding sfc_wf_def by (cases e; fastforce)+
  then have "sfc_live idx csize dk (snd e) (unat w) (unat n32)" by (simp add: makeKey_inj)
  from ap [OF this] n show False by (simp add: apart_def word_less_nat_alt)
qed

lemma sfc_prepare:
  assumes wf: "sfc_wf idx csize dk" and n: "0 < n32" and fit: "unat w + unat n32 \<le> csize"
    and ap: "\<And>p o' l'. sfc_live idx csize dk p o' l' \<Longrightarrow> apart (unat w) (unat n32) o' l'"
    and r: "preparePiece env idx w n32 dk = (dk', Inr q)"
  shows "sfc_wf idx csize dk' \<and> sfc_live idx csize dk' q (unat w) (unat n32) \<and>
      (\<forall>p o' l'. sfc_live idx csize dk p o' l' \<longrightarrow> sfc_live idx csize dk' p o' l' \<and> pd_bytes dk' p = pd_bytes dk p) \<and>
      (\<forall>p o' l'. sfc_live idx csize dk' p o' l' \<longrightarrow> sfc_live idx csize dk p o' l' \<or> p = q) \<and>
      (\<forall>o' l'. length (sfc_disk idx dk o' l') = l' \<longrightarrow> sfc_disk idx dk' o' l' = sfc_disk idx dk o' l')"
proof -
  have c: "createPiece_sfc env idx w n32 False dk = (dk', Inr q)" using r findPiece_none [OF wf n ap] by (simp add: preparePiece_def)
  have room: "length (cf_data (dk_file dk)) \<le> unat (cf_max_size (dk_file dk))"
    and w: "chunk_base idx dk + csize \<le> unat (cf_max_size (dk_file dk))" using wf by (simp_all add: sfc_wf_def)
  have "\<exists>b cf f c z. q = length (dk_heap dk) \<and>
      dk' = insertPiece idx (length (dk_heap dk)) (dk\<lparr>dk_heap := dk_heap dk @ [\<lparr>po_chunk = idx, po_off = w, po_len = n32,
        po_backing = b, po_read_only = False\<rparr>], dk_file := cf, dk_mmap_failures := f, dk_clock := c\<rparr>) \<and>
      cf_data cf = cf_data (dk_file dk) @ z \<and> cf_max_size cf = cf_max_size (dk_file dk) \<and> length (cf_data cf) \<le> unat (cf_max_size cf) \<and>
      (case b of Buffer bs \<Rightarrow> length bs = unat n32 | Map \<Rightarrow> chunk_base idx dk + unat w + unat n32 \<le> length (cf_data cf) | Gone _ \<Rightarrow> False)"
  proof (cases "3 \<le> dk_mmap_failures dk")
    case True
    then show ?thesis using c room
      by (intro exI [of _ "fresh_buffer env n32"] exI [of _ "dk_file dk"] exI [of _ "dk_mmap_failures dk"] exI [of _ "dk_clock dk + 1"] exI [of _ "[]"])
        (cases dk; auto simp: createPiece_sfc_def new_piece_def fresh_buffer_def)
  next
    case False
    have po: "piece_off (dk\<lparr>dk_clock := k\<rparr>) idx w = piece_off dk idx w" for k by (simp add: piece_off_def)
    obtain b cf where m: "cf_map env (dk_clock dk + 1) (piece_off dk idx w) n32 True (dk_file dk) = Inr (b, cf)"
      using c False by (auto simp: createPiece_sfc_def po Let_def split: sum.splits)
    from cf_map_result [OF m room] obtain z where z: "cf_data cf = cf_data (dk_file dk) @ z" "cf_max_size cf = cf_max_size (dk_file dk)"
      "length (cf_data cf) \<le> unat (cf_max_size (dk_file dk))" "b \<Longrightarrow> unat (piece_off dk idx w + ucast n32) \<le> length (cf_data cf)" by blast
    have o: "unat (piece_off dk idx w) = chunk_base idx dk + unat w" using piece_off_exact [OF w] fit by simp
    have "unat (piece_off dk idx w + ucast n32) = chunk_base idx dk + unat w + unat n32"
      using o fit w unat_u64 [of "cf_max_size (dk_file dk)"] by (simp add: unat_word_ariths unat_ucast_u64)
    then show ?thesis using c False m z
      by (intro exI [of _ "if b then Map else fresh_buffer env n32"] exI [of _ cf]
           exI [of _ "if b then dk_mmap_failures dk else dk_mmap_failures dk + 1"] exI [of _ "dk_clock dk + 1"] exI [of _ z])
        (cases dk; auto simp: createPiece_sfc_def po piece_off_def Let_def new_piece_def fresh_buffer_def split: bool.splits)
  qed
  then obtain b cf f k z where x: "q = length (dk_heap dk)"
      "dk' = insertPiece idx (length (dk_heap dk)) (dk\<lparr>dk_heap := dk_heap dk @ [\<lparr>po_chunk = idx, po_off = w, po_len = n32,
        po_backing = b, po_read_only = False\<rparr>], dk_file := cf, dk_mmap_failures := f, dk_clock := k\<rparr>)"
      "cf_data cf = cf_data (dk_file dk) @ z" "cf_max_size cf = cf_max_size (dk_file dk)" "length (cf_data cf) \<le> unat (cf_max_size cf)"
      "case b of Buffer bs \<Rightarrow> length bs = unat n32 | Map \<Rightarrow> chunk_base idx dk + unat w + unat n32 \<le> length (cf_data cf) | Gone _ \<Rightarrow> False"
    by blast
  note frame = new_piece_frame [OF wf fit x(2-6)]
  show ?thesis unfolding x(1) using frame by blast
qed

lemma sfc_write:
  assumes wf: "sfc_wf idx csize dk" and live: "sfc_live idx csize dk p off len" and len: "length dat = len"
    and r: "pd_write p dat 0 dk = (dk', Inr n)"
  shows "unat n = len \<and> sfc_wf idx csize dk' \<and> (\<forall>p' o' l'. sfc_live idx csize dk' p' o' l' \<longleftrightarrow> sfc_live idx csize dk p' o' l') \<and>
      pd_bytes dk' p = dat \<and>
      (\<forall>p' o' l'. sfc_live idx csize dk p' o' l' \<longrightarrow> apart off len o' l' \<longrightarrow> pd_bytes dk' p' = pd_bytes dk p') \<and>
      (\<forall>o' l'. length (sfc_disk idx dk o' l') = l' \<longrightarrow> apart off len o' l' \<longrightarrow> sfc_disk idx dk' o' l' = sfc_disk idx dk o' l')"
proof -
  let ?po = "dk_heap dk ! p" and ?d = "cf_data (dk_file dk)"
  have po: "po_chunk ?po = idx" "unat (po_off ?po) = off" "unat (po_len ?po) = len" "\<not> po_read_only ?po" "off + len \<le> csize"
    using live by (simp_all add: sfc_live_def Let_def)
  have w: "chunk_base idx dk + csize \<le> unat (cf_max_size (dk_file dk))" and room: "length ?d \<le> unat (cf_max_size (dk_file dk))"
    using wf by (simp_all add: sfc_wf_def)
  have ok: "pd_ok ?po" by (rule live_pd_bytes(3) [OF live])
  have l: "(of_nat (length dat) :: u32) = po_len ?po" unfolding len po(3) [symmetric] by simp
  have o: "unat (piece_off dk idx (po_off ?po)) = chunk_base idx dk + off" using piece_off_exact [OF w, of "po_off ?po"] po by simp
  have n: "unat n = len" using r ok l po(3,4) by (auto simp: pd_write_def Let_def)
  show ?thesis
  proof (cases "po_backing ?po")
    case (Buffer b)
    then have b: "length b = len" using live by (simp add: sfc_live_def Let_def)
    have dk': "dk' = dk\<lparr>dk_heap := (dk_heap dk)[p := ?po\<lparr>po_backing := Buffer dat\<rparr>]\<rparr>"
      using r ok l po(4) Buffer b len by (simp add: pd_write_def Let_def splice_at_def)
    note frame = buffer_frame [OF wf live len dk']
    have d: "sfc_disk idx dk' o' l' = sfc_disk idx dk o' l'" for o' l' by (simp add: sfc_disk_def chunk_base_def dk')
    have "p' \<noteq> p \<or> len = 0" if "sfc_live idx csize dk p' o' l'" "apart off len o' l'" for p' o' l'
      using that live by (auto simp: sfc_live_def apart_def Let_def)
    moreover have "pd_bytes dk p = []" if "len = 0" using live_pd_bytes(2) [OF live] that by simp
    ultimately show ?thesis using n frame(1) len unfolding frame(2,3) d by (simp; metis length_0_conv)
  next
    case Map
    define cf where "cf = (dk_file dk)\<lparr>cf_data := splice_at (chunk_base idx dk + off) dat ?d\<rparr>"
    have dk': "dk' = dk\<lparr>dk_file := cf, dk_clock := dk_clock dk\<rparr>"
      using r ok l po(1,4) Map o by (auto simp: pd_write_def Let_def cf_def)
    have m: "chunk_base idx dk + off + len \<le> length ?d" using live Map by (simp add: sfc_live_def Let_def)
    have "length (cf_data cf) = length ?d" using m len by (simp add: cf_def)
    then have sizes: "length ?d \<le> length (cf_data cf)" "length (cf_data cf) \<le> unat (cf_max_size cf)" "cf_max_size cf = cf_max_size (dk_file dk)"
      using room by (simp_all add: cf_def)
    note frame = file_frame [OF wf dk' sizes(3,1,2)]
    have d: "sfc_disk idx dk' o' l' = sfc_disk idx dk o' l'" if "apart off len o' l'" for o' l'
      using that m len sliced_splice_at_apart [of "chunk_base idx dk + off" ?d "chunk_base idx dk + o'" l' dat]
      by (auto simp: sfc_disk_def chunk_base_def dk' cf_def apart_def)
    have same: "sfc_disk idx dk' off len = dat"
      using m len sliced_splice_at_same [of "chunk_base idx dk + off" ?d dat] by (simp add: sfc_disk_def chunk_base_def dk' cf_def)
    have heap: "dk_heap dk' = dk_heap dk" by (simp add: dk')
    have by': "pd_bytes dk' p' = (case po_backing (dk_heap dk ! p') of Buffer b \<Rightarrow> b | _ \<Rightarrow> sfc_disk idx dk' o' l')"
      if "sfc_live idx csize dk p' o' l'" for p' o' l'
      using live_pd_bytes(1) [of idx csize dk' p' o' l'] that unfolding frame(2) heap by simp
    have "pd_bytes dk' p = dat" using by' [OF live] Map same by simp
    moreover have "pd_bytes dk' p' = pd_bytes dk p'" if "sfc_live idx csize dk p' o' l'" "apart off len o' l'" for p' o' l'
      unfolding by' [OF that(1)] live_pd_bytes(1) [OF that(1)] d [OF that(2)] by simp
    ultimately show ?thesis using n frame(1) d unfolding frame(2) by blast
  qed (use ok in \<open>simp add: pd_ok_def\<close>)
qed

lemma sfc_save:
  assumes wf: "sfc_wf idx csize dk" and live: "sfc_live idx csize dk p off len" and r: "savePiece env p dk = (dk', Inr u)"
  shows "sfc_wf idx csize dk' \<and> (\<forall>p' o' l'. sfc_live idx csize dk' p' o' l' \<longleftrightarrow> sfc_live idx csize dk p' o' l') \<and>
      sfc_disk idx dk' off len = pd_bytes dk p \<and>
      (\<forall>p' o' l'. sfc_live idx csize dk p' o' l' \<longrightarrow> p' = p \<or> apart off len o' l' \<longrightarrow> pd_bytes dk' p' = pd_bytes dk p') \<and>
      (\<forall>o' l'. length (sfc_disk idx dk o' l') = l' \<longrightarrow> apart off len o' l' \<longrightarrow> sfc_disk idx dk' o' l' = sfc_disk idx dk o' l')"
proof -
  let ?po = "dk_heap dk ! p" and ?d = "cf_data (dk_file dk)"
  have po: "po_chunk ?po = idx" "unat (po_off ?po) = off" "unat (po_len ?po) = len" "off + len \<le> csize"
    using live by (simp_all add: sfc_live_def Let_def)
  have w: "chunk_base idx dk + csize \<le> unat (cf_max_size (dk_file dk))" and room: "length ?d \<le> unat (cf_max_size (dk_file dk))"
    using wf by (simp_all add: sfc_wf_def)
  have ok: "pd_ok ?po" by (rule live_pd_bytes(3) [OF live])
  have o: "unat (piece_off dk idx (po_off ?po)) = chunk_base idx dk + off" using piece_off_exact [OF w, of "po_off ?po"] po by simp
  show ?thesis
  proof (cases "po_backing ?po")
    case (Buffer b)
    then have b: "length b = len" using live by (simp add: sfc_live_def Let_def)
    obtain cf where wr: "cf_write env (dk_clock dk + 1) b (piece_off dk idx (po_off ?po)) (dk_file dk) = Inr cf"
      and dk': "dk' = dk\<lparr>dk_file := cf, dk_clock := dk_clock dk + 1\<rparr>"
      using r ok po(1) Buffer by (cases dk) (auto simp: savePiece_def Let_def mapped_def pd_bytes_def piece_off_def split: sum.splits)
    have fit: "unat (piece_off dk idx (po_off ?po)) + length b \<le> unat (cf_max_size (dk_file dk))" using o b po w by simp
    note cf = cf_write_result [OF wr room fit]
    have rm: "length (cf_data cf) \<le> unat (cf_max_size cf)" using cf(1,3) by simp
    note frame = file_frame [OF wf dk' cf(1,2) rm]
    have d: "sfc_disk idx dk' o' l' = sfc_disk idx dk o' l'"
      if "apart off len o' l'" "chunk_base idx dk + o' + l' \<le> length ?d" for o' l'
      using cf(5) [of "chunk_base idx dk + o'" l'] that o b by (auto simp: sfc_disk_def chunk_base_def dk' apart_def)
    have d': "sfc_disk idx dk' o' l' = sfc_disk idx dk o' l'" if "apart off len o' l'" "length (sfc_disk idx dk o' l') = l'" for o' l'
      using d [OF that(1)] that(2) sliced_full [of ?d "chunk_base idx dk + o'" l']
      by (cases "l' = 0") (simp_all add: sfc_disk_def sliced_def)
    have heap: "dk_heap dk' = dk_heap dk" by (simp add: dk')
    have by': "pd_bytes dk' p' = (case po_backing (dk_heap dk ! p') of Buffer b \<Rightarrow> b | _ \<Rightarrow> sfc_disk idx dk' o' l')"
      if "sfc_live idx csize dk p' o' l'" for p' o' l'
      using live_pd_bytes(1) [of idx csize dk' p' o' l'] that unfolding frame(2) heap by simp
    have "sfc_disk idx dk' off len = pd_bytes dk p"
      using cf(4) o b live_pd_bytes(1) [OF live] Buffer by (simp add: sfc_disk_def chunk_base_def dk')
    moreover have "pd_bytes dk' p' = pd_bytes dk p'" if l: "sfc_live idx csize dk p' o' l'" and a: "p' = p \<or> apart off len o' l'" for p' o' l'
    proof (cases "po_backing (dk_heap dk ! p')")
      case Map
      then have "chunk_base idx dk + o' + l' \<le> length ?d" "p' \<noteq> p" using l Buffer by (auto simp: sfc_live_def Let_def)
      then show ?thesis using d [of o' l'] a unfolding by' [OF l] live_pd_bytes(1) [OF l] Map by simp
    qed (use l in \<open>auto simp: by' [OF l] live_pd_bytes(1) [OF l] sfc_live_def Let_def\<close>)
    ultimately show ?thesis using frame(1) d' unfolding frame(2) by blast
  next
    case Map
    have dk': "dk' = dk\<lparr>dk_file := dk_file dk, dk_clock := dk_clock dk + 1\<rparr>"
      using r Map by (simp add: savePiece_def Let_def mapped_def)
    note frame = file_frame [OF wf dk' refl order.refl room]
    have "sfc_disk idx dk' o' l' = sfc_disk idx dk o' l'" "pd_bytes dk' p' = pd_bytes dk p'" for o' l' p'
      by (simp_all add: sfc_disk_def chunk_base_def pd_bytes_def piece_off_def dk' Let_def split: backing.split)
    moreover have "pd_bytes dk p = sfc_disk idx dk off len" using live_pd_bytes(1) [OF live] Map by simp
    ultimately show ?thesis using frame(1) unfolding frame(2) by simp
  qed (use ok in \<open>simp add: pd_ok_def\<close>)
qed

interpretation sfc: store_contract "sfc_ops env" idx csize "sfc_wf idx csize" "sfc_live idx csize" "sfc_disk idx"
  for env idx csize
proof (unfold_locales, goal_cases)
  case (1 dk off l m)
  then show ?case by (simp add: sfc_disk_def sliced_def take_add ac_simps)
next
  case (2 dk off l)
  then show ?case by (simp add: sfc_disk_def sliced_def)
next
  case (5 dk n32 w dk' q)
  then show ?case unfolding sfc_ops_def store_ops.simps by (rule sfc_prepare)
next
  case (6 dk p off len dat dk' n)
  then show ?case unfolding sfc_ops_def store_ops.simps by (rule sfc_write)
next
  case (7 dk p off len dk' u)
  then show ?case unfolding sfc_ops_def store_ops.simps by (rule sfc_save)
qed (simp_all add: sfc_ops_def live_pd_bytes(2,3), simp_all add: sfc_live_def Let_def)

section \<open>A downloaded chunk is in the file\<close>

text \<open>C1. A chunk is downloaded into a single file torrent: no writable piece of the chunk is in
  memory, pieces of the chunk arrive in any order and repeatedly, each with as many bytes as it says and at a
  multiple of the piece size, downloaders are assigned and released in between, and the operating
  system may refuse to reopen or map the file at any time. When the download reports the chunk
  complete without an exception, the bytes that went into its hash are exactly the bytes at the place of the chunk in the file.
\<close>

theorem completed_chunk_on_disk:
  assumes "sfc_wf idx csize dk" and "\<forall>p off len. \<not> sfc_live idx csize dk p off len" and "unat sz = csize" and "0 < sz"
    and "\<forall>e \<in> set es. event_ok e \<and> event_aligned e"
    and "chunk_run ops (sfc_ops env) es (ChunkDownload_new idx sz) pds dk = Some (True, cd', dk')"
  shows "hash_ended cd' = Some (sfc_disk idx dk' 0 csize) \<and> length (sfc_disk idx dk' 0 csize) = csize"
  using sfc.hash_is_disk [OF assms(1) _ assms(3,4) refl assms(5,6)] assms(2) by blast

definition sample_disk :: disk where
  "sample_disk = \<lparr>dk_chunk_size = 4, dk_file = \<lparr>cf_data = [], cf_max_size = 8, cf_read_only = False\<rparr>, dk_heap = [],
     dk_cache = (\<lambda>_. []), dk_mmap_failures = 0, dk_clock = 0\<rparr>"

definition sample_env :: "bool \<Rightarrow> disk_env" where
  "sample_env m = \<lparr>env_reopen = (\<lambda>_. Opened), env_mmap = (\<lambda>_. m), env_io = (\<lambda>_. True), env_fill = (\<lambda>_. 85)\<rparr>"

definition sample_piece :: "u32 \<Rightarrow> pd_request" where
  "sample_piece off = Request_new 1 off 4 None"

abbreviation sample_store_run :: "bool \<Rightarrow> u32 \<Rightarrow> (bool \<times> chunk_download \<times> disk) option" where
  "sample_store_run m off \<equiv> chunk_run (peer_ops 0) (sfc_ops (sample_env m)) [Arrive (sample_piece off) [1, 2, 3, 4]]
     (ChunkDownload_new 1 4) (\<lambda>_. PeerDownloader_new sample_view 40000) sample_disk"

lemma sample_store_wf: "sfc_wf 1 4 sample_disk" "\<not> sfc_live 1 4 sample_disk p off len"
  by (simp_all add: sample_disk_def sfc_wf_def sfc_live_def chunk_base_def)

theorem completed_chunk_on_disk_witness:
  "hash_ended (fst (snd (the (sample_store_run False 0)))) = Some (sfc_disk 1 (snd (snd (the (sample_store_run False 0)))) 0 4)"
proof -
  have "map_option fst (sample_store_run False 0) = Some True" by code_simp
  then obtain cd' dk' where r: "sample_store_run False 0 = Some (True, cd', dk')" by auto
  have "hash_ended cd' = Some (sfc_disk 1 dk' 0 4) \<and> length (sfc_disk 1 dk' 0 4) = 4"
    by (rule completed_chunk_on_disk [OF _ _ _ _ _ r]) (simp_all add: sample_store_wf sample_piece_def Request_new_def)
  then show ?thesis unfolding r by simp
qed

text \<open>
  The offset of a piece is only looked at through its quotient by the piece size. A piece of the
  right length that starts elsewhere counts as the piece it falls into: the chunk is reported complete and its hash
  is right, but the place of the chunk in the file is not what was hashed.
\<close>

lemma unaligned_piece_misplaced:
  "map_option (\<lambda>(fin, cd, dk). (fin, hash_ended cd, sfc_disk 1 dk 0 4))
     (chunk_run (peer_ops 0) (sfc_ops (sample_env True)) [Arrive (sample_piece 2) [1, 2, 3, 4]]
       (ChunkDownload_new 1 4) (\<lambda>_. PeerDownloader_new sample_view 40000) (sample_disk\<lparr>dk_file := (dk_file sample_disk)\<lparr>cf_max_size := 12\<rparr>\<rparr>)) =
   Some (True, Some [1, 2, 3, 4], [0, 0, 1, 2])"
  by code_simp

text \<open>
  A piece that cannot be mapped and whose data cannot be read stays in the cache: the first
  \<^verbatim>\<open>loadPiece\<close> throws, the next one returns the piece with whatever the new memory contained.
\<close>

lemma failed_load_leaves_piece:
  "(let env = \<lparr>env_reopen = (\<lambda>_. No_mapping), env_mmap = (\<lambda>_. False), env_io = (\<lambda>k. k \<noteq> 2), env_fill = (\<lambda>_. 85)\<rparr>;
        dk = sample_disk\<lparr>dk_file := \<lparr>cf_data = [1, 2, 3, 4, 5, 6, 7, 8], cf_max_size = 8, cf_read_only = False\<rparr>\<rparr>;
        (dk1, r1) = loadPiece env 1 0 4 dk; (dk2, r2) = loadPiece env 1 0 4 dk1
    in (r1, r2, pd_bytes dk2 0)) = (Inl Os_error, Inr 0, [85, 85, 85, 85])"
  by code_simp

end
