(* ===== verification/Address.thy ===== *)
theory Address
  imports Endian
begin

text \<open>
  Socket addresses: \<^verbatim>\<open>net::Address\<close>, \<^verbatim>\<open>src/src/net/address.cpp\<close>, a Qt host address with a port. An IPv6
  address is kept as its first and last eight bytes; its sixteen bytes are \<open>ip6_bytes\<close>. The compact
  forms are those of trackers, peer exchange and the distributed hash table.
\<close>

datatype address = IPv4 u32 u16 | IPv6 u64 u64 u16

fun ipVersion :: "address \<Rightarrow> nat" where
  "ipVersion (IPv4 _ _) = 4"
| "ipVersion (IPv6 _ _ _) = 6"

fun port :: "address \<Rightarrow> u16" where
  "port (IPv4 _ p) = p"
| "port (IPv6 _ _ p) = p"

text \<open>\<^verbatim>\<open>toIPv6Address\<close> maps an IPv4 address into \<^verbatim>\<open>::ffff:0:0\<close>.\<close>

fun ip6_bytes :: "address \<Rightarrow> byte list" where
  "ip6_bytes (IPv4 ip _) = replicate 10 0 @ [0xff, 0xff] @ nat_to_be 4 (unat ip)"
| "ip6_bytes (IPv6 hi lo _) = nat_to_be 8 (unat hi) @ nat_to_be 8 (unat lo)"

definition fromCompactIPv4 :: "byte list \<Rightarrow> address" where
  "fromCompactIPv4 ba = IPv4 (ReadUint32 ba 0) (ReadUint16 ba 4)"

definition fromCompactIPv6 :: "byte list \<Rightarrow> address" where
  "fromCompactIPv6 ba = IPv6 (ReadUint64 ba 0) (ReadUint64 ba 8) (ReadUint16 ba 16)"

text \<open>\<open>writeCompact\<close> gives the bytes it writes; the result of the function is their number.\<close>

definition writeCompact :: "address \<Rightarrow> byte list" where
  "writeCompact a = (case a of
     IPv4 ip p \<Rightarrow> WriteUint16 4 p (WriteUint32 0 ip (replicate 6 0))
   | IPv6 _ _ p \<Rightarrow> WriteUint16 16 p (splice_at 0 (ip6_bytes a) (replicate 18 0)))"

definition isIPv4Mapped :: "address \<Rightarrow> bool" where
  "isIPv4Mapped a = (let addr = ip6_bytes a in (\<forall>i \<in> set [0..<10]. addr ! i = 0) \<and> addr ! 10 = 0xff \<and> addr ! 11 = 0xff)"

definition convertIPv4Mapped :: "address \<Rightarrow> address" where
  "convertIPv4Mapped a = (if isIPv4Mapped a then IPv4 (ReadUint32 (ip6_bytes a) 12) (port a) else a)"

lemma length_writeCompact [simp]: "length (writeCompact a) = (if ipVersion a = 4 then 6 else 18)"
  by (cases a) (simp_all add: writeCompact_def)

lemma writeCompact_bytes:
  "writeCompact (IPv4 ip p) = nat_to_be 4 (unat ip) @ nat_to_be 2 (unat p)"
  "writeCompact (IPv6 hi lo p) = nat_to_be 8 (unat hi) @ nat_to_be 8 (unat lo) @ nat_to_be 2 (unat p)"
  by (simp_all add: writeCompact_def WriteUint16_def WriteUint32_def splice_at_def)

lemma compact_roundtrip4: "ipVersion a = 4 \<Longrightarrow> fromCompactIPv4 (writeCompact a @ rest) = a"
  by (cases a) (simp_all add: writeCompact_bytes fromCompactIPv4_def ReadUint32_def ReadUint16_def sliced_def be32_inverse be16_inverse)

lemma compact_roundtrip6: "ipVersion a = 6 \<Longrightarrow> fromCompactIPv6 (writeCompact a @ rest) = a"
  by (cases a) (simp_all add: writeCompact_bytes fromCompactIPv6_def ReadUint64_def ReadUint16_def sliced_def be64_inverse be16_inverse)

lemma ipVersion_cases: "ipVersion a = 4 \<or> ipVersion a = 6"
  by (cases a) simp_all

lemma ipVersion_from [simp]: "ipVersion (fromCompactIPv4 ba) = 4" "ipVersion (fromCompactIPv6 ba) = 6"
  by (simp_all add: fromCompactIPv4_def fromCompactIPv6_def)

end
