(* ===== verification/DhtKey.thy ===== *)
theory DhtKey
  imports Endian
begin

text \<open>
  Keys of the distributed hash table: \<^verbatim>\<open>dht::Key\<close>, \<^verbatim>\<open>src/src/dht/key.cpp\<close>, over \<^verbatim>\<open>bt::SHA1Hash\<close>. The
  class keeps twenty bytes as five 32 bit integers in network order and computes on
  \<^verbatim>\<open>htonl(hash[i])\<close>; a key of the model is these five values, and \<open>key_bytes\<close> its bytes in memory. The
  operators are the loops of the code; \<open>key_val\<close> is the number a key stands for.
\<close>

section \<open>Keys\<close>

datatype key = Key u32 u32 u32 u32 u32

fun key_words :: "key \<Rightarrow> u32 list" where
  "key_words (Key a b c d e) = [a, b, c, d, e]"

fun of_words :: "u32 list \<Rightarrow> key" where
  "of_words [a, b, c, d, e] = Key a b c d e"
| "of_words _ = Key 0 0 0 0 0"

definition key_bytes :: "key \<Rightarrow> byte list" where
  "key_bytes k = concat (map (\<lambda>w. nat_to_be 4 (unat w)) (key_words k))"

text \<open>The constructors from a byte array: missing bytes are zero, more than twenty are ignored.\<close>

definition Key_of :: "byte list \<Rightarrow> key" where
  "Key_of ba = (let h = take 20 ba @ replicate (20 - length ba) 0
     in of_words (map (\<lambda>i. ReadUint32 h (4 * i)) [0..<5]))"

definition Key_min :: key where
  "Key_min = Key_of (replicate 20 0)"

text \<open>\<^verbatim>\<open>constexpr bt::Uint8 val_max[20] = {0xFF}\<close> sets the first element only.\<close>

definition Key_max :: key where
  "Key_max = Key_of (255 # replicate 19 0)"

section \<open>Operators\<close>

fun memcmp :: "byte list \<Rightarrow> byte list \<Rightarrow> int" where
  "memcmp (a # as) (b # bs) = (if a = b then memcmp as bs else uint a - uint b)"
| "memcmp _ _ = 0"

text \<open>The loops run from the last word to the first: they get the words in this order.\<close>

fun add_loop :: "u64 \<Rightarrow> (u32 \<times> u32) list \<Rightarrow> u32 list" where
  "add_loop acc [] = []"
| "add_loop acc ((a, b) # ps) =
     (let s = acc + (ucast a + ucast b) in ucast (s AND 0xFFFFFFFF) # add_loop (drop_bit 32 s) ps)"

definition key_add :: "key \<Rightarrow> key \<Rightarrow> key" where
  "key_add a b = of_words (rev (add_loop 0 (zip (rev (key_words a)) (rev (key_words b)))))"

fun add_value_loop :: "u64 \<Rightarrow> u32 list \<Rightarrow> u32 list" where
  "add_value_loop acc [] = []"
| "add_value_loop acc (w # ws) =
     (if acc = 0 then w # ws
      else let s = acc + ucast w in ucast (s AND 0xFFFFFFFF) # add_value_loop (drop_bit 32 s) ws)"

definition key_add_value :: "key \<Rightarrow> byte \<Rightarrow> key" where
  "key_add_value a v = of_words (rev (add_value_loop (ucast v) (rev (key_words a))))"

text \<open>\<^verbatim>\<open>0xFFFFFFFF + 1\<close> is computed in 32 bits, so \<^verbatim>\<open>max\<close> is zero.\<close>

fun sub_loop :: "u32 \<Rightarrow> (u32 \<times> u32) list \<Rightarrow> u32 list" where
  "sub_loop carry [] = []"
| "sub_loop carry ((a32, b32) # ps) =
     (if (ucast b32 + ucast carry :: u64) \<le> ucast a32 then (a32 - b32 - carry) # sub_loop 0 ps
      else let max = ucast (0xFFFFFFFF + 1 :: u32) :: u64
           in ucast (max - ucast (b32 - a32) - ucast carry) # sub_loop 1 ps)"

definition key_sub :: "key \<Rightarrow> key \<Rightarrow> key" where
  "key_sub a b = of_words (rev (sub_loop 0 (zip (rev (key_words a)) (rev (key_words b)))))"

text \<open>Division runs from the first word to the last.\<close>

fun div_loop :: "u64 \<Rightarrow> u64 \<Rightarrow> u32 list \<Rightarrow> u32 list" where
  "div_loop value remainder [] = []"
| "div_loop value remainder (h # hs) =
     ucast ((ucast h + remainder) div value) # div_loop value (push_bit 32 ((ucast h + remainder) mod value)) hs"

definition key_div :: "key \<Rightarrow> u64 \<Rightarrow> key" where
  "key_div a value = of_words (div_loop value 0 (key_words a))"

definition distance :: "key \<Rightarrow> key \<Rightarrow> key" where
  "distance a b = of_words (map2 (XOR) (key_words a) (key_words b))"

section \<open>The number of a key\<close>

fun le_val :: "u32 list \<Rightarrow> nat" where
  "le_val [] = 0"
| "le_val (w # ws) = unat w + 2 ^ 32 * le_val ws"

definition key_val :: "key \<Rightarrow> nat" where
  "key_val k = le_val (rev (key_words k))"

lemma length_key_words [simp]: "length (key_words k) = 5"
  by (cases k) simp

lemma key_words_of [simp]: "length ws = 5 \<Longrightarrow> key_words (of_words ws) = ws"
  by (auto simp: length_Suc_conv numeral_eq_Suc)

lemma of_words_key [simp]: "of_words (key_words k) = k"
  by (cases k) simp

lemma le_val_bound: "le_val ws < 2 ^ (32 * length ws)"
proof (induction ws)
  case (Cons w ws)
  have "unat w + 2 ^ 32 * le_val ws < 2 ^ 32 * Suc (le_val ws)" using unat_u32 [of w] by simp
  also have "\<dots> \<le> 2 ^ 32 * 2 ^ (32 * length ws)" using Cons by (intro mult_le_mono2) simp
  finally show ?case by (simp add: power_add)
qed simp

lemma le_val_inj: "length ws = length vs \<Longrightarrow> le_val ws = le_val vs \<Longrightarrow> ws = vs"
proof (induction ws vs rule: list_induct2)
  case (Cons w ws v vs)
  have m: "(unat a + 2 ^ 32 * n) mod 2 ^ 32 = unat a" "(unat a + 2 ^ 32 * n) div 2 ^ 32 = n" for a :: u32 and n
    using unat_u32 [of a] by simp_all
  have "unat w = unat v" "le_val ws = le_val vs" using Cons.prems m [of w "le_val ws"] m [of v "le_val vs"] by simp_all
  then show ?case using Cons.IH by (simp add: word_unat_eq_iff)
qed simp

lemma key_val_inj: "key_val a = key_val b \<longleftrightarrow> a = b"
  using le_val_inj [of "rev (key_words a)" "rev (key_words b)"] by (metis key_val_def length_key_words length_rev of_words_key rev_is_rev_conv)

lemma key_val_bound: "key_val k < 2 ^ 160"
  using le_val_bound [of "rev (key_words k)"] by (simp add: key_val_def)

lemma key_val_of: "length ws = 5 \<Longrightarrow> key_val (of_words ws) = le_val (rev ws)"
  by (simp add: key_val_def)

section \<open>The operators compute on the numbers\<close>

lemma low_word: "unat (ucast (s AND 0xFFFFFFFF :: u64) :: u32) = unat s mod 2 ^ 32"
proof -
  have m: "(0xFFFFFFFF :: u64) = mask 32" by (simp add: mask_eq_exp_minus_1)
  have "unat (s AND 0xFFFFFFFF) = unat s mod 2 ^ 32"
    unfolding m take_bit_eq_mask [symmetric] unsigned_take_bit_eq take_bit_eq_mod by (simp add: unat_mod)
  then show ?thesis by (simp add: unsigned_ucast_eq take_bit_eq_mod)
qed

lemma high_word: "unat (drop_bit 32 s :: u64) = unat s div 2 ^ 32"
  by (simp add: drop_bit_eq_div unat_div)

lemma split_step:
  fixes t :: nat
  shows "t mod 2 ^ 32 + 2 ^ 32 * ((t div 2 ^ 32 + x) mod 2 ^ (32 * n)) = (t + 2 ^ 32 * x) mod 2 ^ (32 * Suc n)"
proof -
  have "(t + 2 ^ 32 * x) mod (2 ^ 32 * 2 ^ (32 * n)) = 2 ^ 32 * ((t + 2 ^ 32 * x) div 2 ^ 32 mod 2 ^ (32 * n)) + (t + 2 ^ 32 * x) mod 2 ^ 32"
    by (rule mod_mult2_eq)
  then show ?thesis by (simp add: power_add add.commute)
qed

lemma add_loop_val:
  "unat s < 2 ^ 32 \<Longrightarrow> length (add_loop s ps) = length ps \<and>
   le_val (add_loop s ps) = (unat s + le_val (map fst ps) + le_val (map snd ps)) mod 2 ^ (32 * length ps)"
proof (induction s ps rule: add_loop.induct)
  case (2 s a b ps)
  define t where "t = s + (ucast a + ucast b)"
  have t: "unat t = unat s + unat a + unat b"
    using 2(2) unat_u32 [of a] unat_u32 [of b] by (simp add: t_def unat_word_ariths unat_ucast_u64)
  then have "unat (drop_bit 32 t) < 2 ^ 32" using 2(2) unat_u32 [of a] unat_u32 [of b] by (simp add: high_word)
  from 2(1) [OF refl, folded t_def, OF this] show ?case
    using split_step [of "unat t" "le_val (map fst ps) + le_val (map snd ps)" "length ps"]
    by (simp add: Let_def t_def [symmetric] low_word high_word t algebra_simps)
qed simp

theorem key_add_val: "key_val (key_add a b) = (key_val a + key_val b) mod 2 ^ 160"
  using add_loop_val [of 0 "zip (rev (key_words a)) (rev (key_words b))"] by (simp add: key_add_def key_val_of) (simp add: key_val_def)

lemma add_value_loop_val:
  "unat s < 2 ^ 32 \<Longrightarrow> length (add_value_loop s ws) = length ws \<and>
   le_val (add_value_loop s ws) = (unat s + le_val ws) mod 2 ^ (32 * length ws)"
proof (induction s ws rule: add_value_loop.induct)
  case (2 s w ws)
  show ?case
  proof (cases "s = 0")
    case True
    then show ?thesis using le_val_bound [of "w # ws"] by simp
  next
    case False
    define t where "t = s + ucast w"
    have t: "unat t = unat s + unat w"
      using 2(2) unat_u32 [of w] by (simp add: t_def unat_word_ariths unat_ucast_u64)
    then have "unat (drop_bit 32 t) < 2 ^ 32" using 2(2) unat_u32 [of w] by (simp add: high_word)
    from 2(1) [OF False refl, folded t_def, OF this] show ?thesis
      using False split_step [of "unat t" "le_val ws" "length ws"]
      by (simp add: Let_def t_def [symmetric] low_word high_word t algebra_simps)
  qed
qed simp

lemma key_add_value_val: "key_val (key_add_value a v) = (key_val a + unat v) mod 2 ^ 160"
proof -
  have "unat (ucast v :: u64) = unat v" using unat_byte [of v] by (simp add: unsigned_ucast_eq take_bit_eq_mod)
  then show ?thesis using add_value_loop_val [of "ucast v" "rev (key_words a)"] unat_byte [of v]
    by (simp add: key_add_value_def key_val_of) (simp add: key_val_def add.commute)
qed

lemma borrow_word:
  fixes a b carry :: u32
  assumes "unat a < unat b + unat carry" and "unat a \<le> unat b" and "unat carry \<le> 1"
  shows "unat (ucast (ucast (0xFFFFFFFF + 1 :: u32) - ucast (b - a) - ucast carry :: u64) :: u32) = 2 ^ 32 + unat a - unat b - unat carry"
proof -
  let ?z = "ucast (0xFFFFFFFF + 1 :: u32) - ucast (b - a) - ucast carry :: u64"
  define n where "n = unat b - unat a + unat carry"
  define d where "d = int n"
  have n: "1 \<le> n" "n \<le> 2 ^ 32" "2 ^ 32 + unat a - unat b - unat carry = 2 ^ 32 - n" using assms unat_u32 [of b] by (simp_all add: n_def)
  have u: "uint (ucast (b - a) :: u64) = int (unat b - unat a)" "uint (ucast carry :: u64) = int (unat carry)"
    using assms(2) by (simp_all add: uint_nat [of "ucast (b - a) :: u64"] uint_nat [of "ucast carry :: u64"] unat_ucast_u64 unat_sub word_le_nat_alt)
  have "uint ?z = (- d) mod 2 ^ 64" unfolding uint_word_ariths u d_def n_def by (simp add: mod_diff_left_eq)
  moreover have "uint (ucast ?z :: u32) = uint ?z mod 2 ^ 32" by (simp add: unsigned_ucast_eq take_bit_eq_mod)
  ultimately have "uint (ucast ?z :: u32) = (- d) mod 2 ^ 32" by (simp add: mod_mod_cancel)
  also have "\<dots> = (2 ^ 32 - d) mod 2 ^ 32" by simp
  also have "\<dots> = 2 ^ 32 - d" using n by (intro mod_pos_pos_trivial) (simp_all add: d_def)
  finally show ?thesis unfolding n(3) using n(2) by (simp add: unat_eq_nat_uint d_def nat_diff_distrib)
qed

lemma sub_loop_val:
  "carry \<le> 1 \<Longrightarrow> length (sub_loop carry ps) = length ps \<and>
   (le_val (sub_loop carry ps) + le_val (map snd ps) + unat carry) mod 2 ^ (32 * length ps) = le_val (map fst ps) mod 2 ^ (32 * length ps)"
proof (induction carry ps rule: sub_loop.induct)
  case (2 carry a b ps)
  have c: "unat carry \<le> 1" using 2(3) by (simp add: word_le_nat_alt)
  let ?M = "2 ^ (32 * length ps) :: nat"
  have cmp: "(ucast b + ucast carry :: u64) \<le> ucast a \<longleftrightarrow> unat b + unat carry \<le> unat a"
    using c unat_u32 [of b] by (simp add: word_le_nat_alt unat_word_ariths unat_ucast_u64)
  have step: ?case
    if sl: "sub_loop carry ((a, b) # ps) = v # ws" and len: "length ws = length ps" and v: "unat v + (unat b + unat carry) = unat a + 2 ^ 32 * k"
      and ih: "(le_val ws + le_val (map snd ps) + k) mod ?M = le_val (map fst ps) mod ?M" for v ws k
  proof -
    have "le_val (v # ws) + le_val (map snd ((a, b) # ps)) + unat carry = unat a + 2 ^ 32 * (le_val ws + le_val (map snd ps) + k)"
      using v by (simp add: algebra_simps)
    also have "\<dots> mod (2 ^ 32 * ?M) = (unat a + (2 ^ 32 * (le_val ws + le_val (map snd ps) + k)) mod (2 ^ 32 * ?M)) mod (2 ^ 32 * ?M)"
      by (simp only: mod_add_right_eq)
    also have "(2 ^ 32 * (le_val ws + le_val (map snd ps) + k)) mod (2 ^ 32 * ?M) = (2 ^ 32 * le_val (map fst ps)) mod (2 ^ 32 * ?M)"
      unfolding mult_mod_right [symmetric] ih ..
    also have "(unat a + (2 ^ 32 * le_val (map fst ps)) mod (2 ^ 32 * ?M)) mod (2 ^ 32 * ?M) = (unat a + 2 ^ 32 * le_val (map fst ps)) mod (2 ^ 32 * ?M)"
      by (simp only: mod_add_right_eq)
    finally show ?thesis using len unfolding sl by (simp add: power_add)
  qed
  show ?case
  proof (cases "unat b + unat carry \<le> unat a")
    case True
    have w: "unat (a - b - carry) = unat a - unat b - unat carry"
      using True by (simp add: unat_sub_if_size word_size word_le_nat_alt)
    have ih: "length (sub_loop 0 ps) = length ps" "(le_val (sub_loop 0 ps) + le_val (map snd ps) + 0) mod ?M = le_val (map fst ps) mod ?M"
      using 2(1) True cmp by simp_all
    have "unat (a - b - carry) + (unat b + unat carry) = unat a + 2 ^ 32 * 0" using True w by linarith
    from step [OF _ ih(1) this ih(2)] show ?thesis using True cmp by simp
  next
    case False
    define v where "v = (ucast (ucast (0xFFFFFFFF + 1 :: u32) - ucast (b - a) - ucast carry :: u64) :: u32)"
    have le: "unat a \<le> unat b" using False c by linarith
    have w: "unat v = 2 ^ 32 + unat a - unat b - unat carry"
      unfolding v_def by (rule borrow_word) (use False le c in simp_all)
    have ih: "length (sub_loop 1 ps) = length ps" "(le_val (sub_loop 1 ps) + le_val (map snd ps) + 1) mod ?M = le_val (map fst ps) mod ?M"
      using 2(2) False cmp by simp_all
    have sl: "sub_loop carry ((a, b) # ps) = v # sub_loop 1 ps"
      unfolding v_def sub_loop.simps Let_def cmp if_not_P [OF False] ..
    have "unat v + (unat b + unat carry) = unat a + 2 ^ 32 * 1" using w c le unat_u32 [of b] by simp
    from step [OF sl ih(1) this ih(2)] show ?thesis .
  qed
qed simp

lemma mod_sub_unique: "x < m \<Longrightarrow> b < m \<Longrightarrow> (x + b) mod m = a \<Longrightarrow> x = (a + m - b) mod m" for x m :: nat
  by (cases "x + b < m") (auto simp: le_mod_geq)

theorem key_sub_val: "key_val (key_sub a b) = (key_val a + 2 ^ 160 - key_val b) mod 2 ^ 160"
proof -
  have "(key_val (key_sub a b) + key_val b) mod 2 ^ 160 = key_val a mod 2 ^ 160"
    using sub_loop_val [of 0 "zip (rev (key_words a)) (rev (key_words b))"] by (simp add: key_sub_def key_val_of) (simp add: key_val_def)
  then show ?thesis using key_val_bound [of a] key_val_bound [of b] key_val_bound [of "key_sub a b"]
    by (intro mod_sub_unique) simp_all
qed

fun be_val :: "nat \<Rightarrow> u32 list \<Rightarrow> nat" where
  "be_val n [] = n"
| "be_val n (w # ws) = be_val (2 ^ 32 * n + unat w) ws"

lemma be_val_append: "be_val n (ws @ vs) = be_val (be_val n ws) vs"
  by (induction n ws rule: be_val.induct) simp_all

lemma be_val_le_val: "be_val n ws = n * 2 ^ (32 * length ws) + le_val (rev ws)"
proof (induction ws rule: rev_induct)
  case (snoc w ws)
  then show ?case by (simp add: be_val_append power_add algebra_simps)
qed simp

lemma be_val_div:
  assumes "n < m"
  shows "be_val n ws div m < 2 ^ (32 * length ws)"
proof -
  have "be_val n ws < n * 2 ^ (32 * length ws) + 2 ^ (32 * length ws)" using le_val_bound [of "rev ws"] by (simp add: be_val_le_val)
  also have "\<dots> \<le> m * 2 ^ (32 * length ws)" using assms by (metis Suc_leI add.commute mult_Suc mult_le_mono1)
  finally show ?thesis by (simp add: less_mult_imp_div_less mult.commute)
qed

lemma div_loop_val:
  fixes v :: u64
  assumes "0 < unat v" and "unat v < 2 ^ 31"
  shows "n < unat v \<Longrightarrow> length (div_loop v (push_bit 32 (of_nat n)) ws) = length ws \<and>
   be_val 0 (div_loop v (push_bit 32 (of_nat n)) ws) = be_val n ws div unat v"
proof (induction ws arbitrary: n)
  case (Cons w ws)
  define x where "x = 2 ^ 32 * n + unat w"
  have lt: "x < 2 ^ 63" "x div unat v < 2 ^ 32" "x mod unat v < unat v"
  proof -
    have "x < 2 ^ 32 * n + 2 ^ 32" using unat_u32 [of w] by (simp add: x_def)
    also have "\<dots> \<le> 2 ^ 32 * unat v" using Cons.prems by simp
    finally have "x < 2 ^ 32 * unat v" .
    then show "x div unat v < 2 ^ 32" by (simp add: less_mult_imp_div_less)
    show "x < 2 ^ 63" using \<open>x < 2 ^ 32 * unat v\<close> assms(2) by simp
  qed (use assms in simp)
  have push: "push_bit 32 (of_nat n :: u64) = of_nat (2 ^ 32 * n)" for n by (simp add: push_bit_eq_mult mult.commute)
  have "(ucast w + push_bit 32 (of_nat n) :: u64) = of_nat x"
    unfolding push x_def by (simp add: add.commute flip: unat_ucast_u64)
  moreover have ux: "unat (of_nat x :: u64) = x" using lt(1) by (simp add: unat_of_nat)
  moreover have "(of_nat x mod v :: u64) = of_nat (x mod unat v)"
    using ux lt(3) assms(2) by (simp add: word_unat_eq_iff unat_mod unat_of_nat)
  ultimately have step: "div_loop v (push_bit 32 (of_nat n)) (w # ws) =
      ucast (of_nat x div v :: u64) # div_loop v (push_bit 32 (of_nat (x mod unat v))) ws" by simp
  have d: "unat (ucast (of_nat x div v :: u64) :: u32) = x div unat v"
    using lt(2) ux by (simp add: unsigned_ucast_eq take_bit_eq_mod unat_div)
  note ih = Cons.IH [OF lt(3)]
  let ?D = "div_loop v (push_bit 32 (of_nat (x mod unat v))) ws" and ?P = "2 ^ (32 * length ws) :: nat"
  have "be_val x ws = unat v * (x div unat v * ?P) + be_val (x mod unat v) ws"
    unfolding be_val_le_val [of x] be_val_le_val [of "x mod unat v"]
    by (metis (no_types, lifting) add.assoc add_mult_distrib mult.assoc mult_div_mod_eq)
  then have "be_val x ws div unat v = x div unat v * ?P + be_val 0 ?D" using assms(1) ih by simp
  also have "\<dots> = be_val (x div unat v) ?D" using ih unfolding be_val_le_val by simp
  finally show ?case unfolding step using ih d by (simp add: x_def)
qed simp

theorem key_div_val: "0 < unat v \<Longrightarrow> unat v < 2 ^ 31 \<Longrightarrow> key_val (key_div a v) = key_val a div unat v"
  using div_loop_val [of v 0 "key_words a"] by (simp add: key_div_def key_val_of be_val_le_val) (simp add: key_val_def)

section \<open>Bytes and order\<close>

lemma be_to_nat_Cons: "be_to_nat (b # bs) = unat b * 256 ^ length bs + be_to_nat bs"
proof (induction bs rule: rev_induct)
  case Nil
  then show ?case by (simp add: be_to_nat_def)
next
  case (snoc x xs)
  then show ?case using be_to_nat_snoc [of "b # xs" x] by (simp add: algebra_simps)
qed

lemma be_to_nat_append: "be_to_nat (as @ bs) = be_to_nat as * 256 ^ length bs + be_to_nat bs"
  by (induction as) (simp_all add: be_to_nat_Cons power_add algebra_simps)

lemma be_to_nat_words: "be_to_nat (concat (map (\<lambda>w. nat_to_be 4 (unat w)) ws)) = be_val 0 ws"
proof (induction ws rule: rev_induct)
  case (snoc w ws)
  have "unat w mod 4294967296 = unat w" using unat_u32 [of w] by simp
  then show ?case using snoc by (simp add: be_to_nat_append be_to_nat_to_be be_val_append)
qed simp

lemma length_key_bytes [simp]: "length (key_bytes k) = 20"
  by (cases k) (simp add: key_bytes_def)

lemma key_val_bytes: "key_val k = be_to_nat (key_bytes k)"
  by (simp add: key_bytes_def be_to_nat_words be_val_le_val key_val_def)

lemma memcmp_val:
  "length as = length bs \<Longrightarrow> (memcmp as bs < 0 \<longleftrightarrow> be_to_nat as < be_to_nat bs) \<and> (memcmp as bs = 0 \<longleftrightarrow> as = bs)"
proof (induction as bs rule: list_induct2)
  case (Cons a as b bs)
  show ?case
  proof (cases "a = b")
    case False
    have w: "be_to_nat xs < 256 ^ length xs" for xs by (rule be_to_nat_bound)
    have m: "x * 256 ^ length as + y < z * 256 ^ length as + t" if "x < z" "y < 256 ^ length as" for x y z t :: nat
    proof -
      have "x * 256 ^ length as + y < Suc x * 256 ^ length as" using that by simp
      also have "\<dots> \<le> z * 256 ^ length as" using that by (intro mult_le_mono1) simp
      finally show ?thesis by simp
    qed
    have d: "memcmp (a # as) (b # bs) < 0 \<longleftrightarrow> unat a < unat b" "memcmp (a # as) (b # bs) \<noteq> 0"
      using False word_less_def [of a b] word_less_nat_alt [of a b] word_uint_eq_iff [of a b] by simp_all
    from False have "unat a < unat b \<or> unat b < unat a" by (metis linorder_neqE_nat word_unat_eq_iff)
    then show ?thesis
    proof
      assume "unat a < unat b"
      with m [OF this w [of as]] d False Cons.hyps show ?thesis by (simp only: be_to_nat_Cons list.inject) simp
    next
      assume "unat b < unat a"
      with m [OF this, of "be_to_nat bs"] w [of bs] d False Cons.hyps show ?thesis
        by (simp only: be_to_nat_Cons list.inject) (metis less_asym)
    qed
  qed (use Cons in \<open>simp add: be_to_nat_Cons\<close>)
qed simp

text \<open>The comparison operators are \<^verbatim>\<open>memcmp\<close> on the bytes: a linear order, that of the numbers.\<close>

instantiation key :: linorder
begin

definition less_key :: "key \<Rightarrow> key \<Rightarrow> bool" where
  "less_key a b \<longleftrightarrow> memcmp (key_bytes a) (key_bytes b) < 0"

definition less_eq_key :: "key \<Rightarrow> key \<Rightarrow> bool" where
  "less_eq_key a b \<longleftrightarrow> memcmp (key_bytes a) (key_bytes b) \<le> 0"

instance
proof
  fix a b c :: key
  have l: "x < y \<longleftrightarrow> key_val x < key_val y" and le: "x \<le> y \<longleftrightarrow> key_val x \<le> key_val y" for x y :: key
  proof -
    have "key_bytes x = key_bytes y \<longleftrightarrow> key_val x = key_val y" using key_val_inj [of x y] key_val_bytes by metis
    then show "x < y \<longleftrightarrow> key_val x < key_val y" "x \<le> y \<longleftrightarrow> key_val x \<le> key_val y"
      using memcmp_val [of "key_bytes x" "key_bytes y"] by (auto simp: less_key_def less_eq_key_def key_val_bytes order.order_iff_strict)
  qed
  show "a < b \<longleftrightarrow> a \<le> b \<and> \<not> b \<le> a" "a \<le> a" "a \<le> b \<Longrightarrow> b \<le> c \<Longrightarrow> a \<le> c" "a \<le> b \<or> b \<le> a"
    unfolding l le by auto
  show "a \<le> b \<Longrightarrow> b \<le> a \<Longrightarrow> a = b" unfolding le using key_val_inj [of a b] by simp
qed

end

lemma key_less: "a < b \<longleftrightarrow> key_val a < key_val b"
  using memcmp_val [of "key_bytes a" "key_bytes b"] by (simp add: less_key_def key_val_bytes)

lemma key_le: "a \<le> b \<longleftrightarrow> key_val a \<le> key_val b"
  using key_less [of b a] by (simp add: not_less [symmetric])

definition mid :: "key \<Rightarrow> key \<Rightarrow> key" where
  "mid a b = (if a \<le> b then key_add a (key_div (key_sub b a) 2) else key_add b (key_div (key_sub a b) 2))"

lemma mid_val: "key_val (mid a b) = (key_val a + key_val b) div 2"
proof -
  have h: "key_val (key_add x (key_div (key_sub y x) 2)) = (key_val x + key_val y) div 2" if "key_val x \<le> key_val y" for x y
  proof -
    define d where "d = key_val y - key_val x"
    then have d: "key_val y = key_val x + d" using that by simp
    have s: "key_val (key_sub y x) = d"
    proof -
      have "key_val y + 2 ^ 160 - key_val x = d + 2 ^ 160" unfolding d by linarith
      moreover have "d < 2 ^ 160" using d key_val_bound [of y] by linarith
      ultimately show ?thesis unfolding key_sub_val by (simp only: mod_add_self2 mod_less)
    qed
    have "key_val x + d div 2 < 2 ^ 160" using d key_val_bound [of y] by linarith
    then have "key_val (key_add x (key_div (key_sub y x) 2)) = key_val x + d div 2" by (simp only: key_add_val key_div_val [of 2 "key_sub y x", simplified] s mod_less)
    also have "\<dots> = (key_val x + key_val y) div 2" unfolding d by linarith
    finally show ?thesis .
  qed
  show ?thesis using h [of a b] h [of b a] by (auto simp: mid_def key_le add.commute)
qed

section \<open>Conversions and distance\<close>

lemma sliced_words:
  "i < length ws \<Longrightarrow> sliced (concat (map (\<lambda>w. nat_to_be 4 (unat w)) ws)) (4 * i) 4 = nat_to_be 4 (unat (ws ! i))"
  for ws :: "u32 list"
proof (induction ws arbitrary: i)
  case (Cons w ws)
  then show ?case by (cases i) (simp_all add: sliced_def)
qed simp

lemma Key_of_bytes [simp]: "Key_of (key_bytes k) = k"
proof -
  have "map (\<lambda>i. ReadUint32 (key_bytes k) (4 * i)) [0..<5] = key_words k"
    by (rule nth_equalityI) (simp_all add: ReadUint32_def key_bytes_def sliced_words be32_inverse)
  then show ?thesis by (simp add: Key_of_def Let_def)
qed

lemma key_val_Key_of: "length ba = 20 \<Longrightarrow> key_bytes (Key_of ba) = ba"
proof -
  assume l: "length ba = 20"
  have r: "nat_to_be 4 (unat (ReadUint32 ba i)) = sliced ba i 4" if "i + 4 \<le> 20" for i
    using that l nat_to_be_to_nat [of "sliced ba i 4"] unat_ReadUint32 [of i ba] by (simp add: sliced_def)
  have "key_bytes (Key_of ba) = sliced ba 0 4 @ sliced ba 4 4 @ sliced ba 8 4 @ sliced ba 12 4 @ sliced ba 16 4"
    using l r by (simp add: Key_of_def key_bytes_def upt_rec)
  also have "\<dots> = ba"
  proof -
    have c: "sliced ba i 4 @ drop (i + 4) ba = drop i ba" for i by (metis sliced_def append_take_drop_id drop_drop add.commute)
    show ?thesis using c [of 0] c [of 4] c [of 8] c [of 12] c [of 16] l by simp
  qed
  finally show ?thesis .
qed

lemma map2_xor_inj: "length k = length a \<Longrightarrow> length k = length b \<Longrightarrow> map2 (XOR) k a = map2 (XOR) k b \<longleftrightarrow> a = b"
  for k :: "u32 list"
proof (induction k a arbitrary: b rule: list_induct2)
  case (Cons x xs y ys)
  have "x XOR y = x XOR z \<longleftrightarrow> y = z" for z by (metis xor.left_commute xor.right_neutral xor_self_eq)
  then show ?case using Cons by (cases b) auto
qed simp

lemma distance_inj: "distance k a = distance k b \<longleftrightarrow> a = b"
proof -
  have "distance k a = distance k b \<longleftrightarrow> key_words (distance k a) = key_words (distance k b)" by (metis of_words_key)
  also have "\<dots> \<longleftrightarrow> a = b" using map2_xor_inj [of "key_words k" "key_words a" "key_words b"] by (simp add: distance_def) (metis of_words_key)
  finally show ?thesis .
qed

end
