(* ===== verification/KBucket.thy ===== *)
theory KBucket
  imports DhtKey Address "HOL-Library.AList"
begin

text \<open>
  The routing table of the distributed hash table, \<^verbatim>\<open>src/src/dht/\<close>: entries (\<^verbatim>\<open>kbucketentry.cpp\<close>), buckets
  (\<^verbatim>\<open>kbucket.cpp\<close>) and the table of buckets (\<^verbatim>\<open>kbuckettable.cpp\<close>). The clock is an argument, in
  milliseconds. \<open>srv i\<close> is what \<^verbatim>\<open>srv->doCall\<close> returns for a ping of the entry at position \<open>i\<close>: a
  call, named by a number, or null.
\<close>

section \<open>Entries\<close>

record kb_entry =
  ke_addr :: address
  ke_id :: key
  ke_last_responded :: u64
  ke_failed_queries :: u32
  ke_questionable_pings :: u32

definition KBucketEntry :: "u64 \<Rightarrow> address \<Rightarrow> key \<Rightarrow> kb_entry" where
  "KBucketEntry now addr nid = \<lparr>ke_addr = addr, ke_id = nid, ke_last_responded = now, ke_failed_queries = 0, ke_questionable_pings = 0\<rparr>"

definition entry_eq :: "kb_entry \<Rightarrow> kb_entry \<Rightarrow> bool" where
  "entry_eq a b \<longleftrightarrow> ke_addr a = ke_addr b \<and> ke_id a = ke_id b"

definition isGood :: "u64 \<Rightarrow> kb_entry \<Rightarrow> bool" where
  "isGood now e = (if 15 * 60 * 1000 < now - ke_last_responded e then False else True)"

definition isQuestionable :: "u64 \<Rightarrow> kb_entry \<Rightarrow> bool" where
  "isQuestionable now e = (if 15 * 60 * 1000 < now - ke_last_responded e then True else False)"

definition isBad :: "u64 \<Rightarrow> kb_entry \<Rightarrow> bool" where
  "isBad now e = (if isGood now e then False else 2 < ke_failed_queries e \<or> 2 < ke_questionable_pings e)"

definition requestTimeout :: "kb_entry \<Rightarrow> kb_entry" where
  "requestTimeout e = e\<lparr>ke_failed_queries := ke_failed_queries e + 1\<rparr>"

definition onPingQuestionable :: "kb_entry \<Rightarrow> kb_entry" where
  "onPingQuestionable e = e\<lparr>ke_questionable_pings := ke_questionable_pings e + 1\<rparr>"

section \<open>Buckets\<close>

definition K :: nat where "K = 20"

definition BUCKET_REFRESH_INTERVAL :: u64 where "BUCKET_REFRESH_INTERVAL = 15 * 60 * 1000"

record kbucket =
  kb_min :: key
  kb_max :: key
  kb_entries :: "kb_entry list"
  kb_pending :: "kb_entry list"
  kb_our_id :: key
  kb_busy :: "(nat \<times> kb_entry) list"
  kb_last_modified :: u64
  kb_refresh_task :: "nat option"

definition KBucket_range :: "u64 \<Rightarrow> key \<Rightarrow> key \<Rightarrow> key \<Rightarrow> kbucket" where
  "KBucket_range now mn mx our_id = \<lparr>kb_min = mn, kb_max = mx, kb_entries = [], kb_pending = [], kb_our_id = our_id,
     kb_busy = [], kb_last_modified = now, kb_refresh_task = None\<rparr>"

definition KBucket_new :: "u64 \<Rightarrow> key \<Rightarrow> kbucket" where
  "KBucket_new now our_id = KBucket_range now Key_min Key_max our_id"

definition keyInRange :: "kbucket \<Rightarrow> key \<Rightarrow> bool" where
  "keyInRange b k \<longleftrightarrow> kb_min b \<le> k \<and> k \<le> kb_max b"

definition splitAllowed :: "kbucket \<Rightarrow> bool" where
  "splitAllowed b = (if \<not> keyInRange b (kb_our_id b) then False
     else if kb_max b \<le> key_add_value (kb_min b) (of_nat K) then False else True)"

text \<open>Removing the first element with a property.\<close>

fun erase_first :: "('a \<Rightarrow> bool) \<Rightarrow> 'a list \<Rightarrow> 'a list" where
  "erase_first P [] = []"
| "erase_first P (x # xs) = (if P x then xs else x # erase_first P xs)"

definition replaceBadEntry :: "u64 \<Rightarrow> kb_entry \<Rightarrow> kbucket \<Rightarrow> bool \<times> kbucket" where
  "replaceBadEntry now entry b =
     (if \<exists>e \<in> set (kb_entries b). isBad now e
      then (True, b\<lparr>kb_last_modified := now, kb_entries := erase_first (isBad now) (kb_entries b) @ [entry]\<rparr>)
      else (False, b))"

text \<open>The loop of \<^verbatim>\<open>pingQuestionable\<close>: the first questionable entry that could be called.\<close>

fun ping_loop :: "u64 \<Rightarrow> (nat \<Rightarrow> nat option) \<Rightarrow> nat \<Rightarrow> kb_entry list \<Rightarrow> kb_entry list \<times> nat option" where
  "ping_loop now srv i [] = ([], None)"
| "ping_loop now srv i (e # es) =
     (case (if isQuestionable now e then srv i else None) of
        Some c \<Rightarrow> (onPingQuestionable e # es, Some c)
      | None \<Rightarrow> let (es', c) = ping_loop now srv (Suc i) es in (e # es', c))"

definition pingQuestionable :: "u64 \<Rightarrow> (nat \<Rightarrow> nat option) \<Rightarrow> kb_entry \<Rightarrow> kbucket \<Rightarrow> kbucket" where
  "pingQuestionable now srv replacement b =
     (if 2 \<le> length (kb_busy b) then
        b\<lparr>kb_pending := replacement # take (K - 1) (erase_first (\<lambda>e. entry_eq e replacement) (kb_pending b))\<rparr>
      else case ping_loop now srv 0 (kb_entries b) of
          (es, None) \<Rightarrow> b
        | (es, Some c) \<Rightarrow> b\<lparr>kb_entries := es, kb_busy := AList.update c replacement (kb_busy b)\<rparr>)"

definition replace_or_ping :: "u64 \<Rightarrow> (nat \<Rightarrow> nat option) \<Rightarrow> kb_entry \<Rightarrow> kbucket \<Rightarrow> kbucket" where
  "replace_or_ping now srv entry b =
     (let (ok, b') = replaceBadEntry now entry b in if ok then b' else pingQuestionable now srv entry b')"

text \<open>
  \<^verbatim>\<open>insert\<close> returns whether the bucket needs to be split. The entry that is found is marked as having
  responded, and then erased in favour of the new one.
\<close>

definition kb_insert :: "u64 \<Rightarrow> (nat \<Rightarrow> nat option) \<Rightarrow> kb_entry \<Rightarrow> kbucket \<Rightarrow> bool \<times> kbucket" where
  "kb_insert now srv entry b =
     (if \<exists>e \<in> set (kb_entries b). entry_eq e entry then
        (False, b\<lparr>kb_last_modified := now, kb_entries := erase_first (\<lambda>e. entry_eq e entry) (kb_entries b) @ [entry]\<rparr>)
      else if length (kb_entries b) < K then
        (False, b\<lparr>kb_entries := kb_entries b @ [entry], kb_last_modified := now\<rparr>)
      else let (ok, b') = replaceBadEntry now entry b in
        if ok then (False, b')
        else if length (kb_entries b') = K \<and> splitAllowed b' then (True, b')
        else (False, pingQuestionable now srv entry b'))"

text \<open>\<^verbatim>\<open>split\<close>; \<^const>\<open>None\<close> is the exception \<^verbatim>\<open>UnableToSplit\<close>.\<close>

definition split_step :: "u64 \<Rightarrow> (nat \<Rightarrow> nat option) \<Rightarrow> kb_entry \<Rightarrow> kbucket \<times> kbucket \<Rightarrow> kbucket \<times> kbucket" where
  "split_step now srv e lr = (let (l, r) = lr in
     if keyInRange l (ke_id e) then (snd (kb_insert now srv e l), r) else (l, snd (kb_insert now srv e r)))"

definition kb_split :: "u64 \<Rightarrow> (nat \<Rightarrow> nat option) \<Rightarrow> kbucket \<Rightarrow> (kbucket \<times> kbucket) option" where
  "kb_split now srv b =
     (let m = mid (kb_min b) (kb_max b) in
      if m = kb_min b \<or> key_add_value m 1 = kb_max b then None
      else Some (fold (split_step now srv) (kb_entries b)
             (KBucket_range now (kb_min b) m (kb_our_id b), KBucket_range now (key_add_value m 1) (kb_max b) (kb_our_id b))))"

definition kb_onResponse :: "u64 \<Rightarrow> (nat \<Rightarrow> nat option) \<Rightarrow> nat \<Rightarrow> kbucket \<Rightarrow> kbucket" where
  "kb_onResponse now srv c b0 =
     (let b = b0\<lparr>kb_last_modified := now\<rparr> in
      case map_of (kb_busy b) c of
        None \<Rightarrow> b
      | Some entry \<Rightarrow> replace_or_ping now srv entry (b\<lparr>kb_busy := AList.delete c (kb_busy b)\<rparr>))"

text \<open>\<^verbatim>\<open>onTimeout(RPCCall)\<close> for a call to the address \<open>addr\<close>.\<close>

definition kb_callTimeout :: "u64 \<Rightarrow> (nat \<Rightarrow> nat option) \<Rightarrow> nat \<Rightarrow> address \<Rightarrow> kbucket \<Rightarrow> kbucket" where
  "kb_callTimeout now srv c addr b =
     (case map_of (kb_busy b) c of
        None \<Rightarrow> b
      | Some entry \<Rightarrow>
          let b1 = (if \<exists>e \<in> set (kb_entries b). ke_addr e = addr
                    then b\<lparr>kb_last_modified := now, kb_entries := erase_first (\<lambda>e. ke_addr e = addr) (kb_entries b) @ [entry]\<rparr>
                    else b);
              b2 = b1\<lparr>kb_busy := AList.delete c (kb_busy b1)\<rparr>
          in case kb_pending b2 of
               pe # rest \<Rightarrow> if length (kb_busy b2) < 2 then replace_or_ping now srv pe (b2\<lparr>kb_pending := rest\<rparr>) else b2
             | [] \<Rightarrow> b2)"

text \<open>\<^verbatim>\<open>onTimeout(net::Address)\<close> tells whether the address was found.\<close>

fun kb_timeout_loop :: "address \<Rightarrow> kb_entry list \<Rightarrow> kb_entry list" where
  "kb_timeout_loop addr [] = []"
| "kb_timeout_loop addr (e # es) = (if ke_addr e = addr then requestTimeout e # es else e # kb_timeout_loop addr es)"

definition kb_onTimeout :: "address \<Rightarrow> kbucket \<Rightarrow> bool \<times> kbucket" where
  "kb_onTimeout addr b =
     (\<exists>e \<in> set (kb_entries b). ke_addr e = addr, b\<lparr>kb_entries := kb_timeout_loop addr (kb_entries b)\<rparr>)"

definition kb_contains :: "kb_entry \<Rightarrow> kbucket \<Rightarrow> bool" where
  "kb_contains entry b \<longleftrightarrow> (\<exists>e \<in> set (kb_entries b). entry_eq e entry)"

definition needsToBeRefreshed :: "u64 \<Rightarrow> kbucket \<Rightarrow> bool \<times> kbucket" where
  "needsToBeRefreshed now b =
     (if now < kb_last_modified b then (False, b\<lparr>kb_last_modified := now\<rparr>)
      else (kb_refresh_task b = None \<and> 0 < length (kb_entries b) \<and> BUCKET_REFRESH_INTERVAL < now - kb_last_modified b, b))"

definition kb_onFinished :: "nat \<Rightarrow> kbucket \<Rightarrow> kbucket" where
  "kb_onFinished t b = (if kb_refresh_task b = Some t then b\<lparr>kb_refresh_task := None\<rparr> else b)"

end
