(* ===== verification/KBucketTable.thy ===== *)
theory KBucketTable
  imports KBucket
begin

text \<open>
  The table of buckets, \<^verbatim>\<open>src/src/dht/kbuckettable.cpp\<close>, and the invariant of the routing table: at every
  moment the buckets partition the keys from \<^const>\<open>Key_min\<close> to \<^const>\<open>Key_max\<close> in ascending order, and every
  bucket holds at most \<^const>\<open>K\<close> nodes, all of them in its range.
\<close>

section \<open>Operations\<close>

record kbucket_table =
  kt_our_id :: key
  kt_buckets :: "kbucket list"

definition KBucketTable_new :: "key \<Rightarrow> kbucket_table" where
  "KBucketTable_new our_id = \<lparr>kt_our_id = our_id, kt_buckets = []\<rparr>"

text \<open>\<^verbatim>\<open>findBucket\<close>: the position of the first bucket with the key in its range.\<close>

fun findBucket :: "key \<Rightarrow> kbucket list \<Rightarrow> nat option" where
  "findBucket nid [] = None"
| "findBucket nid (b # bs) = (if keyInRange b nid then Some 0 else map_option Suc (findBucket nid bs))"

definition kt_insert :: "u64 \<Rightarrow> (nat \<Rightarrow> nat option) \<Rightarrow> kb_entry \<Rightarrow> kbucket_table \<Rightarrow> kbucket_table" where
  "kt_insert now srv entry t =
     (let bs = (if kt_buckets t = [] then [KBucket_new now (kt_our_id t)] else kt_buckets t);
          t' = t\<lparr>kt_buckets := bs\<rparr>
      in case findBucket (ke_id entry) bs of
           None \<Rightarrow> t'
         | Some i \<Rightarrow> (case kb_insert now srv entry (bs ! i) of
             (False, b) \<Rightarrow> t'\<lparr>kt_buckets := bs[i := b]\<rparr>
           | (True, b) \<Rightarrow> (case kb_split now srv b of
               None \<Rightarrow> t'\<lparr>kt_buckets := bs[i := b]\<rparr>
             | Some (l, r) \<Rightarrow>
                 let (l', r') = (if keyInRange l (ke_id entry) then (snd (kb_insert now srv entry l), r)
                                 else (l, snd (kb_insert now srv entry r)))
                 in t'\<lparr>kt_buckets := take i bs @ [l', r'] @ drop (Suc i) bs\<rparr>)))"

definition numEntries :: "kbucket_table \<Rightarrow> nat" where
  "numEntries t = sum_list (map (\<lambda>b. length (kb_entries b)) (kt_buckets t))"

fun kt_timeout_loop :: "address \<Rightarrow> kbucket list \<Rightarrow> kbucket list" where
  "kt_timeout_loop addr [] = []"
| "kt_timeout_loop addr (b # bs) =
     (let (found, b') = kb_onTimeout addr b in if found then b' # bs else b' # kt_timeout_loop addr bs)"

definition kt_onTimeout :: "address \<Rightarrow> kbucket_table \<Rightarrow> kbucket_table" where
  "kt_onTimeout addr t = t\<lparr>kt_buckets := kt_timeout_loop addr (kt_buckets t)\<rparr>"

text \<open>
  \<^verbatim>\<open>refreshBuckets\<close>: \<open>lookup m\<close> is the task that \<^verbatim>\<open>DHT::refreshBucket\<close> starts for the key in the middle of the
  bucket, which also resets the timer of the bucket.
\<close>

definition refresh_bucket :: "u64 \<Rightarrow> (key \<Rightarrow> nat option) \<Rightarrow> kbucket \<Rightarrow> kbucket" where
  "refresh_bucket now lookup b0 = (case needsToBeRefreshed now b0 of
     (False, b) \<Rightarrow> b
   | (True, b) \<Rightarrow>
       let b' = b\<lparr>kb_last_modified := now\<rparr> in
       case lookup (mid (kb_min b) (kb_max b)) of None \<Rightarrow> b' | Some t \<Rightarrow> b'\<lparr>kb_refresh_task := Some t\<rparr>)"

definition refreshBuckets :: "u64 \<Rightarrow> (key \<Rightarrow> nat option) \<Rightarrow> kbucket_table \<Rightarrow> kbucket_table" where
  "refreshBuckets now lookup t = t\<lparr>kt_buckets := map (refresh_bucket now lookup) (kt_buckets t)\<rparr>"

text \<open>What can happen to a table. A bucket listens to its own calls and tasks: the events name it by its position.\<close>

datatype table_event =
    Seen u64 "nat \<Rightarrow> nat option" kb_entry
  | Answered nat u64 "nat \<Rightarrow> nat option" nat
  | Unanswered nat u64 "nat \<Rightarrow> nat option" nat address
  | Timed_out address
  | Refresh u64 "key \<Rightarrow> nat option"
  | Task_finished nat nat

definition at_bucket :: "nat \<Rightarrow> (kbucket \<Rightarrow> kbucket) \<Rightarrow> kbucket_table \<Rightarrow> kbucket_table" where
  "at_bucket i f t = (if i < length (kt_buckets t) then t\<lparr>kt_buckets := (kt_buckets t)[i := f (kt_buckets t ! i)]\<rparr> else t)"

fun table_step :: "table_event \<Rightarrow> kbucket_table \<Rightarrow> kbucket_table" where
  "table_step (Seen now srv e) t = kt_insert now srv e t"
| "table_step (Answered i now srv c) t = at_bucket i (kb_onResponse now srv c) t"
| "table_step (Unanswered i now srv c addr) t = at_bucket i (kb_callTimeout now srv c addr) t"
| "table_step (Timed_out addr) t = kt_onTimeout addr t"
| "table_step (Refresh now lookup) t = refreshBuckets now lookup t"
| "table_step (Task_finished i k) t = at_bucket i (kb_onFinished k) t"

section \<open>The invariant of a bucket\<close>

definition bucket_ok :: "kbucket \<Rightarrow> bool" where
  "bucket_ok b \<longleftrightarrow> length (kb_entries b) \<le> K \<and> length (kb_pending b) \<le> K \<and> length (kb_busy b) \<le> 2 \<and>
     (\<forall>e \<in> set (kb_entries b). keyInRange b (ke_id e)) \<and> (\<forall>e \<in> set (kb_pending b). keyInRange b (ke_id e)) \<and>
     (\<forall>x \<in> set (kb_busy b). keyInRange b (ke_id (snd x)))"

definition same_range :: "kbucket \<Rightarrow> kbucket \<Rightarrow> bool" where
  "same_range b b' \<longleftrightarrow> kb_min b' = kb_min b \<and> kb_max b' = kb_max b \<and> kb_our_id b' = kb_our_id b"

lemma same_range_refl [simp]: "same_range b b"
  by (simp add: same_range_def)

lemma same_range_keys: "same_range b b' \<Longrightarrow> keyInRange b' k = keyInRange b k"
  by (simp add: same_range_def keyInRange_def)

lemma erase_first_props:
  "set (erase_first P xs) \<subseteq> set xs" "length (erase_first P xs) \<le> length xs"
  "\<exists>x \<in> set xs. P x \<Longrightarrow> Suc (length (erase_first P xs)) = length xs"
  by (induction xs) auto

lemma keyInRange_updates [simp]:
  "keyInRange (b\<lparr>kb_entries := a\<rparr>) = keyInRange b" "keyInRange (b\<lparr>kb_pending := c\<rparr>) = keyInRange b" "keyInRange (b\<lparr>kb_busy := d\<rparr>) = keyInRange b"
  "keyInRange (b\<lparr>kb_last_modified := m\<rparr>) = keyInRange b" "keyInRange (b\<lparr>kb_refresh_task := r\<rparr>) = keyInRange b"
  by (simp_all add: keyInRange_def fun_eq_iff)

lemma bucket_ok_entries:
  "bucket_ok b \<Longrightarrow> length es \<le> K \<Longrightarrow> (\<And>e. e \<in> set es \<Longrightarrow> keyInRange b (ke_id e)) \<Longrightarrow>
   bucket_ok (b\<lparr>kb_last_modified := m, kb_entries := es\<rparr>)"
  by (simp add: bucket_ok_def)

text \<open>Erasing an entry and appending another.\<close>

lemma bucket_ok_replace:
  assumes ok: "bucket_ok b" and e: "keyInRange b (ke_id e)" and ex: "\<exists>x \<in> set (kb_entries b). P x"
  shows "bucket_ok (b\<lparr>kb_last_modified := now, kb_entries := erase_first P (kb_entries b) @ [e]\<rparr>)"
proof (rule bucket_ok_entries [OF ok])
  show "length (erase_first P (kb_entries b) @ [e]) \<le> K" using erase_first_props(3) [OF ex] ok by (simp add: bucket_ok_def)
  show "keyInRange b (ke_id x)" if "x \<in> set (erase_first P (kb_entries b) @ [e])" for x
    using that e ok erase_first_props(1) [of P "kb_entries b"] by (auto simp: bucket_ok_def)
qed

lemma replaceBadEntry_ok:
  assumes "bucket_ok b" and "keyInRange b (ke_id e)" and "replaceBadEntry now e b = (ok, b')"
  shows "bucket_ok b' \<and> same_range b b'"
  using assms bucket_ok_replace [OF assms(1,2), of "isBad now"] by (auto simp: replaceBadEntry_def same_range_def split: if_splits)

lemma ping_loop_ids: "ping_loop now srv i es = (es', c) \<Longrightarrow> map ke_id es' = map ke_id es"
  by (induction now srv i es arbitrary: es' c rule: ping_loop.induct)
    (auto simp: onPingQuestionable_def split: option.splits prod.splits if_splits)

lemma ids_in_range: "map ke_id es' = map ke_id es \<Longrightarrow> (\<forall>e \<in> set es. P (ke_id e)) \<Longrightarrow> \<forall>e \<in> set es'. P (ke_id e)"
  by (metis (no_types, lifting) image_iff list.set_map)

lemma busy_update:
  "length (AList.update k e xs) \<le> Suc (length xs)" "x \<in> set (AList.update k e xs) \<Longrightarrow> x \<in> set xs \<or> snd x = e"
  by (induction xs) (auto split: if_splits)

lemma pingQuestionable_ok:
  assumes ok: "bucket_ok b" and e: "keyInRange b (ke_id e)"
  shows "bucket_ok (pingQuestionable now srv e b) \<and> same_range b (pingQuestionable now srv e b)"
proof (cases "2 \<le> length (kb_busy b)")
  case True
  let ?p = "take (K - 1) (erase_first (\<lambda>x. entry_eq x e) (kb_pending b))"
  have "x \<in> set (kb_pending b)" if "x \<in> set ?p" for x using that erase_first_props(1) set_take_subset by (metis (no_types, lifting) in_mono)
  then have "bucket_ok (b\<lparr>kb_pending := e # ?p\<rparr>)" using ok e by (auto simp: bucket_ok_def K_def)
  then show ?thesis using True by (simp add: pingQuestionable_def same_range_def)
next
  case False
  obtain es c where p: "ping_loop now srv 0 (kb_entries b) = (es, c)" by fastforce
  note ids = ping_loop_ids [OF p]
  have len: "length es = length (kb_entries b)" using ids by (metis length_map)
  have r: "\<forall>x \<in> set es. keyInRange b (ke_id x)" using ids_in_range [OF ids, of "keyInRange b"] ok by (simp add: bucket_ok_def)
  have "bucket_ok (b\<lparr>kb_entries := es, kb_busy := AList.update k e (kb_busy b)\<rparr>)" for k
    using ok e False len r busy_update(1) [of k e "kb_busy b"] by (auto simp: bucket_ok_def dest!: busy_update(2))
  then show ?thesis using ok False p by (cases c) (simp_all add: pingQuestionable_def same_range_def)
qed

lemma replace_or_ping_ok:
  assumes "bucket_ok b" and "keyInRange b (ke_id e)"
  shows "bucket_ok (replace_or_ping now srv e b) \<and> same_range b (replace_or_ping now srv e b)"
proof -
  obtain ok b' where r: "replaceBadEntry now e b = (ok, b')" by fastforce
  note a = replaceBadEntry_ok [OF assms r]
  then have "keyInRange b' (ke_id e)" using assms(2) same_range_keys by blast
  with a pingQuestionable_ok [of b' e now srv] show ?thesis
    by (auto simp: replace_or_ping_def r same_range_def)
qed

lemma kb_insert_ok:
  assumes ok: "bucket_ok b" and e: "keyInRange b (ke_id e)" and r: "kb_insert now srv e b = (s, b')"
  shows "bucket_ok b' \<and> same_range b b'" and "s \<Longrightarrow> b' = b \<and> length (kb_entries b) = K \<and> splitAllowed b"
proof -
  obtain d b1 where rb: "replaceBadEntry now e b = (d, b1)" by fastforce
  note rok = replaceBadEntry_ok [OF ok e rb]
  have p: "bucket_ok (pingQuestionable now srv e b1) \<and> same_range b1 (pingQuestionable now srv e b1)"
    using rok e same_range_keys [of b b1] by (intro pingQuestionable_ok) simp_all
  consider (found) "\<exists>x \<in> set (kb_entries b). entry_eq x e" | (room) "\<not> (\<exists>x \<in> set (kb_entries b). entry_eq x e)" "length (kb_entries b) < K"
    | (full) "\<not> (\<exists>x \<in> set (kb_entries b). entry_eq x e)" "\<not> length (kb_entries b) < K" by blast
  then show "bucket_ok b' \<and> same_range b b'"
  proof cases
    case found
    then show ?thesis using r bucket_ok_replace [OF ok e found, of now] by (auto simp: kb_insert_def same_range_def)
  next
    case room
    then have "bucket_ok (b\<lparr>kb_entries := kb_entries b @ [e], kb_last_modified := now\<rparr>)" using ok e by (auto simp: bucket_ok_def)
    then show ?thesis using r room by (auto simp: kb_insert_def same_range_def)
  next
    case full
    then show ?thesis using r rb rok p by (auto simp: kb_insert_def same_range_def split: if_splits)
  qed
  show "b' = b \<and> length (kb_entries b) = K \<and> splitAllowed b" if s
    using r that rb by (auto simp: kb_insert_def replaceBadEntry_def split: if_splits)
qed

section \<open>Splitting\<close>

lemma entry_eq_equiv: "entry_eq a a" "entry_eq a b \<Longrightarrow> entry_eq b a" "entry_eq a b \<Longrightarrow> entry_eq b c \<Longrightarrow> entry_eq a c"
  by (simp_all add: entry_eq_def)

lemma kb_insert_room:
  assumes "length (kb_entries b) < K"
  obtains b' where "kb_insert now srv e b = (False, b')" and "length (kb_entries b') \<le> Suc (length (kb_entries b))"
    and "\<And>x. kb_contains x b' \<longleftrightarrow> kb_contains x b \<or> entry_eq e x" and "set (kb_entries b') \<subseteq> insert e (set (kb_entries b))"
proof (cases "\<exists>x \<in> set (kb_entries b). entry_eq x e")
  case True
  let ?b = "b\<lparr>kb_last_modified := now, kb_entries := erase_first (\<lambda>x. entry_eq x e) (kb_entries b) @ [e]\<rparr>"
  have er: "(\<exists>y \<in> set (erase_first (\<lambda>x. entry_eq x e) ys). entry_eq y x) \<or> entry_eq e x \<longleftrightarrow> (\<exists>y \<in> set ys. entry_eq y x) \<or> entry_eq e x" for ys x
    by (induction ys) (auto dest: entry_eq_equiv(2,3))
  show thesis
  proof (rule that [of ?b])
    show "kb_insert now srv e b = (False, ?b)" using True by (simp add: kb_insert_def)
    show "length (kb_entries ?b) \<le> Suc (length (kb_entries b))" using erase_first_props(2) by simp
    show "kb_contains x ?b \<longleftrightarrow> kb_contains x b \<or> entry_eq e x" for x using er [of "kb_entries b" x] by (auto simp: kb_contains_def)
    show "set (kb_entries ?b) \<subseteq> insert e (set (kb_entries b))" using erase_first_props(1) by fastforce
  qed
next
  case False
  show thesis
    by (rule that [of "b\<lparr>kb_entries := kb_entries b @ [e], kb_last_modified := now\<rparr>"])
      (use False assms in \<open>auto simp: kb_insert_def kb_contains_def\<close>)
qed

lemma split_fold:
  assumes "bucket_ok l" and "bucket_ok r" and "length (kb_entries l) + length (kb_entries r) + length es \<le> K"
    and "\<And>e. e \<in> set es \<Longrightarrow> keyInRange l (ke_id e) \<or> keyInRange r (ke_id e)"
  shows "\<exists>l' r'. fold (split_step now srv) es (l, r) = (l', r') \<and> bucket_ok l' \<and> bucket_ok r' \<and> same_range l l' \<and> same_range r r' \<and>
    (\<forall>x. kb_contains x l \<or> kb_contains x r \<or> (\<exists>e \<in> set es. entry_eq e x) \<longleftrightarrow> kb_contains x l' \<or> kb_contains x r') \<and>
    set (kb_entries l') \<union> set (kb_entries r') \<subseteq> set (kb_entries l) \<union> set (kb_entries r) \<union> set es"
  using assms
proof (induction es arbitrary: l r)
  case (Cons e es)
  have room: "length (kb_entries l) < K" "length (kb_entries r) < K" using Cons.prems(3) by simp_all
  define b where "b = (if keyInRange l (ke_id e) then l else r)"
  have ok: "bucket_ok b" and k: "keyInRange b (ke_id e)" using Cons.prems(1,2) Cons.prems(4) [of e] by (auto simp: b_def)
  have "length (kb_entries b) < K" using room by (simp add: b_def)
  then obtain b' where b': "kb_insert now srv e b = (False, b')" "length (kb_entries b') \<le> Suc (length (kb_entries b))"
    "\<And>x. kb_contains x b' \<longleftrightarrow> kb_contains x b \<or> entry_eq e x" "set (kb_entries b') \<subseteq> insert e (set (kb_entries b))" using kb_insert_room by blast
  note ok' = kb_insert_ok(1) [OF ok k b'(1)]
  define l1 r1 where lr: "l1 = (if keyInRange l (ke_id e) then b' else l)" "r1 = (if keyInRange l (ke_id e) then r else b')"
  have st: "split_step now srv e (l, r) = (l1, r1)" using b'(1) by (auto simp: split_step_def lr b_def)
  have sr: "same_range l l1" "same_range r r1" using ok' by (auto simp: lr b_def)
  have c: "(kb_contains x l1 \<or> kb_contains x r1) \<longleftrightarrow> (kb_contains x l \<or> kb_contains x r \<or> entry_eq e x)" for x using b'(3) [of x] by (auto simp: lr b_def)
  have "\<exists>l' r'. fold (split_step now srv) es (l1, r1) = (l', r') \<and> bucket_ok l' \<and> bucket_ok r' \<and> same_range l1 l' \<and> same_range r1 r' \<and>
    (\<forall>x. kb_contains x l1 \<or> kb_contains x r1 \<or> (\<exists>e \<in> set es. entry_eq e x) \<longleftrightarrow> kb_contains x l' \<or> kb_contains x r') \<and>
    set (kb_entries l') \<union> set (kb_entries r') \<subseteq> set (kb_entries l1) \<union> set (kb_entries r1) \<union> set es"
  proof (rule Cons.IH)
    show "bucket_ok l1" "bucket_ok r1" using ok' Cons.prems(1,2) by (auto simp: lr)
    show "length (kb_entries l1) + length (kb_entries r1) + length es \<le> K" using Cons.prems(3) b'(2) by (auto simp: lr b_def split: if_splits)
    show "keyInRange l1 (ke_id x) \<or> keyInRange r1 (ke_id x)" if "x \<in> set es" for x
      using Cons.prems(4) [of x] that same_range_keys sr by auto
  qed
  then obtain l' r' where *: "fold (split_step now srv) es (l1, r1) = (l', r')" "bucket_ok l'" "bucket_ok r'" "same_range l1 l'" "same_range r1 r'"
    "\<forall>x. kb_contains x l1 \<or> kb_contains x r1 \<or> (\<exists>e \<in> set es. entry_eq e x) \<longleftrightarrow> kb_contains x l' \<or> kb_contains x r'"
    "set (kb_entries l') \<union> set (kb_entries r') \<subseteq> set (kb_entries l1) \<union> set (kb_entries r1) \<union> set es" by blast
  have "set (kb_entries l1) \<union> set (kb_entries r1) \<subseteq> insert e (set (kb_entries l) \<union> set (kb_entries r))" using b'(4) by (auto simp: lr b_def split: if_splits)
  with *(7) have "set (kb_entries l') \<union> set (kb_entries r') \<subseteq> set (kb_entries l) \<union> set (kb_entries r) \<union> set (e # es)" by auto
  moreover have "same_range l l'" "same_range r r'" using sr *(4,5) by (simp_all add: same_range_def)
  moreover have "kb_contains x l \<or> kb_contains x r \<or> (\<exists>y \<in> set (e # es). entry_eq y x) \<longleftrightarrow> kb_contains x l' \<or> kb_contains x r'" for x
    using *(6) c [of x] by auto
  ultimately show ?case using * st by auto
qed (auto simp: kb_contains_def)

lemma split_keys:
  assumes "splitAllowed b" and "kb_max b \<le> Key_max" and "kb_min b \<le> kb_max b"
  defines "m \<equiv> mid (kb_min b) (kb_max b)"
  shows "key_val (key_add_value m 1) = Suc (key_val m)" and "key_val (kb_min b) < key_val m" and "Suc (key_val m) < key_val (kb_max b)"
proof -
  have mx: "key_val Key_max + 20 < 2 ^ 160" by code_simp
  let ?a = "key_val (kb_min b)" and ?z = "key_val (kb_max b)"
  have z: "?z \<le> key_val Key_max" "?a \<le> ?z" using assms(2,3) by (simp_all add: key_le)
  have "(of_nat K :: byte) = 20" by (simp add: K_def)
  then have v: "key_val (key_add_value (kb_min b) (of_nat K)) = ?a + 20" using z mx by (simp add: key_add_value_val)
  have az: "?a + 20 < ?z" using assms(1) v by (auto simp: splitAllowed_def key_le split: if_splits)
  have m: "key_val m = (?a + ?z) div 2" by (simp add: m_def mid_val)
  show "key_val (kb_min b) < key_val m" "Suc (key_val m) < ?z" using az m by linarith+
  have "key_val m + 1 < 2 ^ 160" using m az z mx by linarith
  then show "key_val (key_add_value m 1) = Suc (key_val m)" by (simp only: key_add_value_val unat_1 mod_less)
qed

lemma kb_split_ok:
  assumes ok: "bucket_ok b" and al: "splitAllowed b" and mx: "kb_max b \<le> Key_max" and mn: "kb_min b \<le> kb_max b"
  obtains l r where "kb_split now srv b = Some (l, r)" and "bucket_ok l" and "bucket_ok r" and "kb_min l = kb_min b" and "kb_max r = kb_max b"
    and "kb_min l \<le> kb_max l" and "kb_min r \<le> kb_max r"
    and "key_val (kb_min r) = Suc (key_val (kb_max l))" and "kb_our_id l = kb_our_id b" and "kb_our_id r = kb_our_id b"
    and "\<And>x. kb_contains x b \<longleftrightarrow> kb_contains x l \<or> kb_contains x r" and "set (kb_entries l) \<union> set (kb_entries r) \<subseteq> set (kb_entries b)"
proof -
  define m where "m = mid (kb_min b) (kb_max b)"
  note k = split_keys [OF al mx mn, folded m_def]
  let ?l = "KBucket_range now (kb_min b) m (kb_our_id b)" and ?r = "KBucket_range now (key_add_value m 1) (kb_max b) (kb_our_id b)"
  have fresh: "bucket_ok ?l" "bucket_ok ?r" "\<not> kb_contains x ?l" "\<not> kb_contains x ?r" "kb_entries ?l = []" "kb_entries ?r = []" for x
    by (simp_all add: bucket_ok_def KBucket_range_def kb_contains_def)
  have cover: "keyInRange ?l (ke_id e) \<or> keyInRange ?r (ke_id e)" if "e \<in> set (kb_entries b)" for e
  proof -
    have "keyInRange b (ke_id e)" using that ok by (simp add: bucket_ok_def)
    then show ?thesis using k by (auto simp: keyInRange_def KBucket_range_def key_le)
  qed
  have "length (kb_entries ?l) + length (kb_entries ?r) + length (kb_entries b) \<le> K" using ok fresh by (simp add: bucket_ok_def)
  from split_fold [OF fresh(1,2) this cover] obtain l r where
    f: "fold (split_step now srv) (kb_entries b) (?l, ?r) = (l, r)" "bucket_ok l" "bucket_ok r" "same_range ?l l" "same_range ?r r"
      "\<forall>x. kb_contains x ?l \<or> kb_contains x ?r \<or> (\<exists>e \<in> set (kb_entries b). entry_eq e x) \<longleftrightarrow> kb_contains x l \<or> kb_contains x r"
      "set (kb_entries l) \<union> set (kb_entries r) \<subseteq> set (kb_entries ?l) \<union> set (kb_entries ?r) \<union> set (kb_entries b)" by blast
  have "m \<noteq> kb_min b" "key_add_value m 1 \<noteq> kb_max b" using k by auto
  then have "kb_split now srv b = Some (l, r)" using f(1) by (simp add: kb_split_def m_def [symmetric])
  moreover have "kb_contains x b \<longleftrightarrow> kb_contains x l \<or> kb_contains x r" for x
    using f(6) fresh(3,4) [of x] by (auto simp: kb_contains_def [of x b])
  ultimately show thesis using that f k by (simp add: same_range_def KBucket_range_def key_le)
qed

section \<open>The invariant of the table\<close>

text \<open>\<open>covers lo bs hi\<close>: the ranges of the buckets follow each other from \<open>lo\<close> up to \<open>hi\<close>, exclusively.\<close>

fun covers :: "nat \<Rightarrow> kbucket list \<Rightarrow> nat \<Rightarrow> bool" where
  "covers lo [] hi \<longleftrightarrow> lo = hi"
| "covers lo (b # bs) hi \<longleftrightarrow> key_val (kb_min b) = lo \<and> kb_min b \<le> kb_max b \<and> covers (Suc (key_val (kb_max b))) bs hi"

definition table_ok :: "kbucket_table \<Rightarrow> bool" where
  "table_ok t \<longleftrightarrow> (kt_buckets t = [] \<or> covers 0 (kt_buckets t) (Suc (key_val Key_max))) \<and>
     (\<forall>b \<in> set (kt_buckets t). bucket_ok b \<and> kb_our_id b = kt_our_id t)"

lemma covers_append: "covers lo (xs @ ys) hi \<longleftrightarrow> (\<exists>m. covers lo xs m \<and> covers m ys hi)"
  by (induction xs arbitrary: lo) auto

lemma covers_le: "covers lo bs hi \<Longrightarrow> lo \<le> hi"
  by (induction bs arbitrary: lo) (force simp: key_le)+

lemma covers_max: "covers lo bs hi \<Longrightarrow> b \<in> set bs \<Longrightarrow> key_val (kb_max b) < hi \<and> kb_min b \<le> kb_max b"
  by (induction bs arbitrary: lo) (auto dest: covers_le)

lemma covers_map: "(\<And>b. b \<in> set bs \<Longrightarrow> same_range b (f b)) \<Longrightarrow> covers lo (map f bs) hi \<longleftrightarrow> covers lo bs hi"
  by (induction bs arbitrary: lo) (auto simp: same_range_def)

lemma covers_update: "same_range (bs ! i) b \<Longrightarrow> covers lo (bs[i := b]) hi \<longleftrightarrow> covers lo bs hi"
proof (induction bs arbitrary: lo i)
  case (Cons x xs)
  then show ?case by (cases i) (auto simp: same_range_def)
qed simp

lemma covers_split:
  assumes "covers lo bs hi" and "i < length bs" and "kb_min l = kb_min (bs ! i)" and "kb_max r = kb_max (bs ! i)"
    and "kb_min l \<le> kb_max l" and "kb_min r \<le> kb_max r" and "key_val (kb_min r) = Suc (key_val (kb_max l))"
  shows "covers lo (take i bs @ [l, r] @ drop (Suc i) bs) hi"
proof -
  have "bs = take i bs @ bs ! i # drop (Suc i) bs" by (rule id_take_nth_drop [OF assms(2)])
  with assms(1) obtain m where "covers lo (take i bs) m" "covers m (bs ! i # drop (Suc i) bs) hi" using covers_append by metis
  then show ?thesis using assms(3-) by (auto simp: covers_append)
qed

lemma findBucket_Some: "findBucket k bs = Some i \<Longrightarrow> i < length bs \<and> keyInRange (bs ! i) k"
  by (induction bs arbitrary: i) (auto split: if_splits)

lemma findBucket_covers:
  "covers lo bs hi \<Longrightarrow> lo \<le> key_val k \<Longrightarrow> key_val k < hi \<Longrightarrow> findBucket k bs \<noteq> None"
proof (induction bs arbitrary: lo)
  case (Cons b bs)
  show ?case
  proof (cases "keyInRange b k")
    case False
    then have "Suc (key_val (kb_max b)) \<le> key_val k" using Cons.prems by (auto simp: keyInRange_def key_le)
    then show ?thesis using Cons False by auto
  qed simp
qed simp

lemma range_unique:
  "covers lo bs hi \<Longrightarrow> i < length bs \<Longrightarrow> j < length bs \<Longrightarrow> keyInRange (bs ! i) k \<Longrightarrow> keyInRange (bs ! j) k \<Longrightarrow> i = j"
proof (induction bs arbitrary: lo i j)
  case (Cons b bs)
  have later: "key_val (kb_max b) < key_val k" if "n < length bs" "keyInRange (bs ! n) k" for n
  proof -
    have "Suc (key_val (kb_max b)) \<le> key_val (kb_min (bs ! n))"
      using Cons.prems(1) that(1) unfolding covers.simps
    proof (elim conjE)
      assume c: "covers (Suc (key_val (kb_max b))) bs hi" and n: "n < length bs"
      obtain m where "covers (Suc (key_val (kb_max b))) (take n bs) m" "covers m (bs ! n # drop (Suc n) bs) hi"
        using c covers_append id_take_nth_drop [OF n] by metis
      then show ?thesis using covers_le by fastforce
    qed
    then show ?thesis using that(2) by (simp add: keyInRange_def key_le)
  qed
  show ?case
    using Cons.prems later Cons.IH [of "Suc (key_val (kb_max b))"] by (cases i; cases j) (auto simp: keyInRange_def key_le dest: leD)
qed simp

lemma table_ok_new: "table_ok (KBucketTable_new our_id)"
  by (simp add: table_ok_def KBucketTable_new_def)

lemma key_val_min: "key_val Key_min = 0"
  by code_simp

lemma table_ok_at:
  assumes "table_ok t" and "\<And>b. bucket_ok b \<Longrightarrow> bucket_ok (f b) \<and> same_range b (f b)"
  shows "table_ok (at_bucket i f t)"
proof (cases "i < length (kt_buckets t)")
  case True
  let ?b = "kt_buckets t ! i"
  have b: "bucket_ok ?b" "kb_our_id ?b = kt_our_id t" using assms(1) True by (simp_all add: table_ok_def)
  have "same_range ?b (f ?b)" "bucket_ok (f ?b)" using assms(2) [OF b(1)] by simp_all
  then show ?thesis
    using assms(1) True b covers_update [of "kt_buckets t" i "f ?b"]
    by (auto simp: table_ok_def at_bucket_def same_range_def dest!: set_update_subset_insert [THEN subsetD])
qed (use assms(1) in \<open>simp add: at_bucket_def\<close>)

lemma table_ok_map:
  assumes "table_ok t" and "\<And>b. bucket_ok b \<Longrightarrow> bucket_ok (f b) \<and> same_range b (f b)"
  shows "table_ok (t\<lparr>kt_buckets := map f (kt_buckets t)\<rparr>)"
  using assms covers_map [of "kt_buckets t" f] by (auto simp: table_ok_def same_range_def)

lemma kb_calls_ok:
  assumes "bucket_ok b"
  shows "bucket_ok (kb_onResponse now srv c b) \<and> same_range b (kb_onResponse now srv c b)"
    and "bucket_ok (kb_callTimeout now srv c addr b) \<and> same_range b (kb_callTimeout now srv c addr b)"
proof -
  have del: "set (AList.delete c xs) \<subseteq> set xs" "length (AList.delete c xs) \<le> length xs" for xs :: "(nat \<times> kb_entry) list"
    by (auto simp: AList.delete_eq)
  have busy: "bucket_ok (x\<lparr>kb_busy := AList.delete c (kb_busy x)\<rparr>)" if "bucket_ok x" for x
    using that del(1) [of "kb_busy x"] del(2) [of "kb_busy x"] by (auto simp: bucket_ok_def)
  have entry: "keyInRange b (ke_id e)" if "map_of (kb_busy b) c = Some e" for e
    using assms map_of_SomeD [OF that] by (auto simp: bucket_ok_def)
  let ?b = "b\<lparr>kb_last_modified := now\<rparr>"
  have b: "bucket_ok ?b" using assms by (simp add: bucket_ok_def)
  note rp = replace_or_ping_ok [OF busy [OF b]]
  show "bucket_ok (kb_onResponse now srv c b) \<and> same_range b (kb_onResponse now srv c b)"
    using b entry rp [of _ now srv] by (auto simp: kb_onResponse_def Let_def same_range_def split: option.splits)
  show "bucket_ok (kb_callTimeout now srv c addr b) \<and> same_range b (kb_callTimeout now srv c addr b)"
  proof (cases "map_of (kb_busy b) c")
    case (Some e)
    define b1 where "b1 = (if \<exists>x \<in> set (kb_entries b). ke_addr x = addr
      then b\<lparr>kb_last_modified := now, kb_entries := erase_first (\<lambda>x. ke_addr x = addr) (kb_entries b) @ [e]\<rparr> else b)"
    have "bucket_ok b1" using assms bucket_ok_replace [OF assms entry [OF Some]] by (simp add: b1_def)
    from busy [OF this] have b2: "bucket_ok (b1\<lparr>kb_busy := AList.delete c (kb_busy b1)\<rparr>)" (is "bucket_ok ?b2") .
    have r1: "same_range b ?b2" by (simp add: b1_def same_range_def)
    have r: "kb_callTimeout now srv c addr b = (case kb_pending ?b2 of
        pe # rest \<Rightarrow> if length (kb_busy ?b2) < 2 then replace_or_ping now srv pe (?b2\<lparr>kb_pending := rest\<rparr>) else ?b2 | [] \<Rightarrow> ?b2)"
      unfolding kb_callTimeout_def Some option.case Let_def b1_def [symmetric] ..
    show ?thesis
    proof (cases "kb_pending ?b2")
      case (Cons pe rest)
      have "bucket_ok (?b2\<lparr>kb_pending := rest\<rparr>)" "keyInRange (?b2\<lparr>kb_pending := rest\<rparr>) (ke_id pe)" using b2 Cons by (auto simp: bucket_ok_def)
      from replace_or_ping_ok [OF this, of now srv] show ?thesis using r Cons b2 r1 by (simp add: same_range_def)
    qed (use r b2 r1 in simp)
  qed (use assms in \<open>simp add: kb_callTimeout_def\<close>)
qed

lemma kb_timeout_ok: "bucket_ok b \<Longrightarrow> kb_onTimeout addr b = (f, b') \<Longrightarrow> bucket_ok b' \<and> same_range b b'"
proof -
  assume ok: "bucket_ok b" and r: "kb_onTimeout addr b = (f, b')"
  have "map ke_id (kb_timeout_loop addr es) = map ke_id es" for es by (induction addr es rule: kb_timeout_loop.induct) (auto simp: requestTimeout_def)
  then have ids: "map ke_id (kb_timeout_loop addr (kb_entries b)) = map ke_id (kb_entries b)" .
  then have "length (kb_timeout_loop addr (kb_entries b)) = length (kb_entries b)" by (metis length_map)
  moreover have "b' = b\<lparr>kb_entries := kb_timeout_loop addr (kb_entries b)\<rparr>" using r by (simp add: kb_onTimeout_def)
  ultimately show ?thesis using ok ids_in_range [OF ids, of "keyInRange b"] by (simp add: bucket_ok_def same_range_def)
qed

lemma kt_timeout_loop_ok:
  "\<forall>b \<in> set bs. bucket_ok b \<and> kb_our_id b = our \<Longrightarrow>
   covers lo (kt_timeout_loop addr bs) hi = covers lo bs hi \<and> (kt_timeout_loop addr bs = [] \<longleftrightarrow> bs = []) \<and>
   (\<forall>b \<in> set (kt_timeout_loop addr bs). bucket_ok b \<and> kb_our_id b = our)"
proof (induction bs arbitrary: lo)
  case (Cons b bs)
  obtain f b' where r: "kb_onTimeout addr b = (f, b')" by fastforce
  have "bucket_ok b'" "same_range b b'" using kb_timeout_ok [OF _ r] Cons.prems by auto
  then have eq: "kb_min b' = kb_min b" "kb_max b' = kb_max b" "kb_our_id b' = our" "bucket_ok b'" using Cons.prems by (simp_all add: same_range_def)
  have ih: "\<And>lo. covers lo (kt_timeout_loop addr bs) hi = covers lo bs hi" "\<forall>b \<in> set (kt_timeout_loop addr bs). bucket_ok b \<and> kb_our_id b = our"
    using Cons by simp_all
  show ?case using Cons.prems by (cases f) (simp_all add: r eq ih)
qed simp

lemma kt_insert_ok:
  assumes ok: "table_ok t"
  shows "table_ok (kt_insert now srv e t)"
proof -
  define bs where "bs = (if kt_buckets t = [] then [KBucket_new now (kt_our_id t)] else kt_buckets t)"
  have new: "covers 0 bs (Suc (key_val Key_max))" "\<forall>b \<in> set bs. bucket_ok b \<and> kb_our_id b = kt_our_id t"
  proof -
    have "covers 0 [KBucket_new now our] (Suc (key_val Key_max))" "bucket_ok (KBucket_new now our)" "kb_our_id (KBucket_new now our) = our" for our
      by (simp_all add: KBucket_new_def KBucket_range_def bucket_ok_def key_le key_val_min)
    then show "covers 0 bs (Suc (key_val Key_max))" "\<forall>b \<in> set bs. bucket_ok b \<and> kb_our_id b = kt_our_id t"
      using ok unfolding bs_def table_ok_def by (cases "kt_buckets t = []"; simp)+
  qed
  show ?thesis
  proof (cases "findBucket (ke_id e) bs")
    case None
    then show ?thesis using new by (auto simp: kt_insert_def bs_def [symmetric] table_ok_def)
  next
    case (Some i)
    have i: "i < length bs" "keyInRange (bs ! i) (ke_id e)" using findBucket_Some [OF Some] by simp_all
    have bi: "bs ! i \<in> set bs" using i by simp
    have b: "bucket_ok (bs ! i)" "kb_our_id (bs ! i) = kt_our_id t" using new bi by auto
    have cov: "kb_max (bs ! i) \<le> Key_max" "kb_min (bs ! i) \<le> kb_max (bs ! i)" using covers_max [OF new(1) bi] by (simp_all add: key_le)
    obtain s b' where r: "kb_insert now srv e (bs ! i) = (s, b')" by fastforce
    note r' = kb_insert_ok [OF b(1) i(2) r]
    show ?thesis
    proof (cases s)
      case False
      then have "kt_insert now srv e t = t\<lparr>kt_buckets := bs[i := b']\<rparr>" using Some r by (simp add: kt_insert_def bs_def [symmetric])
      moreover have "covers 0 (bs[i := b']) (Suc (key_val Key_max))" using new(1) covers_update r'(1) by blast
      moreover have "\<forall>x \<in> set (bs[i := b']). bucket_ok x \<and> kb_our_id x = kt_our_id t"
        using new(2) r'(1) b(2) set_update_subset_insert [of bs i b'] by (auto simp: same_range_def)
      ultimately show ?thesis by (simp add: table_ok_def)
    next
      case True
      then have sp: "b' = bs ! i" "splitAllowed (bs ! i)" using r'(2) by simp_all
      obtain l r where lr: "kb_split now srv (bs ! i) = Some (l, r)" "bucket_ok l" "bucket_ok r" "kb_min l = kb_min (bs ! i)" "kb_max r = kb_max (bs ! i)"
        "kb_min l \<le> kb_max l" "kb_min r \<le> kb_max r" "key_val (kb_min r) = Suc (key_val (kb_max l))"
        "kb_our_id l = kb_our_id (bs ! i)" "kb_our_id r = kb_our_id (bs ! i)"
        using kb_split_ok [OF b(1) sp(2) cov] by metis
      define l' r' where lr': "l' = (if keyInRange l (ke_id e) then snd (kb_insert now srv e l) else l)"
        "r' = (if keyInRange l (ke_id e) then r else snd (kb_insert now srv e r))"
      have in_r: "keyInRange r (ke_id e)" if "\<not> keyInRange l (ke_id e)" using that i(2) lr(4,5,8) by (auto simp: keyInRange_def key_le)
      have l': "bucket_ok l' \<and> same_range l l'" using kb_insert_ok(1) [OF lr(2), of e now srv] lr(2) by (auto simp: lr' split: prod.splits) (metis prod.collapse)+
      have r': "bucket_ok r' \<and> same_range r r'" using kb_insert_ok(1) [OF lr(3) in_r, of now srv] lr(3) by (auto simp: lr' split: prod.splits) (metis prod.collapse)+
      have "kt_insert now srv e t = t\<lparr>kt_buckets := take i bs @ [l', r'] @ drop (Suc i) bs\<rparr>"
        using Some r True sp(1) lr(1) by (simp add: kt_insert_def bs_def [symmetric] lr')
      moreover have "covers 0 (take i bs @ [l', r'] @ drop (Suc i) bs) (Suc (key_val Key_max))"
        using covers_split [OF new(1) i(1), of l' r'] l' r' lr by (simp add: same_range_def)
      moreover have "\<forall>x \<in> set (take i bs @ [l', r'] @ drop (Suc i) bs). bucket_ok x \<and> kb_our_id x = kt_our_id t"
        using new(2) l' r' lr(9,10) b(2) by (auto simp: same_range_def dest: in_set_takeD in_set_dropD)
      ultimately show ?thesis by (simp add: table_ok_def)
    qed
  qed
qed

lemma table_step_ok: "table_ok t \<Longrightarrow> table_ok (table_step ev t)"
proof (cases ev)
  case (Timed_out addr)
  assume ok: "table_ok t"
  then have "\<forall>b \<in> set (kt_buckets t). bucket_ok b \<and> kb_our_id b = kt_our_id t" by (simp add: table_ok_def)
  from kt_timeout_loop_ok [OF this, of 0 addr "Suc (key_val Key_max)"] show ?thesis using ok Timed_out by (simp add: kt_onTimeout_def table_ok_def)
next
  case (Refresh now lookup)
  assume ok: "table_ok t"
  have "bucket_ok b \<Longrightarrow> bucket_ok (refresh_bucket now lookup b) \<and> same_range b (refresh_bucket now lookup b)" for b
    by (auto simp: refresh_bucket_def needsToBeRefreshed_def bucket_ok_def same_range_def Let_def split: option.splits if_splits bool.splits)
  from table_ok_map [OF ok this] Refresh show ?thesis by (simp add: refreshBuckets_def)
next
  case (Task_finished i k)
  assume ok: "table_ok t"
  have "bucket_ok b \<Longrightarrow> bucket_ok (kb_onFinished k b) \<and> same_range b (kb_onFinished k b)" for b
    by (auto simp: kb_onFinished_def bucket_ok_def same_range_def)
  from table_ok_at [OF ok this] Task_finished show ?thesis by simp
qed (simp_all add: kt_insert_ok table_ok_at kb_calls_ok)

lemma table_reachable_ok: "table_ok t \<Longrightarrow> table_ok (fold table_step evs t)"
  by (induction evs arbitrary: t) (simp_all add: table_step_ok)

section \<open>Properties\<close>

lemma covers_ascending:
  assumes "covers lo bs hi"
  shows "sorted_wrt (\<lambda>a b. kb_max a < kb_min b) bs" and "\<forall>b \<in> set bs. lo \<le> key_val (kb_min b)"
    and "bs \<noteq> [] \<Longrightarrow> key_val (kb_min (hd bs)) = lo \<and> Suc (key_val (kb_max (last bs))) = hi"
  using assms
proof (induction bs arbitrary: lo)
  case (Cons b bs)
  { case 1 then show ?case using Cons.IH(1,2) [of "Suc (key_val (kb_max b))"] by (auto simp: key_less Suc_le_eq)
  next
    case 2 then show ?case using Cons.IH(2) [of "Suc (key_val (kb_max b))"] by (auto simp: key_le)
  next
    case 3 then show ?case using Cons.IH(3) [of "Suc (key_val (kb_max b))"] by auto
  }
qed simp_all

text \<open>C10. Whatever nodes are seen, answer, time out or get refreshed: once the table has buckets, they follow each other in ascending order
  from \<^const>\<open>Key_min\<close> to \<^const>\<open>Key_max\<close>, every key up to \<^const>\<open>Key_max\<close> lies
  in the range of exactly one bucket, which \<^const>\<open>findBucket\<close> finds, and every bucket holds at most
  \<^const>\<open>K\<close> nodes, all in its range.
\<close>

theorem routing_table_partition:
  assumes "t = fold table_step evs (KBucketTable_new our_id)" and "kt_buckets t \<noteq> []"
  shows "sorted_wrt (\<lambda>a b. kb_max a < kb_min b) (kt_buckets t) \<and>
    kb_min (hd (kt_buckets t)) = Key_min \<and> kb_max (last (kt_buckets t)) = Key_max \<and>
    (\<forall>b \<in> set (kt_buckets t). length (kb_entries b) \<le> K \<and> (\<forall>e \<in> set (kb_entries b). keyInRange b (ke_id e))) \<and>
    (k \<le> Key_max \<longrightarrow> (\<exists>!i. i < length (kt_buckets t) \<and> keyInRange (kt_buckets t ! i) k) \<and>
       (\<exists>i. findBucket k (kt_buckets t) = Some i \<and> keyInRange (kt_buckets t ! i) k))"
proof -
  have ok: "table_ok t" using assms(1) table_reachable_ok [OF table_ok_new] by simp
  then have cov: "covers 0 (kt_buckets t) (Suc (key_val Key_max))" using assms(2) by (simp add: table_ok_def)
  have "kb_min (hd (kt_buckets t)) = Key_min" "kb_max (last (kt_buckets t)) = Key_max"
    using covers_ascending(3) [OF cov assms(2)] key_val_min key_val_inj [of _ Key_min] key_val_inj [of _ Key_max] by auto
  moreover have "\<exists>i. findBucket k (kt_buckets t) = Some i \<and> i < length (kt_buckets t) \<and> keyInRange (kt_buckets t ! i) k" if "k \<le> Key_max"
    using findBucket_covers [OF cov, of k] findBucket_Some [of k "kt_buckets t"] that by (auto simp: key_le)
  ultimately show ?thesis using ok covers_ascending(1) [OF cov] range_unique [OF cov, of _ _ k] by (auto simp: table_ok_def bucket_ok_def)
qed

definition sample_node :: "u32 \<Rightarrow> u32 \<Rightarrow> kb_entry" where
  "sample_node a ip = KBucketEntry 0 (IPv4 ip 6881) (Key a 0 0 0 0)"

theorem routing_table_partition_witness:
  "let t = fold table_step [Seen 5 (\<lambda>_. None) (sample_node 7 1)] (KBucketTable_new (Key 3 0 0 0 0)) in
   \<exists>!i. i < length (kt_buckets t) \<and> keyInRange (kt_buckets t ! i) (Key 9 0 0 0 1)"
proof -
  let ?t = "fold table_step [Seen 5 (\<lambda>_. None) (sample_node 7 1)] (KBucketTable_new (Key 3 0 0 0 0))"
  have "length (kt_buckets ?t) = 1" by code_simp
  then have "kt_buckets ?t \<noteq> []" by auto
  moreover have "Key 9 0 0 0 1 \<le> Key_max" by code_simp
  ultimately show ?thesis using routing_table_partition [OF refl, of "[Seen 5 (\<lambda>_. None) (sample_node 7 1)]" "Key 3 0 0 0 0" "Key 9 0 0 0 1"]
    unfolding Let_def by blast
qed

definition kt_contains :: "kb_entry \<Rightarrow> kbucket_table \<Rightarrow> bool" where
  "kt_contains x t \<longleftrightarrow> (\<exists>b \<in> set (kt_buckets t). kb_contains x b)"

lemma erase_first_keeps: "x \<in> set xs \<Longrightarrow> \<not> P x \<Longrightarrow> x \<in> set (erase_first P xs)"
  by (induction xs) auto

lemma ping_loop_contains: "ping_loop now srv i es = (es', c) \<Longrightarrow> x \<in> set es \<Longrightarrow> \<exists>y \<in> set es'. entry_eq y x"
proof (induction now srv i es arbitrary: es' c rule: ping_loop.induct)
  case (2 now srv i e es)
  have "entry_eq (onPingQuestionable e) e" by (simp add: entry_eq_def onPingQuestionable_def)
  with 2 show ?case by (fastforce split: option.splits prod.splits intro: entry_eq_equiv(1))
qed simp

lemma kb_insert_keeps:
  assumes "x \<in> set (kb_entries b)" and "\<not> isBad now x"
  shows "kb_contains x (snd (kb_insert now srv e b))"
proof -
  have c: "kb_contains x b" using assms(1) entry_eq_equiv(1) by (auto simp: kb_contains_def)
  consider (room) "length (kb_entries b) < K" | (found) "\<not> length (kb_entries b) < K" "\<exists>y \<in> set (kb_entries b). entry_eq y e"
    | (full) "\<not> length (kb_entries b) < K" "\<not> (\<exists>y \<in> set (kb_entries b). entry_eq y e)" by blast
  then show ?thesis
  proof cases
    case room
    then obtain b' where "kb_insert now srv e b = (False, b')" "kb_contains x b' \<longleftrightarrow> kb_contains x b \<or> entry_eq e x" using kb_insert_room by metis
    then show ?thesis using c by simp
  next
    case found
    then have r: "kb_entries (snd (kb_insert now srv e b)) = erase_first (\<lambda>y. entry_eq y e) (kb_entries b) @ [e]" by (simp add: kb_insert_def)
    show ?thesis
    proof (cases "entry_eq x e")
      case True
      then show ?thesis using r entry_eq_equiv(2) by (auto simp: kb_contains_def)
    next
      case False
      from erase_first_keeps [OF assms(1), of "\<lambda>y. entry_eq y e", OF False] show ?thesis using r entry_eq_equiv(1) by (auto simp: kb_contains_def)
    qed
  next
    case full
    obtain d b1 where rb: "replaceBadEntry now e b = (d, b1)" by fastforce
    show ?thesis
    proof (cases d)
      case True
      then have "kb_entries b1 = erase_first (isBad now) (kb_entries b) @ [e]" using rb by (auto simp: replaceBadEntry_def split: if_splits)
      moreover have "snd (kb_insert now srv e b) = b1" using full rb True by (simp add: kb_insert_def)
      ultimately show ?thesis using erase_first_keeps [OF assms(1), of "isBad now"] assms(2) entry_eq_equiv(1) by (auto simp: kb_contains_def)
    next
      case False
      then have b1: "b1 = b" using rb by (auto simp: replaceBadEntry_def split: if_splits)
      obtain es c' where p: "ping_loop now srv 0 (kb_entries b) = (es, c')" by fastforce
      have "kb_contains x (pingQuestionable now srv e b)"
        using c ping_loop_contains [OF p assms(1)] p by (auto simp: pingQuestionable_def kb_contains_def split: option.splits)
      then show ?thesis using full rb False b1 c by (auto simp: kb_insert_def)
    qed
  qed
qed

lemma kb_split_keeps:
  assumes "bucket_ok b" and "splitAllowed b" and "kb_max b \<le> Key_max" and "kb_min b \<le> kb_max b"
    and ins: "kb_insert now srv e b = (True, b')" and sp: "kb_split now srv b = Some (l, r)" and c: "kb_contains x b"
  shows "kb_contains x l \<and> kb_contains x (snd (kb_insert now srv e l)) \<or> kb_contains x r \<and> kb_contains x (snd (kb_insert now srv e r))"
proof -
  have lr: "kb_contains x l \<or> kb_contains x r" "set (kb_entries l) \<union> set (kb_entries r) \<subseteq> set (kb_entries b)"
    using kb_split_ok [OF assms(1-4), of now srv] sp c by (metis option.inject prod.inject)+
  have nobad: "\<forall>y \<in> set (kb_entries b). \<not> isBad now y" using ins by (auto simp: kb_insert_def replaceBadEntry_def split: if_splits)
  have keep: "kb_contains x (snd (kb_insert now srv e z))" if z: "kb_contains x z" "set (kb_entries z) \<subseteq> set (kb_entries b)" for z
  proof -
    obtain y where y: "y \<in> set (kb_entries z)" "entry_eq y x" using z(1) kb_contains_def by metis
    then have "kb_contains y (snd (kb_insert now srv e z))" using kb_insert_keeps nobad z(2) by blast
    then show ?thesis using y(2) entry_eq_equiv(3) by (auto simp: kb_contains_def)
  qed
  show ?thesis using lr keep by blast
qed

text \<open>An insertion that splits a bucket.\<close>

lemma kt_insert_split:
  assumes "findBucket (ke_id e) (kt_buckets t) = Some i" and "kt_buckets t \<noteq> []" and r: "kb_insert now srv e (kt_buckets t ! i) = (True, kt_buckets t ! i)"
    and ok: "bucket_ok (kt_buckets t ! i)" and al: "splitAllowed (kt_buckets t ! i)" and mx: "kb_max (kt_buckets t ! i) \<le> Key_max"
    and mn: "kb_min (kt_buckets t ! i) \<le> kb_max (kt_buckets t ! i)"
  shows "\<exists>l' r'. kt_insert now srv e t = t\<lparr>kt_buckets := take i (kt_buckets t) @ [l', r'] @ drop (Suc i) (kt_buckets t)\<rparr> \<and>
    (kb_contains x (kt_buckets t ! i) \<longrightarrow> kb_contains x l' \<or> kb_contains x r')"
proof -
  obtain l r0 where lr: "kb_split now srv (kt_buckets t ! i) = Some (l, r0)" using kb_split_ok [OF ok al mx mn] by metis
  define l' r' where lr': "l' = (if keyInRange l (ke_id e) then snd (kb_insert now srv e l) else l)"
    "r' = (if keyInRange l (ke_id e) then r0 else snd (kb_insert now srv e r0))"
  have "kt_insert now srv e t = t\<lparr>kt_buckets := take i (kt_buckets t) @ [l', r'] @ drop (Suc i) (kt_buckets t)\<rparr>"
    using assms(1,2) r lr by (simp add: kt_insert_def lr' Let_def)
  moreover have "kb_contains x l' \<or> kb_contains x r'" if "kb_contains x (kt_buckets t ! i)"
    using kb_split_keeps [OF ok al mx mn r lr, of x] that by (auto simp: lr')
  ultimately show ?thesis by blast
qed

text \<open>C39. Seeing a node never removes another one that is not bad: a node of the table that has answered within the last
  fifteen minutes, or has not failed three queries or pings since, is still in the table afterwards,
  whether its bucket is split, has a bad node replaced, or is full.
\<close>

theorem insert_keeps_nodes:
  assumes t: "t = fold table_step evs (KBucketTable_new our_id)"
    and "b \<in> set (kt_buckets t)" and "x \<in> set (kb_entries b)" and "\<not> isBad now x"
  shows "kt_contains x (kt_insert now srv e t)"
proof -
  have ok: "table_ok t" using t table_reachable_ok [OF table_ok_new] by simp
  have ne: "kt_buckets t \<noteq> []" using assms(2) by auto
  let ?bs = "kt_buckets t"
  have cov: "covers 0 ?bs (Suc (key_val Key_max))" using ok ne by (simp add: table_ok_def)
  have xb: "kb_contains x b" using assms(3) entry_eq_equiv(1) by (auto simp: kb_contains_def)
  show ?thesis
  proof (cases "findBucket (ke_id e) ?bs")
    case None
    then show ?thesis using ne assms(2) xb by (auto simp: kt_insert_def kt_contains_def)
  next
    case (Some i)
    have i: "i < length ?bs" "keyInRange (?bs ! i) (ke_id e)" using findBucket_Some [OF Some] by simp_all
    obtain j where j: "j < length ?bs" "?bs ! j = b" using assms(2) by (metis in_set_conv_nth)
    obtain s b' where r: "kb_insert now srv e (?bs ! i) = (s, b')" by fastforce
    have bi: "bucket_ok (?bs ! i)" using ok i(1) by (simp add: table_ok_def)
    note r' = kb_insert_ok [OF bi i(2) r]
    have other: "\<exists>y \<in> set (take i ?bs) \<union> set (drop (Suc i) ?bs). kb_contains x y" if "j \<noteq> i"
    proof -
      have "b \<in> set (take i ?bs) \<union> set (drop (Suc i) ?bs)"
        using that j by (cases "j < i") (force simp: in_set_conv_nth, auto simp: in_set_conv_nth intro!: exI [of _ "j - Suc i"])
      then show ?thesis using xb by blast
    qed
    have up: "set (?bs[i := z]) = set (take i ?bs) \<union> set (drop (Suc i) ?bs) \<union> {z}" for z using i(1) by (auto simp: upd_conv_take_nth_drop)
    show ?thesis
    proof (cases s)
      case False
      then have "kt_insert now srv e t = t\<lparr>kt_buckets := ?bs[i := b']\<rparr>" using Some r ne by (simp add: kt_insert_def)
      moreover have "kb_contains x b'" if "j = i" using kb_insert_keeps [OF assms(3,4), of srv e] that j r by auto
      ultimately show ?thesis using other up by (cases "j = i") (auto simp: kt_contains_def)
    next
      case True
      have sp: "b' = ?bs ! i" "splitAllowed (?bs ! i)" using r'(2) True by simp_all
      have cv: "kb_max (?bs ! i) \<le> Key_max" "kb_min (?bs ! i) \<le> kb_max (?bs ! i)" using covers_max [OF cov nth_mem [OF i(1)]] by (simp_all add: key_le)
      have rt: "kb_insert now srv e (?bs ! i) = (True, ?bs ! i)" using r True sp(1) by simp
      from kt_insert_split [OF Some ne rt bi sp(2) cv, of x] obtain l' r' where
        ins: "kt_insert now srv e t = t\<lparr>kt_buckets := take i ?bs @ [l', r'] @ drop (Suc i) ?bs\<rparr>"
          "kb_contains x (?bs ! i) \<longrightarrow> kb_contains x l' \<or> kb_contains x r'" by blast
      have "kb_contains x l' \<or> kb_contains x r'" if "j = i" using ins(2) xb j that by simp
      then show ?thesis using other unfolding ins(1) by (cases "j = i") (auto simp: kt_contains_def)
    qed
  qed
qed

theorem insert_keeps_nodes_witness:
  "kt_contains (sample_node 7 1) (kt_insert 9 (\<lambda>_. None) (sample_node 8 2) (fold table_step [Seen 5 (\<lambda>_. None) (sample_node 7 1)] (KBucketTable_new (Key 3 0 0 0 0))))"
proof -
  let ?t = "fold table_step [Seen 5 (\<lambda>_. None) (sample_node 7 1)] (KBucketTable_new (Key 3 0 0 0 0))"
  have b: "map kb_entries (kt_buckets ?t) = [[sample_node 7 1]]" by code_simp
  then obtain b where "kt_buckets ?t = [b]" "kb_entries b = [sample_node 7 1]" by auto
  moreover have "\<not> isBad 9 (sample_node 7 1)" by code_simp
  ultimately show ?thesis using insert_keeps_nodes [OF refl, of b "[Seen 5 (\<lambda>_. None) (sample_node 7 1)]" "Key 3 0 0 0 0" "sample_node 7 1" 9 "\<lambda>_. None" "sample_node 8 2"]
    by simp
qed

text \<open>
  The largest key is not all ones: \<^const>\<open>Key_max\<close> has a first byte of 255 and zeros after it. A node whose identifier is
  above it, one in 256 of all, has no bucket and is never stored.
\<close>

lemma ids_above_max_ignored:
  assumes "Key_max < ke_id e" and "t = fold table_step evs (KBucketTable_new our_id)"
  shows "findBucket (ke_id e) (kt_buckets (kt_insert now srv e t)) = None \<and> (kt_buckets t \<noteq> [] \<longrightarrow> kt_insert now srv e t = t)"
proof -
  have ok: "table_ok t" using assms(2) table_reachable_ok [OF table_ok_new] by simp
  have none: "findBucket (ke_id e) (kt_buckets u) = None" if u: "table_ok u" for u
  proof (rule ccontr)
    assume "findBucket (ke_id e) (kt_buckets u) \<noteq> None"
    then obtain i where i: "i < length (kt_buckets u)" "keyInRange (kt_buckets u ! i) (ke_id e)" using findBucket_Some by blast
    then have "covers 0 (kt_buckets u) (Suc (key_val Key_max))" using u by (auto simp: table_ok_def)
    from covers_max [OF this nth_mem [OF i(1)]] i(2) assms(1) show False by (simp add: keyInRange_def key_le key_less)
  qed
  show ?thesis using none [OF kt_insert_ok [OF ok]] none [OF ok] by (simp add: kt_insert_def)
qed

lemma max_key_bytes: "key_bytes Key_max = 255 # replicate 19 0"
  by code_simp

text \<open>
  A node that waits for a place can wait for it twice, since \<^const>\<open>kb_insert\<close> does not look at the calls under way: a message of
  an unknown node pings a questionable one, and so does its next message. When neither answers, both are replaced by the same node.
\<close>

lemma second_message_pings_again:
  assumes "\<forall>e \<in> set (kb_entries b). \<not> entry_eq e x \<and> \<not> isBad now e" and "length (kb_entries b) = K" and "\<not> splitAllowed b"
    and "kb_busy b = [(c1, x)]" and "ping_loop now srv 0 (kb_entries b) = (es, Some c2)" and "c1 \<noteq> c2"
  shows "kb_busy (snd (kb_insert now srv x b)) = [(c1, x), (c2, x)]"
  using assms by (simp add: kb_insert_def replaceBadEntry_def pingQuestionable_def)

lemma erase_first_append: "\<exists>x \<in> set xs. P x \<Longrightarrow> erase_first P (xs @ ys) = erase_first P xs @ ys"
  by (induction xs) auto

lemma pending_node_stored_twice:
  assumes "kb_busy b = [(c1, x), (c2, x)]" and "c1 \<noteq> c2" and "kb_pending b = []"
    and "e1 \<in> set (kb_entries b)" and "e2 \<in> set (kb_entries b)" and "ke_addr e1 \<noteq> ke_addr e2" and "ke_addr x \<noteq> ke_addr e2"
  shows "\<exists>es. kb_entries (kb_callTimeout now' srv c2 (ke_addr e2) (kb_callTimeout now srv c1 (ke_addr e1) b)) = es @ [x, x]"
proof -
  let ?P = "\<lambda>e. ke_addr e = ke_addr e1" and ?Q = "\<lambda>e. ke_addr e = ke_addr e2"
  let ?es = "erase_first ?P (kb_entries b)"
  have e2: "e2 \<in> set ?es" using erase_first_keeps [OF assms(5), of ?P] assms(6) by simp
  define b1 where "b1 = kb_callTimeout now srv c1 (ke_addr e1) b"
  have b1: "kb_entries b1 = ?es @ [x]" "kb_busy b1 = [(c2, x)]" "kb_pending b1 = []"
    using assms(1-4) by (auto simp: b1_def kb_callTimeout_def AList.delete_eq)
  have "erase_first ?Q (?es @ [x]) = erase_first ?Q ?es @ [x]" using erase_first_append [of ?es ?Q "[x]"] e2 by blast
  then show ?thesis unfolding b1_def [symmetric] using b1 e2 by (auto simp: kb_callTimeout_def AList.delete_eq)
qed

end
