(* ===== verification/DhtSearch.thy ===== *)
theory DhtSearch
  imports KBucketTable
begin

text \<open>
  The search for the nodes closest to a key, \<^verbatim>\<open>src/src/dht/kclosestnodessearch.cpp\<close>, and the packed form in
  which nodes are sent, \<^verbatim>\<open>pack.cpp\<close> and \<^verbatim>\<open>packednodecontainer.cpp\<close>. The \<^verbatim>\<open>std::map\<close> from distances to nodes is a list in
  ascending order of the distances.
\<close>

section \<open>The search\<close>

record closest_search =
  cs_key :: key
  cs_max_entries :: u32
  cs_emap :: "(key \<times> kb_entry) list"

definition KClosestNodesSearch :: "key \<Rightarrow> u32 \<Rightarrow> closest_search" where
  "KClosestNodesSearch k max_entries = \<lparr>cs_key = k, cs_max_entries = max_entries, cs_emap = []\<rparr>"

text \<open>\<^verbatim>\<open>std::map::insert\<close> does nothing when the key is present.\<close>

fun emap_insert :: "key \<Rightarrow> kb_entry \<Rightarrow> (key \<times> kb_entry) list \<Rightarrow> (key \<times> kb_entry) list" where
  "emap_insert d e [] = [(d, e)]"
| "emap_insert d e ((d', e') # m) =
     (if d < d' then (d, e) # (d', e') # m else if d = d' then (d', e') # m else (d', e') # emap_insert d e m)"

text \<open>
  \<^const>\<open>None\<close> is undefined behaviour: the last element of an empty map, when no entries are
  asked for.
\<close>

definition tryInsert :: "kb_entry \<Rightarrow> closest_search \<Rightarrow> closest_search option" where
  "tryInsert e s =
     (let d = distance (cs_key s) (ke_id e) in
      if of_nat (length (cs_emap s)) < cs_max_entries s then Some (s\<lparr>cs_emap := emap_insert d e (cs_emap s)\<rparr>)
      else if cs_emap s = [] then None
      else let mx = fst (last (cs_emap s)) in
        if d < mx then Some (s\<lparr>cs_emap := AList.delete mx (emap_insert d e (cs_emap s))\<rparr>) else Some s)"

fun try_all :: "kb_entry list \<Rightarrow> closest_search \<Rightarrow> closest_search option" where
  "try_all [] s = Some s"
| "try_all (e # es) s = Option.bind (tryInsert e s) (try_all es)"

definition kb_findKClosestNodes :: "kbucket \<Rightarrow> closest_search \<Rightarrow> closest_search option" where
  "kb_findKClosestNodes b s = try_all (kb_entries b) s"

fun kt_findKClosestNodes :: "kbucket list \<Rightarrow> closest_search \<Rightarrow> closest_search option" where
  "kt_findKClosestNodes [] s = Some s"
| "kt_findKClosestNodes (b # bs) s = Option.bind (kb_findKClosestNodes b s) (kt_findKClosestNodes bs)"

section \<open>Packed nodes\<close>

definition PackBucketEntry :: "kb_entry \<Rightarrow> byte list \<Rightarrow> nat \<Rightarrow> byte list option" where
  "PackBucketEntry e ba off =
     (if length ba < off + (if ipVersion (ke_addr e) = 4 then 26 else 38) then None
      else Some (splice_at (off + 20) (writeCompact (ke_addr e)) (splice_at off (key_bytes (ke_id e)) ba)))"

definition UnpackBucketEntry :: "u64 \<Rightarrow> byte list \<Rightarrow> nat \<Rightarrow> kb_entry option" where
  "UnpackBucketEntry now ba ip_version =
     (if ip_version = 4 then
        if length ba < 26 then None else Some (KBucketEntry now (fromCompactIPv4 (drop 20 ba)) (Key_of (take 20 ba)))
      else
        if length ba < 38 then None else Some (KBucketEntry now (fromCompactIPv6 (drop 20 ba)) (Key_of (take 20 ba))))"

record node_container =
  pn_nodes :: "byte list"
  pn_nodes6 :: "byte list"

definition addNode :: "byte list \<Rightarrow> node_container \<Rightarrow> node_container" where
  "addNode a c = (if length a = 26 then c\<lparr>pn_nodes := pn_nodes c @ a\<rparr> else c\<lparr>pn_nodes6 := pn_nodes6 c @ a\<rparr>)"

definition pack_entry :: "kb_entry \<Rightarrow> node_container \<Rightarrow> node_container option" where
  "pack_entry e c = map_option (\<lambda>d. addNode d c)
     (PackBucketEntry e (replicate (if ipVersion (ke_addr e) = 4 then 26 else 38) 0) 0)"

fun pack_nodes :: "kb_entry list \<Rightarrow> node_container \<Rightarrow> node_container option" where
  "pack_nodes [] c = Some c"
| "pack_nodes (e # es) c = Option.bind (pack_entry e c) (pack_nodes es)"

definition kns_pack :: "closest_search \<Rightarrow> node_container \<Rightarrow> node_container option" where
  "kns_pack s c = pack_nodes (map snd (cs_emap s)) c"

text \<open>Reading packed nodes, as \<^verbatim>\<open>handleNodes\<close> of the tasks does: an incomplete node at the end is ignored.\<close>

fun unpack_nodes :: "u64 \<Rightarrow> nat \<Rightarrow> nat \<Rightarrow> byte list \<Rightarrow> kb_entry list" where
  "unpack_nodes now ip_version 0 ba = []"
| "unpack_nodes now ip_version (Suc n) ba =
     (case UnpackBucketEntry now ba ip_version of
        Some e \<Rightarrow> e # unpack_nodes now ip_version n (drop (if ip_version = 4 then 26 else 38) ba)
      | None \<Rightarrow> unpack_nodes now ip_version n (drop (if ip_version = 4 then 26 else 38) ba))"

definition received_nodes :: "u64 \<Rightarrow> nat \<Rightarrow> byte list \<Rightarrow> kb_entry list" where
  "received_nodes now ip_version nodes = unpack_nodes now ip_version (length nodes div (if ip_version = 4 then 26 else 38)) nodes"

section \<open>Lemmas\<close>

abbreviation dist :: "key \<Rightarrow> kb_entry \<Rightarrow> key" where
  "dist k e \<equiv> distance k (ke_id e)"

abbreviation keyed :: "key \<Rightarrow> kb_entry list \<Rightarrow> (key \<times> kb_entry) list" where
  "keyed k es \<equiv> map (\<lambda>e. (dist k e, e)) es"

lemma emap_insert_insort: "dist k e \<notin> dist k ` set es \<Longrightarrow> emap_insert (dist k e) e (keyed k es) = keyed k (insort_key (dist k) e es)"
  by (induction es) auto

lemma distinct_insort_key: "distinct (map f xs) \<Longrightarrow> f e \<notin> f ` set xs \<Longrightarrow> distinct (map f (insort_key f e xs))"
  by (induction xs) (auto simp: set_insort_key)

lemma sort_snoc:
  assumes "distinct (map f (es @ [e]))"
  shows "sort_key f (es @ [e]) = insort_key f e (sort_key f es)"
proof (rule map_sorted_distinct_set_unique [of f])
  have "distinct (map f (sort_key f xs)) \<longleftrightarrow> distinct (map f xs)" for xs
    by (simp add: distinct_map)
  moreover have "distinct (map f (insort_key f e (sort_key f es)))"
    using assms calculation by (intro distinct_insort_key) auto
  ultimately show "distinct (map f (sort_key f (es @ [e])))" "distinct (map f (insort_key f e (sort_key f es)))" using assms by blast+
  show "inj_on f (set (sort_key f (es @ [e])) \<union> set (insort_key f e (sort_key f es)))" using assms by (auto simp: distinct_map set_insort_key)
qed (simp_all add: sorted_insort_key set_insort_key)

lemma insort_split:
  "sorted (map f xs) \<Longrightarrow> f e \<notin> f ` set xs \<Longrightarrow>
   insort_key f e xs = takeWhile (\<lambda>x. f x < f e) xs @ e # dropWhile (\<lambda>x. f x < f e) xs"
proof (induction xs)
  case (Cons x xs)
  show ?case
  proof (cases "f x < f e")
    case True
    then have "\<not> f e \<le> f x" by simp
    then show ?thesis using Cons True by simp
  next
    case False
    then have "f e \<le> f x" by simp
    then show ?thesis using False by simp
  qed
qed simp

lemma takeWhile_take: "takeWhile P (take n xs) = take n (takeWhile P xs)"
  by (induction xs arbitrary: n) (auto simp: take_Cons split: nat.split)

lemma take_insort:
  assumes s: "sorted (map f xs)" and d: "f e \<notin> f ` set xs" and n: "0 < n" "n \<le> length xs"
  shows "f e < f (xs ! (n - 1)) \<Longrightarrow> \<exists>ys. insort_key f e (take n xs) = ys @ [xs ! (n - 1)] \<and> take n (insort_key f e xs) = ys"
    and "\<not> f e < f (xs ! (n - 1)) \<Longrightarrow> take n (insort_key f e xs) = take n xs"
proof -
  let ?P = "\<lambda>x. f x < f e"
  define a where "a = length (takeWhile ?P xs)"
  have split: "insort_key f e xs = take a xs @ e # drop a xs"
    using insort_split [OF s d] takeWhile_eq_take [of ?P xs] dropWhile_eq_drop [of ?P xs] unfolding a_def by metis
  have small: "f (xs ! i) < f e" if "i < a" for i using that takeWhile_nth [of i ?P xs] set_takeWhileD [of "xs ! i" ?P xs]
    by (metis a_def nth_mem)
  have big: "f e < f (xs ! i)" if "a \<le> i" "i < length xs" for i
  proof -
    have "a < length xs" using that by simp
    then have "\<not> f (xs ! a) < f e" using nth_length_takeWhile [of ?P xs] by (simp add: a_def)
    moreover have "f (xs ! a) \<le> f (xs ! i)" using s that by (simp add: sorted_iff_nth_mono)
    moreover have "f e \<noteq> f (xs ! a)" using d \<open>a < length xs\<close> by auto
    ultimately show ?thesis by auto
  qed
  have an: "f e < f (xs ! (n - 1)) \<longleftrightarrow> a < n" 
  proof (cases "a < n")
    case True
    then show ?thesis using big [of "n - 1"] n by simp
  next
    case False
    then have "f (xs ! (n - 1)) < f e" using small [of "n - 1"] n by simp
    then have "\<not> f e < f (xs ! (n - 1))" by (rule less_not_sym)
    then show ?thesis using False by simp
  qed
  show "take n (insort_key f e xs) = take n xs" if "\<not> f e < f (xs ! (n - 1))" using that an split n a_def by (auto simp: min_def)
  show "\<exists>ys. insort_key f e (take n xs) = ys @ [xs ! (n - 1)] \<and> take n (insort_key f e xs) = ys" if lt: "f e < f (xs ! (n - 1))"
  proof -
    have a: "a < n" using lt an by simp
    have tw: "takeWhile ?P (take n xs) = take a xs" "dropWhile ?P (take n xs) = take (n - a) (drop a xs)"
    proof -
      have "takeWhile ?P (take n xs) = take n (takeWhile ?P xs)" by (rule takeWhile_take)
      then have t: "length (takeWhile ?P (take n xs)) = a" using a by (simp add: a_def)
      show "takeWhile ?P (take n xs) = take a xs" "dropWhile ?P (take n xs) = take (n - a) (drop a xs)"
        using t a takeWhile_eq_take [of ?P "take n xs"] dropWhile_eq_drop [of ?P "take n xs"] by (simp_all only: drop_take take_take min.absorb1 less_imp_le)
    qed
    have "insort_key f e (take n xs) = take a xs @ e # take (n - a) (drop a xs)"
    proof -
      have "sorted (map f (take n xs))" using sorted_wrt_take [OF s] by (simp add: take_map)
      moreover have "f e \<notin> f ` set (take n xs)" using d set_take_subset [of n xs] by blast
      ultimately show ?thesis using insort_split [of f "take n xs" e] tw by simp
    qed
    moreover have "take (n - a) (drop a xs) = take (n - a - 1) (drop a xs) @ [xs ! (n - 1)]"
      using a n take_Suc_conv_app_nth [of "n - a - 1" "drop a xs"] by (simp add: Suc_diff_Suc)
    moreover have "take n (take a xs @ e # drop a xs) = take a xs @ e # take (n - a - 1) (drop a xs)"
      using a n by (simp add: take_Cons')
    ultimately show ?thesis using split by simp
  qed
qed

lemma distinct_dist: "distinct (map (dist k) es) \<longleftrightarrow> distinct (map ke_id es)"
  by (induction es) (auto simp: distance_inj)

lemma delete_last:
  assumes "distinct (map (dist k) (ys @ [y]))"
  shows "AList.delete (dist k y) (keyed k (ys @ [y])) = keyed k ys"
proof -
  have "dist k y \<notin> dist k ` set ys" using assms by simp
  then have "\<forall>x \<in> set ys. dist k x \<noteq> dist k y" by (metis imageI)
  then show ?thesis by (auto simp: AList.delete_eq filter_id_conv)
qed

definition closest_so_far :: "key \<Rightarrow> u32 \<Rightarrow> kb_entry list \<Rightarrow> closest_search" where
  "closest_so_far k n es = \<lparr>cs_key = k, cs_max_entries = n, cs_emap = keyed k (take (unat n) (sort_key (dist k) es))\<rparr>"

lemma tryInsert_closest:
  assumes d: "distinct (map ke_id (es @ [e]))" and n: "0 < n"
  shows "tryInsert e (closest_so_far k n es) = Some (closest_so_far k n (es @ [e]))"
proof -
  let ?N = "unat n"
  define xs where "xs = sort_key (dist k) es"
  have N: "0 < ?N" "?N < 4294967296" using n unat_u32 [of n] by (simp_all add: word_less_nat_alt)
  have dd: "distinct (map (dist k) (es @ [e]))" using d distinct_dist by blast
  have xs: "sorted (map (dist k) xs)" "length xs = length es" "set xs = set es" by (simp_all add: xs_def)
  have new: "dist k e \<notin> dist k ` set xs" using dd xs(3) by auto
  have srt: "sort_key (dist k) (es @ [e]) = insort_key (dist k) e xs" unfolding xs_def by (rule sort_snoc [OF dd])
  have len: "(of_nat (length (take ?N xs)) < n) \<longleftrightarrow> length es < ?N" using N xs(2) by (simp add: word_less_nat_alt unat_of_nat min_def)
  show ?thesis
  proof (cases "length es < ?N")
    case True
    then have "take ?N xs = xs" "take ?N (insort_key (dist k) e xs) = insort_key (dist k) e xs" using xs(2) by simp_all
    then show ?thesis using True len emap_insert_insort [OF new]
      by (simp add: tryInsert_def closest_so_far_def xs_def [symmetric] srt)
  next
    case False
    have le: "?N \<le> length xs" using False xs(2) by simp
    have ne: "take ?N xs \<noteq> []" using N(1) le by auto
    have lst: "last (keyed k (take ?N xs)) = (dist k (xs ! (?N - 1)), xs ! (?N - 1))"
      using ne N(1) le by (simp add: last_map last_conv_nth)
    have new': "dist k e \<notin> dist k ` set (take ?N xs)" using new set_take_subset [of ?N xs] by blast
    show ?thesis
    proof (cases "dist k e < dist k (xs ! (?N - 1))")
      case True
      from take_insort(1) [OF xs(1) new N(1) le True] obtain ys where
        ys: "insort_key (dist k) e (take ?N xs) = ys @ [xs ! (?N - 1)]" "take ?N (insort_key (dist k) e xs) = ys" by blast
      have "distinct (map (dist k) (insort_key (dist k) e (take ?N xs)))"
      proof -
        have "distinct (map (dist k) xs)" using dd by (simp add: xs_def distinct_map)
        then have "distinct (map (dist k) (take ?N xs))" by (metis distinct_take take_map)
        then show ?thesis using new' by (rule distinct_insort_key)
      qed
      then have "AList.delete (dist k (xs ! (?N - 1))) (emap_insert (dist k e) e (keyed k (take ?N xs))) = keyed k ys"
        unfolding emap_insert_insort [OF new'] ys(1) by (rule delete_last)
      then show ?thesis using True False len lst ne ys(2) by (simp add: tryInsert_def closest_so_far_def xs_def [symmetric] srt)
    next
      case not: False
      from take_insort(2) [OF xs(1) new N(1) le not] show ?thesis
        using not False len lst ne by (simp add: tryInsert_def closest_so_far_def xs_def [symmetric] srt)
    qed
  qed
qed

lemma try_all_closest:
  "distinct (map ke_id (es @ fs)) \<Longrightarrow> 0 < n \<Longrightarrow> try_all fs (closest_so_far k n es) = Some (closest_so_far k n (es @ fs))"
proof (induction fs arbitrary: es)
  case (Cons f fs)
  then have "tryInsert f (closest_so_far k n es) = Some (closest_so_far k n (es @ [f]))" by (intro tryInsert_closest) auto
  then show ?case using Cons.IH [of "es @ [f]"] Cons.prems by simp
qed simp

lemma kt_find_all: "kt_findKClosestNodes bs s = try_all (concat (map kb_entries bs)) s"
proof (induction bs arbitrary: s)
  case (Cons b bs)
  have app: "try_all (xs @ ys) s = Option.bind (try_all xs s) (try_all ys)" for xs ys s
  proof (induction xs arbitrary: s)
    case (Cons x xs)
    then show ?case by (cases "tryInsert x s") simp_all
  qed simp
  have "kt_findKClosestNodes bs = try_all (concat (map kb_entries bs))" using Cons by (simp add: fun_eq_iff)
  then show ?case by (simp add: app kb_findKClosestNodes_def)
qed simp

definition packed :: "kb_entry \<Rightarrow> byte list" where
  "packed e = key_bytes (ke_id e) @ writeCompact (ke_addr e)"

lemma length_packed [simp]: "length (packed e) = (if ipVersion (ke_addr e) = 4 then 26 else 38)"
  by (simp add: packed_def)

lemma pack_entry_packed: "pack_entry e c = Some (addNode (packed e) c)"
proof -
  have "splice_at 20 (writeCompact (ke_addr e)) (splice_at 0 (key_bytes (ke_id e)) (replicate (if ipVersion (ke_addr e) = 4 then 26 else 38) 0)) = packed e"
    by (simp add: splice_at_def packed_def)
  then show ?thesis by (simp add: pack_entry_def PackBucketEntry_def)
qed

lemma pack_nodes_bytes:
  "pack_nodes es c = Some \<lparr>pn_nodes = pn_nodes c @ concat (map packed (filter (\<lambda>e. ipVersion (ke_addr e) = 4) es)),
     pn_nodes6 = pn_nodes6 c @ concat (map packed (filter (\<lambda>e. ipVersion (ke_addr e) \<noteq> 4) es))\<rparr>"
  by (induction es arbitrary: c) (simp_all add: pack_entry_packed addNode_def)

lemma unpack_packed:
  assumes "ipVersion (ke_addr e) = v"
  shows "UnpackBucketEntry now (packed e @ rest) v = Some (KBucketEntry now (ke_addr e) (ke_id e))"
proof -
  have k: "take 20 (packed e @ rest) = key_bytes (ke_id e)" "drop 20 (packed e @ rest) = writeCompact (ke_addr e) @ rest" by (simp_all add: packed_def)
  from ipVersion_cases [of "ke_addr e"] show ?thesis
  proof
    assume v: "ipVersion (ke_addr e) = 4"
    then show ?thesis using assms k compact_roundtrip4 [OF v, of rest] by (simp add: UnpackBucketEntry_def)
  next
    assume v: "ipVersion (ke_addr e) = 6"
    then show ?thesis using assms k compact_roundtrip6 [OF v, of rest] by (simp add: UnpackBucketEntry_def)
  qed
qed

lemma received_packed:
  assumes "\<forall>e \<in> set es. ipVersion (ke_addr e) = v" and "v = 4 \<or> v = 6"
  shows "received_nodes now v (concat (map packed es)) = map (\<lambda>e. KBucketEntry now (ke_addr e) (ke_id e)) es"
proof -
  let ?n = "if v = 4 then 26 else 38 :: nat"
  have len: "length (concat (map packed es)) = ?n * length es" using assms by (induction es) auto
  have "unpack_nodes now v (length es) (concat (map packed es)) = map (\<lambda>e. KBucketEntry now (ke_addr e) (ke_id e)) es"
    using assms(1)
  proof (induction es)
    case (Cons e es)
    have "drop ?n (packed e @ concat (map packed es)) = concat (map packed es)" using Cons.prems by simp
    then show ?case using Cons unpack_packed [of e v now "concat (map packed es)"] by simp
  qed simp
  moreover have "?n * length es div ?n = length es" by (rule nonzero_mult_div_cancel_left) simp
  ultimately show ?thesis unfolding received_nodes_def len by simp
qed

section \<open>Properties\<close>

text \<open>When no two nodes of a routing table have the same identifier, the search for the \<open>n\<close> nodes closest to a key finds the \<open>n\<close> nodes of the
  table with the smallest distances to the key, in the order of their distances.
\<close>

theorem closest_nodes_found:
  assumes "distinct (map ke_id (concat (map kb_entries (kt_buckets t))))" and "0 < n"
  shows "map_option (map snd \<circ> cs_emap) (kt_findKClosestNodes (kt_buckets t) (KClosestNodesSearch k n)) =
    Some (take (unat n) (sort_key (\<lambda>e. distance k (ke_id e)) (concat (map kb_entries (kt_buckets t)))))"
proof -
  have "KClosestNodesSearch k n = closest_so_far k n []" by (simp add: KClosestNodesSearch_def closest_so_far_def)
  then show ?thesis using try_all_closest [of "[]" "concat (map kb_entries (kt_buckets t))" n k] assms
    unfolding kt_find_all by (simp add: closest_so_far_def comp_def)
qed

theorem closest_nodes_found_witness:
  "let t = fold table_step (map (\<lambda>i. Seen 5 (\<lambda>_. None) (sample_node i i)) [12, 3, 9]) (KBucketTable_new (Key 3 0 0 0 0)) in
   map_option (map snd \<circ> cs_emap) (kt_findKClosestNodes (kt_buckets t) (KClosestNodesSearch (Key 8 0 0 0 0) 2)) = Some [sample_node 9 9, sample_node 12 12]"
proof -
  let ?t = "fold table_step (map (\<lambda>i. Seen 5 (\<lambda>_. None) (sample_node i i)) [12, 3, 9]) (KBucketTable_new (Key 3 0 0 0 0))"
  have e: "concat (map kb_entries (kt_buckets ?t)) = [sample_node 12 12, sample_node 3 3, sample_node 9 9]" by code_simp
  have "distinct (map ke_id [sample_node 12 12, sample_node 3 3, sample_node 9 9])" by code_simp
  moreover have "take 2 (sort_key (\<lambda>e. distance (Key 8 0 0 0 0) (ke_id e)) [sample_node 12 12, sample_node 3 3, sample_node 9 9]) =
    [sample_node 9 9, sample_node 12 12]" by code_simp
  ultimately show ?thesis using closest_nodes_found [of ?t 2 "Key 8 0 0 0 0"] unfolding Let_def e by simp
qed

text \<open>
  Two nodes with the same identifier are possible, as an entry is its address and its identifier. The second one is not inserted into the map, but the farthest
  node is erased all the same: the search returns one node although two are asked for and known.
\<close>

lemma same_id_drops_farthest:
  "map_option (map snd \<circ> cs_emap) (try_all [sample_node 9 1, sample_node 12 2, sample_node 9 3] (KClosestNodesSearch (Key 8 0 0 0 0) 2)) =
   Some [sample_node 9 1]"
  by code_simp

text \<open>The nodes packed into an answer are read back by the receiver in the same order, with their addresses and identifiers, IPv4 and IPv6 nodes apart.
\<close>

theorem packed_nodes_roundtrip:
  "map_option (\<lambda>c. (map (\<lambda>e. (ke_addr e, ke_id e)) (received_nodes now 4 (pn_nodes c)), map (\<lambda>e. (ke_addr e, ke_id e)) (received_nodes now 6 (pn_nodes6 c))))
     (kns_pack s \<lparr>pn_nodes = [], pn_nodes6 = []\<rparr>) =
   Some (filter (\<lambda>(a, i). ipVersion a = 4) (map (\<lambda>(d, e). (ke_addr e, ke_id e)) (cs_emap s)),
         filter (\<lambda>(a, i). ipVersion a = 6) (map (\<lambda>(d, e). (ke_addr e, ke_id e)) (cs_emap s)))"
proof -
  let ?es = "map snd (cs_emap s)"
  have six: "ipVersion a \<noteq> 4 \<longleftrightarrow> ipVersion a = 6" for a by (cases a) simp_all
  have r: "received_nodes now v (concat (map packed (filter (\<lambda>e. ipVersion (ke_addr e) = v) ?es))) =
      map (\<lambda>e. KBucketEntry now (ke_addr e) (ke_id e)) (filter (\<lambda>e. ipVersion (ke_addr e) = v) ?es)" if "v = 4 \<or> v = 6" for v
    by (rule received_packed) (use that in auto)
  have f: "map (\<lambda>e. (ke_addr e, ke_id e)) (map (\<lambda>e. KBucketEntry now (ke_addr e) (ke_id e)) (filter (\<lambda>e. ipVersion (ke_addr e) = v) (map snd m))) =
      filter (\<lambda>(a, i). ipVersion a = v) (map (\<lambda>(d, e). (ke_addr e, ke_id e)) m)" for v and m :: "(key \<times> kb_entry) list"
  proof (induction m)
    case (Cons x m)
    then show ?case by (cases x) (simp add: KBucketEntry_def)
  qed simp
  have p: "kns_pack s \<lparr>pn_nodes = [], pn_nodes6 = []\<rparr> = Some \<lparr>pn_nodes = concat (map packed (filter (\<lambda>e. ipVersion (ke_addr e) = 4) ?es)),
      pn_nodes6 = concat (map packed (filter (\<lambda>e. ipVersion (ke_addr e) = 6) ?es))\<rparr>"
    unfolding kns_pack_def pack_nodes_bytes six node_container.simps append_Nil ..
  show ?thesis unfolding p option.map node_container.simps r [OF disjI1 [OF refl]] r [OF disjI2 [OF refl]] f ..
qed

end
