(* ===== verification/DhtMessages.thy ===== *)
theory DhtMessages
  imports Metadata DhtSearch
begin

text \<open>
  The messages of the distributed hash table, \<^verbatim>\<open>src/src/dht/\<close>: \<^verbatim>\<open>rpcmsg.cpp\<close> and its subclasses (\<^verbatim>\<open>pingreq.cpp\<close>,
  \<^verbatim>\<open>findnodereq.cpp\<close>, \<^verbatim>\<open>getpeersreq.cpp\<close>, \<^verbatim>\<open>announcereq.cpp\<close>, their responses, \<^verbatim>\<open>errmsg.cpp\<close>) and \<^verbatim>\<open>rpcmsgfactory.cpp\<close>, which
  builds a message from a decoded dictionary. A message is a constructor with the fields of its class; \<open>rpc_encode\<close>
  writes it with the bencoder, \<open>rpc_build\<close> reads it. The items of a \<open>get_peers\<close> answer are their addresses.
\<close>

section \<open>Messages\<close>

datatype rpc_method = PING | FIND_NODE | GET_PEERS | ANNOUNCE_PEER | NONE

datatype rpc_msg =
    PingReq "byte list" key
  | FindNodeReq "byte list" key key "string list"
  | GetPeersReq "byte list" key key "string list"
  | AnnounceReq "byte list" key key "string list" u16 "byte list"
  | PingRsp "byte list" key
  | FindNodeRsp "byte list" key "byte list" "byte list"
  | GetPeersRsp "byte list" key "byte list" "byte list" "byte list" "address list"
  | AnnounceRsp "byte list" key
  | ErrMsg "byte list" string

fun getMTID :: "rpc_msg \<Rightarrow> byte list" where
  "getMTID (PingReq t _) = t" | "getMTID (FindNodeReq t _ _ _) = t" | "getMTID (GetPeersReq t _ _ _) = t"
| "getMTID (AnnounceReq t _ _ _ _ _) = t" | "getMTID (PingRsp t _) = t" | "getMTID (FindNodeRsp t _ _ _) = t"
| "getMTID (GetPeersRsp t _ _ _ _ _) = t" | "getMTID (AnnounceRsp t _) = t" | "getMTID (ErrMsg t _) = t"

fun setMTID :: "byte list \<Rightarrow> rpc_msg \<Rightarrow> rpc_msg" where
  "setMTID t (PingReq _ i) = PingReq t i" | "setMTID t (FindNodeReq _ i k w) = FindNodeReq t i k w"
| "setMTID t (GetPeersReq _ i k w) = GetPeersReq t i k w" | "setMTID t (AnnounceReq _ i k w p tok) = AnnounceReq t i k w p tok"
| "setMTID t (PingRsp _ i) = PingRsp t i" | "setMTID t (FindNodeRsp _ i n n6) = FindNodeRsp t i n n6"
| "setMTID t (GetPeersRsp _ i tok n n6 its) = GetPeersRsp t i tok n n6 its" | "setMTID t (AnnounceRsp _ i) = AnnounceRsp t i"
| "setMTID t (ErrMsg _ m) = ErrMsg t m"

fun getMethod :: "rpc_msg \<Rightarrow> rpc_method" where
  "getMethod (PingReq _ _) = PING" | "getMethod (PingRsp _ _) = PING"
| "getMethod (FindNodeReq _ _ _ _) = FIND_NODE" | "getMethod (FindNodeRsp _ _ _ _) = FIND_NODE"
| "getMethod (GetPeersReq _ _ _ _) = GET_PEERS" | "getMethod (GetPeersRsp _ _ _ _ _ _) = GET_PEERS"
| "getMethod (AnnounceReq _ _ _ _ _ _) = ANNOUNCE_PEER" | "getMethod (AnnounceRsp _ _) = ANNOUNCE_PEER"
| "getMethod (ErrMsg _ _) = NONE"

definition MAX_TOKEN_SIZE :: nat where "MAX_TOKEN_SIZE = 40"

definition wants :: "(nat \<Rightarrow> string) \<Rightarrow> string list \<Rightarrow> nat \<Rightarrow> bool" where
  "wants number want ip_version \<longleftrightarrow> ''n'' @ number ip_version \<in> set want"

section \<open>Encoding\<close>

definition write_data :: "(nat \<Rightarrow> string) \<Rightarrow> string \<Rightarrow> byte list \<Rightarrow> bencoder \<Rightarrow> bencoder" where
  "write_data number k dat = write_key number k (write_bytes number (string_of dat))"

text \<open>The end of every message: the method of a request, the transaction and the type.\<close>

definition end_req :: "(nat \<Rightarrow> string) \<Rightarrow> string \<Rightarrow> byte list \<Rightarrow> bencoder \<Rightarrow> bencoder" where
  "end_req number meth mtid e = end_enc (write_key number ''y'' (write_bytes number ''q'')
     (write_data number ''t'' mtid (write_key number ''q'' (write_bytes number meth) (end_enc e))))"

definition end_rsp :: "(nat \<Rightarrow> string) \<Rightarrow> byte list \<Rightarrow> bencoder \<Rightarrow> bencoder" where
  "end_rsp number mtid e = end_enc (write_key number ''y'' (write_bytes number ''r'') (write_data number ''t'' mtid (end_enc e)))"

definition begin_msg :: "(nat \<Rightarrow> string) \<Rightarrow> string \<Rightarrow> key \<Rightarrow> bencoder" where
  "begin_msg number k i = write_data number ''id'' (key_bytes i) (beginDict (write_bytes number k (beginDict buffer_output)))"

fun write_items :: "(nat \<Rightarrow> string) \<Rightarrow> address list \<Rightarrow> bencoder \<Rightarrow> bencoder" where
  "write_items number [] e = e"
| "write_items number (a # as) e = write_items number as (write_bytes number (string_of (writeCompact a)) e)"

definition encode_pingReq :: "(nat \<Rightarrow> string) \<Rightarrow> byte list \<Rightarrow> key \<Rightarrow> byte list" where
  "encode_pingReq number t i = encoded (end_req number ''ping'' t (begin_msg number ''a'' i))"

definition encode_findNodeReq :: "(nat \<Rightarrow> string) \<Rightarrow> byte list \<Rightarrow> key \<Rightarrow> key \<Rightarrow> byte list" where
  "encode_findNodeReq number t i target = encoded (end_req number ''find_node'' t
     (write_data number ''target'' (key_bytes target) (begin_msg number ''a'' i)))"

definition encode_getPeersReq :: "(nat \<Rightarrow> string) \<Rightarrow> byte list \<Rightarrow> key \<Rightarrow> key \<Rightarrow> byte list" where
  "encode_getPeersReq number t i info_hash = encoded (end_req number ''get_peers'' t
     (write_data number ''info_hash'' (key_bytes info_hash) (begin_msg number ''a'' i)))"

definition encode_announceReq :: "(nat \<Rightarrow> string) \<Rightarrow> byte list \<Rightarrow> key \<Rightarrow> key \<Rightarrow> u16 \<Rightarrow> byte list \<Rightarrow> byte list" where
  "encode_announceReq number t i info_hash prt tok = encoded (end_req number ''announce_peer'' t
     (write_data number ''token'' tok (write_key number ''port'' (write_u32 number (ucast prt))
       (write_data number ''info_hash'' (key_bytes info_hash) (begin_msg number ''a'' i)))))"

definition encode_pingRsp :: "(nat \<Rightarrow> string) \<Rightarrow> byte list \<Rightarrow> key \<Rightarrow> byte list" where
  "encode_pingRsp number t i = encoded (end_rsp number t (begin_msg number ''r'' i))"

definition encode_findNodeRsp :: "(nat \<Rightarrow> string) \<Rightarrow> byte list \<Rightarrow> key \<Rightarrow> byte list \<Rightarrow> byte list \<Rightarrow> byte list" where
  "encode_findNodeRsp number t i nodes nodes6 = encoded (end_rsp number t
     (let e = begin_msg number ''r'' i;
          e = (if 0 < length nodes then write_data number ''nodes'' nodes e else e)
      in if 0 < length nodes6 then write_data number ''nodes6'' nodes6 e else e))"

definition encode_getPeersRsp :: "(nat \<Rightarrow> string) \<Rightarrow> byte list \<Rightarrow> key \<Rightarrow> byte list \<Rightarrow> byte list \<Rightarrow> byte list \<Rightarrow> address list \<Rightarrow> byte list" where
  "encode_getPeersRsp number t i tok nodes nodes6 items = encoded (end_rsp number t
     (let e = begin_msg number ''r'' i;
          e = (if 0 < length nodes then write_data number ''nodes'' nodes e else e);
          e = (if 0 < length nodes6 then write_data number ''nodes6'' nodes6 e else e);
          e = write_data number ''token'' tok e
      in if 0 < length items then end_enc (write_items number items (beginList (write_bytes number ''values'' e))) else e))"

definition encode_announceRsp :: "(nat \<Rightarrow> string) \<Rightarrow> byte list \<Rightarrow> key \<Rightarrow> byte list" where
  "encode_announceRsp number t i = encoded (end_rsp number t (begin_msg number ''r'' i))"

text \<open>The virtual function \<^verbatim>\<open>encode\<close>; an error message writes nothing.\<close>

fun rpc_encode :: "(nat \<Rightarrow> string) \<Rightarrow> rpc_msg \<Rightarrow> byte list" where
  "rpc_encode number (PingReq t i) = encode_pingReq number t i"
| "rpc_encode number (FindNodeReq t i target _) = encode_findNodeReq number t i target"
| "rpc_encode number (GetPeersReq t i info_hash _) = encode_getPeersReq number t i info_hash"
| "rpc_encode number (AnnounceReq t i info_hash _ prt tok) = encode_announceReq number t i info_hash prt tok"
| "rpc_encode number (PingRsp t i) = encode_pingRsp number t i"
| "rpc_encode number (FindNodeRsp t i nodes nodes6) = encode_findNodeRsp number t i nodes nodes6"
| "rpc_encode number (GetPeersRsp t i tok nodes nodes6 items) = encode_getPeersRsp number t i tok nodes nodes6 items"
| "rpc_encode number (AnnounceRsp t i) = encode_announceRsp number t i"
| "rpc_encode number (ErrMsg _ _) = []"

lemmas encode_defs = encode_pingReq_def encode_findNodeReq_def encode_getPeersReq_def encode_announceReq_def encode_pingRsp_def
  encode_findNodeRsp_def encode_getPeersRsp_def encode_announceRsp_def

section \<open>Parsing\<close>

text \<open>
  A constructor \<^verbatim>\<open>SHA1Hash(QByteArrayView)\<close> copies twenty bytes whatever the size of the view: reading behind a shorter one is
  \<open>Undefined\<close>, as is an index outside a list.
\<close>

datatype rpc_error = Access access_error | Undefined | Empty_transaction | Unknown_type | Missing_arguments | Missing_nodes
  | Unknown_method | Invalid_error_message

definition lift_access :: "access_error + 'a \<Rightarrow> rpc_error + 'a" where
  "lift_access r = (case r of Inl Index_out_of_range \<Rightarrow> Inl Undefined | Inl e \<Rightarrow> Inl (Access e) | Inr x \<Rightarrow> Inr x)"

definition get_bytes :: "bdict \<Rightarrow> string \<Rightarrow> rpc_error + byte list" where
  "get_bytes d k = rbind (lift_access (dict_getByteArray d k)) (\<lambda>s. Inr (bytes_of s))"

definition Key_of_view :: "byte list \<Rightarrow> rpc_error + key" where
  "Key_of_view ba = (if length ba < 20 then Inl Undefined else Inr (Key_of (take 20 ba)))"

definition get_key :: "bdict \<Rightarrow> string \<Rightarrow> rpc_error + key" where
  "get_key d k = rbind (get_bytes d k) Key_of_view"

text \<open>\<^verbatim>\<open>RPCMsg::parse\<close>: the transaction and the identifier, which stays zero when there are no arguments.\<close>

definition msg_parse :: "bdict \<Rightarrow> rpc_error + byte list \<times> key" where
  "msg_parse dict =
     rbind (get_bytes dict ''t'') (\<lambda>mtid.
     if mtid = [] then Inl Empty_transaction
     else rbind (get_bytes dict ''y'') (\<lambda>t.
       let args = (\<lambda>k. case getDict dict k of None \<Rightarrow> Inr (Key_of []) | Some args \<Rightarrow> get_key args ''id'') in
       if t = bytes_of ''q'' then rbind (args ''a'') (\<lambda>i. Inr (mtid, i))
       else if t = bytes_of ''r'' then rbind (args ''r'') (\<lambda>i. Inr (mtid, i))
       else if t = bytes_of ''e'' then Inr (mtid, Key_of [])
       else Inl Unknown_type))"

definition get_args :: "bdict \<Rightarrow> string \<Rightarrow> rpc_error + bdict" where
  "get_args dict k = (case getDict dict k of None \<Rightarrow> Inl Missing_arguments | Some args \<Rightarrow> Inr args)"

fun get_strings :: "bnode list \<Rightarrow> nat \<Rightarrow> nat \<Rightarrow> rpc_error + string list" where
  "get_strings ln i 0 = Inr []"
| "get_strings ln i (Suc n) = rbind (lift_access (list_getByteArray ln i)) (\<lambda>s. rbind (get_strings ln (Suc i) n) (\<lambda>ss. Inr (s # ss)))"

definition get_want :: "bdict \<Rightarrow> rpc_error + string list" where
  "get_want args = (case getList args ''want'' of None \<Rightarrow> Inr [] | Some ln \<Rightarrow> get_strings ln 0 (length ln))"

text \<open>\<^verbatim>\<open>GetPeersReq::parse\<close>, also called for announcements.\<close>

definition parse_getPeersReq :: "bdict \<Rightarrow> rpc_error + byte list \<times> key \<times> key \<times> string list" where
  "parse_getPeersReq dict =
     rbind (msg_parse dict) (\<lambda>(mtid, i). rbind (get_args dict ''a'') (\<lambda>args.
     rbind (get_key args ''info_hash'') (\<lambda>h. rbind (get_want args) (\<lambda>w. Inr (mtid, i, h, w)))))"

definition parse_findNodeReq :: "bdict \<Rightarrow> rpc_error + rpc_msg" where
  "parse_findNodeReq dict =
     rbind (msg_parse dict) (\<lambda>(mtid, i). rbind (get_args dict ''a'') (\<lambda>args. rbind (get_key args ''target'') (\<lambda>target.
     rbind (get_want args) (\<lambda>w. Inr (FindNodeReq mtid i target w)))))"

definition parse_announceReq :: "bdict \<Rightarrow> rpc_error + rpc_msg" where
  "parse_announceReq dict =
     rbind (parse_getPeersReq dict) (\<lambda>(mtid, i, h0, w). rbind (get_args dict ''a'') (\<lambda>args. rbind (get_key args ''info_hash'') (\<lambda>h.
     rbind (lift_access (dict_getInt args ''port'')) (\<lambda>p. rbind (get_bytes args ''token'') (\<lambda>tok.
     Inr (AnnounceReq mtid i h w (of_int p) (take MAX_TOKEN_SIZE tok)))))))"

definition buildRequest :: "bdict \<Rightarrow> rpc_error + rpc_msg option" where
  "buildRequest dict = rbind (get_args dict ''a'') (\<lambda>args. rbind (get_bytes dict ''q'') (\<lambda>str.
     if str = bytes_of ''ping'' then rbind (msg_parse dict) (\<lambda>(mtid, i). Inr (Some (PingReq mtid i)))
     else if str = bytes_of ''find_node'' then rbind (parse_findNodeReq dict) (\<lambda>m. Inr (Some m))
     else if str = bytes_of ''get_peers'' then rbind (parse_getPeersReq dict) (\<lambda>(mtid, i, h, w). Inr (Some (GetPeersReq mtid i h w)))
     else if str = bytes_of ''announce_peer'' then rbind (parse_announceReq dict) (\<lambda>m. Inr (Some m))
     else if str = bytes_of ''vote'' then Inr None
     else Inl Unknown_method))"

definition value_data :: "bdict \<Rightarrow> string \<Rightarrow> byte list" where
  "value_data args k = (case getValue args k of None \<Rightarrow> [] | Some v \<Rightarrow> bytes_of (toByteArrayView v))"

fun get_items :: "bnode list \<Rightarrow> nat \<Rightarrow> nat \<Rightarrow> rpc_error + address list" where
  "get_items vals i 0 = Inr []"
| "get_items vals i (Suc n) =
     rbind (lift_access (list_getByteArray vals i)) (\<lambda>s. let d = bytes_of s in
     rbind (get_items vals (Suc i) n) (\<lambda>as.
     if length d = 6 then Inr (fromCompactIPv4 d # as) else if length d = 18 then Inr (fromCompactIPv6 d # as) else Inr as))"

text \<open>The test for \<^verbatim>\<open>nodes6\<close> asks for a list, although the value is a string.\<close>

definition has_nodes :: "bdict \<Rightarrow> bool" where
  "has_nodes args \<longleftrightarrow> getValue args ''nodes'' \<noteq> None \<or> getList args ''nodes6'' \<noteq> None"

definition parse_findNodeRsp :: "bdict \<Rightarrow> rpc_error + rpc_msg" where
  "parse_findNodeRsp dict =
     rbind (msg_parse dict) (\<lambda>(mtid, i). rbind (get_args dict ''r'') (\<lambda>args.
     if \<not> has_nodes args then Inl Missing_nodes
     else Inr (FindNodeRsp mtid i (value_data args ''nodes'') (value_data args ''nodes6''))))"

definition parse_getPeersRsp :: "bdict \<Rightarrow> rpc_error + rpc_msg" where
  "parse_getPeersRsp dict =
     rbind (msg_parse dict) (\<lambda>(mtid, i). rbind (get_args dict ''r'') (\<lambda>args. rbind (get_bytes args ''token'') (\<lambda>tok.
     rbind (case getList args ''values'' of None \<Rightarrow> Inr [] | Some vals \<Rightarrow> get_items vals 0 (length vals)) (\<lambda>items.
     Inr (if has_nodes args then GetPeersRsp mtid i (take MAX_TOKEN_SIZE tok) (value_data args ''nodes'') (value_data args ''nodes6'') items
          else GetPeersRsp mtid i (take MAX_TOKEN_SIZE tok) [] [] items)))))"

definition buildResponse :: "(byte list \<Rightarrow> rpc_method) \<Rightarrow> bdict \<Rightarrow> rpc_error + rpc_msg" where
  "buildResponse findMethod dict = rbind (get_args dict ''r'') (\<lambda>args. rbind (get_bytes dict ''t'') (\<lambda>mtid0.
     if length mtid0 = 0 then Inl Empty_transaction
     else case findMethod mtid0 of
         PING \<Rightarrow> rbind (msg_parse dict) (\<lambda>(mtid, i). Inr (PingRsp mtid i))
       | FIND_NODE \<Rightarrow> parse_findNodeRsp dict
       | GET_PEERS \<Rightarrow> parse_getPeersRsp dict
       | ANNOUNCE_PEER \<Rightarrow> rbind (msg_parse dict) (\<lambda>(mtid, i). Inr (AnnounceRsp mtid i))
       | NONE \<Rightarrow> Inl Unknown_method))"

definition parse_error :: "bdict \<Rightarrow> rpc_error + rpc_msg" where
  "parse_error dict = rbind (msg_parse dict) (\<lambda>(mtid, i).
     case getList dict ''e'' of
       None \<Rightarrow> Inl Invalid_error_message
     | Some ln \<Rightarrow> rbind (lift_access (list_getByteArray ln 1)) (\<lambda>s. Inr (ErrMsg mtid s)))"

definition rpc_build :: "(byte list \<Rightarrow> rpc_method) \<Rightarrow> bdict \<Rightarrow> rpc_error + rpc_msg option" where
  "rpc_build findMethod dict = rbind (get_bytes dict ''y'') (\<lambda>t.
     if t = bytes_of ''q'' then buildRequest dict
     else if t = bytes_of ''r'' then rbind (buildResponse findMethod dict) (\<lambda>m. Inr (Some m))
     else if t = bytes_of ''e'' then rbind (parse_error dict) (\<lambda>m. Inr (Some m))
     else Inl Unknown_type)"

section \<open>What the encoder writes is what the factory reads\<close>

datatype rpc_type = REQ_MSG | RSP_MSG | ERR_MSG

fun getType :: "rpc_msg \<Rightarrow> rpc_type" where
  "getType (PingReq _ _) = REQ_MSG" | "getType (FindNodeReq _ _ _ _) = REQ_MSG" | "getType (GetPeersReq _ _ _ _) = REQ_MSG"
| "getType (AnnounceReq _ _ _ _ _ _) = REQ_MSG" | "getType (ErrMsg _ _) = ERR_MSG"
| "getType (PingRsp _ _) = RSP_MSG" | "getType (FindNodeRsp _ _ _ _) = RSP_MSG" | "getType (GetPeersRsp _ _ _ _ _ _) = RSP_MSG"
| "getType (AnnounceRsp _ _) = RSP_MSG"

fun getID :: "rpc_msg \<Rightarrow> key" where
  "getID (PingReq _ i) = i" | "getID (FindNodeReq _ i _ _) = i" | "getID (GetPeersReq _ i _ _) = i"
| "getID (AnnounceReq _ i _ _ _ _) = i" | "getID (PingRsp _ i) = i" | "getID (FindNodeRsp _ i _ _) = i"
| "getID (GetPeersRsp _ i _ _ _ _) = i" | "getID (AnnounceRsp _ i) = i" | "getID (ErrMsg _ _) = Key_of []"

text \<open>The data of a message, as a tree.\<close>

fun msg_args :: "rpc_msg \<Rightarrow> (string \<times> btree) list" where
  "msg_args (PingReq t i) = []"
| "msg_args (FindNodeReq t i k w) = [(''target'', TStr (string_of (key_bytes k)))]"
| "msg_args (GetPeersReq t i k w) = [(''info_hash'', TStr (string_of (key_bytes k)))]"
| "msg_args (AnnounceReq t i k w prt tok) = [(''info_hash'', TStr (string_of (key_bytes k))), (''port'', TInt (ucast prt)),
     (''token'', TStr (string_of tok))]"
| "msg_args (PingRsp t i) = []"
| "msg_args (FindNodeRsp t i n n6) = (if 0 < length n then [(''nodes'', TStr (string_of n))] else []) @
     (if 0 < length n6 then [(''nodes6'', TStr (string_of n6))] else [])"
| "msg_args (GetPeersRsp t i tok n n6 its) = (if 0 < length n then [(''nodes'', TStr (string_of n))] else []) @
     (if 0 < length n6 then [(''nodes6'', TStr (string_of n6))] else []) @ [(''token'', TStr (string_of tok))] @
     (if 0 < length its then [(''values'', TList (map (\<lambda>a. TStr (string_of (writeCompact a))) its))] else [])"
| "msg_args (AnnounceRsp t i) = []"
| "msg_args (ErrMsg t m) = []"

fun method_name :: "rpc_method \<Rightarrow> string" where
  "method_name PING = ''ping''" | "method_name FIND_NODE = ''find_node''" | "method_name GET_PEERS = ''get_peers''"
| "method_name ANNOUNCE_PEER = ''announce_peer''" | "method_name NONE = []"

definition msg_btree :: "rpc_msg \<Rightarrow> btree" where
  "msg_btree m = TDict ([(if getType m = REQ_MSG then ''a'' else ''r'',
       TDict ((''id'', TStr (string_of (key_bytes (getID m)))) # msg_args m))] @
     (if getType m = REQ_MSG then [(''q'', TStr (method_name (getMethod m)))] else []) @
     [(''t'', TStr (string_of (getMTID m))), (''y'', TStr (if getType m = REQ_MSG then ''q'' else ''r''))])"

lemma unat_ucast_u16 [simp]: "unat (ucast (w :: u16) :: u32) = unat w" "unat (ucast (w :: u16) :: u64) = unat w"
  by (simp_all add: unsigned_ucast_eq unsigned_take_bit_eq take_bit_nat_eq_self less_le_trans [OF unat_lt2p])

lemma write_items_benc:
  "write_items number its (Some out) = Some (out @ benc_list number (map (\<lambda>a. TStr (string_of (writeCompact a))) its))"
  by (induction its arbitrary: out) (simp_all add: encoder_defs)

lemma rpc_encode_tree:
  assumes "getType m \<noteq> ERR_MSG"
  shows "rpc_encode number m = bytes_of (benc number (msg_btree m))"
  using assms by (cases m) (simp_all add: encode_defs msg_btree_def encoded_def end_req_def end_rsp_def begin_msg_def write_data_def
      write_items_benc write_u32_def encoder_defs buffer_output_def Let_def unat_ucast_u64)

lemma bytes_of_string [simp]: "bytes_of (string_of bs) = bs"
proof -
  have "of_nat (of_char (char_of (unat b) :: char)) = b" for b :: byte
    using unat_lt2p [of b] by (simp add: word_unat_eq_iff unat_of_nat)
  then show ?thesis by (induction bs) (simp_all add: string_of_def bytes_of_def)
qed

text \<open>
  The messages that a reader gets back: a token is not longer than the reader keeps, no
  address families are asked for (they are not written), and the nodes of an answer are found by the
  tests of the reader.
\<close>

fun plain_msg :: "rpc_msg \<Rightarrow> bool" where
  "plain_msg (FindNodeReq t i k w) = (w = [])"
| "plain_msg (GetPeersReq t i k w) = (w = [])"
| "plain_msg (AnnounceReq t i k w prt tok) = (w = [] \<and> length tok \<le> MAX_TOKEN_SIZE)"
| "plain_msg (FindNodeRsp t i n n6) = (n \<noteq> [])"
| "plain_msg (GetPeersRsp t i tok n n6 its) = (length tok \<le> MAX_TOKEN_SIZE \<and> (n = [] \<longrightarrow> n6 = []))"
| "plain_msg (ErrMsg t m) = False"
| "plain_msg m = True"

lemma bytes_of_eq [simp]: "bytes_of s = bytes_of s' \<longleftrightarrow> s = s'"
  by (metis string_of_bytes)

lemma node_list_map: "node_of_list number (map f xs) = map (node_of number \<circ> f) xs"
  by (induction xs) simp_all

lemma get_items_all:
  "k + n = length its \<Longrightarrow> get_items (map (\<lambda>a. BValueNode (V_STRING (string_of (writeCompact a))) (g a)) its) k n = Inr (drop k its)"
proof (induction n arbitrary: k)
  case (Suc n)
  have it: "its ! k # drop (Suc k) its = drop k its" using Suc.prems by (simp add: Cons_nth_drop_Suc)
  show ?case
    using Suc ipVersion_cases [of "its ! k"] compact_roundtrip4 [of "its ! k" "[]"] compact_roundtrip6 [of "its ! k" "[]"]
    by (auto simp: list_getByteArray_def list_getValue_def getChild_def lift_access_def rbind_def value_bytes_def as_value_def it Let_def)
qed simp

lemma unat_u16_int: "unat (w :: u16) < 2147483648"
  using unat_u16 [of w] by linarith

lemma ints_fit_msg: "ints_fit (msg_btree m)"
proof -
  have "ints_fit_list (map (\<lambda>a. TStr (f a)) its)" for f :: "address \<Rightarrow> string" and its by (induction its) simp_all
  then show ?thesis using less_trans [OF unat_u16] by (cases m) (simp_all add: msg_btree_def)
qed

lemmas access_defs = getDict_def getList_def getValue_def as_dict_def as_list_def as_value_def get_bytes_def
  dict_getByteArray_def dict_getInt_def value_bytes_def value_int_def lift_access_def rbind_def get_args_def get_key_def Key_of_view_def value_data_def

lemma rpc_build_tree:
  assumes "plain_msg m" and "getMTID m \<noteq> []" and "getType m = RSP_MSG \<longrightarrow> findMethod (getMTID m) = getMethod m"
    and "msg_btree m = TDict es"
  shows "rpc_build findMethod (node_of_dict number es) = Inr (Some m)"
  using assms by (cases m) (auto simp: msg_btree_def rpc_build_def buildRequest_def buildResponse_def parse_findNodeReq_def parse_announceReq_def parse_findNodeRsp_def parse_getPeersRsp_def parse_getPeersReq_def get_want_def
      msg_parse_def access_defs has_nodes_def node_list_map get_items_all int_value_def comp_def
      unat_u16_int)

text \<open>
  The round trip of the messages: a request, or a response to a call that the receiver knows under
  this transaction, is rebuilt by the receiver's factory from the bytes that the sender's encoder writes.
\<close>

lemma rpc_message_roundtrip:
  assumes "qt_decimal number to_int to_long_long" and "plain_msg m" and "getMTID m \<noteq> []"
    and "getType m = RSP_MSG \<longrightarrow> findMethod (getMTID m) = getMethod m" and "length (rpc_encode number m) < 2 ^ 31"
  shows "\<exists>dict. decodeDict to_int to_long_long (string_of (rpc_encode number m)) 0 = Inr (Some dict, length (rpc_encode number m)) \<and>
    rpc_build findMethod dict = Inr (Some m)"
proof -
  obtain es where es: "msg_btree m = TDict es" by (simp add: msg_btree_def)
  have enc: "rpc_encode number m = bytes_of (benc number (msg_btree m))" using assms(2) by (intro rpc_encode_tree) (cases m, simp_all)
  have e: "encode_tree number (msg_btree m) buffer_output = Some (benc number (msg_btree m))"
    by (simp add: encode_tree_benc buffer_output_def)
  have len: "length (rpc_encode number m) = length (benc number (msg_btree m))" by (simp add: enc bytes_of_def)
  then have l: "length ([] @ benc number (msg_btree m) @ []) < 2 ^ 31" using assms(5) by simp
  have "decode to_int to_long_long (string_of (rpc_encode number m)) 0 =
      Inr (Some (node_of number (msg_btree m)), length (rpc_encode number m))"
    using qt_decimal.decode_encode_tree [OF assms(1) e ints_fit_msg l] len by (simp add: enc)
  then have "decodeDict to_int to_long_long (string_of (rpc_encode number m)) 0 =
      Inr (Some (node_of_dict number es), length (rpc_encode number m))"
    by (simp add: decodeDict_def es as_dict_def)
  with rpc_build_tree [of m findMethod es number] assms es show ?thesis by blast
qed

section \<open>Messages that the reader does not take\<close>

text \<open>
  An answer whose nodes are all IPv6 nodes is refused, or read without them: the reader asks for
  a list under \<^verbatim>\<open>nodes6\<close>, the encoder writes a string.
\<close>

lemma nodes6_only_refused:
  assumes "t \<noteq> []" and "findMethod t = FIND_NODE" and "msg_btree (FindNodeRsp t i [] n6) = TDict es"
  shows "rpc_build findMethod (node_of_dict number es) = Inl Missing_nodes"
  using assms by (auto simp: msg_btree_def rpc_build_def buildResponse_def parse_findNodeRsp_def parse_getPeersRsp_def msg_parse_def access_defs has_nodes_def split: if_splits)

lemma nodes6_only_dropped:
  assumes "t \<noteq> []" and "findMethod t = GET_PEERS" and "length tok \<le> MAX_TOKEN_SIZE"
    and "msg_btree (GetPeersRsp t i tok [] n6 its) = TDict es"
  shows "rpc_build findMethod (node_of_dict number es) = Inr (Some (GetPeersRsp t i tok [] [] its))"
  using assms by (auto simp: msg_btree_def rpc_build_def buildResponse_def parse_findNodeRsp_def parse_getPeersRsp_def msg_parse_def access_defs has_nodes_def
      node_list_map get_items_all comp_def split: if_splits)

text \<open>A list of less than two elements in an error message, and an identifier of less than twenty bytes.\<close>

lemma short_error_list: "rpc_build findMethod [(''t'', BValueNode (V_STRING ''a'') x), (''y'', BValueNode (V_STRING ''e'') y),
    (''e'', BListNode [] z)] = Inl Undefined"
  by (simp add: rpc_build_def parse_error_def msg_parse_def access_defs list_getByteArray_def list_getValue_def getChild_def bytes_of_def)

lemma short_identifier: "rpc_build findMethod [(''a'', BDictNode [(''id'', BValueNode (V_STRING ''short'') w)] v), (''q'', BValueNode (V_STRING ''ping'') u),
    (''t'', BValueNode (V_STRING ''a'') x), (''y'', BValueNode (V_STRING ''q'') y)] = Inl Undefined"
  by (simp add: rpc_build_def buildRequest_def msg_parse_def access_defs bytes_of_def)

end
