(* ===== verification/TableFile.thy ===== *)
theory TableFile
  imports DhtMessages
begin

text \<open>
  The file of the routing table: \<^verbatim>\<open>save\<close> and \<^verbatim>\<open>load\<close> of \<^verbatim>\<open>src/src/dht/kbucket.cpp\<close>, \<^verbatim>\<open>saveTable\<close> and \<^verbatim>\<open>loadTable\<close> of \<^verbatim>\<open>kbuckettable.cpp\<close>. The
  content of the file is the list of bytes the encoder writes. An error of type \<open>Undefined\<close> is a read behind the
  end of a key or of an address; the other errors end the loading, with the buckets read so far.
\<close>

section \<open>Saving\<close>

definition save_entry :: "(nat \<Rightarrow> string) \<Rightarrow> kb_entry \<Rightarrow> bencoder \<Rightarrow> bencoder" where
  "save_entry number e out = end_enc (write_bytes number (string_of (writeCompact (ke_addr e))) (write_bytes number ''address''
     (write_data number ''id'' (key_bytes (ke_id e)) (beginDict out))))"

definition kb_save :: "(nat \<Rightarrow> string) \<Rightarrow> kbucket \<Rightarrow> bencoder \<Rightarrow> bencoder" where
  "kb_save number b out = end_enc (end_enc (fold (save_entry number) (kb_entries b) (beginList (write_bytes number ''entries''
     (write_data number ''max'' (key_bytes (kb_max b)) (write_data number ''min'' (key_bytes (kb_min b)) (beginDict out)))))))"

definition saveTable :: "(nat \<Rightarrow> string) \<Rightarrow> kbucket_table \<Rightarrow> byte list" where
  "saveTable number t = encoded (end_enc (fold (kb_save number) (kt_buckets t) (beginList buffer_output)))"

section \<open>Loading\<close>

definition load_entry :: "u64 \<Rightarrow> bdict \<Rightarrow> rpc_error + kb_entry" where
  "load_entry now entry = rbind (get_key entry ''id'') (\<lambda>i. rbind (get_bytes entry ''address'') (\<lambda>addr.
     if length addr = 6 then Inr (KBucketEntry now (fromCompactIPv4 addr) i)
     else if length addr < 18 then Inl Undefined
     else Inr (KBucketEntry now (fromCompactIPv6 addr) i)))"

fun load_entries :: "u64 \<Rightarrow> bnode list \<Rightarrow> kbucket \<Rightarrow> rpc_error + kbucket" where
  "load_entries now [] b = Inr b"
| "load_entries now (x # xs) b = (case as_dict (Some x) of
     None \<Rightarrow> load_entries now xs b
   | Some entry \<Rightarrow> rbind (load_entry now entry) (\<lambda>e. load_entries now xs (b\<lparr>kb_entries := kb_entries b @ [e]\<rparr>)))"

definition kb_load :: "u64 \<Rightarrow> bdict \<Rightarrow> kbucket \<Rightarrow> rpc_error + kbucket" where
  "kb_load now dict b = rbind (get_key dict ''min'') (\<lambda>mn. rbind (get_key dict ''max'') (\<lambda>mx.
     let b1 = b\<lparr>kb_min := mn, kb_max := mx\<rparr> in
     case getList dict ''entries'' of
       None \<Rightarrow> Inr b1
     | Some entry_list \<Rightarrow> if length entry_list = 0 then Inr b1 else load_entries now entry_list b1))"

text \<open>\<^const>\<open>None\<close> is undefined behaviour.\<close>

fun load_buckets :: "u64 \<Rightarrow> bnode list \<Rightarrow> kbucket_table \<Rightarrow> kbucket_table option" where
  "load_buckets now [] t = Some t"
| "load_buckets now (x # xs) t = (case as_dict (Some x) of
     None \<Rightarrow> load_buckets now xs t
   | Some dict \<Rightarrow> (case kb_load now dict (KBucket_new now (kt_our_id t)) of
       Inl Undefined \<Rightarrow> None
     | Inl e \<Rightarrow> Some t
     | Inr b \<Rightarrow> load_buckets now xs (t\<lparr>kt_buckets := kt_buckets t @ [b]\<rparr>)))"

definition loadTable :: "(string \<Rightarrow> int option) \<Rightarrow> (string \<Rightarrow> int option) \<Rightarrow> u64 \<Rightarrow> byte list \<Rightarrow> kbucket_table \<Rightarrow> kbucket_table option" where
  "loadTable to_int to_long_long now dat t = (case decodeList to_int to_long_long (string_of dat) 0 of
     Inl e \<Rightarrow> Some t
   | Inr (None, _) \<Rightarrow> Some t
   | Inr (Some bucket_list, _) \<Rightarrow> load_buckets now bucket_list t)"

section \<open>The round trip\<close>

definition entry_tree :: "kb_entry \<Rightarrow> btree" where
  "entry_tree e = TDict [(''id'', TStr (string_of (key_bytes (ke_id e)))), (''address'', TStr (string_of (writeCompact (ke_addr e))))]"

definition bucket_tree :: "kbucket \<Rightarrow> btree" where
  "bucket_tree b = TDict [(''min'', TStr (string_of (key_bytes (kb_min b)))), (''max'', TStr (string_of (key_bytes (kb_max b)))),
     (''entries'', TList (map entry_tree (kb_entries b)))]"

lemma save_entries_tree: "fold (save_entry number) es (Some out) = Some (out @ benc_list number (map entry_tree es))"
  by (induction es arbitrary: out) (simp_all add: save_entry_def entry_tree_def write_data_def encoder_defs)

lemma save_buckets_tree: "fold (kb_save number) bs (Some out) = Some (out @ benc_list number (map bucket_tree bs))"
  by (induction bs arbitrary: out) (simp_all add: kb_save_def bucket_tree_def save_entries_tree write_data_def encoder_defs)

lemma saveTable_tree: "saveTable number t = bytes_of (benc number (TList (map bucket_tree (kt_buckets t))))"
  by (simp add: saveTable_def save_buckets_tree encoded_def buffer_output_def encoder_defs)

lemma fit_list: "(\<And>x. ints_fit (f x)) \<Longrightarrow> ints_fit_list (map f xs)"
  by (induction xs) simp_all

lemma fit_table: "ints_fit (TList (map bucket_tree bs))"
  by (simp add: fit_list bucket_tree_def entry_tree_def)

definition reloaded :: "u64 \<Rightarrow> kb_entry \<Rightarrow> kb_entry" where
  "reloaded now e = KBucketEntry now (ke_addr e) (ke_id e)"

lemma load_entries_tree:
  "load_entries now (node_of_list number (map entry_tree es)) b = Inr (b\<lparr>kb_entries := kb_entries b @ map (reloaded now) es\<rparr>)"
proof (induction es arbitrary: b)
  case (Cons e es)
  have "load_entry now [(''id'', BValueNode (V_STRING (string_of (key_bytes (ke_id e)))) x), (''address'', BValueNode (V_STRING (string_of (writeCompact (ke_addr e)))) y)] =
      Inr (reloaded now e)" for x y
    using ipVersion_cases [of "ke_addr e"] compact_roundtrip4 [of "ke_addr e" "[]"] compact_roundtrip6 [of "ke_addr e" "[]"]
    by (auto simp: load_entry_def access_defs reloaded_def)
  then show ?case using Cons by (simp add: entry_tree_def as_dict_def rbind_def)
qed simp

definition reload_bucket :: "u64 \<Rightarrow> key \<Rightarrow> kbucket \<Rightarrow> kbucket" where
  "reload_bucket now our_id b = (KBucket_range now (kb_min b) (kb_max b) our_id)\<lparr>kb_entries := map (reloaded now) (kb_entries b)\<rparr>"

lemma kb_load_tree:
  assumes "bucket_tree b = TDict es"
  shows "kb_load now (node_of_dict number es) (KBucket_new now our_id) = Inr (reload_bucket now our_id b)"
proof -
  have l: "length (node_of_list number ts) = length ts" for ts by (induction ts) simp_all
  show ?thesis using assms
    by (auto simp: bucket_tree_def kb_load_def access_defs Let_def load_entries_tree reload_bucket_def KBucket_new_def KBucket_range_def l)
qed

lemma load_buckets_tree:
  "load_buckets now (node_of_list number (map bucket_tree bs)) t = Some (t\<lparr>kt_buckets := kt_buckets t @ map (reload_bucket now (kt_our_id t)) bs\<rparr>)"
proof (induction bs arbitrary: t)
  case (Cons b bs)
  obtain es where es: "bucket_tree b = TDict es" by (simp add: bucket_tree_def)
  show ?case using Cons kb_load_tree [OF es] by (simp add: es as_dict_def)
qed simp

text \<open>C25. The routing table survives a restart: loading the bytes that \<^verbatim>\<open>saveTable\<close> wrote into a new table gives the same buckets in
  the same order, with the same ranges and with the same nodes, which count as having just responded; nothing else is kept.
\<close>

theorem saved_table_loaded:
  assumes "qt_decimal number to_int to_long_long" and "length (saveTable number t) < 2 ^ 31"
  shows "loadTable to_int to_long_long now (saveTable number t) (KBucketTable_new our_id) =
    Some \<lparr>kt_our_id = our_id, kt_buckets = map (\<lambda>b. (KBucket_range now (kb_min b) (kb_max b) our_id)
      \<lparr>kb_entries := map (\<lambda>e. KBucketEntry now (ke_addr e) (ke_id e)) (kb_entries b)\<rparr>) (kt_buckets t)\<rparr>"
proof -
  let ?tr = "TList (map bucket_tree (kt_buckets t))"
  have e: "encode_tree number ?tr buffer_output = Some (benc number ?tr)" by (simp add: encode_tree_benc buffer_output_def)
  have l: "length ([] @ benc number ?tr @ []) < 2 ^ 31" using assms(2) by (simp add: saveTable_tree bytes_of_def)
  have "decode to_int to_long_long (string_of (saveTable number t)) 0 = Inr (Some (node_of number ?tr), length (benc number ?tr))"
    using qt_decimal.decode_encode_tree [OF assms(1) e fit_table l] by (simp add: saveTable_tree)
  then have "loadTable to_int to_long_long now (saveTable number t) (KBucketTable_new our_id) =
      load_buckets now (node_of_list number (map bucket_tree (kt_buckets t))) (KBucketTable_new our_id)"
    by (simp add: loadTable_def decodeList_def as_list_def)
  then show ?thesis by (simp add: load_buckets_tree KBucketTable_new_def reload_bucket_def reloaded_def [abs_def])
qed

theorem saved_table_loaded_witness:
  "loadTable ref_to_int ref_to_long_long 7 (saveTable ref_number \<lparr>kt_our_id = Key_min, kt_buckets = [KBucket_range 5 Key_min Key_max Key_min]\<rparr>)
     (KBucketTable_new Key_min) = Some \<lparr>kt_our_id = Key_min, kt_buckets = [KBucket_range 7 Key_min Key_max Key_min]\<rparr>"
proof -
  let ?t = "\<lparr>kt_our_id = Key_min, kt_buckets = [KBucket_range 5 Key_min Key_max Key_min]\<rparr>"
  have "length (saveTable ref_number ?t) < 2 ^ 31"
    by (simp add: saveTable_tree bytes_of_def bucket_tree_def KBucket_range_def string_of_def ref_number.simps)
  from saved_table_loaded [OF ref_dec.qt_decimal_axioms this, of 7 Key_min] show ?thesis by (simp add: KBucket_range_def)
qed

end
