(* ===== verification/RpcServer.thy ===== *)
theory RpcServer
  imports DhtMessages "HOL-Library.Multiset"
begin

text \<open>
  The calls of the distributed hash table, \<^verbatim>\<open>src/src/dht/rpcserver.cpp\<close> and \<^verbatim>\<open>rpccall.cpp\<close>: every request that waits for
  a response has a transaction of one byte, so that there are at most 256 of them; the other requests
  are queued. A call is recorded with the destination of its request; \<open>rs_sent\<close> holds the messages handed to
  \<^verbatim>\<open>sendMsg\<close>, which writes their encoding to a socket, and \<open>rs_done\<close> the calls that were answered or timed out.
\<close>

section \<open>State and operations\<close>

record rpc_call =
  rc_msg :: rpc_msg
  rc_dest :: address
  rc_queued :: bool

record rpc_server =
  rs_calls :: "(byte list \<times> rpc_call) list"
  rs_queue :: "rpc_call list"
  rs_next_mtid :: byte
  rs_sent :: "(address \<times> rpc_msg) list"
  rs_done :: "rpc_call list"

definition RPCServer_new :: rpc_server where
  "RPCServer_new = \<lparr>rs_calls = [], rs_queue = [], rs_next_mtid = 0, rs_sent = [], rs_done = []\<rparr>"

definition sendMsg :: "rpc_msg \<Rightarrow> address \<Rightarrow> rpc_server \<Rightarrow> rpc_server" where
  "sendMsg m dest s = s\<lparr>rs_sent := rs_sent s @ [(dest, m)]\<rparr>"

definition rpc_wire :: "(nat \<Rightarrow> string) \<Rightarrow> rpc_server \<Rightarrow> (address \<times> byte list) list" where
  "rpc_wire number s = map (\<lambda>(a, m). (a, rpc_encode number m)) (rs_sent s)"

abbreviation call_used :: "(byte list \<times> rpc_call) list \<Rightarrow> byte \<Rightarrow> bool" where
  "call_used cs n \<equiv> map_of cs [n] \<noteq> None"

definition findMethod :: "rpc_server \<Rightarrow> byte list \<Rightarrow> rpc_method" where
  "findMethod s mtid = (case map_of (rs_calls s) mtid of Some c \<Rightarrow> getMethod (rc_msg c) | None \<Rightarrow> NONE)"

text \<open>
  The loop of \<^verbatim>\<open>doCall\<close>: the transaction, or that it is back at the start. It runs at most 256 times.
\<close>

primrec find_slot :: "nat \<Rightarrow> (byte list \<times> rpc_call) list \<Rightarrow> byte \<Rightarrow> byte \<Rightarrow> (bool \<times> byte) option" where
  "find_slot 0 cs start n = None"
| "find_slot (Suc f) cs start n =
     (if \<not> call_used cs n then Some (True, n)
      else if n + 1 = start then Some (False, n + 1)
      else find_slot f cs start (n + 1))"

definition doCall :: "rpc_msg \<Rightarrow> address \<Rightarrow> rpc_server \<Rightarrow> rpc_server option" where
  "doCall m dest s = map_option (\<lambda>(ok, n).
     let s1 = s\<lparr>rs_next_mtid := n\<rparr> in
     if ok then
       let m' = setMTID [n] m; s2 = sendMsg m' dest s1
       in s2\<lparr>rs_calls := AList.update [n] \<lparr>rc_msg = m', rc_dest = dest, rc_queued = False\<rparr> (rs_calls s2)\<rparr>
     else s1\<lparr>rs_queue := rs_queue s1 @ [\<lparr>rc_msg = m, rc_dest = dest, rc_queued = True\<rparr>]\<rparr>)
     (find_slot 256 (rs_calls s) (rs_next_mtid s) (rs_next_mtid s))"

text \<open>The inner loop of \<^verbatim>\<open>doQueuedCalls\<close>; \<^const>\<open>None\<close> when it has gone around once.\<close>

primrec skip_used :: "nat \<Rightarrow> (byte list \<times> rpc_call) list \<Rightarrow> byte \<Rightarrow> byte option" where
  "skip_used 0 cs n = None"
| "skip_used (Suc f) cs n = (if call_used cs n then skip_used f cs (n + 1) else Some n)"

fun queued_calls :: "rpc_call list \<Rightarrow> rpc_server \<Rightarrow> rpc_server option" where
  "queued_calls [] s = Some (s\<lparr>rs_queue := []\<rparr>)"
| "queued_calls (c # q) s =
     (if length (rs_calls s) < 256 then
        Option.bind (skip_used 256 (rs_calls s) (rs_next_mtid s)) (\<lambda>n.
        let m = setMTID [n] (rc_msg c);
            s1 = sendMsg m (rc_dest c) (s\<lparr>rs_next_mtid := n + 1\<rparr>)
        in queued_calls q (s1\<lparr>rs_calls := AList.update [n] (c\<lparr>rc_msg := m, rc_queued := False\<rparr>) (rs_calls s1)\<rparr>))
      else Some (s\<lparr>rs_queue := c # q\<rparr>))"

definition doQueuedCalls :: "rpc_server \<Rightarrow> rpc_server option" where
  "doQueuedCalls s = queued_calls (rs_queue s) s"

text \<open>Ending a call: after its response, or when its timer fires.\<close>

definition end_call :: "byte list \<Rightarrow> rpc_server \<Rightarrow> rpc_server option" where
  "end_call mtid s = (case map_of (rs_calls s) mtid of
     Some c \<Rightarrow> doQueuedCalls (s\<lparr>rs_calls := AList.delete mtid (rs_calls s), rs_done := rs_done s @ [c]\<rparr>)
   | None \<Rightarrow> Some s)"

definition timedOut :: "byte list \<Rightarrow> rpc_server \<Rightarrow> rpc_server option" where
  "timedOut mtid s = (case map_of (rs_calls s) mtid of
     Some c \<Rightarrow> end_call mtid s
   | None \<Rightarrow> doQueuedCalls s)"

definition getNumActiveRPCCalls :: "rpc_server \<Rightarrow> nat" where
  "getNumActiveRPCCalls s = length (rs_calls s)"

text \<open>What happens to a server.\<close>

datatype rpc_event = Call rpc_msg address | Reply rpc_msg address | Answer "byte list" | Timeout "byte list"

fun rpc_step :: "rpc_event \<Rightarrow> rpc_server \<Rightarrow> rpc_server option" where
  "rpc_step (Call m a) s = doCall m a s"
| "rpc_step (Reply m a) s = Some (sendMsg m a s)"
| "rpc_step (Answer t) s = end_call t s"
| "rpc_step (Timeout t) s = timedOut t s"

fun rpc_run :: "rpc_event list \<Rightarrow> rpc_server \<Rightarrow> rpc_server option" where
  "rpc_run [] s = Some s"
| "rpc_run (e # es) s = Option.bind (rpc_step e s) (rpc_run es)"

section \<open>The invariant\<close>

definition rpc_ok :: "rpc_server \<Rightarrow> bool" where
  "rpc_ok s \<longleftrightarrow> distinct (map fst (rs_calls s)) \<and>
     (\<forall>x \<in> set (rs_calls s). length (fst x) = 1 \<and> getMTID (rc_msg (snd x)) = fst x \<and> \<not> rc_queued (snd x)) \<and>
     (rs_queue s \<noteq> [] \<longrightarrow> length (rs_calls s) = 256) \<and> (\<forall>c \<in> set (rs_queue s). rc_queued c)"

text \<open>A request without its transaction, and the requests in the order in which they were sent.\<close>

abbreviation bare :: "rpc_msg \<Rightarrow> rpc_msg" where "bare \<equiv> setMTID []"

definition requests_sent :: "rpc_server \<Rightarrow> (address \<times> rpc_msg) list" where
  "requests_sent s = map (\<lambda>(a, m). (a, bare m)) (filter (\<lambda>(a, m). getType m = REQ_MSG) (rs_sent s))"

definition waiting :: "rpc_server \<Rightarrow> (address \<times> rpc_msg) list" where
  "waiting s = map (\<lambda>c. (rc_dest c, bare (rc_msg c))) (rs_queue s)"

definition call_of :: "rpc_call \<Rightarrow> address \<times> rpc_msg" where
  "call_of c = (rc_dest c, bare (rc_msg c))"

definition active :: "rpc_server \<Rightarrow> (address \<times> rpc_msg) list" where
  "active s = map (\<lambda>x. call_of (snd x)) (rs_calls s)"

fun calls_made :: "rpc_event list \<Rightarrow> (address \<times> rpc_msg) list" where
  "calls_made [] = []"
| "calls_made (Call m a # es) = (a, bare m) # calls_made es"
| "calls_made (e # es) = calls_made es"

text \<open>The tasks and buckets call requests; replies are responses.\<close>

definition rpc_event_ok :: "rpc_event \<Rightarrow> bool" where
  "rpc_event_ok e = (case e of Call m a \<Rightarrow> getType m = REQ_MSG | Reply m a \<Rightarrow> getType m \<noteq> REQ_MSG | _ \<Rightarrow> True)"

lemma setMTID_simps [simp]:
  "getMTID (setMTID t m) = t" "getType (setMTID t m) = getType m" "setMTID t (setMTID t' m) = setMTID t m"
  "getMethod (setMTID t m) = getMethod m"
  by (cases m; simp)+

section \<open>Free transactions\<close>

lemma card_bytes: "card (UNIV :: byte set) = 256"
  by (simp add: card_word)

lemma used_iff: "call_used cs n \<longleftrightarrow> [n] \<in> fst ` set cs"
  by (simp add: map_of_eq_None_iff)

lemma calls_bound:
  assumes "distinct (map fst cs)" and "\<And>x. x \<in> set cs \<Longrightarrow> length (fst x) = 1"
  shows "length cs \<le> 256" and "length cs = 256 \<longleftrightarrow> (\<forall>n. call_used cs n)"
proof -
  let ?K = "fst ` set cs"
  have sub: "?K \<subseteq> range (\<lambda>n :: byte. [n])"
    using assms(2) by (auto simp: length_Suc_conv image_iff)
  have r: "card (range (\<lambda>n :: byte. [n])) = 256" "finite (range (\<lambda>n :: byte. [n]))"
    by (simp_all add: card_image inj_on_def card_bytes)
  have c: "card ?K = length cs" using distinct_card [OF assms(1)] by simp
  show "length cs \<le> 256" using card_mono [OF r(2) sub] r(1) c by simp
  have "length cs = 256 \<longleftrightarrow> ?K = range (\<lambda>n :: byte. [n])" using card_subset_eq [OF r(2) sub] r(1) c by auto
  then show "length cs = 256 \<longleftrightarrow> (\<forall>n. call_used cs n)" using sub unfolding used_iff by blast
qed

lemma find_slot_spec:
  assumes "\<forall>j < k. call_used cs (start + of_nat j)" and "k + f = 256" and "0 < f"
  shows "(\<exists>n. find_slot f cs start (start + of_nat k) = Some (True, n) \<and> \<not> call_used cs n) \<or>
    find_slot f cs start (start + of_nat k) = Some (False, start) \<and> (\<forall>n. call_used cs n)"
  using assms
proof (induction f arbitrary: k)
  case (Suc f)
  let ?n = "start + of_nat k :: byte"
  show ?case
  proof (cases "call_used cs ?n")
    case True
    then have all: "\<forall>j < Suc k. call_used cs (start + of_nat j)" using Suc.prems(1) less_Suc_eq by auto
    have wrap: "?n + 1 = start \<longleftrightarrow> f = 0"
    proof -
      have "?n + 1 = start \<longleftrightarrow> (of_nat (Suc k) :: byte) = 0" by (simp add: algebra_simps)
      also have "\<dots> \<longleftrightarrow> 256 dvd Suc k" by (simp only: word_of_nat_eq_0_iff) simp
      also have "\<dots> \<longleftrightarrow> f = 0" using Suc.prems(2) by (auto dest: dvd_imp_le)
      finally show ?thesis .
    qed
    show ?thesis
    proof (cases "f = 0")
      case f: True
      have "call_used cs n" for n
      proof -
        have "unat (n - start) < 256" using unat_lt2p [of "n - start"] by simp
        then have "unat (n - start) < Suc k" using f Suc.prems(2) by simp
        with all have "call_used cs (start + of_nat (unat (n - start)))" by blast
        moreover have "start + of_nat (unat (n - start)) = n" by simp
        ultimately show ?thesis by metis
      qed
      then show ?thesis using f True wrap by simp
    next
      case False
      from Suc.IH [OF all] False Suc.prems have "(\<exists>n. find_slot f cs start (start + of_nat (Suc k)) = Some (True, n) \<and> \<not> call_used cs n) \<or>
        find_slot f cs start (start + of_nat (Suc k)) = Some (False, start) \<and> (\<forall>n. call_used cs n)" by simp
      moreover have "start + of_nat (Suc k) = ?n + 1" by (simp add: algebra_simps)
      ultimately have "(\<exists>n. find_slot f cs start (?n + 1) = Some (True, n) \<and> \<not> call_used cs n) \<or>
        find_slot f cs start (?n + 1) = Some (False, start) \<and> (\<forall>n. call_used cs n)" by (simp only:)
      moreover have "?n + 1 \<noteq> start" using wrap False by blast
      ultimately show ?thesis unfolding find_slot.simps using True by (simp only: if_False simp_thms)
    qed
  qed simp
qed simp

lemma skip_used_spec:
  assumes "\<not> call_used cs (start + of_nat j)" and "k \<le> j" and "j < k + f"
  shows "\<exists>n. skip_used f cs (start + of_nat k) = Some n \<and> \<not> call_used cs n"
  using assms
proof (induction f arbitrary: k)
  case (Suc f)
  show ?case
  proof (cases "call_used cs (start + of_nat k)")
    case True
    then have "k \<noteq> j" using Suc.prems(1) by auto
    then have "\<exists>n. skip_used f cs (start + of_nat (Suc k)) = Some n \<and> \<not> call_used cs n" using Suc.IH [of "Suc k"] Suc.prems by simp
    then show ?thesis using True by (simp add: algebra_simps)
  qed simp
qed simp

section \<open>Every operation keeps the invariant\<close>

lemma rpc_okD:
  assumes "rpc_ok s"
  shows "distinct (map fst (rs_calls s))" and "x \<in> set (rs_calls s) \<Longrightarrow> length (fst x) = 1"
    and "rs_queue s \<noteq> [] \<Longrightarrow> length (rs_calls s) = 256"
  using assms by (auto simp: rpc_ok_def)

lemma fresh_update: "\<not> call_used cs n \<Longrightarrow> AList.update [n] c cs = cs @ [([n], c)]"
  by (induction cs) (auto split: if_splits)

text \<open>The invariant without the clause on the queue, for a server whose queue is being worked off.\<close>

definition calls_ok :: "rpc_server \<Rightarrow> bool" where
  "calls_ok s \<longleftrightarrow> distinct (map fst (rs_calls s)) \<and>
     (\<forall>x \<in> set (rs_calls s). length (fst x) = 1 \<and> getMTID (rc_msg (snd x)) = fst x \<and> \<not> rc_queued (snd x))"

lemma rpc_ok_alt: "rpc_ok s \<longleftrightarrow> calls_ok s \<and> (rs_queue s \<noteq> [] \<longrightarrow> length (rs_calls s) = 256) \<and> (\<forall>c \<in> set (rs_queue s). rc_queued c)"
  by (auto simp: rpc_ok_def calls_ok_def)

lemma calls_ok_fresh:
  assumes "calls_ok s" and "\<not> call_used (rs_calls s) n" and "getMTID (rc_msg c) = [n]" and "\<not> rc_queued c"
    and "rs_calls s' = AList.update [n] c (rs_calls s)"
  shows "calls_ok s'" and "length (rs_calls s') = Suc (length (rs_calls s))"
    and "mset (active s') = add_mset (call_of c) (mset (active s))"
  using assms by (auto simp: calls_ok_def fresh_update map_of_eq_None_iff active_def)

text \<open>Sending requests from the queue: in order, and until it is empty or all transactions are taken.\<close>

lemma queued_calls_spec:
  assumes "calls_ok s" and "\<forall>c \<in> set q. rc_queued c \<and> getType (rc_msg c) = REQ_MSG"
  shows "\<exists>s'. queued_calls q s = Some s' \<and> rpc_ok s' \<and> rs_done s' = rs_done s \<and>
    requests_sent s' @ waiting s' = requests_sent s @ map call_of q \<and>
    mset (active s') + mset (waiting s') = mset (active s) + mset (map call_of q) \<and>
    set (rs_queue s') \<subseteq> set q"
  using assms
proof (induction q s rule: queued_calls.induct)
  case (1 s)
  then show ?case by (auto simp: rpc_ok_alt calls_ok_def waiting_def requests_sent_def active_def)
next
  case (2 c q s)
  note bound = calls_bound [of "rs_calls s"]
  show ?case
  proof (cases "length (rs_calls s) < 256")
    case True
    have "\<exists>m. \<not> call_used (rs_calls s) m" using bound "2.prems"(1) True by (auto simp: calls_ok_def)
    then obtain m where "\<not> call_used (rs_calls s) (rs_next_mtid s + of_nat (unat (m - rs_next_mtid s)))" by auto
    from skip_used_spec [OF this, of 0 256] unat_lt2p [of "m - rs_next_mtid s"]
    obtain n where n: "skip_used 256 (rs_calls s) (rs_next_mtid s) = Some n" "\<not> call_used (rs_calls s) n" by auto
    define c' where "c' = c\<lparr>rc_msg := setMTID [n] (rc_msg c), rc_queued := False\<rparr>"
    define s1 where "s1 = sendMsg (setMTID [n] (rc_msg c)) (rc_dest c) (s\<lparr>rs_next_mtid := n + 1\<rparr>)"
    define s2 where "s2 = s1\<lparr>rs_calls := AList.update [n] c' (rs_calls s1)\<rparr>"
    have upd: "rs_calls s2 = AList.update [n] c' (rs_calls s)" by (simp add: s2_def s1_def sendMsg_def)
    note f = calls_ok_fresh [OF "2.prems"(1) n(2) _ _ upd, unfolded c'_def, simplified]
    have sent: "requests_sent s2 = requests_sent s @ [call_of c]" "rs_done s2 = rs_done s"
      using "2.prems"(2) by (simp_all add: s2_def s1_def sendMsg_def requests_sent_def call_of_def)
    have co: "call_of c' = call_of c" by (simp add: call_of_def c'_def)
    from "2.IH" [OF True n(1) refl refl, folded s1_def c'_def, folded s2_def] f(1) "2.prems"(2)
    obtain s' where s': "queued_calls q s2 = Some s' \<and> rpc_ok s' \<and> rs_done s' = rs_done s2 \<and>
      requests_sent s' @ waiting s' = requests_sent s2 @ map call_of q \<and>
      mset (active s') + mset (waiting s') = mset (active s2) + mset (map call_of q) \<and>
      set (rs_queue s') \<subseteq> set q" by auto
    have "queued_calls (c # q) s = queued_calls q s2" using True n(1) by (simp add: Let_def s2_def s1_def c'_def)
    then show ?thesis using s' sent f(3) co by (auto simp: c'_def)
  next
    case False
    then have "length (rs_calls s) = 256" using bound "2.prems"(1) by (auto simp: calls_ok_def)
    then show ?thesis using "2.prems" False
      by (auto simp: rpc_ok_alt calls_ok_def waiting_def requests_sent_def call_of_def active_def)
  qed
qed

text \<open>What holds after every event: the calls are accounted for, and were sent in order.\<close>

definition accounted :: "(address \<times> rpc_msg) list \<Rightarrow> rpc_server \<Rightarrow> bool" where
  "accounted made s \<longleftrightarrow> rpc_ok s \<and> (\<forall>c \<in> set (rs_queue s). getType (rc_msg c) = REQ_MSG) \<and>
     requests_sent s @ waiting s = made \<and> mset (active s) + mset (waiting s) + mset (map call_of (rs_done s)) = mset made"

lemma doCall_accounted:
  assumes "accounted made s" and "getType m = REQ_MSG"
  shows "\<exists>s'. doCall m a s = Some s' \<and> accounted (made @ [(a, bare m)]) s'"
proof -
  have ok: "calls_ok s" using assms(1) by (simp add: accounted_def rpc_ok_alt)
  let ?n = "rs_next_mtid s"
  from find_slot_spec [of 0 "rs_calls s" ?n 256]
  consider (slot) n where "find_slot 256 (rs_calls s) ?n ?n = Some (True, n)" "\<not> call_used (rs_calls s) n"
    | (full) "find_slot 256 (rs_calls s) ?n ?n = Some (False, ?n)" "\<forall>n. call_used (rs_calls s) n" by auto
  then show ?thesis
  proof cases
    case slot
    define c where "c = \<lparr>rc_msg = setMTID [n] m, rc_dest = a, rc_queued = False\<rparr>"
    define s' where "s' = s\<lparr>rs_next_mtid := n, rs_sent := rs_sent s @ [(a, setMTID [n] m)], rs_calls := AList.update [n] c (rs_calls s)\<rparr>"
    have d: "doCall m a s = Some s'" using slot(1) by (simp add: doCall_def s'_def c_def sendMsg_def Let_def)
    note f = calls_ok_fresh [OF ok slot(2), of c s']
    have q: "rs_queue s = []"
    proof -
      have "rpc_ok s" using assms(1) by (simp add: accounted_def)
      then show ?thesis using slot(2) calls_bound(2) [of "rs_calls s"] rpc_okD [of s] by metis
    qed
    have "rpc_ok s'" using f(1) q by (simp add: rpc_ok_alt c_def s'_def)
    moreover have "mset (active s') = add_mset (a, bare m) (mset (active s))" using f(3) by (simp add: c_def s'_def call_of_def)
    moreover have "requests_sent s' = requests_sent s @ [(a, bare m)]" "waiting s' = []" "waiting s = []"
      using assms(2) q by (simp_all add: requests_sent_def s'_def waiting_def)
    ultimately show ?thesis using assms(1) d q by (auto simp: accounted_def s'_def)
  next
    case full
    define c where "c = \<lparr>rc_msg = m, rc_dest = a, rc_queued = True\<rparr>"
    define s' where "s' = s\<lparr>rs_queue := rs_queue s @ [c]\<rparr>"
    have d: "doCall m a s = Some s'" using full(1) by (simp add: doCall_def s'_def c_def Let_def)
    have "length (rs_calls s) = 256" using full(2) calls_bound(2) [of "rs_calls s"] ok by (auto simp: calls_ok_def)
    then have "rpc_ok s'" using assms(1) by (auto simp: accounted_def rpc_ok_def s'_def c_def)
    moreover have "active s' = active s" "waiting s' = waiting s @ [(a, bare m)]" "requests_sent s' = requests_sent s"
      by (simp_all add: s'_def active_def waiting_def requests_sent_def c_def)
    ultimately show ?thesis using assms d by (auto simp: accounted_def s'_def c_def)
  qed
qed

lemma doQueuedCalls_accounted:
  assumes "calls_ok s" and "\<forall>c \<in> set (rs_queue s). rc_queued c \<and> getType (rc_msg c) = REQ_MSG"
    and "requests_sent s @ waiting s = made" and "mset (active s) + mset (waiting s) + mset (map call_of (rs_done s)) = mset made"
  shows "\<exists>s'. doQueuedCalls s = Some s' \<and> accounted made s'"
proof -
  have w: "map call_of (rs_queue s) = waiting s" by (simp add: waiting_def call_of_def)
  from queued_calls_spec [OF assms(1,2)] obtain s' where s': "queued_calls (rs_queue s) s = Some s'" "rpc_ok s'" "rs_done s' = rs_done s"
    "requests_sent s' @ waiting s' = made" "mset (active s') + mset (waiting s') = mset (active s) + mset (waiting s)"
    "set (rs_queue s') \<subseteq> set (rs_queue s)" unfolding w assms(3) by blast
  then have "accounted made s'" using assms(2,4) by (auto simp: accounted_def)
  with s'(1) show ?thesis by (simp add: doQueuedCalls_def)
qed

lemma delete_call:
  assumes "distinct (map fst cs)" and "map_of cs t = Some c"
  shows "mset cs = add_mset (t, c) (mset (AList.delete t cs))"
  using assms
proof (induction cs)
  case (Cons x cs)
  then show ?case by (cases x) (auto dest: map_of_SomeD)
qed simp

lemma end_call_accounted:
  assumes "accounted made s" and "map_of (rs_calls s) t = Some c"
  shows "\<exists>s'. end_call t s = Some s' \<and> accounted made s'"
proof -
  let ?s = "s\<lparr>rs_calls := AList.delete t (rs_calls s), rs_done := rs_done s @ [c]\<rparr>"
  have ok: "calls_ok s" "\<forall>c \<in> set (rs_queue s). rc_queued c \<and> getType (rc_msg c) = REQ_MSG"
    using assms(1) by (auto simp: accounted_def rpc_ok_alt)
  have "set (AList.delete t (rs_calls s)) \<subseteq> set (rs_calls s)" by (auto simp: AList.delete_eq)
  then have "calls_ok ?s" using ok(1) distinct_delete [of "rs_calls s" t] unfolding calls_ok_def by auto
  moreover have "mset (active s) = add_mset (call_of c) (mset (active ?s))"
    using arg_cong [OF delete_call [OF _ assms(2)], of "image_mset (\<lambda>x. call_of (snd x))"] ok(1)
    by (simp add: active_def calls_ok_def)
  ultimately show ?thesis
    using doQueuedCalls_accounted [of ?s made] ok(2) assms
    by (simp add: end_call_def accounted_def requests_sent_def waiting_def ac_simps)
qed

lemma rpc_step_accounted:
  assumes "accounted made s" and "rpc_event_ok e"
  shows "\<exists>s'. rpc_step e s = Some s' \<and> accounted (made @ calls_made [e]) s'"
proof (cases e)
  case (Call m a)
  then show ?thesis using doCall_accounted [OF assms(1), of m a] assms(2) by (simp add: rpc_event_ok_def)
next
  case (Reply m a)
  then show ?thesis using assms
    by (auto simp: rpc_event_ok_def accounted_def sendMsg_def rpc_ok_def requests_sent_def waiting_def active_def)
next
  case (Answer t)
  then show ?thesis using end_call_accounted [OF assms(1), of t] assms(1) by (cases "map_of (rs_calls s) t") (auto simp: end_call_def)
next
  case (Timeout t)
  have "\<exists>s'. doQueuedCalls s = Some s' \<and> accounted made s'"
    using assms(1) by (intro doQueuedCalls_accounted) (auto simp: accounted_def rpc_ok_alt)
  then show ?thesis using Timeout end_call_accounted [OF assms(1), of t] by (cases "map_of (rs_calls s) t") (auto simp: timedOut_def)
qed

lemma calls_made_append: "calls_made (es @ fs) = calls_made es @ calls_made fs"
  by (induction es rule: calls_made.induct) simp_all

lemma rpc_run_accounted:
  assumes "accounted made s" and "\<forall>e \<in> set es. rpc_event_ok e"
  shows "\<exists>s'. rpc_run es s = Some s' \<and> accounted (made @ calls_made es) s'"
  using assms
proof (induction es arbitrary: made s)
  case (Cons e es)
  from rpc_step_accounted [OF Cons.prems(1)] Cons.prems(2) obtain s1 where s1: "rpc_step e s = Some s1" "accounted (made @ calls_made [e]) s1" by auto
  from Cons.IH [OF s1(2)] Cons.prems(2) show ?case using s1(1) calls_made_append [of "[e]" es] by auto
qed simp

lemma accounted_new: "accounted [] RPCServer_new"
  by (simp add: accounted_def RPCServer_new_def rpc_ok_def requests_sent_def waiting_def active_def)

text \<open>C17. Whatever calls, answers and timeouts happen in whatever order, the server ends every loop, the requests are sent in the
  order in which they were called (those in the queue come next), every call is active, queued or ended, never two of
  these, and the active calls have different transactions, at most 256, all taken when a call has to wait.
\<close>

theorem rpc_calls_in_order:
  assumes "\<forall>e \<in> set es. rpc_event_ok e"
  shows "\<exists>s. rpc_run es RPCServer_new = Some s \<and> requests_sent s @ waiting s = calls_made es \<and>
    mset (active s) + mset (waiting s) + mset (map call_of (rs_done s)) = mset (calls_made es) \<and>
    distinct (map (\<lambda>x. getMTID (rc_msg (snd x))) (rs_calls s)) \<and> length (rs_calls s) \<le> 256 \<and>
    (rs_queue s \<noteq> [] \<longrightarrow> length (rs_calls s) = 256)"
proof -
  from rpc_run_accounted [OF accounted_new assms] obtain s where s: "rpc_run es RPCServer_new = Some s" "accounted (calls_made es) s" by auto
  then have ok: "rpc_ok s" by (simp add: accounted_def)
  have "map (\<lambda>x. getMTID (rc_msg (snd x))) (rs_calls s) = map fst (rs_calls s)" using ok by (auto simp: rpc_ok_def)
  then have "distinct (map (\<lambda>x. getMTID (rc_msg (snd x))) (rs_calls s))" using rpc_okD(1) [OF ok] by (simp only:)
  then show ?thesis using s ok calls_bound(1) [OF rpc_okD(1,2) [OF ok]] rpc_okD(1,3) [OF ok] by (auto simp: accounted_def)
qed

theorem rpc_calls_in_order_witness:
  "\<exists>s. rpc_run [Call (PingReq [] Key_min) (IPv4 1 1), Reply (PingRsp [9] Key_min) (IPv4 2 1), Answer [0], Timeout [5]] RPCServer_new = Some s \<and>
    mset (active s) + mset (waiting s) + mset (map call_of (rs_done s)) = {#(IPv4 1 1, PingReq [] Key_min)#}"
  using rpc_calls_in_order [of "[Call (PingReq [] Key_min) (IPv4 1 1), Reply (PingRsp [9] Key_min) (IPv4 2 1), Answer [0], Timeout [5]]"]
  by (auto simp: rpc_event_ok_def)

end
