(* ===== verification/DhtDatabase.thy ===== *)
theory DhtDatabase
  imports DhtKey Address
begin

text \<open>
  The items of the distributed hash table, \<^verbatim>\<open>src/src/dht/database.cpp\<close>: for every key the addresses that were announced for it, and
  the tokens that allow to announce. \<open>hash\<close> is \<^verbatim>\<open>SHA1Hash::generate\<close>, and the clock is an argument, in milliseconds.
\<close>

section \<open>State and operations\<close>

definition MAX_ITEM_AGE :: u32 where "MAX_ITEM_AGE = 30 * 60 * 1000"

record db_item =
  it_addr :: address
  it_time :: u64

record database =
  db_items :: "key \<rightharpoonup> db_item list"
  db_tokens :: "byte list \<rightharpoonup> u64"

definition DBItem :: "u64 \<Rightarrow> address \<Rightarrow> db_item" where
  "DBItem now addr = \<lparr>it_addr = addr, it_time = now\<rparr>"

definition old :: "u64 \<Rightarrow> u64 \<Rightarrow> bool" where
  "old now ts \<longleftrightarrow> ucast MAX_ITEM_AGE \<le> now - ts"

definition expired :: "u64 \<Rightarrow> db_item \<Rightarrow> bool" where
  "expired now it = old now (it_time it)"

definition Database_new :: database where
  "Database_new = \<lparr>db_items = (\<lambda>_. None), db_tokens = (\<lambda>_. None)\<rparr>"

definition db_contains :: "key \<Rightarrow> database \<Rightarrow> bool" where
  "db_contains k db \<longleftrightarrow> db_items db k \<noteq> None"

definition db_insert :: "key \<Rightarrow> database \<Rightarrow> database" where
  "db_insert k db = (case db_items db k of None \<Rightarrow> db\<lparr>db_items := (db_items db)(k \<mapsto> [])\<rparr> | Some _ \<Rightarrow> db)"

definition store :: "key \<Rightarrow> db_item \<Rightarrow> database \<Rightarrow> database" where
  "store k dbi db = (let dbl = (case db_items db k of None \<Rightarrow> [] | Some l \<Rightarrow> l)
     in db\<lparr>db_items := (db_items db)(k \<mapsto> dbl @ [dbi])\<rparr>)"

fun sample_loop :: "nat \<Rightarrow> nat \<Rightarrow> db_item list \<Rightarrow> db_item list \<Rightarrow> db_item list" where
  "sample_loop max_entries ip_version [] tdbl = tdbl"
| "sample_loop max_entries ip_version (i # is) tdbl =
     (if length tdbl < max_entries then
        sample_loop max_entries ip_version is (if ip_version = ipVersion (it_addr i) then tdbl @ [i] else tdbl)
      else tdbl)"

definition sample :: "key \<Rightarrow> db_item list \<Rightarrow> nat \<Rightarrow> nat \<Rightarrow> database \<Rightarrow> db_item list" where
  "sample k tdbl max_entries ip_version db =
     (case db_items db k of None \<Rightarrow> tdbl | Some dbl \<Rightarrow> sample_loop max_entries ip_version dbl tdbl)"

definition expire :: "u64 \<Rightarrow> database \<Rightarrow> database" where
  "expire now db = db\<lparr>
     db_items := (\<lambda>k. case db_items db k of None \<Rightarrow> None
       | Some dbl \<Rightarrow> let dbl' = dropWhile (expired now) dbl in if length dbl' = 0 then None else Some dbl'),
     db_tokens := (\<lambda>t. case db_tokens db t of None \<Rightarrow> None | Some ts \<Rightarrow> if old now ts then None else Some ts)\<rparr>"

text \<open>The data that is hashed: the compact address and the time.\<close>

definition token_data :: "address \<Rightarrow> u64 \<Rightarrow> byte list" where
  "token_data addr ts = (if ipVersion addr = 4 then WriteUint64 6 ts (splice_at 0 (writeCompact addr) (replicate 14 0))
     else WriteUint64 18 ts (splice_at 0 (writeCompact addr) (replicate 26 0)))"

definition genToken :: "(byte list \<Rightarrow> byte list) \<Rightarrow> u64 \<Rightarrow> address \<Rightarrow> database \<Rightarrow> byte list \<times> database" where
  "genToken hash now addr db = (let token = hash (token_data addr now) in (token, db\<lparr>db_tokens := (db_tokens db)(token \<mapsto> now)\<rparr>))"

definition checkToken :: "(byte list \<Rightarrow> byte list) \<Rightarrow> byte list \<Rightarrow> address \<Rightarrow> database \<Rightarrow> bool \<times> database" where
  "checkToken hash token addr db = (case db_tokens db token of
     None \<Rightarrow> (False, db)
   | Some ts \<Rightarrow>
       if token \<noteq> hash (token_data addr ts) then (False, db)
       else (True, db\<lparr>db_tokens := (db_tokens db)(token := None)\<rparr>))"

section \<open>Samples\<close>

lemma sample_loop_take:
  "sample_loop n v its tdbl = tdbl @ take (n - length tdbl) (filter (\<lambda>i. ipVersion (it_addr i) = v) its)"
proof (induction n v its tdbl rule: sample_loop.induct)
  case (2 n v i its tdbl)
  have "n - length tdbl = Suc (n - Suc (length tdbl))" if "length tdbl < n" using that by simp
  then show ?case using 2 by auto
qed simp

lemma sample_prefix:
  "sample k [] n v db = take n (filter (\<lambda>i. ipVersion (it_addr i) = v) (case db_items db k of None \<Rightarrow> [] | Some l \<Rightarrow> l))"
  by (simp add: sample_def sample_loop_take split: option.splits)

section \<open>Tokens\<close>

lemma splice_two: "splice_at (length xs) ys (splice_at 0 xs (replicate (length xs + length ys) 0)) = xs @ ys"
  by (simp add: splice_at_def)

lemma token_data_bytes: "token_data addr ts = writeCompact addr @ nat_to_be 8 (unat ts)"
  using splice_two [of "writeCompact addr" "nat_to_be 8 (unat ts)"] ipVersion_cases [of addr]
  by (auto simp: token_data_def WriteUint64_def)

lemma token_data_inj: "token_data a s = token_data b t \<longleftrightarrow> a = b \<and> s = t"
proof
  assume eq: "token_data a s = token_data b t"
  then have "length (token_data a s) = length (token_data b t)" by (rule arg_cong)
  then have v: "ipVersion a = ipVersion b"
    using ipVersion_cases [of a] ipVersion_cases [of b] by (auto simp: token_data_bytes)
  then have ab: "writeCompact a = writeCompact b" "nat_to_be 8 (unat s) = nat_to_be 8 (unat t)"
    using eq v unfolding token_data_bytes by (simp_all only: append_eq_append_conv length_writeCompact simp_thms)
  have "a = b"
    using ipVersion_cases [of a] compact_roundtrip4 [of a "[]"] compact_roundtrip4 [of b "[]"]
      compact_roundtrip6 [of a "[]"] compact_roundtrip6 [of b "[]"] v ab(1) by auto
  moreover have "s = t" using be64_inverse [of s] be64_inverse [of t] ab(2) by metis
  ultimately show "a = b \<and> s = t" ..
qed simp

section \<open>Expiry\<close>

text \<open>
  An operation on the items at a time; the clock does not go back, and an item is stored at the time at which it was made.
\<close>

datatype db_event = Stored u64 key address | Inserted u64 key | Expired u64

fun db_time :: "db_event \<Rightarrow> u64" where
  "db_time (Stored now _ _) = now" | "db_time (Inserted now _) = now" | "db_time (Expired now) = now"

fun db_step :: "db_event \<Rightarrow> database \<Rightarrow> database" where
  "db_step (Stored now k a) db = store k (DBItem now a) db"
| "db_step (Inserted now k) db = db_insert k db"
| "db_step (Expired now) db = expire now db"

definition items_by :: "u64 \<Rightarrow> database \<Rightarrow> bool" where
  "items_by now db \<longleftrightarrow> (\<forall>k l. db_items db k = Some l \<longrightarrow> sorted (map it_time l) \<and> (\<forall>i \<in> set l. it_time i \<le> now))"

lemma items_by_mono: "items_by now db \<Longrightarrow> now \<le> now' \<Longrightarrow> items_by now' db"
  by (fastforce simp: items_by_def)

lemma sorted_dropWhile: "sorted (map f xs) \<Longrightarrow> sorted (map f (dropWhile P xs))"
  by (induction xs) auto

lemma items_by_step:
  assumes "items_by now db" and "now \<le> db_time e"
  shows "items_by (db_time e) (db_step e db)"
proof -
  note m = items_by_mono [OF assms]
  show ?thesis
  proof (cases e)
    case (Stored t k a)
    then show ?thesis using m by (auto simp: items_by_def store_def DBItem_def sorted_append Let_def split: option.splits if_splits)
  next
    case (Inserted t k)
    then show ?thesis using m by (auto simp: items_by_def db_insert_def split: option.splits if_splits)
  next
    case (Expired t)
    then show ?thesis using m
      by (auto simp: items_by_def expire_def Let_def split: option.splits if_splits dest: set_dropWhileD intro: sorted_dropWhile)
  qed
qed

lemma items_by_run:
  "sorted (now # map db_time es) \<Longrightarrow> items_by now db \<Longrightarrow> items_by (last (now # map db_time es)) (fold db_step es db)"
proof (induction es arbitrary: now db)
  case (Cons e es)
  then show ?case using Cons.IH [of "db_time e" "db_step e db"] items_by_step [of now db e] by simp
qed simp

lemma old_nat: "ts \<le> now \<Longrightarrow> old now ts \<longleftrightarrow> 1800000 \<le> unat now - unat ts"
proof -
  assume "ts \<le> now"
  then have "unat (now - ts) = unat now - unat ts" by (rule unat_sub)
  moreover have "unat (ucast MAX_ITEM_AGE :: u64) = 1800000" unfolding unat_ucast_u64 by (simp add: MAX_ITEM_AGE_def)
  ultimately show ?thesis by (simp only: old_def word_le_nat_alt)
qed

lemma dropWhile_sorted_filter:
  assumes "sorted (map f xs)" and "\<And>x y. x \<in> set xs \<Longrightarrow> y \<in> set xs \<Longrightarrow> f x \<le> f y \<Longrightarrow> P y \<Longrightarrow> P x"
  shows "dropWhile P xs = filter (\<lambda>x. \<not> P x) xs"
  using assms
proof (induction xs)
  case (Cons x xs)
  have "dropWhile P xs = filter (\<lambda>x. \<not> P x) xs"
  proof (rule Cons.IH)
    show "sorted (map f xs)" using Cons.prems(1) by simp
  qed (rule Cons.prems(2), simp_all)
  moreover have "\<not> P y" if "\<not> P x" "y \<in> set xs" for y
    using Cons.prems(1) Cons.prems(2) [of x y] that by (metis list.set_intros image_eqI list.set_map list.simps(9) sorted_simps(2))
  then have "filter (\<lambda>x. \<not> P x) xs = xs" if "\<not> P x" using that by (simp add: filter_id_conv)
  ultimately show ?case by auto
qed simp

text \<open>Items live for half an hour: after any sequence of stores, insertions and expiries at non-decreasing times, an expiry keeps of
  every list exactly the items younger than thirty minutes, and a key without such an item is removed.
\<close>

theorem items_expire:
  assumes "sorted (map db_time (es @ [Expired now]))" and "db = fold db_step es Database_new"
  shows "db_items (expire now db) k =
    (let young = filter (\<lambda>i. unat now - unat (it_time i) < 30 * 60 * 1000) (case db_items db k of None \<Rightarrow> [] | Some l \<Rightarrow> l)
     in if young = [] then None else Some young)"
proof (cases "db_items db k")
  case (Some l)
  have "items_by 0 Database_new" by (simp add: items_by_def Database_new_def)
  moreover have "sorted (0 # map db_time es)" using assms(1) by (simp add: sorted_append)
  ultimately have "items_by (last (0 # map db_time es)) db" unfolding assms(2) by (intro items_by_run)
  moreover have "last (0 # map db_time es) \<le> now" using assms(1) by (cases es rule: rev_cases) (auto simp: sorted_append)
  ultimately have "items_by now db" by (rule items_by_mono)
  then have l: "sorted (map it_time l)" "\<forall>i \<in> set l. it_time i \<le> now" using Some by (auto simp: items_by_def)
  have e: "expired now i \<longleftrightarrow> \<not> unat now - unat (it_time i) < 1800000" if "i \<in> set l" for i
    using l(2) that by (simp add: expired_def old_nat not_less)
  have "dropWhile (expired now) l = filter (\<lambda>i. \<not> expired now i) l"
  proof (rule dropWhile_sorted_filter [OF l(1)])
    fix x y assume "x \<in> set l" "y \<in> set l" "it_time x \<le> it_time y" "expired now y"
    then show "expired now x" using e [of x] e [of y] by (simp add: word_le_nat_alt)
  qed
  also have "\<dots> = filter (\<lambda>i. unat now - unat (it_time i) < 1800000) l" using e by (intro filter_cong) auto
  finally show ?thesis using Some by (simp add: expire_def Let_def)
qed (simp add: expire_def)

theorem items_expire_witness:
  "db_items (expire 1800100 (fold db_step [Stored 100 Key_min (IPv4 1 1), Stored 200 Key_min (IPv4 2 2)] Database_new)) Key_min =
   Some [DBItem 200 (IPv4 2 2)]"
  using items_expire [of "[Stored 100 Key_min (IPv4 1 1), Stored 200 Key_min (IPv4 2 2)]" 1800100 _ Key_min, OF _ refl]
  by (simp add: store_def DBItem_def Database_new_def Let_def)

end
