(* ===== verification/DhtTask.thy ===== *)
theory DhtTask
  imports DhtMessages DhtDatabase "HOL-Library.Multiset"
begin

text \<open>
  The tasks of the distributed hash table, \<^verbatim>\<open>src/src/dht/\<close>: \<^verbatim>\<open>task.cpp\<close>, the lookup of a node (\<^verbatim>\<open>nodelookup.cpp\<close>), the announcement of
  a torrent (\<^verbatim>\<open>announcetask.cpp\<close>) and their queue (\<^verbatim>\<open>taskmanager.cpp\<close>). A \<^verbatim>\<open>std::set\<close> of nodes is a list in ascending order of the
  identifiers, which are what its order compares. \<open>tk_calls\<close> holds the requests handed to
  \<^verbatim>\<open>RPCServer::doCall\<close>, and \<open>tk_done\<close> counts the signals \<^verbatim>\<open>finished\<close>.
\<close>

section \<open>Tasks\<close>

definition MAX_CONCURRENT_REQS :: nat where "MAX_CONCURRENT_REQS = 16"

type_synonym node_set = "(key \<times> kb_entry) list"

definition set_insert :: "kb_entry \<Rightarrow> node_set \<Rightarrow> node_set" where
  "set_insert e s = emap_insert (ke_id e) e s"

definition set_contains :: "kb_entry \<Rightarrow> node_set \<Rightarrow> bool" where
  "set_contains e s \<longleftrightarrow> ke_id e \<in> fst ` set s"

record task =
  tk_visited :: node_set
  tk_todo :: node_set
  tk_outstanding :: nat
  tk_finished :: bool
  tk_queued :: bool
  tk_calls :: "(rpc_msg \<times> address) list"
  tk_done :: nat

definition canDoRequest :: "'a task_scheme \<Rightarrow> bool" where
  "canDoRequest t \<longleftrightarrow> tk_outstanding t < MAX_CONCURRENT_REQS"

definition rpcCall :: "rpc_msg \<Rightarrow> address \<Rightarrow> 'a task_scheme \<Rightarrow> 'a task_scheme" where
  "rpcCall req dest t = (if \<not> canDoRequest t then t
     else t\<lparr>tk_calls := tk_calls t @ [(req, dest)], tk_outstanding := tk_outstanding t + 1\<rparr>)"

definition task_end :: "'a task_scheme \<Rightarrow> 'a task_scheme" where
  "task_end t = t\<lparr>tk_finished := True, tk_done := tk_done t + 1\<rparr>"

definition task_kill :: "'a task_scheme \<Rightarrow> 'a task_scheme" where
  "task_kill t = t\<lparr>tk_finished := True, tk_done := tk_done t + 1\<rparr>"

text \<open>A node of which only the address is known has the identifier zero.\<close>

definition addDHTNode :: "u64 \<Rightarrow> address \<Rightarrow> 'a task_scheme \<Rightarrow> 'a task_scheme" where
  "addDHTNode now addr t = t\<lparr>tk_todo := set_insert (KBucketEntry now addr (Key_of [])) (tk_todo t)\<rparr>"

text \<open>\<open>upd\<close> is the virtual \<^verbatim>\<open>update\<close> and \<open>finish\<close> the virtual \<^verbatim>\<open>callFinished\<close> or \<^verbatim>\<open>callTimeout\<close>.\<close>

definition task_start :: "('a task_scheme \<Rightarrow> 'a task_scheme) \<Rightarrow> kb_entry list \<Rightarrow> bool \<Rightarrow> 'a task_scheme \<Rightarrow> 'a task_scheme" where
  "task_start upd kns queued t =
     (let t1 = t\<lparr>tk_todo := fold set_insert kns (tk_todo t), tk_queued := queued\<rparr> in if \<not> queued then upd t1 else t1)"

definition task_start_queued :: "('a task_scheme \<Rightarrow> 'a task_scheme) \<Rightarrow> 'a task_scheme \<Rightarrow> 'a task_scheme" where
  "task_start_queued upd t = (if tk_queued t then upd (t\<lparr>tk_queued := False\<rparr>) else t)"

definition task_answered :: "('a task_scheme \<Rightarrow> 'a task_scheme) \<Rightarrow> ('a task_scheme \<Rightarrow> 'a task_scheme) \<Rightarrow> 'a task_scheme \<Rightarrow> 'a task_scheme" where
  "task_answered upd finish t =
     (let t1 = (if 0 < tk_outstanding t then t\<lparr>tk_outstanding := tk_outstanding t - 1\<rparr> else t) in
      if \<not> tk_finished t1 then
        let t2 = finish t1 in if canDoRequest t2 \<and> \<not> tk_finished t2 then upd t2 else t2
      else t1)"

text \<open>Sending one request to every node of \<open>todo\<close> that was not visited, while there are not too many.\<close>

fun visit_loop :: "(kb_entry \<Rightarrow> rpc_msg) \<Rightarrow> node_set \<Rightarrow> 'a task_scheme \<Rightarrow> 'a task_scheme" where
  "visit_loop req [] t = t\<lparr>tk_todo := []\<rparr>"
| "visit_loop req ((k, e) # todo) t =
     (if canDoRequest t then
        visit_loop req todo (if \<not> set_contains e (tk_visited t)
          then (rpcCall (req e) (ke_addr e) t)\<lparr>tk_visited := set_insert e (tk_visited t)\<rparr> else t)
      else t\<lparr>tk_todo := (k, e) # todo\<rparr>)"

section \<open>Looking up a node\<close>

record node_lookup = task +
  nl_our_id :: key
  nl_node_id :: key
  nl_num_nodes_rsp :: nat

definition NodeLookup :: "key \<Rightarrow> key \<Rightarrow> node_lookup" where
  "NodeLookup our_id k = \<lparr>tk_visited = [], tk_todo = [], tk_outstanding = 0, tk_finished = False, tk_queued = True, tk_calls = [], tk_done = 0,
     nl_our_id = our_id, nl_node_id = k, nl_num_nodes_rsp = 0\<rparr>"

definition nl_add :: "kb_entry \<Rightarrow> node_lookup \<Rightarrow> node_lookup" where
  "nl_add e t = (if ke_id e \<noteq> nl_our_id t \<and> \<not> set_contains e (tk_todo t) \<and> \<not> set_contains e (tk_visited t)
     then t\<lparr>tk_todo := set_insert e (tk_todo t)\<rparr> else t)"

definition nl_handleNodes :: "u64 \<Rightarrow> byte list \<Rightarrow> nat \<Rightarrow> node_lookup \<Rightarrow> node_lookup" where
  "nl_handleNodes now nodes ip_version t = fold nl_add (received_nodes now ip_version nodes) t"

definition nl_callFinished :: "u64 \<Rightarrow> rpc_msg \<Rightarrow> node_lookup \<Rightarrow> node_lookup" where
  "nl_callFinished now rsp t = (if tk_finished t then t
     else case rsp of
         FindNodeRsp _ _ nodes nodes6 \<Rightarrow>
           let t1 = (if 0 < length nodes then nl_handleNodes now nodes 4 t else t);
               t2 = (if 0 < length nodes6 then nl_handleNodes now nodes6 6 t1 else t1)
           in t2\<lparr>nl_num_nodes_rsp := nl_num_nodes_rsp t2 + 1\<rparr>
       | _ \<Rightarrow> t)"

definition nl_update :: "node_lookup \<Rightarrow> node_lookup" where
  "nl_update t =
     (let t1 = visit_loop (\<lambda>e. FindNodeReq [] (nl_our_id t) (nl_node_id t) []) (tk_todo t) t in
      if tk_todo t1 = [] \<and> tk_outstanding t1 = 0 \<and> \<not> tk_finished t1 then task_end t1
      else if 200 < length (tk_visited t1) then task_end t1
      else t1)"

section \<open>Announcing a torrent\<close>

record announce_task = task +
  at_our_id :: key
  at_info_hash :: key
  at_port :: u16
  at_answered :: "(key \<times> kb_entry \<times> byte list) list"
  at_answered_visited :: node_set
  at_db :: database
  at_returned :: "db_item list"
  at_data_ready :: nat

definition AnnounceTask :: "database \<Rightarrow> key \<Rightarrow> key \<Rightarrow> u16 \<Rightarrow> announce_task" where
  "AnnounceTask db our_id info_hash prt = \<lparr>tk_visited = [], tk_todo = [], tk_outstanding = 0, tk_finished = False, tk_queued = True, tk_calls = [],
     tk_done = 0, at_our_id = our_id, at_info_hash = info_hash, at_port = prt, at_answered = [], at_answered_visited = [], at_db = db,
     at_returned = [], at_data_ready = 0\<rparr>"

definition at_add :: "kb_entry \<Rightarrow> announce_task \<Rightarrow> announce_task" where
  "at_add e t = (if \<not> set_contains e (tk_visited t) \<and> length (tk_todo t) < 100 then t\<lparr>tk_todo := set_insert e (tk_todo t)\<rparr> else t)"

definition at_handleNodes :: "u64 \<Rightarrow> byte list \<Rightarrow> nat \<Rightarrow> announce_task \<Rightarrow> announce_task" where
  "at_handleNodes now nodes ip_version t = fold at_add (received_nodes now ip_version nodes) t"

fun answered_insert :: "kb_entry \<Rightarrow> byte list \<Rightarrow> (key \<times> kb_entry \<times> byte list) list \<Rightarrow> (key \<times> kb_entry \<times> byte list) list" where
  "answered_insert e tok [] = [(ke_id e, e, tok)]"
| "answered_insert e tok ((k, x) # s) =
     (if ke_id e < k then (ke_id e, e, tok) # (k, x) # s else if ke_id e = k then (k, x) # s else (k, x) # answered_insert e tok s)"

text \<open>The items of a response were made when it was parsed, at \<open>now\<close>.\<close>

definition at_callFinished :: "u64 \<Rightarrow> rpc_method \<Rightarrow> rpc_msg \<Rightarrow> address \<Rightarrow> announce_task \<Rightarrow> announce_task" where
  "at_callFinished now meth rsp origin t = (if meth \<noteq> GET_PEERS then t
     else case rsp of
         GetPeersRsp _ i tok nodes nodes6 items \<Rightarrow>
           let t1 = (if 0 < length nodes \<or> 0 < length nodes6 then
                       let t0 = (if 0 < length nodes then at_handleNodes now nodes 4 t else t)
                       in if 0 < length nodes6 then at_handleNodes now nodes6 6 t0 else t0
                     else t);
               its = map (DBItem now) items;
               t2 = t1\<lparr>at_db := fold (store (at_info_hash t1)) its (at_db t1), at_returned := at_returned t1 @ its\<rparr>;
               t3 = (if 0 < length items then t2\<lparr>at_data_ready := at_data_ready t2 + 1\<rparr> else t2);
               e = KBucketEntry now origin i
           in if \<not> set_contains e (at_answered_visited t3) then t3\<lparr>at_answered := answered_insert e tok (at_answered t3)\<rparr> else t3
       | _ \<Rightarrow> t)"

fun announce_loop :: "(key \<times> kb_entry \<times> byte list) list \<Rightarrow> announce_task \<Rightarrow> announce_task" where
  "announce_loop [] t = t\<lparr>at_answered := []\<rparr>"
| "announce_loop ((k, e, tok) # answered) t =
     (if canDoRequest t then
        announce_loop answered (if \<not> set_contains e (at_answered_visited t)
          then (rpcCall (AnnounceReq [] (at_our_id t) (at_info_hash t) [] (at_port t) tok) (ke_addr e) t)
            \<lparr>at_answered_visited := set_insert e (at_answered_visited t)\<rparr> else t)
      else t\<lparr>at_answered := (k, e, tok) # answered\<rparr>)"

definition at_update :: "announce_task \<Rightarrow> announce_task" where
  "at_update t =
     (let t1 = announce_loop (at_answered t) t;
          t2 = visit_loop (\<lambda>e. GetPeersReq [] (at_our_id t1) (at_info_hash t1) []) (tk_todo t1) t1
      in if tk_todo t2 = [] \<and> at_answered t2 = [] \<and> tk_outstanding t2 = 0 \<and> \<not> tk_finished t2 then task_end t2
         else if 50 < length (at_answered_visited t2) \<or> 200 < length (tk_visited t2) then task_end t2
         else t2)"

definition takeItem :: "announce_task \<Rightarrow> db_item option \<times> announce_task" where
  "takeItem t = (case at_returned t of [] \<Rightarrow> (None, t) | i # is \<Rightarrow> (Some i, t\<lparr>at_returned := is\<rparr>))"

section \<open>The contract of a task\<close>

text \<open>A task sees the end of one of its calls, or is given another node.\<close>

definition task_step :: "('a task_scheme \<Rightarrow> 'a task_scheme) \<Rightarrow> ('e \<Rightarrow> 'a task_scheme \<Rightarrow> 'a task_scheme) \<Rightarrow> 'e + u64 \<times> address \<Rightarrow>
    'a task_scheme \<Rightarrow> 'a task_scheme" where
  "task_step upd finish ev t = (case ev of Inl e \<Rightarrow> task_answered upd (finish e) t | Inr (now, addr) \<Rightarrow> addDHTNode now addr t)"

definition ended_calls :: "('e + u64 \<times> address) list \<Rightarrow> nat" where
  "ended_calls evs = length (filter isl evs)"

text \<open>
  What \<^verbatim>\<open>Task\<close> expects of its subclasses: \<^verbatim>\<open>update\<close> sends requests while it can, and finishes the task when there is nothing left
  to wait for or enough nodes were asked; \<open>asked\<close> counts the requests, and \<open>inv\<close> is the
  invariant of the subclass. The event \<open>e\<close> is a response or a timeout.
\<close>

locale task_contract =
  fixes upd :: "'a task_scheme \<Rightarrow> 'a task_scheme" and finish :: "'e \<Rightarrow> 'a task_scheme \<Rightarrow> 'a task_scheme"
    and inv :: "'a task_scheme \<Rightarrow> bool" and asked :: "'a task_scheme \<Rightarrow> nat" and lim :: nat
  assumes upd_inv: "inv t \<Longrightarrow> tk_outstanding t \<le> MAX_CONCURRENT_REQS \<Longrightarrow> inv (upd t)"
    and upd_outstanding: "inv t \<Longrightarrow> tk_outstanding t \<le> MAX_CONCURRENT_REQS \<Longrightarrow>
      tk_outstanding (upd t) \<le> MAX_CONCURRENT_REQS \<and> asked (upd t) + tk_outstanding t = asked t + tk_outstanding (upd t)"
    and upd_waits: "inv t \<Longrightarrow> tk_outstanding t \<le> MAX_CONCURRENT_REQS \<Longrightarrow> \<not> tk_finished t \<Longrightarrow> \<not> tk_finished (upd t) \<Longrightarrow>
      0 < tk_outstanding (upd t) \<and> asked (upd t) \<le> lim"
    and upd_signal: "tk_finished t = False \<Longrightarrow> tk_done (upd t) = tk_done t + (if tk_finished (upd t) then 1 else 0)"
    and finish_inv: "inv t \<Longrightarrow> inv (finish e t)"
    and finish_same: "asked (finish e t) = asked t" "tk_outstanding (finish e t) = tk_outstanding t" "tk_finished (finish e t) = tk_finished t"
      "tk_done (finish e t) = tk_done t"
    and inv_outstanding: "inv (t\<lparr>tk_outstanding := n\<rparr>) = inv t" "asked (t\<lparr>tk_outstanding := n\<rparr>) = asked t"
    and inv_todo: "inv (t\<lparr>tk_todo := s\<rparr>) = inv t" "asked (t\<lparr>tk_todo := s\<rparr>) = asked t"
begin

definition waits :: "nat \<Rightarrow> 'a task_scheme \<Rightarrow> bool" where
  "waits n t \<longleftrightarrow> inv t \<and> tk_outstanding t \<le> MAX_CONCURRENT_REQS \<and> asked t \<le> lim + MAX_CONCURRENT_REQS \<and>
     tk_done t = (if tk_finished t then 1 else 0) \<and>
     (\<not> tk_finished t \<longrightarrow> 0 < tk_outstanding t \<and> n + tk_outstanding t = asked t \<and> asked t \<le> lim)"

lemma waits_update:
  assumes "inv t" and "tk_outstanding t \<le> MAX_CONCURRENT_REQS" and "\<not> tk_finished t" and "n + tk_outstanding t = asked t" and "asked t \<le> lim"
    and "tk_done t = 0"
  shows "waits n (upd t)"
  using assms upd_inv [OF assms(1,2)] upd_outstanding [OF assms(1,2)] upd_waits [OF assms(1,2)] upd_signal [of t] by (auto simp: waits_def)

lemma waits_answered:
  assumes "waits n t"
  shows "waits (Suc n) (task_answered upd (finish e) t)"
proof (cases "tk_finished t")
  case True
  then show ?thesis using assms by (auto simp: waits_def task_answered_def Let_def inv_outstanding)
next
  case False
  let ?t = "finish e (t\<lparr>tk_outstanding := tk_outstanding t - 1\<rparr>)"
  have w: "inv t" "tk_outstanding t \<le> MAX_CONCURRENT_REQS" "0 < tk_outstanding t" "n + tk_outstanding t = asked t" "asked t \<le> lim" "tk_done t = 0"
    using assms False by (simp_all add: waits_def)
  have "inv ?t" by (intro finish_inv) (simp add: inv_outstanding w(1))
  then have "waits (Suc n) (upd ?t)"
    using w False by (intro waits_update) (simp_all add: finish_same inv_outstanding)
  moreover have "task_answered upd (finish e) t = upd ?t"
    using w False by (simp add: task_answered_def Let_def finish_same canDoRequest_def)
  ultimately show ?thesis by simp
qed

text \<open>A task that is not finished waits for a call, and it is finished when \<open>lim\<close> calls have ended.\<close>

lemma waits_step: "waits n t \<Longrightarrow> waits (n + (if isl ev then 1 else 0)) (task_step upd finish ev t)"
  using waits_answered [of n t]
  by (cases ev) (auto simp: task_step_def addDHTNode_def waits_def inv_todo split: prod.splits)

lemma waits_run: "waits n t \<Longrightarrow> waits (n + ended_calls evs) (fold (task_step upd finish) evs t)"
proof (induction evs arbitrary: n t)
  case (Cons ev evs)
  show ?case using Cons.IH [OF waits_step [OF Cons.prems, of ev]] by (simp add: ended_calls_def split: if_splits)
qed (simp add: ended_calls_def)

lemma ends:
  assumes "waits n t" and "lim \<le> n + ended_calls evs"
  shows "tk_finished (fold (task_step upd finish) evs t) \<and> tk_done (fold (task_step upd finish) evs t) = 1"
  using waits_run [OF assms(1), of evs] assms(2) by (auto simp: waits_def)

end

section \<open>Sending requests\<close>

lemma emap_insert_new: "d \<notin> fst ` set m \<Longrightarrow> mset (emap_insert d e m) = add_mset (d, e) (mset m)"
  by (induction m) auto

text \<open>The nodes of a set are listed under their identifiers, each once.\<close>

definition by_id :: "node_set \<Rightarrow> bool" where
  "by_id s \<longleftrightarrow> distinct (map fst s) \<and> (\<forall>x \<in> set s. fst x = ke_id (snd x))"

abbreviation addresses :: "node_set \<Rightarrow> address multiset" where
  "addresses s \<equiv> image_mset (\<lambda>x. ke_addr (snd x)) (mset s)"

lemma set_insert_new:
  assumes "by_id s" and "\<not> set_contains e s"
  shows "by_id (set_insert e s)" and "length (set_insert e s) = Suc (length s)" and "addresses (set_insert e s) = add_mset (ke_addr e) (addresses s)"
proof -
  have m: "mset (set_insert e s) = mset ((ke_id e, e) # s)" using assms(2) emap_insert_new by (simp add: set_insert_def set_contains_def)
  have "distinct (map fst (set_insert e s)) \<longleftrightarrow> distinct (map fst ((ke_id e, e) # s))"
    using arg_cong [OF m, of "image_mset fst"] by (intro mset_eq_imp_distinct_iff) simp
  moreover have "set (set_insert e s) = insert (ke_id e, e) (set s)" using mset_eq_setD [OF m] by simp
  ultimately show "by_id (set_insert e s)" using assms by (simp add: by_id_def set_contains_def)
  show "length (set_insert e s) = Suc (length s)" using mset_eq_length [OF m] by simp
  show "addresses (set_insert e s) = add_mset (ke_addr e) (addresses s)" using m by simp
qed

definition called :: "'a task_scheme \<Rightarrow> address multiset" where
  "called t = mset (map snd (tk_calls t))"

lemma visit_loop_spec:
  assumes "by_id (tk_visited t)" and "tk_outstanding t \<le> MAX_CONCURRENT_REQS"
  shows "by_id (tk_visited (visit_loop req todo t)) \<and> tk_outstanding (visit_loop req todo t) \<le> MAX_CONCURRENT_REQS \<and>
    length (tk_visited (visit_loop req todo t)) + tk_outstanding t = length (tk_visited t) + tk_outstanding (visit_loop req todo t) \<and>
    called (visit_loop req todo t) + addresses (tk_visited t) = called t + addresses (tk_visited (visit_loop req todo t)) \<and>
    (tk_todo (visit_loop req todo t) = [] \<or> tk_outstanding (visit_loop req todo t) = MAX_CONCURRENT_REQS) \<and>
    tk_finished (visit_loop req todo t) = tk_finished t \<and> tk_done (visit_loop req todo t) = tk_done t \<and>
    task.more (visit_loop req todo t) = task.more t"
  using assms
proof (induction req todo t rule: visit_loop.induct)
  case (2 req k e todo t)
  show ?case
  proof (cases "canDoRequest t")
    case True
    show ?thesis
    proof (cases "set_contains e (tk_visited t)")
      case False
      let ?t = "(rpcCall (req e) (ke_addr e) t)\<lparr>tk_visited := set_insert e (tk_visited t)\<rparr>"
      note i = set_insert_new [OF "2.prems"(1) False]
      have t: "tk_outstanding ?t = Suc (tk_outstanding t)" "called ?t = add_mset (ke_addr e) (called t)" "tk_visited ?t = set_insert e (tk_visited t)"
        "tk_finished ?t = tk_finished t" "tk_done ?t = tk_done t" "task.more ?t = task.more t"
        using True by (simp_all add: rpcCall_def called_def)
      have "tk_outstanding ?t \<le> MAX_CONCURRENT_REQS" using True t(1) by (simp add: canDoRequest_def)
      with "2.IH" [OF True] False i t show ?thesis using True by simp
    next
      case visited: True
      with "2.IH" [OF True] "2.prems" show ?thesis using True by simp
    qed
  qed (use "2.prems" in \<open>auto simp: canDoRequest_def called_def\<close>)
qed (auto simp: called_def)

lemma visit_loop_same:
  "tk_finished (visit_loop req todo t) = tk_finished t" "tk_done (visit_loop req todo t) = tk_done t" "task.more (visit_loop req todo t) = task.more t"
  by (induction req todo t rule: visit_loop.induct) (auto simp: rpcCall_def)

section \<open>Lookups keep the contract\<close>

definition nl_finish :: "(u64 \<times> rpc_msg) option \<Rightarrow> node_lookup \<Rightarrow> node_lookup" where
  "nl_finish e t = (case e of None \<Rightarrow> t | Some (now, rsp) \<Rightarrow> nl_callFinished now rsp t)"

definition nl_inv :: "node_lookup \<Rightarrow> bool" where
  "nl_inv t \<longleftrightarrow> by_id (tk_visited t) \<and> called t = addresses (tk_visited t)"

abbreviation nl_asked :: "node_lookup \<Rightarrow> nat" where
  "nl_asked t \<equiv> length (tk_visited t)"

lemma nl_update_cases:
  "nl_update t = task_end (visit_loop (\<lambda>e. FindNodeReq [] (nl_our_id t) (nl_node_id t) []) (tk_todo t) t) \<or>
   nl_update t = visit_loop (\<lambda>e. FindNodeReq [] (nl_our_id t) (nl_node_id t) []) (tk_todo t) t"
  by (auto simp: nl_update_def Let_def)

lemma task_end_simps [simp]:
  "tk_visited (task_end t) = tk_visited t" "tk_outstanding (task_end t) = tk_outstanding t" "called (task_end t) = called t"
  "tk_finished (task_end t)" "tk_done (task_end t) = Suc (tk_done t)" "tk_todo (task_end t) = tk_todo t" "task.more (task_end t) = task.more t"
  by (simp_all add: task_end_def called_def)

lemma nl_fold_same:
  "tk_visited (fold nl_add es t) = tk_visited t \<and> tk_outstanding (fold nl_add es t) = tk_outstanding t \<and> tk_finished (fold nl_add es t) = tk_finished t \<and>
   tk_done (fold nl_add es t) = tk_done t \<and> tk_calls (fold nl_add es t) = tk_calls t"
  by (induction es arbitrary: t) (simp_all add: nl_add_def)

lemma nl_finish_same:
  "tk_visited (nl_finish e t) = tk_visited t" "tk_outstanding (nl_finish e t) = tk_outstanding t" "tk_finished (nl_finish e t) = tk_finished t"
  "tk_done (nl_finish e t) = tk_done t" "tk_calls (nl_finish e t) = tk_calls t"
  by (auto simp: nl_finish_def nl_callFinished_def nl_handleNodes_def nl_fold_same Let_def split: option.splits rpc_msg.splits)

interpretation nl: task_contract nl_update nl_finish nl_inv nl_asked 200
proof
  fix t :: node_lookup and e n
  let ?v = "visit_loop (\<lambda>e. FindNodeReq [] (nl_our_id t) (nl_node_id t) []) (tk_todo t) t"
  note v = visit_loop_spec [of t "\<lambda>e. FindNodeReq [] (nl_our_id t) (nl_node_id t) []" "tk_todo t"]
  show "nl_inv (nl_finish e t)" if "nl_inv t" using that by (simp add: nl_inv_def nl_finish_same called_def)
  show "nl_inv (t\<lparr>tk_outstanding := n\<rparr>) = nl_inv t" by (simp add: nl_inv_def called_def)
  show "tk_done (nl_update t) = tk_done t + (if tk_finished (nl_update t) then 1 else 0)" if "tk_finished t = False"
    using nl_update_cases [of t] that by (auto simp: visit_loop_same)
  show "nl_inv (nl_update t)" if "nl_inv t" "tk_outstanding t \<le> MAX_CONCURRENT_REQS"
    using nl_update_cases [of t] v that by (auto simp: nl_inv_def)
  show "nl_inv (t\<lparr>tk_todo := s\<rparr>) = nl_inv t" for s by (simp add: nl_inv_def called_def)
  show "tk_outstanding (nl_update t) \<le> MAX_CONCURRENT_REQS \<and> nl_asked (nl_update t) + tk_outstanding t = nl_asked t + tk_outstanding (nl_update t)"
    if "nl_inv t" "tk_outstanding t \<le> MAX_CONCURRENT_REQS"
    using nl_update_cases [of t] v that by (auto simp: nl_inv_def)
  show "0 < tk_outstanding (nl_update t) \<and> nl_asked (nl_update t) \<le> 200"
    if "nl_inv t" "tk_outstanding t \<le> MAX_CONCURRENT_REQS" "\<not> tk_finished t" "\<not> tk_finished (nl_update t)"
    using that v by (auto simp: nl_update_def Let_def nl_inv_def MAX_CONCURRENT_REQS_def split: if_splits)
qed (simp_all add: nl_finish_same)

lemma nl_waits_start: "nl.waits 0 (task_start nl_update kns False (NodeLookup our_id k))"
proof -
  have "nl.waits 0 (nl_update ((NodeLookup our_id k)\<lparr>tk_todo := fold set_insert kns [], tk_queued := False\<rparr>))"
    by (rule nl.waits_update) (simp_all add: NodeLookup_def nl_inv_def by_id_def called_def)
  then show ?thesis by (simp add: task_start_def Let_def NodeLookup_def)
qed

text \<open>C18. A lookup ends, and asks nobody twice: in every state that answers (whatever they contain), timeouts and added nodes lead to, the
  requests have gone to nodes with different identifiers, one each, at most 216; as long as the lookup is not
  finished it waits for at least one and at most sixteen calls; and it has finished, once, when 200 calls have ended.
\<close>

theorem node_lookup_ends:
  fixes evs :: "((u64 \<times> rpc_msg) option + u64 \<times> address) list"
  assumes "t = fold (task_step nl_update nl_finish) evs (task_start nl_update kns False (NodeLookup our_id k))"
  shows "mset (map snd (tk_calls t)) = addresses (tk_visited t) \<and> distinct (map (\<lambda>x. ke_id (snd x)) (tk_visited t)) \<and> length (tk_calls t) \<le> 216 \<and>
    (\<not> tk_finished t \<longrightarrow> 0 < tk_outstanding t \<and> tk_outstanding t \<le> 16) \<and>
    (200 \<le> ended_calls evs \<longrightarrow> tk_finished t) \<and> tk_done t = (if tk_finished t then 1 else 0)"
proof -
  have w: "nl.waits (ended_calls evs) t" using nl.waits_run [OF nl_waits_start, of evs kns our_id k] unfolding assms by simp
  then have i: "by_id (tk_visited t)" "mset (map snd (tk_calls t)) = addresses (tk_visited t)" "length (tk_visited t) \<le> 216"
    by (simp_all add: nl.waits_def nl_inv_def called_def MAX_CONCURRENT_REQS_def)
  have "length (tk_calls t) = length (tk_visited t)" using arg_cong [OF i(2), of size] by simp
  moreover have "map (\<lambda>x. ke_id (snd x)) (tk_visited t) = map fst (tk_visited t)" using i(1) by (auto simp: by_id_def)
  then have "distinct (map (\<lambda>x. ke_id (snd x)) (tk_visited t))" using i(1) by (simp only: by_id_def)
  ultimately show ?thesis using w i by (auto simp: nl.waits_def MAX_CONCURRENT_REQS_def)
qed

theorem node_lookup_ends_witness:
  "let t = fold (task_step nl_update nl_finish) [Inl (Some (0, PingRsp [1] Key_min)), Inr (0, IPv4 3 3), Inl None]
      (task_start nl_update [KBucketEntry 0 (IPv4 1 1) (Key 1 0 0 0 0), KBucketEntry 0 (IPv4 2 2) (Key 2 0 0 0 0)] False (NodeLookup Key_min Key_max))
   in mset (map snd (tk_calls t)) = addresses (tk_visited t) \<and> tk_done t = (if tk_finished t then 1 else 0)"
  unfolding Let_def
  using node_lookup_ends [OF refl, of "[Inl (Some (0, PingRsp [1] Key_min)), Inr (0, IPv4 3 3), Inl None]"
      "[KBucketEntry 0 (IPv4 1 1) (Key 1 0 0 0 0), KBucketEntry 0 (IPv4 2 2) (Key 2 0 0 0 0)]" Key_min Key_max]
  by (elim conjE) (intro conjI)

section \<open>Announcements keep the contract\<close>

definition at_finish :: "(u64 \<times> rpc_method \<times> rpc_msg \<times> address) option \<Rightarrow> announce_task \<Rightarrow> announce_task" where
  "at_finish e t = (case e of None \<Rightarrow> t | Some (now, meth, rsp, origin) \<Rightarrow> at_callFinished now meth rsp origin t)"

definition at_inv :: "announce_task \<Rightarrow> bool" where
  "at_inv t \<longleftrightarrow> by_id (tk_visited t) \<and> by_id (at_answered_visited t) \<and>
     called t = addresses (tk_visited t) + addresses (at_answered_visited t)"

definition at_asked :: "announce_task \<Rightarrow> nat" where
  "at_asked t = length (tk_visited t) + length (at_answered_visited t)"

lemma announce_loop_spec:
  assumes "by_id (at_answered_visited t)" and "tk_outstanding t \<le> MAX_CONCURRENT_REQS"
  shows "by_id (at_answered_visited (announce_loop ans t)) \<and> tk_outstanding (announce_loop ans t) \<le> MAX_CONCURRENT_REQS \<and>
    length (at_answered_visited (announce_loop ans t)) + tk_outstanding t = length (at_answered_visited t) + tk_outstanding (announce_loop ans t) \<and>
    called (announce_loop ans t) + addresses (at_answered_visited t) = called t + addresses (at_answered_visited (announce_loop ans t)) \<and>
    (at_answered (announce_loop ans t) = [] \<or> tk_outstanding (announce_loop ans t) = MAX_CONCURRENT_REQS) \<and>
    tk_visited (announce_loop ans t) = tk_visited t"
  using assms
proof (induction ans t rule: announce_loop.induct)
  case (2 k e tok ans t)
  show ?case
  proof (cases "canDoRequest t")
    case True
    show ?thesis
    proof (cases "set_contains e (at_answered_visited t)")
      case False
      let ?t = "(rpcCall (AnnounceReq [] (at_our_id t) (at_info_hash t) [] (at_port t) tok) (ke_addr e) t)
        \<lparr>at_answered_visited := set_insert e (at_answered_visited t)\<rparr>"
      note i = set_insert_new [OF "2.prems"(1) False]
      have t: "tk_outstanding ?t = Suc (tk_outstanding t)" "called ?t = add_mset (ke_addr e) (called t)"
        "at_answered_visited ?t = set_insert e (at_answered_visited t)" "tk_visited ?t = tk_visited t"
        using True by (simp_all add: rpcCall_def called_def)
      have "tk_outstanding ?t \<le> MAX_CONCURRENT_REQS" using True t(1) by (simp add: canDoRequest_def)
      with "2.IH" [OF True] False i t show ?thesis using True by simp
    next
      case visited: True
      with "2.IH" [OF True] "2.prems" show ?thesis using True by simp
    qed
  qed (use "2.prems" in \<open>auto simp: canDoRequest_def called_def\<close>)
qed (auto simp: called_def)

lemma announce_loop_same: "tk_finished (announce_loop ans t) = tk_finished t" "tk_done (announce_loop ans t) = tk_done t"
  by (induction ans t rule: announce_loop.induct) (auto simp: rpcCall_def)

lemma visit_loop_mono: "tk_outstanding t \<le> tk_outstanding (visit_loop req todo t)"
  by (induction req todo t rule: visit_loop.induct) (auto simp: rpcCall_def split: if_splits)

lemma at_more: "task.more t = task.more t' \<Longrightarrow> at_answered_visited t = at_answered_visited t' \<and> at_answered t = at_answered t'"
  for t t' :: announce_task
  by (cases t; cases t') simp

text \<open>The two loops of \<^verbatim>\<open>AnnounceTask::update\<close>.\<close>

definition at_loops :: "announce_task \<Rightarrow> announce_task" where
  "at_loops t = (let t1 = announce_loop (at_answered t) t
     in visit_loop (\<lambda>e. GetPeersReq [] (at_our_id t1) (at_info_hash t1) []) (tk_todo t1) t1)"

lemma at_loops_spec:
  assumes "at_inv t" and "tk_outstanding t \<le> MAX_CONCURRENT_REQS"
  shows "at_inv (at_loops t) \<and> tk_outstanding (at_loops t) \<le> MAX_CONCURRENT_REQS \<and>
    at_asked (at_loops t) + tk_outstanding t = at_asked t + tk_outstanding (at_loops t) \<and>
    (tk_todo (at_loops t) = [] \<and> at_answered (at_loops t) = [] \<or> tk_outstanding (at_loops t) = MAX_CONCURRENT_REQS)"
proof -
  define t1 where "t1 = announce_loop (at_answered t) t"
  define req :: "kb_entry \<Rightarrow> rpc_msg" where "req = (\<lambda>e. GetPeersReq [] (at_our_id t1) (at_info_hash t1) [])"
  have t2: "at_loops t = visit_loop req (tk_todo t1) t1" by (simp add: at_loops_def t1_def req_def Let_def)
  have a: "by_id (at_answered_visited t1)" "tk_outstanding t1 \<le> MAX_CONCURRENT_REQS" "tk_visited t1 = tk_visited t"
    "length (at_answered_visited t1) + tk_outstanding t = length (at_answered_visited t) + tk_outstanding t1"
    "called t1 + addresses (at_answered_visited t) = called t + addresses (at_answered_visited t1)"
    "at_answered t1 = [] \<or> tk_outstanding t1 = MAX_CONCURRENT_REQS"
    using announce_loop_spec [of t "at_answered t"] assms by (simp_all add: t1_def at_inv_def)
  have "by_id (tk_visited t1)" using a(3) assms(1) by (simp add: at_inv_def)
  note v = visit_loop_spec [OF this a(2), of req "tk_todo t1", folded t2]
  have m: "at_answered_visited (at_loops t) = at_answered_visited t1" "at_answered (at_loops t) = at_answered t1" using v at_more by blast+
  have "tk_outstanding t1 \<le> tk_outstanding (at_loops t)" unfolding t2 by (rule visit_loop_mono)
  moreover have "called (at_loops t) = addresses (tk_visited (at_loops t)) + addresses (at_answered_visited t1)"
  proof -
    have "called t = addresses (tk_visited t) + addresses (at_answered_visited t)" using assms(1) by (simp add: at_inv_def)
    then have "called t1 = addresses (tk_visited t1) + addresses (at_answered_visited t1)" using a(3,5) by (simp add: ac_simps)
    then show ?thesis using v by (simp add: ac_simps)
  qed
  ultimately show ?thesis using v a m by (auto simp: at_inv_def at_asked_def)
qed

lemma at_update_loops:
  "at_update t = (if tk_todo (at_loops t) = [] \<and> at_answered (at_loops t) = [] \<and> tk_outstanding (at_loops t) = 0 \<and> \<not> tk_finished (at_loops t)
     then task_end (at_loops t)
     else if 50 < length (at_answered_visited (at_loops t)) \<or> 200 < length (tk_visited (at_loops t)) then task_end (at_loops t)
     else at_loops t)"
  by (simp add: at_update_def at_loops_def Let_def)

lemma at_loops_same: "tk_finished (at_loops t) = tk_finished t" "tk_done (at_loops t) = tk_done t"
  by (simp_all add: at_loops_def Let_def visit_loop_same announce_loop_same)

lemma at_end_simps [simp]: "at_inv (task_end t) = at_inv t" "at_asked (task_end t) = at_asked t"
proof -
  have "at_answered_visited (task_end t) = at_answered_visited t" by (simp add: task_end_def)
  then show "at_inv (task_end t) = at_inv t" "at_asked (task_end t) = at_asked t" by (simp_all add: at_inv_def at_asked_def)
qed

definition at_unchanged :: "announce_task \<Rightarrow> announce_task \<Rightarrow> bool" where
  "at_unchanged t t' \<longleftrightarrow> tk_visited t' = tk_visited t \<and> tk_outstanding t' = tk_outstanding t \<and> tk_finished t' = tk_finished t \<and>
     tk_done t' = tk_done t \<and> tk_calls t' = tk_calls t \<and> at_answered_visited t' = at_answered_visited t"

lemma at_fold_unchanged: "at_unchanged t (fold at_add es t)"
  by (induction es arbitrary: t) (simp_all add: at_unchanged_def at_add_def)

lemma at_finish_unchanged: "at_unchanged t (at_finish e t)"
proof -
  have h: "at_unchanged t (at_handleNodes now ns v t)" for now ns v t by (simp add: at_handleNodes_def at_fold_unchanged)
  have "at_unchanged t (at_handleNodes now n6 6 (at_handleNodes now n 4 t))" for now n n6
    using h [of t now n 4] h [of "at_handleNodes now n 4 t" now n6 6] by (simp add: at_unchanged_def)
  then show ?thesis using h [of t]
    by (auto simp: at_finish_def at_callFinished_def at_unchanged_def Let_def split: option.splits rpc_msg.splits)
qed

interpretation at: task_contract at_update at_finish at_inv at_asked 250
proof
  fix t :: announce_task and e n
  show "at_inv (at_finish e t)" if "at_inv t" using that at_finish_unchanged [of t e] by (simp add: at_inv_def at_unchanged_def called_def)
  show "at_asked (at_finish e t) = at_asked t" "tk_outstanding (at_finish e t) = tk_outstanding t" "tk_finished (at_finish e t) = tk_finished t"
    "tk_done (at_finish e t) = tk_done t" using at_finish_unchanged [of t e] by (simp_all add: at_asked_def at_unchanged_def)
  show "at_inv (t\<lparr>tk_outstanding := n\<rparr>) = at_inv t" "at_inv (t\<lparr>tk_todo := s\<rparr>) = at_inv t" for s by (simp_all add: at_inv_def called_def)
  show "at_asked (t\<lparr>tk_outstanding := n\<rparr>) = at_asked t" "at_asked (t\<lparr>tk_todo := s\<rparr>) = at_asked t" for s by (simp_all add: at_asked_def)
  show "tk_done (at_update t) = tk_done t + (if tk_finished (at_update t) then 1 else 0)" if "tk_finished t = False"
    using that by (simp add: at_update_loops at_loops_same)
  show "at_inv (at_update t)" if "at_inv t" "tk_outstanding t \<le> MAX_CONCURRENT_REQS"
    using at_loops_spec [OF that] by (simp add: at_update_loops)
  show "tk_outstanding (at_update t) \<le> MAX_CONCURRENT_REQS \<and> at_asked (at_update t) + tk_outstanding t = at_asked t + tk_outstanding (at_update t)"
    if "at_inv t" "tk_outstanding t \<le> MAX_CONCURRENT_REQS"
    using at_loops_spec [OF that] by (simp add: at_update_loops)
  show "0 < tk_outstanding (at_update t) \<and> at_asked (at_update t) \<le> 250"
    if "at_inv t" "tk_outstanding t \<le> MAX_CONCURRENT_REQS" "\<not> tk_finished t" "\<not> tk_finished (at_update t)"
    using at_loops_spec [OF that(1,2)] that(3,4)
    by (auto simp: at_update_loops at_loops_same at_asked_def MAX_CONCURRENT_REQS_def split: if_splits)
qed

text \<open>C40. An announcement ends: it asks no node twice for peers and announces itself to no node twice, sends at most 266 requests, waits
  for one to sixteen calls as long as it is not finished, and has finished, once, when 250 calls have ended.
\<close>

theorem announce_task_ends:
  fixes evs :: "((u64 \<times> rpc_method \<times> rpc_msg \<times> address) option + u64 \<times> address) list"
  assumes "t = fold (task_step at_update at_finish) evs (task_start at_update kns False (AnnounceTask db our_id info_hash prt))"
  shows "mset (map snd (tk_calls t)) = addresses (tk_visited t) + addresses (at_answered_visited t) \<and>
    distinct (map fst (tk_visited t)) \<and> distinct (map fst (at_answered_visited t)) \<and> length (tk_calls t) \<le> 266 \<and>
    (\<not> tk_finished t \<longrightarrow> 0 < tk_outstanding t \<and> tk_outstanding t \<le> 16) \<and>
    (250 \<le> ended_calls evs \<longrightarrow> tk_finished t) \<and> tk_done t = (if tk_finished t then 1 else 0)"
proof -
  have "at.waits 0 (at_update ((AnnounceTask db our_id info_hash prt)\<lparr>tk_todo := fold set_insert kns [], tk_queued := False\<rparr>))"
    by (rule at.waits_update) (simp_all add: AnnounceTask_def at_inv_def at_asked_def by_id_def called_def)
  then have "at.waits 0 (task_start at_update kns False (AnnounceTask db our_id info_hash prt))" by (simp add: task_start_def Let_def AnnounceTask_def)
  from at.waits_run [OF this, of evs] have w: "at.waits (ended_calls evs) t" unfolding assms by simp
  then have i: "mset (map snd (tk_calls t)) = addresses (tk_visited t) + addresses (at_answered_visited t)" "at_asked t \<le> 266" "at_inv t"
    by (simp_all add: at.waits_def at_inv_def called_def MAX_CONCURRENT_REQS_def)
  have "length (tk_calls t) = at_asked t" using arg_cong [OF i(1), of size] by (simp add: at_asked_def)
  then show ?thesis using w i by (auto simp: at.waits_def MAX_CONCURRENT_REQS_def at_inv_def by_id_def)
qed

theorem announce_task_ends_witness:
  "let t = fold (task_step at_update at_finish) [Inl (Some (0, GET_PEERS, GetPeersRsp [1] (Key 1 0 0 0 0) [5] [] [] [IPv4 9 9], IPv4 1 1)), Inl None]
      (task_start at_update [KBucketEntry 0 (IPv4 1 1) (Key 1 0 0 0 0)] False (AnnounceTask Database_new Key_min Key_max 6881))
   in length (tk_calls t) \<le> 266 \<and> tk_done t = (if tk_finished t then 1 else 0)"
  unfolding Let_def
  using announce_task_ends [OF refl, of "[Inl (Some (0, GET_PEERS, GetPeersRsp [1] (Key 1 0 0 0 0) [5] [] [] [IPv4 9 9], IPv4 1 1)), Inl None]"
      "[KBucketEntry 0 (IPv4 1 1) (Key 1 0 0 0 0)]" Database_new Key_min Key_max 6881]
  by (elim conjE) (intro conjI)

text \<open>Nodes of which only the address is known have the same identifier: of two only the first is asked.\<close>

lemma added_nodes_collapse: "tk_todo (addDHTNode now b (addDHTNode now a t)) = tk_todo (addDHTNode now a t)"
proof -
  have e: "ke_id (KBucketEntry now x i) = i" for x i by (simp add: KBucketEntry_def)
  have "emap_insert d y (emap_insert d x m) = emap_insert d x m" for d x y and m :: node_set by (induction m) auto
  then show ?thesis by (simp add: addDHTNode_def set_insert_def e)
qed

section \<open>The queue of tasks\<close>

text \<open>
  Tasks are named by numbers. \<open>tm_flag\<close> is \<^verbatim>\<open>Task::queued\<close> of a task, \<open>can_start n\<close> the answer of \<^verbatim>\<open>DHT::canStartTask\<close> when \<open>n\<close> tasks are
  active, and \<open>tm_started\<close> records the tasks that were started from the queue. A task that has finished is deleted when
  control returns to the event loop: until then it is still in the queue.
\<close>

record task_manager =
  tm_num_active :: nat
  tm_queue :: "nat list"
  tm_flag :: "nat \<Rightarrow> bool"
  tm_started :: "nat list"

definition addTask :: "nat \<Rightarrow> bool \<Rightarrow> task_manager \<Rightarrow> task_manager" where
  "addTask t queued m =
     (let m = m\<lparr>tm_flag := (tm_flag m)(t := queued)\<rparr> in
      if queued then m\<lparr>tm_queue := tm_queue m @ [t]\<rparr> else m\<lparr>tm_num_active := tm_num_active m + 1\<rparr>)"

fun start_loop :: "(nat \<Rightarrow> bool) \<Rightarrow> nat list \<Rightarrow> task_manager \<Rightarrow> task_manager" where
  "start_loop can_start [] m = m\<lparr>tm_queue := []\<rparr>"
| "start_loop can_start (t # q) m =
     (if can_start (tm_num_active m) then
        start_loop can_start q (m\<lparr>tm_num_active := tm_num_active m + 1, tm_flag := (tm_flag m)(t := False), tm_started := tm_started m @ [t]\<rparr>)
      else m\<lparr>tm_queue := t # q\<rparr>)"

definition taskFinished :: "(nat \<Rightarrow> bool) \<Rightarrow> nat \<Rightarrow> task_manager \<Rightarrow> task_manager" where
  "taskFinished can_start t m =
     (let m1 = (if \<not> tm_flag m t \<and> 0 < tm_num_active m then m\<lparr>tm_num_active := tm_num_active m - 1\<rparr> else m)
      in start_loop can_start (tm_queue m1) m1)"

text \<open>
  A task that is killed while it is queued is started by the loop and counted as active, although it has sent its
  signal and is about to be deleted: the count stays too large for good.
\<close>

lemma killed_task_counted:
  assumes "can_start 0" and "tm_num_active m = 0" and "tm_queue m = []"
  shows "tm_num_active (taskFinished can_start t (addTask t True m)) = 1 \<and> tm_started (taskFinished can_start t (addTask t True m)) = tm_started m @ [t]"
  using assms by (simp add: taskFinished_def addTask_def Let_def)

end
