(* ===== verification/Dht.thy ===== *)
theory Dht
  imports RpcServer DhtDatabase
begin

text \<open>
  The node of the distributed hash table, \<^verbatim>\<open>src/src/dht/node.cpp\<close> and \<^verbatim>\<open>dht.cpp\<close>: what it does with a datagram, from the bytes to the
  answer. The routing tables, the calls and the items are those of the other theories. A \<open>dht_env\<close> holds what the
  code takes from outside while it handles an event: the clock, the hash function, the conversions of
  numbers, what \<^verbatim>\<open>doCall\<close> returns to the routing table and the addresses that the routing table pings
  (\<open>de_srv\<close>, \<open>de_pings\<close>), and the requests that the listeners of an answered call, a task or a bucket,
  make (\<open>de_requests\<close>). \<^const>\<open>None\<close> is undefined behaviour.
\<close>

section \<open>State\<close>

record dht_env =
  de_now :: u64
  de_hash :: "byte list \<Rightarrow> byte list"
  de_number :: "nat \<Rightarrow> string"
  de_to_int :: "string \<Rightarrow> int option"
  de_to_long_long :: "string \<Rightarrow> int option"
  de_srv :: "nat \<Rightarrow> nat option"
  de_pings :: "address list"
  de_requests :: "(rpc_msg \<times> address) list"

record dht =
  dh_our_id :: key
  dh_running :: bool
  dh_ipv4 :: kbucket_table
  dh_ipv6 :: kbucket_table
  dh_num_receives :: u32
  dh_num_entries :: nat
  dh_own_lookup :: bool
  dh_lookups :: "key list"
  dh_db :: database
  dh_srv :: rpc_server

definition DHT_started :: "key \<Rightarrow> dht" where
  "DHT_started our_id = \<lparr>dh_our_id = our_id, dh_running = True, dh_ipv4 = KBucketTable_new our_id, dh_ipv6 = KBucketTable_new our_id,
     dh_num_receives = 0, dh_num_entries = 0, dh_own_lookup = False, dh_lookups = [], dh_db = Database_new, dh_srv = RPCServer_new\<rparr>"

definition WANT_IPV4 :: u32 where "WANT_IPV4 = 1"

definition WANT_IPV6 :: u32 where "WANT_IPV6 = 2"

definition WANT_BOTH :: u32 where "WANT_BOTH = or WANT_IPV4 WANT_IPV6"

section \<open>The node\<close>

definition node_findKClosestNodes :: "closest_search \<Rightarrow> u32 \<Rightarrow> dht \<Rightarrow> closest_search option" where
  "node_findKClosestNodes kns want d =
     Option.bind (if and want WANT_IPV4 \<noteq> 0 then kt_findKClosestNodes (kt_buckets (dh_ipv4 d)) kns else Some kns) (\<lambda>kns.
     if and want WANT_IPV6 \<noteq> 0 then kt_findKClosestNodes (kt_buckets (dh_ipv6 d)) kns else Some kns)"

text \<open>\<^verbatim>\<open>findNode(id)\<close> starts a lookup when there are nodes to ask; \<open>dh_lookups\<close> records them.\<close>

definition findNode_task :: "key \<Rightarrow> dht \<Rightarrow> (bool \<times> dht) option" where
  "findNode_task i d = (if \<not> dh_running d then Some (False, d)
     else map_option (\<lambda>kns. if 0 < length (cs_emap kns) then (True, d\<lparr>dh_lookups := dh_lookups d @ [i]\<rparr>) else (False, d))
       (node_findKClosestNodes (KClosestNodesSearch i (of_nat K)) WANT_BOTH d))"

definition findOwnNode :: "dht \<Rightarrow> dht option" where
  "findOwnNode d = (if dh_own_lookup d then Some d
     else map_option (\<lambda>(ok, d). d\<lparr>dh_own_lookup := ok\<rparr>) (findNode_task (dh_our_id d) d))"

definition ownNodeLookupFinished :: "dht \<Rightarrow> dht" where
  "ownNodeLookupFinished d = d\<lparr>dh_own_lookup := False\<rparr>"

fun do_calls :: "(rpc_msg \<times> address) list \<Rightarrow> dht \<Rightarrow> dht option" where
  "do_calls [] d = Some d"
| "do_calls ((m, a) # rs) d = Option.bind (doCall m a (dh_srv d)) (\<lambda>s. do_calls rs (d\<lparr>dh_srv := s\<rparr>))"

definition node_received :: "dht_env \<Rightarrow> rpc_msg \<Rightarrow> address \<Rightarrow> dht \<Rightarrow> dht option" where
  "node_received env m origin d =
     (let entry = KBucketEntry (de_now env) origin (getID m);
          d1 = (if ipVersion origin = 4 then d\<lparr>dh_ipv4 := kt_insert (de_now env) (de_srv env) entry (dh_ipv4 d)\<rparr>
                else d\<lparr>dh_ipv6 := kt_insert (de_now env) (de_srv env) entry (dh_ipv6 d)\<rparr>)
      in Option.bind (do_calls (map (\<lambda>a. (PingReq [] (dh_our_id d), a)) (de_pings env)) d1) (\<lambda>d1.
         let d2 = d1\<lparr>dh_num_receives := dh_num_receives d1 + 1\<rparr> in
         map_option (\<lambda>d3. d3\<lparr>dh_num_entries := numEntries (dh_ipv4 d3) + numEntries (dh_ipv6 d3)\<rparr>)
           (if dh_num_receives d2 = 3 then findOwnNode d2 else Some d2)))"

definition node_onTimeout :: "address \<Rightarrow> dht \<Rightarrow> dht" where
  "node_onTimeout origin d = (if ipVersion origin = 4 then d\<lparr>dh_ipv4 := kt_onTimeout origin (dh_ipv4 d)\<rparr>
     else d\<lparr>dh_ipv6 := kt_onTimeout origin (dh_ipv6 d)\<rparr>)"

definition node_refreshBuckets :: "u64 \<Rightarrow> (key \<Rightarrow> nat option) \<Rightarrow> (key \<Rightarrow> nat option) \<Rightarrow> dht \<Rightarrow> dht" where
  "node_refreshBuckets now lookup4 lookup6 d =
     d\<lparr>dh_ipv4 := refreshBuckets now lookup4 (dh_ipv4 d), dh_ipv6 := refreshBuckets now lookup6 (dh_ipv6 d)\<rparr>"

section \<open>The handlers\<close>

definition reply :: "rpc_msg \<Rightarrow> address \<Rightarrow> dht \<Rightarrow> dht" where
  "reply m origin d = d\<lparr>dh_srv := sendMsg m origin (dh_srv d)\<rparr>"

definition dht_ping :: "dht_env \<Rightarrow> rpc_msg \<Rightarrow> address \<Rightarrow> dht \<Rightarrow> dht option" where
  "dht_ping env r origin d =
     (if \<not> dh_running d \<or> getID r = dh_our_id d then Some d
      else node_received env r origin (reply (PingRsp (getMTID r) (dh_our_id d)) origin d))"

definition wanted_families :: "dht_env \<Rightarrow> string list \<Rightarrow> address \<Rightarrow> u32" where
  "wanted_families env want origin =
     (let w = (if wants (de_number env) want 4 \<or> ipVersion origin = 4 then or 0 WANT_IPV4 else 0)
      in if wants (de_number env) want 6 \<or> ipVersion origin = 6 then or w WANT_IPV6 else w)"

text \<open>The nodes closest to a key, packed.\<close>

definition closest_packed :: "dht_env \<Rightarrow> key \<Rightarrow> string list \<Rightarrow> address \<Rightarrow> dht \<Rightarrow> node_container option" where
  "closest_packed env k want origin d =
     Option.bind (node_findKClosestNodes (KClosestNodesSearch k (of_nat K)) (wanted_families env want origin) d) (\<lambda>kns.
     kns_pack kns \<lparr>pn_nodes = [], pn_nodes6 = []\<rparr>)"

definition dht_findNode :: "dht_env \<Rightarrow> rpc_msg \<Rightarrow> key \<Rightarrow> string list \<Rightarrow> address \<Rightarrow> dht \<Rightarrow> dht option" where
  "dht_findNode env r target want origin d =
     (if \<not> dh_running d \<or> getID r = dh_our_id d then Some d
      else Option.bind (node_received env r origin d) (\<lambda>d.
           map_option (\<lambda>c. reply (FindNodeRsp (getMTID r) (dh_our_id d) (pn_nodes c) (pn_nodes6 c)) origin d)
             (closest_packed env target want origin d)))"

definition dht_announce :: "dht_env \<Rightarrow> rpc_msg \<Rightarrow> key \<Rightarrow> byte list \<Rightarrow> address \<Rightarrow> dht \<Rightarrow> dht option" where
  "dht_announce env r info_hash tok origin d =
     (if \<not> dh_running d \<or> getID r = dh_our_id d then Some d
      else map_option (\<lambda>d.
        let (ok, db) = checkToken (de_hash env) tok origin (dh_db d) in
        if \<not> ok then d\<lparr>dh_db := db\<rparr>
        else reply (AnnounceRsp (getMTID r) (dh_our_id d)) origin (d\<lparr>dh_db := store info_hash (DBItem (de_now env) origin) db\<rparr>))
        (node_received env r origin d))"

definition dht_getPeers :: "dht_env \<Rightarrow> rpc_msg \<Rightarrow> key \<Rightarrow> string list \<Rightarrow> address \<Rightarrow> dht \<Rightarrow> dht option" where
  "dht_getPeers env r info_hash want origin d =
     (if \<not> dh_running d \<or> getID r = dh_our_id d then Some d
      else Option.bind (node_received env r origin d) (\<lambda>d.
        let dbl = sample info_hash [] 50 (ipVersion origin) (dh_db d);
            (tok, db) = genToken (de_hash env) (de_now env) origin (dh_db d);
            d = d\<lparr>dh_db := db\<rparr>
        in map_option (\<lambda>c. reply (GetPeersRsp (getMTID r) (dh_our_id d) tok (pn_nodes c) (pn_nodes6 c) (map it_addr dbl)) origin d)
             (closest_packed env info_hash want origin d)))"

definition dht_response :: "dht_env \<Rightarrow> rpc_msg \<Rightarrow> address \<Rightarrow> dht \<Rightarrow> dht option" where
  "dht_response env r origin d = (if \<not> dh_running d then Some d else node_received env r origin d)"

text \<open>\<^verbatim>\<open>apply\<close> of each class of messages.\<close>

fun msg_apply :: "dht_env \<Rightarrow> rpc_msg \<Rightarrow> address \<Rightarrow> dht \<Rightarrow> dht option" where
  "msg_apply env (PingReq t i) origin d = dht_ping env (PingReq t i) origin d"
| "msg_apply env (FindNodeReq t i k w) origin d = dht_findNode env (FindNodeReq t i k w) k w origin d"
| "msg_apply env (GetPeersReq t i k w) origin d = dht_getPeers env (GetPeersReq t i k w) k w origin d"
| "msg_apply env (AnnounceReq t i k w p tok) origin d = dht_announce env (AnnounceReq t i k w p tok) k tok origin d"
| "msg_apply env (ErrMsg t e) origin d = Some d"
| "msg_apply env m origin d = dht_response env m origin d"

text \<open>\<^verbatim>\<open>dataReceived\<close>; an exception of the decoder or of the factory is logged.\<close>

definition msg_origin :: "address \<Rightarrow> address" where
  "msg_origin addr = (if ipVersion addr = 6 \<and> isIPv4Mapped addr then convertIPv4Mapped addr else addr)"

definition finish_call :: "dht_env \<Rightarrow> rpc_msg \<Rightarrow> dht \<Rightarrow> dht option" where
  "finish_call env m d =
     (if getType m = RSP_MSG \<and> map_of (rs_calls (dh_srv d)) (getMTID m) \<noteq> None then
        Option.bind (do_calls (de_requests env) d) (\<lambda>d.
        map_option (\<lambda>s. d\<lparr>dh_srv := s\<rparr>) (end_call (getMTID m) (dh_srv d)))
      else Some d)"

definition dataReceived :: "dht_env \<Rightarrow> byte list \<Rightarrow> address \<Rightarrow> dht \<Rightarrow> dht option" where
  "dataReceived env dat addr d =
     (case decodeDict (de_to_int env) (de_to_long_long env) (string_of dat) 0 of
        Inl e \<Rightarrow> Some d
      | Inr (None, _) \<Rightarrow> Some d
      | Inr (Some dict, _) \<Rightarrow> (case rpc_build (findMethod (dh_srv d)) dict of
          Inl Undefined \<Rightarrow> None
        | Inl e \<Rightarrow> Some d
        | Inr None \<Rightarrow> Some d
        | Inr (Some m) \<Rightarrow> Option.bind (msg_apply env m (msg_origin addr) d) (finish_call env m)))"

text \<open>The timer of a call: \<^verbatim>\<open>RPCServer::callTimeout\<close>.\<close>

definition call_timeout :: "byte list \<Rightarrow> dht \<Rightarrow> dht option" where
  "call_timeout mtid d =
     (let d1 = (case map_of (rs_calls (dh_srv d)) mtid of Some c \<Rightarrow> node_onTimeout (rc_dest c) d | None \<Rightarrow> d)
      in map_option (\<lambda>s. d1\<lparr>dh_srv := s\<rparr>) (timedOut mtid (dh_srv d1)))"

definition dht_portReceived :: "address \<Rightarrow> dht \<Rightarrow> dht option" where
  "dht_portReceived addr d = (if \<not> dh_running d then Some d else do_calls [(PingReq [] (dh_our_id d), addr)] d)"

definition canStartTask :: "nat \<Rightarrow> dht \<Rightarrow> bool" where
  "canStartTask num_tasks d = (if 7 \<le> num_tasks then False
     else if 256 - getNumActiveRPCCalls (dh_srv d) \<le> 16 then False else True)"

definition expireDatabaseItems :: "u64 \<Rightarrow> dht \<Rightarrow> dht" where
  "expireDatabaseItems now d = d\<lparr>dh_db := expire now (dh_db d)\<rparr>"

text \<open>What can happen to a node.\<close>

datatype dht_event =
    Datagram dht_env "byte list" address
  | Call_timeout "byte list"
  | Client_call rpc_msg address
  | Items_stored key "db_item list"
  | Expiry u64
  | Tables_refreshed u64 "key \<Rightarrow> nat option" "key \<Rightarrow> nat option"
  | Lookup_finished

fun dht_step :: "dht_event \<Rightarrow> dht \<Rightarrow> dht option" where
  "dht_step (Datagram env dat addr) d = dataReceived env dat addr d"
| "dht_step (Call_timeout t) d = call_timeout t d"
| "dht_step (Client_call m a) d = do_calls [(m, a)] d"
| "dht_step (Items_stored k its) d = Some (d\<lparr>dh_db := fold (store k) its (dh_db d)\<rparr>)"
| "dht_step (Expiry now) d = Some (expireDatabaseItems now d)"
| "dht_step (Tables_refreshed now l4 l6) d = Some (node_refreshBuckets now l4 l6 d)"
| "dht_step Lookup_finished d = Some (ownNodeLookupFinished d)"

fun dht_run :: "dht_event list \<Rightarrow> dht \<Rightarrow> dht option" where
  "dht_run [] d = Some d"
| "dht_run (e # es) d = Option.bind (dht_step e d) (dht_run es)"

section \<open>The responses a node sends\<close>

definition responses :: "rpc_server \<Rightarrow> (address \<times> rpc_msg) list" where
  "responses s = filter (\<lambda>(a, m). getType m \<noteq> REQ_MSG) (rs_sent s)"

definition queue_req :: "rpc_server \<Rightarrow> bool" where
  "queue_req s \<longleftrightarrow> (\<forall>c \<in> set (rs_queue s). getType (rc_msg c) = REQ_MSG)"

lemma responses_sendMsg: "responses (sendMsg m a s) = responses s @ (if getType m = REQ_MSG then [] else [(a, m)])"
  by (simp add: responses_def sendMsg_def)

lemma doCall_responses:
  assumes "doCall m a s = Some s'" and "getType m = REQ_MSG" and "queue_req s"
  shows "responses s' = responses s \<and> queue_req s'"
  using assms by (auto simp: doCall_def responses_def queue_req_def sendMsg_def Let_def split: if_splits)

lemma queued_calls_responses:
  "queued_calls q s = Some s' \<Longrightarrow> \<forall>c \<in> set q. getType (rc_msg c) = REQ_MSG \<Longrightarrow> responses s' = responses s \<and> queue_req s'"
proof (induction q s rule: queued_calls.induct)
  case (2 c q s)
  then show ?case
    by (auto simp: bind_eq_Some_conv Let_def responses_def queue_req_def sendMsg_def split: if_splits)
qed (auto simp: responses_def queue_req_def)

lemma end_call_responses:
  assumes "end_call t s = Some s'" and "queue_req s"
  shows "responses s' = responses s \<and> queue_req s'"
  using assms queued_calls_responses [of "rs_queue s" _ s']
  by (fastforce simp: end_call_def doQueuedCalls_def queue_req_def responses_def split: option.splits)

lemma timedOut_responses:
  assumes "timedOut t s = Some s'" and "queue_req s"
  shows "responses s' = responses s \<and> queue_req s'"
  using assms end_call_responses [of t s s'] queued_calls_responses [of "rs_queue s" s s']
  by (auto simp: timedOut_def doQueuedCalls_def queue_req_def split: option.splits)

text \<open>What calls leave alone.\<close>

definition same_answers :: "dht \<Rightarrow> dht \<Rightarrow> bool" where
  "same_answers d d' \<longleftrightarrow> responses (dh_srv d') = responses (dh_srv d) \<and> queue_req (dh_srv d') \<and> dh_db d' = dh_db d \<and>
     dh_our_id d' = dh_our_id d \<and> dh_running d' = dh_running d"

lemma same_answers_trans: "same_answers d d' \<Longrightarrow> same_answers d' d'' \<Longrightarrow> same_answers d d''"
  by (simp add: same_answers_def)

lemma do_calls_answers:
  "do_calls rs d = Some d' \<Longrightarrow> \<forall>r \<in> set rs. getType (fst r) = REQ_MSG \<Longrightarrow> queue_req (dh_srv d) \<Longrightarrow> same_answers d d'"
proof (induction rs d rule: do_calls.induct)
  case (2 m a rs d)
  from "2.prems"(1) obtain s where s: "doCall m a (dh_srv d) = Some s" "do_calls rs (d\<lparr>dh_srv := s\<rparr>) = Some d'"
    by (auto simp: bind_eq_Some_conv)
  then show ?case using "2.IH" [OF s] doCall_responses [OF s(1)] "2.prems"(2,3) by (simp add: same_answers_def)
qed (simp add: same_answers_def)

lemma findOwnNode_answers: "findOwnNode d = Some d' \<Longrightarrow> queue_req (dh_srv d) \<Longrightarrow> same_answers d d'"
  by (auto simp: findOwnNode_def findNode_task_def same_answers_def split: if_splits)

lemma node_received_answers:
  assumes "node_received env m origin d = Some d'" and "queue_req (dh_srv d)"
  shows "same_answers d d'"
proof -
  let ?e = "KBucketEntry (de_now env) origin (getID m)"
  let ?d1 = "if ipVersion origin = 4 then d\<lparr>dh_ipv4 := kt_insert (de_now env) (de_srv env) ?e (dh_ipv4 d)\<rparr>
    else d\<lparr>dh_ipv6 := kt_insert (de_now env) (de_srv env) ?e (dh_ipv6 d)\<rparr>"
  from assms(1) obtain d1 d2 where d1: "do_calls (map (\<lambda>a. (PingReq [] (dh_our_id d), a)) (de_pings env)) ?d1 = Some d1"
    and d2: "(if dh_num_receives d1 + 1 = 3 then findOwnNode (d1\<lparr>dh_num_receives := dh_num_receives d1 + 1\<rparr>)
      else Some (d1\<lparr>dh_num_receives := dh_num_receives d1 + 1\<rparr>)) = Some d2"
      "d' = d2\<lparr>dh_num_entries := numEntries (dh_ipv4 d2) + numEntries (dh_ipv6 d2)\<rparr>"
    by (auto simp: node_received_def Let_def bind_eq_Some_conv)
  have "same_answers d ?d1" using assms(2) by (simp add: same_answers_def)
  moreover have a1: "same_answers ?d1 d1" using do_calls_answers [OF d1] assms(2) by auto
  moreover have "same_answers d1 d2"
    using d2(1) a1 findOwnNode_answers [of "d1\<lparr>dh_num_receives := dh_num_receives d1 + 1\<rparr>" d2] by (auto simp: same_answers_def split: if_splits)
  moreover have "same_answers d2 d'" using calculation(3) d2(2) by (simp add: same_answers_def)
  ultimately show ?thesis using same_answers_trans by blast
qed

section \<open>Tokens\<close>

definition gave_token :: "address \<Rightarrow> (address \<times> rpc_msg) list \<Rightarrow> nat" where
  "gave_token a rs = length (filter (\<lambda>(x, m). x = a \<and> (case m of GetPeersRsp _ _ _ _ _ _ \<Rightarrow> True | _ \<Rightarrow> False)) rs)"

definition accepted :: "address \<Rightarrow> (address \<times> rpc_msg) list \<Rightarrow> nat" where
  "accepted a rs = length (filter (\<lambda>(x, m). x = a \<and> (case m of AnnounceRsp _ _ \<Rightarrow> True | _ \<Rightarrow> False)) rs)"

text \<open>The tokens that an address can use now.\<close>

definition usable :: "(byte list \<Rightarrow> byte list) \<Rightarrow> address \<Rightarrow> database \<Rightarrow> byte list set" where
  "usable hash a db = {tok. \<exists>ts. db_tokens db tok = Some ts \<and> tok = hash (token_data a ts)}"

definition collision_free :: "(byte list \<Rightarrow> byte list) \<Rightarrow> address set \<Rightarrow> bool" where
  "collision_free hash A \<longleftrightarrow> (\<forall>a \<in> A. \<forall>b \<in> A. \<forall>ts. hash (token_data a ts) = hash (token_data b ts) \<longrightarrow> a = b)"

definition tokens_ok :: "(byte list \<Rightarrow> byte list) \<Rightarrow> address set \<Rightarrow> dht \<Rightarrow> bool" where
  "tokens_ok hash A d \<longleftrightarrow> queue_req (dh_srv d) \<and> finite (dom (db_tokens (dh_db d))) \<and>
     (\<forall>a \<in> A. card (usable hash a (dh_db d)) + accepted a (responses (dh_srv d)) \<le> gave_token a (responses (dh_srv d)))"

lemma counts_append [simp]:
  "gave_token a (rs @ rs') = gave_token a rs + gave_token a rs'" "accepted a (rs @ rs') = accepted a rs + accepted a rs'"
  "gave_token a [] = 0" "accepted a [] = 0"
  by (simp_all add: gave_token_def accepted_def)

lemma usable_subset: "usable hash a db \<subseteq> dom (db_tokens db)"
  by (auto simp: usable_def)

lemma tokens_ok_mono:
  assumes "tokens_ok hash A d" and "db_tokens (dh_db d') \<subseteq>\<^sub>m db_tokens (dh_db d)" and "queue_req (dh_srv d')"
    and "responses (dh_srv d') = responses (dh_srv d) @ rs" and "\<And>a. a \<in> A \<Longrightarrow> accepted a rs \<le> gave_token a rs"
  shows "tokens_ok hash A d'"
proof -
  have sub: "usable hash a (dh_db d') \<subseteq> usable hash a (dh_db d)" for a
    using assms(2) by (auto simp: usable_def map_le_def dom_def)
  have fin: "finite (dom (db_tokens (dh_db d)))" using assms(1) by (simp add: tokens_ok_def)
  have "card (usable hash a (dh_db d')) + accepted a (responses (dh_srv d')) \<le> gave_token a (responses (dh_srv d'))" if "a \<in> A" for a
  proof -
    have "card (usable hash a (dh_db d')) \<le> card (usable hash a (dh_db d))"
      by (rule card_mono [OF finite_subset [OF usable_subset fin] sub])
    moreover have "card (usable hash a (dh_db d)) + accepted a (responses (dh_srv d)) \<le> gave_token a (responses (dh_srv d))"
      using assms(1) that by (simp add: tokens_ok_def)
    ultimately show ?thesis using assms(4) assms(5) [OF that] by simp
  qed
  moreover have "finite (dom (db_tokens (dh_db d')))" using fin map_le_implies_dom_le [OF assms(2)] finite_subset by blast
  ultimately show ?thesis using assms(3) by (simp add: tokens_ok_def)
qed

lemma tokens_ok_same: "tokens_ok hash A d \<Longrightarrow> same_answers d d' \<Longrightarrow> tokens_ok hash A d'"
  by (rule tokens_ok_mono [where rs = "[]"]) (simp_all add: same_answers_def)

lemma tokens_ok_reply:
  assumes "tokens_ok hash A d" and "\<forall>t i. m \<noteq> AnnounceRsp t i"
  shows "tokens_ok hash A (reply m origin d)"
proof (rule tokens_ok_mono [OF assms(1)])
  show "queue_req (dh_srv (reply m origin d))" using assms(1) by (simp add: tokens_ok_def queue_req_def reply_def sendMsg_def)
  show "responses (dh_srv (reply m origin d)) = responses (dh_srv d) @ (if getType m = REQ_MSG then [] else [(origin, m)])"
    by (simp add: reply_def responses_sendMsg)
  show "accepted a (if getType m = REQ_MSG then [] else [(origin, m)]) \<le> gave_token a (if getType m = REQ_MSG then [] else [(origin, m)])" for a
    using assms(2) by (auto simp: accepted_def split: rpc_msg.splits)
qed (simp add: reply_def)

text \<open>A new token can be used by the address it is made for, and by no other.\<close>

lemma tokens_ok_getPeers:
  assumes ok: "tokens_ok hash A d" and A: "origin \<in> A" "collision_free hash A" and g: "genToken hash now origin (dh_db d) = (tok, db)"
  shows "tokens_ok hash A (reply (GetPeersRsp t i tok n n6 its) origin (d\<lparr>dh_db := db\<rparr>))"
proof -
  let ?d' = "reply (GetPeersRsp t i tok n n6 its) origin (d\<lparr>dh_db := db\<rparr>)"
  have tok: "tok = hash (token_data origin now)" "db = (dh_db d)\<lparr>db_tokens := (db_tokens (dh_db d))(tok \<mapsto> now)\<rparr>"
    using g by (auto simp: genToken_def Let_def)
  have fin: "finite (dom (db_tokens (dh_db d)))" using ok by (simp add: tokens_ok_def)
  have r: "responses (dh_srv ?d') = responses (dh_srv d) @ [(origin, GetPeersRsp t i tok n n6 its)]"
    by (simp add: reply_def responses_sendMsg)
  have "card (usable hash a (dh_db ?d')) + accepted a (responses (dh_srv ?d')) \<le> gave_token a (responses (dh_srv ?d'))" if a: "a \<in> A" for a
  proof -
    have "usable hash a (dh_db ?d') \<subseteq> usable hash a (dh_db d) \<union> (if a = origin then {tok} else {})"
      using A a tok by (auto simp: usable_def reply_def collision_free_def split: if_splits)
    then have "card (usable hash a (dh_db ?d')) \<le> card (usable hash a (dh_db d) \<union> (if a = origin then {tok} else {}))"
      by (intro card_mono) (use finite_subset [OF usable_subset fin] in auto)
    also have "\<dots> \<le> card (usable hash a (dh_db d)) + (if a = origin then 1 else 0)"
      using finite_subset [OF usable_subset fin, of hash a] by (auto simp: card_insert_if)
    finally have "card (usable hash a (dh_db ?d')) \<le> card (usable hash a (dh_db d)) + (if a = origin then 1 else 0)" .
    moreover have "card (usable hash a (dh_db d)) + accepted a (responses (dh_srv d)) \<le> gave_token a (responses (dh_srv d))"
      using ok a by (simp add: tokens_ok_def)
    ultimately show ?thesis unfolding r by (auto simp: gave_token_def accepted_def split: if_splits)
  qed
  moreover have "finite (dom (db_tokens (dh_db ?d')))" using fin by (simp add: reply_def tok(2))
  moreover have "queue_req (dh_srv ?d')" using ok by (simp add: tokens_ok_def queue_req_def reply_def sendMsg_def)
  ultimately show ?thesis by (simp add: tokens_ok_def)
qed

text \<open>An accepted token is used up.\<close>

lemma tokens_ok_announce:
  assumes ok: "tokens_ok hash A d" and c: "checkToken hash tok origin (dh_db d) = (True, db)"
  shows "tokens_ok hash A (reply (AnnounceRsp t i) origin (d\<lparr>dh_db := store k it db\<rparr>))"
proof -
  let ?d' = "reply (AnnounceRsp t i) origin (d\<lparr>dh_db := store k it db\<rparr>)"
  have tok: "tok \<in> usable hash origin (dh_db d)" "db = (dh_db d)\<lparr>db_tokens := (db_tokens (dh_db d))(tok := None)\<rparr>"
    using c by (auto simp: checkToken_def usable_def split: option.splits if_splits)
  have db: "db_tokens (dh_db ?d') = (db_tokens (dh_db d))(tok := None)" by (simp add: reply_def store_def Let_def tok(2))
  have fin: "finite (dom (db_tokens (dh_db d)))" using ok by (simp add: tokens_ok_def)
  have r: "responses (dh_srv ?d') = responses (dh_srv d) @ [(origin, AnnounceRsp t i)]" by (simp add: reply_def responses_sendMsg)
  have "card (usable hash a (dh_db ?d')) + accepted a (responses (dh_srv ?d')) \<le> gave_token a (responses (dh_srv ?d'))" if a: "a \<in> A" for a
  proof -
    have u: "usable hash a (dh_db ?d') = usable hash a (dh_db d) - {tok}" by (auto simp: usable_def db)
    have f: "finite (usable hash a (dh_db d))" using finite_subset [OF usable_subset fin] .
    have le: "card (usable hash a (dh_db d)) + accepted a (responses (dh_srv d)) \<le> gave_token a (responses (dh_srv d))"
      using ok a by (simp add: tokens_ok_def)
    show ?thesis
    proof (cases "a = origin")
      case True
      then have "Suc (card (usable hash a (dh_db ?d'))) = card (usable hash a (dh_db d))"
        using tok(1) card_Suc_Diff1 [OF f] unfolding u by simp
      then show ?thesis using le unfolding r by (simp add: True accepted_def)
    next
      case False
      then show ?thesis using le card_Diff1_le [of "usable hash a (dh_db d)" tok] unfolding r u by (simp add: accepted_def)
    qed
  qed
  moreover have "finite (dom (db_tokens (dh_db ?d')))" using fin by (simp add: db)
  moreover have "queue_req (dh_srv ?d')" using ok by (simp add: tokens_ok_def queue_req_def reply_def sendMsg_def)
  ultimately show ?thesis by (simp add: tokens_ok_def)
qed

lemma tokens_ok_received:
  assumes "tokens_ok hash A d" and "node_received env m origin d = Some d'"
  shows "tokens_ok hash A d'"
proof -
  have "queue_req (dh_srv d)" using assms(1) by (simp add: tokens_ok_def)
  from tokens_ok_same [OF assms(1) node_received_answers [OF assms(2) this]] show ?thesis .
qed

lemma tokens_ok_apply:
  assumes ok: "tokens_ok hash A d" and "msg_apply env m origin d = Some d'" and "de_hash env = hash"
    and A: "origin \<in> A" "collision_free hash A"
  shows "tokens_ok hash A d'"
proof -
  note step = tokens_ok_received [OF ok] tokens_ok_reply
  have resp: "tokens_ok hash A d'" if "dht_response env m origin d = Some d'" using that ok step by (auto simp: dht_response_def split: if_splits)
  show ?thesis
  proof (cases m)
    case (PingReq t i)
    then have "d' = d \<or> node_received env m origin (reply (PingRsp t (dh_our_id d)) origin d) = Some d'"
      using assms(2) by (auto simp: dht_ping_def split: if_splits)
    then show ?thesis using ok tokens_ok_received [OF tokens_ok_reply [OF ok]] by blast
  next
    case (FindNodeReq t i k w)
    then show ?thesis using assms(2) ok step by (auto simp: dht_findNode_def bind_eq_Some_conv split: if_splits)
  next
    case (GetPeersReq t i k w)
    show ?thesis
    proof (cases "d' = d")
      case False
      then obtain y and c :: node_container where y: "node_received env m origin d = Some y"
        "d' = reply (GetPeersRsp t (dh_our_id y) (fst (genToken hash (de_now env) origin (dh_db y))) (pn_nodes c) (pn_nodes6 c)
           (map it_addr (sample k [] 50 (ipVersion origin) (dh_db y)))) origin (y\<lparr>dh_db := snd (genToken hash (de_now env) origin (dh_db y))\<rparr>)"
        using GetPeersReq assms(2,3) by (auto simp: dht_getPeers_def bind_eq_Some_conv Let_def case_prod_beta split: if_splits)
      show ?thesis unfolding y(2) by (rule tokens_ok_getPeers [OF step(1) [OF y(1)] A surjective_pairing])
    qed (use ok in simp)
  next
    case (AnnounceReq t i k w p tok)
    show ?thesis
    proof (cases "d' = d")
      case False
      then obtain d1 where d1: "node_received env m origin d = Some d1"
        "d' = (let (ok, db) = checkToken (de_hash env) tok origin (dh_db d1) in
          if \<not> ok then d1\<lparr>dh_db := db\<rparr>
          else reply (AnnounceRsp (getMTID m) (dh_our_id d1)) origin (d1\<lparr>dh_db := store k (DBItem (de_now env) origin) db\<rparr>))"
        using AnnounceReq assms(2) by (auto simp: dht_announce_def split: if_splits)
      have ok1: "tokens_ok hash A d1" by (rule step(1) [OF d1(1)])
      show ?thesis
      proof (cases "checkToken (de_hash env) tok origin (dh_db d1)")
        case (Pair b db)
        have "db = dh_db d1" if "\<not> b" using Pair that by (auto simp: checkToken_def split: option.splits if_splits)
        then show ?thesis using d1(2) Pair ok1 tokens_ok_announce [OF ok1, of tok origin db] assms(3) by (cases b) auto
      qed
    qed (use ok in simp)
  qed (use assms resp in auto)
qed

lemma tokens_ok_finish:
  assumes "tokens_ok hash A d" and "finish_call env m d = Some d'" and "\<forall>r \<in> set (de_requests env). getType (fst r) = REQ_MSG"
  shows "tokens_ok hash A d'"
proof (cases "d' = d")
  case False
  then obtain d1 s where d1: "do_calls (de_requests env) d = Some d1" "end_call (getMTID m) (dh_srv d1) = Some s" "d' = d1\<lparr>dh_srv := s\<rparr>"
    using assms(2) by (auto simp: finish_call_def bind_eq_Some_conv split: if_splits)
  have q: "queue_req (dh_srv d)" using assms(1) by (simp add: tokens_ok_def)
  have s1: "same_answers d d1" by (rule do_calls_answers [OF d1(1) assms(3) q])
  moreover have "same_answers d1 d'" using end_call_responses [OF d1(2)] s1 d1(3) by (simp add: same_answers_def)
  ultimately show ?thesis using tokens_ok_same [OF assms(1)] same_answers_trans by blast
qed (use assms(1) in simp)

text \<open>The events of a run: the same hash function throughout, addresses without collisions, and only requests are called.\<close>

fun dht_event_ok :: "(byte list \<Rightarrow> byte list) \<Rightarrow> address set \<Rightarrow> dht_event \<Rightarrow> bool" where
  "dht_event_ok hash A (Datagram env dat addr) = (de_hash env = hash \<and> msg_origin addr \<in> A \<and> (\<forall>r \<in> set (de_requests env). getType (fst r) = REQ_MSG))"
| "dht_event_ok hash A (Client_call m a) = (getType m = REQ_MSG)"
| "dht_event_ok hash A e = True"

lemma fold_store_tokens: "db_tokens (fold (store k) its db) = db_tokens db"
  by (induction its arbitrary: db) (simp_all add: store_def Let_def)

lemma tokens_ok_step:
  assumes ok: "tokens_ok hash A d" and "dht_step e d = Some d'" and "dht_event_ok hash A e" and "collision_free hash A"
  shows "tokens_ok hash A d'"
proof -
  have q: "queue_req (dh_srv d)" using ok by (simp add: tokens_ok_def)
  note same = tokens_ok_same [OF ok]
  show ?thesis
  proof (cases e)
    case (Datagram env dat addr)
    then consider "d' = d" | m d1 where "msg_apply env m (msg_origin addr) d = Some d1" "finish_call env m d1 = Some d'"
      using assms(2) by (auto simp: dataReceived_def bind_eq_Some_conv split: sum.splits option.splits rpc_error.splits prod.splits)
    then show ?thesis
    proof cases
      case 2
      then show ?thesis using tokens_ok_finish [OF tokens_ok_apply [OF ok] 2(2)] Datagram assms(3,4) by auto
    qed (use ok in simp)
  next
    case (Call_timeout t)
    define d1 where "d1 = (case map_of (rs_calls (dh_srv d)) t of Some c \<Rightarrow> node_onTimeout (rc_dest c) d | None \<Rightarrow> d)"
    have d1: "same_answers d d1" "dh_srv d1 = dh_srv d" using q by (auto simp: d1_def same_answers_def node_onTimeout_def split: option.splits)
    obtain s where s: "timedOut t (dh_srv d1) = Some s" "d' = d1\<lparr>dh_srv := s\<rparr>"
      using Call_timeout assms(2) by (auto simp: call_timeout_def Let_def d1_def [symmetric])
    have "same_answers d1 d'" using timedOut_responses [OF s(1)] d1(2) q s(2) by (simp add: same_answers_def)
    then show ?thesis using same same_answers_trans [OF d1(1)] by blast
  next
    case (Client_call m a)
    then show ?thesis using same do_calls_answers [of "[(m, a)]" d d'] assms(2,3) q by simp
  next
    case (Items_stored k its)
    then show ?thesis using assms(2) q by (intro tokens_ok_mono [OF ok, where rs = "[]"]) (auto simp: fold_store_tokens)
  next
    case (Expiry now)
    then show ?thesis using assms(2) q
      by (intro tokens_ok_mono [OF ok, where rs = "[]"]) (auto simp: expireDatabaseItems_def expire_def map_le_def split: option.splits if_splits)
  next
    case (Tables_refreshed now l4 l6)
    then show ?thesis using assms(2) q by (intro same) (auto simp: node_refreshBuckets_def same_answers_def)
  next
    case Lookup_finished
    then show ?thesis using assms(2) q by (intro same) (auto simp: ownNodeLookupFinished_def same_answers_def)
  qed
qed

lemma tokens_ok_run:
  "dht_run es d = Some d' \<Longrightarrow> tokens_ok hash A d \<Longrightarrow> \<forall>e \<in> set es. dht_event_ok hash A e \<Longrightarrow> collision_free hash A \<Longrightarrow> tokens_ok hash A d'"
proof (induction es arbitrary: d)
  case (Cons e es)
  then show ?case using tokens_ok_step [of hash A d e] by (auto simp: bind_eq_Some_conv)
qed simp

lemma tokens_ok_started: "tokens_ok hash A (DHT_started our_id)"
  by (simp add: tokens_ok_def DHT_started_def queue_req_def RPCServer_new_def responses_def Database_new_def usable_def)

text \<open>C7. Only addresses that asked first can announce: whatever datagrams arrive, timers fire and calls are made, a node accepts from an
  address at most as many announcements as it has sent tokens to this address, provided that no
  two of the addresses it hears from have the same token at the same time.
\<close>

theorem announcements_need_tokens:
  assumes "dht_run es (DHT_started our_id) = Some d" and "\<forall>e \<in> set es. dht_event_ok hash A e" and "collision_free hash A" and "a \<in> A"
  shows "accepted a (responses (dh_srv d)) \<le> gave_token a (responses (dh_srv d))"
proof -
  have "card (usable hash a (dh_db d)) + accepted a (responses (dh_srv d)) \<le> gave_token a (responses (dh_srv d))"
    using tokens_ok_run [OF assms(1) tokens_ok_started assms(2,3)] assms(4) by (simp add: tokens_ok_def)
  then show ?thesis by simp
qed

section \<open>Datagrams\<close>

lemma dataReceived_message:
  assumes "qt_decimal (de_number env) (de_to_int env) (de_to_long_long env)" and "plain_msg m" and "getMTID m \<noteq> []"
    and "getType m = RSP_MSG \<longrightarrow> findMethod (dh_srv d) (getMTID m) = getMethod m" and "length (rpc_encode (de_number env) m) < 2 ^ 31"
  shows "dataReceived env (rpc_encode (de_number env) m) addr d = Option.bind (msg_apply env m (msg_origin addr) d) (finish_call env m)"
  using rpc_message_roundtrip [of _ _ _ m "findMethod (dh_srv d)", OF assms] by (auto simp: dataReceived_def)

text \<open>A run in which an address asks for peers and announces itself with the token it got.\<close>

definition sample_dht_env :: dht_env where
  "sample_dht_env = \<lparr>de_now = 5, de_hash = (\<lambda>x. x), de_number = ref_number, de_to_int = ref_to_int, de_to_long_long = ref_to_long_long,
     de_srv = (\<lambda>_. None), de_pings = [], de_requests = []\<rparr>"

definition asks_and_announces :: "dht_event list" where
  "asks_and_announces =
     [Datagram sample_dht_env (rpc_encode ref_number (GetPeersReq [1] (Key 7 0 0 0 0) (Key 9 0 0 0 0) [])) (IPv4 2 3),
      Datagram sample_dht_env (rpc_encode ref_number (AnnounceReq [2] (Key 7 0 0 0 0) (Key 9 0 0 0 0) [] 4 (token_data (IPv4 2 3) 5))) (IPv4 2 3)]"

lemma dht_run_two: "dht_run [a, b] d = Option.bind (dht_step a d) (\<lambda>d. dht_step b d)"
proof -
  have "dht_run [] = Some" by (simp add: fun_eq_iff)
  then show ?thesis by (cases "dht_step a d") simp_all
qed

lemma asks_and_announces_run:
  "map_option (\<lambda>d. (map fst (responses (dh_srv d)), accepted (IPv4 2 3) (responses (dh_srv d)), db_items (dh_db d) (Key 9 0 0 0 0)))
     (dht_run asks_and_announces (DHT_started Key_min)) = Some ([IPv4 2 3, IPv4 2 3], 1, Some [DBItem 5 (IPv4 2 3)])"
proof -
  have l: "length (rpc_encode ref_number m) < 2 ^ 31" if "m = GetPeersReq [1] (Key 7 0 0 0 0) (Key 9 0 0 0 0) [] \<or>
    m = AnnounceReq [2] (Key 7 0 0 0 0) (Key 9 0 0 0 0) [] 4 (token_data (IPv4 2 3) 5)" for m
    using that by (auto simp: rpc_encode_tree msg_btree_def bytes_of_def string_of_def ref_number.simps token_data_bytes
        simp del: rpc_encode.simps)
  have q: "qt_decimal (de_number sample_dht_env) (de_to_int sample_dht_env) (de_to_long_long sample_dht_env)" "de_number sample_dht_env = ref_number"
    using ref_dec.qt_decimal_axioms by (simp_all add: sample_dht_env_def)
  have o: "msg_origin (IPv4 2 3) = IPv4 2 3" by (simp add: msg_origin_def)
  have t: "length (token_data (IPv4 2 3) 5) \<le> MAX_TOKEN_SIZE" by (simp add: token_data_bytes MAX_TOKEN_SIZE_def)
  have r: "dataReceived sample_dht_env (rpc_encode ref_number m) (IPv4 2 3) d = Option.bind (msg_apply sample_dht_env m (IPv4 2 3) d) (finish_call sample_dht_env m)"
    if "m = GetPeersReq [1] (Key 7 0 0 0 0) (Key 9 0 0 0 0) [] \<or> m = AnnounceReq [2] (Key 7 0 0 0 0) (Key 9 0 0 0 0) [] 4 (token_data (IPv4 2 3) 5)" for m d
    using dataReceived_message [OF q(1), of m d "IPv4 2 3"] l [OF that] t that unfolding q(2) o by auto
  note r = r [OF disjI1 [OF refl]] r [OF disjI2 [OF refl]]
  have e: "dht_run asks_and_announces d =
      Option.bind (Option.bind (msg_apply sample_dht_env (GetPeersReq [1] (Key 7 0 0 0 0) (Key 9 0 0 0 0) []) (IPv4 2 3) d)
        (finish_call sample_dht_env (GetPeersReq [1] (Key 7 0 0 0 0) (Key 9 0 0 0 0) []))) (\<lambda>d.
      Option.bind (msg_apply sample_dht_env (AnnounceReq [2] (Key 7 0 0 0 0) (Key 9 0 0 0 0) [] 4 (token_data (IPv4 2 3) 5)) (IPv4 2 3) d)
        (finish_call sample_dht_env (AnnounceReq [2] (Key 7 0 0 0 0) (Key 9 0 0 0 0) [] 4 (token_data (IPv4 2 3) 5))))" for d
    unfolding asks_and_announces_def dht_run_two dht_step.simps r by (rule refl)
  show ?thesis unfolding e by code_simp
qed

theorem announcements_need_tokens_witness:
  "\<exists>d. dht_run asks_and_announces (DHT_started Key_min) = Some d \<and> accepted (IPv4 2 3) (responses (dh_srv d)) = 1 \<and>
     1 \<le> gave_token (IPv4 2 3) (responses (dh_srv d))"
proof -
  obtain d where d: "dht_run asks_and_announces (DHT_started Key_min) = Some d" "accepted (IPv4 2 3) (responses (dh_srv d)) = 1"
    using asks_and_announces_run by auto
  have "collision_free (\<lambda>x. x) {IPv4 2 3}" by (simp add: collision_free_def)
  moreover have "\<forall>e \<in> set asks_and_announces. dht_event_ok (\<lambda>x. x) {IPv4 2 3} e"
    by (simp add: asks_and_announces_def sample_dht_env_def msg_origin_def)
  ultimately show ?thesis using announcements_need_tokens [OF d(1), of "\<lambda>x. x" "{IPv4 2 3}" "IPv4 2 3"] d by auto
qed

section \<open>Answers to find\_node\<close>

text \<open>The nodes a node can name to somebody with these wishes.\<close>

definition known_nodes :: "u32 \<Rightarrow> dht \<Rightarrow> kb_entry list" where
  "known_nodes want d = (if and want WANT_IPV4 \<noteq> 0 then concat (map kb_entries (kt_buckets (dh_ipv4 d))) else []) @
     (if and want WANT_IPV6 \<noteq> 0 then concat (map kb_entries (kt_buckets (dh_ipv6 d))) else [])"

lemma node_find_closest:
  assumes "distinct (map ke_id (known_nodes want d))" and "0 < n"
  shows "node_findKClosestNodes (KClosestNodesSearch k n) want d = Some (closest_so_far k n (known_nodes want d))"
proof -
  have new: "KClosestNodesSearch k n = closest_so_far k n []" by (simp add: KClosestNodesSearch_def closest_so_far_def)
  show ?thesis
    using assms try_all_closest [of _ _ n k] unfolding new node_findKClosestNodes_def kt_find_all known_nodes_def
    by (cases "and want WANT_IPV4 \<noteq> 0"; cases "and want WANT_IPV6 \<noteq> 0") (simp_all add: try_all_closest)
qed

definition named_node :: "kb_entry \<Rightarrow> address \<times> key" where
  "named_node e = (ke_addr e, ke_id e)"

lemma packed_closest:
  "\<exists>n n6. kns_pack (closest_so_far k m es) \<lparr>pn_nodes = [], pn_nodes6 = []\<rparr> = Some \<lparr>pn_nodes = n, pn_nodes6 = n6\<rparr> \<and>
     map named_node (received_nodes now 4 n) = map named_node (filter (\<lambda>e. ipVersion (ke_addr e) = 4) (take (unat m) (sort_key (dist k) es))) \<and>
     map named_node (received_nodes now 6 n6) = map named_node (filter (\<lambda>e. ipVersion (ke_addr e) = 6) (take (unat m) (sort_key (dist k) es)))"
proof -
  let ?es = "take (unat m) (sort_key (dist k) es)"
  have six: "ipVersion a \<noteq> 4 \<longleftrightarrow> ipVersion a = 6" for a by (cases a) simp_all
  have r: "map named_node (received_nodes now v (concat (map packed (filter (\<lambda>e. ipVersion (ke_addr e) = v) ?es)))) =
      map named_node (filter (\<lambda>e. ipVersion (ke_addr e) = v) ?es)" if "v = 4 \<or> v = 6" for v
    by (subst received_packed) (use that in \<open>auto simp: named_node_def KBucketEntry_def\<close>)
  show ?thesis
    using r [of 4] r [of 6] by (simp add: kns_pack_def pack_nodes_bytes closest_so_far_def comp_def six)
qed

text \<open>C19. When the nodes that it knows have different identifiers, a node answers a \<^verbatim>\<open>find_node\<close> request with the twenty of them that are closest to
  the target, of the address families the sender has asked for or uses: the two strings of the answer unpack to exactly these nodes, the
  IPv4 nodes and the IPv6 nodes, each sorted by distance. An answer with at least one IPv4 node is rebuilt unchanged by the receiver from
  the bytes of the datagram (one with only IPv6 nodes is refused, \<open>nodes6_only_refused\<close>).
\<close>

theorem find_node_answer:
  assumes "dh_running d" and "i \<noteq> dh_our_id d" and "node_received env (FindNodeReq t i target want) origin d = Some d1"
    and "distinct (map ke_id (known_nodes (wanted_families env want origin) d1))"
    and "closest = take 20 (sort_key (\<lambda>e. distance target (ke_id e)) (known_nodes (wanted_families env want origin) d1))"
  shows "\<exists>n n6. msg_apply env (FindNodeReq t i target want) origin d = Some (reply (FindNodeRsp t (dh_our_id d1) n n6) origin d1) \<and>
    map named_node (received_nodes now 4 n) = map named_node (filter (\<lambda>e. ipVersion (ke_addr e) = 4) closest) \<and>
    map named_node (received_nodes now 6 n6) = map named_node (filter (\<lambda>e. ipVersion (ke_addr e) = 6) closest) \<and>
    (qt_decimal number to_int to_long_long \<and> n \<noteq> [] \<and> t \<noteq> [] \<and> findMethod srv t = FIND_NODE \<and>
       length (rpc_encode number (FindNodeRsp t (dh_our_id d1) n n6)) < 2 ^ 31 \<longrightarrow>
     (\<exists>dict. decodeDict to_int to_long_long (string_of (rpc_encode number (FindNodeRsp t (dh_our_id d1) n n6))) 0 =
         Inr (Some dict, length (rpc_encode number (FindNodeRsp t (dh_our_id d1) n n6))) \<and>
       rpc_build (findMethod srv) dict = Inr (Some (FindNodeRsp t (dh_our_id d1) n n6))))"
proof -
  have K: "of_nat K = (20 :: u32)" "unat (20 :: u32) = 20" by (simp_all add: K_def)
  have c: "closest_packed env target want origin d1 = kns_pack (closest_so_far target 20 (known_nodes (wanted_families env want origin) d1)) \<lparr>pn_nodes = [], pn_nodes6 = []\<rparr>"
    using node_find_closest [OF assms(4), of 20 target] by (simp add: closest_packed_def K)
  from packed_closest [of target 20 "known_nodes (wanted_families env want origin) d1" now] obtain n n6 where
    n: "closest_packed env target want origin d1 = Some \<lparr>pn_nodes = n, pn_nodes6 = n6\<rparr>"
      "map named_node (received_nodes now 4 n) = map named_node (filter (\<lambda>e. ipVersion (ke_addr e) = 4) closest)"
      "map named_node (received_nodes now 6 n6) = map named_node (filter (\<lambda>e. ipVersion (ke_addr e) = 6) closest)"
    unfolding c assms(5) K by blast
  have "msg_apply env (FindNodeReq t i target want) origin d = Some (reply (FindNodeRsp t (dh_our_id d1) n n6) origin d1)"
    using n(1) assms(1,2,3) by (simp add: dht_findNode_def)
  moreover have "\<exists>dict. decodeDict to_int to_long_long (string_of (rpc_encode number (FindNodeRsp t (dh_our_id d1) n n6))) 0 =
         Inr (Some dict, length (rpc_encode number (FindNodeRsp t (dh_our_id d1) n n6))) \<and>
       rpc_build (findMethod srv) dict = Inr (Some (FindNodeRsp t (dh_our_id d1) n n6))"
    if "qt_decimal number to_int to_long_long" "n \<noteq> []" "t \<noteq> []" "findMethod srv t = FIND_NODE"
      "length (rpc_encode number (FindNodeRsp t (dh_our_id d1) n n6)) < 2 ^ 31"
    using rpc_message_roundtrip [OF that(1) _ _ _ that(5)] that(2-4) by simp
  ultimately show ?thesis using n(2,3) by blast
qed

theorem find_node_answer_witness:
  "\<exists>d n n6. msg_apply sample_dht_env (FindNodeReq [1] (Key 7 0 0 0 0) (Key 9 0 0 0 0) []) (IPv4 2 3) (DHT_started Key_min) =
      Some (reply (FindNodeRsp [1] Key_min n n6) (IPv4 2 3) d) \<and> map named_node (received_nodes 0 4 n) = [(IPv4 2 3, Key 7 0 0 0 0)]"
proof -
  let ?r = "node_received sample_dht_env (FindNodeReq [1] (Key 7 0 0 0 0) (Key 9 0 0 0 0) []) (IPv4 2 3) (DHT_started Key_min)"
  have "map_option (known_nodes (wanted_families sample_dht_env [] (IPv4 2 3))) ?r = Some [KBucketEntry 5 (IPv4 2 3) (Key 7 0 0 0 0)]"
    "map_option dh_our_id ?r = Some Key_min" by code_simp+
  then obtain d1 where d1: "?r = Some d1" "known_nodes (wanted_families sample_dht_env [] (IPv4 2 3)) d1 = [KBucketEntry 5 (IPv4 2 3) (Key 7 0 0 0 0)]"
    "dh_our_id d1 = Key_min" by auto
  have "Key 7 0 0 0 0 \<noteq> dh_our_id (DHT_started Key_min)" "dh_running (DHT_started Key_min)" by code_simp+
  moreover have "distinct (map ke_id (known_nodes (wanted_families sample_dht_env [] (IPv4 2 3)) d1))" by (simp add: d1(2))
  ultimately obtain n n6 where
    n: "msg_apply sample_dht_env (FindNodeReq [1] (Key 7 0 0 0 0) (Key 9 0 0 0 0) []) (IPv4 2 3) (DHT_started Key_min) =
        Some (reply (FindNodeRsp [1] Key_min n n6) (IPv4 2 3) d1)"
      "map named_node (received_nodes 0 4 n) = map named_node (filter (\<lambda>e. ipVersion (ke_addr e) = 4)
        (take 20 (sort_key (dist (Key 9 0 0 0 0)) [KBucketEntry 5 (IPv4 2 3) (Key 7 0 0 0 0)])))"
    using find_node_answer [OF _ _ d1(1) _ refl, of 0, unfolded d1(3)] unfolding d1(2) by blast
  have "map named_node (received_nodes 0 4 n) = [(IPv4 2 3, Key 7 0 0 0 0)]" unfolding n(2) by (simp add: named_node_def KBucketEntry_def)
  with n(1) show ?thesis by (intro exI conjI)
qed

end
