(* ===== verification/Torrent.thy ===== *)
theory Torrent
  imports Bcodec "HOL-Library.Sublist"
begin

text \<open>
  A torrent and its files: \<^verbatim>\<open>src/src/torrent/torrent.cpp\<close>, \<^verbatim>\<open>torrentfile.cpp\<close> and
  \<^verbatim>\<open>src/src/interfaces/torrentfileinterface.cpp\<close>. A torrent is loaded from its bencoded description; the files lie
  one behind the other and are cut into chunks of one size, so a chunk may lie in several files and a file in several chunks.
  \<open>calcChunkPos\<close> finds the files of a chunk with a binary search that starts at a position remembered from the call before; it is
  shown to find exactly the files that share a byte with the chunk, whatever was asked before.

  Numbers of chunks and files are natural numbers, cut to 32 bits where the code converts: there are at most \<^verbatim>\<open>INT_MAX\<close> of each,
  the size of a \<^verbatim>\<open>QList\<close>. Qt's UTF-8 decoding, the check of an URL and SHA-1 are parameters; notifications of the
  user interface are left out.
\<close>

section \<open>Priorities\<close>

datatype priority = FIRST_PREVIEW_PRIORITY | FIRST_PRIORITY | NORMAL_PREVIEW_PRIORITY | NORMAL_PRIORITY
  | LAST_PREVIEW_PRIORITY | LAST_PRIORITY | ONLY_SEED_PRIORITY | EXCLUDED

fun prio_value :: "priority \<Rightarrow> nat" where
  "prio_value FIRST_PREVIEW_PRIORITY = 55"
| "prio_value FIRST_PRIORITY = 50"
| "prio_value NORMAL_PREVIEW_PRIORITY = 45"
| "prio_value NORMAL_PRIORITY = 40"
| "prio_value LAST_PREVIEW_PRIORITY = 35"
| "prio_value LAST_PRIORITY = 30"
| "prio_value ONLY_SEED_PRIORITY = 20"
| "prio_value EXCLUDED = 10"

lemma prio_value_inj: "prio_value p = prio_value q \<Longrightarrow> p = q"
  by (cases p; cases q) simp_all

instantiation priority :: linorder
begin

definition less_eq_priority :: "priority \<Rightarrow> priority \<Rightarrow> bool" where
  "less_eq_priority p q \<longleftrightarrow> prio_value p \<le> prio_value q"

definition less_priority :: "priority \<Rightarrow> priority \<Rightarrow> bool" where
  "less_priority p q \<longleftrightarrow> prio_value p < prio_value q"

instance
  by standard (auto simp: less_eq_priority_def less_priority_def intro: prio_value_inj)

end

lemmas priority_le_defs = less_eq_priority_def less_priority_def

section \<open>Files\<close>

datatype file_type = AUDIO | VIDEO | NORMAL_FILE

record torrent_file =
  tf_index :: nat
  tf_path :: string
  unencoded_path :: "string list"
  tf_size :: u64
  cache_offset :: u64
  first_chunk :: nat
  first_chunk_off :: u64
  last_chunk :: nat
  tf_last_chunk_size :: u64
  tf_priority :: priority
  old_priority :: priority
  missing :: bool
  num_chunks_downloaded :: nat
  preview :: bool
  preexisting :: bool
  emit_status_changed :: bool

text \<open>A division by zero ends the program; the caller of the constructor has to rule it out.\<close>

definition TorrentFile :: "nat \<Rightarrow> string \<Rightarrow> u64 \<Rightarrow> u64 \<Rightarrow> u64 \<Rightarrow> torrent_file" where
  "TorrentFile idx path off sz csize =
     (let fc = unat (ucast (off div csize) :: u32);
          lc = (if sz > 0 then unat (ucast ((off + sz - 1) div csize) :: u32) else fc)
      in \<lparr>tf_index = idx, tf_path = path, unencoded_path = [], tf_size = sz, cache_offset = off, first_chunk = fc,
          first_chunk_off = off mod csize, last_chunk = lc, tf_last_chunk_size = off + sz - of_nat lc * csize,
          tf_priority = NORMAL_PRIORITY, old_priority = NORMAL_PRIORITY, missing = False, num_chunks_downloaded = 0,
          preview = False, preexisting = False, emit_status_changed = True\<rparr>)"

text \<open>\<^verbatim>\<open>doNotDownload\<close>, and the type of a file: the database of MIME types is a parameter, \<^verbatim>\<open>filetype\<close> only remembers its answer.\<close>

definition doNotDownload :: "torrent_file \<Rightarrow> bool" where
  "doNotDownload tf \<longleftrightarrow> tf_priority tf = EXCLUDED"

definition isMultimedia :: "(string \<Rightarrow> file_type) \<Rightarrow> torrent_file \<Rightarrow> bool" where
  "isMultimedia mime tf \<longleftrightarrow> mime (tf_path tf) = AUDIO \<or> mime (tf_path tf) = VIDEO"

definition isVideo :: "(string \<Rightarrow> file_type) \<Rightarrow> torrent_file \<Rightarrow> bool" where
  "isVideo mime tf \<longleftrightarrow> mime (tf_path tf) = VIDEO"

text \<open>The place of a chunk in a file.\<close>

definition fileOffset :: "torrent_file \<Rightarrow> nat \<Rightarrow> u64 \<Rightarrow> u64" where
  "fileOffset tf cindex csize =
     (if first_chunk_off tf = 0 then of_nat (cindex - first_chunk tf) * csize
      else (if cindex - first_chunk tf > 0 then of_nat (cindex - first_chunk tf - 1) * csize else 0) +
           (if cindex > 0 then csize - first_chunk_off tf else 0))"

section \<open>The torrent\<close>

record torrent =
  name_suggestion :: string
  unencoded_name :: string
  comments :: string
  tor_metadata :: string
  tor_info_hash :: string
  hash_pieces :: "string list"
  tor_files :: "torrent_file list"
  tor_nodes :: "(string \<times> int) list"
  web_seeds :: "string list"
  trackers :: "string list list option"
  tor_chunk_size :: u64
  tor_last_chunk_size :: u64
  total_size :: u64
  pos_cache_chunk :: nat
  pos_cache_file :: nat
  priv_torrent :: bool
  tor_loaded :: bool
  at_empty :: bool

definition Torrent_new :: torrent where
  "Torrent_new = \<lparr>name_suggestion = [], unencoded_name = [], comments = [], tor_metadata = [], tor_info_hash = [], hash_pieces = [],
     tor_files = [], tor_nodes = [], web_seeds = [], trackers = None, tor_chunk_size = 0, tor_last_chunk_size = 0, total_size = 0,
     pos_cache_chunk = 0, pos_cache_file = 0, priv_torrent = False, tor_loaded = False, at_empty = False\<rparr>"

definition getNumChunks :: "torrent \<Rightarrow> nat" where
  "getNumChunks tor = length (hash_pieces tor)"

definition isMultiFile :: "torrent \<Rightarrow> bool" where
  "isMultiFile tor \<longleftrightarrow> tor_files tor \<noteq> []"

definition verifyHash :: "torrent \<Rightarrow> string \<Rightarrow> nat \<Rightarrow> bool" where
  "verifyHash tor h index = (if index \<ge> length (hash_pieces tor) then False else hash_pieces tor ! index = h)"

definition getNumTrackerURLs :: "torrent \<Rightarrow> nat" where
  "getNumTrackerURLs tor = (case trackers tor of None \<Rightarrow> 0 | Some tiers \<Rightarrow> sum_list (map length tiers))"

section \<open>The files of a chunk\<close>

text \<open>
  The binary search of \<^verbatim>\<open>calcChunkPos\<close>, from \<^verbatim>\<open>start\<close> to \<^verbatim>\<open>end\<close>; it ends at a file of the chunk, from which
  \<open>first_of_run\<close> goes back to the first one, or where the range is exhausted. \<open>collect_files\<close> is the loop behind it.
\<close>

definition in_chunks :: "torrent_file \<Rightarrow> nat \<Rightarrow> bool" where
  "in_chunks tf chunk \<longleftrightarrow> first_chunk tf \<le> chunk \<and> chunk \<le> last_chunk tf"

fun first_of_run :: "torrent_file list \<Rightarrow> nat \<Rightarrow> nat \<Rightarrow> nat" where
  "first_of_run fs chunk 0 = 0"
| "first_of_run fs chunk (Suc i) = (if in_chunks (fs ! i) chunk then first_of_run fs chunk i else Suc i)"

function chunk_search :: "torrent_file list \<Rightarrow> nat \<Rightarrow> nat \<Rightarrow> nat \<Rightarrow> nat" where
  "chunk_search fs chunk start fin =
     (let mid = start + (fin - start) div 2 in
      if start = mid \<or> mid = fin then mid
      else if in_chunks (fs ! mid) chunk then first_of_run fs chunk mid
      else if chunk > last_chunk (fs ! mid) then chunk_search fs chunk (mid + 1) fin
      else chunk_search fs chunk start (mid - 1))"
  by pat_completeness auto
termination
  by (relation "measure (\<lambda>(fs, chunk, start, fin). fin - start)") (simp_all, presburger+)

declare chunk_search.simps [simp del]

fun collect_files :: "nat \<Rightarrow> nat \<Rightarrow> torrent_file list \<Rightarrow> nat list \<Rightarrow> nat list" where
  "collect_files max_files chunk [] acc = acc"
| "collect_files max_files chunk (f # fs) acc =
     (if in_chunks f chunk \<and> tf_size f \<noteq> 0 then
        (let acc' = acc @ [tf_index f] in if length acc' \<ge> max_files then acc' else collect_files max_files chunk fs acc')
      else if chunk < first_chunk f then acc
      else collect_files max_files chunk fs acc)"

definition INT_MAX :: nat where
  "INT_MAX = 2 ^ 31 - 1"

text \<open>\<^verbatim>\<open>file_list.at(0)\<close> of an empty list is out of bounds; \<open>at_empty\<close> records that it happened.\<close>

definition calcChunkPos :: "nat \<Rightarrow> nat \<Rightarrow> torrent \<Rightarrow> nat list \<times> torrent" where
  "calcChunkPos max_files chunk tor =
     (if chunk \<ge> getNumChunks tor \<or> tor_files tor = [] then ([], tor)
      else let start = (if chunk \<ge> pos_cache_chunk tor then pos_cache_file tor else 0);
               mid = chunk_search (tor_files tor) chunk start (length (tor_files tor) - 1);
               l = collect_files max_files chunk (drop mid (tor_files tor)) []
           in (l, tor\<lparr>pos_cache_chunk := chunk, pos_cache_file := (case l of [] \<Rightarrow> 0 | i # _ \<Rightarrow> i),
                      at_empty := at_empty tor \<or> l = []\<rparr>))"

section \<open>Loading\<close>

text \<open>
  What Qt and the hash function answer: \<open>utf8\<close> is \<^verbatim>\<open>QString::fromUtf8\<close>, \<open>url_ok\<close> is \<^verbatim>\<open>QUrl::isValid\<close>; a URL is kept as its text.
\<close>

record load_env =
  le_to_int :: "string \<Rightarrow> int option"
  le_to_long_long :: "string \<Rightarrow> int option"
  utf8 :: "string \<Rightarrow> string"
  url_ok :: "string \<Rightarrow> bool"
  sha1 :: "string \<Rightarrow> string"

datatype load_error = Corrupted_torrent | Access access_error | Not_bencoded decode_error
  | Division_by_zero | Slice_out_of_range | Uninitialised_read

definition from_access :: "access_error + 'a \<Rightarrow> load_error + 'a" where
  "from_access r = (case r of Inl e \<Rightarrow> Inl (Access e) | Inr x \<Rightarrow> Inr x)"

fun split_on :: "char \<Rightarrow> string \<Rightarrow> string list" where
  "split_on c [] = [[]]"
| "split_on c (x # xs) = (if x = c then [] # split_on c xs else (case split_on c xs of p # ps \<Rightarrow> (x # p) # ps | [] \<Rightarrow> [[x]]))"

fun join_with :: "string \<Rightarrow> string list \<Rightarrow> string" where
  "join_with sep [] = []"
| "join_with sep [p] = p"
| "join_with sep (p # ps) = p @ sep @ join_with sep ps"

definition SanityzeName :: "string \<Rightarrow> string" where
  "SanityzeName name =
     (let r1 = (if name \<noteq> [] \<and> last name = CHR ''/'' then butlast name else name);
          r2 = (if r1 \<noteq> [] \<and> hd r1 = CHR ''/'' then tl r1 else r1)
      in if CHR ''/'' \<in> set r2 \<or> sublist ''..'' r2
         then join_with ''_'' (filter (\<lambda>p. p \<noteq> ''..'') (split_on CHR ''/'' r2)) else r2)"

definition checkPathForDirectoryTraversal :: "string \<Rightarrow> bool" where
  "checkPathForDirectoryTraversal p \<longleftrightarrow> ''..'' \<notin> set (split_on CHR ''/'' p)"

fun load_path :: "load_env \<Rightarrow> bnode list \<Rightarrow> access_error + (string \<times> string list)" where
  "load_path env [] = Inr ([], [])"
| "load_path env (n # ns) = rbind (value_bytes (as_value (Some n))) (\<lambda>v.
     rbind (load_path env ns) (\<lambda>(path, parts).
       Inr (filter (\<lambda>c. c \<noteq> CHR 0x0A) (utf8 env v) @ (if ns \<noteq> [] then ''/'' else []) @ path, v # parts)))"

text \<open>The loop of \<^verbatim>\<open>loadFiles\<close>, with the next index; the constructor of \<^verbatim>\<open>TorrentFile\<close> divides by the chunk size.\<close>

fun loadFiles :: "load_env \<Rightarrow> bnode list \<Rightarrow> nat \<Rightarrow> torrent \<Rightarrow> load_error + torrent" where
  "loadFiles env [] idx tor = Inr tor"
| "loadFiles env (n # ns) idx tor = (case as_dict (Some n) of
     None \<Rightarrow> Inl Corrupted_torrent
   | Some d \<Rightarrow> (case getList d ''path'' of
       None \<Rightarrow> Inl Corrupted_torrent
     | Some ln \<Rightarrow> rbind (from_access (load_path env ln)) (\<lambda>(path, parts).
         if path \<noteq> [] \<and> last path = CHR ''/'' then loadFiles env ns idx tor
         else if \<not> checkPathForDirectoryTraversal path then Inl Corrupted_torrent
         else rbind (from_access (dict_getInt64 d ''length'')) (\<lambda>len.
           let s = word_of_int len in
           if tor_chunk_size tor = 0 then Inl Division_by_zero
           else loadFiles env ns (idx + 1)
             (tor\<lparr>tor_files := tor_files tor @
                [(TorrentFile idx path (total_size tor) s (tor_chunk_size tor))\<lparr>unencoded_path := parts\<rparr>],
              total_size := total_size tor + s\<rparr>)))))"

text \<open>The loop of \<^verbatim>\<open>loadHash\<close>: \<^verbatim>\<open>sliced(i, 20)\<close> asserts that twenty bytes are left.\<close>

function cut_hashes :: "string \<Rightarrow> load_error + string list" where
  "cut_hashes s = (if s = [] then Inr [] else if length s < 20 then Inl Slice_out_of_range
     else rbind (cut_hashes (drop 20 s)) (\<lambda>hs. Inr (take 20 s # hs)))"
  by pat_completeness auto
termination
  by (relation "measure length") auto

declare cut_hashes.simps [simp del]

definition loadHash :: "bdict \<Rightarrow> torrent \<Rightarrow> load_error + torrent" where
  "loadHash d tor = rbind (from_access (dict_getByteArray d ''pieces'')) (\<lambda>hash_string.
     rbind (cut_hashes hash_string) (\<lambda>hs. Inr (tor\<lparr>hash_pieces := hash_pieces tor @ hs\<rparr>)))"

definition load_private :: "bdict \<Rightarrow> torrent \<Rightarrow> load_error + torrent" where
  "load_private d tor = (case getValue d ''private'' of
     None \<Rightarrow> Inr tor
   | Some v \<Rightarrow> (case toInt v of
       None \<Rightarrow> Inl Uninitialised_read
     | Some i \<Rightarrow> Inr (if i = 1 then tor\<lparr>priv_torrent := True\<rparr> else tor)))"

definition check_chunks :: "torrent \<Rightarrow> load_error + torrent" where
  "check_chunks tor =
     (if tor_chunk_size tor = 0 then Inl Division_by_zero
      else let num_chunks = ucast (total_size tor div tor_chunk_size tor) :: u32;
               rest = total_size tor mod tor_chunk_size tor;
               num = (if rest > 0 then num_chunks + 1 else num_chunks)
           in if num \<noteq> of_nat (length (hash_pieces tor)) then Inl Corrupted_torrent
              else Inr (tor\<lparr>tor_last_chunk_size := (if rest > 0 then rest else tor_chunk_size tor)\<rparr>))"

definition load_content :: "load_env \<Rightarrow> bdict \<Rightarrow> torrent \<Rightarrow> load_error + torrent" where
  "load_content env d tor = (case getList d ''files'' of
     Some fl \<Rightarrow> loadFiles env fl 0 tor
   | None \<Rightarrow> rbind (from_access (dict_getInt64 d ''length'')) (\<lambda>len. Inr (tor\<lparr>total_size := word_of_int len\<rparr>)))"

definition loadInfo :: "load_env \<Rightarrow> bdict option \<Rightarrow> torrent \<Rightarrow> load_error + torrent" where
  "loadInfo env info tor = (case info of
     None \<Rightarrow> Inl Corrupted_torrent
   | Some d \<Rightarrow> rbind (from_access (dict_getInt64 d ''piece length'')) (\<lambda>pl.
       rbind (load_content env d (tor\<lparr>tor_chunk_size := word_of_int pl\<rparr>)) (\<lambda>t1.
       rbind (loadHash d t1) (\<lambda>t2.
       rbind (from_access (dict_getByteArray d ''name'')) (\<lambda>nm.
       rbind (load_private d (t2\<lparr>unencoded_name := nm, name_suggestion := SanityzeName (utf8 env nm)\<rparr>)) check_chunks)))))"

fun urls_of :: "load_env \<Rightarrow> bnode list \<Rightarrow> access_error + string list" where
  "urls_of env [] = Inr []"
| "urls_of env (n # ns) = rbind (value_bytes (as_value (Some n))) (\<lambda>v. rbind (urls_of env ns) (\<lambda>us. Inr (utf8 env v # us)))"

definition loadTrackerURL :: "load_env \<Rightarrow> string \<Rightarrow> torrent \<Rightarrow> torrent" where
  "loadTrackerURL env s tor =
     (let tiers = (case trackers tor of None \<Rightarrow> [[]] | Some ts \<Rightarrow> ts) in
      tor\<lparr>trackers := Some (if s \<noteq> [] \<and> url_ok env s then (hd tiers @ [s]) # tl tiers else tiers)\<rparr>)"

text \<open>The tiers are a linked list: the first list of URLs is appended to the tier that is there, and a new tier follows every list.\<close>

fun announce_tiers :: "load_env \<Rightarrow> string list \<Rightarrow> bnode list \<Rightarrow> access_error + string list list" where
  "announce_tiers env tier [] = Inr [tier]"
| "announce_tiers env tier (n # ns) = (case as_list (Some n) of
     None \<Rightarrow> announce_tiers env tier ns
   | Some l \<Rightarrow> rbind (urls_of env l) (\<lambda>us. rbind (announce_tiers env [] ns) (\<lambda>ts. Inr ((tier @ us) # ts))))"

definition loadAnnounceList :: "load_env \<Rightarrow> bnode option \<Rightarrow> torrent \<Rightarrow> load_error + torrent" where
  "loadAnnounceList env node tor = (case as_list node of
     None \<Rightarrow> Inr tor
   | Some ml \<Rightarrow> rbind (from_access (announce_tiers env (case trackers tor of Some (t # _) \<Rightarrow> t | _ \<Rightarrow> []) ml)) (\<lambda>ts.
       Inr (tor\<lparr>trackers := Some (if \<exists>n \<in> set ml. as_list (Some n) \<noteq> None then ts
                                 else (case trackers tor of None \<Rightarrow> [[]] | Some old \<Rightarrow> old))\<rparr>)))"

fun loadNodes :: "load_env \<Rightarrow> bnode list \<Rightarrow> torrent \<Rightarrow> load_error + torrent" where
  "loadNodes env [] tor = Inr tor"
| "loadNodes env (n # ns) tor = (case as_list (Some n) of
     None \<Rightarrow> Inl Corrupted_torrent
   | Some c \<Rightarrow> if length c \<noteq> 2 then Inl Corrupted_torrent
       else rbind (from_access (list_getByteArray c 0)) (\<lambda>ip. rbind (from_access (list_getInt c 1)) (\<lambda>prt.
         loadNodes env ns (tor\<lparr>tor_nodes := tor_nodes tor @ [(utf8 env ip, prt)]\<rparr>))))"

definition loadWebSeeds :: "load_env \<Rightarrow> bnode list \<Rightarrow> torrent \<Rightarrow> load_error + torrent" where
  "loadWebSeeds env l tor = rbind (from_access (urls_of env l)) (\<lambda>us. Inr (tor\<lparr>web_seeds := web_seeds tor @ filter (url_ok env) us\<rparr>))"

definition load_seeds :: "load_env \<Rightarrow> bdict \<Rightarrow> torrent \<Rightarrow> load_error + torrent" where
  "load_seeds env d tor = (case getList d ''url-list'' of
     Some urls \<Rightarrow> loadWebSeeds env urls tor
   | None \<Rightarrow> (case getValue d ''url-list'' of
       None \<Rightarrow> Inr tor
     | Some v \<Rightarrow> rbind (from_access (value_bytes (Some v))) (\<lambda>u.
         Inr (if url_ok env (utf8 env u) then tor\<lparr>web_seeds := web_seeds tor @ [utf8 env u]\<rparr> else tor))))"

definition load_announce :: "load_env \<Rightarrow> bdict \<Rightarrow> torrent \<Rightarrow> load_error + torrent" where
  "load_announce env d tor = (case getValue d ''announce'' of
     None \<Rightarrow> Inr tor
   | Some v \<Rightarrow> rbind (from_access (value_bytes (Some v))) (\<lambda>u. Inr (loadTrackerURL env (utf8 env u) tor)))"

definition torrent_load :: "load_env \<Rightarrow> string \<Rightarrow> torrent \<Rightarrow> load_error + torrent" where
  "torrent_load env dat tor = (case decodeDict (le_to_int env) (le_to_long_long env) dat 0 of
     Inl e \<Rightarrow> Inl (Not_bencoded e)
   | Inr (None, _) \<Rightarrow> Inl Corrupted_torrent
   | Inr (Some d, _) \<Rightarrow>
       (let t0 = (case getValue d ''comment'' of None \<Rightarrow> tor | Some v \<Rightarrow> tor\<lparr>comments := utf8 env (toByteArrayView v)\<rparr>) in
        rbind (load_announce env d t0) (\<lambda>t1.
        rbind (case getList d ''nodes'' of None \<Rightarrow> Inr t1 | Some ns \<Rightarrow> loadNodes env ns t1) (\<lambda>t2.
        rbind (loadInfo env (getDict d ''info'') t2) (\<lambda>t3.
        rbind (loadAnnounceList env (getData d ''announce-list'') t3) (\<lambda>t4.
        rbind (load_seeds env d t4) (\<lambda>t5.
        let md = (case getData d ''info'' of None \<Rightarrow> [] | Some n \<Rightarrow> getBytes n) in
        Inr (t5\<lparr>tor_metadata := md, tor_info_hash := sha1 env md, tor_loaded := True\<rparr>))))))))"

section \<open>The search is right\<close>

definition ordered :: "torrent_file list \<Rightarrow> bool" where
  "ordered fs \<longleftrightarrow> (\<forall>i < length fs. first_chunk (fs ! i) \<le> last_chunk (fs ! i) \<and> tf_index (fs ! i) = i) \<and>
     (\<forall>j < length fs. \<forall>i < j. last_chunk (fs ! i) \<le> first_chunk (fs ! j))"

definition holds_chunk :: "nat \<Rightarrow> torrent_file \<Rightarrow> bool" where
  "holds_chunk chunk f \<longleftrightarrow> in_chunks f chunk \<and> tf_size f \<noteq> 0"

definition files_of :: "torrent \<Rightarrow> nat \<Rightarrow> nat list" where
  "files_of tor chunk = map tf_index (filter (holds_chunk chunk) (tor_files tor))"

lemma ordered_chunks:
  assumes "ordered fs" and "i < j" and "j < length fs"
  shows "first_chunk (fs ! i) \<le> last_chunk (fs ! i)" and "last_chunk (fs ! i) \<le> first_chunk (fs ! j)"
    and "first_chunk (fs ! j) \<le> last_chunk (fs ! j)"
  using assms by (simp_all add: ordered_def)

lemma ordered_last_mono:
  assumes "ordered fs" and "i \<le> j" and "j < length fs"
  shows "last_chunk (fs ! i) \<le> last_chunk (fs ! j)"
  using assms ordered_chunks [of fs i j] by (cases "i = j") auto

lemma first_of_run_le:
  assumes "ordered fs" and "in_chunks (fs ! m) chunk" and "m < length fs" and "in_chunks (fs ! j) chunk" and "j < length fs"
  shows "first_of_run fs chunk m \<le> j"
  using assms(2,3)
proof (induction m)
  case (Suc i)
  show ?case
  proof (cases "in_chunks (fs ! i) chunk")
    case False
    have "\<not> j < i"
    proof
      assume "j < i"
      then show False using False Suc.prems assms(4) ordered_chunks [OF assms(1), of j i] ordered_chunks [OF assms(1), of i "Suc i"]
        by (simp add: in_chunks_def)
    qed
    moreover have "j \<noteq> i" using False assms(4) by auto
    ultimately show ?thesis using False by simp
  qed (use Suc in simp)
qed simp

lemma first_of_run_le_start: "first_of_run fs chunk m \<le> m"
  by (induction m) (simp_all add: le_SucI)

lemma chunk_search_le:
  assumes "ordered fs" and "start \<le> fin" and "fin < length fs" and "in_chunks (fs ! j) chunk"
    and "start \<le> j" and "j \<le> fin"
  shows "chunk_search fs chunk start fin \<le> j"
  using assms
proof (induction fs chunk start fin rule: chunk_search.induct)
  case (1 fs chunk start fin)
  define mid where "mid = start + (fin - start) div 2"
  note IH = "1.IH" [OF mid_def]
  have mid: "start \<le> mid" "mid \<le> fin" "mid < length fs" using "1.prems"(2,3) by (simp_all add: mid_def)
  have j: "j < length fs" using "1.prems"(3,6) by simp
  have unfold: "chunk_search fs chunk start fin = (if start = mid \<or> mid = fin then mid
      else if in_chunks (fs ! mid) chunk then first_of_run fs chunk mid
      else if chunk > last_chunk (fs ! mid) then chunk_search fs chunk (mid + 1) fin else chunk_search fs chunk start (mid - 1))"
    by (subst chunk_search.simps) (simp only: mid_def Let_def)
  consider "start = mid \<or> mid = fin" | "start < mid" "mid < fin" "in_chunks (fs ! mid) chunk"
    | "start < mid" "mid < fin" "\<not> in_chunks (fs ! mid) chunk" "chunk > last_chunk (fs ! mid)"
    | "start < mid" "mid < fin" "\<not> in_chunks (fs ! mid) chunk" "chunk < first_chunk (fs ! mid)" "\<not> chunk > last_chunk (fs ! mid)"
    using mid le_neq_implies_less not_le unfolding in_chunks_def by metis
  then show ?case
  proof cases
    case 1
    have "mid = fin \<Longrightarrow> start = fin" using "1.prems"(2) by (simp add: mid_def)
    then show ?thesis using 1 "1.prems"(5) unfold by auto
  next
    case 2
    then show ?thesis using first_of_run_le [OF "1.prems"(1) 2(3) mid(3) "1.prems"(4) j] unfold by simp
  next
    case 3
    have "mid < j" using 3(4) "1.prems"(4) ordered_last_mono [OF "1.prems"(1), of j mid] mid(3)
      by (fastforce simp: in_chunks_def not_le [symmetric])
    then show ?thesis using 3 IH(1) "1.prems" unfold by simp
  next
    case 4
    have "j < mid" using 4(4) "1.prems"(4) ordered_chunks [OF "1.prems"(1), of mid j] j
      by (cases "j = mid"; cases "mid < j") (auto simp: in_chunks_def)
    then show ?thesis using 4 IH(2) "1.prems" unfold by (auto simp: in_chunks_def)
  qed
qed

lemma chunk_search_bound:
  "start \<le> fin \<Longrightarrow> chunk_search fs chunk start fin \<le> fin"
proof (induction fs chunk start fin rule: chunk_search.induct)
  case (1 fs chunk start fin)
  define mid where "mid = start + (fin - start) div 2"
  have "mid \<le> fin" and "start = mid \<or> mid = fin \<or> start < mid \<and> mid < fin" using 1(3) by (auto simp: mid_def)
  then show ?case using "1.IH" [OF mid_def] first_of_run_le_start [of fs chunk mid]
    by (subst chunk_search.simps) (simp add: Let_def mid_def [symmetric], linarith?)
qed

lemma collect_files_all:
  assumes "sorted (map first_chunk fs)" and "length acc < n"
  shows "collect_files n chunk fs acc = acc @ take (n - length acc) (map tf_index (filter (holds_chunk chunk) fs))"
  using assms
proof (induction fs arbitrary: acc)
  case (Cons f fs)
  have "chunk < first_chunk f \<Longrightarrow> filter (holds_chunk chunk) (f # fs) = []"
    using Cons.prems(1) by (auto simp: filter_empty_conv holds_chunk_def in_chunks_def)
  then show ?case using Cons by (auto simp: holds_chunk_def [symmetric] Let_def take_Cons' Suc_diff_Suc)
qed simp


definition cache_ok :: "torrent \<Rightarrow> bool" where
  "cache_ok tor \<longleftrightarrow> pos_cache_file tor \<le> length (tor_files tor) - 1 \<and>
     (\<forall>c \<ge> pos_cache_chunk tor. \<forall>j < length (tor_files tor). holds_chunk c (tor_files tor ! j) \<longrightarrow> pos_cache_file tor \<le> j)"

lemma ordered_sorted: "ordered fs \<Longrightarrow> sorted (map first_chunk fs)"
  using order_trans [OF ordered_chunks(1,2)] by (simp add: sorted_iff_nth_mono_less)

lemma filter_drop_none:
  assumes "\<And>j. j < length xs \<Longrightarrow> P (xs ! j) \<Longrightarrow> m \<le> j"
  shows "filter P (drop m xs) = filter P xs"
proof -
  have "filter P (take m xs) = []" using assms by (fastforce simp: filter_empty_conv in_set_conv_nth)
  then show ?thesis by (metis append_Nil append_take_drop_id filter_append)
qed

lemma collect_found:
  assumes "ordered (tor_files tor)" and "cache_ok tor" and "tor_files tor \<noteq> []" and "0 < n"
  shows "collect_files n chunk (drop (chunk_search (tor_files tor) chunk (if chunk \<ge> pos_cache_chunk tor then pos_cache_file tor else 0)
      (length (tor_files tor) - 1)) (tor_files tor)) [] = take n (files_of tor chunk)"
proof -
  let ?fs = "tor_files tor"
  let ?m = "chunk_search ?fs chunk (if chunk \<ge> pos_cache_chunk tor then pos_cache_file tor else 0) (length ?fs - 1)"
  have "?m \<le> j" if "j < length ?fs" "holds_chunk chunk (?fs ! j)" for j
    using assms(2,3) that by (intro chunk_search_le [OF assms(1)]) (auto simp: cache_ok_def holds_chunk_def)
  then have "filter (holds_chunk chunk) (drop ?m ?fs) = filter (holds_chunk chunk) ?fs" by (rule filter_drop_none)
  then show ?thesis using ordered_sorted [OF assms(1)] assms(4)
    by (subst collect_files_all) (simp_all add: files_of_def drop_map [symmetric] sorted_wrt_drop)
qed

lemma first_file:
  assumes "ordered (tor_files tor)" and "files_of tor chunk = i # l"
  shows "i < length (tor_files tor)" and "holds_chunk chunk (tor_files tor ! i)"
    and "\<And>j. j < length (tor_files tor) \<Longrightarrow> holds_chunk chunk (tor_files tor ! j) \<Longrightarrow> i \<le> j"
proof -
  let ?fs = "tor_files tor"
  obtain us v vs where fs: "?fs = us @ v # vs" "\<forall>u\<in>set us. \<not> holds_chunk chunk u" "holds_chunk chunk v" "tf_index v = i"
    using assms(2) by (auto simp: files_of_def filter_eq_Cons_iff map_eq_Cons_conv)
  have "i = length us" using assms(1) fs(1,4) by (auto simp: ordered_def dest!: spec [of _ "length us"])
  then show "i < length ?fs" and "holds_chunk chunk (?fs ! i)" using fs by simp_all
  show "i \<le> j" if "j < length ?fs" "holds_chunk chunk (?fs ! j)" for j
    using that fs(1,2) \<open>i = length us\<close> by (metis not_le nth_append nth_mem)
qed

lemma cache_step:
  assumes "ordered (tor_files tor)" and "files_of tor chunk = i # l"
  shows "cache_ok (tor\<lparr>pos_cache_chunk := chunk, pos_cache_file := i, at_empty := e\<rparr>)"
proof -
  note f = first_file [OF assms]
  have "i \<le> j" if "chunk \<le> c" "j < length (tor_files tor)" "holds_chunk c (tor_files tor ! j)" for c j
  proof (rule ccontr)
    assume "\<not> i \<le> j"
    then have "last_chunk (tor_files tor ! j) \<le> first_chunk (tor_files tor ! i)"
      using ordered_chunks [OF assms(1), of j i] f(1) by simp
    then have "c = chunk" using that(1,3) f(2) by (simp add: holds_chunk_def in_chunks_def)
    then show False using f(3) that \<open>\<not> i \<le> j\<close> by simp
  qed
  then show ?thesis using f(1) by (simp add: cache_ok_def)
qed

lemma calcChunkPos_files:
  assumes "ordered (tor_files tor)" and "cache_ok tor" and "0 < n"
    and "tor_files tor = [] \<or> chunk \<ge> getNumChunks tor \<or> files_of tor chunk \<noteq> []"
  shows "fst (calcChunkPos n chunk tor) = (if chunk \<ge> getNumChunks tor then [] else take n (files_of tor chunk))"
    and "cache_ok (snd (calcChunkPos n chunk tor))"
    and "\<exists>c i. snd (calcChunkPos n chunk tor) = tor\<lparr>pos_cache_chunk := c, pos_cache_file := i\<rparr>"
proof -
  consider "tor_files tor = [] \<or> chunk \<ge> getNumChunks tor" | "tor_files tor \<noteq> []" "\<not> chunk \<ge> getNumChunks tor" by auto
  then have "fst (calcChunkPos n chunk tor) = (if chunk \<ge> getNumChunks tor then [] else take n (files_of tor chunk)) \<and>
    cache_ok (snd (calcChunkPos n chunk tor)) \<and> (\<exists>c i. snd (calcChunkPos n chunk tor) = tor\<lparr>pos_cache_chunk := c, pos_cache_file := i\<rparr>)"
  proof cases
    case 1
    have "tor = tor\<lparr>pos_cache_chunk := pos_cache_chunk tor, pos_cache_file := pos_cache_file tor\<rparr>" by (cases tor) simp
    then have "\<exists>c i. tor = tor\<lparr>pos_cache_chunk := c, pos_cache_file := i\<rparr>" by (intro exI)
    moreover have "calcChunkPos n chunk tor = ([], tor)" using 1 by (auto simp: calcChunkPos_def)
    moreover have "[] = (if chunk \<ge> getNumChunks tor then [] else take n (files_of tor chunk))" using 1 by (auto simp: files_of_def)
    ultimately show ?thesis using assms(2) by (simp only: fst_conv snd_conv simp_thms)
  next
    case 2
    then obtain i l where l: "files_of tor chunk = i # l" using assms(4) by (cases "files_of tor chunk") auto
    then have "take n (files_of tor chunk) = i # take (n - 1) l" using assms(3) by (cases n) simp_all
    then have c: "calcChunkPos n chunk tor =
        (take n (files_of tor chunk), tor\<lparr>pos_cache_chunk := chunk, pos_cache_file := i, at_empty := at_empty tor\<rparr>)"
      using 2 collect_found [OF assms(1,2) 2(1) assms(3), of chunk] by (simp add: calcChunkPos_def Let_def)
    have "tor\<lparr>pos_cache_chunk := chunk, pos_cache_file := i, at_empty := at_empty tor\<rparr> = tor\<lparr>pos_cache_chunk := chunk, pos_cache_file := i\<rparr>"
      by (cases tor) simp
    then have "\<exists>c j. tor\<lparr>pos_cache_chunk := chunk, pos_cache_file := i, at_empty := at_empty tor\<rparr> = tor\<lparr>pos_cache_chunk := c, pos_cache_file := j\<rparr>"
      by (intro exI)
    then show ?thesis using 2(2) cache_step [OF assms(1) l, of "at_empty tor"] by (simp only: c fst_conv snd_conv simp_thms if_False)
  qed
  then show "fst (calcChunkPos n chunk tor) = (if chunk \<ge> getNumChunks tor then [] else take n (files_of tor chunk))"
    and "cache_ok (snd (calcChunkPos n chunk tor))"
    and "\<exists>c i. snd (calcChunkPos n chunk tor) = tor\<lparr>pos_cache_chunk := c, pos_cache_file := i\<rparr>" by blast+
qed


section \<open>The layout of a loaded torrent\<close>

definition byte_offset :: "torrent_file list \<Rightarrow> nat \<Rightarrow> nat" where
  "byte_offset fs i = sum_list (map (\<lambda>f. unat (tf_size f)) (take i fs))"

text \<open>Every file is built by the constructor, at the sum of the sizes before it (as a 64-bit number).\<close>

definition laid_out :: "u64 \<Rightarrow> torrent_file list \<Rightarrow> bool" where
  "laid_out cs fs \<longleftrightarrow> (\<forall>i < length fs. \<exists>path parts. checkPathForDirectoryTraversal path \<and>
     fs ! i = (TorrentFile i path (of_nat (byte_offset fs i)) (tf_size (fs ! i)) cs)\<lparr>unencoded_path := parts\<rparr>)"

lemma byte_offset_append: "i \<le> length fs \<Longrightarrow> byte_offset (fs @ gs) i = byte_offset fs i"
  by (simp add: byte_offset_def)

lemma byte_offset_Suc: "i < length fs \<Longrightarrow> byte_offset fs (Suc i) = byte_offset fs i + unat (tf_size (fs ! i))"
  by (simp add: byte_offset_def take_Suc_conv_app_nth)

lemma byte_offset_mono: "i \<le> j \<Longrightarrow> byte_offset fs i \<le> byte_offset fs j"
  by (simp add: byte_offset_def le_iff_add [of i j]) (metis append_assoc le_add1 map_append sum_list_append take_add)

lemma laid_out_snoc:
  assumes "laid_out cs fs" and "checkPathForDirectoryTraversal path"
  shows "laid_out cs (fs @ [(TorrentFile (length fs) path (of_nat (byte_offset fs (length fs))) sz cs)\<lparr>unencoded_path := parts\<rparr>])"
    (is "laid_out cs (fs @ [?f])")
  unfolding laid_out_def
proof (intro allI impI)
  fix i assume i: "i < length (fs @ [?f])"
  show "\<exists>path' parts'. checkPathForDirectoryTraversal path' \<and>
     (fs @ [?f]) ! i = (TorrentFile i path' (of_nat (byte_offset (fs @ [?f]) i)) (tf_size ((fs @ [?f]) ! i)) cs)\<lparr>unencoded_path := parts'\<rparr>"
  proof (cases "i < length fs")
    case True
    then show ?thesis using assms(1) by (simp add: laid_out_def nth_append byte_offset_append)
  next
    case False
    then have "i = length fs" using i by simp
    then show ?thesis using assms(2) by (auto simp: byte_offset_append TorrentFile_def Let_def)
  qed
qed

definition files_loaded :: "torrent \<Rightarrow> bool" where
  "files_loaded tor \<longleftrightarrow> laid_out (tor_chunk_size tor) (tor_files tor) \<and>
     total_size tor = of_nat (byte_offset (tor_files tor) (length (tor_files tor)))"

definition tor_cache :: "torrent \<Rightarrow> nat \<times> nat \<times> bool" where
  "tor_cache tor = (pos_cache_chunk tor, pos_cache_file tor, at_empty tor)"

lemma from_access_Inr [simp]: "from_access r = Inr x \<longleftrightarrow> r = Inr x"
  by (cases r) (simp_all add: from_access_def)

lemma loadFiles_loaded:
  assumes "files_loaded tor" and "loadFiles env ns (length (tor_files tor)) tor = Inr tor'"
  shows "files_loaded tor' \<and> tor_chunk_size tor' = tor_chunk_size tor \<and> hash_pieces tor' = hash_pieces tor \<and>
    tor_cache tor' = tor_cache tor"
  using assms
proof (induction ns arbitrary: tor)
  case (Cons n ns)
  obtain d ln path parts where d: "as_dict (Some n) = Some d" "getList d ''path'' = Some ln" "load_path env ln = Inr (path, parts)"
    using Cons.prems(2) by (auto simp: from_access_def result_simps split: option.splits sum.splits if_splits)
  show ?case
  proof (cases "path \<noteq> [] \<and> last path = CHR ''/''")
    case True
    then show ?thesis using Cons.IH [OF Cons.prems(1)] Cons.prems(2) d by (simp add: from_access_def)
  next
    case False
    then obtain len where len: "dict_getInt64 d ''length'' = Inr len" "checkPathForDirectoryTraversal path" "tor_chunk_size tor \<noteq> 0"
      using Cons.prems(2) d by (auto simp: from_access_def Let_def result_simps split: sum.splits if_splits)
    define t where "t = tor\<lparr>tor_files := tor_files tor @
        [(TorrentFile (length (tor_files tor)) path (total_size tor) (word_of_int len) (tor_chunk_size tor))\<lparr>unencoded_path := parts\<rparr>],
      total_size := total_size tor + word_of_int len\<rparr>"
    have "loadFiles env ns (length (tor_files t)) t = Inr tor'"
      using Cons.prems(2) d False len by (simp add: from_access_def t_def Let_def)
    moreover have "files_loaded t"
      using Cons.prems(1) laid_out_snoc [of "tor_chunk_size tor" "tor_files tor" path parts "word_of_int len"] len(2)
      by (simp add: files_loaded_def t_def byte_offset_def TorrentFile_def Let_def)
    ultimately show ?thesis using Cons.IH [of t] by (simp add: t_def tor_cache_def)
  qed
qed simp

lemma unat_chunk:
  assumes "n < 2 ^ 64" and "n div unat cs < 2 ^ 32"
  shows "unat (ucast ((of_nat n :: u64) div cs) :: u32) = n div unat cs"
proof -
  have "unat ((of_nat n :: u64) div cs) = n div unat cs"
    using assms(1) by (simp add: unat_div unat_of_nat take_bit_nat_eq_self_iff)
  then show ?thesis using assms(2) by (simp add: unsigned_ucast_eq take_bit_nat_eq_self_iff)
qed

lemma laid_out_file:
  fixes cs :: u64
  assumes lay: "laid_out cs fs" and fits: "byte_offset fs (length fs) < 2 ^ 64" "byte_offset fs (length fs) div unat cs < 2 ^ 32"
    and i: "i < length fs"
  shows "tf_index (fs ! i) = i" and "first_chunk (fs ! i) = byte_offset fs i div unat cs"
    and "last_chunk (fs ! i) = (if 0 < tf_size (fs ! i) then (byte_offset fs (Suc i) - 1) div unat cs else byte_offset fs i div unat cs)"
    and "unat (cache_offset (fs ! i)) = byte_offset fs i"
proof -
  obtain path parts where f: "fs ! i = (TorrentFile i path (of_nat (byte_offset fs i)) (tf_size (fs ! i)) cs)\<lparr>unencoded_path := parts\<rparr>"
    using lay i by (auto simp: laid_out_def)
  have bound: "n < 2 ^ 64 \<and> n div unat cs < 2 ^ 32" if "n \<le> byte_offset fs (length fs)" for n
    using that fits div_le_mono [OF that, of "unat cs"] by linarith
  have le: "byte_offset fs i \<le> byte_offset fs (length fs)" "byte_offset fs (Suc i) - 1 \<le> byte_offset fs (length fs)"
    using byte_offset_mono [of i "length fs" fs] byte_offset_mono [of "Suc i" "length fs" fs] i by simp_all
  show "tf_index (fs ! i) = i" by (subst f) (simp add: TorrentFile_def Let_def)
  show first: "first_chunk (fs ! i) = byte_offset fs i div unat cs"
    by (subst f) (use bound [OF le(1)] in \<open>simp add: TorrentFile_def Let_def unat_chunk\<close>)
  show "unat (cache_offset (fs ! i)) = byte_offset fs i"
    by (subst f) (use bound [OF le(1)] in \<open>simp add: TorrentFile_def Let_def unat_of_nat take_bit_nat_eq_self_iff\<close>)
  have w: "of_nat (byte_offset fs i) + tf_size (fs ! i) - 1 = (of_nat (byte_offset fs (Suc i) - 1) :: u64)" if "0 < tf_size (fs ! i)"
    using that i by (simp add: byte_offset_Suc of_nat_diff Suc_le_eq unat_gt_0 word_greater_zero_iff)
  show "last_chunk (fs ! i) = (if 0 < tf_size (fs ! i) then (byte_offset fs (Suc i) - 1) div unat cs else byte_offset fs i div unat cs)"
    by (subst f) (use bound [OF le(1)] bound [OF le(2)] w in \<open>simp add: TorrentFile_def Let_def unat_chunk\<close>)
qed

lemma laid_out_ordered:
  fixes cs :: u64
  assumes lay: "laid_out cs fs" and fits: "byte_offset fs (length fs) < 2 ^ 64" "byte_offset fs (length fs) div unat cs < 2 ^ 32"
  shows "ordered fs"
proof -
  note f = laid_out_file [OF assms]
  have step: "byte_offset fs i \<le> byte_offset fs (Suc i) - 1" if "i < length fs" "0 < tf_size (fs ! i)" for i
    using that by (simp add: byte_offset_Suc unat_gt_0 word_greater_zero_iff Suc_le_eq le_diff_conv2)
  have "last_chunk (fs ! i) \<le> first_chunk (fs ! j)" if "i < j" "j < length fs" for i j
  proof -
    have "byte_offset fs (Suc i) \<le> byte_offset fs j" "byte_offset fs i \<le> byte_offset fs j" using that byte_offset_mono by simp_all
    then show ?thesis using f(2,3) that by (simp add: div_le_mono)
  qed
  then show ?thesis using f step by (simp add: ordered_def div_le_mono)
qed

definition shares_byte :: "torrent \<Rightarrow> nat \<Rightarrow> nat \<Rightarrow> bool" where
  "shares_byte tor chunk i \<longleftrightarrow>
     max (byte_offset (tor_files tor) i) (chunk * unat (tor_chunk_size tor)) <
     min (byte_offset (tor_files tor) (Suc i)) (Suc chunk * unat (tor_chunk_size tor))"

lemma holds_chunk_bytes:
  assumes "laid_out (tor_chunk_size tor) (tor_files tor)" and "byte_offset (tor_files tor) (length (tor_files tor)) < 2 ^ 64"
    and "byte_offset (tor_files tor) (length (tor_files tor)) div unat (tor_chunk_size tor) < 2 ^ 32"
    and "i < length (tor_files tor)" and cs: "tor_chunk_size tor \<noteq> 0"
  shows "holds_chunk chunk (tor_files tor ! i) \<longleftrightarrow> shares_byte tor chunk i"
proof -
  let ?off = "byte_offset (tor_files tor) i" and ?fin = "byte_offset (tor_files tor) (Suc i)" and ?cs = "unat (tor_chunk_size tor)"
  note f = laid_out_file [OF assms(1-4)]
  have pos: "0 < ?cs" using cs by (simp add: unat_gt_0)
  have sz: "0 < tf_size (tor_files tor ! i) \<longleftrightarrow> ?off < ?fin"
    using assms(4) by (simp add: byte_offset_Suc unat_gt_0 word_greater_zero_iff)
  have "holds_chunk chunk (tor_files tor ! i) \<longleftrightarrow> ?off < ?fin \<and> ?off div ?cs \<le> chunk \<and> chunk \<le> (?fin - 1) div ?cs"
    using f sz by (auto simp: holds_chunk_def in_chunks_def word_greater_zero_iff)
  also have "\<dots> \<longleftrightarrow> ?off < ?fin \<and> ?off < Suc chunk * ?cs \<and> chunk * ?cs \<le> ?fin - 1"
    using pos div_less_iff_less_mult [OF pos, of ?off "Suc chunk"] less_eq_div_iff_mult_less_eq [OF pos, of chunk "?fin - 1"]
    by (simp add: less_Suc_eq_le)
  also have "\<dots> \<longleftrightarrow> shares_byte tor chunk i" using pos by (auto simp: shares_byte_def)
  finally show ?thesis .
qed

lemma byte_in_file:
  assumes "b < byte_offset fs n"
  shows "\<exists>i < n. byte_offset fs i \<le> b \<and> b < byte_offset fs (Suc i)"
  using assms
proof (induction n)
  case (Suc n)
  then show ?case by (cases "b < byte_offset fs n") (auto simp: not_less less_Suc_eq)
qed (simp add: byte_offset_def)

lemma chunks_counted:
  assumes "check_chunks tor = Inr tor'" and "length (hash_pieces tor) < 2 ^ 32"
    and "unat (total_size tor) div unat (tor_chunk_size tor) < 2 ^ 32 - 1"
  shows "tor_chunk_size tor \<noteq> 0" and "tor' = tor\<lparr>tor_last_chunk_size := tor_last_chunk_size tor'\<rparr>"
    and "c < getNumChunks tor' \<Longrightarrow> c * unat (tor_chunk_size tor) < unat (total_size tor)"
proof -
  let ?t = "unat (total_size tor)" and ?cs = "unat (tor_chunk_size tor)"
  show nz: "tor_chunk_size tor \<noteq> 0" and upd: "tor' = tor\<lparr>tor_last_chunk_size := tor_last_chunk_size tor'\<rparr>"
    using assms(1) by (auto simp: check_chunks_def Let_def split: if_splits)
  define q :: u32 where "q = ucast (total_size tor div tor_chunk_size tor)"
  have q: "unat q = ?t div ?cs" using assms(3) by (simp add: q_def unat_div unsigned_ucast_eq take_bit_nat_eq_self_iff)
  have q1: "unat (q + 1) = ?t div ?cs + 1" using q assms(3) by (subst unat_plus_if_size) (simp add: word_size)
  have rest: "total_size tor mod tor_chunk_size tor > 0 \<longleftrightarrow> ?t mod ?cs > 0"
    by (simp add: word_greater_zero_iff unat_mod [symmetric] unat_gt_0 unat_eq_zero del: unat_mod)
  have "unat (of_nat (length (hash_pieces tor)) :: u32) = length (hash_pieces tor)"
    using assms(2) by (simp add: unat_of_nat take_bit_nat_eq_self_iff)
  then have len: "length (hash_pieces tor) = ?t div ?cs + (if ?t mod ?cs > 0 then 1 else 0)"
    using assms(1) nz q q1 rest by (auto simp: check_chunks_def Let_def q_def [symmetric] split: if_splits)
  assume "c < getNumChunks tor'"
  then have c: "c < length (hash_pieces tor)" using upd by (metis getNumChunks_def torrent.select_convs(6) torrent.surjective torrent.update_convs(12))
  have pos: "0 < ?cs" using nz by (simp add: unat_gt_0)
  show "c * ?cs < ?t"
  proof (cases "?t mod ?cs > 0")
    case True
    then have "c * ?cs \<le> ?t div ?cs * ?cs" using c len by (simp add: mult_le_mono1)
    then show ?thesis using True div_mult_mod_eq [of ?t ?cs] by linarith
  next
    case False
    then have "c * ?cs < ?t div ?cs * ?cs" using c len pos by simp
    then show ?thesis using div_mult_mod_eq [of ?t ?cs] by linarith
  qed
qed

definition tor_content :: "torrent \<Rightarrow> torrent_file list \<times> u64 \<times> u64 \<times> nat \<times> nat \<times> bool" where
  "tor_content tor = (tor_files tor, tor_chunk_size tor, total_size tor, tor_cache tor)"

lemma loadHash_keeps: "loadHash d tor = Inr tor' \<Longrightarrow> tor_content tor' = tor_content tor"
  by (auto simp: loadHash_def result_simps tor_content_def tor_cache_def)

lemma load_private_keeps:
  "load_private d tor = Inr tor' \<Longrightarrow> tor_content tor' = tor_content tor \<and> name_suggestion tor' = name_suggestion tor"
  by (auto simp: load_private_def tor_content_def tor_cache_def split: option.splits if_splits)

lemma files_loaded_content: "tor_content tor' = tor_content tor \<Longrightarrow> files_loaded tor' = files_loaded tor"
  by (simp add: tor_content_def files_loaded_def)

text \<open>The torrent before the check of the number of chunks.\<close>

lemma loadInfo_loaded:
  assumes "loadInfo env info tor0 = Inr tor" and "tor_files tor0 = []" and "total_size tor0 = 0"
  obtains t nm where "check_chunks t = Inr tor" and "tor_files t \<noteq> [] \<Longrightarrow> files_loaded t"
    and "tor_cache t = tor_cache tor0" and "name_suggestion t = SanityzeName nm"
proof -
  obtain d pl t1 t2 nm t3 where l: "load_content env d (tor0\<lparr>tor_chunk_size := word_of_int pl\<rparr>) = Inr t1" "loadHash d t1 = Inr t2"
    "load_private d (t2\<lparr>unencoded_name := nm, name_suggestion := SanityzeName (utf8 env nm)\<rparr>) = Inr t3" "check_chunks t3 = Inr tor"
    using assms(1) unfolding loadInfo_def by (auto split: option.splits elim!: rbindE simp del: rbind_eq_Inr)
  let ?t0 = "tor0\<lparr>tor_chunk_size := word_of_int pl\<rparr>"
  have cache: "tor_cache ?t0 = tor_cache tor0" by (simp add: tor_cache_def)
  have "(tor_files t1 \<noteq> [] \<longrightarrow> files_loaded t1) \<and> tor_cache t1 = tor_cache tor0"
  proof (cases "getList d ''files''")
    case None
    then show ?thesis using l(1) assms(2) by (auto simp: load_content_def result_simps tor_cache_def)
  next
    case (Some fl)
    have "files_loaded ?t0" using assms(2,3) by (simp add: files_loaded_def laid_out_def byte_offset_def)
    then show ?thesis using loadFiles_loaded [of ?t0 env fl t1] l(1) Some assms(2) cache by (simp add: load_content_def)
  qed
  moreover have "tor_content t3 = tor_content t1" and nm: "name_suggestion t3 = SanityzeName (utf8 env nm)"
    using load_private_keeps [OF l(3)] loadHash_keeps [OF l(2)] by (simp_all add: tor_content_def tor_cache_def)
  ultimately have "tor_files t3 \<noteq> [] \<Longrightarrow> files_loaded t3" and "tor_cache t3 = tor_cache tor0"
    using files_loaded_content [of t3 t1] by (simp_all add: tor_content_def)
  then show ?thesis using that [OF l(4) _ _ nm] by simp
qed

text \<open>What holds of a torrent with files between two queries.\<close>

definition chunks_placed :: "torrent \<Rightarrow> bool" where
  "chunks_placed tor \<longleftrightarrow> ordered (tor_files tor) \<and> cache_ok tor \<and> \<not> at_empty tor \<and> (\<forall>c < getNumChunks tor. files_of tor c \<noteq> [])"

lemma chunks_placed_query:
  assumes "chunks_placed tor" and "0 < n"
  shows "chunks_placed (snd (calcChunkPos n c tor))" and "\<exists>k i. snd (calcChunkPos n c tor) = tor\<lparr>pos_cache_chunk := k, pos_cache_file := i\<rparr>"
    and "fst (calcChunkPos n c tor) = (if c \<ge> getNumChunks tor then [] else take n (files_of tor c))"
proof -
  have o: "ordered (tor_files tor)" and co: "cache_ok tor" and ne: "tor_files tor = [] \<or> c \<ge> getNumChunks tor \<or> files_of tor c \<noteq> []"
    using assms(1) not_less by (auto simp: chunks_placed_def)
  note q = calcChunkPos_files [OF o co assms(2) ne]
  show "\<exists>k i. snd (calcChunkPos n c tor) = tor\<lparr>pos_cache_chunk := k, pos_cache_file := i\<rparr>" by (rule q(3))
  then obtain k i where "snd (calcChunkPos n c tor) = tor\<lparr>pos_cache_chunk := k, pos_cache_file := i\<rparr>" by blast
  then show "chunks_placed (snd (calcChunkPos n c tor))" using assms(1) q(2) by (simp add: chunks_placed_def files_of_def getNumChunks_def)
  show "fst (calcChunkPos n c tor) = (if c \<ge> getNumChunks tor then [] else take n (files_of tor c))" by (rule q(1))
qed

lemma chunks_placed_queries:
  assumes "chunks_placed tor" and "\<forall>(n, c) \<in> set asked. 0 < n"
  shows "\<exists>k i. fold (\<lambda>(n, c) t. snd (calcChunkPos n c t)) asked tor = tor\<lparr>pos_cache_chunk := k, pos_cache_file := i\<rparr> \<and>
    chunks_placed (tor\<lparr>pos_cache_chunk := k, pos_cache_file := i\<rparr>)"
  using assms
proof (induction asked arbitrary: tor)
  case Nil
  have "tor\<lparr>pos_cache_chunk := pos_cache_chunk tor, pos_cache_file := pos_cache_file tor\<rparr> = tor" by (cases tor) simp
  then show ?case using Nil.prems(1)
    by (intro exI [of _ "pos_cache_chunk tor"] exI [of _ "pos_cache_file tor"]) (simp only: fold.simps id_apply simp_thms)
next
  case (Cons q asked)
  obtain n c where q: "q = (n, c)" "0 < n" using Cons.prems(2) by (cases q) auto
  obtain k i where t: "snd (calcChunkPos n c tor) = tor\<lparr>pos_cache_chunk := k, pos_cache_file := i\<rparr>"
    using chunks_placed_query(2) [OF Cons.prems(1) q(2)] by blast
  have "chunks_placed (tor\<lparr>pos_cache_chunk := k, pos_cache_file := i\<rparr>)"
    using chunks_placed_query(1) [OF Cons.prems(1) q(2), of c] by (simp only: t)
  from Cons.IH [OF this] Cons.prems(2) show ?case by (simp add: q(1) t)
qed

lemma new_empty: "tor_files Torrent_new = []" "total_size Torrent_new = 0"
  by (simp_all add: Torrent_new_def)

lemma check_chunks_keeps: "check_chunks t = Inr tor \<Longrightarrow> tor = t\<lparr>tor_last_chunk_size := tor_last_chunk_size tor\<rparr>"
  by (auto simp: check_chunks_def Let_def split: if_splits)

lemma last_size_same:
  assumes "tor = t\<lparr>tor_last_chunk_size := z\<rparr>"
  shows "tor_files tor = tor_files t" "tor_chunk_size tor = tor_chunk_size t" "total_size tor = total_size t" "hash_pieces tor = hash_pieces t"
    "pos_cache_file tor = pos_cache_file t" "pos_cache_chunk tor = pos_cache_chunk t" "at_empty tor = at_empty t"
    "name_suggestion tor = name_suggestion t"
  using assms by simp_all

lemma map_filter_nth: "map f (filter P xs) = map (f \<circ> (!) xs) (filter (P \<circ> (!) xs) [0..<length xs])"
  using filter_map [of P "(!) xs" "[0..<length xs]"] by (simp add: map_nth)

lemma loaded_chunks_placed:
  assumes "loadInfo env info Torrent_new = Inr tor" and "tor_files tor \<noteq> []"
    and "byte_offset (tor_files tor) (length (tor_files tor)) < 2 ^ 64" and "length (hash_pieces tor) < 2 ^ 32"
    and "byte_offset (tor_files tor) (length (tor_files tor)) div unat (tor_chunk_size tor) < 2 ^ 32 - 1"
  shows "chunks_placed tor" and "files_of tor c = filter (shares_byte tor c) [0..<length (tor_files tor)]"
proof -
  let ?fs = "tor_files tor" and ?cs = "unat (tor_chunk_size tor)"
  obtain t where t: "check_chunks t = Inr tor" "tor_files t \<noteq> [] \<Longrightarrow> files_loaded t" "tor_cache t = (0, 0, False)"
    using loadInfo_loaded [OF assms(1)] by (auto simp: Torrent_new_def tor_cache_def)
  have upd: "tor = t\<lparr>tor_last_chunk_size := tor_last_chunk_size tor\<rparr>" by (rule check_chunks_keeps [OF t(1)])
  have same: "tor_files tor = tor_files t" "tor_chunk_size tor = tor_chunk_size t" "total_size tor = total_size t" "hash_pieces tor = hash_pieces t"
    "pos_cache_file tor = pos_cache_file t" "pos_cache_chunk tor = pos_cache_chunk t" "at_empty tor = at_empty t"
    by (rule last_size_same [OF upd])+
  have "files_loaded t" using t(2) same assms(2) by simp
  then have lay: "laid_out (tor_chunk_size tor) ?fs" and tot: "unat (total_size t) = byte_offset ?fs (length ?fs)"
    using same assms(3) by (simp_all add: files_loaded_def unat_of_nat take_bit_nat_eq_self_iff)
  have cc: "tor_chunk_size t \<noteq> 0" "c < getNumChunks tor \<Longrightarrow> c * ?cs < byte_offset ?fs (length ?fs)" for c
    using chunks_counted [OF t(1)] assms(4,5) same tot by simp_all
  have fits: "byte_offset ?fs (length ?fs) div ?cs < 2 ^ 32" using assms(5) by simp
  note holds = holds_chunk_bytes [OF lay assms(3) fits]
  have idx: "tf_index (?fs ! i) = i" if "i < length ?fs" for i using laid_out_file(1) [OF lay assms(3) fits that] .
  have files: "files_of tor c = filter (shares_byte tor c) [0..<length ?fs]" for c
  proof -
    have "files_of tor c = map (tf_index \<circ> (!) ?fs) (filter (holds_chunk c \<circ> (!) ?fs) [0..<length ?fs])"
      unfolding files_of_def by (rule map_filter_nth)
    also have "filter (holds_chunk c \<circ> (!) ?fs) [0..<length ?fs] = filter (shares_byte tor c) [0..<length ?fs]"
      using holds cc(1) same by (intro filter_cong) simp_all
    also have "map (tf_index \<circ> (!) ?fs) \<dots> = \<dots>" by (rule map_idI) (simp add: idx)
    finally show ?thesis .
  qed
  then show "files_of tor c = filter (shares_byte tor c) [0..<length ?fs]" .
  have ne: "files_of tor c \<noteq> []" if c: "c < getNumChunks tor" for c
  proof -
    obtain i where i: "i < length ?fs" "byte_offset ?fs i \<le> c * ?cs" "c * ?cs < byte_offset ?fs (Suc i)"
      using byte_in_file [OF cc(2) [OF c]] by blast
    moreover have "0 < ?cs" using cc(1) same by (simp add: unat_gt_0)
    ultimately have "shares_byte tor c i" by (simp add: shares_byte_def)
    then show ?thesis using i(1) by (auto simp: files filter_empty_conv)
  qed
  have "cache_ok tor" and "\<not> at_empty tor" using same t(3) by (simp_all add: cache_ok_def tor_cache_def)
  then show "chunks_placed tor" using laid_out_ordered [OF lay assms(3) fits] ne by (simp add: chunks_placed_def)
qed

text \<open>C9. A torrent with files was loaded, its sizes add up to less than \<open>2 ^ 64\<close> bytes and less than \<open>2 ^ 32 - 1\<close> chunks. Then the binary
  search for the files of a chunk, which starts where an earlier search ended, finds exactly the files that share a byte with the chunk,
  in their order, whatever was searched before, and never reads from an empty list.\<close>

theorem chunk_files_found:
  assumes "loadInfo env info Torrent_new = Inr tor" and "tor_files tor \<noteq> []"
    and "byte_offset (tor_files tor) (length (tor_files tor)) < 2 ^ 64" and "length (hash_pieces tor) < 2 ^ 32"
    and "byte_offset (tor_files tor) (length (tor_files tor)) div unat (tor_chunk_size tor) < 2 ^ 32 - 1"
    and "\<forall>(n, c) \<in> set asked. 0 < n" and "0 < max_files" and "chunk < getNumChunks tor"
  shows "\<exists>tor'. calcChunkPos max_files chunk (fold (\<lambda>(n, c) t. snd (calcChunkPos n c t)) asked tor) =
      (take max_files (filter (shares_byte tor chunk) [0..<length (tor_files tor)]), tor') \<and> \<not> at_empty tor'"
proof -
  note l = loaded_chunks_placed [OF assms(1-5)]
  obtain k i where t: "fold (\<lambda>(n, c) t. snd (calcChunkPos n c t)) asked tor = tor\<lparr>pos_cache_chunk := k, pos_cache_file := i\<rparr>"
    "chunks_placed (tor\<lparr>pos_cache_chunk := k, pos_cache_file := i\<rparr>)"
    using chunks_placed_queries [OF l(1) assms(6)] by blast
  note q = chunks_placed_query [OF t(2) assms(7), of chunk]
  have "fst (calcChunkPos max_files chunk (tor\<lparr>pos_cache_chunk := k, pos_cache_file := i\<rparr>)) =
      take max_files (filter (shares_byte tor chunk) [0..<length (tor_files tor)])"
    using q(3) assms(8) by (simp add: l(2) [symmetric] files_of_def getNumChunks_def)
  then show ?thesis using q(1) by (simp only: t(1) prod_eq_iff chunks_placed_def) auto
qed

definition load_sample :: load_env where
  "load_sample = \<lparr>le_to_int = ref_to_int, le_to_long_long = ref_to_long_long, utf8 = (\<lambda>s. s), url_ok = (\<lambda>_. True), sha1 = (\<lambda>s. take 20 s)\<rparr>"

definition sample_file :: "string \<Rightarrow> int \<Rightarrow> bnode" where
  "sample_file nm len = BDictNode [(''length'', BValueNode (V_INT len) []), (''path'', BListNode [BValueNode (V_STRING nm) []] [])] []"

definition sample_info :: bdict where
  "sample_info = [(''files'', BListNode [sample_file ''a'' 5, sample_file ''b'' 0, sample_file ''c'' 7] []),
     (''name'', BValueNode (V_STRING ''t'') []), (''piece length'', BValueNode (V_INT 4) []),
     (''pieces'', BValueNode (V_STRING (replicate 60 CHR ''h'')) [])]"

definition sample_torrent :: torrent where
  "sample_torrent = Torrent_new\<lparr>name_suggestion := ''t'', unencoded_name := ''t'', hash_pieces := replicate 3 (replicate 20 CHR ''h''),
     tor_files := [(TorrentFile 0 ''a'' 0 5 4)\<lparr>unencoded_path := [''a'']\<rparr>, (TorrentFile 1 ''b'' 5 0 4)\<lparr>unencoded_path := [''b'']\<rparr>,
       (TorrentFile 2 ''c'' 5 7 4)\<lparr>unencoded_path := [''c'']\<rparr>],
     tor_chunk_size := 4, tor_last_chunk_size := 4, total_size := 12\<rparr>"

lemma sample_loaded: "loadInfo load_sample (Some sample_info) Torrent_new = Inr sample_torrent"
  by code_simp

lemma sample_shape:
  "tor_files sample_torrent \<noteq> []" "byte_offset (tor_files sample_torrent) (length (tor_files sample_torrent)) = 12"
  "length (hash_pieces sample_torrent) = 3" "tor_chunk_size sample_torrent = 4"
  "filter (shares_byte sample_torrent 1) [0..<length (tor_files sample_torrent)] = [0, 2]"
  by (simp_all add: sample_torrent_def byte_offset_def TorrentFile_def Let_def shares_byte_def upt_rec)

theorem chunk_files_found_witness:
  "\<exists>tor'. calcChunkPos 10 1 (fold (\<lambda>(n, c) t. snd (calcChunkPos n c t)) [(5, 2), (1, 0), (3, 7)] sample_torrent) = ([0, 2], tor') \<and>
     \<not> at_empty tor'"
  using chunk_files_found [OF sample_loaded sample_shape(1), of "[(5, 2), (1, 0), (3, 7)]" 10 1] sample_shape
  by (simp add: getNumChunks_def)

section \<open>Names\<close>

lemma split_on_parts: "p \<in> set (split_on c s) \<Longrightarrow> c \<notin> set p"
  by (induction s arbitrary: p) (auto split: if_splits list.splits)

lemma set_join_with: "set (join_with sep ps) \<subseteq> (\<Union>p \<in> set ps. set p) \<union> set sep"
  by (induction sep ps rule: join_with.induct) auto

lemma join_with_inner: "2 \<le> length ps \<Longrightarrow> set sep \<subseteq> set (join_with sep ps)"
  by (cases ps rule: list.exhaust [case_product list.exhaust [of "tl ps"]]) (auto simp: neq_Nil_conv)

lemma SanityzeName_safe: "CHR ''/'' \<notin> set (SanityzeName nm) \<and> SanityzeName nm \<noteq> ''..''"
proof -
  define r1 where "r1 = (if nm \<noteq> [] \<and> last nm = CHR ''/'' then butlast nm else nm)"
  define r2 where "r2 = (if r1 \<noteq> [] \<and> hd r1 = CHR ''/'' then tl r1 else r1)"
  define ps where "ps = filter (\<lambda>p. p \<noteq> ''..'') (split_on CHR ''/'' r2)"
  have s: "SanityzeName nm = (if CHR ''/'' \<in> set r2 \<or> sublist ''..'' r2 then join_with ''_'' ps else r2)"
    by (simp add: SanityzeName_def Let_def r1_def r2_def ps_def)
  have "CHR ''/'' \<notin> set (join_with ''_'' ps)"
    using set_join_with [of "''_''" ps] split_on_parts [of _ "CHR ''/''" r2] by (auto simp: ps_def)
  moreover have "join_with ''_'' ps \<noteq> ''..''"
  proof (cases "2 \<le> length ps")
    case True
    then have "CHR ''_'' \<in> set (join_with ''_'' ps)" using join_with_inner [of ps "''_''"] by simp
    then show ?thesis by auto
  next
    case False
    then have "ps = [] \<or> (\<exists>p. ps = [p])" by (cases ps) (auto simp: not_le less_Suc_eq_0_disj Suc_le_eq)
    moreover have "''..'' \<notin> set ps" by (simp add: ps_def)
    ultimately show ?thesis by auto
  qed
  moreover have "sublist ''..'' ''..''" by simp
  ultimately show ?thesis by (auto simp: s)
qed

lemma loaded_file:
  assumes "loadInfo env info Torrent_new = Inr tor" and "f \<in> set (tor_files tor)"
  shows "\<exists>i path off sz cs parts. checkPathForDirectoryTraversal path \<and> f = (TorrentFile i path off sz cs)\<lparr>unencoded_path := parts\<rparr>"
proof -
  obtain t nm where t: "check_chunks t = Inr tor" "tor_files t \<noteq> [] \<Longrightarrow> files_loaded t" "name_suggestion t = SanityzeName nm"
    using loadInfo_loaded [OF assms(1) new_empty] by metis
  have upd: "tor = t\<lparr>tor_last_chunk_size := tor_last_chunk_size tor\<rparr>" by (rule check_chunks_keeps [OF t(1)])
  obtain i where i: "i < length (tor_files tor)" "f = tor_files tor ! i" using assms(2) by (auto simp: in_set_conv_nth)
  then have "tor_files t \<noteq> []" using last_size_same [OF upd] by auto
  then have "laid_out (tor_chunk_size tor) (tor_files tor)" using t(2) last_size_same [OF upd] by (simp add: files_loaded_def)
  then show ?thesis using i unfolding laid_out_def by blast
qed

text \<open>C16. The names of a loaded torrent stay inside of the download directory: no file has \<^verbatim>\<open>..\<close> among the parts of its path, and the suggested
  name is a single part other than \<^verbatim>\<open>..\<close>.\<close>

theorem loaded_names_stay_inside:
  assumes "loadInfo env info Torrent_new = Inr tor"
  shows "(\<forall>f \<in> set (tor_files tor). ''..'' \<notin> set (split_on CHR ''/'' (tf_path f))) \<and>
    CHR ''/'' \<notin> set (name_suggestion tor) \<and> name_suggestion tor \<noteq> ''..''"
proof -
  obtain t nm where t: "check_chunks t = Inr tor" "name_suggestion t = SanityzeName nm"
    using loadInfo_loaded [OF assms new_empty] by metis
  have upd: "tor = t\<lparr>tor_last_chunk_size := tor_last_chunk_size tor\<rparr>" by (rule check_chunks_keeps [OF t(1)])
  have "''..'' \<notin> set (split_on CHR ''/'' (tf_path f))" if f: "f \<in> set (tor_files tor)" for f
    using loaded_file [OF assms f] by (auto simp: TorrentFile_def Let_def checkPathForDirectoryTraversal_def)
  then show ?thesis using SanityzeName_safe [of nm] t(2) last_size_same(8) [OF upd] by simp
qed

theorem loaded_names_stay_inside_witness:
  "''..'' \<notin> set (split_on CHR ''/'' (tf_path (hd (tor_files sample_torrent)))) \<and>
    CHR ''/'' \<notin> set (name_suggestion sample_torrent) \<and> name_suggestion sample_torrent \<noteq> ''..''"
  using loaded_names_stay_inside [OF sample_loaded] hd_in_set [OF sample_shape(1)] by blast

section \<open>The form of a loaded torrent\<close>

lemma cut_hashes_len: "cut_hashes s = Inr hs \<Longrightarrow> \<forall>h \<in> set hs. length h = 20"
proof (induction s arbitrary: hs rule: cut_hashes.induct)
  case (1 s)
  consider "s = []" "hs = []" | hs' where "s \<noteq> []" "\<not> length s < 20" "cut_hashes (drop 20 s) = Inr hs'" "hs = take 20 s # hs'"
    using 1(2) unfolding cut_hashes.simps [of s] by (auto split: if_splits elim!: rbindE simp del: rbind_eq_Inr)
  then show ?case
  proof cases
    case (2 hs')
    then show ?thesis using 1(1) [OF 2(1-3)] by simp
  qed simp
qed

lemma loaded_hashes:
  assumes "loadInfo env info Torrent_new = Inr tor" and "h \<in> set (hash_pieces tor)"
  shows "length h = 20"
proof -
  obtain d pl t1 t2 nm t3 where l: "load_content env d (Torrent_new\<lparr>tor_chunk_size := word_of_int pl\<rparr>) = Inr t1" "loadHash d t1 = Inr t2"
    "load_private d (t2\<lparr>unencoded_name := nm, name_suggestion := SanityzeName (utf8 env nm)\<rparr>) = Inr t3" "check_chunks t3 = Inr tor"
    using assms(1) unfolding loadInfo_def by (auto split: option.splits elim!: rbindE simp del: rbind_eq_Inr)
  have "hash_pieces tor = hash_pieces t2"
    using last_size_same(4) [OF check_chunks_keeps [OF l(4)]] l(3) by (auto simp: load_private_def split: option.splits if_splits)
  moreover have "hash_pieces t1 = []"
  proof (cases "getList d ''files''")
    case None
    then show ?thesis using l(1) by (auto simp: load_content_def result_simps Torrent_new_def)
  next
    case (Some fl)
    have "files_loaded (Torrent_new\<lparr>tor_chunk_size := word_of_int pl\<rparr>)" by (simp add: files_loaded_def laid_out_def byte_offset_def Torrent_new_def)
    from loadFiles_loaded [OF this] show ?thesis using l(1) Some by (auto simp: load_content_def Torrent_new_def)
  qed
  ultimately show ?thesis using l(2) assms(2) by (auto simp: loadHash_def dest: cut_hashes_len elim!: rbindE)
qed

lemma of_nat_byte_offset: "of_nat (byte_offset fs i) = sum_list (map tf_size (take i fs))"
proof -
  have "of_nat (sum_list (map (\<lambda>f. unat (tf_size f)) gs)) = sum_list (map tf_size gs)" for gs by (induction gs) simp_all
  then show ?thesis by (simp add: byte_offset_def)
qed

lemma TorrentFile_place:
  "tf_index ((TorrentFile i path off sz cs)\<lparr>unencoded_path := parts\<rparr>) = i"
  "cache_offset ((TorrentFile i path off sz cs)\<lparr>unencoded_path := parts\<rparr>) = off"
  by (simp_all add: TorrentFile_def Let_def)

lemma loaded_sizes:
  assumes "check_chunks t = Inr tor"
  shows "tor_chunk_size tor \<noteq> 0" and "0 < tor_last_chunk_size tor" and "tor_last_chunk_size tor \<le> tor_chunk_size tor"
    and "tor_last_chunk_size tor mod tor_chunk_size tor = total_size tor mod tor_chunk_size tor"
    and "of_nat (length (hash_pieces tor)) = (ucast (total_size tor div tor_chunk_size tor) :: u32) + (if tor_last_chunk_size tor = tor_chunk_size tor then 0 else 1)"
proof -
  let ?r = "total_size t mod tor_chunk_size t"
  note same = last_size_same [OF check_chunks_keeps [OF assms]]
  have nz: "tor_chunk_size t \<noteq> 0" using assms by (auto simp: check_chunks_def split: if_splits)
  have "unat ?r < unat (tor_chunk_size t)" using nz by (simp add: unat_mod unat_gt_0)
  then have r: "?r < tor_chunk_size t" by (simp add: word_less_nat_alt)
  have l: "tor_last_chunk_size tor = (if ?r > 0 then ?r else tor_chunk_size t)"
    "of_nat (length (hash_pieces t)) = (if ?r > 0 then (ucast (total_size t div tor_chunk_size t) :: u32) + 1 else ucast (total_size t div tor_chunk_size t))"
    using assms nz by (auto simp: check_chunks_def Let_def split: if_splits)
  show "tor_chunk_size tor \<noteq> 0" using nz by (simp add: same)
  show "0 < tor_last_chunk_size tor" "tor_last_chunk_size tor \<le> tor_chunk_size tor" using l(1) r nz by (auto simp: same word_greater_zero_iff)
  show "tor_last_chunk_size tor mod tor_chunk_size tor = total_size tor mod tor_chunk_size tor"
    using l(1) by (auto simp: same word_greater_zero_iff word_unat_eq_iff unat_mod)
  show "of_nat (length (hash_pieces tor)) = (ucast (total_size tor div tor_chunk_size tor) :: u32) + (if tor_last_chunk_size tor = tor_chunk_size tor then 0 else 1)"
    using l r by (auto simp: same)
qed

text \<open>C15. A torrent that is loaded is well formed: the length of a piece is not zero, every hash has twenty bytes and there are as many of them as the
  sizes demand, the last piece is not empty and not longer than the others, and the files have consecutive numbers and lie one behind the
  other, the first at the start and the last ending at the total size.\<close>

theorem loaded_wellformed:
  assumes "loadInfo env info Torrent_new = Inr tor"
  shows "tor_chunk_size tor \<noteq> 0 \<and> (\<forall>h \<in> set (hash_pieces tor). length h = 20) \<and>
    0 < tor_last_chunk_size tor \<and> tor_last_chunk_size tor \<le> tor_chunk_size tor \<and>
    tor_last_chunk_size tor mod tor_chunk_size tor = total_size tor mod tor_chunk_size tor \<and>
    of_nat (length (hash_pieces tor)) =
      (ucast (total_size tor div tor_chunk_size tor) :: u32) + (if tor_last_chunk_size tor = tor_chunk_size tor then 0 else 1) \<and>
    (\<forall>i < length (tor_files tor). tf_index (tor_files tor ! i) = i \<and>
       cache_offset (tor_files tor ! i) = sum_list (map tf_size (take i (tor_files tor)))) \<and>
    (tor_files tor \<noteq> [] \<longrightarrow> total_size tor = sum_list (map tf_size (tor_files tor)))"
proof -
  obtain t where t: "check_chunks t = Inr tor" "tor_files t \<noteq> [] \<Longrightarrow> files_loaded t"
    using loadInfo_loaded [OF assms new_empty] by metis
  note same = last_size_same [OF check_chunks_keeps [OF t(1)]]
  have fl: "laid_out (tor_chunk_size tor) (tor_files tor) \<and> total_size tor = sum_list (map tf_size (tor_files tor))" if "tor_files tor \<noteq> []"
    using t(2) that by (simp add: same files_loaded_def of_nat_byte_offset)
  have "tf_index (tor_files tor ! i) = i \<and> cache_offset (tor_files tor ! i) = sum_list (map tf_size (take i (tor_files tor)))"
    if i: "i < length (tor_files tor)" for i
  proof -
    have "tor_files tor \<noteq> []" using i by (cases "tor_files tor") simp_all
    then have "laid_out (tor_chunk_size tor) (tor_files tor)" using fl by blast
    then obtain path parts where "tor_files tor ! i =
        (TorrentFile i path (of_nat (byte_offset (tor_files tor) i)) (tf_size (tor_files tor ! i)) (tor_chunk_size tor))\<lparr>unencoded_path := parts\<rparr>"
      using i unfolding laid_out_def by blast
    then have "tf_index (tor_files tor ! i) = i \<and> cache_offset (tor_files tor ! i) = of_nat (byte_offset (tor_files tor) i)"
      by (metis (no_types, lifting) TorrentFile_place)
    then show ?thesis by (simp add: of_nat_byte_offset)
  qed
  then show ?thesis using loaded_sizes [OF t(1)] loaded_hashes [OF assms] fl by blast
qed

theorem loaded_wellformed_witness:
  "total_size sample_torrent = sum_list (map tf_size (tor_files sample_torrent)) \<and> length (hd (hash_pieces sample_torrent)) = 20 \<and>
    tor_last_chunk_size sample_torrent \<le> tor_chunk_size sample_torrent"
proof -
  have "hd (hash_pieces sample_torrent) \<in> set (hash_pieces sample_torrent)" using sample_shape(3) by (intro hd_in_set) auto
  then show ?thesis using loaded_wellformed [OF sample_loaded] sample_shape(1) by blast
qed

text \<open>A description with a piece length of zero ends in a division by zero, and one whose hashes are cut off in a read out of range.\<close>

lemma zero_piece_length:
  assumes "dict_getInt64 d ''piece length'' = Inr 0" and "getList d ''files'' = None" and "dict_getInt64 d ''length'' = Inr len"
    and "dict_getByteArray d ''pieces'' = Inr []" and "dict_getByteArray d ''name'' = Inr nm" and "getValue d ''private'' = None"
  shows "loadInfo env (Some d) tor = Inl Division_by_zero"
  using assms by (simp add: loadInfo_def load_content_def from_access_def loadHash_def cut_hashes.simps load_private_def check_chunks_def)

lemma short_hashes:
  assumes "dict_getByteArray d ''pieces'' = Inr s" and "length s mod 20 \<noteq> 0"
  shows "loadHash d tor = Inl Slice_out_of_range"
proof -
  have "cut_hashes s = Inl Slice_out_of_range" using assms(2)
  proof (induction s rule: cut_hashes.induct)
    case (1 s)
    then show ?case by (subst cut_hashes.simps) (auto simp: mod_if [of "length s"] le_mod_geq)
  qed
  then show ?thesis using assms(1) by (simp add: loadHash_def from_access_def)
qed

end
