(* ===== verification/ChunkManager.thy ===== *)
theory ChunkManager
  imports Torrent BitSet
begin

text \<open>
  The chunk manager, \<^verbatim>\<open>src/src/diskio/chunkmanager.cpp\<close> and \<^verbatim>\<open>chunk.h\<close>, with the priorities of files,
  \<^verbatim>\<open>src/src/torrent/torrentfile.cpp\<close>. Which chunks are on disk, which of them are excluded or only to be seeded, which are still to
  be downloaded and how urgent they are; the files of a torrent change their priorities, and a chunk that lies in several files is kept as
  long as one of them needs it.

  The torrent, with its files, is part of the state. Calls of the cache and the signals that concern ranges of chunks are recorded in
  order (\<open>cm_events\<close>), statistics signals are left out. The files of the chunk manager are lists: the index file of chunk numbers, the files of
  priorities and of excluded files of the 32-bit numbers in them; they can always be written. An access behind the end of a vector sets
  \<open>cm_fault\<close>.
\<close>

section \<open>State\<close>

datatype chunk_status = ON_DISK | NOT_DOWNLOADED

record cm_chunk =
  ck_status :: chunk_status
  ck_size :: u32
  ck_priority :: priority

datatype cm_event = Ev_excluded nat nat | Ev_included nat nat | Ev_clearPieces nat | Ev_cacheStatus nat bool | Ev_create

record cm_env =
  mime :: "string \<Rightarrow> file_type"
  preview_size_audio :: u32
  preview_size_video :: u32

record chunk_manager =
  cm_tor :: torrent
  cm_chunks :: "cm_chunk list"
  have_bits :: bitset
  excluded_chunks :: bitset
  only_seed_chunks :: bitset
  todo_bits :: bitset
  chunks_left :: nat
  recalc_chunks_left :: bool
  during_load :: bool
  border_chunks :: "nat set"
  index_file :: "nat list option"
  file_info_file :: "nat list option"
  file_priority_file :: "nat list option"
  cm_events :: "cm_event list"
  cm_fault :: bool

definition cm_file :: "chunk_manager \<Rightarrow> nat \<Rightarrow> torrent_file" where
  "cm_file cm f = tor_files (cm_tor cm) ! f"

definition upd_file :: "nat \<Rightarrow> (torrent_file \<Rightarrow> torrent_file) \<Rightarrow> chunk_manager \<Rightarrow> chunk_manager" where
  "upd_file f g cm = cm\<lparr>cm_tor := (cm_tor cm)\<lparr>tor_files := (tor_files (cm_tor cm))[f := g (tor_files (cm_tor cm) ! f)]\<rparr>\<rparr>"

definition upd_chunk :: "nat \<Rightarrow> (cm_chunk \<Rightarrow> cm_chunk) \<Rightarrow> chunk_manager \<Rightarrow> chunk_manager" where
  "upd_chunk i g cm = cm\<lparr>cm_chunks := (cm_chunks cm)[i := g (cm_chunks cm ! i)]\<rparr>"

definition emit_event :: "cm_event \<Rightarrow> chunk_manager \<Rightarrow> chunk_manager" where
  "emit_event e cm = cm\<lparr>cm_events := cm_events cm @ [e]\<rparr>"

definition isExcluded :: "cm_chunk \<Rightarrow> bool" where
  "isExcluded c \<longleftrightarrow> ck_priority c = EXCLUDED"

definition setExclude :: "bool \<Rightarrow> cm_chunk \<Rightarrow> cm_chunk" where
  "setExclude yes c = c\<lparr>ck_priority := (if yes then EXCLUDED else NORMAL_PRIORITY)\<rparr>"

definition isBorderChunk :: "chunk_manager \<Rightarrow> nat \<Rightarrow> bool" where
  "isBorderChunk cm i \<longleftrightarrow> i \<in> border_chunks cm"

text \<open>The files of a chunk, with the position the torrent remembers.\<close>

definition cm_files_of :: "nat \<Rightarrow> chunk_manager \<Rightarrow> nat list \<times> chunk_manager" where
  "cm_files_of i cm = (let (fl, tor) = calcChunkPos INT_MAX i (cm_tor cm) in (fl, cm\<lparr>cm_tor := tor\<rparr>))"

section \<open>Percentages and previews\<close>

definition previewChunkRangeSize :: "cm_env \<Rightarrow> u64 \<Rightarrow> torrent_file \<Rightarrow> nat" where
  "previewChunkRangeSize env csize tf =
     (if \<not> isMultimedia (mime env) tf then 0
      else if first_chunk tf = last_chunk tf then 1
      else let preview_size = (if isVideo (mime env) tf then preview_size_video env else preview_size_audio env);
               nchunks = unat (ucast ((ucast preview_size :: u64) div csize) :: u32)
           in if nchunks = 0 then 1 else nchunks)"

definition updateNumDownloadedChunks :: "cm_env \<Rightarrow> bitset \<Rightarrow> u64 \<Rightarrow> torrent_file \<Rightarrow> torrent_file" where
  "updateNumDownloadedChunks env bs csize tf =
     (let preview_range = previewChunkRangeSize env csize tf; is = [first_chunk tf..<Suc (last_chunk tf)]
      in tf\<lparr>num_chunks_downloaded := length (filter (bs_get bs) is),
            preview := isMultimedia (mime env) tf \<and>
              list_all (\<lambda>i. bs_get bs i \<or> \<not> (preview_range > 0 \<and> i < (first_chunk tf + preview_range) mod 2 ^ 32)) is\<rparr>)"

definition update_file :: "cm_env \<Rightarrow> nat \<Rightarrow> chunk_manager \<Rightarrow> chunk_manager" where
  "update_file env f cm = upd_file f (updateNumDownloadedChunks env (have_bits cm) (tor_chunk_size (cm_tor cm))) cm"

definition updateFilePercentage :: "cm_env \<Rightarrow> chunk_manager \<Rightarrow> chunk_manager" where
  "updateFilePercentage env cm = fold (update_file env) [0..<length (tor_files (cm_tor cm))] cm"

definition updateFilePercentage_of :: "cm_env \<Rightarrow> nat \<Rightarrow> chunk_manager \<Rightarrow> chunk_manager" where
  "updateFilePercentage_of env i cm = (let (fl, cm1) = cm_files_of i cm in fold (update_file env) fl cm1)"

section \<open>Single chunks and ranges\<close>

definition resetChunk :: "cm_env \<Rightarrow> nat \<Rightarrow> chunk_manager \<Rightarrow> chunk_manager" where
  "resetChunk env i cm =
     (if i \<ge> length (cm_chunks cm) \<or> during_load cm then cm
      else let cm1 = upd_chunk i (\<lambda>c. c\<lparr>ck_status := NOT_DOWNLOADED\<rparr>) (emit_event (Ev_clearPieces i) cm);
               cm2 = cm1\<lparr>have_bits := bs_set i False (have_bits cm1),
                         todo_bits := bs_set i (\<not> bs_get (excluded_chunks cm1) i \<and> \<not> bs_get (only_seed_chunks cm1) i) (todo_bits cm1)\<rparr>
           in updateFilePercentage_of env i cm2)"

definition writeIndexFileEntry :: "nat \<Rightarrow> chunk_manager \<Rightarrow> chunk_manager" where
  "writeIndexFileEntry i cm = cm\<lparr>index_file := Some ((case index_file cm of None \<Rightarrow> [] | Some l \<Rightarrow> l) @ [i])\<rparr>"

definition chunkDownloaded :: "cm_env \<Rightarrow> nat \<Rightarrow> chunk_manager \<Rightarrow> chunk_manager" where
  "chunkDownloaded env i cm =
     (if i \<ge> length (cm_chunks cm) then cm
      else if \<not> isExcluded (cm_chunks cm ! i) then
        updateFilePercentage_of env i (upd_chunk i (\<lambda>c. c\<lparr>ck_status := ON_DISK\<rparr>) (writeIndexFileEntry i
          (cm\<lparr>have_bits := bs_set i True (have_bits cm), todo_bits := bs_set i False (todo_bits cm), recalc_chunks_left := True\<rparr>)))
      else cm)"

text \<open>The indices of \<^verbatim>\<open>while (i <= to && i < chunks.size())\<close>, after the swap of the bounds.\<close>

definition chunk_range :: "nat \<Rightarrow> nat \<Rightarrow> chunk_manager \<Rightarrow> nat list" where
  "chunk_range a b cm = (let (lo, hi) = (if a > b then (b, a) else (a, b)) in [lo..<min (Suc hi) (length (cm_chunks cm))])"

definition prioritise_chunk :: "priority \<Rightarrow> nat \<Rightarrow> chunk_manager \<Rightarrow> chunk_manager" where
  "prioritise_chunk p i cm =
     (let cm1 = upd_chunk i (\<lambda>c. c\<lparr>ck_priority := p\<rparr>) cm in
      if p = ONLY_SEED_PRIORITY then cm1\<lparr>only_seed_chunks := bs_set i True (only_seed_chunks cm1), todo_bits := bs_set i False (todo_bits cm1)\<rparr>
      else if p = EXCLUDED then cm1\<lparr>only_seed_chunks := bs_set i False (only_seed_chunks cm1), todo_bits := bs_set i False (todo_bits cm1)\<rparr>
      else cm1\<lparr>only_seed_chunks := bs_set i False (only_seed_chunks cm1),
               todo_bits := bs_set i (\<not> bs_get (have_bits cm1) i) (todo_bits cm1)\<rparr>)"

definition prioritise :: "nat \<Rightarrow> nat \<Rightarrow> priority \<Rightarrow> chunk_manager \<Rightarrow> chunk_manager" where
  "prioritise a b p cm = fold (prioritise_chunk p) (chunk_range a b cm) cm"

fun preview_priority :: "priority \<Rightarrow> priority" where
  "preview_priority FIRST_PRIORITY = FIRST_PREVIEW_PRIORITY"
| "preview_priority NORMAL_PRIORITY = NORMAL_PREVIEW_PRIORITY"
| "preview_priority LAST_PRIORITY = LAST_PREVIEW_PRIORITY"
| "preview_priority p = p"

definition prioritisePreview :: "nat \<Rightarrow> nat \<Rightarrow> chunk_manager \<Rightarrow> chunk_manager" where
  "prioritisePreview a b cm = fold (\<lambda>i. upd_chunk i (\<lambda>c. c\<lparr>ck_priority := preview_priority (ck_priority c)\<rparr>)) (chunk_range a b cm) cm"

definition exclude_chunk :: "nat \<Rightarrow> chunk_manager \<Rightarrow> chunk_manager" where
  "exclude_chunk i cm = (upd_chunk i (setExclude True) cm)\<lparr>excluded_chunks := bs_set i True (excluded_chunks cm),
     only_seed_chunks := bs_set i False (only_seed_chunks cm), todo_bits := bs_set i False (todo_bits cm),
     have_bits := bs_set i False (have_bits cm)\<rparr>"

definition exclude_range :: "nat \<Rightarrow> nat \<Rightarrow> chunk_manager \<Rightarrow> chunk_manager" where
  "exclude_range a b cm = emit_event (Ev_excluded (min a b) (max a b)) ((fold exclude_chunk (chunk_range a b cm) cm)\<lparr>recalc_chunks_left := True\<rparr>)"

definition include_chunk :: "nat \<Rightarrow> chunk_manager \<Rightarrow> chunk_manager" where
  "include_chunk i cm = (upd_chunk i (setExclude False) cm)\<lparr>excluded_chunks := bs_set i False (excluded_chunks cm),
     todo_bits := (if bs_get (have_bits cm) i then todo_bits cm else bs_set i True (todo_bits cm))\<rparr>"

definition include_range :: "nat \<Rightarrow> nat \<Rightarrow> chunk_manager \<Rightarrow> chunk_manager" where
  "include_range a b cm = emit_event (Ev_included (min a b) (max a b)) ((fold include_chunk (chunk_range a b cm) cm)\<lparr>recalc_chunks_left := True\<rparr>)"

section \<open>Statistics\<close>

definition recalculateChunksLeft :: "chunk_manager \<Rightarrow> chunk_manager" where
  "recalculateChunksLeft cm =
     (if \<not> recalc_chunks_left cm then cm
      else cm\<lparr>chunks_left := length (filter (\<lambda>i. \<not> bs_get (have_bits cm) i \<and> \<not> isExcluded (cm_chunks cm ! i)) [0..<length (cm_chunks cm)]),
              recalc_chunks_left := False\<rparr>)"

definition cm_completed :: "chunk_manager \<Rightarrow> bool" where
  "cm_completed cm \<longleftrightarrow> num_on (todo_bits cm) = 0 \<and> num_on (have_bits cm) > 0"

definition haveAllChunks :: "chunk_manager \<Rightarrow> bool" where
  "haveAllChunks cm \<longleftrightarrow> num_on (have_bits cm) = of_nat (num_bits (have_bits cm))"

text \<open>The last chunk may be smaller than the others.\<close>

definition bytes_of_chunks :: "bool \<Rightarrow> u32 \<Rightarrow> chunk_manager \<Rightarrow> u64" where
  "bytes_of_chunks last_too num cm =
     (let csize = tor_chunk_size (cm_tor cm) in
      if last_too then ucast (num - 1) * csize + ucast (ck_size (last (cm_chunks cm))) else ucast num * csize)"

definition bytesLeft :: "chunk_manager \<Rightarrow> u64" where
  "bytesLeft cm = bytes_of_chunks (cm_chunks cm \<noteq> [] \<and> \<not> bs_get (have_bits cm) (length (cm_chunks cm) - 1))
     (of_nat (num_bits (have_bits cm)) - num_on (have_bits cm)) cm"

definition bytesLeftToDownload :: "chunk_manager \<Rightarrow> u64" where
  "bytesLeftToDownload cm = bytes_of_chunks (cm_chunks cm \<noteq> [] \<and> bs_get (todo_bits cm) (length (cm_chunks cm) - 1)) (num_on (todo_bits cm)) cm"

definition bytesExcluded :: "chunk_manager \<Rightarrow> u64" where
  "bytesExcluded cm = bytes_of_chunks (bs_get (excluded_chunks cm) (length (cm_chunks cm) - 1)) (num_on (excluded_chunks cm)) cm +
     bytes_of_chunks (bs_get (only_seed_chunks cm) (length (cm_chunks cm) - 1)) (num_on (only_seed_chunks cm)) cm"

definition chunksExcluded :: "chunk_manager \<Rightarrow> u32" where
  "chunksExcluded cm = num_on (excluded_chunks cm) + num_on (only_seed_chunks cm)"

section \<open>Files of the chunk manager\<close>

definition dnd_files :: "chunk_manager \<Rightarrow> nat list" where
  "dnd_files cm = filter (\<lambda>f. doNotDownload (cm_file cm f)) [0..<length (tor_files (cm_tor cm))]"

definition saveFileInfo :: "chunk_manager \<Rightarrow> chunk_manager" where
  "saveFileInfo cm = (if during_load cm then cm else cm\<lparr>file_info_file := Some (length (dnd_files cm) # dnd_files cm)\<rparr>)"

definition prio_entries :: "chunk_manager \<Rightarrow> nat list" where
  "prio_entries cm = concat (map (\<lambda>f. [f, prio_value (tf_priority (cm_file cm f))])
     (filter (\<lambda>f. tf_priority (cm_file cm f) \<noteq> NORMAL_PRIORITY) [0..<length (tor_files (cm_tor cm))]))"

definition savePriorityInfo :: "chunk_manager \<Rightarrow> chunk_manager" where
  "savePriorityInfo cm =
     (if during_load cm then cm
      else let cm1 = saveFileInfo cm in cm1\<lparr>file_priority_file := Some (length (prio_entries cm1) # prio_entries cm1)\<rparr>)"

definition saveIndexFile :: "chunk_manager \<Rightarrow> chunk_manager" where
  "saveIndexFile cm = savePriorityInfo (cm\<lparr>index_file := Some (filter (\<lambda>i. ck_status (cm_chunks cm ! i) \<noteq> NOT_DOWNLOADED)
     [0..<length (cm_chunks cm)])\<rparr>)"

section \<open>Priorities of files\<close>

definition createBorderChunkSet :: "chunk_manager \<Rightarrow> chunk_manager" where
  "createBorderChunkSet cm = fold (\<lambda>i cm. if last_chunk (cm_file cm i) = first_chunk (cm_file cm (i + 1))
       then cm\<lparr>border_chunks := insert (last_chunk (cm_file cm i)) (border_chunks cm)\<rparr> else cm)
     [0..<length (tor_files (cm_tor cm)) - 1] cm"

definition setBorderChunkPriority :: "nat \<Rightarrow> priority \<Rightarrow> chunk_manager \<Rightarrow> chunk_manager" where
  "setBorderChunkPriority idx prio cm =
     (let (fl, cm1) = cm_files_of idx cm;
          highest = fold (\<lambda>f h. if tf_priority (cm_file cm1 f) > h then tf_priority (cm_file cm1 f) else h) fl prio;
          cm2 = prioritise idx idx highest cm1
      in if highest = ONLY_SEED_PRIORITY then emit_event (Ev_excluded idx idx) cm2 else cm2)"

definition resetBorderChunk :: "cm_env \<Rightarrow> nat \<Rightarrow> nat \<Rightarrow> chunk_manager \<Rightarrow> bool \<times> chunk_manager" where
  "resetBorderChunk env idx f cm =
     (let (fl, cm1) = cm_files_of idx cm in
      case find (\<lambda>g. g \<noteq> f \<and> \<not> doNotDownload (cm_file cm1 g)) fl of
        Some g \<Rightarrow> (False, setBorderChunkPriority idx (tf_priority (cm_file cm1 g)) cm1)
      | None \<Rightarrow> (True, resetChunk env idx cm1))"

definition doPreviewPriority :: "cm_env \<Rightarrow> nat \<Rightarrow> chunk_manager \<Rightarrow> chunk_manager" where
  "doPreviewPriority env f cm =
     (let tf = cm_file cm f; nchunks = previewChunkRangeSize env (tor_chunk_size (cm_tor cm)) tf in
      if tf_priority tf = EXCLUDED \<or> tf_priority tf = ONLY_SEED_PRIORITY then cm
      else if first_chunk tf = last_chunk tf then prioritisePreview (first_chunk tf) (last_chunk tf) cm
      else if nchunks = 0 then cm
      else let cm1 = prioritisePreview (first_chunk tf) ((first_chunk tf + nchunks) mod 2 ^ 32) cm in
        if last_chunk tf - first_chunk tf > nchunks then prioritisePreview (last_chunk tf - nchunks) (last_chunk tf) cm1 else cm1)"

definition status_done :: "cm_env \<Rightarrow> nat \<Rightarrow> bool \<Rightarrow> chunk_manager \<Rightarrow> chunk_manager" where
  "status_done env f download cm =
     (let cm1 = savePriorityInfo (emit_event (Ev_cacheStatus f download) cm)
      in if during_load cm1 then cm1 else updateFilePercentage env cm1)"

text \<open>Giving up a chunk: it is reset unless it lies in another file that still needs it.\<close>

definition release :: "cm_env \<Rightarrow> nat \<Rightarrow> nat \<Rightarrow> chunk_manager \<Rightarrow> bool \<times> chunk_manager" where
  "release env f c cm = (if \<not> isBorderChunk cm c then (True, resetChunk env c cm) else resetBorderChunk env c f cm)"

text \<open>The two branches of \<^verbatim>\<open>downloadStatusChanged(tf, false)\<close>: a file in one chunk, and a file in several chunks.\<close>

definition exclude_single :: "cm_env \<Rightarrow> nat \<Rightarrow> nat \<Rightarrow> chunk_manager \<Rightarrow> chunk_manager" where
  "exclude_single env f fc cm = (let (r, cm1) = release env f fc cm in if r then exclude_range fc fc cm1 else cm1)"

definition exclude_several :: "cm_env \<Rightarrow> nat \<Rightarrow> nat \<Rightarrow> nat \<Rightarrow> chunk_manager \<Rightarrow> chunk_manager" where
  "exclude_several env f fc lc cm =
     (let cm1 = fold (resetChunk env) [fc + 1..<lc] cm;
          (r, cm2) = release env f fc cm1;
          fc' = (if r then fc else fc + 1);
          (q, cm3) = (if lc \<noteq> fc' then release env f lc cm2 else (True, cm2));
          lc' = (if q then lc else lc - 1)
      in if fc' \<le> lc' then exclude_range fc' lc' cm3 else cm3)"

definition downloadStatusChanged :: "cm_env \<Rightarrow> nat \<Rightarrow> bool \<Rightarrow> chunk_manager \<Rightarrow> chunk_manager" where
  "downloadStatusChanged env f download cm =
     (let first = first_chunk (cm_file cm f); lc = last_chunk (cm_file cm f) in
      if download then
        (let cm1 = include_range first lc cm
         in status_done env f True (if isMultimedia (mime env) (cm_file cm1 f) then doPreviewPriority env f cm1 else cm1))
      else if first = lc then status_done env f False (exclude_single env f first cm)
      else status_done env f False (exclude_several env f first lc cm))"

definition prioritise_single :: "nat \<Rightarrow> priority \<Rightarrow> chunk_manager \<Rightarrow> chunk_manager" where
  "prioritise_single first newp cm =
     (let cm1 = (if isBorderChunk cm first then setBorderChunkPriority first newp cm else prioritise first first newp cm)
      in if newp = ONLY_SEED_PRIORITY then emit_event (Ev_excluded first first) cm1 else cm1)"

definition prioritise_several :: "nat \<Rightarrow> nat \<Rightarrow> priority \<Rightarrow> chunk_manager \<Rightarrow> chunk_manager" where
  "prioritise_several first lc newp cm =
     (let (first', cm1) = (if isBorderChunk cm first then (first + 1, setBorderChunkPriority first newp cm) else (first, cm));
          (lc', cm2) = (if isBorderChunk cm1 lc then (lc - 1, setBorderChunkPriority lc newp cm1) else (lc, cm1))
      in if first' \<le> lc' then
           (let cm3 = prioritise first' lc' newp cm2
            in if newp = ONLY_SEED_PRIORITY then emit_event (Ev_excluded first' lc') cm3 else cm3)
         else cm2)"

definition downloadPriorityChanged :: "cm_env \<Rightarrow> nat \<Rightarrow> priority \<Rightarrow> priority \<Rightarrow> chunk_manager \<Rightarrow> chunk_manager" where
  "downloadPriorityChanged env f newp oldp cm =
     (if newp = EXCLUDED then downloadStatusChanged env f False cm
      else let cm1 = savePriorityInfo (if oldp = EXCLUDED then downloadStatusChanged env f True cm else cm);
               first = first_chunk (cm_file cm1 f); lc = last_chunk (cm_file cm1 f);
               cm2 = (if oldp = ONLY_SEED_PRIORITY then include_range first lc cm1 else cm1);
               cm3 = (if first = lc then prioritise_single first newp cm2 else prioritise_several first lc newp cm2)
           in if isMultimedia (mime env) (cm_file cm3 f) then doPreviewPriority env f cm3 else cm3)"

definition setDoNotDownload :: "cm_env \<Rightarrow> nat \<Rightarrow> bool \<Rightarrow> chunk_manager \<Rightarrow> chunk_manager" where
  "setDoNotDownload env f dnd cm =
     (let change = (\<lambda>p cm. let emit = emit_status_changed (cm_file cm f);
            cm1 = (if emit then upd_file f (\<lambda>tf. tf\<lparr>old_priority := tf_priority tf\<rparr>) cm else cm);
            cm2 = upd_file f (\<lambda>tf. tf\<lparr>tf_priority := p\<rparr>) cm1
            in if emit then downloadPriorityChanged env f p (old_priority (cm_file cm2 f)) cm2 else cm2);
          cm1 = (if tf_priority (cm_file cm f) \<noteq> EXCLUDED \<and> dnd then change EXCLUDED cm else cm)
      in if tf_priority (cm_file cm1 f) = EXCLUDED \<and> \<not> dnd then change NORMAL_PRIORITY cm1 else cm1)"

definition setPriority :: "cm_env \<Rightarrow> nat \<Rightarrow> priority \<Rightarrow> chunk_manager \<Rightarrow> chunk_manager" where
  "setPriority env f newp cm =
     (if tf_priority (cm_file cm f) = newp then cm
      else let cm1 = (if tf_priority (cm_file cm f) = EXCLUDED then setDoNotDownload env f False cm else cm) in
        if newp = EXCLUDED then setDoNotDownload env f True cm1
        else let cm2 = upd_file f (\<lambda>tf. tf\<lparr>old_priority := tf_priority tf, tf_priority := newp\<rparr>) cm1
             in downloadPriorityChanged env f newp (old_priority (cm_file cm2 f)) cm2)"

definition emitDownloadStatusChanged :: "cm_env \<Rightarrow> nat \<Rightarrow> chunk_manager \<Rightarrow> chunk_manager" where
  "emitDownloadStatusChanged env f cm =
     (let tf = cm_file cm f in
      if tf_priority tf \<noteq> old_priority tf then downloadPriorityChanged env f (tf_priority tf) (old_priority tf) cm else cm)"

section \<open>Start, loading and checks\<close>

definition setupPriorities :: "cm_env \<Rightarrow> chunk_manager \<Rightarrow> chunk_manager" where
  "setupPriorities env cm =
     (if isMultiFile (cm_tor cm) then
        (let cm1 = createBorderChunkSet cm
         in fold (\<lambda>f cm. if isMultimedia (mime env) (cm_file cm f) then doPreviewPriority env f cm else cm) [0..<length (tor_files (cm_tor cm1))] cm1)
      else if mime env (name_suggestion (cm_tor cm)) = AUDIO \<or> mime env (name_suggestion (cm_tor cm)) = VIDEO then
        (let preview_size = (if mime env (name_suggestion (cm_tor cm)) = VIDEO then preview_size_video env else preview_size_audio env);
             n = unat (ucast ((ucast preview_size :: u64) div tor_chunk_size (cm_tor cm)) :: u32); nchunks = (if n = 0 then 1 else n);
             cm1 = prioritisePreview 0 nchunks cm; num = getNumChunks (cm_tor cm1)
         in if num > nchunks then prioritisePreview (num - nchunks) (num - 1) cm1 else cm1)
      else cm)"

definition ChunkManager_new :: "cm_env \<Rightarrow> torrent \<Rightarrow> nat list option \<Rightarrow> nat list option \<Rightarrow> nat list option \<Rightarrow> chunk_manager" where
  "ChunkManager_new env tor idx_file info_file prio_file =
     (let n = getNumChunks tor;
          lsize = total_size tor - tor_chunk_size tor * of_nat (n - 1)
      in setupPriorities env \<lparr>cm_tor = tor,
           cm_chunks = map (\<lambda>i. \<lparr>ck_status = NOT_DOWNLOADED, ck_size = ucast (if i + 1 < n then tor_chunk_size tor else lsize),
             ck_priority = NORMAL_PRIORITY\<rparr>) [0..<n],
           have_bits = bs_new n, excluded_chunks = bs_new n, only_seed_chunks = bs_new n, todo_bits = bs_setAll True (bs_new n),
           chunks_left = 0, recalc_chunks_left = True, during_load = False, border_chunks = {},
           index_file = idx_file, file_info_file = info_file, file_priority_file = prio_file, cm_events = [], cm_fault = False\<rparr>)"

definition createFiles :: "cm_env \<Rightarrow> bool \<Rightarrow> chunk_manager \<Rightarrow> chunk_manager" where
  "createFiles env check_priority cm =
     (let cm1 = emit_event Ev_create (cm\<lparr>index_file := Some (case index_file cm of None \<Rightarrow> [] | Some l \<Rightarrow> l)\<rparr>) in
      if check_priority then
        savePriorityInfo ((fold (\<lambda>f cm. let tf = cm_file cm f in
            if tf_priority tf \<noteq> NORMAL_PRIORITY then downloadPriorityChanged env f (tf_priority tf) (old_priority tf) cm else cm)
          [0..<length (tor_files (cm_tor cm1))] (cm1\<lparr>during_load := True\<rparr>))\<lparr>during_load := False\<rparr>)
      else cm1)"

text \<open>\<^verbatim>\<open>loadFileInfo\<close>: the first number is the number of entries; the loop stops where the file ends.\<close>

fun load_dnd :: "cm_env \<Rightarrow> nat \<Rightarrow> nat list \<Rightarrow> chunk_manager \<Rightarrow> chunk_manager" where
  "load_dnd env n [] cm = cm"
| "load_dnd env n (w # ws) cm = (if n = 0 then cm else load_dnd env (n - 1) ws
     (if w < length (tor_files (cm_tor cm)) \<and> tf_path (cm_file cm w) \<noteq> [] then setDoNotDownload env w True cm else cm))"

definition loadFileInfo :: "cm_env \<Rightarrow> chunk_manager \<Rightarrow> chunk_manager" where
  "loadFileInfo env cm = (case file_info_file cm of Some (n # ws) \<Rightarrow> load_dnd env n ws cm | _ \<Rightarrow> cm)"

fun load_prios :: "cm_env \<Rightarrow> nat list \<Rightarrow> chunk_manager \<Rightarrow> chunk_manager" where
  "load_prios env [] cm = cm"
| "load_prios env [f] cm =
     (if f \<ge> length (tor_files (cm_tor cm)) then loadFileInfo env cm else if tf_path (cm_file cm f) = [] then cm else cm\<lparr>cm_fault := True\<rparr>)"
| "load_prios env (f # v # ws) cm =
     (if f \<ge> length (tor_files (cm_tor cm)) then loadFileInfo env cm
      else load_prios env ws
        (if tf_path (cm_file cm f) = [] then cm
         else if v = prio_value FIRST_PRIORITY then setPriority env f FIRST_PRIORITY cm
         else if v = prio_value NORMAL_PRIORITY then cm
         else if v = prio_value EXCLUDED then setPriority env f EXCLUDED cm
         else if v = prio_value ONLY_SEED_PRIORITY then setPriority env f ONLY_SEED_PRIORITY cm
         else setPriority env f LAST_PRIORITY cm))"

definition loadPriorityInfo :: "cm_env \<Rightarrow> chunk_manager \<Rightarrow> chunk_manager" where
  "loadPriorityInfo env cm = (case file_priority_file cm of
     Some (num # ws) \<Rightarrow> if num > 2 * length (tor_files (cm_tor cm)) \<or> length ws < num then loadFileInfo env cm
       else load_prios env (take num ws) cm
   | _ \<Rightarrow> loadFileInfo env cm)"

definition load_index_entry :: "nat \<Rightarrow> chunk_manager \<Rightarrow> chunk_manager" where
  "load_index_entry i cm =
     (if i < length (cm_chunks cm)
      then (upd_chunk i (\<lambda>c. c\<lparr>ck_status := ON_DISK\<rparr>) cm)\<lparr>have_bits := bs_set i True (have_bits cm),
             todo_bits := bs_set i False (todo_bits cm), recalc_chunks_left := True\<rparr>
      else cm)"

text \<open>
  The loop reads until \<^verbatim>\<open>feof\<close>, which is set by a read that fails: after the last entry it handles one more header, which was never
  initialised. \<open>junk\<close> is the index in it.
\<close>

definition loadIndexFile :: "cm_env \<Rightarrow> nat \<Rightarrow> chunk_manager \<Rightarrow> chunk_manager" where
  "loadIndexFile env junk cm =
     (let cm1 = loadPriorityInfo env (cm\<lparr>during_load := True\<rparr>) in
      case index_file cm1 of
        None \<Rightarrow> cm1\<lparr>index_file := Some [], during_load := False\<rparr>
      | Some entries \<Rightarrow>
          (let cm2 = (if entries = [] then cm1 else fold load_index_entry (entries @ [junk]) cm1)
           in (updateFilePercentage env cm2)\<lparr>during_load := False\<rparr>))"

definition check_chunk :: "cm_env \<Rightarrow> bitset \<Rightarrow> nat \<Rightarrow> chunk_manager \<Rightarrow> chunk_manager" where
  "check_chunk env ok i cm =
     (if bs_get ok i \<and> \<not> bs_get (have_bits cm) i then
        updateFilePercentage_of env i (upd_chunk i (\<lambda>c. c\<lparr>ck_status := ON_DISK\<rparr>)
          (cm\<lparr>have_bits := bs_set i True (have_bits cm), todo_bits := bs_set i False (todo_bits cm)\<rparr>))
      else if \<not> bs_get ok i \<and> bs_get (have_bits cm) i then
        updateFilePercentage_of env i (upd_chunk i (\<lambda>c. if ck_status c = ON_DISK then c\<lparr>ck_status := NOT_DOWNLOADED\<rparr> else c)
          (cm\<lparr>have_bits := bs_set i False (have_bits cm),
              todo_bits := bs_set i (\<not> bs_get (only_seed_chunks cm) i \<and> \<not> bs_get (excluded_chunks cm) i) (todo_bits cm)\<rparr>))
      else cm)"

definition dataChecked :: "cm_env \<Rightarrow> bitset \<Rightarrow> nat \<Rightarrow> nat \<Rightarrow> chunk_manager \<Rightarrow> chunk_manager" where
  "dataChecked env ok a b cm = recalculateChunksLeft (saveIndexFile
     ((fold (check_chunk env ok) [a..<min (Suc b) (length (cm_chunks cm))] cm)\<lparr>recalc_chunks_left := True\<rparr>))"

definition mark_chunk :: "cm_env \<Rightarrow> nat \<Rightarrow> chunk_manager \<Rightarrow> chunk_manager" where
  "mark_chunk env i cm =
     (if i < length (cm_chunks cm) then
        updateFilePercentage_of env i (upd_chunk i (\<lambda>c. c\<lparr>ck_status := ON_DISK\<rparr>)
          (cm\<lparr>have_bits := bs_set i True (have_bits cm), todo_bits := bs_set i False (todo_bits cm)\<rparr>))
      else cm\<lparr>cm_fault := True\<rparr>)"

definition mark_if_all_exist :: "cm_env \<Rightarrow> nat \<Rightarrow> chunk_manager \<Rightarrow> chunk_manager" where
  "mark_if_all_exist env i cm =
     (let (fl, cm1) = cm_files_of i cm in if list_all (\<lambda>f. preexisting (cm_file cm1 f)) fl then mark_chunk env i cm1 else cm1)"

definition mark_file :: "cm_env \<Rightarrow> nat \<Rightarrow> chunk_manager \<Rightarrow> chunk_manager" where
  "mark_file env f cm =
     (let tf = cm_file cm f in
      if \<not> preexisting tf then cm
      else mark_if_all_exist env (last_chunk tf) (mark_if_all_exist env (first_chunk tf)
        (fold (mark_chunk env) [first_chunk tf + 1..<last_chunk tf] cm)))"

definition markExistingFilesAsDownloaded :: "cm_env \<Rightarrow> bool \<Rightarrow> chunk_manager \<Rightarrow> chunk_manager" where
  "markExistingFilesAsDownloaded env cache_has cm =
     (let cm1 = (if isMultiFile (cm_tor cm) then fold (mark_file env) [0..<length (tor_files (cm_tor cm))] cm
                 else if cache_has then fold (mark_chunk env) [0..<length (cm_chunks cm)] cm else cm)
      in recalculateChunksLeft (saveIndexFile (cm1\<lparr>recalc_chunks_left := True\<rparr>)))"

definition reset_missing :: "cm_env \<Rightarrow> nat \<Rightarrow> chunk_manager \<Rightarrow> chunk_manager" where
  "reset_missing env f cm = upd_file f (\<lambda>tf. tf\<lparr>missing := False\<rparr>)
     (fold (resetChunk env) [first_chunk (cm_file cm f)..<Suc (last_chunk (cm_file cm f))] cm)"

definition recreateMissingFiles :: "cm_env \<Rightarrow> chunk_manager \<Rightarrow> chunk_manager" where
  "recreateMissingFiles env cm =
     (let cm1 = createFiles env False cm;
          cm2 = (if isMultiFile (cm_tor cm1)
            then fold (\<lambda>f cm. if missing (cm_file cm f) then reset_missing env f cm else cm) [0..<length (tor_files (cm_tor cm1))] cm1
            else fold (resetChunk env) [0..<getNumChunks (cm_tor cm1)] cm1)
      in recalculateChunksLeft ((saveIndexFile cm2)\<lparr>recalc_chunks_left := True\<rparr>))"

definition dndMissingFiles :: "cm_env \<Rightarrow> chunk_manager \<Rightarrow> chunk_manager" where
  "dndMissingFiles env cm =
     (let cm1 = fold (\<lambda>f cm. if missing (cm_file cm f) then setDoNotDownload env f True (reset_missing env f cm) else cm)
            [0..<length (tor_files (cm_tor cm))] cm
      in recalculateChunksLeft ((saveIndexFile (savePriorityInfo cm1))\<lparr>recalc_chunks_left := True\<rparr>))"

end
