(* ===== verification/ChunkPriorities.thy ===== *)
theory ChunkPriorities
  imports ChunkManager
begin

text \<open>
  The invariant of the chunk manager: whatever files change their priority and whatever chunks come and go, a chunk has the highest
  priority of the files it lies in, it is excluded or only seeded exactly if that priority says so, and the chunks to be downloaded are
  the missing ones of the other priorities. Every operation is described by what it does to the view \<open>cview\<close> of each chunk.
\<close>

section \<open>Well-formed states\<close>

definition good_bits :: "nat \<Rightarrow> bitset \<Rightarrow> bool" where
  "good_bits n bs \<longleftrightarrow> shape bs \<and> counted bs \<and> num_bits bs = n"

lemma good_bits_set [simp]: "good_bits n bs \<Longrightarrow> good_bits n (bs_set i on bs)"
  by (simp add: good_bits_def bs_set_bits)

lemma good_bits_get: "good_bits n bs \<Longrightarrow> bs_get (bs_set i on bs) c = (if c = i \<and> i < n then on else bs_get bs c)"
  by (simp add: good_bits_def bs_set_get)

definition wf_bits :: "chunk_manager \<Rightarrow> bool" where
  "wf_bits cm \<longleftrightarrow> good_bits (length (cm_chunks cm)) (have_bits cm) \<and> good_bits (length (cm_chunks cm)) (excluded_chunks cm) \<and>
     good_bits (length (cm_chunks cm)) (only_seed_chunks cm) \<and> good_bits (length (cm_chunks cm)) (todo_bits cm)"

definition core_file :: "torrent_file \<Rightarrow> torrent_file" where
  "core_file tf = tf\<lparr>num_chunks_downloaded := 0, preview := False, missing := False\<rparr>"

definition core_files :: "chunk_manager \<Rightarrow> torrent_file list" where
  "core_files cm = map core_file (tor_files (cm_tor cm))"

definition wf_tor :: "chunk_manager \<Rightarrow> bool" where
  "wf_tor cm \<longleftrightarrow> chunks_placed (cm_tor cm) \<and> getNumChunks (cm_tor cm) = length (cm_chunks cm) \<and>
     length (tor_files (cm_tor cm)) \<le> INT_MAX \<and> (\<forall>tf \<in> set (tor_files (cm_tor cm)). tf_size tf \<noteq> 0)"

text \<open>\<open>frame\<close>: what no operation changes but the counters of the files and the remembered position.\<close>

definition frame :: "chunk_manager \<Rightarrow> chunk_manager \<Rightarrow> bool" where
  "frame cm cm' \<longleftrightarrow> wf_bits cm' \<and> wf_tor cm' \<and> core_files cm' = core_files cm \<and> border_chunks cm' = border_chunks cm \<and>
     length (cm_chunks cm') = length (cm_chunks cm) \<and> during_load cm' = during_load cm \<and> cm_fault cm' = cm_fault cm \<and>
     index_file cm' = index_file cm"

type_synonym cview = "priority \<times> bool \<times> bool \<times> bool \<times> bool"

definition cview :: "chunk_manager \<Rightarrow> nat \<Rightarrow> cview" where
  "cview cm c = (ck_priority (cm_chunks cm ! c), bs_get (excluded_chunks cm) c, bs_get (only_seed_chunks cm) c, bs_get (todo_bits cm) c,
     bs_get (have_bits cm) c)"

definition acts :: "(nat \<Rightarrow> cview \<Rightarrow> cview) \<Rightarrow> chunk_manager \<Rightarrow> chunk_manager \<Rightarrow> bool" where
  "acts \<phi> cm cm' \<longleftrightarrow> frame cm cm' \<and> (\<forall>c < length (cm_chunks cm). cview cm' c = \<phi> c (cview cm c))"

lemma acts_trans: "acts \<phi> cm cm1 \<Longrightarrow> acts \<psi> cm1 cm2 \<Longrightarrow> acts (\<lambda>c. \<psi> c \<circ> \<phi> c) cm cm2"
  by (simp add: acts_def frame_def)

lemma acts_frame: "acts \<phi> cm cm' \<Longrightarrow> frame cm cm'"
  by (simp add: acts_def)

lemma acts_view: "acts \<phi> cm cm' \<Longrightarrow> c < length (cm_chunks cm) \<Longrightarrow> cview cm' c = \<phi> c (cview cm c)"
  by (simp add: acts_def)

lemma acts_weaken: "acts \<phi> cm cm' \<Longrightarrow> (\<And>c. c < length (cm_chunks cm) \<Longrightarrow> \<phi> c (cview cm c) = \<psi> c (cview cm c)) \<Longrightarrow> acts \<psi> cm cm'"
  by (simp add: acts_def)

definition cm_wf :: "chunk_manager \<Rightarrow> bool" where
  "cm_wf cm \<longleftrightarrow> wf_bits cm \<and> wf_tor cm"

lemma frame_wf: "frame cm cm' \<Longrightarrow> cm_wf cm'"
  by (simp add: frame_def cm_wf_def)

lemma frame_trans: "frame cm cm1 \<Longrightarrow> frame cm1 cm2 \<Longrightarrow> frame cm cm2"
  by (simp add: frame_def)

lemma frame_refl: "cm_wf cm \<Longrightarrow> frame cm cm"
  by (simp add: frame_def cm_wf_def)

text \<open>A loop over chunks, each turn of which acts on one chunk.\<close>

lemma acts_fold:
  assumes "\<And>i cm. cm_wf cm \<Longrightarrow> i < length (cm_chunks cm) \<Longrightarrow> acts (\<lambda>c v. if c = i then g v else v) cm (f i cm)"
    and "cm_wf cm" and "distinct is" and "\<forall>i \<in> set is. i < length (cm_chunks cm)"
  shows "acts (\<lambda>c v. if c \<in> set is then g v else v) cm (fold f is cm)"
  using assms(2-4)
proof (induction "is" arbitrary: cm)
  case Nil
  then show ?case by (simp add: acts_def frame_refl)
next
  case (Cons i "is")
  have a: "acts (\<lambda>c v. if c = i then g v else v) cm (f i cm)" using assms(1) Cons.prems by simp
  have "acts (\<lambda>c v. if c \<in> set is then g v else v) (f i cm) (fold f is (f i cm))"
    using Cons.IH [OF frame_wf [OF acts_frame [OF a]]] Cons.prems acts_frame [OF a] by (simp add: frame_def)
  then show ?case using Cons.prems by (auto intro!: acts_weaken [OF acts_trans [OF a]])
qed

text \<open>An update of the view of one chunk.\<close>

definition set_at :: "nat \<Rightarrow> nat \<Rightarrow> bool \<Rightarrow> bitset \<Rightarrow> bitset \<Rightarrow> bool" where
  "set_at n i on bs bs' \<longleftrightarrow> good_bits n bs' \<and> (\<forall>c < n. bs_get bs' c = (if c = i then on else bs_get bs c))"

lemma set_at_intros: "good_bits n bs \<Longrightarrow> i < n \<Longrightarrow> set_at n i on bs (bs_set i on bs)" "good_bits n bs \<Longrightarrow> set_at n i (bs_get bs i) bs bs"
  by (auto simp: set_at_def good_bits_get)

lemma acts_one:
  assumes "cm_wf cm" and "i < length (cm_chunks cm)" and "cm_tor cm' = cm_tor cm" and "border_chunks cm' = border_chunks cm"
    and "during_load cm' = during_load cm" and "cm_fault cm' = cm_fault cm" and "index_file cm' = index_file cm"
    and "cm_chunks cm' = (cm_chunks cm)[i := k]"
    and "set_at (length (cm_chunks cm)) i h (have_bits cm) (have_bits cm')"
    and "set_at (length (cm_chunks cm)) i e (excluded_chunks cm) (excluded_chunks cm')"
    and "set_at (length (cm_chunks cm)) i os (only_seed_chunks cm) (only_seed_chunks cm')"
    and "set_at (length (cm_chunks cm)) i t (todo_bits cm) (todo_bits cm')"
    and "g (cview cm i) = (ck_priority k, e, os, t, h)"
  shows "acts (\<lambda>c v. if c = i then g v else v) cm cm'"
  using assms by (auto simp: acts_def frame_def cm_wf_def wf_bits_def wf_tor_def core_files_def cview_def set_at_def)

fun prio_view :: "priority \<Rightarrow> cview \<Rightarrow> cview" where
  "prio_view p (q, ex, os, td, hv) = (p, ex, p = ONLY_SEED_PRIORITY, p \<noteq> ONLY_SEED_PRIORITY \<and> p \<noteq> EXCLUDED \<and> \<not> hv, hv)"

fun excl_view :: "cview \<Rightarrow> cview" where
  "excl_view v = (EXCLUDED, True, False, False, False)"

fun incl_view :: "cview \<Rightarrow> cview" where
  "incl_view (q, ex, os, td, hv) = (NORMAL_PRIORITY, False, os, td \<or> \<not> hv, hv)"

fun reset_view :: "cview \<Rightarrow> cview" where
  "reset_view (q, ex, os, td, hv) = (q, ex, os, \<not> ex \<and> \<not> os, False)"

fun prev_view :: "cview \<Rightarrow> cview" where
  "prev_view (q, ex, os, td, hv) = (preview_priority q, ex, os, td, hv)"

fun got_view :: "cview \<Rightarrow> cview" where
  "got_view (q, ex, os, td, hv) = (q, ex, os, False, True)"

lemma wf_good:
  assumes "cm_wf cm"
  shows "good_bits (length (cm_chunks cm)) (have_bits cm)" "good_bits (length (cm_chunks cm)) (excluded_chunks cm)"
    "good_bits (length (cm_chunks cm)) (only_seed_chunks cm)" "good_bits (length (cm_chunks cm)) (todo_bits cm)"
  using assms by (simp_all add: cm_wf_def wf_bits_def)

lemma prioritise_chunk_acts:
  assumes "cm_wf cm" and "i < length (cm_chunks cm)"
  shows "acts (\<lambda>c v. if c = i then prio_view p v else v) cm (prioritise_chunk p i cm)"
  using assms wf_good [OF assms(1)]
  by (intro acts_one [where k = "(cm_chunks cm ! i)\<lparr>ck_priority := p\<rparr>" and h = "bs_get (have_bits cm) i"
        and e = "bs_get (excluded_chunks cm) i" and os = "p = ONLY_SEED_PRIORITY"
        and t = "p \<noteq> ONLY_SEED_PRIORITY \<and> p \<noteq> EXCLUDED \<and> \<not> bs_get (have_bits cm) i"])
     (auto simp: prioritise_chunk_def upd_chunk_def Let_def cview_def intro: set_at_intros)

lemma preview_chunk_acts:
  assumes "cm_wf cm" and "i < length (cm_chunks cm)"
  shows "acts (\<lambda>c v. if c = i then prev_view v else v) cm (upd_chunk i (\<lambda>c. c\<lparr>ck_priority := preview_priority (ck_priority c)\<rparr>) cm)"
  using assms wf_good [OF assms(1)]
  by (intro acts_one [where h = "bs_get (have_bits cm) i" and e = "bs_get (excluded_chunks cm) i"
        and os = "bs_get (only_seed_chunks cm) i" and t = "bs_get (todo_bits cm) i"])
     (auto simp: upd_chunk_def cview_def intro: set_at_intros)

lemma exclude_chunk_acts:
  assumes "cm_wf cm" and "i < length (cm_chunks cm)"
  shows "acts (\<lambda>c v. if c = i then excl_view v else v) cm (exclude_chunk i cm)"
  using assms wf_good [OF assms(1)]
  by (intro acts_one [where h = False and e = True and os = False and t = False])
     (auto simp: exclude_chunk_def upd_chunk_def setExclude_def cview_def intro: set_at_intros)

lemma include_chunk_acts:
  assumes "cm_wf cm" and "i < length (cm_chunks cm)"
  shows "acts (\<lambda>c v. if c = i then incl_view v else v) cm (include_chunk i cm)"
proof -
  have "set_at (length (cm_chunks cm)) i (bs_get (todo_bits cm) i \<or> \<not> bs_get (have_bits cm) i) (todo_bits cm)
      (if bs_get (have_bits cm) i then todo_bits cm else bs_set i True (todo_bits cm))"
    using assms wf_good [OF assms(1)] by (auto simp: set_at_def good_bits_get)
  then show ?thesis using assms wf_good [OF assms(1)]
    by (intro acts_one [where h = "bs_get (have_bits cm) i" and e = False and os = "bs_get (only_seed_chunks cm) i"
          and t = "bs_get (todo_bits cm) i \<or> \<not> bs_get (have_bits cm) i"])
       (auto simp: include_chunk_def upd_chunk_def setExclude_def cview_def intro: set_at_intros)
qed

definition in_range :: "nat \<Rightarrow> nat \<Rightarrow> nat \<Rightarrow> bool" where
  "in_range a b c \<longleftrightarrow> min a b \<le> c \<and> c \<le> max a b"

lemma in_chunk_range: "distinct (chunk_range a b cm)" "c \<in> set (chunk_range a b cm) \<longleftrightarrow> in_range a b c \<and> c < length (cm_chunks cm)"
  by (auto simp: chunk_range_def in_range_def)

lemma acts_range:
  assumes "\<And>i cm. cm_wf cm \<Longrightarrow> i < length (cm_chunks cm) \<Longrightarrow> acts (\<lambda>c v. if c = i then g v else v) cm (f i cm)" and "cm_wf cm"
  shows "acts (\<lambda>c v. if in_range a b c then g v else v) cm (fold f (chunk_range a b cm) cm)"
  by (rule acts_weaken [OF acts_fold [OF assms]]) (simp_all add: in_chunk_range)

lemma prioritise_acts: "cm_wf cm \<Longrightarrow> acts (\<lambda>c v. if in_range a b c then prio_view p v else v) cm (prioritise a b p cm)"
  unfolding prioritise_def by (rule acts_range [OF prioritise_chunk_acts])

lemma prioritisePreview_acts: "cm_wf cm \<Longrightarrow> acts (\<lambda>c v. if in_range a b c then prev_view v else v) cm (prioritisePreview a b cm)"
  unfolding prioritisePreview_def by (rule acts_range [OF preview_chunk_acts])

text \<open>Changes outside of the view.\<close>

definition quiet :: "chunk_manager \<Rightarrow> chunk_manager \<Rightarrow> bool" where
  "quiet cm cm' \<longleftrightarrow> cm_tor cm' = cm_tor cm \<and> cm_chunks cm' = cm_chunks cm \<and> have_bits cm' = have_bits cm \<and>
     excluded_chunks cm' = excluded_chunks cm \<and> only_seed_chunks cm' = only_seed_chunks cm \<and> todo_bits cm' = todo_bits cm \<and>
     border_chunks cm' = border_chunks cm \<and> during_load cm' = during_load cm \<and> cm_fault cm' = cm_fault cm \<and> index_file cm' = index_file cm"

lemma quiet_acts: "acts \<phi> cm cm1 \<Longrightarrow> quiet cm1 cm2 \<Longrightarrow> acts \<phi> cm cm2"
  by (auto simp: acts_def frame_def quiet_def wf_bits_def wf_tor_def core_files_def cview_def)

lemma quiet_intros [simp]: "quiet cm (emit_event e cm)" "quiet cm (cm\<lparr>recalc_chunks_left := r\<rparr>)" "quiet cm cm"
  "quiet cm (emit_event e (cm\<lparr>recalc_chunks_left := r\<rparr>))" "quiet cm (savePriorityInfo cm)" "quiet cm (savePriorityInfo (emit_event e cm))"
  by (simp_all add: quiet_def emit_event_def savePriorityInfo_def saveFileInfo_def Let_def)

lemma exclude_range_acts: "cm_wf cm \<Longrightarrow> acts (\<lambda>c v. if in_range a b c then excl_view v else v) cm (exclude_range a b cm)"
  unfolding exclude_range_def by (rule quiet_acts [OF acts_range [OF exclude_chunk_acts]]) simp_all

lemma include_range_acts: "cm_wf cm \<Longrightarrow> acts (\<lambda>c v. if in_range a b c then incl_view v else v) cm (include_range a b cm)"
  unfolding include_range_def by (rule quiet_acts [OF acts_range [OF include_chunk_acts]]) simp_all

section \<open>The files behind the chunks\<close>

lemma core_file_sel [simp]:
  "tf_index (core_file tf) = tf_index tf" "first_chunk (core_file tf) = first_chunk tf" "last_chunk (core_file tf) = last_chunk tf"
  "tf_size (core_file tf) = tf_size tf" "tf_priority (core_file tf) = tf_priority tf" "old_priority (core_file tf) = old_priority tf"
  "tf_path (core_file tf) = tf_path tf" "emit_status_changed (core_file tf) = emit_status_changed tf"
  by (simp_all add: core_file_def)

definition place :: "torrent_file \<Rightarrow> nat \<times> nat \<times> nat \<times> u64" where
  "place tf = (tf_index tf, first_chunk tf, last_chunk tf, tf_size tf)"

lemma place_core: "place (core_file tf) = place tf"
  by (simp add: place_def)

lemma place_sel:
  assumes "place a = place b"
  shows "tf_index a = tf_index b" "first_chunk a = first_chunk b" "last_chunk a = last_chunk b" "tf_size a = tf_size b"
    "holds_chunk c a = holds_chunk c b"
  using assms by (simp_all add: place_def holds_chunk_def in_chunks_def)

definition layout :: "torrent \<Rightarrow> (nat \<times> nat \<times> nat \<times> u64) list \<times> string list \<times> nat \<times> nat \<times> bool" where
  "layout tor = (map place (tor_files tor), hash_pieces tor, tor_cache tor)"

lemma files_of_place: "map place fs' = map place fs \<Longrightarrow> map tf_index (filter (holds_chunk c) fs') = map tf_index (filter (holds_chunk c) fs)"
proof (induction fs' arbitrary: fs)
  case (Cons f fs')
  then obtain g gs where "fs = g # gs" "place f = place g" "map place fs' = map place gs" by (auto simp: Cons_eq_map_conv)
  then show ?case using Cons.IH [of gs] place_sel [of f g] by simp
qed simp

lemma chunks_placed_core:
  assumes "layout tor' = layout tor"
  shows "chunks_placed tor' = chunks_placed tor"
proof -
  have m: "map place (tor_files tor') = map place (tor_files tor)" using assms by (simp add: layout_def)
  have len: "length (tor_files tor') = length (tor_files tor)" using arg_cong [OF m, of length] by simp
  have p: "place (tor_files tor' ! j) = place (tor_files tor ! j)" if "j < length (tor_files tor)" for j
    using arg_cong [OF m, of "\<lambda>l. l ! j"] that len by simp
  have "cache_ok tor' = cache_ok tor" using assms len place_sel(5) [OF p] by (auto simp: cache_ok_def layout_def tor_cache_def)
  moreover have "ordered (tor_files tor') = ordered (tor_files tor)" using place_sel(1-3) [OF p] len by (simp add: ordered_def)
  moreover have "files_of tor' = files_of tor" by (rule ext) (simp only: files_of_def files_of_place [OF m])
  ultimately show ?thesis using assms by (simp add: chunks_placed_def getNumChunks_def layout_def tor_cache_def)
qed

lemma wf_tor_core:
  assumes "wf_tor cm" and "layout (cm_tor cm') = layout (cm_tor cm)" and "length (cm_chunks cm') = length (cm_chunks cm)"
  shows "wf_tor cm'"
proof -
  have m: "map place (tor_files (cm_tor cm')) = map place (tor_files (cm_tor cm))" using assms(2) by (simp add: layout_def)
  have "length (tor_files (cm_tor cm')) = length (tor_files (cm_tor cm))" using arg_cong [OF m, of length] by simp
  moreover have "tf_size ` set (tor_files (cm_tor cm')) = tf_size ` set (tor_files (cm_tor cm))"
    using arg_cong [OF m, of "\<lambda>l. (snd \<circ> snd \<circ> snd) ` set l"] by (simp add: image_image place_def)
  then have "(\<forall>tf \<in> set (tor_files (cm_tor cm')). tf_size tf \<noteq> 0) = (\<forall>tf \<in> set (tor_files (cm_tor cm)). tf_size tf \<noteq> 0)"
    by (metis (no_types, lifting) image_iff)
  ultimately show ?thesis using assms chunks_placed_core [OF assms(2)] by (simp add: wf_tor_def getNumChunks_def layout_def)
qed

text \<open>Only counters of files change.\<close>

lemma counters_acts:
  assumes "cm_wf cm" and "map core_file fs = map core_file (tor_files (cm_tor cm))"
  shows "acts (\<lambda>_ v. v) cm (cm\<lparr>cm_tor := (cm_tor cm)\<lparr>tor_files := fs\<rparr>\<rparr>)"
proof -
  have "map place fs = map place (tor_files (cm_tor cm))" using arg_cong [OF assms(2), of "map place"] by (simp add: comp_def place_core)
  then have "layout ((cm_tor cm)\<lparr>tor_files := fs\<rparr>) = layout (cm_tor cm)" by (simp add: layout_def tor_cache_def)
  then show ?thesis using assms wf_tor_core [of cm "cm\<lparr>cm_tor := (cm_tor cm)\<lparr>tor_files := fs\<rparr>\<rparr>"]
    by (simp add: acts_def frame_def cm_wf_def wf_bits_def core_files_def cview_def)
qed

lemma core_file_update [simp]: "core_file (updateNumDownloadedChunks env bs cs tf) = core_file tf"
  by (simp add: core_file_def updateNumDownloadedChunks_def Let_def)

lemma map_core_upd: "core_file (g (fs ! f)) = core_file (fs ! f) \<Longrightarrow> map core_file (fs[f := g (fs ! f)]) = map core_file fs"
  by (cases "f < length fs") (simp_all add: map_update list_update_same_conv list_update_beyond)

lemma update_file_acts: "cm_wf cm \<Longrightarrow> acts (\<lambda>_ v. v) cm (update_file env f cm)"
  unfolding update_file_def upd_file_def by (intro counters_acts map_core_upd) simp_all

lemma acts_fold_id:
  assumes "\<And>x cm. cm_wf cm \<Longrightarrow> acts (\<lambda>_ v. v) cm (f x cm)" and "cm_wf cm"
  shows "acts (\<lambda>_ v. v) cm (fold f xs cm)"
  using assms(2)
proof (induction xs arbitrary: cm)
  case (Cons x xs)
  then show ?case using acts_trans [OF assms(1) Cons.IH] frame_wf acts_frame assms(1) by (fastforce simp: comp_def)
qed (simp add: acts_def frame_refl)

lemma updateFilePercentage_acts: "cm_wf cm \<Longrightarrow> acts (\<lambda>_ v. v) cm (updateFilePercentage env cm)"
  unfolding updateFilePercentage_def by (rule acts_fold_id [OF update_file_acts])

lemma files_of_bound: "length (files_of tor c) \<le> length (tor_files tor)"
  by (simp add: files_of_def)

lemma files_of_chunk:
  assumes "cm_wf cm"
  shows "fst (cm_files_of i cm) = (if i < length (cm_chunks cm) then files_of (cm_tor cm) i else [])"
    and "acts (\<lambda>_ v. v) cm (snd (cm_files_of i cm))"
    and "tor_files (cm_tor (snd (cm_files_of i cm))) = tor_files (cm_tor cm)"
proof -
  have w: "chunks_placed (cm_tor cm)" "getNumChunks (cm_tor cm) = length (cm_chunks cm)" "length (tor_files (cm_tor cm)) \<le> INT_MAX"
    using assms by (simp_all add: cm_wf_def wf_tor_def)
  have pos: "0 < INT_MAX" by (simp add: INT_MAX_def)
  note q = chunks_placed_query [OF w(1) pos, of i]
  show "fst (cm_files_of i cm) = (if i < length (cm_chunks cm) then files_of (cm_tor cm) i else [])"
    using q(3) w(2,3) files_of_bound [of "cm_tor cm" i] by (simp add: cm_files_of_def split_beta)
  obtain k j where t: "snd (calcChunkPos INT_MAX i (cm_tor cm)) = (cm_tor cm)\<lparr>pos_cache_chunk := k, pos_cache_file := j\<rparr>" using q(2) by blast
  have s: "snd (cm_files_of i cm) = cm\<lparr>cm_tor := (cm_tor cm)\<lparr>pos_cache_chunk := k, pos_cache_file := j\<rparr>\<rparr>"
    using t by (simp add: cm_files_of_def split_beta)
  show "tor_files (cm_tor (snd (cm_files_of i cm))) = tor_files (cm_tor cm)" by (simp add: s)
  show "acts (\<lambda>_ v. v) cm (snd (cm_files_of i cm))"
    using assms q(1) unfolding s t
    by (auto simp: acts_def frame_def cm_wf_def wf_bits_def wf_tor_def core_files_def cview_def getNumChunks_def)
qed

lemma updateFilePercentage_of_acts:
  assumes "cm_wf cm"
  shows "acts (\<lambda>_ v. v) cm (updateFilePercentage_of env i cm)"
proof -
  note a = files_of_chunk(2) [OF assms, of i]
  from acts_trans [OF a acts_fold_id [where f = "update_file env", OF update_file_acts frame_wf [OF acts_frame [OF a]]]]
  show ?thesis by (simp add: updateFilePercentage_of_def split_beta comp_def)
qed

lemma resetChunk_acts:
  assumes "cm_wf cm"
  shows "acts (\<lambda>c v. if c = i \<and> \<not> during_load cm then reset_view v else v) cm (resetChunk env i cm)"
proof (cases "i \<ge> length (cm_chunks cm) \<or> during_load cm")
  case True
  then show ?thesis using assms by (auto simp: resetChunk_def acts_def frame_refl)
next
  case False
  let ?cm1 = "upd_chunk i (\<lambda>c. c\<lparr>ck_status := NOT_DOWNLOADED\<rparr>) (emit_event (Ev_clearPieces i) cm)"
  let ?cm2 = "?cm1\<lparr>have_bits := bs_set i False (have_bits ?cm1),
     todo_bits := bs_set i (\<not> bs_get (excluded_chunks ?cm1) i \<and> \<not> bs_get (only_seed_chunks ?cm1) i) (todo_bits ?cm1)\<rparr>"
  have a: "acts (\<lambda>c v. if c = i then reset_view v else v) cm ?cm2"
    using assms wf_good [OF assms] False
    by (intro acts_one [where h = False and k = "(cm_chunks cm ! i)\<lparr>ck_status := NOT_DOWNLOADED\<rparr>"
          and e = "bs_get (excluded_chunks cm) i" and os = "bs_get (only_seed_chunks cm) i" and t = "\<not> bs_get (excluded_chunks cm) i \<and> \<not> bs_get (only_seed_chunks cm) i"])
       (auto simp: upd_chunk_def emit_event_def cview_def intro: set_at_intros)
  have "acts (\<lambda>_ v. v) ?cm2 (updateFilePercentage_of env i ?cm2)"
    by (rule updateFilePercentage_of_acts [OF frame_wf [OF acts_frame [OF a]]])
  from acts_trans [OF a this] show ?thesis using False by (simp add: resetChunk_def Let_def comp_def)
qed

section \<open>The invariant\<close>

fun base :: "priority \<Rightarrow> priority" where
  "base FIRST_PREVIEW_PRIORITY = FIRST_PRIORITY"
| "base NORMAL_PREVIEW_PRIORITY = NORMAL_PRIORITY"
| "base LAST_PREVIEW_PRIORITY = LAST_PRIORITY"
| "base p = p"

definition top_prio :: "chunk_manager \<Rightarrow> nat \<Rightarrow> priority" where
  "top_prio cm c = Max (tf_priority ` {tf \<in> set (tor_files (cm_tor cm)). in_chunks tf c})"

fun chunk_ok :: "priority \<Rightarrow> cview \<Rightarrow> bool" where
  "chunk_ok p (q, ex, os, td, hv) \<longleftrightarrow> base q = p \<and> ex = (p = EXCLUDED) \<and> os = (p = ONLY_SEED_PRIORITY) \<and>
     td = (\<not> hv \<and> p \<noteq> EXCLUDED \<and> p \<noteq> ONLY_SEED_PRIORITY)"

definition shared_chunks :: "chunk_manager \<Rightarrow> nat set" where
  "shared_chunks cm = {c. \<exists>i. Suc i < length (tor_files (cm_tor cm)) \<and> last_chunk (cm_file cm i) = c \<and> first_chunk (cm_file cm (Suc i)) = c}"

definition file_ok :: "chunk_manager \<Rightarrow> torrent_file \<Rightarrow> bool" where
  "file_ok cm tf \<longleftrightarrow> base (tf_priority tf) = tf_priority tf \<and> emit_status_changed tf \<and>
     \<not> (last_chunk tf = Suc (first_chunk tf) \<and> first_chunk tf \<in> border_chunks cm \<and> last_chunk tf \<in> border_chunks cm)"

definition cm_good :: "chunk_manager \<Rightarrow> bool" where
  "cm_good cm \<longleftrightarrow> cm_wf cm \<and> border_chunks cm = shared_chunks cm \<and> (\<forall>tf \<in> set (tor_files (cm_tor cm)). file_ok cm tf)"

definition prios_ok :: "chunk_manager \<Rightarrow> bool" where
  "prios_ok cm \<longleftrightarrow> (\<forall>c < length (cm_chunks cm). chunk_ok (top_prio cm c) (cview cm c))"

lemma top_core: "top_prio cm c = Max (tf_priority ` {tf \<in> set (core_files cm). in_chunks tf c})"
proof -
  have "{tf \<in> set (core_files cm). in_chunks tf c} = core_file ` {tf \<in> set (tor_files (cm_tor cm)). in_chunks tf c}"
    by (auto simp: core_files_def in_chunks_def)
  then show ?thesis by (simp add: top_prio_def image_image)
qed

lemma frame_top: "frame cm cm' \<Longrightarrow> top_prio cm' c = top_prio cm c"
  by (simp add: top_core frame_def)

lemma frame_length: "frame cm cm' \<Longrightarrow> length (tor_files (cm_tor cm')) = length (tor_files (cm_tor cm))"
  by (metis core_files_def frame_def length_map)

lemma frame_file:
  assumes "frame cm cm'" and "f < length (tor_files (cm_tor cm))"
  shows "core_file (cm_file cm' f) = core_file (cm_file cm f)"
  using assms frame_length [OF assms(1)] by (metis cm_file_def core_files_def frame_def nth_map)

lemma core_sel:
  assumes "core_file a = core_file b"
  shows "first_chunk a = first_chunk b" "last_chunk a = last_chunk b" "tf_priority a = tf_priority b" "old_priority a = old_priority b"
    "tf_path a = tf_path b" "emit_status_changed a = emit_status_changed b" "in_chunks a c = in_chunks b c" "file_ok cm a = file_ok cm b"
    "isMultimedia mm a = isMultimedia mm b" "doNotDownload a = doNotDownload b"
proof -
  note g = arg_cong [OF assms]
  show s: "first_chunk a = first_chunk b" "last_chunk a = last_chunk b" "tf_priority a = tf_priority b" "old_priority a = old_priority b"
    "tf_path a = tf_path b" "emit_status_changed a = emit_status_changed b"
    using g [of first_chunk] g [of last_chunk] g [of tf_priority] g [of old_priority] g [of tf_path] g [of emit_status_changed] by simp_all
  then show "in_chunks a c = in_chunks b c" "file_ok cm a = file_ok cm b" "isMultimedia mm a = isMultimedia mm b" "doNotDownload a = doNotDownload b"
    by (simp_all add: in_chunks_def file_ok_def isMultimedia_def doNotDownload_def)
qed

lemmas frame_sel = core_sel [OF frame_file]

lemma frame_good:
  assumes "cm_good cm" and "frame cm cm'"
  shows "cm_good cm'"
proof -
  note len = frame_length [OF assms(2)]
  have b: "border_chunks cm' = border_chunks cm" using assms(2) by (simp add: frame_def)
  have "shared_chunks cm' = shared_chunks cm"
  proof -
    have e: "last_chunk (cm_file cm' i) = last_chunk (cm_file cm i)" "first_chunk (cm_file cm' (Suc i)) = first_chunk (cm_file cm (Suc i))"
      if "Suc i < length (tor_files (cm_tor cm))" for i
      using frame_sel(2) [OF assms(2), of i] frame_sel(1) [OF assms(2), of "Suc i"] that by simp_all
    show ?thesis unfolding shared_chunks_def len by (intro Collect_cong ex_cong1 conj_cong refl) (simp_all only: e)
  qed
  moreover have "file_ok cm' tf" if tf: "tf \<in> set (tor_files (cm_tor cm'))" for tf
  proof -
    obtain f where f: "f < length (tor_files (cm_tor cm'))" "tf = cm_file cm' f" using tf by (auto simp: cm_file_def in_set_conv_nth)
    then have "file_ok cm (cm_file cm f)" using assms(1) len by (simp add: cm_good_def cm_file_def)
    then show ?thesis using f frame_sel(1-3,6) [OF assms(2), of f] len b by (simp add: file_ok_def)
  qed
  ultimately show ?thesis using assms frame_wf [OF assms(2)] b by (simp add: cm_good_def)
qed

section \<open>Who needs a chunk\<close>

lemma holders:
  assumes "cm_wf cm"
  shows "set (files_of (cm_tor cm) c) = {f. f < length (tor_files (cm_tor cm)) \<and> in_chunks (cm_file cm f) c}"
proof -
  have o: "ordered (tor_files (cm_tor cm))" and sz: "\<forall>tf \<in> set (tor_files (cm_tor cm)). tf_size tf \<noteq> 0"
    using assms by (simp_all add: cm_wf_def wf_tor_def chunks_placed_def)
  have i: "tf_index (tor_files (cm_tor cm) ! f) = f" if "f < length (tor_files (cm_tor cm))" for f using o that by (simp add: ordered_def)
  show ?thesis using sz by (force simp: files_of_def holds_chunk_def cm_file_def in_set_conv_nth i)
qed

lemma held:
  assumes "cm_wf cm" and "c < length (cm_chunks cm)"
  shows "files_of (cm_tor cm) c \<noteq> []"
  using assms by (simp add: cm_wf_def wf_tor_def chunks_placed_def)

lemma top_prio_files:
  assumes "cm_wf cm"
  shows "top_prio cm c = Max ((\<lambda>f. tf_priority (cm_file cm f)) ` set (files_of (cm_tor cm) c))"
proof -
  have "tf_priority ` {tf \<in> set (tor_files (cm_tor cm)). in_chunks tf c} = (\<lambda>f. tf_priority (cm_file cm f)) ` set (files_of (cm_tor cm) c)"
    unfolding holders [OF assms] by (force simp: cm_file_def in_set_conv_nth)
  then show ?thesis by (simp add: top_prio_def)
qed

lemma top_prio_ge:
  assumes "cm_wf cm" and "f < length (tor_files (cm_tor cm))" and "in_chunks (cm_file cm f) c"
  shows "tf_priority (cm_file cm f) \<le> top_prio cm c"
  using assms by (simp add: top_prio_files holders)

lemma top_prio_attained:
  assumes "cm_wf cm" and "c < length (cm_chunks cm)"
  obtains f where "f < length (tor_files (cm_tor cm))" "in_chunks (cm_file cm f) c" "top_prio cm c = tf_priority (cm_file cm f)"
proof -
  have "top_prio cm c \<in> (\<lambda>f. tf_priority (cm_file cm f)) ` set (files_of (cm_tor cm) c)"
    unfolding top_prio_files [OF assms(1)] using held [OF assms] by (intro Max_in) simp_all
  then show ?thesis using that by (auto simp: holders [OF assms(1)])
qed

lemma EXCLUDED_least [simp]: "EXCLUDED \<le> p" "p \<le> EXCLUDED \<longleftrightarrow> p = EXCLUDED"
  by (cases p; simp add: priority_le_defs)+

definition needed :: "nat \<Rightarrow> chunk_manager \<Rightarrow> nat \<Rightarrow> bool" where
  "needed f cm c \<longleftrightarrow> c < length (cm_chunks cm) \<and>
     (\<exists>g < length (tor_files (cm_tor cm)). g \<noteq> f \<and> in_chunks (cm_file cm g) c \<and> tf_priority (cm_file cm g) \<noteq> EXCLUDED)"

lemma frame_needed: "frame cm cm' \<Longrightarrow> needed f cm' c = needed f cm c"
proof -
  assume a: "frame cm cm'"
  have "(g \<noteq> f \<and> in_chunks (cm_file cm' g) c \<and> tf_priority (cm_file cm' g) \<noteq> EXCLUDED) =
      (g \<noteq> f \<and> in_chunks (cm_file cm g) c \<and> tf_priority (cm_file cm g) \<noteq> EXCLUDED)" if "g < length (tor_files (cm_tor cm))" for g
    using frame_sel(3,7) [OF a that] by simp
  then show ?thesis using frame_length [OF a] a by (auto simp: needed_def frame_def)
qed

lemma needed_top: "cm_wf cm \<Longrightarrow> needed f cm c \<Longrightarrow> top_prio cm c \<noteq> EXCLUDED"
  using top_prio_ge [of cm _ c] by (fastforce simp: needed_def)

lemma not_needed_top:
  assumes "cm_wf cm" and "\<not> needed f cm c" and "tf_priority (cm_file cm f) = EXCLUDED" and "c < length (cm_chunks cm)"
  shows "top_prio cm c = EXCLUDED"
  using top_prio_attained [OF assms(1,4)] assms(2-4) by (metis needed_def)

lemma shared_if_two:
  assumes "cm_wf cm" and "f < g" and "g < length (tor_files (cm_tor cm))" and "in_chunks (cm_file cm f) c" and "in_chunks (cm_file cm g) c"
  shows "c \<in> shared_chunks cm" and "c = last_chunk (cm_file cm f)" and "c = first_chunk (cm_file cm g)"
proof -
  have o: "ordered (tor_files (cm_tor cm))" using assms(1) by (simp add: cm_wf_def wf_tor_def chunks_placed_def)
  have l: "last_chunk (cm_file cm f) \<le> first_chunk (cm_file cm g)" using ordered_chunks(2) [OF o assms(2,3)] by (simp add: cm_file_def)
  then show c: "c = last_chunk (cm_file cm f)" "c = first_chunk (cm_file cm g)" using assms(4,5) by (simp_all add: in_chunks_def)
  have "last_chunk (cm_file cm f) \<le> first_chunk (cm_file cm (Suc f))"
    using ordered_chunks(2) [OF o, of f "Suc f"] assms(2,3) by (simp add: cm_file_def)
  moreover have "first_chunk (cm_file cm (Suc f)) \<le> first_chunk (cm_file cm g)"
    using order_trans [OF ordered_chunks(1,2) [OF o, of "Suc f" g]] assms(2,3) by (cases "Suc f = g") (auto simp: cm_file_def)
  ultimately have "first_chunk (cm_file cm (Suc f)) = c" using l c by simp
  then show "c \<in> shared_chunks cm" using assms(2,3) c by (auto simp: shared_chunks_def intro!: exI [of _ f])
qed

lemma needed_shared:
  assumes "cm_wf cm" and "f < length (tor_files (cm_tor cm))" and "in_chunks (cm_file cm f) c" and "needed f cm c"
  shows "c \<in> shared_chunks cm" and "c = first_chunk (cm_file cm f) \<or> c = last_chunk (cm_file cm f)"
proof -
  obtain g where g: "g < length (tor_files (cm_tor cm))" "g \<noteq> f" "in_chunks (cm_file cm g) c" using assms(4) by (auto simp: needed_def)
  show "c \<in> shared_chunks cm" "c = first_chunk (cm_file cm f) \<or> c = last_chunk (cm_file cm f)"
    using shared_if_two [OF assms(1), of f g c] shared_if_two [OF assms(1), of g f c] g assms(2,3) by (cases "f < g"; auto)+
qed

lemma only_holder:
  assumes "cm_wf cm" and "f < length (tor_files (cm_tor cm))" and "in_chunks (cm_file cm f) c" and "c < length (cm_chunks cm)"
    and "c \<notin> shared_chunks cm \<or> first_chunk (cm_file cm f) < c \<and> c < last_chunk (cm_file cm f)"
  shows "top_prio cm c = tf_priority (cm_file cm f)"
proof -
  obtain g where g: "g < length (tor_files (cm_tor cm))" "in_chunks (cm_file cm g) c" "top_prio cm c = tf_priority (cm_file cm g)"
    using top_prio_attained [OF assms(1,4)] .
  have "g = f" using shared_if_two [OF assms(1), of f g c] shared_if_two [OF assms(1), of g f c] g(1,2) assms(2,3,5)
    by (metis less_irrefl linorder_neqE_nat)
  then show ?thesis using g by simp
qed

section \<open>Shared chunks\<close>

lemma fold_highest: "fold (\<lambda>f h. if pr f > h then pr f else h) fl p = Max (insert p (pr ` set fl))" for pr :: "nat \<Rightarrow> priority"
proof (induction fl arbitrary: p)
  case (Cons f fl)
  have "fold (\<lambda>f h. if pr f > h then pr f else h) (f # fl) p = fold (\<lambda>f h. if pr f > h then pr f else h) fl (max (pr f) p)"
    by (auto simp: max_def)
  then show ?case unfolding Cons.IH by (cases "fl = []") (simp_all add: max.assoc max.commute max.left_commute)
qed simp

lemma setBorderChunkPriority_acts:
  assumes "cm_wf cm" and "c < length (cm_chunks cm) \<Longrightarrow> p \<le> top_prio cm c"
  shows "acts (\<lambda>d v. if d = c then prio_view (top_prio cm c) v else v) cm (setBorderChunkPriority c p cm)"
proof -
  define cm1 where "cm1 = snd (cm_files_of c cm)"
  define h where "h = fold (\<lambda>f h. if tf_priority (cm_file cm1 f) > h then tf_priority (cm_file cm1 f) else h) (fst (cm_files_of c cm)) p"
  note a = files_of_chunk(2) [OF assms(1), of c, folded cm1_def]
  have h: "h = top_prio cm c" if "c < length (cm_chunks cm)"
  proof -
    let ?pr = "\<lambda>f. tf_priority (cm_file cm f)"
    have files: "cm_file cm1 = cm_file cm" using files_of_chunk(3) [OF assms(1), of c] by (simp add: cm_file_def cm1_def fun_eq_iff)
    have "h = Max (insert p (?pr ` set (files_of (cm_tor cm) c)))"
      unfolding h_def files files_of_chunk(1) [OF assms(1)] using that by (simp add: fold_highest)
    also have "\<dots> = max p (top_prio cm c)" unfolding top_prio_files [OF assms(1)] using held [OF assms(1) that] by (intro Max_insert) simp_all
    finally show ?thesis using assms(2) [OF that] by (simp add: max_def)
  qed
  have "acts (\<lambda>d v. if in_range c c d then prio_view h v else v) cm1 (prioritise c c h cm1)"
    by (rule prioritise_acts [OF frame_wf [OF acts_frame [OF a]]])
  from acts_trans [OF a this]
  have "acts (\<lambda>d v. if d = c then prio_view (top_prio cm c) v else v) cm (prioritise c c h cm1)"
    by (rule acts_weaken) (auto simp: in_range_def h)
  then have "acts (\<lambda>d v. if d = c then prio_view (top_prio cm c) v else v) cm
      (if h = ONLY_SEED_PRIORITY then emit_event (Ev_excluded c c) (prioritise c c h cm1) else prioritise c c h cm1)"
    by (auto intro: quiet_acts)
  then show ?thesis
    unfolding setBorderChunkPriority_def split_beta Let_def h_def cm1_def .
qed

definition release_view :: "bool \<Rightarrow> bool \<Rightarrow> priority \<Rightarrow> cview \<Rightarrow> cview" where
  "release_view needd dl p v = (if needd then prio_view p v else if dl then v else reset_view v)"

lemma find_needed:
  assumes "cm_wf cm" and "c < length (cm_chunks cm)"
  shows "find (\<lambda>g. g \<noteq> f \<and> \<not> doNotDownload (cm_file cm g)) (files_of (cm_tor cm) c) = None \<longleftrightarrow> \<not> needed f cm c"
  using assms by (auto simp: find_None_iff holders needed_def doNotDownload_def)

lemma resetBorderChunk_acts:
  assumes "cm_wf cm"
  shows "fst (resetBorderChunk env c f cm) = (\<not> needed f cm c)"
    and "acts (\<lambda>d v. if d = c then release_view (needed f cm c) (during_load cm) (top_prio cm c) v else v) cm (snd (resetBorderChunk env c f cm))"
proof -
  define cm1 where "cm1 = snd (cm_files_of c cm)"
  note a = files_of_chunk(2) [OF assms, of c, folded cm1_def]
  have files: "cm_file cm1 = cm_file cm" using files_of_chunk(3) [OF assms, of c] by (simp add: cm_file_def cm1_def fun_eq_iff)
  note w1 = frame_wf [OF acts_frame [OF a]]
  define r where "r = find (\<lambda>g. g \<noteq> f \<and> \<not> doNotDownload (cm_file cm g)) (fst (cm_files_of c cm))"
  have res: "resetBorderChunk env c f cm = (case r of Some g \<Rightarrow> (False, setBorderChunkPriority c (tf_priority (cm_file cm g)) cm1)
      | None \<Rightarrow> (True, resetChunk env c cm1))"
    unfolding resetBorderChunk_def split_beta Let_def cm1_def [symmetric] files r_def ..
  have r: "r = None \<longleftrightarrow> \<not> needed f cm c"
    using find_needed [OF assms, of c f] files_of_chunk(1) [OF assms, of c] by (auto simp: r_def needed_def)
  show "fst (resetBorderChunk env c f cm) = (\<not> needed f cm c)" using r res by (cases r) auto
  show "acts (\<lambda>d v. if d = c then release_view (needed f cm c) (during_load cm) (top_prio cm c) v else v) cm (snd (resetBorderChunk env c f cm))"
  proof (cases r)
    case None
    have dl: "during_load cm1 = during_load cm" using acts_frame [OF a] by (simp add: frame_def)
    have n: "\<not> needed f cm c" using r None by simp
    have "acts (\<lambda>d v. if d = c then release_view (needed f cm c) (during_load cm) (top_prio cm c) v else v) cm (resetChunk env c cm1)"
      by (rule acts_weaken [OF acts_trans [OF a resetChunk_acts [OF w1]]]) (auto simp: release_view_def n dl)
    then show ?thesis using None res by simp
  next
    case (Some g)
    then have g: "g \<in> set (fst (cm_files_of c cm))" by (auto simp: r_def find_Some_iff)
    then have c: "c < length (cm_chunks cm)" and h: "g < length (tor_files (cm_tor cm))" "in_chunks (cm_file cm g) c"
      using files_of_chunk(1) [OF assms, of c] holders [OF assms, of c] by (auto split: if_splits)
    have t: "top_prio cm1 c = top_prio cm c" by (rule frame_top [OF acts_frame [OF a]])
    have p: "acts (\<lambda>d v. if d = c then prio_view (top_prio cm1 c) v else v) cm1 (setBorderChunkPriority c (tf_priority (cm_file cm g)) cm1)"
      using top_prio_ge [OF assms h] t by (intro setBorderChunkPriority_acts [OF w1]) simp
    have n: "needed f cm c" using r Some by simp
    have "acts (\<lambda>d v. if d = c then release_view (needed f cm c) (during_load cm) (top_prio cm c) v else v) cm
        (setBorderChunkPriority c (tf_priority (cm_file cm g)) cm1)"
      by (rule acts_weaken [OF acts_trans [OF a p]]) (simp add: release_view_def n t)
    then show ?thesis using Some res by simp
  qed
qed

lemma release_acts:
  assumes "cm_good cm" and "f < length (tor_files (cm_tor cm))" and "in_chunks (cm_file cm f) c"
  shows "fst (release env f c cm) = (\<not> needed f cm c)"
    and "acts (\<lambda>d v. if d = c then release_view (needed f cm c) (during_load cm) (top_prio cm c) v else v) cm (snd (release env f c cm))"
proof -
  have w: "cm_wf cm" and b: "border_chunks cm = shared_chunks cm" using assms(1) by (simp_all add: cm_good_def)
  have n: "\<not> isBorderChunk cm c \<Longrightarrow> \<not> needed f cm c" using needed_shared [OF w assms(2,3)] b by (auto simp: isBorderChunk_def)
  show "fst (release env f c cm) = (\<not> needed f cm c)" using n resetBorderChunk_acts(1) [OF w] by (simp add: release_def)
  show "acts (\<lambda>d v. if d = c then release_view (needed f cm c) (during_load cm) (top_prio cm c) v else v) cm (snd (release env f c cm))"
  proof (cases "isBorderChunk cm c")
    case False
    have "acts (\<lambda>d v. if d = c then release_view (needed f cm c) (during_load cm) (top_prio cm c) v else v) cm (resetChunk env c cm)"
      by (rule acts_weaken [OF resetChunk_acts [OF w]]) (auto simp: release_view_def n [OF False])
    then show ?thesis using False by (simp add: release_def)
  qed (use resetBorderChunk_acts(2) [OF w, of c f env] in \<open>simp add: release_def\<close>)
qed

section \<open>A file is prioritised\<close>

lemma chunk_ok_preview: "chunk_ok p v \<Longrightarrow> chunk_ok p (prev_view v)"
proof -
  have "base (preview_priority q) = base q" for q by (cases q) simp_all
  then show "chunk_ok p v \<Longrightarrow> chunk_ok p (prev_view v)" by (cases v) simp
qed

definition ex_bit :: "cview \<Rightarrow> bool" where
  "ex_bit v = fst (snd v)"

text \<open>\<open>soft\<close>: only previews may have been raised.\<close>

definition soft :: "chunk_manager \<Rightarrow> chunk_manager \<Rightarrow> bool" where
  "soft cm cm' \<longleftrightarrow> frame cm cm' \<and> (\<forall>c < length (cm_chunks cm). ex_bit (cview cm' c) = ex_bit (cview cm c) \<and>
     (\<forall>p. chunk_ok p (cview cm c) \<longrightarrow> chunk_ok p (cview cm' c)))"

lemma soft_trans: "soft cm cm1 \<Longrightarrow> soft cm1 cm2 \<Longrightarrow> soft cm cm2"
  by (simp add: soft_def frame_def)

lemma soft_acts:
  assumes "acts (\<lambda>c v. if P c then prev_view v else v) cm cm'"
  shows "soft cm cm'"
proof -
  have "ex_bit (prev_view v) = ex_bit v" for v by (cases v) (simp add: ex_bit_def)
  then show ?thesis using assms chunk_ok_preview by (simp add: soft_def acts_def)
qed

lemma soft_id: "acts (\<lambda>_ v. v) cm cm' \<Longrightarrow> soft cm cm'"
  by (rule soft_acts [where P = "\<lambda>_. False"]) simp

lemma soft_wf: "soft cm cm' \<Longrightarrow> cm_wf cm'"
  unfolding soft_def using frame_wf by blast

lemma doPreviewPriority_soft:
  assumes "cm_wf cm"
  shows "soft cm (doPreviewPriority env f cm)"
proof -
  have p: "soft cm (prioritisePreview a b cm)" if "cm_wf cm" for a b cm
    by (rule soft_acts [OF prioritisePreview_acts [OF that]])
  have "soft cm cm" using assms by (simp add: soft_def frame_refl)
  then show ?thesis using p [OF assms] soft_trans [OF p [OF assms] p [OF soft_wf [OF p [OF assms]]]]
    by (simp add: doPreviewPriority_def Let_def)
qed

lemma savePriorityInfo_soft: "cm_wf cm \<Longrightarrow> soft cm (savePriorityInfo cm)"
  by (rule soft_id) (rule quiet_acts [where ?cm1.0 = cm], simp_all add: acts_def frame_refl)

lemma status_done_soft:
  assumes "cm_wf cm"
  shows "soft cm (status_done env f dl cm)"
proof -
  let ?cm1 = "savePriorityInfo (emit_event (Ev_cacheStatus f dl) cm)"
  have a: "acts (\<lambda>_ v. v) cm ?cm1" by (rule quiet_acts [where ?cm1.0 = cm]) (simp_all add: acts_def frame_refl assms)
  have "acts (\<lambda>_ v. v) ?cm1 (updateFilePercentage env ?cm1)" by (rule updateFilePercentage_acts [OF frame_wf [OF acts_frame [OF a]]])
  from acts_trans [OF a this] a show ?thesis by (auto simp: status_done_def Let_def comp_def intro: soft_id)
qed

definition prio_step :: "nat \<Rightarrow> chunk_manager \<Rightarrow> nat \<Rightarrow> cview \<Rightarrow> cview" where
  "prio_step f cm c v = (if in_chunks (cm_file cm f) c then prio_view (top_prio cm c) v else v)"

lemma border_step:
  assumes "cm_good cm" and "f < length (tor_files (cm_tor cm))" and "in_chunks (cm_file cm f) c" and "newp = tf_priority (cm_file cm f)"
  shows "acts (\<lambda>d v. if d = c \<and> c \<in> border_chunks cm then prio_view (top_prio cm c) v else v) cm
    (if isBorderChunk cm c then setBorderChunkPriority c newp cm else cm)"
proof -
  have w: "cm_wf cm" using assms(1) by (simp add: cm_good_def)
  then show ?thesis using setBorderChunkPriority_acts [OF w, of c newp] top_prio_ge [OF w assms(2,3)] assms(4)
    by (auto simp: isBorderChunk_def acts_def frame_refl)
qed

lemma prioritise_single_acts:
  assumes "cm_good cm" and "f < length (tor_files (cm_tor cm))" and "newp = tf_priority (cm_file cm f)"
    and "first_chunk (cm_file cm f) = last_chunk (cm_file cm f)"
  shows "acts (prio_step f cm) cm (prioritise_single (first_chunk (cm_file cm f)) newp cm)"
proof -
  let ?c = "first_chunk (cm_file cm f)"
  let ?cm1 = "if isBorderChunk cm ?c then setBorderChunkPriority ?c newp cm else prioritise ?c ?c newp cm"
  have w: "cm_wf cm" and b: "border_chunks cm = shared_chunks cm" using assms(1) by (simp_all add: cm_good_def)
  have i: "in_chunks (cm_file cm f) d \<longleftrightarrow> d = ?c" for d using assms(4) by (auto simp: in_chunks_def)
  have "acts (prio_step f cm) cm ?cm1"
  proof (cases "isBorderChunk cm ?c")
    case True
    then show ?thesis using border_step [OF assms(1,2) _ assms(3), of ?c] i
      by (auto simp: isBorderChunk_def prio_step_def elim!: acts_weaken)
  next
    case False
    have "top_prio cm ?c = newp" if "?c < length (cm_chunks cm)"
      using only_holder [OF w assms(2) _ that] i False b assms(3) by (simp add: isBorderChunk_def)
    then show ?thesis using False
      by (auto intro!: acts_weaken [OF prioritise_acts [OF w]] simp: prio_step_def i in_range_def)
  qed
  then show ?thesis unfolding prioritise_single_def Let_def by (auto intro: quiet_acts)
qed

lemma prioritise_several_acts:
  assumes "cm_good cm" and "f < length (tor_files (cm_tor cm))" and "newp = tf_priority (cm_file cm f)"
    and "first_chunk (cm_file cm f) < last_chunk (cm_file cm f)"
  shows "acts (prio_step f cm) cm (prioritise_several (first_chunk (cm_file cm f)) (last_chunk (cm_file cm f)) newp cm)"
proof -
  let ?a = "first_chunk (cm_file cm f)" and ?b = "last_chunk (cm_file cm f)"
  have w: "cm_wf cm" and b: "border_chunks cm = shared_chunks cm" using assms(1) by (simp_all add: cm_good_def)
  define cm1 where "cm1 = (if isBorderChunk cm ?a then setBorderChunkPriority ?a newp cm else cm)"
  define cm2 where "cm2 = (if isBorderChunk cm1 ?b then setBorderChunkPriority ?b newp cm1 else cm1)"
  define a' where "a' = (if ?a \<in> border_chunks cm then ?a + 1 else ?a)"
  define b' where "b' = (if ?b \<in> border_chunks cm then ?b - 1 else ?b)"
  have a1: "acts (\<lambda>d v. if d = ?a \<and> ?a \<in> border_chunks cm then prio_view (top_prio cm ?a) v else v) cm cm1"
    using border_step [OF assms(1,2) _ assms(3), of ?a] assms(4) by (simp add: cm1_def in_chunks_def)
  note f1 = acts_frame [OF a1]
  have same: "border_chunks cm1 = border_chunks cm" "length (tor_files (cm_tor cm1)) = length (tor_files (cm_tor cm))"
    "tf_priority (cm_file cm1 f) = newp" "in_chunks (cm_file cm1 f) = in_chunks (cm_file cm f)"
    using f1 frame_length [OF f1] frame_sel(3,7) [OF f1 assms(2)] assms(3) by (simp_all add: frame_def fun_eq_iff)
  have a2: "acts (\<lambda>d v. if d = ?b \<and> ?b \<in> border_chunks cm then prio_view (top_prio cm ?b) v else v) cm1 cm2"
    using border_step [OF frame_good [OF assms(1) f1], of f ?b newp, unfolded frame_top [OF f1] same] assms(2,4)
    unfolding cm2_def by (simp add: in_chunks_def)
  note a12 = acts_trans [OF a1 a2]
  have bd: "isBorderChunk cm1 ?b \<longleftrightarrow> ?b \<in> border_chunks cm" using same(1) by (simp add: isBorderChunk_def)
  have code: "prioritise_several ?a ?b newp cm = (if a' \<le> b' then
      (let cm3 = prioritise a' b' newp cm2 in if newp = ONLY_SEED_PRIORITY then emit_event (Ev_excluded a' b') cm3 else cm3) else cm2)"
    using bd unfolding cm2_def cm1_def prioritise_several_def a'_def b'_def isBorderChunk_def
    by (cases "?a \<in> border_chunks cm"; cases "?b \<in> border_chunks cm") (simp_all add: Let_def)
  have inner: "top_prio cm c = newp" if "a' \<le> c" "c \<le> b'" "c < length (cm_chunks cm)" for c
  proof -
    have "?a \<le> a'" "b' \<le> ?b" by (simp_all add: a'_def b'_def)
    then have i: "in_chunks (cm_file cm f) c" using that(1,2) by (simp add: in_chunks_def)
    have "c \<noteq> ?a \<or> ?a \<notin> shared_chunks cm" "c \<noteq> ?b \<or> ?b \<notin> shared_chunks cm"
      using that(1,2) assms(4) by (auto simp: a'_def b'_def b split: if_splits)
    then have "c \<notin> shared_chunks cm \<or> ?a < c \<and> c < ?b" using i le_neq_implies_less unfolding in_chunks_def by metis
    then show ?thesis using only_holder [OF w assms(2) i that(3)] assms(3) by simp
  qed
  have lim: "a' \<le> c \<and> c \<le> b' \<or> c = ?a \<and> ?a \<in> border_chunks cm \<or> c = ?b \<and> ?b \<in> border_chunks cm \<longleftrightarrow> in_chunks (cm_file cm f) c" for c
    using assms(4) by (auto simp: a'_def b'_def in_chunks_def)
  have off: "\<not> (a' \<le> ?a \<and> ?a \<in> border_chunks cm)" "\<not> (?b \<le> b' \<and> ?b \<in> border_chunks cm)" using assms(4) by (auto simp: a'_def b'_def)
  show ?thesis
  proof (cases "a' \<le> b'")
    case True
    have "acts (\<lambda>d v. if in_range a' b' d then prio_view newp v else v) cm2 (prioritise a' b' newp cm2)"
      by (rule prioritise_acts [OF frame_wf [OF acts_frame [OF a2]]])
    from acts_trans [OF a12 this]
    have "acts (prio_step f cm) cm (prioritise a' b' newp cm2)"
      using True lim off inner assms(4) by (elim acts_weaken) (auto simp: prio_step_def in_range_def comp_def)
    then show ?thesis using True unfolding code Let_def by (auto intro: quiet_acts)
  next
    case False
    have "acts (prio_step f cm) cm cm2"
    proof (rule acts_weaken [OF a12])
      fix c show "((\<lambda>v. if c = ?b \<and> ?b \<in> border_chunks cm then prio_view (top_prio cm ?b) v else v) \<circ>
          (\<lambda>v. if c = ?a \<and> ?a \<in> border_chunks cm then prio_view (top_prio cm ?a) v else v)) (cview cm c) = prio_step f cm c (cview cm c)"
        using False lim [of c] assms(4) by (auto simp: prio_step_def)
    qed
    then show ?thesis using False by (simp add: code)
  qed
qed

section \<open>A file is excluded\<close>

definition excl_step :: "nat \<Rightarrow> chunk_manager \<Rightarrow> nat \<Rightarrow> cview \<Rightarrow> cview" where
  "excl_step f cm c v = (if \<not> in_chunks (cm_file cm f) c then v else if needed f cm c then prio_view (top_prio cm c) v else excl_view v)"

lemma excl_view_release [simp]: "excl_view (release_view nd dl p v) = excl_view v" "excl_view (reset_view v) = excl_view v"
  by simp_all

lemma exclude_single_acts:
  assumes "cm_good cm" and "f < length (tor_files (cm_tor cm))" and "first_chunk (cm_file cm f) = last_chunk (cm_file cm f)"
  shows "acts (excl_step f cm) cm (exclude_single env f (first_chunk (cm_file cm f)) cm)"
proof -
  let ?c = "first_chunk (cm_file cm f)"
  have i: "in_chunks (cm_file cm f) d \<longleftrightarrow> d = ?c" for d using assms(3) by (auto simp: in_chunks_def)
  define r where "r = release env f ?c cm"
  have rel: "fst r = (\<not> needed f cm ?c)"
    "acts (\<lambda>d v. if d = ?c then release_view (needed f cm ?c) (during_load cm) (top_prio cm ?c) v else v) cm (snd r)"
    using release_acts [OF assms(1,2), of ?c env] i by (simp_all add: r_def)
  have code: "exclude_single env f ?c cm = (if fst r then exclude_range ?c ?c (snd r) else snd r)"
    by (simp add: exclude_single_def r_def split_beta)
  show ?thesis
  proof (cases "needed f cm ?c")
    case True
    then show ?thesis using rel code by (auto simp: excl_step_def i release_view_def elim!: acts_weaken)
  next
    case False
    have "acts (\<lambda>d v. if in_range ?c ?c d then excl_view v else v) (snd r) (exclude_range ?c ?c (snd r))"
      by (rule exclude_range_acts [OF frame_wf [OF acts_frame [OF rel(2)]]])
    from acts_trans [OF rel(2) this] show ?thesis using False rel(1) code
      by (auto simp: excl_step_def i in_range_def comp_def elim!: acts_weaken)
  qed
qed

lemma fold_reset_acts:
  assumes "cm_wf cm"
  shows "acts (\<lambda>c v. if c \<in> set is \<and> \<not> during_load cm then reset_view v else v) cm (fold (resetChunk env) is cm)"
  using assms
proof (induction "is" arbitrary: cm)
  case Nil
  then show ?case by (simp add: acts_def frame_refl)
next
  case (Cons i "is")
  note a = resetChunk_acts [OF Cons.prems, of i env]
  have dl: "during_load (resetChunk env i cm) = during_load cm" using acts_frame [OF a] by (simp add: frame_def)
  have twice: "reset_view (reset_view v) = reset_view v" for v by (cases v) simp
  show ?case using Cons.IH [OF frame_wf [OF acts_frame [OF a]]] dl
    by (auto intro!: acts_weaken [OF acts_trans [OF a]] simp: twice)
qed

lemma exclude_several_acts:
  assumes "cm_good cm" and "f < length (tor_files (cm_tor cm))" and "first_chunk (cm_file cm f) < last_chunk (cm_file cm f)"
  shows "acts (excl_step f cm) cm (exclude_several env f (first_chunk (cm_file cm f)) (last_chunk (cm_file cm f)) cm)"
proof -
  let ?a = "first_chunk (cm_file cm f)" and ?b = "last_chunk (cm_file cm f)"
  have w: "cm_wf cm" and b: "border_chunks cm = shared_chunks cm" and fo: "file_ok cm (cm_file cm f)"
    using assms(1,2) by (simp_all add: cm_good_def cm_file_def)
  define cm1 where "cm1 = fold (resetChunk env) [?a + 1..<?b] cm"
  have a1: "acts (\<lambda>c v. if c \<in> set [?a + 1..<?b] \<and> \<not> during_load cm then reset_view v else v) cm cm1"
    unfolding cm1_def by (rule fold_reset_acts [OF w])
  define r where "r = release env f ?a cm1"
  define a' where "a' = (if needed f cm ?a then ?a + 1 else ?a)"
  define s where "s = (if ?b \<noteq> a' then release env f ?b (snd r) else (True, snd r))"
  define b' where "b' = (if fst s then ?b else ?b - 1)"
  have ia: "in_chunks (cm_file cm f) ?a" "in_chunks (cm_file cm f) ?b" using assms(3) by (simp_all add: in_chunks_def)
  note f1 = acts_frame [OF a1]
  have dl1: "during_load cm1 = during_load cm" using f1 by (simp add: frame_def)
  have r: "fst r = (\<not> needed f cm ?a)"
    "acts (\<lambda>d v. if d = ?a then release_view (needed f cm ?a) (during_load cm) (top_prio cm ?a) v else v) cm1 (snd r)"
    using release_acts [OF frame_good [OF assms(1) f1], of f ?a env, unfolded frame_needed [OF f1] frame_top [OF f1] dl1] frame_length [OF f1]
      frame_sel(7) [OF f1 assms(2)] assms(2) ia unfolding r_def by simp_all
  have a': "a' = (if fst r then ?a else ?a + 1)" by (simp add: a'_def r(1))
  note a2 = acts_trans [OF a1 r(2)]
  note f2 = acts_frame [OF a2]
  have dl2: "during_load (snd r) = during_load cm" using f2 by (simp add: frame_def)
  have s: "fst s = (?b \<noteq> a' \<longrightarrow> \<not> needed f cm ?b)"
    "acts (\<lambda>d v. if d = ?b \<and> ?b \<noteq> a' then release_view (needed f cm ?b) (during_load cm) (top_prio cm ?b) v else v) (snd r) (snd s)"
  proof -
    have "fst (release env f ?b (snd r)) = (\<not> needed f cm ?b)"
      "acts (\<lambda>d v. if d = ?b then release_view (needed f cm ?b) (during_load cm) (top_prio cm ?b) v else v) (snd r) (snd (release env f ?b (snd r)))"
      using release_acts [OF frame_good [OF assms(1) f2], of f ?b env, unfolded frame_needed [OF f2] frame_top [OF f2] dl2] frame_length [OF f2]
        frame_sel(7) [OF f2 assms(2)] assms(2) ia by simp_all
    then show "fst s = (?b \<noteq> a' \<longrightarrow> \<not> needed f cm ?b)"
      "acts (\<lambda>d v. if d = ?b \<and> ?b \<noteq> a' then release_view (needed f cm ?b) (during_load cm) (top_prio cm ?b) v else v) (snd r) (snd s)"
      by (simp_all add: s_def acts_def frame_refl [OF frame_wf [OF f2]])
  qed
  note a3 = acts_trans [OF a2 s(2)]
  have code: "exclude_several env f ?a ?b cm = (if a' \<le> b' then exclude_range a' b' (snd s) else snd s)"
    unfolding exclude_several_def split_beta Let_def b'_def s_def a' r_def cm1_def ..
  have one: "\<not> needed f cm ?b" if "?b = a'"
  proof
    assume n: "needed f cm ?b"
    have "needed f cm ?a" "?b = Suc ?a" using that assms(3) by (auto simp: a'_def split: if_splits)
    then show False using n fo needed_shared(1) [OF w assms(2)] ia b by (auto simp: file_ok_def)
  qed
  have mid: "\<not> needed f cm c" if "?a < c" "c < ?b" for c
    using needed_shared(2) [OF w assms(2), of c] that by (auto simp: in_chunks_def)
  have b': "b' = (if needed f cm ?b then ?b - 1 else ?b)" using s(1) one by (auto simp: b'_def)
  have range: "a' \<le> c \<and> c \<le> b' \<longleftrightarrow> in_chunks (cm_file cm f) c \<and> \<not> needed f cm c" for c
  proof (cases "?a < c \<and> c < ?b")
    case True
    then show ?thesis using mid [of c] by (auto simp: a'_def b' in_chunks_def)
  next
    case False
    then show ?thesis using assms(3) by (cases "c = ?a"; cases "c = ?b") (auto simp: a'_def b' in_chunks_def)
  qed
  have kept: "cview (snd s) c = prio_view (top_prio cm c) (cview cm c)"
    if c: "c < length (cm_chunks cm)" and n: "needed f cm c" and h: "in_chunks (cm_file cm f) c" for c
  proof -
    have "c = ?a \<or> c = ?b" by (rule needed_shared(2) [OF w assms(2) h n])
    moreover have "c = ?b \<Longrightarrow> ?b \<noteq> a'" using one n by blast
    ultimately show ?thesis using acts_view [OF a3 c] n assms(3) by (elim disjE) (simp_all add: release_view_def)
  qed
  have outside: "cview (snd s) c = cview cm c" if c: "c < length (cm_chunks cm)" and h: "\<not> in_chunks (cm_file cm f) c" for c
    using acts_view [OF a3 c] h assms(3) by (auto simp: in_chunks_def)
  have f3: "frame cm (snd s)" by (rule acts_frame [OF a3])
  show ?thesis
  proof (cases "a' \<le> b'")
    case True
    have x: "acts (\<lambda>d v. if in_range a' b' d then excl_view v else v) (snd s) (exclude_range a' b' (snd s))"
      by (rule exclude_range_acts [OF frame_wf [OF f3]])
    have "cview (exclude_range a' b' (snd s)) c = excl_step f cm c (cview cm c)" if c: "c < length (cm_chunks cm)" for c
      using acts_view [OF x, of c] f3 c True range [of c] kept [OF c] outside [OF c] by (auto simp: excl_step_def in_range_def frame_def)
    then show ?thesis using True frame_trans [OF f3 acts_frame [OF x]] by (simp add: code acts_def)
  next
    case False
    have "cview (snd s) c = excl_step f cm c (cview cm c)" if c: "c < length (cm_chunks cm)" for c
      using False range [of c] kept [OF c] outside [OF c] by (auto simp: excl_step_def)
    then show ?thesis using False f3 by (simp add: code acts_def)
  qed
qed

section \<open>Changes of priority\<close>

lemma chunk_ok_prio: "base p = p \<Longrightarrow> p \<noteq> EXCLUDED \<Longrightarrow> \<not> ex_bit v \<Longrightarrow> chunk_ok p (prio_view p v)"
  by (cases v) (auto simp: ex_bit_def)

lemma chunk_ok_excl: "chunk_ok EXCLUDED (excl_view v)"
  by simp

lemma chunk_ok_ex: "chunk_ok p v \<Longrightarrow> ex_bit v = (p = EXCLUDED)"
  by (cases v) (simp add: ex_bit_def)

lemma top_prio_base:
  assumes "cm_good cm" and "c < length (cm_chunks cm)"
  shows "base (top_prio cm c) = top_prio cm c"
proof -
  have w: "cm_wf cm" using assms(1) by (simp add: cm_good_def)
  obtain f where f: "f < length (tor_files (cm_tor cm))" "top_prio cm c = tf_priority (cm_file cm f)"
    using top_prio_attained [OF w assms(2)] .
  then have "file_ok cm (cm_file cm f)" using assms(1) by (simp add: cm_good_def cm_file_def)
  then show ?thesis using f(2) by (simp add: file_ok_def)
qed

definition settled :: "nat \<Rightarrow> chunk_manager \<Rightarrow> bool" where
  "settled f cm \<longleftrightarrow> (\<forall>c < length (cm_chunks cm). \<not> in_chunks (cm_file cm f) c \<longrightarrow> chunk_ok (top_prio cm c) (cview cm c))"

definition admitted :: "nat \<Rightarrow> chunk_manager \<Rightarrow> bool" where
  "admitted f cm \<longleftrightarrow> (\<forall>c < length (cm_chunks cm). in_chunks (cm_file cm f) c \<longrightarrow> \<not> ex_bit (cview cm c))"

definition demanded :: "nat \<Rightarrow> chunk_manager \<Rightarrow> bool" where
  "demanded f cm \<longleftrightarrow> (\<forall>c < length (cm_chunks cm). in_chunks (cm_file cm f) c \<and> needed f cm c \<longrightarrow> \<not> ex_bit (cview cm c))"

lemma soft_settled:
  assumes "soft cm cm'" and "f < length (tor_files (cm_tor cm))"
  shows "settled f cm \<Longrightarrow> settled f cm'" "admitted f cm \<Longrightarrow> admitted f cm'" "prios_ok cm \<Longrightarrow> prios_ok cm'" "frame cm cm'"
proof -
  show f: "frame cm cm'" using assms(1) by (simp add: soft_def)
  have n: "length (cm_chunks cm') = length (cm_chunks cm)" using f by (simp add: frame_def)
  show "settled f cm \<Longrightarrow> settled f cm'" "admitted f cm \<Longrightarrow> admitted f cm'" "prios_ok cm \<Longrightarrow> prios_ok cm'"
    using assms(1) frame_sel(7) [OF f assms(2)] frame_top [OF f] n by (simp_all add: soft_def settled_def admitted_def prios_ok_def)
qed

lemma excluded_ok:
  assumes "cm_good cm" and "f < length (tor_files (cm_tor cm))" and "tf_priority (cm_file cm f) = EXCLUDED"
    and "settled f cm" and "demanded f cm" and "acts (excl_step f cm) cm cm'"
  shows "prios_ok cm'"
proof -
  have w: "cm_wf cm" using assms(1) by (simp add: cm_good_def)
  have fr: "frame cm cm'" by (rule acts_frame [OF assms(6)])
  have "chunk_ok (top_prio cm c) (excl_step f cm c (cview cm c))" if c: "c < length (cm_chunks cm)" for c
    using assms(4,5) c needed_top [OF w, of f c] not_needed_top [OF w _ assms(3) c] top_prio_base [OF assms(1) c]
    by (auto simp: excl_step_def settled_def demanded_def intro!: chunk_ok_prio simp del: chunk_ok.simps excl_view.simps intro: chunk_ok_excl)
  then show ?thesis using acts_view [OF assms(6)] frame_top [OF fr] fr by (simp add: prios_ok_def frame_def)
qed

lemma status_off_ok:
  assumes "cm_good cm" and "f < length (tor_files (cm_tor cm))" and "tf_priority (cm_file cm f) = EXCLUDED"
    and "settled f cm" and "demanded f cm"
  shows "frame cm (downloadStatusChanged env f False cm) \<and> prios_ok (downloadStatusChanged env f False cm)"
proof -
  let ?a = "first_chunk (cm_file cm f)" and ?b = "last_chunk (cm_file cm f)"
  have w: "cm_wf cm" using assms(1) by (simp add: cm_good_def)
  have "ordered (tor_files (cm_tor cm))" using w by (simp add: cm_wf_def wf_tor_def chunks_placed_def)
  then have le: "?a \<le> ?b" using assms(2) by (simp add: ordered_def cm_file_def)
  define cm1 where "cm1 = (if ?a = ?b then exclude_single env f ?a cm else exclude_several env f ?a ?b cm)"
  have a: "acts (excl_step f cm) cm cm1"
    using exclude_single_acts [OF assms(1,2)] exclude_several_acts [OF assms(1,2)] le by (simp add: cm1_def)
  have code: "downloadStatusChanged env f False cm = status_done env f False cm1" by (simp add: downloadStatusChanged_def cm1_def)
  note fr = acts_frame [OF a]
  have s: "soft cm1 (status_done env f False cm1)" by (rule status_done_soft [OF frame_wf [OF fr]])
  have f1: "f < length (tor_files (cm_tor cm1))" using assms(2) frame_length [OF fr] by simp
  show ?thesis using soft_settled(3,4) [OF s f1] excluded_ok [OF assms a] frame_trans [OF fr] by (simp add: code)
qed

lemma include_ok:
  assumes "cm_good cm" and "f < length (tor_files (cm_tor cm))" and "settled f cm"
  shows "frame cm (include_range (first_chunk (cm_file cm f)) (last_chunk (cm_file cm f)) cm)"
    and "settled f (include_range (first_chunk (cm_file cm f)) (last_chunk (cm_file cm f)) cm)"
    and "admitted f (include_range (first_chunk (cm_file cm f)) (last_chunk (cm_file cm f)) cm)"
proof -
  let ?cm1 = "include_range (first_chunk (cm_file cm f)) (last_chunk (cm_file cm f)) cm"
  have w: "cm_wf cm" using assms(1) by (simp add: cm_good_def)
  have "ordered (tor_files (cm_tor cm))" using w by (simp add: cm_wf_def wf_tor_def chunks_placed_def)
  then have le: "first_chunk (cm_file cm f) \<le> last_chunk (cm_file cm f)" using assms(2) by (simp add: ordered_def cm_file_def)
  have r: "in_range (first_chunk (cm_file cm f)) (last_chunk (cm_file cm f)) c = in_chunks (cm_file cm f) c" for c
    using le by (simp add: in_range_def in_chunks_def)
  note a = include_range_acts [OF w, of "first_chunk (cm_file cm f)" "last_chunk (cm_file cm f)", unfolded r]
  show fr: "frame cm ?cm1" by (rule acts_frame [OF a])
  have n: "length (cm_chunks ?cm1) = length (cm_chunks cm)" using fr by (simp add: frame_def)
  show "settled f ?cm1" using assms(3) acts_view [OF a] frame_top [OF fr] frame_sel(7) [OF fr assms(2)] n by (simp add: settled_def)
  have "\<not> ex_bit (incl_view v)" for v by (cases v) (simp add: ex_bit_def)
  then show "admitted f ?cm1" using acts_view [OF a] frame_sel(7) [OF fr assms(2)] n by (simp add: admitted_def)
qed

lemma status_on_ok:
  assumes "cm_good cm" and "f < length (tor_files (cm_tor cm))" and "settled f cm"
  shows "frame cm (downloadStatusChanged env f True cm) \<and> settled f (downloadStatusChanged env f True cm) \<and> admitted f (downloadStatusChanged env f True cm)"
proof -
  define cm1 where "cm1 = include_range (first_chunk (cm_file cm f)) (last_chunk (cm_file cm f)) cm"
  note i = include_ok [OF assms, folded cm1_def]
  note w1 = frame_wf [OF i(1)]
  define cm2 where "cm2 = (if isMultimedia (mime env) (cm_file cm1 f) then doPreviewPriority env f cm1 else cm1)"
  have s: "soft cm1 cm2" using doPreviewPriority_soft [OF w1] w1 by (simp add: cm2_def soft_def frame_refl)
  note t = soft_trans [OF s status_done_soft [OF soft_wf [OF s], of env f True]]
  have f1: "f < length (tor_files (cm_tor cm1))" using assms(2) frame_length [OF i(1)] by simp
  have "downloadStatusChanged env f True cm = status_done env f True cm2" by (simp add: downloadStatusChanged_def cm1_def cm2_def)
  then show ?thesis using soft_settled(1,2,4) [OF t f1] i frame_trans [OF i(1)] by simp
qed

lemma prioritised_ok:
  assumes "cm_good cm" and "f < length (tor_files (cm_tor cm))" and "tf_priority (cm_file cm f) \<noteq> EXCLUDED"
    and "settled f cm" and "admitted f cm" and "acts (prio_step f cm) cm cm'"
  shows "prios_ok cm'"
proof -
  have w: "cm_wf cm" using assms(1) by (simp add: cm_good_def)
  have fr: "frame cm cm'" by (rule acts_frame [OF assms(6)])
  have "chunk_ok (top_prio cm c) (prio_step f cm c (cview cm c))" if c: "c < length (cm_chunks cm)" for c
  proof (cases "in_chunks (cm_file cm f) c")
    case True
    then have "top_prio cm c \<noteq> EXCLUDED" using top_prio_ge [OF w assms(2) True] assms(3) by auto
    then show ?thesis using True assms(5) c top_prio_base [OF assms(1) c] by (auto simp: prio_step_def admitted_def intro!: chunk_ok_prio)
  qed (use assms(4) c in \<open>simp add: prio_step_def settled_def\<close>)
  then show ?thesis using acts_view [OF assms(6)] frame_top [OF fr] fr by (simp add: prios_ok_def frame_def)
qed

lemma downloadPriorityChanged_ok:
  assumes "cm_good cm" and "f < length (tor_files (cm_tor cm))" and "newp = tf_priority (cm_file cm f)"
    and "settled f cm" and "demanded f cm" and "newp \<noteq> EXCLUDED \<Longrightarrow> oldp \<noteq> EXCLUDED \<Longrightarrow> oldp \<noteq> ONLY_SEED_PRIORITY \<Longrightarrow> admitted f cm"
  shows "frame cm (downloadPriorityChanged env f newp oldp cm) \<and> prios_ok (downloadPriorityChanged env f newp oldp cm)"
proof (cases "newp = EXCLUDED")
  case True
  then show ?thesis using status_off_ok [OF assms(1,2) _ assms(4,5)] assms(3) by (simp add: downloadPriorityChanged_def)
next
  case False
  have w: "cm_wf cm" using assms(1) by (simp add: cm_good_def)
  define cm0 where "cm0 = (if oldp = EXCLUDED then downloadStatusChanged env f True cm else cm)"
  have c0: "frame cm cm0" "settled f cm0" "oldp \<noteq> ONLY_SEED_PRIORITY \<Longrightarrow> admitted f cm0"
    using status_on_ok [OF assms(1,2,4)] assms(4,6) False w by (simp_all add: cm0_def frame_refl)
  define cm1 where "cm1 = savePriorityInfo cm0"
  have f0: "f < length (tor_files (cm_tor cm0))" using assms(2) frame_length [OF c0(1)] by simp
  note s1 = soft_settled [OF savePriorityInfo_soft [OF frame_wf [OF c0(1)]] f0, folded cm1_def]
  have fr1: "frame cm cm1" by (rule frame_trans [OF c0(1) s1(4)])
  have g1: "cm_good cm1" by (rule frame_good [OF assms(1) fr1])
  have f1: "f < length (tor_files (cm_tor cm1))" using assms(2) frame_length [OF fr1] by simp
  define a where "a = first_chunk (cm_file cm1 f)"
  define b where "b = last_chunk (cm_file cm1 f)"
  define cm2 where "cm2 = (if oldp = ONLY_SEED_PRIORITY then include_range a b cm1 else cm1)"
  have c2: "frame cm1 cm2" "settled f cm2" "admitted f cm2"
    using include_ok [OF g1 f1] s1 c0(2,3) frame_wf [OF fr1] by (auto simp: cm2_def a_def b_def frame_refl)
  have fr2: "frame cm cm2" by (rule frame_trans [OF fr1 c2(1)])
  have g2: "cm_good cm2" by (rule frame_good [OF assms(1) fr2])
  have f2: "f < length (tor_files (cm_tor cm2))" using assms(2) frame_length [OF fr2] by simp
  have p2: "newp = tf_priority (cm_file cm2 f)" using frame_sel(3) [OF fr2 assms(2)] assms(3) by simp
  have ab: "a = first_chunk (cm_file cm2 f)" "b = last_chunk (cm_file cm2 f)" using frame_sel(1,2) [OF c2(1) f1] by (simp_all add: a_def b_def)
  have "ordered (tor_files (cm_tor cm2))" using g2 by (simp add: cm_good_def cm_wf_def wf_tor_def chunks_placed_def)
  then have le: "a \<le> b" using f2 by (simp add: ordered_def ab cm_file_def)
  define cm3 where "cm3 = (if a = b then prioritise_single a newp cm2 else prioritise_several a b newp cm2)"
  have p: "acts (prio_step f cm2) cm2 cm3"
    using prioritise_single_acts [OF g2 f2 p2] prioritise_several_acts [OF g2 f2 p2] le by (auto simp: cm3_def ab)
  note fr3 = acts_frame [OF p]
  have ok3: "prios_ok cm3" using prioritised_ok [OF g2 f2 _ c2(2,3) p] p2 False by simp
  have s: "soft cm3 (doPreviewPriority env f cm3)" by (rule doPreviewPriority_soft [OF frame_wf [OF fr3]])
  have f3: "f < length (tor_files (cm_tor cm3))" using f2 frame_length [OF fr3] by simp
  have code: "downloadPriorityChanged env f newp oldp cm = (if isMultimedia (mime env) (cm_file cm3 f) then doPreviewPriority env f cm3 else cm3)"
    using False unfolding downloadPriorityChanged_def cm3_def cm2_def a_def b_def cm1_def cm0_def Let_def by simp
  show ?thesis using soft_settled(3,4) [OF s f3] ok3 frame_trans [OF fr2 fr3] frame_trans [OF frame_trans [OF fr2 fr3]] by (simp add: code)
qed

section \<open>Operations keep the invariant\<close>

definition cm_inv :: "nat \<Rightarrow> chunk_manager \<Rightarrow> bool" where
  "cm_inv m cm \<longleftrightarrow> cm_good cm \<and> prios_ok cm \<and> length (cm_chunks cm) = m"

text \<open>A file takes another priority.\<close>

lemma upd_file_prio:
  assumes "cm_inv m cm" and "f < length (tor_files (cm_tor cm))" and "base p = p"
    and "\<And>tf. g tf = tf\<lparr>old_priority := h tf, tf_priority := p\<rparr>"
  shows "cm_good (upd_file f g cm)" and "settled f (upd_file f g cm)" and "demanded f (upd_file f g cm)"
    and "tf_priority (cm_file cm f) \<noteq> EXCLUDED \<Longrightarrow> admitted f (upd_file f g cm)"
    and "tf_priority (cm_file (upd_file f g cm) f) = p" and "old_priority (cm_file (upd_file f g cm) f) = h (cm_file cm f)"
    and "length (tor_files (cm_tor (upd_file f g cm))) = length (tor_files (cm_tor cm))"
proof -
  let ?cm1 = "upd_file f g cm"
  have w: "cm_wf cm" and good: "cm_good cm" and ok: "prios_ok cm" using assms(1) by (simp_all add: cm_inv_def cm_good_def)
  have fl: "cm_file ?cm1 i = (if i = f then g (cm_file cm f) else cm_file cm i)" for i
    using assms(2) by (auto simp: cm_file_def upd_file_def nth_list_update)
  show len: "length (tor_files (cm_tor ?cm1)) = length (tor_files (cm_tor cm))" by (simp add: upd_file_def)
  show new: "tf_priority (cm_file ?cm1 f) = p" and "old_priority (cm_file ?cm1 f) = h (cm_file cm f)" by (simp_all add: fl assms(4))
  have sel: "first_chunk (cm_file ?cm1 i) = first_chunk (cm_file cm i)" "last_chunk (cm_file ?cm1 i) = last_chunk (cm_file cm i)"
    "emit_status_changed (cm_file ?cm1 i) = emit_status_changed (cm_file cm i)" "in_chunks (cm_file ?cm1 i) = in_chunks (cm_file cm i)" for i
    by (auto simp: fl assms(4) in_chunks_def)
  have view: "cview ?cm1 c = cview cm c" "cm_chunks ?cm1 = cm_chunks cm" for c by (simp_all add: cview_def upd_file_def)
  have "layout (cm_tor ?cm1) = layout (cm_tor cm)"
    using assms(2) by (auto simp: layout_def tor_cache_def upd_file_def map_update assms(4) place_def intro!: list_update_same_conv [THEN iffD2])
  then have w1: "cm_wf ?cm1" using w wf_tor_core [of cm ?cm1] by (simp add: cm_wf_def wf_bits_def upd_file_def)
  have "file_ok ?cm1 (cm_file ?cm1 i)" if "i < length (tor_files (cm_tor cm))" for i
  proof -
    have "file_ok cm (cm_file cm i)" using good that by (simp add: cm_good_def cm_file_def)
    moreover have "tf_priority (cm_file ?cm1 i) = (if i = f then p else tf_priority (cm_file cm i))" by (simp add: fl assms(4))
    moreover have "border_chunks ?cm1 = border_chunks cm" by (simp add: upd_file_def)
    ultimately show ?thesis using sel assms(3) by (simp add: file_ok_def)
  qed
  moreover have "border_chunks ?cm1 = shared_chunks ?cm1" using good sel len by (simp add: cm_good_def shared_chunks_def upd_file_def)
  ultimately show "cm_good ?cm1" using w1 len by (auto simp: cm_good_def in_set_conv_nth cm_file_def)
  have other: "top_prio ?cm1 c = top_prio cm c" if "\<not> in_chunks (cm_file cm f) c" for c
  proof -
    have "i \<in> set (files_of (cm_tor ?cm1) c) \<longleftrightarrow> i \<in> set (files_of (cm_tor cm) c)" for i using holders [OF w] holders [OF w1] sel len by simp
    then have "set (files_of (cm_tor ?cm1) c) = set (files_of (cm_tor cm) c)" by blast
    moreover have "f \<notin> set (files_of (cm_tor cm) c)" using that holders [OF w] by simp
    ultimately show ?thesis unfolding top_prio_files [OF w] top_prio_files [OF w1] by (intro arg_cong [of _ _ Max] image_cong) (auto simp: fl)
  qed
  show "settled f ?cm1" using ok other by (simp add: settled_def prios_ok_def view sel)
  have ex: "ex_bit (cview cm c) = (top_prio cm c = EXCLUDED)" if "c < length (cm_chunks cm)" for c
    using ok that chunk_ok_ex by (simp add: prios_ok_def)
  have nd: "needed f ?cm1 c = needed f cm c" for c using len sel by (auto simp: needed_def fl view)
  show "demanded f ?cm1" using ex needed_top [OF w, of f] nd by (simp add: demanded_def view sel)
  show "admitted f ?cm1" if "tf_priority (cm_file cm f) \<noteq> EXCLUDED"
    using ex top_prio_ge [OF w assms(2)] that by (force simp: admitted_def view sel)
qed

lemma change_priority_ok:
  assumes "cm_inv m cm" and "f < length (tor_files (cm_tor cm))" and "base p = p"
    and "\<And>tf. g tf = tf\<lparr>old_priority := tf_priority tf, tf_priority := p\<rparr>"
  shows "cm_inv m (downloadPriorityChanged env f p (old_priority (cm_file (upd_file f g cm) f)) (upd_file f g cm))"
    and "frame (upd_file f g cm) (downloadPriorityChanged env f p (old_priority (cm_file (upd_file f g cm) f)) (upd_file f g cm))"
proof -
  note u = upd_file_prio [OF assms]
  have "frame (upd_file f g cm) (downloadPriorityChanged env f p (old_priority (cm_file (upd_file f g cm) f)) (upd_file f g cm)) \<and>
    prios_ok (downloadPriorityChanged env f p (old_priority (cm_file (upd_file f g cm) f)) (upd_file f g cm))"
    using u(4,6,7) assms(2) by (intro downloadPriorityChanged_ok [OF u(1) _ _ u(2,3)]) (auto simp: u(5))
  then show "frame (upd_file f g cm) (downloadPriorityChanged env f p (old_priority (cm_file (upd_file f g cm) f)) (upd_file f g cm))"
    and "cm_inv m (downloadPriorityChanged env f p (old_priority (cm_file (upd_file f g cm) f)) (upd_file f g cm))"
    using frame_good [OF u(1)] assms(1) by (auto simp: cm_inv_def frame_def upd_file_def)
qed

lemma upd_file_twice:
  "f < length (tor_files (cm_tor cm)) \<Longrightarrow> upd_file f g (upd_file f h cm) = upd_file f (\<lambda>tf. g (h tf)) cm"
  by (simp add: upd_file_def)

definition file_prio :: "priority \<Rightarrow> bool" where
  "file_prio p \<longleftrightarrow> base p = p"

lemma emits: "cm_inv m cm \<Longrightarrow> f < length (tor_files (cm_tor cm)) \<Longrightarrow> emit_status_changed (cm_file cm f)"
  by (simp add: cm_inv_def cm_good_def file_ok_def cm_file_def)

lemma setDoNotDownload_ok:
  assumes "cm_inv m cm" and "f < length (tor_files (cm_tor cm))"
  shows "cm_inv m (setDoNotDownload env f dnd cm) \<and> length (tor_files (cm_tor (setDoNotDownload env f dnd cm))) = length (tor_files (cm_tor cm)) \<and>
    tf_priority (cm_file (setDoNotDownload env f dnd cm) f) =
      (if dnd then EXCLUDED else if tf_priority (cm_file cm f) = EXCLUDED then NORMAL_PRIORITY else tf_priority (cm_file cm f))"
proof -
  define change where "change p = downloadPriorityChanged env f p
      (old_priority (cm_file (upd_file f (\<lambda>tf. tf\<lparr>old_priority := tf_priority tf, tf_priority := p\<rparr>) cm) f))
      (upd_file f (\<lambda>tf. tf\<lparr>old_priority := tf_priority tf, tf_priority := p\<rparr>) cm)" for p
  have c: "cm_inv m (change p) \<and> length (tor_files (cm_tor (change p))) = length (tor_files (cm_tor cm)) \<and> tf_priority (cm_file (change p) f) = p"
    if p: "base p = p" for p
  proof -
    note u = upd_file_prio [OF assms p refl]
    note r = change_priority_ok [OF assms p refl, of env]
    have l: "f < length (tor_files (cm_tor (upd_file f (\<lambda>tf. tf\<lparr>old_priority := tf_priority tf, tf_priority := p\<rparr>) cm)))" using u(7) assms(2) by simp
    show ?thesis using r(1) frame_length [OF r(2)] u(7) frame_sel(3) [OF r(2) l] u(5) by (simp add: change_def)
  qed
  have e: "emit_status_changed (cm_file cm f)" by (rule emits [OF assms])
  have code: "setDoNotDownload env f dnd cm = (if tf_priority (cm_file cm f) \<noteq> EXCLUDED \<and> dnd then change EXCLUDED
      else if tf_priority (cm_file cm f) = EXCLUDED \<and> \<not> dnd then change NORMAL_PRIORITY else cm)"
    using e c [of EXCLUDED] unfolding setDoNotDownload_def Let_def by (simp add: upd_file_twice [OF assms(2)] change_def)
  show ?thesis unfolding code using c [of EXCLUDED] c [of NORMAL_PRIORITY] assms(1) by auto
qed

lemma setPriority_ok:
  assumes "cm_inv m cm" and "f < length (tor_files (cm_tor cm))" and "file_prio p"
  shows "cm_inv m (setPriority env f p cm) \<and> length (tor_files (cm_tor (setPriority env f p cm))) = length (tor_files (cm_tor cm)) \<and>
    tf_priority (cm_file (setPriority env f p cm) f) = p"
proof (cases "tf_priority (cm_file cm f) = p")
  case True
  then show ?thesis using assms by (simp add: setPriority_def)
next
  case False
  define cm1 where "cm1 = (if tf_priority (cm_file cm f) = EXCLUDED then setDoNotDownload env f False cm else cm)"
  have c1: "cm_inv m cm1" "length (tor_files (cm_tor cm1)) = length (tor_files (cm_tor cm))"
    using setDoNotDownload_ok [OF assms(1,2), of env False] assms(1) by (auto simp: cm1_def)
  have f1: "f < length (tor_files (cm_tor cm1))" using assms(2) c1(2) by simp
  have b: "base p = p" using assms(3) by (simp add: file_prio_def)
  note u = upd_file_prio [OF c1(1) f1 b refl]
  note r = change_priority_ok [OF c1(1) f1 b refl, of env]
  have l: "f < length (tor_files (cm_tor (upd_file f (\<lambda>tf. tf\<lparr>old_priority := tf_priority tf, tf_priority := p\<rparr>) cm1)))" using u(7) f1 by simp
  show ?thesis
  proof (cases "p = EXCLUDED")
    case True
    then have "setPriority env f p cm = setDoNotDownload env f True cm1" using False by (simp add: setPriority_def cm1_def)
    then show ?thesis using setDoNotDownload_ok [OF c1(1) f1, of env True] c1(2) True by simp
  next
    case ne: False
    have "setPriority env f p cm = downloadPriorityChanged env f p
        (old_priority (cm_file (upd_file f (\<lambda>tf. tf\<lparr>old_priority := tf_priority tf, tf_priority := p\<rparr>) cm1) f))
        (upd_file f (\<lambda>tf. tf\<lparr>old_priority := tf_priority tf, tf_priority := p\<rparr>) cm1)"
      using False ne by (simp add: setPriority_def cm1_def Let_def)
    then show ?thesis using r(1) frame_length [OF r(2)] u(7) frame_sel(3) [OF r(2) l] u(5) c1(2) by simp
  qed
qed

text \<open>\<open>keeps m n g\<close>: on a torrent of \<open>m\<close> chunks and \<open>n\<close> files the step \<open>g\<close> keeps the invariant.\<close>

definition keeps :: "nat \<Rightarrow> nat \<Rightarrow> (chunk_manager \<Rightarrow> chunk_manager) \<Rightarrow> bool" where
  "keeps m n g \<longleftrightarrow> (\<forall>cm. cm_inv m cm \<and> length (tor_files (cm_tor cm)) = n \<longrightarrow> cm_inv m (g cm) \<and> length (tor_files (cm_tor (g cm))) = n)"

named_theorems keeps_intros

lemma keepsD: "keeps m n g \<Longrightarrow> cm_inv m cm \<Longrightarrow> length (tor_files (cm_tor cm)) = n \<Longrightarrow> cm_inv m (g cm) \<and> length (tor_files (cm_tor (g cm))) = n"
  by (simp add: keeps_def)

lemma keeps_comp: "keeps m n g \<Longrightarrow> keeps m n h \<Longrightarrow> keeps m n (\<lambda>cm. g (h cm))"
  by (simp add: keeps_def)

lemma keeps_if: "keeps m n g \<Longrightarrow> keeps m n h \<Longrightarrow> keeps m n (\<lambda>cm. if P cm then g cm else h cm)"
  by (simp add: keeps_def)

lemma keeps_id [keeps_intros]: "keeps m n (\<lambda>cm. cm)"
  by (simp add: keeps_def)

lemma keeps_fold: "(\<And>x. x \<in> set xs \<Longrightarrow> keeps m n (g x)) \<Longrightarrow> keeps m n (fold g xs)"
proof (induction xs)
  case (Cons x xs)
  then show ?case using keeps_comp [of m n "fold g xs" "g x"] by (simp add: comp_def)
qed (simp add: keeps_def)

definition ok_step :: "(nat \<Rightarrow> cview \<Rightarrow> cview) \<Rightarrow> bool" where
  "ok_step \<phi> \<longleftrightarrow> (\<forall>c p v. chunk_ok p v \<longrightarrow> chunk_ok p (\<phi> c v))"

lemma ok_stepD: "ok_step \<phi> \<Longrightarrow> chunk_ok p v \<Longrightarrow> chunk_ok p (\<phi> c v)"
  unfolding ok_step_def by blast

lemma ok_step_if:
  assumes "\<And>p v. chunk_ok p v \<Longrightarrow> chunk_ok p (g v)"
  shows "ok_step (\<lambda>c v. if P c then g v else v)"
  unfolding ok_step_def using assms by presburger

lemma ok_step_id: "ok_step (\<lambda>_ v. v)"
  unfolding ok_step_def by blast

lemma keeps_acts:
  assumes "\<And>cm. cm_wf cm \<Longrightarrow> \<exists>\<phi>. acts \<phi> cm (g cm) \<and> ok_step \<phi>"
  shows "keeps m n g"
  unfolding keeps_def
proof (intro allI impI)
  fix cm assume cm: "cm_inv m cm \<and> length (tor_files (cm_tor cm)) = n"
  then obtain \<phi> where a: "acts \<phi> cm (g cm)" and ok: "ok_step \<phi>"
    using assms [of cm] by (auto simp: cm_inv_def cm_good_def)
  note fr = acts_frame [OF a]
  have "chunk_ok (top_prio (g cm) c) (cview (g cm) c)" if "c < length (cm_chunks cm)" for c
    using cm that ok_stepD [OF ok] unfolding acts_view [OF a that] frame_top [OF fr] by (simp add: cm_inv_def prios_ok_def)
  then have "prios_ok (g cm)" using fr by (simp add: prios_ok_def frame_def)
  then show "cm_inv m (g cm) \<and> length (tor_files (cm_tor (g cm))) = n" using cm frame_good [OF _ fr] frame_length [OF fr] fr by (simp add: cm_inv_def frame_def)
qed

text \<open>Fields the invariant does not look at.\<close>

definition neutral_step :: "(chunk_manager \<Rightarrow> chunk_manager) \<Rightarrow> bool" where
  "neutral_step g \<longleftrightarrow> (\<forall>cm. cm_tor (g cm) = cm_tor cm \<and> cm_chunks (g cm) = cm_chunks cm \<and> have_bits (g cm) = have_bits cm \<and>
     excluded_chunks (g cm) = excluded_chunks cm \<and> only_seed_chunks (g cm) = only_seed_chunks cm \<and> todo_bits (g cm) = todo_bits cm \<and>
     border_chunks (g cm) = border_chunks cm)"

lemma neutral_inv: "neutral_step g \<Longrightarrow> cm_inv m (g cm) = cm_inv m cm"
  by (simp add: neutral_step_def cm_inv_def cm_good_def cm_wf_def wf_bits_def wf_tor_def prios_ok_def top_prio_def cview_def shared_chunks_def cm_file_def file_ok_def)

lemma keeps_neutral: "neutral_step g \<Longrightarrow> keeps m n g"
  using neutral_inv by (simp add: keeps_def) (simp add: neutral_step_def)

lemma neutral_steps:
  "neutral_step savePriorityInfo" "neutral_step (emit_event e)" "neutral_step saveIndexFile" "neutral_step recalculateChunksLeft" "neutral_step (writeIndexFileEntry i)"
  "neutral_step (\<lambda>cm. cm\<lparr>recalc_chunks_left := b\<rparr>)" "neutral_step (\<lambda>cm. cm\<lparr>during_load := b\<rparr>)" "neutral_step (\<lambda>cm. cm\<lparr>cm_fault := b\<rparr>)"
  "neutral_step (\<lambda>cm. cm\<lparr>index_file := Some (case index_file cm of None \<Rightarrow> [] | Some l \<Rightarrow> l)\<rparr>)"
  "neutral_step (\<lambda>cm. cm\<lparr>index_file := Some [], during_load := False\<rparr>)"
  by (simp_all add: neutral_step_def savePriorityInfo_def saveFileInfo_def emit_event_def saveIndexFile_def recalculateChunksLeft_def
      writeIndexFileEntry_def Let_def)

lemmas keeps_neutrals [keeps_intros] = neutral_steps [THEN keeps_neutral]

lemma reset_view_ok: "chunk_ok p v \<Longrightarrow> chunk_ok p (reset_view v)"
  by (cases v) auto

lemma got_view_ok: "chunk_ok p v \<Longrightarrow> chunk_ok p (got_view v)"
  by (cases v) auto

lemma keeps_resetChunk [keeps_intros]: "keeps m n (resetChunk env i)"
proof (rule keeps_acts)
  fix cm assume w: "cm_wf cm"
  show "\<exists>\<phi>. acts \<phi> cm (resetChunk env i cm) \<and> ok_step \<phi>"
    by (intro exI conjI, rule resetChunk_acts [OF w], rule ok_step_if, rule reset_view_ok)
qed

lemma keeps_updateFilePercentage [keeps_intros]: "keeps m n (updateFilePercentage env)" "keeps m n (updateFilePercentage_of env i)"
  by (rule keeps_acts, intro exI conjI, erule updateFilePercentage_acts updateFilePercentage_of_acts, rule ok_step_id)+

lemma mark_acts:
  assumes "cm_wf cm" and "i < length (cm_chunks cm)"
  shows "acts (\<lambda>c v. if c = i then got_view v else v) cm (upd_chunk i (\<lambda>c. c\<lparr>ck_status := ON_DISK\<rparr>)
    (cm\<lparr>have_bits := bs_set i True (have_bits cm), todo_bits := bs_set i False (todo_bits cm), recalc_chunks_left := b\<rparr>))"
  using assms wf_good [OF assms(1)]
  by (intro acts_one [where h = True and e = "bs_get (excluded_chunks cm) i" and os = "bs_get (only_seed_chunks cm) i" and t = False
        and k = "(cm_chunks cm ! i)\<lparr>ck_status := ON_DISK\<rparr>"])
     (auto simp: upd_chunk_def cview_def intro: set_at_intros)

definition mark_disk :: "nat \<Rightarrow> bool \<Rightarrow> chunk_manager \<Rightarrow> chunk_manager" where
  "mark_disk i b cm = (if i < length (cm_chunks cm) then upd_chunk i (\<lambda>c. c\<lparr>ck_status := ON_DISK\<rparr>)
    (cm\<lparr>have_bits := bs_set i True (have_bits cm), todo_bits := bs_set i False (todo_bits cm), recalc_chunks_left := b\<rparr>) else cm)"

lemma keeps_mark_disk [keeps_intros]: "keeps m n (\<lambda>cm. mark_disk i (b cm) cm)"
proof (rule keeps_acts)
  fix cm assume w: "cm_wf cm"
  then have "acts (\<lambda>c v. if c = i then got_view v else v) cm (mark_disk i (b cm) cm)"
    using mark_acts [OF w, of i "b cm"] by (auto simp: mark_disk_def acts_def frame_refl)
  then show "\<exists>\<phi>. acts \<phi> cm (mark_disk i (b cm) cm) \<and> ok_step \<phi>"
    by (intro exI conjI, assumption) (rule ok_step_if, rule got_view_ok)
qed

lemma mark_disk_index:
  "i < length (cm_chunks cm) \<Longrightarrow> upd_chunk i (\<lambda>c. c\<lparr>ck_status := ON_DISK\<rparr>) (writeIndexFileEntry i
     (cm\<lparr>have_bits := bs_set i True (have_bits cm), todo_bits := bs_set i False (todo_bits cm), recalc_chunks_left := True\<rparr>)) =
   mark_disk i True (writeIndexFileEntry i cm)"
  by (cases cm) (simp add: mark_disk_def writeIndexFileEntry_def upd_chunk_def)

lemma keeps_chunkDownloaded [keeps_intros]: "keeps m n (chunkDownloaded env i)"
proof -
  have "chunkDownloaded env i = (\<lambda>cm. if i < length (cm_chunks cm) \<and> \<not> isExcluded (cm_chunks cm ! i)
      then updateFilePercentage_of env i (mark_disk i True (writeIndexFileEntry i cm)) else cm)"
    by (rule ext) (simp add: chunkDownloaded_def mark_disk_index)
  moreover have "keeps m n (\<lambda>cm. updateFilePercentage_of env i (mark_disk i True (writeIndexFileEntry i cm)))"
    by (rule keeps_comp [OF keeps_updateFilePercentage(2) keeps_comp [OF keeps_mark_disk keeps_neutral [OF neutral_steps(5)]]])
  ultimately show ?thesis using keeps_if [OF _ keeps_id] by (simp only:)
qed

lemma keeps_setPriority [keeps_intros]: "f < n \<Longrightarrow> file_prio p \<Longrightarrow> keeps m n (setPriority env f p)"
  using setPriority_ok [where m = m] by (auto simp: keeps_def)

lemma keeps_setDoNotDownload [keeps_intros]: "f < n \<Longrightarrow> keeps m n (setDoNotDownload env f d)"
  using setDoNotDownload_ok [where m = m] by (auto simp: keeps_def)

text \<open>A chunk that turns out to be corrupt.\<close>

definition lose_disk :: "nat \<Rightarrow> chunk_manager \<Rightarrow> chunk_manager" where
  "lose_disk i cm = (if i < length (cm_chunks cm) then upd_chunk i (\<lambda>c. if ck_status c = ON_DISK then c\<lparr>ck_status := NOT_DOWNLOADED\<rparr> else c)
     (cm\<lparr>have_bits := bs_set i False (have_bits cm),
         todo_bits := bs_set i (\<not> bs_get (only_seed_chunks cm) i \<and> \<not> bs_get (excluded_chunks cm) i) (todo_bits cm)\<rparr>) else cm)"

lemma keeps_lose_disk [keeps_intros]: "keeps m n (lose_disk i)"
proof (rule keeps_acts)
  fix cm assume w: "cm_wf cm"
  have "acts (\<lambda>c v. if c = i then reset_view v else v) cm (lose_disk i cm)"
  proof (cases "i < length (cm_chunks cm)")
    case True
    then show ?thesis using w wf_good [OF w]
      by (intro acts_one [where h = False and e = "bs_get (excluded_chunks cm) i" and os = "bs_get (only_seed_chunks cm) i"
            and t = "\<not> bs_get (only_seed_chunks cm) i \<and> \<not> bs_get (excluded_chunks cm) i"
            and k = "if ck_status (cm_chunks cm ! i) = ON_DISK then (cm_chunks cm ! i)\<lparr>ck_status := NOT_DOWNLOADED\<rparr> else cm_chunks cm ! i"])
         (auto simp: lose_disk_def upd_chunk_def cview_def intro: set_at_intros)
  qed (use w in \<open>auto simp: lose_disk_def acts_def frame_refl\<close>)
  then show "\<exists>\<phi>. acts \<phi> cm (lose_disk i cm) \<and> ok_step \<phi>"
    by (intro exI conjI, assumption) (rule ok_step_if, rule reset_view_ok)
qed

lemma bs_set_out: "good_bits n bs \<Longrightarrow> n \<le> i \<Longrightarrow> bs_set i on bs = bs"
  by (simp add: good_bits_def bs_set_def)

lemma mark_disk_code:
  assumes "cm_wf cm"
  shows "upd_chunk i (\<lambda>c. c\<lparr>ck_status := ON_DISK\<rparr>) (cm\<lparr>have_bits := bs_set i True (have_bits cm), todo_bits := bs_set i False (todo_bits cm)\<rparr>) =
    mark_disk i (recalc_chunks_left cm) cm"
proof (cases "i < length (cm_chunks cm)")
  case True
  then show ?thesis by (cases cm) (simp add: mark_disk_def upd_chunk_def)
next
  case False
  then have "bs_set i True (have_bits cm) = have_bits cm" "bs_set i False (todo_bits cm) = todo_bits cm"
    using wf_good [OF assms] bs_set_out by (simp_all add: not_less)
  then show ?thesis using False by (cases cm) (simp add: mark_disk_def upd_chunk_def list_update_beyond)
qed

lemma lose_disk_code:
  assumes "cm_wf cm"
  shows "upd_chunk i (\<lambda>c. if ck_status c = ON_DISK then c\<lparr>ck_status := NOT_DOWNLOADED\<rparr> else c)
     (cm\<lparr>have_bits := bs_set i False (have_bits cm),
         todo_bits := bs_set i (\<not> bs_get (only_seed_chunks cm) i \<and> \<not> bs_get (excluded_chunks cm) i) (todo_bits cm)\<rparr>) = lose_disk i cm"
proof (cases "i < length (cm_chunks cm)")
  case False
  then have "bs_set i False (have_bits cm) = have_bits cm" "bs_set i b (todo_bits cm) = todo_bits cm" for b
    using wf_good [OF assms] bs_set_out by (simp_all add: not_less)
  then show ?thesis using False by (cases cm) (simp add: lose_disk_def upd_chunk_def list_update_beyond)
qed (simp add: lose_disk_def)

lemma keeps_check_chunk [keeps_intros]: "keeps m n (check_chunk env ok i)"
proof -
  have k: "keeps m n (\<lambda>cm. updateFilePercentage_of env i (mark_disk i (recalc_chunks_left cm) cm))" "keeps m n (\<lambda>cm. updateFilePercentage_of env i (lose_disk i cm))"
    by (rule keeps_comp [OF keeps_updateFilePercentage(2) keeps_mark_disk] keeps_comp [OF keeps_updateFilePercentage(2) keeps_lose_disk])+
  show ?thesis unfolding keeps_def
  proof (intro allI impI)
    fix cm assume cm: "cm_inv m cm \<and> length (tor_files (cm_tor cm)) = n"
    then have w: "cm_wf cm" by (simp add: cm_inv_def cm_good_def)
    show "cm_inv m (check_chunk env ok i cm) \<and> length (tor_files (cm_tor (check_chunk env ok i cm))) = n"
      using cm keepsD [OF k(1), of cm] keepsD [OF k(2), of cm] unfolding check_chunk_def mark_disk_code [OF w] lose_disk_code [OF w] by simp
  qed
qed

lemma keeps_mark_chunk [keeps_intros]: "keeps m n (mark_chunk env i)"
proof -
  have k: "keeps m n (\<lambda>cm. updateFilePercentage_of env i (mark_disk i (recalc_chunks_left cm) cm))"
    by (rule keeps_comp [OF keeps_updateFilePercentage(2) keeps_mark_disk])
  have c: "keeps m n (\<lambda>cm. cm\<lparr>cm_fault := True\<rparr>)" by (rule keeps_neutral [OF neutral_steps(8)])
  show ?thesis unfolding keeps_def
  proof (intro allI impI)
    fix cm assume cm: "cm_inv m cm \<and> length (tor_files (cm_tor cm)) = n"
    then have w: "cm_wf cm" by (simp add: cm_inv_def cm_good_def)
    show "cm_inv m (mark_chunk env i cm) \<and> length (tor_files (cm_tor (mark_chunk env i cm))) = n"
      using cm keepsD [OF k, of cm] keepsD [OF c, of cm] unfolding mark_chunk_def mark_disk_code [OF w] by simp
  qed
qed

lemma keeps_files_of: "keeps m n (\<lambda>cm. snd (cm_files_of i cm))"
  by (rule keeps_acts, intro exI conjI, erule files_of_chunk(2), rule ok_step_id)

lemma keeps_mark_if_all_exist [keeps_intros]: "keeps m n (mark_if_all_exist env i)"
proof -
  have "mark_if_all_exist env i = (\<lambda>cm. (\<lambda>cm1. if list_all (\<lambda>f. preexisting (cm_file cm1 f)) (fst (cm_files_of i cm)) then mark_chunk env i cm1 else cm1)
      (snd (cm_files_of i cm)))"
    by (rule ext) (simp add: mark_if_all_exist_def split_beta)
  then show ?thesis using keeps_comp [OF keeps_mark_chunk keeps_files_of, of m n env i i] keeps_files_of [of m n i] by (simp add: keeps_def)
qed

lemma keeps_mark_file [keeps_intros]: "keeps m n (mark_file env f)"
proof -
  have "keeps m n (fold (mark_chunk env) is)" for "is" by (rule keeps_fold, rule keeps_mark_chunk)
  then have "keeps m n (\<lambda>cm. mark_if_all_exist env b (mark_if_all_exist env a (fold (mark_chunk env) is cm)))" for a b "is"
    by (intro keeps_comp [OF keeps_mark_if_all_exist keeps_comp [OF keeps_mark_if_all_exist]])
  then show ?thesis by (simp add: keeps_def mark_file_def Let_def)
qed

lemma keeps_missing [keeps_intros]: "keeps m n (upd_file f (\<lambda>tf. tf\<lparr>missing := False\<rparr>))"
proof (rule keeps_acts)
  fix cm assume w: "cm_wf cm"
  have "core_file (tf\<lparr>missing := False\<rparr>) = core_file tf" for tf by (simp add: core_file_def)
  then have "acts (\<lambda>_ v. v) cm (upd_file f (\<lambda>tf. tf\<lparr>missing := False\<rparr>) cm)"
    unfolding upd_file_def by (intro counters_acts [OF w] map_core_upd)
  then show "\<exists>\<phi>. acts \<phi> cm (upd_file f (\<lambda>tf. tf\<lparr>missing := False\<rparr>) cm) \<and> ok_step \<phi>" using ok_step_id by blast
qed

lemma keeps_reset_missing [keeps_intros]: "keeps m n (reset_missing env f)"
proof -
  have "keeps m n (fold (resetChunk env) is)" for "is" by (rule keeps_fold, rule keeps_resetChunk)
  then have "keeps m n (\<lambda>cm. upd_file f (\<lambda>tf. tf\<lparr>missing := False\<rparr>) (fold (resetChunk env) is cm))" for "is" by (rule keeps_comp [OF keeps_missing])
  then show ?thesis by (simp add: keeps_def reset_missing_def)
qed

lemma prios_settled:
  assumes "cm_inv m cm" and "f < length (tor_files (cm_tor cm))"
  shows "settled f cm" "demanded f cm" "tf_priority (cm_file cm f) \<noteq> EXCLUDED \<Longrightarrow> admitted f cm"
proof -
  have w: "cm_wf cm" and ok: "prios_ok cm" using assms(1) by (simp_all add: cm_inv_def cm_good_def)
  show "settled f cm" using ok by (simp add: settled_def prios_ok_def)
  have ex: "ex_bit (cview cm c) = (top_prio cm c = EXCLUDED)" if "c < length (cm_chunks cm)" for c using ok that chunk_ok_ex by (simp add: prios_ok_def)
  show "demanded f cm" using ex needed_top [OF w] by (auto simp: demanded_def)
  show "admitted f cm" if "tf_priority (cm_file cm f) \<noteq> EXCLUDED" using ex top_prio_ge [OF w assms(2)] that by (force simp: admitted_def)
qed

lemma keeps_repeat [keeps_intros]:
  "f < n \<Longrightarrow> keeps m n (\<lambda>cm. downloadPriorityChanged env f (tf_priority (cm_file cm f)) (old_priority (cm_file cm f)) cm)"
  unfolding keeps_def
proof (intro allI impI)
  fix cm assume f: "f < n" and cm: "cm_inv m cm \<and> length (tor_files (cm_tor cm)) = n"
  note p = prios_settled [of m cm f]
  have r: "frame cm (downloadPriorityChanged env f (tf_priority (cm_file cm f)) (old_priority (cm_file cm f)) cm) \<and>
      prios_ok (downloadPriorityChanged env f (tf_priority (cm_file cm f)) (old_priority (cm_file cm f)) cm)"
    using cm f p by (intro downloadPriorityChanged_ok) (auto simp: cm_inv_def)
  then show "cm_inv m (downloadPriorityChanged env f (tf_priority (cm_file cm f)) (old_priority (cm_file cm f)) cm) \<and>
      length (tor_files (cm_tor (downloadPriorityChanged env f (tf_priority (cm_file cm f)) (old_priority (cm_file cm f)) cm))) = n"
    using cm frame_good frame_length by (auto simp: cm_inv_def frame_def)
qed

lemma keeps_dep: "(\<And>c0. keeps m n (g c0)) \<Longrightarrow> keeps m n (\<lambda>cm. g cm cm)"
  by (simp add: keeps_def)

lemmas keeps_save = keeps_neutrals(1) and keeps_index = keeps_neutrals(3) and keeps_recalculate = keeps_neutrals(4) and keeps_recalc = keeps_neutrals(6)
  and keeps_load = keeps_neutrals(7)

lemma keeps_fold_files:
  assumes "\<And>f. f < n \<Longrightarrow> keeps m n (g f)"
  shows "keeps m n (\<lambda>cm. fold g [0..<length (tor_files (cm_tor cm))] cm)"
proof -
  have "keeps m n (fold g [0..<n])" by (rule keeps_fold) (simp add: assms)
  then show ?thesis by (simp add: keeps_def)
qed

lemma keeps_createFiles: "keeps m n (createFiles env check)"
proof -
  let ?start = "\<lambda>cm. emit_event Ev_create (cm\<lparr>index_file := Some (case index_file cm of None \<Rightarrow> [] | Some l \<Rightarrow> l)\<rparr>)"
  let ?step = "\<lambda>f cm. if tf_priority (cm_file cm f) \<noteq> NORMAL_PRIORITY
      then downloadPriorityChanged env f (tf_priority (cm_file cm f)) (old_priority (cm_file cm f)) cm else cm"
  have start: "keeps m n ?start" by (rule keeps_comp [OF keeps_neutrals(2) keeps_neutrals(9)])
  have "keeps m n (?step f)" if "f < n" for f by (rule keeps_if [OF keeps_repeat [OF that] keeps_id])
  then have "keeps m n (fold ?step [0..<n])" by (intro keeps_fold) simp
  then have "keeps m n (\<lambda>cm. savePriorityInfo ((\<lambda>cm. cm\<lparr>during_load := False\<rparr>) (fold ?step [0..<n] ((\<lambda>cm. cm\<lparr>during_load := True\<rparr>) (?start cm)))))"
    by (intro keeps_comp [OF keeps_save] keeps_comp [OF keeps_load] keeps_comp [OF _ keeps_comp [OF keeps_load start]])
  then show ?thesis using start by (simp add: keeps_def createFiles_def Let_def)
qed

lemma keeps_dataChecked: "keeps m n (dataChecked env ok a b)"
proof -
  have "keeps m n (fold (check_chunk env ok) is)" for "is" by (rule keeps_fold, rule keeps_check_chunk)
  then have "keeps m n (\<lambda>cm. recalculateChunksLeft (saveIndexFile ((\<lambda>cm. cm\<lparr>recalc_chunks_left := True\<rparr>) (fold (check_chunk env ok) is cm))))" for "is"
    by (intro keeps_comp [OF keeps_recalculate] keeps_comp [OF keeps_index] keeps_comp [OF keeps_recalc])
  then show ?thesis by (simp add: keeps_def dataChecked_def)
qed

lemma keeps_markExisting: "keeps m n (markExistingFilesAsDownloaded env b)"
proof -
  have f: "keeps m n (fold (mark_file env) is)" "keeps m n (fold (mark_chunk env) is)" for "is"
    by (rule keeps_fold, rule keeps_mark_file keeps_mark_chunk)+
  have r: "keeps m n (\<lambda>cm. recalculateChunksLeft (saveIndexFile ((\<lambda>cm. cm\<lparr>recalc_chunks_left := True\<rparr>) (g cm))))" if "keeps m n g" for g
    using that by (intro keeps_comp [OF keeps_recalculate] keeps_comp [OF keeps_index] keeps_comp [OF keeps_recalc])
  show ?thesis using r [OF f(1)] r [OF f(2)] r [OF keeps_id] by (simp add: keeps_def markExistingFilesAsDownloaded_def Let_def)
qed

lemma keeps_finish: "keeps m n g \<Longrightarrow> keeps m n (\<lambda>cm. recalculateChunksLeft ((\<lambda>cm. cm\<lparr>recalc_chunks_left := True\<rparr>) (saveIndexFile (g cm))))"
  by (intro keeps_comp [OF keeps_recalculate] keeps_comp [OF keeps_recalc] keeps_comp [OF keeps_index])

lemma keeps_recreate: "keeps m n (recreateMissingFiles env)"
proof -
  let ?step = "\<lambda>f cm. if missing (cm_file cm f) then reset_missing env f cm else cm"
  have "keeps m n (?step f)" for f by (rule keeps_if [OF keeps_reset_missing keeps_id])
  then have s: "keeps m n (fold ?step is)" for "is" by (intro keeps_fold)
  have r: "keeps m n (fold (resetChunk env) is)" for "is" by (rule keeps_fold) (rule keeps_resetChunk)
  show ?thesis unfolding keeps_def
  proof (intro allI impI)
    fix cm assume cm: "cm_inv m cm \<and> length (tor_files (cm_tor cm)) = n"
    define c1 where "c1 = createFiles env False cm"
    have c1: "cm_inv m c1" "length (tor_files (cm_tor c1)) = n" using keepsD [OF keeps_createFiles [of m n env False], of cm] cm by (simp_all add: c1_def)
    define c2 where "c2 = (if isMultiFile (cm_tor c1) then fold ?step [0..<length (tor_files (cm_tor c1))] c1
      else fold (resetChunk env) [0..<getNumChunks (cm_tor c1)] c1)"
    have c2: "cm_inv m c2" "length (tor_files (cm_tor c2)) = n" using keepsD [OF s c1] keepsD [OF r c1] by (simp_all add: c2_def)
    have "recreateMissingFiles env cm = recalculateChunksLeft ((saveIndexFile c2)\<lparr>recalc_chunks_left := True\<rparr>)"
      by (simp add: recreateMissingFiles_def Let_def c1_def c2_def)
    then show "cm_inv m (recreateMissingFiles env cm) \<and> length (tor_files (cm_tor (recreateMissingFiles env cm))) = n"
      using keepsD [OF keeps_finish [OF keeps_id] c2] by simp
  qed
qed

lemma keeps_dndMissing: "keeps m n (dndMissingFiles env)"
proof -
  let ?step = "\<lambda>f cm. if missing (cm_file cm f) then setDoNotDownload env f True (reset_missing env f cm) else cm"
  have "keeps m n (?step f)" if "f < n" for f by (rule keeps_if [OF keeps_comp [OF keeps_setDoNotDownload [OF that] keeps_reset_missing] keeps_id])
  then have "keeps m n (fold ?step [0..<n])" by (intro keeps_fold) simp
  from keeps_finish [OF keeps_comp [OF keeps_save this]] show ?thesis by (simp add: keeps_def dndMissingFiles_def Let_def)
qed

lemma keeps_load_dnd: "keeps m n (load_dnd env k ws)"
proof (induction ws arbitrary: k)
  case (Cons w rest)
  have "keeps m n (\<lambda>cm. if w < length (tor_files (cm_tor cm)) \<and> tf_path (cm_file cm w) \<noteq> [] then setDoNotDownload env w True cm else cm)"
  proof (cases "w < n")
    case True
    then show ?thesis by (intro keeps_if keeps_setDoNotDownload keeps_id)
  qed (simp add: keeps_def)
  from keeps_comp [OF Cons.IH this, of "k - 1"] show ?case by (cases "k = 0") (simp_all add: keeps_def)
qed (simp add: keeps_def)

lemma keeps_loadFileInfo: "keeps m n (loadFileInfo env)"
  using keeps_load_dnd by (auto simp: keeps_def loadFileInfo_def split: option.splits list.splits)

lemma file_prios [simp]: "file_prio FIRST_PRIORITY" "file_prio NORMAL_PRIORITY" "file_prio LAST_PRIORITY" "file_prio ONLY_SEED_PRIORITY" "file_prio EXCLUDED"
  by (simp_all add: file_prio_def)

lemma keeps_load_prios: "keeps m n (load_prios env ws)"
proof (induction ws rule: induct_list012)
  case 1
  then show ?case by (simp add: keeps_def)
next
  case (2 f)
  have "keeps m n (\<lambda>cm. if f \<ge> length (tor_files (cm_tor cm)) then loadFileInfo env cm
      else if tf_path (cm_file cm f) = [] then cm else (\<lambda>cm. cm\<lparr>cm_fault := True\<rparr>) cm)"
    by (rule keeps_if [OF keeps_loadFileInfo keeps_if [OF keeps_id keeps_neutrals(8)]])
  then show ?case by (simp add: keeps_def)
next
  case (3 f v ws)
  define step where "step = (\<lambda>cm. if tf_path (cm_file cm f) = [] then cm
       else if v = prio_value FIRST_PRIORITY then setPriority env f FIRST_PRIORITY cm
       else if v = prio_value NORMAL_PRIORITY then cm
       else if v = prio_value EXCLUDED then setPriority env f EXCLUDED cm
       else if v = prio_value ONLY_SEED_PRIORITY then setPriority env f ONLY_SEED_PRIORITY cm
       else setPriority env f LAST_PRIORITY cm)"
  have "keeps m n step" if "f < n" unfolding step_def using that by (intro keeps_if keeps_setPriority keeps_id) simp_all
  then have s: "f < n \<Longrightarrow> keeps m n (\<lambda>cm. load_prios env ws (step cm))" using keeps_comp [OF 3(1)] by blast
  have code: "load_prios env (f # v # ws) cm = (if f \<ge> length (tor_files (cm_tor cm)) then loadFileInfo env cm else load_prios env ws (step cm))" for cm
    by (simp add: step_def)
  show ?case using s keeps_loadFileInfo [of m n env] unfolding keeps_def code by auto
qed

lemma keeps_loadPriorityInfo: "keeps m n (loadPriorityInfo env)"
  using keeps_loadFileInfo keeps_load_prios by (auto simp: keeps_def loadPriorityInfo_def split: option.splits list.splits)

lemma keeps_load_index_entry: "keeps m n (load_index_entry i)"
proof -
  have "load_index_entry i = mark_disk i True" by (rule ext, rename_tac cm, case_tac cm) (simp add: load_index_entry_def mark_disk_def upd_chunk_def)
  then show ?thesis using keeps_mark_disk [of m n i "\<lambda>_. True"] by simp
qed

lemma keeps_loadIndexFile: "keeps m n (loadIndexFile env junk)"
proof -
  have l: "keeps m n (\<lambda>cm. loadPriorityInfo env (cm\<lparr>during_load := True\<rparr>))" by (rule keeps_comp [OF keeps_loadPriorityInfo keeps_load])
  have "keeps m n (fold load_index_entry is)" for "is" by (rule keeps_fold, rule keeps_load_index_entry)
  then have e: "keeps m n (\<lambda>cm. (\<lambda>cm. cm\<lparr>during_load := False\<rparr>) (updateFilePercentage env (fold load_index_entry is cm)))" for "is"
    by (intro keeps_comp [OF keeps_load] keeps_comp [OF keeps_updateFilePercentage(1)])
  have b: "keeps m n (\<lambda>cm. case index_file cm of None \<Rightarrow> cm\<lparr>index_file := Some [], during_load := False\<rparr>
      | Some entries \<Rightarrow> (let cm2 = (if entries = [] then cm else fold load_index_entry (entries @ [junk]) cm)
           in (updateFilePercentage env cm2)\<lparr>during_load := False\<rparr>))"
    unfolding keeps_def
  proof (intro allI impI)
    fix cm assume cm: "cm_inv m cm \<and> length (tor_files (cm_tor cm)) = n"
    show "cm_inv m (case index_file cm of None \<Rightarrow> cm\<lparr>index_file := Some [], during_load := False\<rparr>
      | Some entries \<Rightarrow> (let cm2 = (if entries = [] then cm else fold load_index_entry (entries @ [junk]) cm)
           in (updateFilePercentage env cm2)\<lparr>during_load := False\<rparr>)) \<and>
      length (tor_files (cm_tor (case index_file cm of None \<Rightarrow> cm\<lparr>index_file := Some [], during_load := False\<rparr>
      | Some entries \<Rightarrow> (let cm2 = (if entries = [] then cm else fold load_index_entry (entries @ [junk]) cm)
           in (updateFilePercentage env cm2)\<lparr>during_load := False\<rparr>)))) = n"
    proof (cases "index_file cm")
      case None
      then show ?thesis using cm keepsD [OF keeps_neutrals(10) [of m n], of cm] by simp
    next
      case (Some entries)
      then show ?thesis using cm keepsD [OF e, of cm "[]"] keepsD [OF e, of cm "entries @ [junk]"] by (cases "entries = []") (simp_all add: Let_def)
    qed
  qed
  show ?thesis using keeps_comp [OF b l] unfolding keeps_def loadIndexFile_def Let_def .
qed

section \<open>The start\<close>

lemma border_fold:
  "fold (\<lambda>i cm. if last_chunk (cm_file cm i) = first_chunk (cm_file cm (i + 1))
       then cm\<lparr>border_chunks := insert (last_chunk (cm_file cm i)) (border_chunks cm)\<rparr> else cm) is cm =
   cm\<lparr>border_chunks := border_chunks cm \<union> {last_chunk (cm_file cm i) | i. i \<in> set is \<and> last_chunk (cm_file cm i) = first_chunk (cm_file cm (i + 1))}\<rparr>"
proof (induction "is" arbitrary: cm)
  case (Cons i "is")
  have s: "cm_file (cm\<lparr>border_chunks := B\<rparr>) = cm_file cm" for B by (simp add: cm_file_def fun_eq_iff)
  have e: "insert (last_chunk (cm_file cm i)) (border_chunks cm) \<union> {last_chunk (cm_file cm j) | j. j \<in> set is \<and> last_chunk (cm_file cm j) = first_chunk (cm_file cm (j + 1))} =
      border_chunks cm \<union> {last_chunk (cm_file cm j) | j. j \<in> set (i # is) \<and> last_chunk (cm_file cm j) = first_chunk (cm_file cm (j + 1))}"
    if "last_chunk (cm_file cm i) = first_chunk (cm_file cm (i + 1))"
  proof -
    have "{last_chunk (cm_file cm j) | j. j \<in> set (i # is) \<and> last_chunk (cm_file cm j) = first_chunk (cm_file cm (j + 1))} =
        insert (last_chunk (cm_file cm i)) {last_chunk (cm_file cm j) | j. j \<in> set is \<and> last_chunk (cm_file cm j) = first_chunk (cm_file cm (j + 1))}"
      unfolding set_simps insert_iff using that by blast
    then show ?thesis by (simp only: Un_insert_left Un_insert_right)
  qed
  have n: "{last_chunk (cm_file cm j) | j. j \<in> set is \<and> last_chunk (cm_file cm j) = first_chunk (cm_file cm (j + 1))} =
      {last_chunk (cm_file cm j) | j. j \<in> set (i # is) \<and> last_chunk (cm_file cm j) = first_chunk (cm_file cm (j + 1))}"
    if "last_chunk (cm_file cm i) \<noteq> first_chunk (cm_file cm (i + 1))" using that by auto
  show ?case
  proof (cases "last_chunk (cm_file cm i) = first_chunk (cm_file cm (i + 1))")
    case True
    then show ?thesis using Cons.IH [of "cm\<lparr>border_chunks := insert (last_chunk (cm_file cm i)) (border_chunks cm)\<rparr>"] e [OF True]
      by (simp only: fold_Cons o_apply if_True s) simp
  next
    case False
    then show ?thesis using Cons.IH [of cm] n [OF False] by simp
  qed
qed simp

lemma createBorderChunkSet_shared:
  "border_chunks cm = {} \<Longrightarrow> createBorderChunkSet cm = cm\<lparr>border_chunks := shared_chunks cm\<rparr>"
  unfolding createBorderChunkSet_def border_fold shared_chunks_def
  by (rule arg_cong [where f = "\<lambda>B. cm\<lparr>border_chunks := B\<rparr>"]) (auto simp: less_diff_conv)

definition alone :: "torrent \<Rightarrow> bool" where
  "alone tor \<longleftrightarrow> (\<forall>tf \<in> set (tor_files tor). \<not> (last_chunk tf = Suc (first_chunk tf) \<and>
     1 < length (files_of tor (first_chunk tf)) \<and> 1 < length (files_of tor (last_chunk tf))))"

definition fresh_torrent :: "torrent \<Rightarrow> bool" where
  "fresh_torrent tor \<longleftrightarrow> chunks_placed tor \<and> tor_files tor \<noteq> [] \<and> length (tor_files tor) \<le> INT_MAX \<and> getNumChunks tor < 2 ^ 32 \<and>
     (\<forall>tf \<in> set (tor_files tor). tf_size tf \<noteq> 0 \<and> tf_priority tf = NORMAL_PRIORITY \<and> emit_status_changed tf) \<and> alone tor"

lemma shared_twice:
  assumes "cm_wf cm" and "c \<in> shared_chunks cm"
  shows "1 < length (files_of (cm_tor cm) c)"
proof -
  obtain i where i: "Suc i < length (tor_files (cm_tor cm))" "last_chunk (cm_file cm i) = c" "first_chunk (cm_file cm (Suc i)) = c"
    using assms(2) by (auto simp: shared_chunks_def)
  have "ordered (tor_files (cm_tor cm))" using assms(1) by (simp add: cm_wf_def wf_tor_def chunks_placed_def)
  then have "{i, Suc i} \<subseteq> set (files_of (cm_tor cm) c)"
    using i ordered_chunks(1,3) [of "tor_files (cm_tor cm)" i "Suc i"] by (simp add: holders [OF assms(1)] in_chunks_def cm_file_def)
  then have "card {i, Suc i} \<le> card (set (files_of (cm_tor cm) c))" by (intro card_mono) simp_all
  then show ?thesis using card_length [of "files_of (cm_tor cm) c"] by simp
qed

lemma new_bits:
  assumes "n < 2 ^ 32"
  shows "good_bits n (bs_new n)" "good_bits n (bs_setAll True (bs_new n))" "\<not> bs_get (bs_new n) c" "c < n \<Longrightarrow> bs_get (bs_setAll True (bs_new n)) c"
  using bs_new_bits [OF assms] bs_setAll_bits [OF bs_new_bits(1) [OF assms], of True] by (simp_all add: good_bits_def bs_get_bits)

lemma soft_fold:
  assumes "\<And>x cm. cm_wf cm \<Longrightarrow> soft cm (g x cm)" and "cm_wf cm"
  shows "soft cm (fold g xs cm)"
  using assms(2)
proof (induction xs arbitrary: cm)
  case (Cons x xs)
  note s = assms(1) [OF Cons.prems, of x]
  show ?case using soft_trans [OF s Cons.IH [OF soft_wf [OF s]]] by simp
qed (simp add: soft_def frame_refl)

lemma new_inv:
  assumes "fresh_torrent tor"
  shows "cm_inv (getNumChunks tor) (ChunkManager_new env tor ix fi pr)"
    and "length (tor_files (cm_tor (ChunkManager_new env tor ix fi pr))) = length (tor_files tor)"
proof -
  let ?n = "getNumChunks tor"
  note fr = assms [unfolded fresh_torrent_def]
  define cm0 where "cm0 = \<lparr>cm_tor = tor, cm_chunks = map (\<lambda>i. \<lparr>ck_status = NOT_DOWNLOADED,
      ck_size = ucast (if i + 1 < ?n then tor_chunk_size tor else total_size tor - tor_chunk_size tor * of_nat (?n - 1)), ck_priority = NORMAL_PRIORITY\<rparr>) [0..<?n],
     have_bits = bs_new ?n, excluded_chunks = bs_new ?n, only_seed_chunks = bs_new ?n, todo_bits = bs_setAll True (bs_new ?n),
     chunks_left = 0, recalc_chunks_left = True, during_load = False, border_chunks = {},
     index_file = ix, file_info_file = fi, file_priority_file = pr, cm_events = [], cm_fault = False\<rparr>"
  define cm1 where "cm1 = cm0\<lparr>border_chunks := shared_chunks cm0\<rparr>"
  define cm2 where "cm2 = fold (\<lambda>f cm. if isMultimedia (mime env) (cm_file cm f) then doPreviewPriority env f cm else cm) [0..<length (tor_files tor)] cm1"
  have code: "ChunkManager_new env tor ix fi pr = cm2"
  proof -
    have b: "border_chunks cm0 = {}" "cm_tor cm0 = tor" "cm_tor cm1 = tor" by (simp_all add: cm1_def) (simp_all add: cm0_def)
    have "ChunkManager_new env tor ix fi pr = setupPriorities env cm0" unfolding ChunkManager_new_def Let_def cm0_def ..
    moreover have "isMultiFile (cm_tor cm0)" using fr b by (simp add: isMultiFile_def)
    moreover have "createBorderChunkSet cm0 = cm1" unfolding cm1_def by (rule createBorderChunkSet_shared [OF b(1)])
    ultimately show ?thesis by (simp only: setupPriorities_def Let_def if_True cm2_def b)
  qed
  have w: "cm_wf cm1" using fr new_bits(1,2) by (simp add: cm_wf_def wf_bits_def wf_tor_def cm1_def cm0_def)
  have sh: "shared_chunks cm1 = shared_chunks cm0" by (simp add: cm1_def shared_chunks_def cm_file_def)
  have t: "cm_tor cm1 = tor" "border_chunks cm1 = shared_chunks cm1" "length (cm_chunks cm1) = ?n" using sh by (simp_all add: cm1_def) (simp_all add: cm0_def)
  have "file_ok cm1 tf" if "tf \<in> set (tor_files tor)" for tf
    using fr that shared_twice [OF w] t by (auto simp: file_ok_def alone_def)
  then have good: "cm_good cm1" using w t by (simp add: cm_good_def)
  have "top_prio cm1 c = NORMAL_PRIORITY" if c: "c < ?n" for c
    using top_prio_attained [OF w, of c] c t fr by (metis cm_file_def nth_mem)
  moreover have "cview cm1 c = (NORMAL_PRIORITY, False, False, True, False)" if c: "c < ?n" for c
    using c new_bits fr by (simp add: cview_def cm1_def cm0_def)
  ultimately have ok: "prios_ok cm1" using t by (simp add: prios_ok_def)
  have s: "soft cm1 cm2" unfolding cm2_def
    by (rule soft_fold [OF _ w]) (use doPreviewPriority_soft in \<open>simp add: soft_def frame_refl\<close>)
  have f0: "0 < length (tor_files (cm_tor cm1))" using fr t by simp
  note f = soft_settled(3,4) [OF s f0]
  show "cm_inv ?n (ChunkManager_new env tor ix fi pr)"
    using f(1) [OF ok] frame_good [OF good f(2)] f(2) t(3) by (simp add: code cm_inv_def frame_def)
  show "length (tor_files (cm_tor (ChunkManager_new env tor ix fi pr))) = length (tor_files tor)" using frame_length [OF f(2)] t by (simp add: code)
qed

lemma loaded_fresh:
  assumes "loadInfo env info Torrent_new = Inr tor" and "tor_files tor \<noteq> []"
    and "byte_offset (tor_files tor) (length (tor_files tor)) < 2 ^ 64" and "length (hash_pieces tor) < 2 ^ 32"
    and "byte_offset (tor_files tor) (length (tor_files tor)) div unat (tor_chunk_size tor) < 2 ^ 32 - 1"
    and "\<forall>tf \<in> set (tor_files tor). tf_size tf \<noteq> 0" and "length (tor_files tor) \<le> INT_MAX" and "alone tor"
  shows "fresh_torrent tor"
proof -
  have "tf_priority tf = NORMAL_PRIORITY \<and> emit_status_changed tf" if "tf \<in> set (tor_files tor)" for tf
    using loaded_file [OF assms(1) that] by (auto simp: TorrentFile_def Let_def)
  then show ?thesis using loaded_chunks_placed(1) [OF assms(1-5)] assms by (simp add: fresh_torrent_def getNumChunks_def)
qed

section \<open>Histories\<close>

text \<open>What the other parts of the program call, in any order.\<close>

datatype cm_op = Op_setPriority nat priority | Op_setDoNotDownload nat bool | Op_chunkDownloaded nat | Op_resetChunk nat
  | Op_dataChecked bitset nat nat | Op_createFiles bool | Op_loadIndexFile nat | Op_markExisting bool | Op_recreateMissing | Op_dndMissing

fun cm_apply :: "cm_env \<Rightarrow> cm_op \<Rightarrow> chunk_manager \<Rightarrow> chunk_manager" where
  "cm_apply env (Op_setPriority f p) = setPriority env f p"
| "cm_apply env (Op_setDoNotDownload f dnd) = setDoNotDownload env f dnd"
| "cm_apply env (Op_chunkDownloaded i) = chunkDownloaded env i"
| "cm_apply env (Op_resetChunk i) = resetChunk env i"
| "cm_apply env (Op_dataChecked ok a b) = dataChecked env ok a b"
| "cm_apply env (Op_createFiles check) = createFiles env check"
| "cm_apply env (Op_loadIndexFile junk) = loadIndexFile env junk"
| "cm_apply env (Op_markExisting has) = markExistingFilesAsDownloaded env has"
| "cm_apply env Op_recreateMissing = recreateMissingFiles env"
| "cm_apply env Op_dndMissing = dndMissingFiles env"

fun cm_valid :: "nat \<Rightarrow> cm_op \<Rightarrow> bool" where
  "cm_valid n (Op_setPriority f p) \<longleftrightarrow> f < n \<and> base p = p"
| "cm_valid n (Op_setDoNotDownload f dnd) \<longleftrightarrow> f < n"
| "cm_valid n _ \<longleftrightarrow> True"

lemma keeps_apply: "cm_valid n op \<Longrightarrow> keeps m n (cm_apply env op)"
  by (cases op) (simp_all add: file_prio_def keeps_setPriority keeps_setDoNotDownload keeps_chunkDownloaded keeps_resetChunk keeps_dataChecked
    keeps_createFiles keeps_loadIndexFile keeps_markExisting keeps_recreate keeps_dndMissing)

lemma history_inv:
  assumes "fresh_torrent tor" and "list_all (cm_valid (length (tor_files tor))) ops"
  shows "cm_inv (getNumChunks tor) (fold (cm_apply env) ops (ChunkManager_new env tor ix fi pr))"
  using keepsD [OF keeps_fold [where xs = ops] new_inv [OF assms(1)]] assms(2) keeps_apply by (metis list_all_iff)

text \<open>C2. In a torrent of several files, none of them empty and none that lies in exactly two chunks and shares both, every chunk follows its
  files, whatever was called since the start and whatever was in the files the chunk manager loads: its priority is the highest one of the
  files that have a byte in it (a preview counts as the priority it is derived from), it is excluded exactly when all of them are excluded, it
  is only to be seeded exactly when the highest one is, and it is to be downloaded exactly when it is missing and neither of these.\<close>

theorem chunks_follow_files:
  assumes "loadInfo lenv info Torrent_new = Inr tor" and "tor_files tor \<noteq> []"
    and "byte_offset (tor_files tor) (length (tor_files tor)) < 2 ^ 64" and "length (hash_pieces tor) < 2 ^ 32"
    and "byte_offset (tor_files tor) (length (tor_files tor)) div unat (tor_chunk_size tor) < 2 ^ 32 - 1"
    and "\<forall>tf \<in> set (tor_files tor). tf_size tf \<noteq> 0" and "length (tor_files tor) \<le> INT_MAX" and "alone tor"
    and "list_all (cm_valid (length (tor_files tor))) ops" and "c < getNumChunks tor"
    and "cm = fold (cm_apply env) ops (ChunkManager_new env tor ix fi pr)"
    and "p = Max (tf_priority ` {tf \<in> set (tor_files (cm_tor cm)). in_chunks tf c})"
  shows "base (ck_priority (cm_chunks cm ! c)) = p \<and>
    (bs_get (excluded_chunks cm) c \<longleftrightarrow> p = EXCLUDED) \<and> (bs_get (only_seed_chunks cm) c \<longleftrightarrow> p = ONLY_SEED_PRIORITY) \<and>
    (bs_get (todo_bits cm) c \<longleftrightarrow> \<not> bs_get (have_bits cm) c \<and> p \<noteq> EXCLUDED \<and> p \<noteq> ONLY_SEED_PRIORITY)"
  using history_inv [OF loaded_fresh [OF assms(1-8)] assms(9), of env ix fi pr] assms(10)
  by (simp add: assms(11) [symmetric] assms(12) cm_inv_def prios_ok_def cview_def top_prio_def)

definition two_info :: bdict where
  "two_info = [(''files'', BListNode [sample_file ''a'' 5, sample_file ''c'' 7] []),
     (''name'', BValueNode (V_STRING ''t'') []), (''piece length'', BValueNode (V_INT 4) []),
     (''pieces'', BValueNode (V_STRING (replicate 60 CHR ''h'')) [])]"

definition two_files :: torrent where
  "two_files = Torrent_new\<lparr>name_suggestion := ''t'', unencoded_name := ''t'', hash_pieces := replicate 3 (replicate 20 CHR ''h''),
     tor_files := [(TorrentFile 0 ''a'' 0 5 4)\<lparr>unencoded_path := [''a'']\<rparr>, (TorrentFile 1 ''c'' 5 7 4)\<lparr>unencoded_path := [''c'']\<rparr>],
     tor_chunk_size := 4, tor_last_chunk_size := 4, total_size := 12\<rparr>"

lemma two_loaded: "loadInfo load_sample (Some two_info) Torrent_new = Inr two_files"
  by code_simp

lemma two_shape:
  "tor_files two_files \<noteq> []" "byte_offset (tor_files two_files) (length (tor_files two_files)) = 12" "length (tor_files two_files) = 2"
  "byte_offset (tor_files two_files) 2 = 12" "length (hash_pieces two_files) = 3" "tor_chunk_size two_files = 4" "\<forall>tf \<in> set (tor_files two_files). tf_size tf \<noteq> 0"
  by (simp_all add: two_files_def byte_offset_def TorrentFile_def Let_def)

lemma two_alone: "alone two_files"
  by code_simp

definition two_history :: "cm_op list" where
  "two_history = [Op_setPriority 0 FIRST_PRIORITY, Op_chunkDownloaded 0, Op_setDoNotDownload 1 True]"

definition two_env :: cm_env where
  "two_env = \<lparr>mime = (\<lambda>_. NORMAL_FILE), preview_size_audio = 0, preview_size_video = 0\<rparr>"

definition two_state :: chunk_manager where
  "two_state = fold (cm_apply two_env) two_history (ChunkManager_new two_env two_files None None None)"

lemma two_tops:
  "Max (tf_priority ` {tf \<in> set (tor_files (cm_tor two_state)). in_chunks tf 1}) = FIRST_PRIORITY"
  by code_simp

lemma two_missing: "\<not> bs_get (have_bits two_state) 1"
  by code_simp

theorem chunks_follow_files_witness:
  "base (ck_priority (cm_chunks two_state ! 1)) = FIRST_PRIORITY \<and> \<not> bs_get (excluded_chunks two_state) 1 \<and>
    \<not> bs_get (only_seed_chunks two_state) 1 \<and> bs_get (todo_bits two_state) 1"
  using chunks_follow_files [OF two_loaded two_shape(1) _ _ _ two_shape(7) _ two_alone _ _ two_state_def two_tops [symmetric]] two_missing
  by (simp add: two_shape two_history_def getNumChunks_def INT_MAX_def)

text \<open>Without the condition on files of two chunks this fails: when the file in the middle (bytes 5 to 10, chunks 1 and 2) is excluded, chunk 1 is
  kept for the first file, the loop does not look at chunk 2 any more, and chunk 2 is excluded although the third file is still wanted.\<close>

definition three_info :: bdict where
  "three_info = [(''files'', BListNode [sample_file ''a'' 5, sample_file ''b'' 6, sample_file ''c'' 5] []),
     (''name'', BValueNode (V_STRING ''t'') []), (''piece length'', BValueNode (V_INT 4) []),
     (''pieces'', BValueNode (V_STRING (replicate 80 CHR ''h'')) [])]"

definition three_files :: torrent where
  "three_files = Torrent_new\<lparr>name_suggestion := ''t'', unencoded_name := ''t'', hash_pieces := replicate 4 (replicate 20 CHR ''h''),
     tor_files := [(TorrentFile 0 ''a'' 0 5 4)\<lparr>unencoded_path := [''a'']\<rparr>, (TorrentFile 1 ''b'' 5 6 4)\<lparr>unencoded_path := [''b'']\<rparr>,
       (TorrentFile 2 ''c'' 11 5 4)\<lparr>unencoded_path := [''c'']\<rparr>],
     tor_chunk_size := 4, tor_last_chunk_size := 4, total_size := 16\<rparr>"

lemma three_loaded: "loadInfo load_sample (Some three_info) Torrent_new = Inr three_files"
  by code_simp

lemma two_chunk_file_takes_neighbour:
  "(let cm = setDoNotDownload two_env 1 True (ChunkManager_new two_env three_files None None None)
    in in_chunks (cm_file cm 2) 2 \<and> tf_priority (cm_file cm 2) = NORMAL_PRIORITY \<and> bs_get (excluded_chunks cm) 2 \<and> \<not> bs_get (todo_bits cm) 2)"
  by code_simp

end
