(* ===== verification/ChunkSelector.thy ===== *)
theory ChunkSelector
  imports ChunkManager "HOL-Library.Multiset"
begin

text \<open>
  Which chunk is downloaded next: \<^verbatim>\<open>src/src/download/chunkselector.cpp\<close> and \<^verbatim>\<open>streamingchunkselector.cpp\<close>. The selector keeps the
  chunks that may be needed, sorted by priority and rareness every two seconds; the streaming selector adds a range that is downloaded in order.

  The chunk manager is the model of \<open>ChunkManager\<close>. What the downloader and the peers answer is \<open>sel_env\<close>: the downloads of chunks
  with the number of peers and the speed of each, how many chunks are downloaded, which chunks the peer has, how many peers have a chunk, and
  which chunks a web seed can download. Chunk numbers are 32-bit numbers, kept as natural numbers below \<open>2 ^ 32\<close>; \<^verbatim>\<open>chunksLeft\<close>
  changes the count the chunk manager remembers, so the chunk manager is returned. A chunk that does not exist is \<open>None\<close>: the program would
  follow a null pointer.
\<close>

section \<open>State\<close>

record sel_env =
  downloads_of :: "nat \<Rightarrow> (nat \<times> nat) option"
  num_current :: nat
  pd_has :: "nat \<Rightarrow> bool"
  rareness :: "nat \<Rightarrow> nat"
  webseed_free :: "nat \<Rightarrow> bool"
  sel_now :: nat

record selector =
  sel_chunks :: "nat list"
  sort_timer :: nat

definition INVALID_CHUNK :: nat where
  "INVALID_CHUNK = 2 ^ 32 - 1"

definition numDownloadersForChunk :: "sel_env \<Rightarrow> nat \<Rightarrow> nat" where
  "numDownloadersForChunk env i = (case downloads_of env i of None \<Rightarrow> 0 | Some (n, _) \<Rightarrow> n)"

definition downloading :: "sel_env \<Rightarrow> nat \<Rightarrow> bool" where
  "downloading env i \<longleftrightarrow> downloads_of env i \<noteq> None"

definition slow :: "sel_env \<Rightarrow> nat \<Rightarrow> bool" where
  "slow env i \<longleftrightarrow> (case downloads_of env i of None \<Rightarrow> False | Some (_, speed) \<Rightarrow> speed < 100)"

definition chunksLeft :: "chunk_manager \<Rightarrow> nat \<times> chunk_manager" where
  "chunksLeft cm = (let cm1 = recalculateChunksLeft cm in (chunks_left cm1, cm1))"

definition endgameMode :: "sel_env \<Rightarrow> chunk_manager \<Rightarrow> bool \<times> chunk_manager" where
  "endgameMode env cm = (let (left, cm1) = chunksLeft cm in (num_current env \<ge> left, cm1))"

definition isExcludedForDownloading :: "cm_chunk \<Rightarrow> bool" where
  "isExcludedForDownloading c \<longleftrightarrow> ck_priority c = ONLY_SEED_PRIORITY"

definition isPreview :: "cm_chunk \<Rightarrow> bool" where
  "isPreview c \<longleftrightarrow> ck_priority c \<in> {FIRST_PREVIEW_PRIORITY, NORMAL_PREVIEW_PRIORITY, LAST_PREVIEW_PRIORITY}"

section \<open>Sorting\<close>

definition normalCmp :: "sel_env \<Rightarrow> bool \<Rightarrow> nat \<Rightarrow> nat \<Rightarrow> bool" where
  "normalCmp env warmup a b \<longleftrightarrow> (if \<not> warmup then rareness env a < rareness env b else rareness env a > rareness env b)"

definition RareCmp :: "sel_env \<Rightarrow> chunk_manager \<Rightarrow> bool \<Rightarrow> nat \<Rightarrow> nat \<Rightarrow> bool" where
  "RareCmp env cm warmup a b \<longleftrightarrow>
     (if a \<ge> length (cm_chunks cm) \<or> b \<ge> length (cm_chunks cm) then False
      else let pa = ck_priority (cm_chunks cm ! a); pb = ck_priority (cm_chunks cm ! b) in
        if pa = pb then normalCmp env warmup a b else pa > pb)"

text \<open>\<^verbatim>\<open>std::list::sort\<close> is stable; with a strict weak order every stable sort gives the same list.\<close>

fun insert_by :: "('a \<Rightarrow> 'a \<Rightarrow> bool) \<Rightarrow> 'a \<Rightarrow> 'a list \<Rightarrow> 'a list" where
  "insert_by lt x [] = [x]"
| "insert_by lt x (y # ys) = (if lt y x then y # insert_by lt x ys else x # y # ys)"

definition list_sort :: "('a \<Rightarrow> 'a \<Rightarrow> bool) \<Rightarrow> 'a list \<Rightarrow> 'a list" where
  "list_sort lt xs = foldr (insert_by lt) xs []"

section \<open>The selector\<close>

text \<open>\<open>shuffled\<close> is the permutation the random generator makes of the missing chunks.\<close>

definition missing_chunks :: "chunk_manager \<Rightarrow> nat list" where
  "missing_chunks cm = filter (\<lambda>i. \<not> bs_get (have_bits cm) i) [0..<length (cm_chunks cm)]"

definition ChunkSelector_init :: "(nat list \<Rightarrow> nat list) \<Rightarrow> nat \<Rightarrow> chunk_manager \<Rightarrow> selector" where
  "ChunkSelector_init shuffled now cm = \<lparr>sel_chunks = shuffled (missing_chunks cm), sort_timer = now\<rparr>"

definition least_downloaders :: "sel_env \<Rightarrow> nat list \<Rightarrow> nat" where
  "least_downloaders env lp = fst (fold (\<lambda>i (sel, cnt). let n = numDownloadersForChunk env i in if n < cnt then (i, n) else (sel, cnt)) lp
     (hd lp, numDownloadersForChunk env (hd lp)))"

definition leastPeers :: "sel_env \<Rightarrow> nat list \<Rightarrow> nat \<Rightarrow> nat \<Rightarrow> chunk_manager \<Rightarrow> nat \<times> chunk_manager" where
  "leastPeers env lp alternative max_peers cm =
     (let (endgame, cm1) = endgameMode env cm; sel = least_downloaders env lp in
      (if \<not> endgame \<and> numDownloadersForChunk env sel \<ge> max_peers then
         (case downloads_of env sel of None \<Rightarrow> alternative | Some (_, speed) \<Rightarrow> if speed < 100 then sel else alternative)
       else sel, cm1))"

text \<open>
  A chunk with downloaders may be taken when there are few of them, at the end of the download, or when they are slow; the chunk manager is
  asked only when it matters.
\<close>

definition may_join :: "sel_env \<Rightarrow> nat \<Rightarrow> chunk_manager \<Rightarrow> bool \<times> chunk_manager" where
  "may_join env i cm =
     (if numDownloadersForChunk env i < (if isPreview (cm_chunks cm ! i) then 3 else 2) then (True, cm)
      else let (endgame, cm1) = endgameMode env cm in (endgame \<or> slow env i, cm1))"

fun select_loop :: "sel_env \<Rightarrow> nat list \<Rightarrow> nat \<times> nat \<times> priority \<Rightarrow> chunk_manager \<Rightarrow> (nat list \<times> nat \<times> chunk_manager) option" where
  "select_loop env [] (sel, sel_dl, sel_prio) cm = Some ([], sel, cm)"
| "select_loop env (i # rest) (sel, sel_dl, sel_prio) cm =
     (if i \<ge> length (cm_chunks cm) then None
      else let c = cm_chunks cm ! i; keep = map_option (\<lambda>(l, r). (i # l, r)); dl = numDownloadersForChunk env i in
        if isExcludedForDownloading c \<or> isExcluded c \<or> bs_get (have_bits cm) i then select_loop env rest (sel, sel_dl, sel_prio) cm
        else if ck_priority c < sel_prio then Some (i # rest, sel, cm)
        else if pd_has env i then
          (if dl = 0 then Some (i # rest, i, cm)
           else if dl < sel_dl then
             (let (ok, cm1) = may_join env i cm
              in keep (select_loop env rest (if ok then (i, dl, ck_priority c) else (sel, sel_dl, sel_prio)) cm1))
           else keep (select_loop env rest (sel, sel_dl, sel_prio) cm))
        else keep (select_loop env rest (sel, sel_dl, sel_prio) cm))"

definition sort_chunks :: "sel_env \<Rightarrow> chunk_manager \<Rightarrow> selector \<Rightarrow> selector \<times> chunk_manager" where
  "sort_chunks env cm s =
     (if (if sel_now env > sort_timer s then sel_now env - sort_timer s else 0) > 2000 then
        (let (left, cm1) = chunksLeft cm; warmup = (of_nat (length (cm_chunks cm)) - of_nat left :: u32) \<le> 4
         in (s\<lparr>sel_chunks := list_sort (RareCmp env cm1 warmup) (sel_chunks s), sort_timer := sel_now env\<rparr>, cm1))
      else (s, cm))"

definition select_chunk :: "sel_env \<Rightarrow> chunk_manager \<Rightarrow> selector \<Rightarrow> (nat option \<times> selector \<times> chunk_manager) option" where
  "select_chunk env cm s =
     (let (s1, cm1) = sort_chunks env cm s in
      case select_loop env (sel_chunks s1) (INVALID_CHUNK, INVALID_CHUNK, EXCLUDED) cm1 of
        None \<Rightarrow> None
      | Some (l, sel, cm2) \<Rightarrow> Some (if sel \<ge> length (cm_chunks cm2) then None else Some sel, s1\<lparr>sel_chunks := l\<rparr>, cm2))"

definition sel_dataChecked :: "bitset \<Rightarrow> nat \<Rightarrow> nat \<Rightarrow> selector \<Rightarrow> selector" where
  "sel_dataChecked ok a b s = fold (\<lambda>i s.
     if i \<in> set (sel_chunks s) \<and> bs_get ok i then s\<lparr>sel_chunks := removeAll i (sel_chunks s)\<rparr>
     else if i \<notin> set (sel_chunks s) \<and> \<not> bs_get ok i then s\<lparr>sel_chunks := sel_chunks s @ [i]\<rparr> else s) [a..<min (Suc b) (num_bits ok)] s"

definition reincluded :: "chunk_manager \<Rightarrow> nat \<Rightarrow> nat \<Rightarrow> selector \<Rightarrow> selector" where
  "reincluded cm a b s =
     (if a \<ge> length (cm_chunks cm) \<or> b \<ge> length (cm_chunks cm) then s
      else fold (\<lambda>i s. if i \<notin> set (sel_chunks s) \<and> ck_status (cm_chunks cm ! i) \<noteq> ON_DISK
                       then s\<lparr>sel_chunks := sel_chunks s @ [i]\<rparr> else s) [a..<Suc b] s)"

definition reinsert :: "nat \<Rightarrow> selector \<Rightarrow> selector" where
  "reinsert i s = (if i \<notin> set (sel_chunks s) then s\<lparr>sel_chunks := sel_chunks s @ [i]\<rparr> else s)"

text \<open>\<^verbatim>\<open>selectRange\<close>: a range is its start and its length; no range is the range \<open>(0, 0)\<close>.\<close>

fun range_loop :: "sel_env \<Rightarrow> chunk_manager \<Rightarrow> nat \<Rightarrow> nat list \<Rightarrow> nat \<times> nat \<Rightarrow> nat \<times> nat \<Rightarrow> (nat \<times> nat) + nat \<times> nat" where
  "range_loop env cm max_len [] cur best = Inr best"
| "range_loop env cm max_len (i # is) cur best =
     (if \<not> bs_get (have_bits cm) i \<and> webseed_free env i then
        (let cur1 = (if cur = (0, 0) then (i, 1) else (fst cur, snd cur + 1)) in
         if snd cur1 \<ge> max_len then Inl cur1
         else range_loop env cm max_len is cur1
           (if i = length (cm_chunks cm) - 1 \<and> fst cur1 > 0 \<and> snd cur1 > snd best then cur1 else best))
      else range_loop env cm max_len is (0, 0) (if fst cur > 0 \<and> snd cur > snd best then cur else best))"

definition selectRange :: "sel_env \<Rightarrow> chunk_manager \<Rightarrow> nat \<Rightarrow> (nat \<times> nat) option" where
  "selectRange env cm max_len = (case range_loop env cm max_len [0..<length (cm_chunks cm)] (0, 0) (0, 0) of
     Inl (start, len) \<Rightarrow> Some (start, start + len - 1)
   | Inr (start, len) \<Rightarrow> if len \<noteq> 0 then Some (start, start + len - 1) else None)"

section \<open>The streaming selector\<close>

record streaming =
  st_base :: selector
  range_start :: nat
  range_end :: nat
  st_cursor :: nat
  critical_window_size :: nat
  st_range :: "nat list"
  preview_chunks :: "nat list"

definition CRITICAL_WINDOW_SIZE :: u32 where
  "CRITICAL_WINDOW_SIZE = 2 * 1024 * 1024"

definition set_insert_asc :: "nat \<Rightarrow> nat list \<Rightarrow> nat list" where
  "set_insert_asc = insort_insert"

definition add_previews :: "chunk_manager \<Rightarrow> nat list \<Rightarrow> nat list \<Rightarrow> nat list" where
  "add_previews cm is pv = fold (\<lambda>i pv. if isPreview (cm_chunks cm ! i) then set_insert_asc i pv else pv) is pv"

text \<open>A chunk manager without chunks is left out: there the last chunk would be \<open>2 ^ 32 - 1\<close> and the loop over the chunks would not end.\<close>

definition Streaming_init :: "(nat list \<Rightarrow> nat list) \<Rightarrow> nat \<Rightarrow> chunk_manager \<Rightarrow> streaming \<Rightarrow> streaming" where
  "Streaming_init shuffled now cm st =
     (let w = unat (ucast ((ucast CRITICAL_WINDOW_SIZE :: u64) div tor_chunk_size (cm_tor cm)) :: u32) in
      st\<lparr>st_base := ChunkSelector_init shuffled now cm, range_end := length (cm_chunks cm) - 1,
         critical_window_size := (if w = 0 then 1 else w), preview_chunks := add_previews cm [0..<length (cm_chunks cm)] []\<rparr>)"

definition initRange :: "chunk_manager \<Rightarrow> streaming \<Rightarrow> streaming" where
  "initRange cm st = st\<lparr>st_range := filter (\<lambda>i. \<not> bs_get (have_bits cm) i) [st_cursor st..<Suc (range_end st)]\<rparr>"

definition updateRange :: "chunk_manager \<Rightarrow> streaming \<Rightarrow> streaming" where
  "updateRange cm st =
     (let st1 = (if st_range st = [] \<or> st_cursor st < hd (st_range st) then initRange cm st else st)
      in st1\<lparr>st_range := filter (\<lambda>i. \<not> (bs_get (have_bits cm) i \<or> i < st_cursor st1)) (st_range st1)\<rparr>)"

definition setCursor :: "chunk_manager \<Rightarrow> nat \<Rightarrow> streaming \<Rightarrow> streaming" where
  "setCursor cm chunk st = (if st_cursor st \<noteq> chunk then updateRange cm (st\<lparr>st_cursor := chunk\<rparr>) else st)"

definition setSequentialRange :: "chunk_manager \<Rightarrow> nat \<Rightarrow> nat \<Rightarrow> streaming \<Rightarrow> streaming" where
  "setSequentialRange cm a b st = initRange cm (st\<lparr>range_start := a, range_end := b, st_cursor := a\<rparr>)"

definition selectFromPreview :: "sel_env \<Rightarrow> chunk_manager \<Rightarrow> streaming \<Rightarrow> nat option \<times> streaming \<times> chunk_manager" where
  "selectFromPreview env cm st =
     (let left = filter (\<lambda>i. \<not> bs_get (have_bits cm) i) (preview_chunks st);
          candidates = filter (\<lambda>i. pd_has env i \<and> i \<ge> range_start st \<and> i \<le> range_end st) left;
          st1 = st\<lparr>preview_chunks := left\<rparr>
      in if candidates \<noteq> [] then
           (let (chunk, cm1) = leastPeers env candidates INVALID_CHUNK 3 cm in (if chunk \<noteq> INVALID_CHUNK then Some chunk else None, st1, cm1))
         else (None, st1, cm))"

text \<open>The loop of \<^verbatim>\<open>select\<close>: what is left of the range, the critical chunk with its number of downloaders, the first chunk that is not critical.\<close>

fun stream_loop :: "sel_env \<Rightarrow> chunk_manager \<Rightarrow> nat \<Rightarrow> nat list \<Rightarrow> nat \<times> nat \<Rightarrow> (nat list \<times> nat \<times> nat) option" where
  "stream_loop env cm limit [] (crit, nd) = Some ([], crit, INVALID_CHUNK)"
| "stream_loop env cm limit (i # rest) (crit, nd) =
     (let keep = map_option (\<lambda>(l, r). (i # l, r)); n = numDownloadersForChunk env i in
      if bs_get (have_bits cm) i then stream_loop env cm limit rest (crit, nd)
      else if \<not> pd_has env i then keep (stream_loop env cm limit rest (crit, nd))
      else if i \<ge> length (cm_chunks cm) then None
      else if \<not> isExcluded (cm_chunks cm ! i) \<and> \<not> isExcludedForDownloading (cm_chunks cm ! i) then
        (if i < limit then keep (stream_loop env cm limit rest (if crit = INVALID_CHUNK \<or> n < nd then (i, n) else (crit, nd)))
         else if \<not> downloading env i then Some (i # rest, crit, i)
         else keep (stream_loop env cm limit rest (crit, nd)))
      else keep (stream_loop env cm limit rest (crit, nd)))"

definition stream_select :: "sel_env \<Rightarrow> chunk_manager \<Rightarrow> streaming \<Rightarrow> (nat option \<times> streaming \<times> chunk_manager) option" where
  "stream_select env cm st =
     (case selectFromPreview env cm st of
        (Some chunk, st1, cm1) \<Rightarrow> Some (Some chunk, st1, cm1)
      | (None, st1, cm1) \<Rightarrow>
          (case stream_loop env cm1 ((st_cursor st1 + critical_window_size st1) mod 2 ^ 32) (st_range st1) (INVALID_CHUNK, INVALID_CHUNK) of
             None \<Rightarrow> None
           | Some (l, crit, non_crit) \<Rightarrow>
               (let st2 = st1\<lparr>st_range := l\<rparr> in
                if crit \<noteq> INVALID_CHUNK then Some (Some crit, st2, cm1)
                else if non_crit \<noteq> INVALID_CHUNK then Some (Some non_crit, st2, cm1)
                else map_option (\<lambda>(r, s, cm2). (r, st2\<lparr>st_base := s\<rparr>, cm2)) (select_chunk env cm1 (st_base st2)))))"

definition stream_dataChecked :: "chunk_manager \<Rightarrow> bitset \<Rightarrow> nat \<Rightarrow> nat \<Rightarrow> streaming \<Rightarrow> streaming" where
  "stream_dataChecked cm ok a b st = updateRange cm (st\<lparr>st_base := sel_dataChecked ok a b (st_base st)\<rparr>)"

definition stream_reincluded :: "chunk_manager \<Rightarrow> nat \<Rightarrow> nat \<Rightarrow> streaming \<Rightarrow> streaming option" where
  "stream_reincluded cm a b st =
     (let st1 = initRange cm (st\<lparr>st_base := reincluded cm a b (st_base st)\<rparr>) in
      if a \<le> b \<and> b \<ge> length (cm_chunks cm) then None
      else Some (st1\<lparr>preview_chunks := add_previews cm [a..<Suc b] (preview_chunks st1)\<rparr>))"

fun range_insert :: "nat \<Rightarrow> nat list \<Rightarrow> nat list" where
  "range_insert c [] = [c]"
| "range_insert c (i # is) = (if i = c then i # is else if i > c then c # i # is else i # range_insert c is)"

definition stream_reinsert :: "chunk_manager \<Rightarrow> nat \<Rightarrow> streaming \<Rightarrow> streaming option" where
  "stream_reinsert cm c st =
     (if c \<ge> length (cm_chunks cm) then None
      else let st1 = st\<lparr>preview_chunks := add_previews cm [c] (preview_chunks st), st_base := reinsert c (st_base st)\<rparr>
        in Some (if c \<ge> st_cursor st1 \<and> c \<le> range_end st1 then st1\<lparr>st_range := range_insert c (st_range st1)\<rparr> else st1))"

section \<open>Sorting is right\<close>

lemma mset_insert_by: "mset (insert_by lt x xs) = add_mset x (mset xs)"
  by (induction xs) auto

lemma mset_list_sort [simp]: "mset (list_sort lt xs) = mset xs"
  by (induction xs) (simp_all add: list_sort_def mset_insert_by)

lemma set_list_sort [simp]: "set (list_sort lt xs) = set xs"
  by (metis mset_list_sort set_mset_mset)

lemma sorted_insert_by:
  assumes "\<And>y. y \<in> set xs \<Longrightarrow> if lt y x then R y x else R x y" and "\<And>a b c. a \<in> insert x (set xs) \<Longrightarrow> R a b \<Longrightarrow> R b c \<Longrightarrow> R a c"
    and "sorted_wrt R xs"
  shows "sorted_wrt R (insert_by lt x xs)"
  using assms
proof (induction xs)
  case (Cons y ys)
  have set: "set (insert_by lt x ys) = insert x (set ys)" by (metis mset_insert_by set_mset_add_mset_insert set_mset_mset)
  show ?case
  proof (cases "lt y x")
    case True
    then have "R y x" using Cons.prems(1) [of y] by simp
    moreover have "sorted_wrt R (insert_by lt x ys)" using Cons.prems by (intro Cons.IH) auto
    ultimately show ?thesis using True Cons.prems(3) by (simp add: set)
  next
    case False
    then have xy: "R x y" using Cons.prems(1) [of y] by simp
    have "R x z" if "z \<in> set ys" for z using Cons.prems(2) [of x y z] Cons.prems(3) xy that by simp
    then show ?thesis using False xy Cons.prems(3) by simp
  qed
qed simp

text \<open>The order of the list after a sort: higher priorities first, and among equal priorities the rare chunks, or during the first chunks the common ones.\<close>

definition prio_of :: "chunk_manager \<Rightarrow> nat \<Rightarrow> priority" where
  "prio_of cm i = ck_priority (cm_chunks cm ! i)"

definition rarer :: "sel_env \<Rightarrow> bool \<Rightarrow> nat \<Rightarrow> nat \<Rightarrow> bool" where
  "rarer env warmup a b \<longleftrightarrow> (if warmup then rareness env a \<ge> rareness env b else rareness env a \<le> rareness env b)"

definition comes_before :: "sel_env \<Rightarrow> chunk_manager \<Rightarrow> bool \<Rightarrow> nat \<Rightarrow> nat \<Rightarrow> bool" where
  "comes_before env cm warmup a b \<longleftrightarrow> prio_of cm a > prio_of cm b \<or> prio_of cm a = prio_of cm b \<and> rarer env warmup a b"

lemma RareCmp_order:
  assumes "a < length (cm_chunks cm)" and "b < length (cm_chunks cm)"
  shows "if RareCmp env cm w b a then comes_before env cm w b a else comes_before env cm w a b"
  using assms by (auto simp: RareCmp_def comes_before_def prio_of_def normalCmp_def rarer_def Let_def)

lemma comes_before_trans: "comes_before env cm w a b \<Longrightarrow> comes_before env cm w b c \<Longrightarrow> comes_before env cm w a c"
  by (auto simp: comes_before_def rarer_def split: if_splits)

lemma list_sort_sorted:
  assumes "\<forall>i \<in> set xs. i < length (cm_chunks cm)"
  shows "sorted_wrt (comes_before env cm w) (list_sort (RareCmp env cm w) xs)"
  using assms
proof (induction xs)
  case (Cons x xs)
  have s: "list_sort (RareCmp env cm w) (x # xs) = insert_by (RareCmp env cm w) x (list_sort (RareCmp env cm w) xs)" by (simp add: list_sort_def)
  show ?case unfolding s
  proof (rule sorted_insert_by)
    show "sorted_wrt (comes_before env cm w) (list_sort (RareCmp env cm w) xs)" using Cons by simp
    show "if RareCmp env cm w y x then comes_before env cm w y x else comes_before env cm w x y" if "y \<in> set (list_sort (RareCmp env cm w) xs)" for y
      using that Cons.prems by (intro RareCmp_order) auto
  qed (rule comes_before_trans)
qed (simp add: list_sort_def)

section \<open>The choice\<close>

definition sel_wanted :: "chunk_manager \<Rightarrow> nat \<Rightarrow> bool" where
  "sel_wanted cm i \<longleftrightarrow> prio_of cm i \<noteq> ONLY_SEED_PRIORITY \<and> prio_of cm i \<noteq> EXCLUDED \<and> \<not> bs_get (have_bits cm) i"

definition joinable :: "sel_env \<Rightarrow> chunk_manager \<Rightarrow> nat \<Rightarrow> bool" where
  "joinable env cm i \<longleftrightarrow> numDownloadersForChunk env i < (if isPreview (cm_chunks cm ! i) then 3 else 2) \<or> fst (endgameMode env cm) \<or> slow env i"

definition selectable :: "sel_env \<Rightarrow> chunk_manager \<Rightarrow> nat \<Rightarrow> bool" where
  "selectable env cm i \<longleftrightarrow> sel_wanted cm i \<and> pd_has env i \<and> joinable env cm i"

definition at_least :: "sel_env \<Rightarrow> chunk_manager \<Rightarrow> bool \<Rightarrow> nat \<Rightarrow> nat \<Rightarrow> bool" where
  "at_least env cm w a b \<longleftrightarrow> prio_of cm a > prio_of cm b \<or> prio_of cm a = prio_of cm b \<and>
     (numDownloadersForChunk env a < numDownloadersForChunk env b \<or>
      numDownloadersForChunk env a = numDownloadersForChunk env b \<and> rarer env w a b)"

text \<open>Asking for the number of chunks that are left changes nothing the selector looks at.\<close>

definition same_view :: "chunk_manager \<Rightarrow> chunk_manager \<Rightarrow> bool" where
  "same_view cm cm' \<longleftrightarrow> cm' = cm \<or> cm' = recalculateChunksLeft cm"

lemma recalculate_view [simp]:
  "cm_chunks (recalculateChunksLeft cm) = cm_chunks cm" "have_bits (recalculateChunksLeft cm) = have_bits cm"
  "recalculateChunksLeft (recalculateChunksLeft cm) = recalculateChunksLeft cm"
  by (simp_all add: recalculateChunksLeft_def)

lemma same_view_trans: "same_view cm cm1 \<Longrightarrow> same_view cm1 cm2 \<Longrightarrow> same_view cm cm2"
  by (auto simp: same_view_def)

lemma same_view_keeps:
  assumes "same_view cm cm'"
  shows "cm_chunks cm' = cm_chunks cm" "have_bits cm' = have_bits cm" "prio_of cm' = prio_of cm" "sel_wanted cm' = sel_wanted cm"
    "joinable env cm' = joinable env cm" "selectable env cm' = selectable env cm" "at_least env cm' = at_least env cm"
    "comes_before env cm' = comes_before env cm"
proof -
  show c: "cm_chunks cm' = cm_chunks cm" "have_bits cm' = have_bits cm" using assms by (auto simp: same_view_def)
  show p: "prio_of cm' = prio_of cm" by (simp add: prio_of_def c fun_eq_iff)
  then show w: "sel_wanted cm' = sel_wanted cm" by (simp add: sel_wanted_def c fun_eq_iff)
  have "fst (endgameMode env cm') = fst (endgameMode env cm)" using assms by (auto simp: same_view_def endgameMode_def chunksLeft_def Let_def)
  then show j: "joinable env cm' = joinable env cm" by (simp add: joinable_def c fun_eq_iff)
  show "selectable env cm' = selectable env cm" by (simp add: selectable_def w j fun_eq_iff)
  show "at_least env cm' = at_least env cm" by (simp add: at_least_def p fun_eq_iff)
  show "comes_before env cm' = comes_before env cm" by (simp add: comes_before_def p fun_eq_iff)
qed

lemma may_join_view: "same_view cm (snd (may_join env i cm))" "fst (may_join env i cm) = joinable env cm i"
  by (auto simp: may_join_def joinable_def same_view_def endgameMode_def chunksLeft_def Let_def)

lemma at_least_trans: "at_least env cm w a b \<Longrightarrow> at_least env cm w b c \<Longrightarrow> at_least env cm w a c"
  by (auto simp: at_least_def rarer_def split: if_splits)

lemma at_least_refl: "at_least env cm w a a"
  by (simp add: at_least_def rarer_def)

lemma prio_least: "\<not> (p :: priority) < EXCLUDED"
  by (cases p) (simp_all add: less_priority_def)

definition found :: "bool \<Rightarrow> sel_env \<Rightarrow> chunk_manager \<Rightarrow> bool \<Rightarrow> nat list \<Rightarrow> nat \<Rightarrow> nat \<Rightarrow> bool" where
  "found srt env cm w cs s r \<longleftrightarrow>
     r = INVALID_CHUNK \<and> s = INVALID_CHUNK \<and> (\<forall>i \<in> set cs. \<not> selectable env cm i) \<or>
     r < length (cm_chunks cm) \<and> selectable env cm r \<and> (r \<in> set cs \<or> r = s) \<and>
     (srt \<longrightarrow> (s \<noteq> INVALID_CHUNK \<longrightarrow> at_least env cm w r s) \<and> (\<forall>i \<in> set cs. selectable env cm i \<longrightarrow> at_least env cm w r i))"

definition acc_ok :: "bool \<Rightarrow> sel_env \<Rightarrow> chunk_manager \<Rightarrow> bool \<Rightarrow> nat list \<Rightarrow> nat \<times> nat \<times> priority \<Rightarrow> bool" where
  "acc_ok srt env cm w cs acc \<longleftrightarrow> acc = (INVALID_CHUNK, INVALID_CHUNK, EXCLUDED) \<or>
     (\<exists>s. acc = (s, numDownloadersForChunk env s, prio_of cm s) \<and> selectable env cm s \<and> s < length (cm_chunks cm) \<and>
        numDownloadersForChunk env s \<noteq> 0 \<and> (srt \<longrightarrow> (\<forall>x \<in> set cs. comes_before env cm w s x)))"

lemma found_view: "same_view cm cm' \<Longrightarrow> found srt env cm' = found srt env cm"
  by (simp add: found_def same_view_keeps fun_eq_iff)

lemma acc_ok_view: "same_view cm cm' \<Longrightarrow> acc_ok srt env cm' = acc_ok srt env cm"
  by (simp add: acc_ok_def same_view_keeps fun_eq_iff)

lemma acc_ok_tail: "acc_ok srt env cm w (i # cs) acc \<Longrightarrow> acc_ok srt env cm w cs acc"
  by (auto simp: acc_ok_def)

lemma found_skip:
  assumes "found srt env cm w cs s r" and "selectable env cm i \<Longrightarrow> s \<noteq> INVALID_CHUNK \<and> (srt \<longrightarrow> at_least env cm w s i)"
  shows "found srt env cm w (i # cs) s r"
proof -
  have "at_least env cm w r i" if "at_least env cm w r s" "selectable env cm i" srt using assms(2) that at_least_trans by blast
  then show ?thesis using assms unfolding found_def set_simps ball_simps by blast
qed

lemma found_join:
  assumes "found srt env cm w cs i r" and "i < length (cm_chunks cm)" and "length (cm_chunks cm) \<le> INVALID_CHUNK"
    and "srt \<Longrightarrow> s \<noteq> INVALID_CHUNK \<Longrightarrow> at_least env cm w i s"
  shows "found srt env cm w (i # cs) s r"
proof -
  have "i \<noteq> INVALID_CHUNK" using assms(2,3) by simp
  moreover have "at_least env cm w r s" if "at_least env cm w r i" srt "s \<noteq> INVALID_CHUNK" using assms(4) that at_least_trans by blast
  ultimately show ?thesis using assms(1) unfolding found_def set_simps ball_simps insert_iff by blast
qed

lemma select_loop_found:
  assumes "\<forall>i \<in> set cs. i < length (cm_chunks cm)" and "length (cm_chunks cm) \<le> INVALID_CHUNK"
    and "\<forall>i. numDownloadersForChunk env i < INVALID_CHUNK" and "srt \<Longrightarrow> sorted_wrt (comes_before env cm w) cs"
    and "acc_ok srt env cm w cs acc"
  shows "\<exists>l r cm'. select_loop env cs acc cm = Some (l, r, cm') \<and> same_view cm cm' \<and> subseq l cs \<and>
    (\<forall>i \<in> set cs. sel_wanted cm i \<longrightarrow> i \<in> set l) \<and> found srt env cm w cs (fst acc) r"
  using assms
proof (induction cs arbitrary: acc cm)
  case Nil
  obtain s d p where acc: "acc = (s, d, p)" by (cases acc)
  have "found srt env cm w [] s s" using Nil(5) at_least_refl by (auto simp: found_def acc_ok_def acc)
  then show ?case by (simp add: acc same_view_def)
next
  case (Cons i cs)
  obtain s d p where acc: "acc = (s, d, p)" by (cases acc)
  have i: "i < length (cm_chunks cm)" using Cons.prems(1) by simp
  have sorted: "srt \<Longrightarrow> sorted_wrt (comes_before env cm w) cs" "srt \<Longrightarrow> x \<in> set cs \<Longrightarrow> comes_before env cm w i x" for x
    using Cons.prems(4) by simp_all
  have IH: "\<exists>l r cm'. select_loop env cs a cm1 = Some (l, r, cm') \<and> same_view cm cm' \<and> subseq l cs \<and>
      (\<forall>i \<in> set cs. sel_wanted cm i \<longrightarrow> i \<in> set l) \<and> found srt env cm w cs (fst a) r" if "acc_ok srt env cm w cs a" "same_view cm cm1" for a cm1
  proof -
    note v = same_view_keeps [OF that(2)] found_view [OF that(2)] acc_ok_view [OF that(2)]
    have "\<exists>l r cm'. select_loop env cs a cm1 = Some (l, r, cm') \<and> same_view cm1 cm' \<and> subseq l cs \<and>
      (\<forall>i \<in> set cs. sel_wanted cm1 i \<longrightarrow> i \<in> set l) \<and> found srt env cm1 w cs (fst a) r"
      using Cons.prems(1-3) sorted(1) that(1) by (intro Cons.IH) (simp_all add: v)
    then show ?thesis using same_view_trans [OF that(2)] unfolding v by blast
  qed
  note rest = acc_ok_tail [OF Cons.prems(5)]
  have here: "same_view cm cm" by (simp add: same_view_def)
  let ?goal = "\<exists>l r cm'. select_loop env (i # cs) acc cm = Some (l, r, cm') \<and> same_view cm cm' \<and> subseq l (i # cs) \<and>
    (\<forall>j \<in> set (i # cs). sel_wanted cm j \<longrightarrow> j \<in> set l) \<and> found srt env cm w (i # cs) (fst acc) r"
  have go: ?goal if code: "select_loop env (i # cs) acc cm = map_option (\<lambda>(l, r). (i # l, r)) (select_loop env cs a cm1)"
      and a: "acc_ok srt env cm w cs a" "same_view cm cm1" "\<And>r. found srt env cm w cs (fst a) r \<Longrightarrow> found srt env cm w (i # cs) s r" for a cm1
  proof -
    obtain l r cm' where "select_loop env cs a cm1 = Some (l, r, cm')" "same_view cm cm'" "subseq l cs"
      "\<forall>i \<in> set cs. sel_wanted cm i \<longrightarrow> i \<in> set l" "found srt env cm w cs (fst a) r" using IH [OF a(1,2)] by blast
    then show ?thesis using code a(3) by (simp add: acc)
  qed
  have s: "s = INVALID_CHUNK \<and> d = INVALID_CHUNK \<and> p = EXCLUDED \<or>
      s \<noteq> INVALID_CHUNK \<and> selectable env cm s \<and> s < length (cm_chunks cm) \<and> d = numDownloadersForChunk env s \<and> p = prio_of cm s \<and>
      d \<noteq> 0 \<and> (srt \<longrightarrow> comes_before env cm w s i)"
    using Cons.prems(2,5) by (auto simp: acc_ok_def acc)
  consider (gone) "\<not> sel_wanted cm i" | (lower) "sel_wanted cm i" "prio_of cm i < p" | (lacks) "sel_wanted cm i" "\<not> prio_of cm i < p" "\<not> pd_has env i"
    | (free) "sel_wanted cm i" "\<not> prio_of cm i < p" "pd_has env i" "numDownloadersForChunk env i = 0"
    | (fewer) "sel_wanted cm i" "\<not> prio_of cm i < p" "pd_has env i" "numDownloadersForChunk env i \<noteq> 0" "numDownloadersForChunk env i < d"
    | (more) "sel_wanted cm i" "\<not> prio_of cm i < p" "pd_has env i" "numDownloadersForChunk env i \<noteq> 0" "\<not> numDownloadersForChunk env i < d" by blast
  then show ?case
  proof cases
    case gone
    then have code: "select_loop env (i # cs) acc cm = select_loop env cs acc cm"
      using i by (simp add: acc sel_wanted_def prio_of_def isExcluded_def isExcludedForDownloading_def Let_def)
    have "\<not> selectable env cm i" using gone by (simp add: selectable_def)
    then have skip: "found srt env cm w cs s r \<Longrightarrow> found srt env cm w (i # cs) s r" for r by (intro found_skip) simp_all
    show ?thesis using IH [OF rest here] gone list_emb_Cons [of "(=)" _ cs i] skip unfolding code by (auto simp: acc)
  next
    case lower
    then have "select_loop env (i # cs) acc cm = Some (i # cs, s, cm)"
      using i by (simp add: acc sel_wanted_def prio_of_def isExcluded_def isExcludedForDownloading_def Let_def)
    moreover have "srt \<Longrightarrow> x \<in> set (i # cs) \<Longrightarrow> prio_of cm x \<le> prio_of cm i" for x using sorted(2) [of x] by (auto simp: comes_before_def)
    then have "srt \<Longrightarrow> x \<in> set (i # cs) \<Longrightarrow> at_least env cm w s x" for x using lower s prio_least by (fastforce simp: at_least_def)
    then have "found srt env cm w (i # cs) s s" using lower s prio_least at_least_refl unfolding found_def by blast
    ultimately show ?thesis using here by (simp add: acc)
  next
    case lacks
    then have "\<not> selectable env cm i" by (simp add: selectable_def)
    then show ?thesis using lacks i
      by (intro go [OF _ rest here]) (auto simp: acc sel_wanted_def prio_of_def isExcluded_def isExcludedForDownloading_def Let_def intro: found_skip)
  next
    case free
    then have "select_loop env (i # cs) acc cm = Some (i # cs, i, cm)"
      using i by (simp add: acc sel_wanted_def prio_of_def isExcluded_def isExcludedForDownloading_def Let_def)
    moreover have "found srt env cm w (i # cs) s i"
    proof -
    have "selectable env cm i" using free by (simp add: selectable_def joinable_def)
    moreover have "srt \<Longrightarrow> x \<in> set (i # cs) \<Longrightarrow> at_least env cm w i x" for x
      using free(4) sorted(2) [of x] at_least_refl by (auto simp: at_least_def comes_before_def)
    moreover have "srt \<Longrightarrow> s \<noteq> INVALID_CHUNK \<Longrightarrow> at_least env cm w i s" using free s by (auto simp: at_least_def comes_before_def)
    ultimately show ?thesis using i unfolding found_def by simp
    qed
    ultimately show ?thesis using here by (simp add: acc)
  next
    case fewer
    let ?a = "if joinable env cm i then (i, numDownloadersForChunk env i, prio_of cm i) else acc"
    have code: "select_loop env (i # cs) acc cm = map_option (\<lambda>(l, r). (i # l, r)) (select_loop env cs ?a (snd (may_join env i cm)))"
      using fewer i by (simp add: acc sel_wanted_def prio_of_def isExcluded_def isExcludedForDownloading_def Let_def split_beta may_join_view(2))
    show ?thesis
    proof (cases "joinable env cm i")
      case True
      have u: "selectable env cm i" using fewer True by (simp add: selectable_def)
      have ok: "acc_ok srt env cm w cs ?a" using True u i fewer(4) sorted(2) by (auto simp: acc_ok_def)
      have "at_least env cm w i s" if srt "s \<noteq> INVALID_CHUNK" using that s fewer by (auto simp: at_least_def comes_before_def)
      then show ?thesis using True i Cons.prems(2) by (intro go [OF code ok may_join_view(1)] found_join) simp_all
    next
      case False
      then have "\<not> selectable env cm i" by (simp add: selectable_def)
      then show ?thesis using False rest by (intro go [OF code _ may_join_view(1)] found_skip) (simp_all add: acc)
    qed
  next
    case more
    have "s \<noteq> INVALID_CHUNK" using more s Cons.prems(3) by auto
    moreover have "srt \<longrightarrow> at_least env cm w s i" using more s calculation by (auto simp: at_least_def comes_before_def)
    ultimately show ?thesis using more i
      by (intro go [OF _ rest here] found_skip) (auto simp: acc sel_wanted_def prio_of_def isExcluded_def isExcludedForDownloading_def Let_def)
  qed
qed

section \<open>The lists of the selector\<close>

lemma subseq_distinct: "subseq l cs \<Longrightarrow> distinct cs \<Longrightarrow> distinct l"
  by (auto simp: subseq_conv_nths)

text \<open>The list has no chunk twice and only chunks of the torrent.\<close>

definition sel_inv :: "chunk_manager \<Rightarrow> selector \<Rightarrow> bool" where
  "sel_inv cm s \<longleftrightarrow> distinct (sel_chunks s) \<and> (\<forall>i \<in> set (sel_chunks s). i < length (cm_chunks cm))"

definition sel_warmup :: "chunk_manager \<Rightarrow> bool" where
  "sel_warmup cm \<longleftrightarrow> (of_nat (length (cm_chunks cm)) - of_nat (fst (chunksLeft cm)) :: u32) \<le> 4"

definition sort_due :: "sel_env \<Rightarrow> selector \<Rightarrow> bool" where
  "sort_due env s \<longleftrightarrow> sel_now env - sort_timer s > 2000"

lemma sort_chunks_list:
  assumes "\<forall>i \<in> set (sel_chunks s). i < length (cm_chunks cm)"
  shows "same_view cm (snd (sort_chunks env cm s))" and "mset (sel_chunks (fst (sort_chunks env cm s))) = mset (sel_chunks s)"
    and "sort_due env s \<Longrightarrow> sorted_wrt (comes_before env cm (sel_warmup cm)) (sel_chunks (fst (sort_chunks env cm s)))"
proof -
  show "same_view cm (snd (sort_chunks env cm s))" "mset (sel_chunks (fst (sort_chunks env cm s))) = mset (sel_chunks s)"
    by (simp_all add: sort_chunks_def same_view_def chunksLeft_def Let_def)
  have c: "comes_before env (recalculateChunksLeft cm) = comes_before env cm" by (rule same_view_keeps(8)) (simp add: same_view_def)
  assume "sort_due env s"
  then have "sel_chunks (fst (sort_chunks env cm s)) = list_sort (RareCmp env (recalculateChunksLeft cm) (sel_warmup cm)) (sel_chunks s)"
    by (auto simp: sort_chunks_def sort_due_def chunksLeft_def sel_warmup_def Let_def)
  then show "sorted_wrt (comes_before env cm (sel_warmup cm)) (sel_chunks (fst (sort_chunks env cm s)))"
    using list_sort_sorted [of "sel_chunks s" "recalculateChunksLeft cm" env "sel_warmup cm"] assms by (simp add: c)
qed

lemma select_chunk_found:
  assumes "sel_inv cm s" and "length (cm_chunks cm) \<le> INVALID_CHUNK" and "\<forall>i. numDownloadersForChunk env i < INVALID_CHUNK"
  shows "\<exists>r s' cm'. select_chunk env cm s = Some (r, s', cm') \<and> same_view cm cm' \<and> sel_inv cm s' \<and> set (sel_chunks s') \<subseteq> set (sel_chunks s) \<and>
    (\<forall>i \<in> set (sel_chunks s). sel_wanted cm i \<longrightarrow> i \<in> set (sel_chunks s')) \<and>
    (case r of None \<Rightarrow> \<forall>i \<in> set (sel_chunks s). \<not> selectable env cm i
     | Some c \<Rightarrow> c \<in> set (sel_chunks s) \<and> selectable env cm c \<and>
         (sort_due env s \<longrightarrow> (\<forall>i \<in> set (sel_chunks s). selectable env cm i \<longrightarrow> at_least env cm (sel_warmup cm) c i)))"
proof -
  let ?s1 = "fst (sort_chunks env cm s)" and ?cm1 = "snd (sort_chunks env cm s)"
  have inv: "distinct (sel_chunks s)" "\<forall>i \<in> set (sel_chunks s). i < length (cm_chunks cm)" using assms(1) by (simp_all add: sel_inv_def)
  note so = sort_chunks_list [OF inv(2), of env]
  note v = same_view_keeps [OF so(1)]
  have set: "set (sel_chunks ?s1) = set (sel_chunks s)" and dist: "distinct (sel_chunks ?s1)"
    using so(2) inv(1) mset_eq_setD mset_eq_imp_distinct_iff by blast+
  obtain l r cm' where l: "select_loop env (sel_chunks ?s1) (INVALID_CHUNK, INVALID_CHUNK, EXCLUDED) ?cm1 = Some (l, r, cm')" "same_view ?cm1 cm'"
    "subseq l (sel_chunks ?s1)" "\<forall>i \<in> set (sel_chunks ?s1). sel_wanted ?cm1 i \<longrightarrow> i \<in> set l"
    "found (sort_due env s) env ?cm1 (sel_warmup cm) (sel_chunks ?s1) INVALID_CHUNK r"
    using select_loop_found [of "sel_chunks ?s1" ?cm1 env "sort_due env s" "sel_warmup cm" "(INVALID_CHUNK, INVALID_CHUNK, EXCLUDED)"]
      inv(2) assms(2,3) so(3) by (auto simp: v set acc_ok_def)
  note v' = same_view_keeps [OF l(2)]
  have code: "select_chunk env cm s = Some (if r \<ge> length (cm_chunks cm) then None else Some r, ?s1\<lparr>sel_chunks := l\<rparr>, cm')"
    using l(1) by (simp add: select_chunk_def split_beta v v')
  have sub: "set l \<subseteq> set (sel_chunks s)" "distinct l" using l(3) dist set list_emb_set [OF l(3)] subseq_distinct by blast+
  have f: "r = INVALID_CHUNK \<and> (\<forall>i \<in> set (sel_chunks s). \<not> selectable env cm i) \<or>
     r < length (cm_chunks cm) \<and> r \<in> set (sel_chunks s) \<and> selectable env cm r \<and>
     (sort_due env s \<longrightarrow> (\<forall>i \<in> set (sel_chunks s). selectable env cm i \<longrightarrow> at_least env cm (sel_warmup cm) r i))"
    using l(5) assms(2) by (auto simp: found_def v set)
  show ?thesis unfolding code
    using same_view_trans [OF so(1) l(2)] sub inv(2) l(4) f assms(2) by (auto simp: sel_inv_def v set)
qed

text \<open>C8. The selector never fails, and it keeps every chunk that is still to be downloaded in its list. It selects a chunk exactly when the list has
  one that the peer has, that is missing and neither excluded nor only to be seeded, and that has room for another downloader (two, or three
  for a preview; more at the end of the download or when the chunk is slow). Right after a sort the choice is the best of them: no
  other has a higher priority; among equal priorities no other has fewer downloaders; and among these no other is rarer, or,
  while the first chunks are downloaded, more common.\<close>

theorem selection_best:
  assumes "sel_inv cm s" and "length (cm_chunks cm) < 2 ^ 32" and "\<forall>i. numDownloadersForChunk env i < 2 ^ 32 - 1"
  shows "\<exists>r s' cm'. select_chunk env cm s = Some (r, s', cm') \<and> sel_inv cm s' \<and> set (sel_chunks s') \<subseteq> set (sel_chunks s) \<and>
    (\<forall>i \<in> set (sel_chunks s). sel_wanted cm i \<longrightarrow> i \<in> set (sel_chunks s')) \<and>
    (case r of None \<Rightarrow> \<forall>i \<in> set (sel_chunks s). \<not> selectable env cm i
     | Some c \<Rightarrow> c \<in> set (sel_chunks s) \<and> selectable env cm c \<and>
         (sort_due env s \<longrightarrow> (\<forall>i \<in> set (sel_chunks s). selectable env cm i \<longrightarrow> at_least env cm (sel_warmup cm) c i)))"
proof -
  have "length (cm_chunks cm) \<le> INVALID_CHUNK" "\<forall>i. numDownloadersForChunk env i < INVALID_CHUNK"
    using assms(2,3) by (simp_all add: INVALID_CHUNK_def)
  from select_chunk_found [OF assms(1) this] show ?thesis by blast
qed

definition sample_chunk :: "priority \<Rightarrow> cm_chunk" where
  "sample_chunk p = \<lparr>ck_status = NOT_DOWNLOADED, ck_size = 4, ck_priority = p\<rparr>"

definition sample_manager :: chunk_manager where
  "sample_manager = \<lparr>cm_tor = Torrent_new, cm_chunks = map sample_chunk [NORMAL_PRIORITY, FIRST_PRIORITY, EXCLUDED, FIRST_PRIORITY],
     have_bits = bs_new 4, excluded_chunks = bs_new 4, only_seed_chunks = bs_new 4, todo_bits = bs_new 4, chunks_left = 3, recalc_chunks_left = False,
     during_load = False, border_chunks = {}, index_file = None, file_info_file = None, file_priority_file = None, cm_events = [], cm_fault = False\<rparr>"

definition sample_sel_env :: sel_env where
  "sample_sel_env = \<lparr>downloads_of = (\<lambda>i. if i = 1 then Some (1, 500) else None), num_current = 1, pd_has = (\<lambda>_. True), rareness = (\<lambda>i. 10 - i),
     webseed_free = (\<lambda>_. True), sel_now = 5000\<rparr>"

lemma sample_selection: "map_option fst (select_chunk sample_sel_env sample_manager \<lparr>sel_chunks = [0, 1, 2, 3], sort_timer = 0\<rparr>) = Some (Some 3)"
  by code_simp

lemma sample_selectable: "selectable sample_sel_env sample_manager 1" "sort_due sample_sel_env \<lparr>sel_chunks = [0, 1, 2, 3], sort_timer = 0\<rparr>"
  by code_simp+

theorem selection_best_witness:
  "selectable sample_sel_env sample_manager 3 \<and> at_least sample_sel_env sample_manager (sel_warmup sample_manager) 3 1"
proof -
  have "sel_inv sample_manager \<lparr>sel_chunks = [0, 1, 2, 3], sort_timer = 0\<rparr>" "length (cm_chunks sample_manager) < 2 ^ 32"
    "\<forall>i. numDownloadersForChunk sample_sel_env i < 2 ^ 32 - 1"
    by (simp_all add: sel_inv_def sample_manager_def numDownloadersForChunk_def sample_sel_env_def)
  from selection_best [OF this] show ?thesis using sample_selection sample_selectable by auto
qed

text \<open>The other operations keep the list well formed, and chunks are only added where they are missing.\<close>

lemma init_inv: "mset (shuffled (missing_chunks cm)) = mset (missing_chunks cm) \<Longrightarrow> sel_inv cm (ChunkSelector_init shuffled now cm)"
  using mset_eq_imp_distinct_iff [of "shuffled (missing_chunks cm)" "missing_chunks cm"] mset_eq_setD [of "shuffled (missing_chunks cm)" "missing_chunks cm"]
  by (auto simp: sel_inv_def ChunkSelector_init_def missing_chunks_def)

lemma fold_sel_inv:
  assumes "\<And>i s. i \<in> set is \<Longrightarrow> sel_inv cm s \<Longrightarrow> sel_inv cm (g i s)" and "sel_inv cm s"
  shows "sel_inv cm (fold g is s)"
  using assms by (induction "is" arbitrary: s) simp_all

lemma sel_dataChecked_inv: "sel_inv cm s \<Longrightarrow> num_bits ok \<le> length (cm_chunks cm) \<Longrightarrow> sel_inv cm (sel_dataChecked ok a b s)"
  unfolding sel_dataChecked_def by (rule fold_sel_inv) (auto simp: sel_inv_def distinct_removeAll)

lemma reincluded_inv: "sel_inv cm s \<Longrightarrow> sel_inv cm (reincluded cm a b s)"
proof -
  assume s: "sel_inv cm s"
  show ?thesis
  proof (cases "a \<ge> length (cm_chunks cm) \<or> b \<ge> length (cm_chunks cm)")
    case False
    have "sel_inv cm (fold (\<lambda>i s. if i \<notin> set (sel_chunks s) \<and> ck_status (cm_chunks cm ! i) \<noteq> ON_DISK
        then s\<lparr>sel_chunks := sel_chunks s @ [i]\<rparr> else s) [a..<Suc b] s)"
      by (rule fold_sel_inv [OF _ s]) (use False in \<open>auto simp: sel_inv_def\<close>)
    then show ?thesis unfolding reincluded_def using False by (simp only: if_False)
  qed (simp add: s reincluded_def)
qed

lemma reinsert_inv: "sel_inv cm s \<Longrightarrow> i < length (cm_chunks cm) \<Longrightarrow> sel_inv cm (reinsert i s)"
  by (auto simp: sel_inv_def reinsert_def)

lemma reincluded_has:
  assumes "a \<le> i" "i \<le> b" "b < length (cm_chunks cm)" "ck_status (cm_chunks cm ! i) \<noteq> ON_DISK"
  shows "i \<in> set (sel_chunks (reincluded cm a b s))"
proof -
  let ?g = "\<lambda>i s. if i \<notin> set (sel_chunks s) \<and> ck_status (cm_chunks cm ! i) \<noteq> ON_DISK then s\<lparr>sel_chunks := sel_chunks s @ [i]\<rparr> else s"
  have mono: "x \<in> set (sel_chunks s) \<Longrightarrow> x \<in> set (sel_chunks (fold ?g is s))" for x "is" s by (induction "is" arbitrary: s) simp_all
  have "x \<in> set is \<Longrightarrow> ck_status (cm_chunks cm ! x) \<noteq> ON_DISK \<Longrightarrow> x \<in> set (sel_chunks (fold ?g is s))" for x "is"
    by (induction "is" arbitrary: s) (use mono in auto)
  from this [of i "[a..<Suc b]"] show ?thesis using assms by (simp add: reincluded_def del: upt_Suc)
qed

section \<open>Ranges for web seeds\<close>

definition fetchable :: "sel_env \<Rightarrow> chunk_manager \<Rightarrow> nat \<Rightarrow> bool" where
  "fetchable env cm i \<longleftrightarrow> \<not> bs_get (have_bits cm) i \<and> webseed_free env i"

definition range_ok :: "sel_env \<Rightarrow> chunk_manager \<Rightarrow> nat \<Rightarrow> nat \<Rightarrow> nat \<times> nat \<Rightarrow> bool" where
  "range_ok env cm max_len stop r \<longleftrightarrow> snd r \<noteq> 0 \<longrightarrow> fst r + snd r \<le> stop \<and> snd r \<le> max_len \<and> (\<forall>i \<in> {fst r..<fst r + snd r}. fetchable env cm i)"

lemma range_loop_ok:
  assumes "0 < max_len" and "range_ok env cm max_len k cur" and "range_ok env cm max_len k best" and "snd cur < max_len"
    and "cur = (0, 0) \<or> snd cur \<noteq> 0 \<and> fst cur + snd cur = k" and "k \<le> n"
  shows "case range_loop env cm max_len [k..<n] cur best of Inl r \<Rightarrow> snd r \<noteq> 0 \<and> range_ok env cm max_len n r | Inr r \<Rightarrow> range_ok env cm max_len n r"
  using assms
proof (induction "n - k" arbitrary: k cur best)
  case (Suc m)
  then have k: "[k..<n] = k # [Suc k..<n]" "Suc k \<le> n" "m = n - Suc k" by (simp_all add: upt_rec)
  have up: "range_ok env cm max_len (Suc k) r" if "range_ok env cm max_len k r" for r using that by (auto simp: range_ok_def)
  let ?cur = "if cur = (0, 0) then (k, 1) else (fst cur, snd cur + 1)"
  show ?case
  proof (cases "fetchable env cm k")
    case True
    then have c: "range_ok env cm max_len (Suc k) ?cur" "snd ?cur \<noteq> 0" "fst ?cur + snd ?cur = Suc k"
      using Suc.prems(1,2,4,5) by (cases "cur = (0, 0)"; auto simp: range_ok_def less_Suc_eq)+
    have b: "range_ok env cm max_len (Suc k) (if k = length (cm_chunks cm) - 1 \<and> fst ?cur > 0 \<and> snd ?cur > snd best then ?cur else best)"
      by (rule if_split [THEN iffD2]) (intro conjI impI c(1) up [OF Suc.prems(3)])
    show ?thesis
    proof (cases "snd ?cur \<ge> max_len")
      case True
      then show ?thesis using \<open>fetchable env cm k\<close> c k(2) by (auto simp: k(1) fetchable_def Let_def range_ok_def)
    next
      case False
      then show ?thesis using \<open>fetchable env cm k\<close> Suc.hyps(1) [OF k(3) Suc.prems(1) c(1) b _ _ k(2)] c(2,3)
        by (auto simp: k(1) fetchable_def Let_def)
    qed
  next
    case False
    have z: "range_ok env cm max_len (Suc k) (0, 0)" by (simp add: range_ok_def)
    have b: "range_ok env cm max_len (Suc k) (if fst cur > 0 \<and> snd cur > snd best then cur else best)" using up Suc.prems(2,3) by simp
    have "range_loop env cm max_len [k..<n] cur best =
        range_loop env cm max_len [Suc k..<n] (0, 0) (if fst cur > 0 \<and> snd cur > snd best then cur else best)"
      using False unfolding k(1) range_loop.simps fetchable_def by (rule if_not_P)
    then show ?thesis using Suc.hyps(1) [OF k(3) Suc.prems(1) z b _ _ k(2)] Suc.prems(1) by simp
  qed
qed (simp add: range_ok_def)

lemma selectRange_ok:
  assumes "0 < max_len" and "selectRange env cm max_len = Some (a, b)"
  shows "a \<le> b \<and> b < length (cm_chunks cm) \<and> b + 1 - a \<le> max_len \<and> (\<forall>i \<in> {a..b}. fetchable env cm i)"
proof -
  have z: "range_ok env cm max_len 0 (0, 0)" by (simp add: range_ok_def)
  obtain st len where r: "range_ok env cm max_len (length (cm_chunks cm)) (st, len)" "len \<noteq> 0" "a = st" "b = st + len - 1"
    using range_loop_ok [OF assms(1) z z, of "length (cm_chunks cm)"] assms unfolding selectRange_def
    by (auto split: sum.splits prod.splits if_splits)
  then show ?thesis by (auto simp: range_ok_def)
qed

text \<open>A range that starts at the first chunk is taken only when it reaches the length asked for.\<close>

lemma selectRange_first_chunk:
  assumes "1 < max_len" and "\<not> bs_get (have_bits cm) 0" and "\<forall>i \<in> {1..<length (cm_chunks cm)}. bs_get (have_bits cm) i"
  shows "selectRange env cm max_len = None"
proof -
  have "range_loop env cm max_len is cur (0, 0) = Inr (0, 0)" if "\<forall>i \<in> set is. bs_get (have_bits cm) i" "fst cur = 0" for "is" cur
    using that by (induction "is" arbitrary: cur) simp_all
  then have r: "range_loop env cm max_len [1..<length (cm_chunks cm)] cur (0, 0) = Inr (0, 0)" if "fst cur = 0" for cur
    using assms(3) that by simp
  show ?thesis
  proof (cases "length (cm_chunks cm)")
    case (Suc n)
    then have "[0..<length (cm_chunks cm)] = 0 # [1..<length (cm_chunks cm)]" by (simp add: upt_rec del: upt_Suc)
    then show ?thesis using assms(1) r [of "(0, 1)"] r [of "(0, 0)"] by (simp add: selectRange_def Let_def del: upt_Suc)
  qed (simp add: selectRange_def)
qed

section \<open>Streaming\<close>

text \<open>The range and the previews are kept in ascending order.\<close>

definition st_inv :: "streaming \<Rightarrow> bool" where
  "st_inv st \<longleftrightarrow> sorted_wrt (<) (st_range st) \<and> sorted_wrt (<) (preview_chunks st)"

lemma sorted_filter_upt: "sorted_wrt (<) (filter P [a..<b])"
  by (simp add: sorted_wrt_filter sorted_wrt_upt)

lemma initRange_inv: "st_inv st \<Longrightarrow> st_inv (initRange cm st)"
  unfolding st_inv_def initRange_def using sorted_filter_upt by (simp del: upt_Suc)

lemma updateRange_inv: "st_inv st \<Longrightarrow> st_inv (updateRange cm st)"
  using initRange_inv [of st cm] by (simp add: updateRange_def st_inv_def sorted_wrt_filter Let_def)

lemma setCursor_inv: "st_inv st \<Longrightarrow> st_inv (setCursor cm c st)"
  using updateRange_inv [of "st\<lparr>st_cursor := c\<rparr>" cm] by (simp add: setCursor_def st_inv_def)

lemma setSequentialRange_inv: "st_inv st \<Longrightarrow> st_inv (setSequentialRange cm a b st)"
  unfolding setSequentialRange_def by (rule initRange_inv) (simp add: st_inv_def)

lemma selectFromPreview_inv: "st_inv st \<Longrightarrow> st_inv (fst (snd (selectFromPreview env cm st)))"
  by (simp add: selectFromPreview_def st_inv_def sorted_wrt_filter Let_def split_beta)

lemma range_insert_inv:
  assumes "sorted_wrt (<) is"
  shows "sorted_wrt (<) (range_insert c is) \<and> set (range_insert c is) = insert c (set is)"
  using assms by (induction "is") auto

lemma add_previews_inv: "sorted_wrt (<) pv \<Longrightarrow> sorted_wrt (<) (add_previews cm is pv)"
  unfolding add_previews_def
proof (induction "is" arbitrary: pv)
  case (Cons i "is")
  have "sorted_wrt (<) (insort_insert i pv)"
    using Cons.prems by (simp add: strict_sorted_iff sorted_insort_insert distinct_insort_insert)
  then show ?case using Cons by (simp add: set_insert_asc_def)
qed simp

lemma stream_reinsert_inv: "st_inv st \<Longrightarrow> stream_reinsert cm c st = Some st' \<Longrightarrow> st_inv st'"
  using add_previews_inv range_insert_inv by (auto simp: stream_reinsert_def st_inv_def Let_def split: if_splits)

text \<open>The loop over the range chooses what the peer has, is missing and wanted; a chunk behind the window only when nobody downloads it.\<close>

definition streamable :: "sel_env \<Rightarrow> chunk_manager \<Rightarrow> nat \<Rightarrow> bool" where
  "streamable env cm i \<longleftrightarrow> i < length (cm_chunks cm) \<and> sel_wanted cm i \<and> pd_has env i"

lemma stream_loop_choice:
  assumes "stream_loop env cm limit cs (crit, nd) = Some (l, c, n)"
  shows "(c = crit \<or> c \<in> set cs \<and> streamable env cm c \<and> c < limit) \<and>
    (n = INVALID_CHUNK \<or> n \<in> set cs \<and> streamable env cm n \<and> limit \<le> n \<and> \<not> downloading env n) \<and> subseq l cs"
  using assms
proof (induction cs arbitrary: crit nd l)
  case (Cons i cs)
  have keep: "\<exists>l'. r = Some (l', c, n) \<and> l = i # l'" if "map_option (\<lambda>(l, r). (i # l, r)) r = Some (l, c, n)" for r :: "(nat list \<times> nat \<times> nat) option"
    using that by auto
  consider "bs_get (have_bits cm) i" | "\<not> bs_get (have_bits cm) i" "\<not> pd_has env i"
    | "\<not> bs_get (have_bits cm) i" "pd_has env i" "i < length (cm_chunks cm)" "\<not> sel_wanted cm i"
    | "pd_has env i" "i < length (cm_chunks cm)" "sel_wanted cm i" "i < limit"
    | "pd_has env i" "i < length (cm_chunks cm)" "sel_wanted cm i" "\<not> i < limit" "downloading env i"
    | "pd_has env i" "i < length (cm_chunks cm)" "sel_wanted cm i" "\<not> i < limit" "\<not> downloading env i"
    using Cons.prems by (fastforce simp: Let_def split: if_splits)
  then show ?case
  proof cases
    case 1
    then show ?thesis using Cons.prems Cons.IH [of crit nd l] list_emb_Cons [of "(=)" l cs i] by auto
  next
    case 2
    then obtain l' where "stream_loop env cm limit cs (crit, nd) = Some (l', c, n)" "l = i # l'"
      using Cons.prems keep by (fastforce simp: Let_def)
    then show ?thesis using Cons.IH [of crit nd l'] by auto
  next
    case 3
    then obtain l' where "stream_loop env cm limit cs (crit, nd) = Some (l', c, n)" "l = i # l'"
      using Cons.prems keep by (fastforce simp: Let_def sel_wanted_def prio_of_def isExcluded_def isExcludedForDownloading_def split: if_splits)
    then show ?thesis using Cons.IH [of crit nd l'] by auto
  next
    case 4
    then obtain l' where "stream_loop env cm limit cs (if crit = INVALID_CHUNK \<or> numDownloadersForChunk env i < nd then (i, numDownloadersForChunk env i) else (crit, nd))
        = Some (l', c, n)" "l = i # l'"
      using Cons.prems keep by (fastforce simp: Let_def sel_wanted_def prio_of_def isExcluded_def isExcludedForDownloading_def)
    then show ?thesis using 4 Cons.IH [of crit nd l'] Cons.IH [of i "numDownloadersForChunk env i" l'] by (auto simp: streamable_def split: if_splits)
  next
    case 5
    then obtain l' where "stream_loop env cm limit cs (crit, nd) = Some (l', c, n)" "l = i # l'"
      using Cons.prems keep by (fastforce simp: Let_def sel_wanted_def prio_of_def isExcluded_def isExcludedForDownloading_def)
    then show ?thesis using Cons.IH [of crit nd l'] by auto
  next
    case 6
    then show ?thesis using Cons.prems by (auto simp: Let_def streamable_def sel_wanted_def prio_of_def isExcluded_def isExcludedForDownloading_def)
  qed
qed simp

text \<open>A preview chunk is selected without looking at its priority: one that was excluded since the start is downloaded again.\<close>

definition sample_streaming :: streaming where
  "sample_streaming = \<lparr>st_base = \<lparr>sel_chunks = [], sort_timer = 0\<rparr>, range_start = 0, range_end = 3, st_cursor = 0, critical_window_size = 1,
     st_range = [], preview_chunks = [2]\<rparr>"

lemma excluded_preview_selected:
  "map_option fst (stream_select sample_sel_env sample_manager sample_streaming) = Some (Some 2) \<and> isExcluded (cm_chunks sample_manager ! 2)"
  by code_simp

end
